(* ===== verification/Ingot_Prelude.thy ===== *)
theory Ingot_Prelude
  imports Main "HOL-Library.Word" "HOL-Library.Char_ord" "HOL-Library.List_Lexorder"
    "HOL-Library.DAList"
begin

text \<open>
  Shared vocabulary of the development: the byte-string types the Go code passes around
  (keys, CIDs, DIDs, multihashes), Go's \<open>(value, error)\<close> results as a sum type with its bind,
  Go maps as duplicate-free association lists, and the generic list lemmas that more than one
  component uses.

  Go compares strings bytewise; the order on \<^typ>\<open>string\<close> here is the lexicographic order of
  \<open>List_Lexorder\<close> over the byte order of \<open>Char_ord\<close>, the same order. A \<open>cid.Cid\<close> is a struct
  around its byte string whose undefined value is the empty one, so a CID is its bytes and
  \<open>cid.Undef\<close> is the empty string. DIDs and multihashes are compared for equality (and, for
  cursors, ordered) only.
\<close>

section \<open>Byte strings and times\<close>

type_synonym bytes = string
type_synonym cid = string
type_synonym did = string
type_synonym multihash = string

text \<open>\<open>time.Time\<close> in nanoseconds; the zero time (\<open>IsZero\<close>) is 0.\<close>

type_synonym time = int

definition cid_Undef :: cid where
  "cid_Undef = []"

definition cid_Defined :: "cid \<Rightarrow> bool" where
  "cid_Defined c \<longleftrightarrow> c \<noteq> cid_Undef"

definition IsZero :: "time \<Rightarrow> bool" where
  "IsZero t \<longleftrightarrow> t = 0"

section \<open>Results with errors\<close>

text \<open>\<open>Inl\<close> is the error return, \<open>Inr\<close> the value; \<open>bindE\<close> is the ubiquitous
  \<open>if err != nil { return err }\<close>.\<close>

definition bindE :: "'e + 'a \<Rightarrow> ('a \<Rightarrow> 'e + 'b) \<Rightarrow> 'e + 'b" where
  "bindE m f = (case m of Inl e \<Rightarrow> Inl e | Inr x \<Rightarrow> f x)"

lemma bindE_simps [simp]:
  "bindE (Inl e) f = Inl e"
  "bindE (Inr x) f = f x"
  by (simp_all add: bindE_def)

lemma bindE_eq_Inr: "bindE m f = Inr y \<longleftrightarrow> (\<exists>x. m = Inr x \<and> f x = Inr y)"
  by (cases m) auto

lemma bindE_eq_Inl: "bindE m f = Inl e \<longleftrightarrow> m = Inl e \<or> (\<exists>x. m = Inr x \<and> f x = Inl e)"
  by (cases m) auto

lemma bindE_cong [fundef_cong]:
  "m = m' \<Longrightarrow> (\<And>x. m' = Inr x \<Longrightarrow> f x = g x) \<Longrightarrow> bindE m f = bindE m' g"
  by (cases m') auto

text \<open>A callback-driven loop that stops at the first error: the state the callback threads and
  the error it stopped with.\<close>

fun fold_until :: "('s \<Rightarrow> 'a \<Rightarrow> 's \<times> 'e option) \<Rightarrow> 's \<Rightarrow> 'a list \<Rightarrow> 's \<times> 'e option" where
  "fold_until f s [] = (s, None)"
| "fold_until f s (x # xs) =
     (case f s x of (s', Some e) \<Rightarrow> (s', Some e) | (s', None) \<Rightarrow> fold_until f s' xs)"

lemma fold_until_append:
  "fold_until f s (xs @ ys) =
     (case fold_until f s xs of (s', Some e) \<Rightarrow> (s', Some e) | (s', None) \<Rightarrow> fold_until f s' ys)"
  by (induction xs arbitrary: s) (auto split: prod.splits option.splits)

text \<open>A field a step leaves alone, a loop of such steps leaves alone; a property every step keeps, the
  loop keeps.\<close>

lemma fold_frame: "(\<And>x m. f (g x m) = f m) \<Longrightarrow> f (fold g xs m) = f m"
  by (induction xs arbitrary: m) auto

lemma fold_invariant: "P m \<Longrightarrow> (\<And>x m. x \<in> set xs \<Longrightarrow> P m \<Longrightarrow> P (g x m)) \<Longrightarrow> P (fold g xs m)"
  by (induction xs arbitrary: m) auto

section \<open>Go maps\<close>

text \<open>A Go map is a duplicate-free association list (\<open>HOL-Library.DAList\<close>). Go iterates a map in
  an unspecified order; \<open>gm_items\<close> is one such order, and what is proved of a loop over it does
  not depend on which.\<close>

type_synonym ('k, 'v) gomap = "('k, 'v) alist"

abbreviation gm_empty :: "('k, 'v) gomap" where
  "gm_empty \<equiv> DAList.empty"

abbreviation gm_get :: "('k, 'v) gomap \<Rightarrow> 'k \<Rightarrow> 'v option" where
  "gm_get m k \<equiv> DAList.lookup m k"

abbreviation gm_put :: "'k \<Rightarrow> 'v \<Rightarrow> ('k, 'v) gomap \<Rightarrow> ('k, 'v) gomap" where
  "gm_put k v m \<equiv> DAList.update k v m"

abbreviation gm_del :: "'k \<Rightarrow> ('k, 'v) gomap \<Rightarrow> ('k, 'v) gomap" where
  "gm_del k m \<equiv> DAList.delete k m"

abbreviation gm_items :: "('k, 'v) gomap \<Rightarrow> ('k \<times> 'v) list" where
  "gm_items m \<equiv> DAList.impl_of m"

definition gm_count :: "('k \<Rightarrow> 'v \<Rightarrow> bool) \<Rightarrow> ('k, 'v) gomap \<Rightarrow> nat" where
  "gm_count P m = length (filter (\<lambda>(k, v). P k v) (gm_items m))"

definition gm_values :: "('k \<Rightarrow> 'v \<Rightarrow> bool) \<Rightarrow> ('k, 'v) gomap \<Rightarrow> 'v list" where
  "gm_values P m = map snd (filter (\<lambda>(k, v). P k v) (gm_items m))"

lemma gm_distinct [simp]: "distinct (map fst (gm_items m))"
  using impl_of [of m] by simp

lemma gm_get_map_of: "gm_get m k = map_of (gm_items m) k"
  by (simp add: DAList.lookup_def)

lemma gm_get_iff_items: "gm_get m k = Some v \<longleftrightarrow> (k, v) \<in> set (gm_items m)"
  by (simp add: gm_get_map_of)

lemma gm_get_empty [simp]: "gm_get gm_empty k = None"
  by (simp add: DAList.lookup_empty)

lemma gm_get_put [simp]: "gm_get (gm_put k v m) k' = (if k' = k then Some v else gm_get m k')"
  by (simp add: lookup_update)

lemma gm_get_del [simp]: "gm_get (gm_del k m) k' = (if k' = k then None else gm_get m k')"
  by (simp add: lookup_delete restrict_map_def)

lemma gm_count_eq_0: "gm_count P m = 0 \<longleftrightarrow> (\<forall>k v. gm_get m k = Some v \<longrightarrow> \<not> P k v)"
  by (auto simp: gm_count_def gm_get_iff_items filter_empty_conv)

lemma gm_count_pos: "0 < gm_count P m \<longleftrightarrow> (\<exists>k v. gm_get m k = Some v \<and> P k v)"
  using gm_count_eq_0 [of P m] by auto

lemma set_gm_values: "set (gm_values P m) = {v. \<exists>k. gm_get m k = Some v \<and> P k v}"
  by (force simp: gm_values_def gm_get_iff_items)

text \<open>A loop over a map that rewrites or deletes the entries it visits.\<close>

definition gm_each :: "('k \<Rightarrow> 'v \<Rightarrow> 'v option) \<Rightarrow> ('k, 'v) gomap \<Rightarrow> ('k, 'v) gomap" where
  "gm_each f m =
     fold (\<lambda>(k, v) acc. case f k v of None \<Rightarrow> gm_del k acc | Some v' \<Rightarrow> gm_put k v' acc) (gm_items m) m"

lemma gm_get_each_fold:
  "distinct (map fst xs) \<Longrightarrow>
   gm_get (fold (\<lambda>(k, v) acc. case f k v of None \<Rightarrow> gm_del k acc | Some v' \<Rightarrow> gm_put k v' acc) xs m) k =
     (case map_of xs k of None \<Rightarrow> gm_get m k | Some v \<Rightarrow> f k v)"
proof (induction xs arbitrary: m)
  case (Cons x xs)
  have "k \<notin> fst ` set xs \<Longrightarrow> map_of xs k = None" by (simp add: map_of_eq_None_iff)
  with Cons show ?case by (cases x) (auto split: option.split)
qed simp

lemma gm_get_each [simp]: "gm_get (gm_each f m) k = (case gm_get m k of None \<Rightarrow> None | Some v \<Rightarrow> f k v)"
  by (simp add: gm_each_def gm_get_each_fold gm_get_map_of [symmetric] split: option.split)

definition gm_filter :: "('k \<Rightarrow> 'v \<Rightarrow> bool) \<Rightarrow> ('k, 'v) gomap \<Rightarrow> ('k, 'v) gomap" where
  "gm_filter P = gm_each (\<lambda>k v. if P k v then Some v else None)"

lemma gm_get_filter [simp]:
  "gm_get (gm_filter P m) k = (case gm_get m k of None \<Rightarrow> None | Some v \<Rightarrow> if P k v then Some v else None)"
  by (simp add: gm_filter_def)

definition gm_is_empty :: "('k, 'v) gomap \<Rightarrow> bool" where
  "gm_is_empty m \<longleftrightarrow> gm_items m = []"

lemma gm_is_empty_iff: "gm_is_empty m \<longleftrightarrow> (\<forall>k. gm_get m k = None)"
  by (auto simp: gm_is_empty_def gm_get_map_of map_of_eq_None_iff)

text \<open>\<open>m[k]\<close> of a map of maps: the inner map, empty when the key is absent.\<close>

definition gm_inner :: "('k, ('a, 'b) gomap) gomap \<Rightarrow> 'k \<Rightarrow> ('a, 'b) gomap" where
  "gm_inner m k = (case gm_get m k of None \<Rightarrow> gm_empty | Some r \<Rightarrow> r)"

lemma gm_get_inner_put [simp]: "gm_inner (gm_put k r m) k' = (if k' = k then r else gm_inner m k')"
  by (simp add: gm_inner_def)

section \<open>Encoded records, cut short\<close>

text \<open>The records whose encodings lie wholly within the first \<open>j\<close> bytes of a file of records.\<close>

fun fit :: "('a \<Rightarrow> 'b list) \<Rightarrow> nat \<Rightarrow> 'a list \<Rightarrow> 'a list" where
  "fit enc j [] = []"
| "fit enc j (x # xs) = (if length (enc x) \<le> j then x # fit enc (j - length (enc x)) xs else [])"

lemma fit_all: "length (concat (map enc xs)) \<le> j \<Longrightarrow> fit enc j xs = xs"
  by (induction xs arbitrary: j) auto

lemma fit_prefix: "take (length (fit enc j xs)) xs = fit enc j xs"
  by (induction xs arbitrary: j) auto

lemma length_fit: "length (fit enc j xs) \<le> length xs"
  by (induction xs arbitrary: j) auto

lemma fit_append: "length (concat (map enc xs)) \<le> j \<Longrightarrow>
  fit enc j (xs @ ys) = xs @ fit enc (j - length (concat (map enc xs))) ys"
  by (induction xs arbitrary: j) auto

lemma length_concat_fit: "length (concat (map enc (fit enc j xs))) \<le> j"
proof (induction xs arbitrary: j)
  case (Cons x xs)
  from Cons.IH [of "j - length (enc x)"] show ?case by auto
qed simp

lemma fit_stops: "length (fit enc j xs) < length xs \<Longrightarrow>
  j < length (concat (map enc (fit enc j xs))) + length (enc (xs ! length (fit enc j xs)))"
proof (induction xs arbitrary: j)
  case (Cons x xs)
  from Cons.IH [of "j - length (enc x)"] Cons.prems show ?case by auto
qed simp

section \<open>Simulation\<close>

text \<open>A component is driven by commands, each answering a result. \<open>run_steps\<close> issues a list of
  commands; a component simulates a specification when related states answer every command alike
  and stay related.\<close>

fun run_steps :: "('c \<Rightarrow> 's \<Rightarrow> 's \<times> 'r) \<Rightarrow> 'c list \<Rightarrow> 's \<Rightarrow> 's \<times> 'r list" where
  "run_steps step [] s = (s, [])"
| "run_steps step (c # cs) s =
     (let (s', r) = step c s; (s'', rs) = run_steps step cs s' in (s'', r # rs))"

locale simulation =
  fixes rel :: "'s \<Rightarrow> 'a \<Rightarrow> bool"
    and step :: "'c \<Rightarrow> 's \<Rightarrow> 's \<times> 'r"
    and astep :: "'c \<Rightarrow> 'a \<Rightarrow> 'a \<times> 'r"
  assumes step_rel: "rel s a \<Longrightarrow> rel (fst (step c s)) (fst (astep c a))"
    and step_result: "rel s a \<Longrightarrow> snd (step c s) = snd (astep c a)"
begin

lemma run_simulates:
  "rel s a \<Longrightarrow> rel (fst (run_steps step cs s)) (fst (run_steps astep cs a))
    \<and> snd (run_steps step cs s) = snd (run_steps astep cs a)"
proof (induction cs arbitrary: s a)
  case (Cons c cs)
  then show ?case
    using Cons.IH [OF step_rel [OF Cons.prems], of c] step_result [OF Cons.prems, of c]
    by (simp add: Let_def split: prod.split) (metis fst_conv snd_conv)
qed simp

end

section \<open>Compare and swap\<close>

text \<open>A register advanced only by compare-and-swap. \<open>run_cas\<close> issues attempts one after the other
  (any interleaving of callers is such a sequence) and keeps the \<open>(expected, new)\<close> pairs of those
  that succeeded.\<close>

fun run_cas :: "('a \<Rightarrow> 'v \<Rightarrow> 'v \<Rightarrow> 's \<Rightarrow> 's \<times> bool) \<Rightarrow> ('a \<times> 'v \<times> 'v) list \<Rightarrow> 's \<Rightarrow> 's \<times> ('v \<times> 'v) list" where
  "run_cas cas [] s = (s, [])"
| "run_cas cas ((a, e, n) # xs) s =
     (let (s1, ok) = cas a e n s; (s2, won) = run_cas cas xs s1 in (s2, if ok then (e, n) # won else won))"

fun chained :: "'v \<Rightarrow> ('v \<times> 'v) list \<Rightarrow> 'v \<Rightarrow> bool" where
  "chained v [] v' \<longleftrightarrow> v = v'"
| "chained v ((e, n) # xs) v' \<longleftrightarrow> e = v \<and> chained n xs v'"

locale cas_register =
  fixes reads :: "'s \<Rightarrow> 'v option"
    and cas :: "'a \<Rightarrow> 'v \<Rightarrow> 'v \<Rightarrow> 's \<Rightarrow> 's \<times> bool"
  assumes cas_won: "cas a e n s = (s', True) \<Longrightarrow> reads s = Some e \<and> reads s' = Some n"
    and cas_lost: "cas a e n s = (s', False) \<Longrightarrow> s' = s"
begin

lemma successes_chain:
  "reads s = Some v \<Longrightarrow> run_cas cas xs s = (s', won) \<Longrightarrow> \<exists>v'. reads s' = Some v' \<and> chained v won v'"
proof (induction xs arbitrary: s v won)
  case (Cons x xs)
  obtain a e n s1 ok s2 w where x: "x = (a, e, n)" "cas a e n s = (s1, ok)" "run_cas cas xs s1 = (s2, w)"
    by (cases x; cases "cas (fst x) (fst (snd x)) (snd (snd x)) s"; cases "run_cas cas xs (fst (cas (fst x) (fst (snd x)) (snd (snd x)) s))") auto
  show ?case
  proof (cases ok)
    case True
    then have "reads s = Some e" "reads s1 = Some n" using cas_won x(2) by auto
    then show ?thesis using Cons.IH [of s1 n w] Cons.prems x True by auto
  next
    case False
    then have "s1 = s" using cas_lost x(2) by auto
    then show ?thesis using Cons.IH [of s v w] Cons.prems x False by auto
  qed
qed auto

lemma chained_from: "chained v won v' \<Longrightarrow> won \<noteq> [] \<Longrightarrow> fst (hd won) = v"
  by (cases won) auto

lemma single_winner:
  assumes "reads s = Some v" and "run_cas cas xs s = (s', won)"
    and "\<And>a e n. (a, e, n) \<in> set xs \<Longrightarrow> e = v0 \<and> n \<noteq> v0"
  shows "length won \<le> 1"
proof -
  have sub: "(e, n) \<in> set w \<Longrightarrow> \<exists>a. (a, e, n) \<in> set ys" if "run_cas cas ys t = (t', w)" for ys t t' w e n
    using that by (induction ys arbitrary: t w) (auto split: prod.splits if_splits, blast+)
  obtain v' where c: "chained v won v'" using successes_chain [OF assms(1,2)] by blast
  show ?thesis
  proof (rule ccontr)
    assume "\<not> length won \<le> 1"
    then obtain e n e' n' r where w: "won = (e, n) # (e', n') # r"
      by (cases won; cases "tl won") auto
    then have "e' = n" using c by simp
    moreover have "e' = v0" "n \<noteq> v0" using sub [OF assms(2)] w assms(3) by (metis list.set_intros)+
    ultimately show False by simp
  qed
qed

end

end
