(* ===== verification/Car_Codec.thy ===== *)
theory Car_Codec
  imports Ingot_Prelude
begin

text \<open>
  The CAR files of the log (\<open>src/cars/encoder.go\<close>, \<open>reader.go\<close>): length-prefixed frames of a CID
  and a block's bytes behind a header. The parsing of a CID and the construction of a block from its
  parts belong to the \<open>go-cid\<close> and \<open>go-block-format\<close> modules and are parameters; so is the CBOR
  header, which the reader only skips. Lengths and offsets are natural numbers where the code has an
  \<open>int64\<close> or \<open>uint64\<close> that counts bytes of a file; the one sum the code forms from a length it has read
  from the file is taken modulo \<open>2 ^ 64\<close>.
\<close>

record car_env =
  CidFromBytes :: "bytes \<Rightarrow> string + nat \<times> cid"
  NewBlockWithCid :: "bytes \<Rightarrow> cid \<Rightarrow> string + cid \<times> bytes"

datatype car_error = CarErr string | CarPanic string

section \<open>Writing\<close>

text \<open>\<open>binary.PutUvarint\<close>: seven bits per byte, low bits first, the top bit set on all but the last.\<close>

fun PutUvarint :: "nat \<Rightarrow> bytes" where
  "PutUvarint x = (if x \<ge> 128 then char_of (x mod 128 + 128) # PutUvarint (x div 128) else [char_of x])"

declare PutUvarint.simps [simp del]

definition uvarintLen :: "nat \<Rightarrow> nat" where
  "uvarintLen n = length (PutUvarint n)"

record BlockPosition =
  bp_CID :: cid
  bp_Offset :: nat
  bp_Length :: nat

definition FrameSize :: "cid \<Rightarrow> nat \<Rightarrow> nat" where
  "FrameSize c dataLen = (let frameLen = length c + dataLen in length (PutUvarint frameLen) + frameLen)"

text \<open>A counting writer is the number of bytes written so far; a write appends to the output.\<close>

definition writeBlock :: "cid \<times> bytes \<Rightarrow> nat \<times> bytes \<Rightarrow> BlockPosition \<times> nat \<times> bytes" where
  "writeBlock blk cw =
     (let (cidBytes, data) = blk;
          (n, out) = cw;
          prefix = PutUvarint (length cidBytes + length data);
          dataOffset = n + length prefix + length cidBytes
      in (\<lparr> bp_CID = cidBytes, bp_Offset = dataOffset, bp_Length = length data \<rparr>,
          dataOffset + length data, out @ prefix @ cidBytes @ data))"

fun writeBlocks :: "(cid \<times> bytes) list \<Rightarrow> nat \<times> bytes \<Rightarrow> BlockPosition list \<times> nat \<times> bytes" where
  "writeBlocks [] cw = ([], cw)"
| "writeBlocks (b # bs) cw =
     (let (pos, cw1) = writeBlock b cw;
          (ps, cw2) = writeBlocks bs cw1
      in (pos # ps, cw2))"

text \<open>The positions and the bytes a complete call writes.\<close>

definition WriteBlocksAt :: "nat \<Rightarrow> (cid \<times> bytes) list \<Rightarrow> BlockPosition list \<times> bytes" where
  "WriteBlocksAt fileOffset blks = (let (ps, _, out) = writeBlocks blks (fileOffset, []) in (ps, out))"

text \<open>The header's CBOR is opaque: only its length prefix matters to the reader.\<close>

definition WriteHeader :: "bytes \<Rightarrow> nat \<times> bytes" where
  "WriteHeader headerBytes =
     (let out = PutUvarint (length headerBytes) @ headerBytes in (length out, out))"

definition WriteWithPositions :: "bytes \<Rightarrow> (cid \<times> bytes) list \<Rightarrow> BlockPosition list \<times> bytes" where
  "WriteWithPositions headerBytes blks =
     (let (ps, _, out) = writeBlocks blks (WriteHeader headerBytes) in (ps, out))"

section \<open>Reading\<close>

datatype uvarint_error = UvarintEOF | UvarintOverflow

text \<open>\<open>x | uint64(b&0x7f) << s\<close>: the bits of \<open>x\<close> are below \<open>s\<close>, so the disjunction is a sum; bits shifted
  beyond the 64th are lost.\<close>

fun readUvarint :: "nat \<Rightarrow> nat \<Rightarrow> nat \<Rightarrow> bytes \<Rightarrow> uvarint_error + nat \<times> nat \<times> bytes" where
  "readUvarint x s n [] = Inl UvarintEOF"
| "readUvarint x s n (c # br) =
     (let b = of_char c :: nat; n' = n + 1
      in if b < 128 then
           if n' > 10 \<or> (n' = 10 \<and> b > 1) then Inl UvarintOverflow
           else Inr (x + (b * 2 ^ s) mod 2 ^ 64, n', br)
         else readUvarint (x + ((b mod 128) * 2 ^ s) mod 2 ^ 64) (s + 7) n' br)"

record Frame =
  fr_Block :: "cid \<times> bytes"
  fr_Offset :: nat
  fr_Length :: nat

record ScanResult =
  sr_Frames :: "Frame list"
  sr_LastGoodEnd :: nat
  sr_HeaderEnd :: nat

datatype scan_outcome = Scanned ScanResult | Torn ScanResult | ScanFailed car_error

definition int64 :: "int \<Rightarrow> int" where
  "int64 z = (z + 2 ^ 63) mod 2 ^ 64 - 2 ^ 63"

lemma readUvarint_shorter: "readUvarint x s n br = Inr (v, k, rest) \<Longrightarrow> length rest < length br"
  by (induction x s n br rule: readUvarint.induct) (fastforce simp: Let_def split: if_splits)+

text \<open>The frame loop of \<open>Scan\<close>: \<open>pos\<close> is the code's position, \<open>br\<close> the bytes not yet read. A length that
  wraps the sum negative passes the bound check, and allocating it panics.\<close>

function scanFrames :: "car_env \<Rightarrow> nat \<Rightarrow> nat \<Rightarrow> bytes \<Rightarrow> ScanResult \<Rightarrow> scan_outcome" where
  "scanFrames E sz pos br res =
     (if pos \<ge> sz then Scanned res
      else
        case readUvarint 0 0 0 br of
          Inl UvarintEOF \<Rightarrow> Torn res
        | Inl UvarintOverflow \<Rightarrow> ScanFailed (CarErr ''read frame len'')
        | Inr (frameLen, varSize, br1) \<Rightarrow>
            if int64 (int frameLen + int varSize + int pos) > int sz
            then Torn (res\<lparr> sr_LastGoodEnd := pos \<rparr>)
            else if frameLen > sz then ScanFailed (CarPanic ''makeslice: len out of range'')
            else if length br1 < frameLen then Torn (res\<lparr> sr_LastGoodEnd := pos \<rparr>)
            else
              let body = take frameLen br1
              in case CidFromBytes E body of
                   Inl e \<Rightarrow> ScanFailed (CarErr e)
                 | Inr (cidLen, c) \<Rightarrow>
                     case NewBlockWithCid E (drop cidLen body) c of
                       Inl e \<Rightarrow> ScanFailed (CarErr e)
                     | Inr blk \<Rightarrow>
                         let pos' = pos + varSize + frameLen
                         in scanFrames E sz pos' (drop frameLen br1)
                              (res\<lparr> sr_Frames := sr_Frames res @
                                     [\<lparr> fr_Block = blk, fr_Offset = pos + varSize + cidLen,
                                        fr_Length = length body - cidLen \<rparr>],
                                   sr_LastGoodEnd := pos' \<rparr>))"
  by pat_completeness auto
termination
  by (relation "measure (\<lambda>(E, sz, pos, br, res). length br)")
     (auto dest!: readUvarint_shorter)

declare scanFrames.simps [simp del]

text \<open>The header length is read by \<open>binary.ReadUvarint\<close>, whose accepted inputs are those of
  \<open>readUvarint\<close> above.\<close>

definition Scan :: "car_env \<Rightarrow> bytes \<Rightarrow> nat \<Rightarrow> scan_outcome" where
  "Scan E r sz =
     (case readUvarint 0 0 0 r of
        Inl _ \<Rightarrow> ScanFailed (CarErr ''read header len'')
      | Inr (headerLen, _, br) \<Rightarrow>
          if length br < headerLen then ScanFailed (CarErr ''skip header'')
          else
            let headerEnd = uvarintLen headerLen + headerLen
            in scanFrames E sz headerEnd (drop headerLen br)
                 \<lparr> sr_Frames = [], sr_LastGoodEnd = headerEnd, sr_HeaderEnd = headerEnd \<rparr>)"

definition ScanFile :: "car_env \<Rightarrow> bytes \<Rightarrow> scan_outcome" where
  "ScanFile E file = Scan E file (length file)"

section \<open>Varints\<close>

lemma PutUvarint_not_Nil [simp]: "PutUvarint n \<noteq> []"
  by (subst PutUvarint.simps) auto

lemma length_PutUvarint_le: "n < 128 ^ m \<Longrightarrow> 0 < m \<Longrightarrow> length (PutUvarint n) \<le> m"
proof (induction n arbitrary: m rule: PutUvarint.induct)
  case (1 x)
  show ?case
  proof (cases "x \<ge> 128")
    case True
    then have m: "1 < m" using "1.prems" by (cases "m = 1") auto
    then have "x div 128 < 128 ^ (m - 1)"
      using "1.prems" by (intro less_mult_imp_div_less) (simp flip: power_Suc2)
    then have "length (PutUvarint (x div 128)) \<le> m - 1"
      using "1.IH" [OF True] m by simp
    then show ?thesis using True m by (subst PutUvarint.simps) simp
  qed (use 1 in \<open>subst PutUvarint.simps, simp\<close>)
qed

lemma readUvarint_Put:
  "k + length (PutUvarint n) \<le> 9 \<Longrightarrow>
   readUvarint x (7 * k) k (PutUvarint n @ rest) = Inr (x + n * 2 ^ (7 * k), k + length (PutUvarint n), rest)"
proof (induction n arbitrary: x k rule: PutUvarint.induct)
  case (1 n)
  show ?case
  proof (cases "n \<ge> 128")
    case True
    have put: "PutUvarint n = char_of (n mod 128 + 128) # PutUvarint (n div 128)"
      using True by (subst PutUvarint.simps) simp
    have k: "k < 9" using "1.prems" put by simp
    have byte: "(of_char (char_of (n mod 128 + 128) :: char) :: nat) = n mod 128 + 128"
      by (simp add: of_char_of)
    have "(n mod 128) * 2 ^ (7 * k) < 2 ^ 7 * (2 ^ (7 * k) :: nat)" by simp
    also have "\<dots> = 2 ^ (7 + 7 * k)" by (simp only: power_add)
    also have "\<dots> \<le> (2 :: nat) ^ 64" using k by (intro power_increasing) auto
    finally have fits: "((n mod 128) * 2 ^ (7 * k)) mod 18446744073709551616 = (n mod 128) * (2 ^ (7 * k) :: nat)" by simp
    have "readUvarint x (7 * k) k (PutUvarint n @ rest)
        = readUvarint (x + (n mod 128) * 2 ^ (7 * k)) (7 * Suc k) (Suc k) (PutUvarint (n div 128) @ rest)"
      by (simp add: put byte fits add.commute)
    also have "\<dots> = Inr (x + (n mod 128) * 2 ^ (7 * k) + (n div 128) * 2 ^ (7 * Suc k),
        Suc k + length (PutUvarint (n div 128)), rest)"
      using "1.IH" [OF True, of "Suc k"] "1.prems" by (simp add: put)
    also have "x + (n mod 128) * 2 ^ (7 * k) + (n div 128) * 2 ^ (7 * Suc k) = x + n * 2 ^ (7 * k)"
    proof -
      have "(n div 128) * 2 ^ (7 * Suc k) = (128 * (n div 128)) * 2 ^ (7 * k)" by (simp add: power_add)
      moreover have "(n mod 128) * 2 ^ (7 * k) + (128 * (n div 128)) * 2 ^ (7 * k) = n * 2 ^ (7 * k)"
        by (metis add_mult_distrib mod_mult_div_eq)
      ultimately show ?thesis by linarith
    qed
    finally show ?thesis by (simp add: put)
  next
    case False
    have put: "PutUvarint n = [char_of n]" using False by (subst PutUvarint.simps) simp
    have byte: "(of_char (char_of n :: char) :: nat) = n" using False by (simp add: of_char_of)
    have k: "k < 9" using "1.prems" put by simp
    have "n * 2 ^ (7 * k) < 2 ^ 7 * (2 ^ (7 * k) :: nat)" using False by simp
    also have "\<dots> = 2 ^ (7 + 7 * k)" by (simp only: power_add)
    also have "\<dots> \<le> (2 :: nat) ^ 64" using k by (intro power_increasing) auto
    finally show ?thesis using False k by (simp add: put byte)
  qed
qed

lemma readUvarint_cut:
  "j < length (PutUvarint n) \<Longrightarrow> readUvarint x s k (take j (PutUvarint n)) = Inl UvarintEOF"
proof (induction n arbitrary: x s k j rule: PutUvarint.induct)
  case (1 n)
  show ?case
  proof (cases "n \<ge> 128 \<and> 0 < j")
    case True
    have put: "PutUvarint n = char_of (n mod 128 + 128) # PutUvarint (n div 128)"
      using True by (subst PutUvarint.simps) simp
    have byte: "(of_char (char_of (n mod 128 + 128) :: char) :: nat) = n mod 128 + 128"
      by (simp add: of_char_of)
    obtain i where "j = Suc i" using True by (cases j) auto
    then show ?thesis using 1 True by (simp add: put byte)
  next
    case False
    then have "j = 0" using "1.prems" by (subst (asm) PutUvarint.simps) (auto split: if_splits)
    then show ?thesis by simp
  qed
qed

section \<open>Frames\<close>

definition frame :: "cid \<times> bytes \<Rightarrow> bytes" where
  "frame b = PutUvarint (length (fst b) + length (snd b)) @ fst b @ snd b"

abbreviation frames :: "(cid \<times> bytes) list \<Rightarrow> bytes" where
  "frames bs \<equiv> concat (map frame bs)"

lemma frame_not_Nil [simp]: "frame b \<noteq> []"
  by (simp add: frame_def)

definition payload_at :: "nat \<Rightarrow> cid \<times> bytes \<Rightarrow> nat" where
  "payload_at n b = n + length (PutUvarint (length (fst b) + length (snd b))) + length (fst b)"

fun framesAt :: "nat \<Rightarrow> (cid \<times> bytes) list \<Rightarrow> Frame list" where
  "framesAt n [] = []"
| "framesAt n (b # bs) =
     \<lparr> fr_Block = b, fr_Offset = payload_at n b, fr_Length = length (snd b) \<rparr> # framesAt (n + length (frame b)) bs"

definition posOf :: "Frame \<Rightarrow> BlockPosition" where
  "posOf f = \<lparr> bp_CID = fst (fr_Block f), bp_Offset = fr_Offset f, bp_Length = fr_Length f \<rparr>"

lemma framesAt_blocks [simp]: "map fr_Block (framesAt n bs) = bs" "length (framesAt n bs) = length bs"
  by (induction bs arbitrary: n) auto

lemma framesAt_Nil_iff [simp]: "framesAt n bs = [] \<longleftrightarrow> bs = []"
  by (cases bs) auto

lemma framesAt_append: "framesAt n (as @ bs) = framesAt n as @ framesAt (n + length (frames as)) bs"
  by (induction as arbitrary: n) (auto simp: add.assoc)

lemma FrameSize_frame: "FrameSize c (length d) = length (frame (c, d))"
  by (simp add: FrameSize_def frame_def Let_def)

lemma writeBlocks_frames:
  "writeBlocks bs (n, out) = (map posOf (framesAt n bs), n + length (frames bs), out @ frames bs)"
  by (induction bs arbitrary: n out)
     (auto simp: writeBlock_def posOf_def payload_at_def frame_def Let_def add.assoc split: prod.splits)

lemma WriteBlocksAt_frames: "WriteBlocksAt n bs = (map posOf (framesAt n bs), frames bs)"
  by (simp add: WriteBlocksAt_def writeBlocks_frames)

lemma framesAt_slice:
  assumes "f \<in> set (framesAt (length pre) bs)"
  shows "take (fr_Length f) (drop (fr_Offset f) (pre @ frames bs @ post)) = snd (fr_Block f)
    \<and> fr_Length f = length (snd (fr_Block f)) \<and> fr_Offset f + fr_Length f \<le> length pre + length (frames bs)"
  using assms
proof (induction bs arbitrary: pre)
  case (Cons b bs)
  show ?case
  proof (cases "f \<in> set (framesAt (length (pre @ frame b)) bs)")
    case True
    from Cons.IH [OF True] show ?thesis
      unfolding list.map concat.simps append_assoc length_append add.assoc .
  next
    case False
    then have "f = \<lparr> fr_Block = b, fr_Offset = payload_at (length pre) b, fr_Length = length (snd b) \<rparr>"
      using Cons.prems by auto
    then show ?thesis by (simp add: payload_at_def frame_def)
  qed
qed simp

section \<open>Scanning what was written, whole or cut short\<close>

definition car_ok :: "car_env \<Rightarrow> (cid \<times> bytes) list \<Rightarrow> bool" where
  "car_ok E bs \<longleftrightarrow> (\<forall>b \<in> set bs. (\<forall>x. CidFromBytes E (fst b @ x) = Inr (length (fst b), fst b))
     \<and> NewBlockWithCid E (snd b) (fst b) = Inr b)"

definition scan_end :: "bool \<Rightarrow> ScanResult \<Rightarrow> scan_outcome" where
  "scan_end whole res = (if whole then Scanned res else Torn res)"

lemma int64_small: "0 \<le> z \<Longrightarrow> z < 2 ^ 63 \<Longrightarrow> int64 z = z"
  by (simp add: int64_def)

lemma readUvarint_frame:
  assumes "length c + length d < 2 ^ 63"
  shows "readUvarint 0 0 0 (frame (c, d) @ rest) =
    Inr (length c + length d, length (PutUvarint (length c + length d)), c @ d @ rest)"
proof -
  have "length (PutUvarint (length c + length d)) \<le> 9"
    using assms by (intro length_PutUvarint_le) simp_all
  then show ?thesis
    using readUvarint_Put [of 0 "length c + length d" 0 "c @ d @ rest"] by (simp add: frame_def)
qed

text \<open>A frame cut short: within its length prefix the varint runs out, within its body the bound check
  refuses it. Either way the scan ends where the frame starts.\<close>

lemma scan_cut_frame:
  assumes "j < length (frame b)" and "0 < j" and "pos + length (frame b) < 2 ^ 63"
    and "sr_LastGoodEnd res = pos"
  shows "scanFrames E (pos + j) pos (take j (frame b @ rest)) res = Torn res"
proof -
  obtain c d where b: "b = (c, d)" by fastforce
  let ?v = "PutUvarint (length c + length d)"
  have len: "length (frame b) = length ?v + (length c + length d)" by (simp add: b frame_def)
  show ?thesis
  proof (cases "j < length ?v")
    case True
    then have "take j (frame b @ rest) = take j ?v" by (simp add: b frame_def)
    then show ?thesis using True assms(2)
      by (subst scanFrames.simps) (simp add: readUvarint_cut)
  next
    case False
    define br where "br = take j (frame b @ rest)"
    have cut: "br = ?v @ take (j - length ?v) (c @ d @ rest)"
      using False by (simp add: br_def b frame_def)
    have "length ?v \<le> 9" using assms(3) len by (intro length_PutUvarint_le) simp_all
    then have rd: "readUvarint 0 0 0 br =
        Inr (length c + length d, length ?v, take (j - length ?v) (c @ d @ rest))"
      unfolding cut using readUvarint_Put [of 0 "length c + length d" 0] by simp
    have "int64 (int (length c + length d) + int (length ?v) + int pos) = int (pos + length (frame b))"
      using assms(3) len by (subst int64_small) auto
    then have "int64 (int (length c + length d) + int (length ?v) + int pos) > int (pos + j)"
      using assms(1) by simp
    moreover have "res\<lparr> sr_LastGoodEnd := pos \<rparr> = res" using assms(4) by simp
    ultimately show ?thesis using assms(2) unfolding br_def [symmetric]
      by (subst scanFrames.simps) (simp add: rd)
  qed
qed

lemma scan_whole_frame:
  assumes "car_ok E [b]" and "pos + length (frame b) \<le> sz" and "sz < 2 ^ 63"
  shows "scanFrames E sz pos (frame b @ rest) res = scanFrames E sz (pos + length (frame b)) rest
    (res\<lparr> sr_Frames := sr_Frames res @ framesAt pos [b], sr_LastGoodEnd := pos + length (frame b) \<rparr>)"
proof -
  obtain c d where b: "b = (c, d)" by fastforce
  let ?v = "PutUvarint (length c + length d)"
  have len: "length (frame b) = length ?v + (length c + length d)" by (simp add: b frame_def)
  have env: "CidFromBytes E (c @ d) = Inr (length c, c)" "NewBlockWithCid E d c = Inr (c, d)"
    using assms(1) by (auto simp: car_ok_def b)
  have "length c + length d < 2 ^ 63" using assms(2,3) len by simp
  then have rd: "readUvarint 0 0 0 (frame b @ rest) = Inr (length c + length d, length ?v, c @ d @ rest)"
    using readUvarint_frame by (simp add: b)
  have "int64 (int (length c + length d) + int (length ?v) + int pos) = int (pos + length (frame b))"
    using assms(2,3) len by (subst int64_small) auto
  then have bound: "\<not> int64 (int (length c + length d) + int (length ?v) + int pos) > int sz"
    using assms(2) by simp
  have "pos < sz" using assms(2) frame_not_Nil [of b] by (cases "frame b") auto
  then show ?thesis using assms(2) len bound
    by (subst scanFrames.simps) (simp add: rd [unfolded b] env Let_def payload_at_def b add.assoc)
qed

lemma scanFrames_cut:
  assumes "car_ok E bs" and "j \<le> length (frames bs)" and "pos + length (frames bs) < 2 ^ 63"
    and "sr_LastGoodEnd res = pos"
  shows "scanFrames E (pos + j) pos (take j (frames bs)) res =
    scan_end (length (frames (fit frame j bs)) = j)
      (res\<lparr> sr_Frames := sr_Frames res @ framesAt pos (fit frame j bs),
           sr_LastGoodEnd := pos + length (frames (fit frame j bs)) \<rparr>)"
  using assms
proof (induction bs arbitrary: j pos res)
  case Nil
  then show ?case by (subst scanFrames.simps) (simp add: scan_end_def)
next
  case (Cons b bs)
  show ?case
  proof (cases "length (frame b) \<le> j")
    case True
    let ?j = "j - length (frame b)"
    let ?res = "res\<lparr> sr_Frames := sr_Frames res @ framesAt pos [b], sr_LastGoodEnd := pos + length (frame b) \<rparr>"
    have "scanFrames E (pos + j) pos (take j (frames (b # bs))) res =
        scanFrames E (pos + j) (pos + length (frame b)) (take ?j (frames bs)) ?res"
      using Cons.prems True scan_whole_frame [of E b pos "pos + j" "take ?j (frames bs)" res]
      by (simp add: car_ok_def)
    also have "pos + j = (pos + length (frame b)) + ?j" using True by simp
    also have "scanFrames E \<dots> (pos + length (frame b)) (take ?j (frames bs)) ?res =
        scan_end (length (frames (fit frame ?j bs)) = ?j)
          (?res\<lparr> sr_Frames := sr_Frames ?res @ framesAt (pos + length (frame b)) (fit frame ?j bs),
                sr_LastGoodEnd := pos + length (frame b) + length (frames (fit frame ?j bs)) \<rparr>)"
      using Cons.prems True by (intro Cons.IH) (auto simp: car_ok_def)
    finally show ?thesis using True by (auto simp: scan_end_def add.assoc)
  next
    case False
    show ?thesis
    proof (cases "j = 0")
      case True
      then show ?thesis using False Cons.prems(4) by (subst scanFrames.simps) (simp add: scan_end_def)
    next
      case j: False
      have "res\<lparr> sr_LastGoodEnd := pos \<rparr> = res" using Cons.prems(4) by simp
      then show ?thesis
        using False j Cons.prems scan_cut_frame [of j b pos res E "frames bs"]
        by (simp add: scan_end_def)
    qed
  qed
qed

text \<open>Scanning a file of which everything from some byte behind the header on is lost.\<close>

lemma Scan_cut:
  assumes "car_ok E bs" and "j \<le> length (frames bs)"
    and "length (PutUvarint (length hdr)) + length hdr + length (frames bs) < 2 ^ 63"
  shows "ScanFile E (snd (WriteHeader hdr) @ take j (frames bs)) =
    (let h = fst (WriteHeader hdr)
     in scan_end (length (frames (fit frame j bs)) = j)
          \<lparr> sr_Frames = framesAt h (fit frame j bs), sr_LastGoodEnd = h + length (frames (fit frame j bs)), sr_HeaderEnd = h \<rparr>)"
proof -
  let ?v = "PutUvarint (length hdr)"
  have "length ?v \<le> 9" using assms(3) by (intro length_PutUvarint_le) simp_all
  then have rd: "readUvarint 0 0 0 (?v @ hdr @ take j (frames bs)) = Inr (length hdr, length ?v, hdr @ take j (frames bs))"
    using readUvarint_Put [of 0 "length hdr" 0] by simp
  show ?thesis
    using scanFrames_cut [OF assms(1,2), of "length ?v + length hdr"
      "\<lparr> sr_Frames = [], sr_LastGoodEnd = length ?v + length hdr, sr_HeaderEnd = length ?v + length hdr \<rparr>"] assms(2,3)
    by (simp add: ScanFile_def Scan_def WriteHeader_def Let_def rd uvarintLen_def min_absorb2 add.assoc)
qed

lemma WriteWithPositions_frames:
  "WriteWithPositions hdr bs = (map posOf (framesAt (fst (WriteHeader hdr)) bs), snd (WriteHeader hdr) @ frames bs)"
  by (simp add: WriteWithPositions_def writeBlocks_frames WriteHeader_def Let_def)

lemma length_frames: "length (frames bs) = sum_list (map (\<lambda>b. FrameSize (fst b) (length (snd b))) bs)"
  by (induction bs) (auto simp: FrameSize_frame)

definition demo_car_env :: car_env where
  "demo_car_env = \<lparr> CidFromBytes = (\<lambda>b. case b of [] \<Rightarrow> Inl ''short'' | c # _ \<Rightarrow> Inr (1, [c])),
     NewBlockWithCid = (\<lambda>d c. Inr (c, d)) \<rparr>"

definition demo_blocks :: "(cid \<times> bytes) list" where
  "demo_blocks = [(''A'', ''hello''), (''B'', ''world'')]"

lemma demo_car_ok: "car_ok demo_car_env demo_blocks"
  by (simp add: car_ok_def demo_car_env_def demo_blocks_def)

text \<open>C35. A CAR that was cut off at any byte behind its header scans to exactly the blocks whose frames
  are whole, in order and at the positions the writer reported, with the byte where the last of them
  ends; the scan reports a torn tail exactly when the cut falls inside a frame. It never fails.\<close>

theorem ScanFile_recovers_whole_frames:
  assumes "WriteWithPositions hdr bs = (ps, file)" and "car_ok E bs" and "length file < 2 ^ 63"
    and "fst (WriteHeader hdr) \<le> k" and "k \<le> length file"
  shows "\<exists>n res. ScanFile E (take k file) = (if sr_LastGoodEnd res = k then Scanned res else Torn res)
    \<and> n \<le> length bs \<and> map fr_Block (sr_Frames res) = take n bs \<and> map posOf (sr_Frames res) = take n ps
    \<and> sr_LastGoodEnd res = fst (WriteHeader hdr) + sum_list (map (\<lambda>b. FrameSize (fst b) (length (snd b))) (take n bs))
    \<and> sr_LastGoodEnd res \<le> k
    \<and> (n < length bs \<longrightarrow> k < sr_LastGoodEnd res + FrameSize (fst (bs ! n)) (length (snd (bs ! n))))"
proof -
  let ?h = "fst (WriteHeader hdr)"
  let ?j = "k - ?h"
  let ?res = "\<lparr> sr_Frames = framesAt ?h (fit frame ?j bs), sr_LastGoodEnd = ?h + length (frames (fit frame ?j bs)), sr_HeaderEnd = ?h \<rparr>"
  have h: "length (snd (WriteHeader hdr)) = ?h" "?h = length (PutUvarint (length hdr)) + length hdr"
    by (simp_all add: WriteHeader_def Let_def)
  have layout: "file = snd (WriteHeader hdr) @ frames bs" "ps = map posOf (framesAt ?h bs)"
    using assms(1) by (auto simp: WriteWithPositions_frames)
  have cut: "take k file = snd (WriteHeader hdr) @ take ?j (frames bs)" "?j \<le> length (frames bs)"
    using assms(4,5) h(1) by (auto simp: layout(1))
  have "ScanFile E (take k file) = scan_end (length (frames (fit frame ?j bs)) = ?j) ?res"
    unfolding cut(1) using Scan_cut [OF assms(2) cut(2), of hdr] assms(3) h by (simp add: layout(1) Let_def)
  then have scan: "ScanFile E (take k file) = (if sr_LastGoodEnd ?res = k then Scanned ?res else Torn ?res)"
    using assms(4) by (auto simp: scan_end_def)
  have pre: "fit frame ?j bs = take (length (fit frame ?j bs)) bs" by (simp add: fit_prefix)
  have le: "length (fit frame ?j bs) \<le> length bs" by (rule length_fit)
  have ps: "map posOf (sr_Frames ?res) = take (length (fit frame ?j bs)) ps"
  proof -
    have "bs = fit frame ?j bs @ drop (length (fit frame ?j bs)) bs" by (metis append_take_drop_id pre)
    then have "framesAt ?h bs = framesAt ?h (fit frame ?j bs) @ framesAt (?h + length (frames (fit frame ?j bs))) (drop (length (fit frame ?j bs)) bs)"
      by (metis framesAt_append)
    then show ?thesis by (simp add: layout(2))
  qed
  have "n < length bs \<longrightarrow> k < ?h + length (frames (fit frame ?j bs)) + FrameSize (fst (bs ! n)) (length (snd (bs ! n)))"
    if "n = length (fit frame ?j bs)" for n
    using fit_stops [of frame ?j bs] assms(4) that by (auto simp: FrameSize_frame)
  moreover have "?h + length (frames (fit frame ?j bs)) \<le> k" using length_concat_fit [of frame ?j bs] assms(4) by simp
  moreover have "?h + length (frames (fit frame ?j bs)) = ?h + sum_list (map (\<lambda>b. FrameSize (fst b) (length (snd b))) (take (length (fit frame ?j bs)) bs))"
    using pre by (simp add: length_frames)
  ultimately show ?thesis using scan ps le pre
    by (intro exI [of _ "length (fit frame ?j bs)"] exI [of _ ?res]) simp
qed

theorem ScanFile_recovers_whole_frames_witness:
  "\<exists>n res. ScanFile demo_car_env (take 11 (snd (WriteWithPositions ''H'' demo_blocks))) =
      (if sr_LastGoodEnd res = 11 then Scanned res else Torn res)
    \<and> n \<le> length demo_blocks \<and> map fr_Block (sr_Frames res) = take n demo_blocks"
proof -
  have "length (snd (WriteWithPositions ''H'' demo_blocks)) = 16" "fst (WriteHeader ''H'') = 2"
    by (simp_all add: WriteWithPositions_frames WriteHeader_def demo_blocks_def frame_def PutUvarint.simps)
  then show ?thesis
    using ScanFile_recovers_whole_frames [of "''H''" demo_blocks "fst (WriteWithPositions ''H'' demo_blocks)"
      "snd (WriteWithPositions ''H'' demo_blocks)" demo_car_env 11] demo_car_ok
    by fastforce
qed

end
