(* ===== verification/Mem_State.thy ===== *)
theory Mem_State
  imports Ingot_Prelude
begin

text \<open>
  The rows of the registry (\<open>src/registry/registry.go\<close>, \<open>stores.go\<close>, \<open>uploadreg.go\<close>), the log's
  segment rows (\<open>src/logstore/types.go\<close>) and the state of the in-memory store that keeps them
  (\<open>src/inmem/store.go\<close>). The store's mutex makes every method atomic, so a method is a function on
  the state; a method that reads the clock takes the time it read as its last argument. A byte
  slice the store clones on the way in and out is a value here, and cloning is the identity.
  Sequence numbers keep their 64 bits; sizes and times are integers.
\<close>

section \<open>Registry rows\<close>

datatype registry_error =
    RegErrNotFound
  | RegErrReleaseInProgress
  | RegErrClaimGone
  | RegErrNotEmpty
  | RegErrExists
  | RegErrConflict
  | RegErrOther string

datatype VersioningState = VersioningUnversioned | VersioningEnabled | VersioningSuspended

definition Configured :: "VersioningState \<Rightarrow> bool" where
  "Configured s \<longleftrightarrow> s = VersioningEnabled \<or> s = VersioningSuspended"

datatype BucketEncryption = BucketEncryptionUnset | BucketEncryptionAES256 | BucketEncryptionNone

record State =
  st_Name :: string
  st_Space :: did
  st_Tenant :: did
  st_Root :: cid
  st_ForgeRoot :: cid
  st_Versioning :: VersioningState
  st_ObjectLockConfig :: "bytes option"
  st_BucketTagging :: "bytes option"
  st_CORSConfig :: "bytes option"
  st_Encryption :: BucketEncryption
  st_CreatedAt :: time

text \<open>\<open>Versioning\<close> is \<open>None\<close> for the empty string, which means unversioned.\<close>

record CreateState =
  cs_Tenant :: did
  cs_Versioning :: "VersioningState option"
  cs_ObjectLockConfig :: "bytes option"

record BlobClaim =
  claim_Digest :: multihash
  claim_Bucket :: string
  claim_ObjectKey :: string
  claim_VersionID :: string
  claim_Space :: did

record ClaimDrop =
  drop_Digest :: multihash
  drop_Bucket :: string
  drop_ObjectKey :: string
  drop_VersionID :: string
  drop_Space :: did

datatype IntentState = IntentSpooled | IntentUploading | IntentParked | IntentAccepted | IntentPublished

record UploadIntent =
  in_Space :: did
  in_Digest :: multihash
  in_LocalPath :: string
  in_Size :: int
  in_State :: IntentState
  in_Bucket :: string
  in_UpdatedAt :: time

record EvictCursor =
  ec_UpdatedAt :: time
  ec_Digest :: multihash
  ec_Space :: did

record StalledSizes =
  ss_Spooled :: int
  ss_Uploading :: int

record BlobLocation =
  loc_Space :: did
  loc_Digest :: multihash
  loc_Provider :: string
  loc_URL :: string
  loc_Size :: int

record BlobEncryptionParams =
  ep_Space :: did
  ep_Digest :: multihash
  ep_RegionWrappedCEK :: bytes
  ep_RegionKeyVersion :: string
  ep_HeaderLen :: int
  ep_AAD :: bytes

record BlobInclusion =
  inc_Space :: did
  inc_Digest :: multihash
  inc_ShardDigest :: multihash
  inc_RangeStart :: int
  inc_RangeEnd :: int

record BlobPark =
  park_Space :: did
  park_Digest :: multihash
  park_AddTask :: bytes
  park_AcceptTask :: bytes
  park_PutInvocation :: bytes
  park_Size :: int
  park_CreatedAt :: time

record BlobStream =
  bs_AddTask :: bytes
  bs_Space :: did
  bs_Bucket :: string
  bs_Size :: int
  bs_CreatedAt :: time
  bs_TouchedAt :: time

record PendingRelease =
  pr_Space :: did
  pr_Digest :: multihash
  pr_NotBefore :: time
  pr_StartedAt :: time

datatype ReleaseStart = ReleaseStarted | ReleaseCancelled | ReleaseClaimed | ReleaseReferenced
datatype ReleaseCancel = ReleaseNone | ReleaseCancelledByWrite | ReleaseInProgress

text \<open>A session's state is \<open>None\<close> for the empty string, which \<open>CreateSession\<close> records as open; the
  same for a part's.\<close>

datatype SessionState = SessionOpen | SessionCompleting | SessionAborting | SessionCompleted

record MultipartSession =
  ms_UploadID :: string
  ms_Bucket :: string
  ms_ObjectKey :: string
  ms_Space :: did
  ms_State :: "SessionState option"
  ms_ContentType :: string
  ms_ContentEncoding :: string
  ms_ContentDisposition :: string
  ms_ContentLanguage :: string
  ms_CacheControl :: string
  ms_Expires :: string
  ms_WebsiteRedirectLocation :: string
  ms_ChecksumAlgorithm :: string
  ms_ChecksumType :: string
  ms_LockMode :: string
  ms_LockRetainUntil :: "time option"
  ms_LockLegalHold :: string
  ms_Tagging :: string
  ms_Metadata :: "(string, string) gomap"
  ms_Plaintext :: bool
  ms_CommittedETag :: string
  ms_CommittedVersionID :: string
  ms_CreatedAt :: time
  ms_StateChangedAt :: time

datatype PartState = PartSpooled | PartParked | PartAccepted

record MultipartPart =
  mp_UploadID :: string
  mp_PartNumber :: int
  mp_ETagMD5 :: bytes
  mp_Size :: int
  mp_Checksum :: string
  mp_BlobDigests :: "multihash list"
  mp_SpanLengths :: "int list option"
  mp_State :: "PartState option"
  mp_CreatedAt :: time

record PartTree =
  pt_Offset :: int
  pt_ChunkLog :: "8 word"
  pt_Nodes :: bytes
  pt_Blocks :: bytes
  pt_Head :: bytes
  pt_Tail :: bytes
  pt_Root :: bytes

datatype UploadRegistrationOp = UploadRegistrationAdd | UploadRegistrationRemove

record UploadRegistration =
  reg_Seq :: int
  reg_Bucket :: string
  reg_ObjectKey :: string
  reg_Space :: did
  reg_Root :: cid
  reg_Op :: UploadRegistrationOp
  reg_Attempts :: int
  reg_NextAt :: time
  reg_Proofs :: bytes
  reg_DeadLetteredAt :: "time option"
  reg_DeadLetterReason :: string

definition DeadLettered :: "UploadRegistration \<Rightarrow> bool" where
  "DeadLettered r \<longleftrightarrow> reg_DeadLetteredAt r \<noteq> None"

record RevocationCursor =
  rc_RecordedAt :: time
  rc_Revoke :: cid

record CatalogUsage =
  cu_Bucket :: string
  cu_Space :: did
  cu_Bytes :: int
  cu_DeadOnArrivalBytes :: int
  cu_UnmeasuredBytes :: int

record CatalogJournalStats =
  cj_Blocks :: int
  cj_Bytes :: int
  cj_Oldest :: time

section \<open>Log rows\<close>

type_synonym seqno = "64 word"

record OpRoot =
  op_Bucket :: string
  op_Root :: cid

record Appended =
  ap_Segment :: seqno
  ap_Blocks :: "(cid \<times> bytes) list"

datatype Plane = PlaneCatalog
datatype SegState = StateOpen | StateSealed

record SegmentMeta =
  seg_Seq :: seqno
  seg_Plane :: Plane
  seg_Bucket :: string
  seg_State :: SegState
  seg_SealedAt :: int
  seg_Size :: int
  seg_SHA256 :: bytes
  seg_ShippedAt :: int
  seg_IndexDigest :: "multihash option"
  seg_DeadBytes :: int
  seg_RetiredAt :: int
  seg_OpRoots :: "OpRoot list"

record RootCommit =
  rcm_Registrations :: "UploadRegistration list"
  rcm_Claims :: "BlobClaim list"
  rcm_Pins :: "BlobClaim list"
  rcm_Drops :: "ClaimDrop list"
  rcm_ReleaseGrace :: time
  rcm_Journal :: Appended

definition emptyAppended :: Appended where
  "emptyAppended = \<lparr> ap_Segment = 0, ap_Blocks = [] \<rparr>"

definition emptyCommit :: RootCommit where
  "emptyCommit = \<lparr> rcm_Registrations = [], rcm_Claims = [], rcm_Pins = [], rcm_Drops = [],
     rcm_ReleaseGrace = 0, rcm_Journal = emptyAppended \<rparr>"

definition RootCommit_Empty :: "RootCommit \<Rightarrow> bool" where
  "RootCommit_Empty c \<longleftrightarrow> rcm_Registrations c = [] \<and> rcm_Claims c = [] \<and> rcm_Pins c = []
     \<and> rcm_Drops c = [] \<and> ap_Blocks (rcm_Journal c) = []"

section \<open>The in-memory store\<close>

text \<open>\<open>(digest, bucket, objectKey, versionID)\<close> and \<open>(space, digest)\<close>.\<close>

type_synonym claimKey = "multihash \<times> string \<times> string \<times> string"
type_synonym locKey = "did \<times> multihash"

record journalRow =
  jr_bucket :: string
  jr_data :: bytes
  jr_at :: time

record MemStore =
  buckets :: "(string, State) gomap"
  segments :: "(seqno, SegmentMeta) gomap"
  nextSeq :: seqno
  verSeqs :: "(string, seqno) gomap"
  blobRefs :: "(claimKey, BlobClaim) gomap"
  intents :: "(locKey, UploadIntent) gomap"
  evicted :: "(locKey, unit) gomap"
  locations :: "(locKey, BlobLocation) gomap"
  encParams :: "(locKey, BlobEncryptionParams) gomap"
  inclusions :: "(locKey, BlobInclusion) gomap"
  parks :: "(locKey, BlobPark) gomap"
  streams :: "(bytes, BlobStream) gomap"
  sessions :: "(string, MultipartSession) gomap"
  parts :: "(string, (int, MultipartPart) gomap) gomap"
  partTrees :: "(string, (int, PartTree) gomap) gomap"
  gcCands :: "(bytes, unit) gomap"
  revCursor :: "RevocationCursor option"
  releases :: "(locKey, PendingRelease) gomap"
  uploadRegs :: "UploadRegistration list"
  uploadRegSeq :: int
  journal :: "(seqno, (bytes, journalRow) gomap) gomap"

definition NewMemStore :: MemStore where
  "NewMemStore = \<lparr> buckets = gm_empty, segments = gm_empty, nextSeq = 0, verSeqs = gm_empty,
     blobRefs = gm_empty, intents = gm_empty, evicted = gm_empty, locations = gm_empty,
     encParams = gm_empty, inclusions = gm_empty, parks = gm_empty, streams = gm_empty,
     sessions = gm_empty, parts = gm_empty, partTrees = gm_empty, gcCands = gm_empty,
     revCursor = None, releases = gm_empty, uploadRegs = [], uploadRegSeq = 0, journal = gm_empty \<rparr>"

end
