(* ===== verification/Ops_Codec.thy ===== *)
theory Ops_Codec
  imports Car_Codec Mem_State
begin

text \<open>
  The \<open>.ops\<close> sidecar of a log segment (\<open>src/logstore/segment.go\<close>, from \<open>encodeOpRecord\<close> on): an
  append-only file of length-prefixed CBOR records, one \<open>(bucket, root)\<close> pair per batch, replayed after
  a crash. \<open>cid.Cast\<close> is a parameter. Shifts and disjunctions of bytes are written as arithmetic.
\<close>

datatype log_error = LogErr string | LogPanic string

section \<open>CBOR heads\<close>

text \<open>\<open>byte(v >> 8 * (k - 1)), ..., byte(v)\<close>, and back.\<close>

fun beBytes :: "nat \<Rightarrow> nat \<Rightarrow> bytes" where
  "beBytes 0 v = []"
| "beBytes (Suc k) v = char_of (v div 256 ^ k) # beBytes k v"

definition be :: "bytes \<Rightarrow> nat" where
  "be bs = foldl (\<lambda>a c. a * 256 + of_char c) 0 bs"

definition appendCborHead :: "bytes \<Rightarrow> nat \<Rightarrow> nat \<Rightarrow> bytes" where
  "appendCborHead buf maj val =
     buf @ (if val < 24 then [char_of (maj * 32 + val)]
            else if val < 2 ^ 8 then char_of (maj * 32 + 24) # beBytes 1 val
            else if val < 2 ^ 16 then char_of (maj * 32 + 25) # beBytes 2 val
            else if val < 2 ^ 32 then char_of (maj * 32 + 26) # beBytes 4 val
            else char_of (maj * 32 + 27) # beBytes 8 val)"

record cborReader =
  cr_buf :: bytes
  cr_pos :: nat

definition newCborReader :: "bytes \<Rightarrow> cborReader" where
  "newCborReader b = \<lparr> cr_buf = b, cr_pos = 0 \<rparr>"

definition readBE :: "nat \<Rightarrow> nat \<Rightarrow> cborReader \<Rightarrow> log_error + nat \<times> nat \<times> cborReader" where
  "readBE k maj r =
     (if cr_pos r + k > length (cr_buf r) then Inl (LogErr ''unexpected EOF'')
      else Inr (maj, be (take k (drop (cr_pos r) (cr_buf r))), r\<lparr> cr_pos := cr_pos r + k \<rparr>))"

definition readHead :: "cborReader \<Rightarrow> log_error + nat \<times> nat \<times> cborReader" where
  "readHead r =
     (if cr_pos r \<ge> length (cr_buf r) then Inl (LogErr ''EOF'')
      else
        let first = of_char (cr_buf r ! cr_pos r) :: nat;
            r1 = r\<lparr> cr_pos := cr_pos r + 1 \<rparr>;
            maj = first div 32;
            low = first mod 32
        in if low < 24 then Inr (maj, low, r1)
           else if low = 24 then readBE 1 maj r1
           else if low = 25 then readBE 2 maj r1
           else if low = 26 then readBE 4 maj r1
           else if low = 27 then readBE 8 maj r1
           else Inl (LogErr ''invalid cbor head''))"

text \<open>\<open>n\<close> is an \<open>int\<close> converted from a \<open>uint64\<close>: negative beyond \<open>2 ^ 63\<close>, and then the slice panics.\<close>

definition readBytes :: "int \<Rightarrow> cborReader \<Rightarrow> log_error + bytes \<times> cborReader" where
  "readBytes n r =
     (let stop = int64 (int (cr_pos r) + n)
      in if stop > int (length (cr_buf r)) then Inl (LogErr ''unexpected EOF'')
         else if stop < int (cr_pos r) then Inl (LogPanic ''slice bounds out of range'')
         else Inr (take (nat stop - cr_pos r) (drop (cr_pos r) (cr_buf r)), r\<lparr> cr_pos := nat stop \<rparr>))"

section \<open>Records\<close>

definition opRecMaxSize :: nat where
  "opRecMaxSize = 2 ^ 20"

definition encodeOpRecord :: "OpRoot \<Rightarrow> log_error + bytes" where
  "encodeOpRecord opr =
     (if \<not> cid_Defined (op_Root opr) then Inl (LogErr ''opRoot.Root must be defined'')
      else if length (op_Bucket opr) > 2 ^ 16 then Inl (LogErr ''bucket name too long'')
      else
        let b0 = appendCborHead [] 4 2;
            b1 = appendCborHead b0 3 (length (op_Bucket opr)) @ op_Bucket opr;
            body = appendCborHead b1 2 (length (op_Root opr)) @ op_Root opr
        in Inr (beBytes 4 (length body) @ body))"

definition decodeOpRecord :: "(bytes \<Rightarrow> string + cid) \<Rightarrow> bytes \<Rightarrow> log_error + OpRoot" where
  "decodeOpRecord Cast body =
     bindE (readHead (newCborReader body)) (\<lambda>(maj, count, r1).
       if maj \<noteq> 4 \<or> count \<noteq> 2 then Inl (LogErr ''expected array(2)'')
       else
         bindE (readHead r1) (\<lambda>(bm, blen, r2).
           if bm \<noteq> 3 then Inl (LogErr ''expected text bucket'')
           else
             bindE (readBytes (int64 (int blen)) r2) (\<lambda>(bucket, r3).
             bindE (readHead r3) (\<lambda>(rm, rlen, r4).
               if rm \<noteq> 2 then Inl (LogErr ''expected bytes root'')
               else
                 bindE (readBytes (int64 (int rlen)) r4) (\<lambda>(rootBytes, _).
                   case Cast rootBytes of
                     Inl e \<Rightarrow> Inl (LogErr e)
                   | Inr c \<Rightarrow> Inr \<lparr> op_Bucket = bucket, op_Root = c \<rparr>)))))"

text \<open>The loop of \<open>readAllOps\<close>, on the bytes not yet read. A trailing record that is incomplete is
  dropped; one that is complete and does not decode is an error.\<close>

function readOps :: "(bytes \<Rightarrow> string + cid) \<Rightarrow> bytes \<Rightarrow> log_error + OpRoot list" where
  "readOps Cast data =
     (if length data < 4 then Inr []
      else
        let len = be (take 4 data)
        in if len \<le> 0 \<or> len > opRecMaxSize \<or> 4 + len > length data then Inr []
           else
             bindE (decodeOpRecord Cast (take len (drop 4 data))) (\<lambda>opr.
             bindE (readOps Cast (drop (4 + len) data)) (\<lambda>rest. Inr (opr # rest))))"
  by pat_completeness auto
termination by (relation "measure (\<lambda>(Cast, data). length data)") auto

declare readOps.simps [simp del]

text \<open>A file that does not exist holds no records.\<close>

definition readAllOps :: "(bytes \<Rightarrow> string + cid) \<Rightarrow> bytes option \<Rightarrow> log_error + OpRoot list" where
  "readAllOps Cast path = (case path of None \<Rightarrow> Inr [] | Some data \<Rightarrow> readOps Cast data)"

section \<open>Heads and records read back\<close>

lemma length_beBytes [simp]: "length (beBytes k v) = k"
  by (induction k) auto

lemma foldl_beBytes: "foldl (\<lambda>a c. a * 256 + of_char c) a (beBytes k v) = a * 256 ^ k + v mod 256 ^ k"
proof (induction k arbitrary: a)
  case (Suc k)
  have "v mod 256 ^ Suc k = 256 ^ k * (v div 256 ^ k mod 256) + v mod 256 ^ k"
    using mod_mult2_eq [of v "256 ^ k" 256] by (simp add: mult.commute)
  moreover have "foldl (\<lambda>a c. a * 256 + of_char c) a (beBytes (Suc k) v) = (a * 256 + v div 256 ^ k mod 256) * 256 ^ k + v mod 256 ^ k"
    by (simp add: Suc.IH of_char_of)
  ultimately show ?case by (simp add: algebra_simps)
qed simp

lemma be_beBytes: "v < 256 ^ k \<Longrightarrow> be (beBytes k v) = v"
  by (simp add: be_def foldl_beBytes)

lemma readBE_head:
  assumes "v < 256 ^ k"
  shows "readBE k maj \<lparr> cr_buf = pre @ beBytes k v @ post, cr_pos = length pre \<rparr> =
    Inr (maj, v, \<lparr> cr_buf = pre @ beBytes k v @ post, cr_pos = length pre + k \<rparr>)"
  using assms by (simp add: readBE_def be_beBytes)

lemma head_byte:
  assumes "maj < 8" and "t < 32"
  shows "of_char (char_of (maj * 32 + t) :: char) div 32 = (maj :: nat)"
    and "of_char (char_of (maj * 32 + t) :: char) mod 32 = (t :: nat)"
proof -
  have "maj * 32 + t < 256" using assms by simp
  then have "(of_char (char_of (maj * 32 + t) :: char) :: nat) = maj * 32 + t" by (simp add: of_char_of)
  then show "of_char (char_of (maj * 32 + t) :: char) div 32 = (maj :: nat)"
    and "of_char (char_of (maj * 32 + t) :: char) mod 32 = (t :: nat)" using assms by auto
qed

lemma readHead_wide:
  assumes "of_char c div 32 = maj" and "of_char c mod 32 = t" and "v < 256 ^ k"
    and "(t, k) \<in> {(24 :: nat, 1), (25, 2), (26, 4), (27, 8)}"
  shows "readHead \<lparr> cr_buf = pre @ (c # beBytes k v) @ post, cr_pos = length pre \<rparr> =
    Inr (maj, v, \<lparr> cr_buf = pre @ (c # beBytes k v) @ post, cr_pos = length pre + 1 + k \<rparr>)"
  using readBE_head [OF assms(3), of maj "pre @ [c]" post] assms(1,2,4)
  by (auto simp: readHead_def nth_append Let_def)

lemma readHead_small:
  assumes "of_char c div 32 = maj" and "of_char c mod 32 = v" and "v < 24"
  shows "readHead \<lparr> cr_buf = pre @ [c] @ post, cr_pos = length pre \<rparr> =
    Inr (maj, v, \<lparr> cr_buf = pre @ [c] @ post, cr_pos = length pre + 1 \<rparr>)"
  using assms by (simp add: readHead_def nth_append Let_def)

abbreviation head :: "nat \<Rightarrow> nat \<Rightarrow> bytes" where
  "head maj v \<equiv> appendCborHead [] maj v"

lemma appendCborHead_head: "appendCborHead buf maj v = buf @ head maj v"
  by (simp add: appendCborHead_def)

lemma readHead_head:
  assumes "maj < 8" and "v < 2 ^ 64"
  shows "readHead \<lparr> cr_buf = pre @ head maj v @ post, cr_pos = length pre \<rparr> =
    Inr (maj, v, \<lparr> cr_buf = pre @ head maj v @ post, cr_pos = length pre + length (head maj v) \<rparr>)"
proof -
  consider "v < 24" | "24 \<le> v" "v < 256 ^ 1" | "256 ^ 1 \<le> v" "v < 256 ^ 2" | "256 ^ 2 \<le> v" "v < 256 ^ 4"
    | "256 ^ 4 \<le> v" "v < 256 ^ 8"
    using assms(2) by (force simp: not_less)
  then show ?thesis
  proof cases
    case 1
    then show ?thesis using readHead_small [OF head_byte [OF assms(1)], of v pre post] by (simp add: appendCborHead_def)
  next
    case 2
    then show ?thesis using readHead_wide [OF head_byte [OF assms(1)], of 24 v 1 pre post] by (simp add: appendCborHead_def)
  next
    case 3
    then show ?thesis using readHead_wide [OF head_byte [OF assms(1)], of 25 v 2 pre post] by (simp add: appendCborHead_def)
  next
    case 4
    then show ?thesis using readHead_wide [OF head_byte [OF assms(1)], of 26 v 4 pre post] by (simp add: appendCborHead_def)
  next
    case 5
    then show ?thesis using readHead_wide [OF head_byte [OF assms(1)], of 27 v 8 pre post] by (simp add: appendCborHead_def)
  qed
qed

lemma readBytes_here:
  assumes "length pre + length b < 2 ^ 63"
  shows "readBytes (int64 (int (length b))) \<lparr> cr_buf = pre @ b @ post, cr_pos = length pre \<rparr> =
    Inr (b, \<lparr> cr_buf = pre @ b @ post, cr_pos = length pre + length b \<rparr>)"
proof -
  have "int64 (int (length b)) = int (length b)" using assms by (intro int64_small) auto
  moreover have "int64 (int (length pre) + int (length b)) = int (length pre + length b)"
    using assms by (subst int64_small) auto
  ultimately show ?thesis by (simp add: readBytes_def Let_def nat_add_distrib)
qed

definition op_ok :: "(bytes \<Rightarrow> string + cid) \<Rightarrow> OpRoot \<Rightarrow> bool" where
  "op_ok Cast opr \<longleftrightarrow> cid_Defined (op_Root opr) \<and> length (op_Bucket opr) \<le> 2 ^ 16
     \<and> length (op_Root opr) < 2 ^ 16 \<and> Cast (op_Root opr) = Inr (op_Root opr)"

definition opBody :: "OpRoot \<Rightarrow> bytes" where
  "opBody opr = head 4 2 @ head 3 (length (op_Bucket opr)) @ op_Bucket opr @ head 2 (length (op_Root opr)) @ op_Root opr"

definition opRec :: "OpRoot \<Rightarrow> bytes" where
  "opRec opr = beBytes 4 (length (opBody opr)) @ opBody opr"

lemma encodeOpRecord_opRec: "op_ok Cast opr \<Longrightarrow> encodeOpRecord opr = Inr (opRec opr)"
  by (simp add: encodeOpRecord_def op_ok_def opRec_def opBody_def Let_def
      appendCborHead_head [of "head 4 2"] appendCborHead_head [of "_ @ _"] not_less add.assoc)

lemma length_head: "length (head maj v) \<le> 9" "0 < length (head maj v)"
  by (auto simp: appendCborHead_def)

lemma length_opBody:
  assumes "op_ok Cast opr"
  shows "0 < length (opBody opr)" and "length (opBody opr) \<le> opRecMaxSize"
  using assms length_head [of 4 2] length_head [of 3 "length (op_Bucket opr)"] length_head [of 2 "length (op_Root opr)"]
  by (auto simp: opBody_def op_ok_def opRecMaxSize_def)

lemma decodeOpRecord_opBody:
  assumes "op_ok Cast opr"
  shows "decodeOpRecord Cast (opBody opr) = Inr opr"
proof -
  let ?b = "op_Bucket opr" and ?c = "op_Root opr"
  let ?h0 = "head 4 2" and ?h1 = "head 3 (length ?b)" and ?h2 = "head 2 (length ?c)"
  have len: "length ?b < 2 ^ 17" "length ?c < 2 ^ 17" and cast: "Cast ?c = Inr ?c"
    using assms by (auto simp: op_ok_def)
  have 1: "readHead (newCborReader (opBody opr)) = Inr (4, 2, \<lparr> cr_buf = opBody opr, cr_pos = length ?h0 \<rparr>)"
    using readHead_head [of 4 2 "[]" "?h1 @ ?b @ ?h2 @ ?c"] by (simp add: newCborReader_def opBody_def)
  have 2: "readHead \<lparr> cr_buf = opBody opr, cr_pos = length ?h0 \<rparr>
      = Inr (3, length ?b, \<lparr> cr_buf = opBody opr, cr_pos = length (?h0 @ ?h1) \<rparr>)"
    using readHead_head [of 3 "length ?b" "?h0" "?b @ ?h2 @ ?c"] len by (simp add: opBody_def)
  have 3: "readBytes (int64 (int (length ?b))) \<lparr> cr_buf = opBody opr, cr_pos = length (?h0 @ ?h1) \<rparr>
      = Inr (?b, \<lparr> cr_buf = opBody opr, cr_pos = length (?h0 @ ?h1 @ ?b) \<rparr>)"
    using readBytes_here [of "?h0 @ ?h1" ?b "?h2 @ ?c"] len length_head [of 4 2] length_head [of 3 "length ?b"]
    by (simp add: opBody_def add.assoc)
  have 4: "readHead \<lparr> cr_buf = opBody opr, cr_pos = length (?h0 @ ?h1 @ ?b) \<rparr>
      = Inr (2, length ?c, \<lparr> cr_buf = opBody opr, cr_pos = length (?h0 @ ?h1 @ ?b @ ?h2) \<rparr>)"
    using readHead_head [of 2 "length ?c" "?h0 @ ?h1 @ ?b" "?c"] len by (simp add: opBody_def add.assoc)
  have 5: "readBytes (int64 (int (length ?c))) \<lparr> cr_buf = opBody opr, cr_pos = length (?h0 @ ?h1 @ ?b @ ?h2) \<rparr>
      = Inr (?c, \<lparr> cr_buf = opBody opr, cr_pos = length (opBody opr) \<rparr>)"
    using readBytes_here [of "?h0 @ ?h1 @ ?b @ ?h2" ?c "[]"] len
      length_head [of 4 2] length_head [of 3 "length ?b"] length_head [of 2 "length ?c"]
    by (simp add: opBody_def add.assoc)
  show ?thesis by (simp add: decodeOpRecord_def 1 2 3 4 5 cast del: length_append)
qed

lemma be_opRec:
  assumes "op_ok Cast opr"
  shows "be (take 4 (opRec opr @ rest)) = length (opBody opr)"
  using length_opBody [OF assms] by (simp add: opRec_def be_beBytes opRecMaxSize_def)

lemma readOps_cut:
  assumes "\<forall>opr \<in> set oprs. op_ok Cast opr"
  shows "readOps Cast (take j (concat (map opRec oprs))) = Inr (fit opRec j oprs)"
  using assms
proof (induction oprs arbitrary: j)
  case Nil
  then show ?case by (simp add: readOps.simps)
next
  case (Cons opr oprs)
  have ok: "op_ok Cast opr" using Cons.prems by simp
  have len: "length (opRec opr) = 4 + length (opBody opr)" by (simp add: opRec_def)
  show ?case
  proof (cases "length (opRec opr) \<le> j")
    case True
    let ?rest = "take (j - length (opRec opr)) (concat (map opRec oprs))"
    have data: "take j (concat (map opRec (opr # oprs))) = opRec opr @ ?rest" using True by simp
    have "readOps Cast (opRec opr @ ?rest) =
        bindE (decodeOpRecord Cast (opBody opr)) (\<lambda>opr. bindE (readOps Cast ?rest) (\<lambda>rest. Inr (opr # rest)))"
      using be_opRec [OF ok, of ?rest] length_opBody [OF ok] len
      by (subst readOps.simps) (simp add: Let_def opRec_def)
    then show ?thesis using True Cons.IH Cons.prems unfolding data
      by (simp add: decodeOpRecord_opBody [OF ok])
  next
    case False
    define data where "data = take j (concat (map opRec (opr # oprs)))"
    have pre: "data = take j (opRec opr)" "length data = j" using False by (auto simp: data_def)
    have "readOps Cast data = Inr []"
    proof (cases "j < 4")
      case True
      then show ?thesis by (subst readOps.simps) (simp add: pre(2))
    next
      case j: False
      have "take 4 data = take 4 (opRec opr @ [])" using j pre by (simp add: min_def)
      then have "be (take 4 data) = length (opBody opr)" using be_opRec [OF ok, of "[]"] by simp
      then show ?thesis using False len j by (subst readOps.simps) (simp add: pre(2) Let_def)
    qed
    then show ?thesis using False by (simp add: data_def)
  qed
qed

definition demo_Cast :: "bytes \<Rightarrow> string + cid" where
  "demo_Cast b = (if b = [] then Inl ''cid too short'' else Inr b)"

text \<open>C36. Replaying an \<open>.ops\<close> sidecar that was cut off at any byte gives back, in order, exactly the
  records that were written whole, and never an error.\<close>

theorem readAllOps_replays_whole_records:
  assumes "\<forall>opr \<in> set oprs. op_ok Cast opr" and "map encodeOpRecord oprs = map Inr recs"
  shows "\<exists>n. readAllOps Cast (Some (take j (concat recs))) = Inr (take n oprs) \<and> n \<le> length oprs
    \<and> length (concat (take n recs)) \<le> j \<and> (n < length oprs \<longrightarrow> j < length (concat (take (Suc n) recs)))"
proof -
  have "map opRec oprs = map projr (map encodeOpRecord oprs)"
    using assms(1) encodeOpRecord_opRec [of Cast] by simp
  then have recs: "recs = map opRec oprs" by (simp add: assms(2) comp_def)
  let ?n = "length (fit opRec j oprs)"
  have pre: "take ?n oprs = fit opRec j oprs" by (rule fit_prefix)
  have "j < length (concat (take (Suc ?n) recs))" if "?n < length oprs"
    using fit_stops [OF that] that by (simp add: recs take_Suc_conv_app_nth take_map pre)
  moreover have "length (concat (take ?n recs)) \<le> j"
    using length_concat_fit [of opRec j oprs] by (simp add: recs take_map pre)
  ultimately show ?thesis
    using readOps_cut [OF assms(1), of j] length_fit [of opRec j oprs] pre
    by (intro exI [of _ ?n]) (simp add: readAllOps_def recs)
qed

theorem readAllOps_replays_whole_records_witness:
  "\<exists>n. readAllOps demo_Cast (Some (take 20 (concat (map (projr \<circ> encodeOpRecord)
      [\<lparr> op_Bucket = ''photos'', op_Root = ''r1'' \<rparr>, \<lparr> op_Bucket = ''photos'', op_Root = ''r2'' \<rparr>])))) =
    Inr (take n [\<lparr> op_Bucket = ''photos'', op_Root = ''r1'' \<rparr>, \<lparr> op_Bucket = ''photos'', op_Root = ''r2'' \<rparr>]) \<and> n \<le> 2"
proof -
  let ?oprs = "[\<lparr> op_Bucket = ''photos'', op_Root = ''r1'' \<rparr>, \<lparr> op_Bucket = ''photos'', op_Root = ''r2'' \<rparr>]"
  have ok: "\<forall>opr \<in> set ?oprs. op_ok demo_Cast opr"
    by (simp add: op_ok_def demo_Cast_def cid_Defined_def cid_Undef_def)
  then have "map encodeOpRecord ?oprs = map Inr (map (projr \<circ> encodeOpRecord) ?oprs)"
    using encodeOpRecord_opRec [of demo_Cast] by simp
  from readAllOps_replays_whole_records [OF ok this, of 20] show ?thesis by auto
qed

end
