(* ===== verification/Mem_Registry.thy ===== *)
theory Mem_Registry
  imports Mem_State
begin

text \<open>
  The registry half of the in-memory store (\<open>src/inmem/store.go\<close> and the claim and release methods
  of \<open>src/inmem/stores.go\<close>): buckets and their roots, the reference index a root commit writes, and
  the queue of pending blob releases. An operation that can fail answers the state it leaves and the
  error, so that what an error leaves behind is part of the model.
\<close>

type_synonym outcome = "MemStore \<times> registry_error option"

section \<open>Buckets\<close>

definition Create :: "string \<Rightarrow> did \<Rightarrow> CreateState \<Rightarrow> time \<Rightarrow> MemStore \<Rightarrow> outcome" where
  "Create name space init now m =
     (if gm_get (buckets m) name \<noteq> None then (m, Some RegErrExists)
      else
        (m\<lparr> buckets := gm_put name
              \<lparr> st_Name = name, st_Space = space, st_Tenant = cs_Tenant init,
                st_Root = cid_Undef, st_ForgeRoot = cid_Undef,
                st_Versioning = (case cs_Versioning init of None \<Rightarrow> VersioningUnversioned | Some v \<Rightarrow> v),
                st_ObjectLockConfig = cs_ObjectLockConfig init, st_BucketTagging = None,
                st_CORSConfig = None, st_Encryption = BucketEncryptionUnset, st_CreatedAt = now \<rparr>
              (buckets m) \<rparr>, None))"

definition mem_Get :: "string \<Rightarrow> MemStore \<Rightarrow> registry_error + State" where
  "mem_Get name m = (case gm_get (buckets m) name of None \<Rightarrow> Inl RegErrNotFound | Some s \<Rightarrow> Inr s)"

definition dropJournalLocked :: "string \<Rightarrow> MemStore \<Rightarrow> MemStore" where
  "dropJournalLocked name m =
     m\<lparr> journal := gm_each (\<lambda>seq rows.
          let rows' = gm_filter (\<lambda>k row. jr_bucket row \<noteq> name) rows
          in if gm_is_empty rows' then None else Some rows') (journal m) \<rparr>"

definition mem_Delete :: "string \<Rightarrow> MemStore \<Rightarrow> outcome" where
  "mem_Delete name m =
     (if gm_get (buckets m) name = None then (m, Some RegErrNotFound)
      else
        (dropJournalLocked name
           (m\<lparr> buckets := gm_del name (buckets m), verSeqs := gm_del name (verSeqs m),
               uploadRegs := filter (\<lambda>reg. reg_Bucket reg \<noteq> name) (uploadRegs m) \<rparr>), None))"

text \<open>The methods that set one field of a bucket.\<close>

definition updBucket :: "string \<Rightarrow> (State \<Rightarrow> State) \<Rightarrow> MemStore \<Rightarrow> outcome" where
  "updBucket name f m =
     (case gm_get (buckets m) name of
        None \<Rightarrow> (m, Some RegErrNotFound)
      | Some s \<Rightarrow> (m\<lparr> buckets := gm_put name (f s) (buckets m) \<rparr>, None))"

definition EmptyRoot :: "string \<Rightarrow> cid \<Rightarrow> MemStore \<Rightarrow> outcome" where
  "EmptyRoot name expect m =
     (case gm_get (buckets m) name of
        None \<Rightarrow> (m, Some RegErrNotFound)
      | Some s \<Rightarrow>
          if st_Root s \<noteq> expect then (m, Some RegErrConflict)
          else
            (dropJournalLocked name
               (m\<lparr> buckets := gm_put name (s\<lparr> st_Root := cid_Undef, st_ForgeRoot := cid_Undef \<rparr>) (buckets m) \<rparr>),
             None))"

definition SetForgeRoot :: "string \<Rightarrow> cid \<Rightarrow> MemStore \<Rightarrow> outcome" where
  "SetForgeRoot name root = updBucket name (\<lambda>s. s\<lparr> st_ForgeRoot := root \<rparr>)"

definition SetVersioning :: "string \<Rightarrow> VersioningState \<Rightarrow> MemStore \<Rightarrow> outcome" where
  "SetVersioning name v m =
     (if v \<noteq> VersioningEnabled \<and> v \<noteq> VersioningSuspended
      then (m, Some (RegErrOther ''invalid state''))
      else updBucket name (\<lambda>s. s\<lparr> st_Versioning := v \<rparr>) m)"

definition SetObjectLockConfig :: "string \<Rightarrow> bytes option \<Rightarrow> MemStore \<Rightarrow> outcome" where
  "SetObjectLockConfig name cfg = updBucket name (\<lambda>s. s\<lparr> st_ObjectLockConfig := cfg \<rparr>)"

definition SetEncryption :: "string \<Rightarrow> BucketEncryption \<Rightarrow> MemStore \<Rightarrow> outcome" where
  "SetEncryption name enc = updBucket name (\<lambda>s. s\<lparr> st_Encryption := enc \<rparr>)"

definition SetBucketTagging :: "string \<Rightarrow> bytes option \<Rightarrow> MemStore \<Rightarrow> outcome" where
  "SetBucketTagging name tags = updBucket name (\<lambda>s. s\<lparr> st_BucketTagging := tags \<rparr>)"

definition SetCORSConfig :: "string \<Rightarrow> bytes option \<Rightarrow> MemStore \<Rightarrow> outcome" where
  "SetCORSConfig name cfg = updBucket name (\<lambda>s. s\<lparr> st_CORSConfig := cfg \<rparr>)"

text \<open>\<open>m.verSeqs[name]++\<close>, at 64 bits; a missing entry reads 0.\<close>

definition AllocVersionSeq :: "string \<Rightarrow> MemStore \<Rightarrow> MemStore \<times> (registry_error + seqno)" where
  "AllocVersionSeq name m =
     (if gm_get (buckets m) name = None then (m, Inl RegErrNotFound)
      else
        let n = (case gm_get (verSeqs m) name of None \<Rightarrow> 0 | Some n \<Rightarrow> n) + 1
        in (m\<lparr> verSeqs := gm_put name n (verSeqs m) \<rparr>, Inr n))"

section \<open>Listing buckets\<close>

definition maxListBuckets :: nat where
  "maxListBuckets = 10000"

text \<open>The loop that fills one page from the sorted names: \<open>max\<close> is at least 1, the continuation
  token is the last name of a full page that left some name out.\<close>

fun listPage :: "string \<Rightarrow> string \<Rightarrow> nat \<Rightarrow> (string \<times> time) list \<Rightarrow> (string \<times> time) list \<Rightarrow> (string \<times> time) list \<times> string" where
  "listPage prefix token mx page [] = (page, '''')"
| "listPage prefix token mx page (st # all) =
     (if prefix \<noteq> '''' \<and> take (length prefix) (fst st) \<noteq> prefix then listPage prefix token mx page all
      else if fst st \<le> token then listPage prefix token mx page all
      else if mx > 0 \<and> length page = mx then (page, fst (last page))
      else listPage prefix token mx (page @ [st]) all)"

definition ListBuckets :: "string \<Rightarrow> string \<Rightarrow> nat option \<Rightarrow> MemStore \<Rightarrow> registry_error + (string \<times> time) list \<times> string" where
  "ListBuckets prefix token maxBuckets m =
     (let all = sort_key fst (map (\<lambda>(name, s). (name, st_CreatedAt s)) (gm_items (buckets m)))
      in case maxBuckets of
           None \<Rightarrow> Inr (listPage prefix token maxListBuckets [] all)
         | Some mx \<Rightarrow>
             if mx < 1 \<or> mx > maxListBuckets then Inl (RegErrOther ''max-buckets'')
             else Inr (listPage prefix token mx [] all))"

section \<open>Claims\<close>

definition claim_key :: "BlobClaim \<Rightarrow> claimKey" where
  "claim_key c = (claim_Digest c, claim_Bucket c, claim_ObjectKey c, claim_VersionID c)"

definition drop_key :: "ClaimDrop \<Rightarrow> claimKey" where
  "drop_key d = (drop_Digest d, drop_Bucket d, drop_ObjectKey d, drop_VersionID d)"

definition countClaimsLocked :: "did \<Rightarrow> multihash \<Rightarrow> MemStore \<Rightarrow> nat" where
  "countClaimsLocked space digest m =
     gm_count (\<lambda>k c. fst k = digest \<and> claim_Space c = space) (blobRefs m)"

definition CountClaims :: "did \<Rightarrow> multihash \<Rightarrow> MemStore \<Rightarrow> nat" where
  "CountClaims space digest m = countClaimsLocked space digest m"

definition claimRefusedLocked :: "BlobClaim \<Rightarrow> MemStore \<Rightarrow> registry_error option" where
  "claimRefusedLocked c m =
     (if (case gm_get (releases m) (claim_Space c, claim_Digest c) of
            Some pr \<Rightarrow> \<not> IsZero (pr_StartedAt pr)
          | None \<Rightarrow> False)
      then Some RegErrReleaseInProgress
      else if gm_get (locations m) (claim_Space c, claim_Digest c) = None
      then Some RegErrReleaseInProgress
      else None)"

definition pinRefusedLocked :: "BlobClaim \<Rightarrow> MemStore \<Rightarrow> bool" where
  "pinRefusedLocked c m =
     (if gm_get (blobRefs m) (claim_key c) \<noteq> None then False
      else countClaimsLocked (claim_Space c) (claim_Digest c) m = 0)"

definition addClaimLocked :: "bool \<Rightarrow> time \<Rightarrow> BlobClaim \<Rightarrow> MemStore \<Rightarrow> MemStore" where
  "addClaimLocked publish now c m =
     (let m1 = m\<lparr> blobRefs := gm_put (claim_key c) c (blobRefs m) \<rparr>;
          ik = (claim_Space c, claim_Digest c)
      in if \<not> publish then m1
         else
           case gm_get (intents m1) ik of
             Some it \<Rightarrow>
               if in_State it \<noteq> IntentPublished
               then m1\<lparr> intents := gm_put ik (it\<lparr> in_State := IntentPublished, in_UpdatedAt := now \<rparr>) (intents m1) \<rparr>
               else m1
           | None \<Rightarrow> m1)"

section \<open>Releases\<close>

definition enqueueReleaseLocked :: "did \<Rightarrow> multihash \<Rightarrow> time \<Rightarrow> MemStore \<Rightarrow> MemStore \<times> PendingRelease" where
  "enqueueReleaseLocked space digest notBefore m =
     (let k = (space, digest);
          nb = (case gm_get (releases m) k of
                  Some prior \<Rightarrow> if pr_NotBefore prior > notBefore then pr_NotBefore prior else notBefore
                | None \<Rightarrow> notBefore);
          started = (case gm_get (releases m) k of Some prior \<Rightarrow> pr_StartedAt prior | None \<Rightarrow> 0);
          pr = \<lparr> pr_Space = space, pr_Digest = digest, pr_NotBefore = nb, pr_StartedAt = started \<rparr>
      in (m\<lparr> releases := gm_put k pr (releases m) \<rparr>, pr))"

definition EnqueueRelease :: "did \<Rightarrow> multihash \<Rightarrow> time \<Rightarrow> MemStore \<Rightarrow> MemStore" where
  "EnqueueRelease space digest notBefore m = fst (enqueueReleaseLocked space digest notBefore m)"

fun enqueueAll ::
  "multihash list \<Rightarrow> did \<Rightarrow> multihash list \<Rightarrow> time \<Rightarrow> MemStore \<Rightarrow> MemStore \<times> PendingRelease list" where
  "enqueueAll seen space [] notBefore m = (m, [])"
| "enqueueAll seen space (d # ds) notBefore m =
     (if d \<in> set seen then enqueueAll seen space ds notBefore m
      else
        let (m1, pr) = enqueueReleaseLocked space d notBefore m;
            (m2, prs) = enqueueAll (d # seen) space ds notBefore m1
        in (m2, pr # prs))"

definition EnqueueReleases :: "did \<Rightarrow> multihash list \<Rightarrow> time \<Rightarrow> MemStore \<Rightarrow> MemStore \<times> PendingRelease list" where
  "EnqueueReleases space digests notBefore m = enqueueAll [] space digests notBefore m"

definition dropClaimLocked :: "time \<Rightarrow> ClaimDrop \<Rightarrow> MemStore \<Rightarrow> MemStore" where
  "dropClaimLocked due d m =
     (let m1 = m\<lparr> blobRefs := gm_del (drop_key d) (blobRefs m) \<rparr>
      in if countClaimsLocked (drop_Space d) (drop_Digest d) m1 \<noteq> 0 then m1
         else fst (enqueueReleaseLocked (drop_Space d) (drop_Digest d) due m1))"

definition ListDueReleases :: "time \<Rightarrow> nat \<Rightarrow> MemStore \<Rightarrow> PendingRelease list" where
  "ListDueReleases now limit m =
     take limit (sort_key pr_NotBefore (gm_values (\<lambda>k pr. \<not> pr_NotBefore pr > now) (releases m)))"

definition ListReleasesBySpace :: "did \<Rightarrow> MemStore \<Rightarrow> PendingRelease list" where
  "ListReleasesBySpace space m = sort_key pr_NotBefore (gm_values (\<lambda>k pr. fst k = space) (releases m))"

definition DeleteRelease :: "did \<Rightarrow> multihash \<Rightarrow> MemStore \<Rightarrow> MemStore" where
  "DeleteRelease space digest m = m\<lparr> releases := gm_del (space, digest) (releases m) \<rparr>"

definition GetRelease :: "did \<Rightarrow> multihash \<Rightarrow> MemStore \<Rightarrow> registry_error + PendingRelease" where
  "GetRelease space digest m =
     (case gm_get (releases m) (space, digest) of None \<Rightarrow> Inl RegErrNotFound | Some pr \<Rightarrow> Inr pr)"

definition ReleasingDigests :: "did \<Rightarrow> multihash list \<Rightarrow> MemStore \<Rightarrow> (multihash, bool) gomap" where
  "ReleasingDigests space digests m =
     fold (\<lambda>d out. if gm_get (releases m) (space, d) \<noteq> None then gm_put d True out else out) digests gm_empty"

text \<open>The parts of in-flight sessions that name a digest, in one space or, for \<open>None\<close>, in any.\<close>

definition in_flight :: "MultipartSession \<Rightarrow> bool" where
  "in_flight s \<longleftrightarrow> ms_State s = Some SessionOpen \<or> ms_State s = Some SessionCompleting"

definition countLivePartRefsLocked :: "did option \<Rightarrow> multihash \<Rightarrow> MemStore \<Rightarrow> nat" where
  "countLivePartRefsLocked space digest m =
     sum_list (map (\<lambda>(uploadID, byNum).
       case gm_get (sessions m) uploadID of
         None \<Rightarrow> 0
       | Some s \<Rightarrow>
           if \<not> in_flight s then 0
           else if (case space of None \<Rightarrow> False | Some sp \<Rightarrow> ms_Space s \<noteq> sp) then 0
           else gm_count (\<lambda>n p. digest \<in> set (mp_BlobDigests p)) byNum) (gm_items (parts m)))"

definition CountLivePartRefs :: "did \<Rightarrow> multihash \<Rightarrow> MemStore \<Rightarrow> nat" where
  "CountLivePartRefs space digest m = countLivePartRefsLocked (Some space) digest m"

definition StartRelease :: "did \<Rightarrow> multihash \<Rightarrow> time \<Rightarrow> MemStore \<Rightarrow> MemStore \<times> ReleaseStart" where
  "StartRelease space digest now m =
     (let k = (space, digest)
      in case gm_get (releases m) k of
           None \<Rightarrow> (m, ReleaseCancelled)
         | Some pr \<Rightarrow>
             if \<not> IsZero (pr_StartedAt pr) then (m, ReleaseStarted)
             else if countLivePartRefsLocked (Some space) digest m > 0 then (m, ReleaseReferenced)
             else if countClaimsLocked space digest m > 0
             then (m\<lparr> releases := gm_del k (releases m) \<rparr>, ReleaseClaimed)
             else (m\<lparr> releases := gm_put k (pr\<lparr> pr_StartedAt := now \<rparr>) (releases m) \<rparr>, ReleaseStarted))"

definition CancelRelease :: "did \<Rightarrow> multihash \<Rightarrow> MemStore \<Rightarrow> MemStore \<times> ReleaseCancel" where
  "CancelRelease space digest m =
     (let k = (space, digest)
      in case gm_get (releases m) k of
           None \<Rightarrow> (m, ReleaseNone)
         | Some pr \<Rightarrow>
             if \<not> IsZero (pr_StartedAt pr) then (m, ReleaseInProgress)
             else (m\<lparr> releases := gm_del k (releases m) \<rparr>, ReleaseCancelledByWrite))"

section \<open>Committing a root\<close>

definition journalBlocks :: "string \<Rightarrow> time \<Rightarrow> (cid \<times> bytes) list \<Rightarrow> (bytes, journalRow) gomap \<Rightarrow> (bytes, journalRow) gomap" where
  "journalBlocks bucket now blks rows =
     fold (\<lambda>(k, data) rows.
       if gm_get rows k \<noteq> None then rows
       else gm_put k \<lparr> jr_bucket = bucket, jr_data = data, jr_at = now \<rparr> rows) blks rows"

definition journalLocked :: "string \<Rightarrow> Appended \<Rightarrow> time \<Rightarrow> MemStore \<Rightarrow> MemStore" where
  "journalLocked bucket j now m =
     (if ap_Blocks j = [] then m
      else
        case gm_get (segments m) (ap_Segment j) of
          None \<Rightarrow> m
        | Some seg \<Rightarrow>
            if seg_ShippedAt seg \<noteq> 0 then m
            else m\<lparr> journal := gm_put (ap_Segment j)
                      (journalBlocks bucket now (ap_Blocks j) (gm_inner (journal m) (ap_Segment j)))
                      (journal m) \<rparr>)"

definition addRegistration :: "time \<Rightarrow> UploadRegistration \<Rightarrow> MemStore \<Rightarrow> MemStore" where
  "addRegistration now reg m =
     (let seq = uploadRegSeq m + 1;
          reg' = reg\<lparr> reg_Seq := seq, reg_NextAt := (if IsZero (reg_NextAt reg) then now else reg_NextAt reg) \<rparr>
      in m\<lparr> uploadRegSeq := seq, uploadRegs := uploadRegs m @ [reg'] \<rparr>)"

fun firstRefused :: "BlobClaim list \<Rightarrow> MemStore \<Rightarrow> registry_error option" where
  "firstRefused [] m = None"
| "firstRefused (cl # cls) m =
     (case claimRefusedLocked cl m of Some err \<Rightarrow> Some err | None \<Rightarrow> firstRefused cls m)"

text \<open>What an accepted commit writes, in the order of the code.\<close>

definition commitRows :: "string \<Rightarrow> State \<Rightarrow> cid \<Rightarrow> RootCommit \<Rightarrow> time \<Rightarrow> MemStore \<Rightarrow> MemStore" where
  "commitRows name s nxt c now m =
     fold (dropClaimLocked (now + rcm_ReleaseGrace c)) (rcm_Drops c)
      (fold (addClaimLocked False now) (rcm_Pins c)
       (fold (addClaimLocked True now) (rcm_Claims c)
        (fold (addRegistration now) (rcm_Registrations c)
         (journalLocked name (rcm_Journal c) now
          (m\<lparr> buckets := gm_put name (s\<lparr> st_Root := nxt \<rparr>) (buckets m) \<rparr>)))))"

definition CommitRoot :: "string \<Rightarrow> cid \<Rightarrow> cid \<Rightarrow> RootCommit \<Rightarrow> time \<Rightarrow> MemStore \<Rightarrow> outcome" where
  "CommitRoot name expect nxt c now m =
     (case gm_get (buckets m) name of
        None \<Rightarrow> (m, Some RegErrNotFound)
      | Some s \<Rightarrow>
          if st_Root s \<noteq> expect then (m, Some RegErrConflict)
          else
            case firstRefused (rcm_Claims c) m of
              Some err \<Rightarrow> (m, Some err)
            | None \<Rightarrow>
                if list_ex (\<lambda>p. pinRefusedLocked p m) (rcm_Pins c) then (m, Some RegErrClaimGone)
                else (commitRows name s nxt c now m, None))"

definition CASRoot :: "string \<Rightarrow> cid \<Rightarrow> cid \<Rightarrow> time \<Rightarrow> MemStore \<Rightarrow> outcome" where
  "CASRoot name expect nxt now m = CommitRoot name expect nxt emptyCommit now m"

end
