(* ===== verification/Mem_Segments.thy ===== *)
theory Mem_Segments
  imports Mem_Registry
begin

text \<open>
  The log's segment rows and the catalog journal in the in-memory store (\<open>src/inmem/store.go\<close>): a
  segment is opened, sealed, shipped, retired; the journal keeps the blocks of segments not shipped
  yet; shipping advances a bucket's \<open>ForgeRoot\<close> to a root the bucket has committed.
\<close>

section \<open>Sequence numbers\<close>

definition NextSegmentSeq :: "MemStore \<Rightarrow> MemStore \<times> seqno" where
  "NextSegmentSeq m = (let n = nextSeq m + 1 in (m\<lparr> nextSeq := n \<rparr>, n))"

definition EnsureSegmentSeqAbove :: "seqno \<Rightarrow> MemStore \<Rightarrow> MemStore" where
  "EnsureSegmentSeqAbove seq m = m\<lparr> nextSeq := max (nextSeq m) seq \<rparr>"

section \<open>The journal\<close>

definition CatalogJournalStats_of :: "MemStore \<Rightarrow> CatalogJournalStats" where
  "CatalogJournalStats_of m =
     fold (\<lambda>(_, rows) st. fold (\<lambda>(_, row) st.
         \<lparr> cj_Blocks = cj_Blocks st + 1, cj_Bytes = cj_Bytes st + int (length (jr_data row)),
           cj_Oldest = (if IsZero (cj_Oldest st) \<or> jr_at row < cj_Oldest st then jr_at row else cj_Oldest st) \<rparr>)
       (gm_items rows) st)
     (gm_items (journal m)) \<lparr> cj_Blocks = 0, cj_Bytes = 0, cj_Oldest = 0 \<rparr>"

definition JournaledBlocks :: "seqno \<Rightarrow> MemStore \<Rightarrow> (bytes, bytes) gomap" where
  "JournaledBlocks segment m =
     fold (\<lambda>(k, row) out. gm_put k (jr_data row) out) (gm_items (gm_inner (journal m) segment)) gm_empty"

definition JournalBuckets :: "MemStore \<Rightarrow> string list" where
  "JournalBuckets m =
     sort (remdups (concat (map (\<lambda>(_, rows). map (\<lambda>(_, row). jr_bucket row) (gm_items rows)) (gm_items (journal m)))))"

definition JournalSegments :: "string \<Rightarrow> MemStore \<Rightarrow> seqno list" where
  "JournalSegments bucket m =
     sort (map fst (filter (\<lambda>(_, rows). list_ex (\<lambda>(_, row). jr_bucket row = bucket) (gm_items rows)) (gm_items (journal m))))"

text \<open>A page of a segment's blocks in CID order, strictly after \<open>after\<close>. The keys are CID bytes the
  store wrote itself, so \<open>cid.Cast\<close> of one cannot fail.\<close>

definition ReadJournal :: "seqno \<Rightarrow> cid \<Rightarrow> nat \<Rightarrow> MemStore \<Rightarrow> (cid \<times> bytes) list" where
  "ReadJournal seq after limit m =
     (let rows = gm_inner (journal m) seq
      in map (\<lambda>k. (k, jr_data (the (gm_get rows k))))
           (take limit (filter (\<lambda>k. \<not> k \<le> after) (sort (map fst (gm_items rows))))))"

definition moveRows :: "bool \<Rightarrow> (bytes \<times> journalRow) list \<Rightarrow> (bytes, journalRow) gomap \<Rightarrow> (bytes, journalRow) gomap" where
  "moveRows keep rows dst =
     fold (\<lambda>(k, row) dst. if keep \<and> gm_get dst k = None then gm_put k row dst else dst) rows dst"

text \<open>The rows in range leave the source segment; they enter the target unless it has shipped. The
  two segments are distinct.\<close>

definition MoveJournal :: "string \<Rightarrow> seqno \<Rightarrow> seqno \<Rightarrow> cid \<Rightarrow> cid \<Rightarrow> MemStore \<Rightarrow> outcome" where
  "MoveJournal bucket frm to lo hi m =
     (case gm_get (segments m) to of
        None \<Rightarrow> (m, Some (RegErrOther ''no segment''))
      | Some target \<Rightarrow>
          let inRange = (\<lambda>k row. \<not> (jr_bucket row \<noteq> bucket \<or> k < lo \<or> k > hi));
              src = gm_inner (journal m) frm;
              moved = filter (\<lambda>(k, row). inRange k row) (gm_items src);
              j1 = (if moved \<noteq> [] \<and> seg_ShippedAt target = 0
                    then gm_put to (moveRows True moved (gm_inner (journal m) to)) (journal m)
                    else journal m);
              src' = gm_filter (\<lambda>k row. \<not> inRange k row) src;
              j2 = (if gm_is_empty src' then gm_del frm j1 else gm_put frm src' j1)
          in (m\<lparr> journal := j2 \<rparr>, None))"

section \<open>Segment rows\<close>

definition InsertSegmentOpen :: "Plane \<Rightarrow> seqno \<Rightarrow> string \<Rightarrow> MemStore \<Rightarrow> MemStore" where
  "InsertSegmentOpen plane seq bucket m =
     (if gm_get (segments m) seq \<noteq> None then m
      else
        m\<lparr> segments := gm_put seq
             \<lparr> seg_Seq = seq, seg_Plane = plane, seg_Bucket = bucket, seg_State = StateOpen,
               seg_SealedAt = 0, seg_Size = 0, seg_SHA256 = [], seg_ShippedAt = 0,
               seg_IndexDigest = None, seg_DeadBytes = 0, seg_RetiredAt = 0, seg_OpRoots = [] \<rparr>
             (segments m) \<rparr>)"

definition MarkSegmentSealed :: "Plane \<Rightarrow> seqno \<Rightarrow> int \<Rightarrow> int \<Rightarrow> bytes \<Rightarrow> OpRoot list \<Rightarrow> MemStore \<Rightarrow> MemStore" where
  "MarkSegmentSealed plane seq sealedAt sz sha opRoots m =
     (case gm_get (segments m) seq of
        None \<Rightarrow> m
      | Some r \<Rightarrow>
          if seg_State r \<noteq> StateOpen then m
          else
            m\<lparr> segments := gm_put seq
                 (r\<lparr> seg_State := StateSealed, seg_SealedAt := sealedAt, seg_Size := sz,
                     seg_SHA256 := sha, seg_OpRoots := opRoots \<rparr>) (segments m) \<rparr>)"

definition advanceForgeRoot :: "OpRoot \<Rightarrow> MemStore \<Rightarrow> MemStore" where
  "advanceForgeRoot opr m =
     (case gm_get (buckets m) (op_Bucket opr) of
        None \<Rightarrow> m
      | Some b \<Rightarrow>
          if st_Root b = op_Root opr
          then m\<lparr> buckets := gm_put (op_Bucket opr) (b\<lparr> st_ForgeRoot := op_Root opr \<rparr>) (buckets m) \<rparr>
          else m)"

definition MarkSegmentShipped ::
  "Plane \<Rightarrow> seqno \<Rightarrow> int \<Rightarrow> multihash option \<Rightarrow> int \<Rightarrow> OpRoot list \<Rightarrow> MemStore \<Rightarrow> MemStore" where
  "MarkSegmentShipped plane seq shippedAt indexDigest deadBytes opRoots m =
     (let m1 = (case gm_get (segments m) seq of
                  None \<Rightarrow> m
                | Some r \<Rightarrow>
                    m\<lparr> segments := gm_put seq
                         (r\<lparr> seg_ShippedAt := shippedAt, seg_IndexDigest := indexDigest,
                             seg_DeadBytes := deadBytes \<rparr>) (segments m) \<rparr>);
          m2 = m1\<lparr> journal := gm_del seq (journal m1) \<rparr>
      in if plane = PlaneCatalog then fold advanceForgeRoot opRoots m2 else m2)"

definition addUsage :: "MemStore \<Rightarrow> SegmentMeta \<Rightarrow> (string, CatalogUsage) gomap \<Rightarrow> (string, CatalogUsage) gomap" where
  "addUsage m r acc =
     (if seg_Plane r \<noteq> PlaneCatalog \<or> seg_IndexDigest r = None then acc
      else
        case gm_get (buckets m) (seg_Bucket r) of
          None \<Rightarrow> acc
        | Some b \<Rightarrow>
            let u = (case gm_get acc (seg_Bucket r) of
                       Some u \<Rightarrow> u
                     | None \<Rightarrow> \<lparr> cu_Bucket = seg_Bucket r, cu_Space = st_Space b, cu_Bytes = 0,
                                 cu_DeadOnArrivalBytes = 0, cu_UnmeasuredBytes = 0 \<rparr>);
                u' = u\<lparr> cu_Bytes := cu_Bytes u + seg_Size r \<rparr>
            in gm_put (seg_Bucket r)
                 (if seg_DeadBytes r < 0
                  then u'\<lparr> cu_UnmeasuredBytes := cu_UnmeasuredBytes u' + seg_Size r \<rparr>
                  else u'\<lparr> cu_DeadOnArrivalBytes := cu_DeadOnArrivalBytes u' + seg_DeadBytes r \<rparr>) acc)"

definition CatalogUsage_of :: "MemStore \<Rightarrow> CatalogUsage list" where
  "CatalogUsage_of m =
     sort_key cu_Bucket (map snd (gm_items (fold (addUsage m) (map snd (gm_items (segments m))) gm_empty)))"

definition ListSegmentBuckets :: "Plane \<Rightarrow> MemStore \<Rightarrow> string list" where
  "ListSegmentBuckets plane m =
     sort (remdups (map seg_Bucket
       (gm_values (\<lambda>_ r. \<not> (seg_Plane r \<noteq> plane \<or> seg_RetiredAt r \<noteq> 0)) (segments m))))"

definition DeleteSegment :: "Plane \<Rightarrow> seqno \<Rightarrow> MemStore \<Rightarrow> MemStore" where
  "DeleteSegment plane seq m = m\<lparr> segments := gm_del seq (segments m) \<rparr>"

definition RetireSegment :: "Plane \<Rightarrow> seqno \<Rightarrow> int \<Rightarrow> MemStore \<Rightarrow> MemStore" where
  "RetireSegment plane seq retiredAt m =
     (case gm_get (segments m) seq of
        None \<Rightarrow> m
      | Some r \<Rightarrow>
          if seg_Plane r = plane \<and> seg_RetiredAt r = 0
          then m\<lparr> segments := gm_put seq (r\<lparr> seg_RetiredAt := retiredAt, seg_OpRoots := [] \<rparr>) (segments m) \<rparr>
          else m)"

definition listSegments :: "Plane \<Rightarrow> string \<Rightarrow> bool \<Rightarrow> MemStore \<Rightarrow> SegmentMeta list" where
  "listSegments plane bucket retired m =
     sort_key seg_Seq (gm_values (\<lambda>_ r.
       \<not> (seg_Plane r \<noteq> plane \<or> seg_Bucket r \<noteq> bucket \<or> (seg_RetiredAt r \<noteq> 0) \<noteq> retired)) (segments m))"

definition ListSegments :: "Plane \<Rightarrow> string \<Rightarrow> MemStore \<Rightarrow> SegmentMeta list" where
  "ListSegments plane bucket m = listSegments plane bucket False m"

definition ListRetiredSegments :: "Plane \<Rightarrow> string \<Rightarrow> MemStore \<Rightarrow> SegmentMeta list" where
  "ListRetiredSegments plane bucket m = listSegments plane bucket True m"

definition RehydrateSegment :: "SegmentMeta \<Rightarrow> MemStore \<Rightarrow> MemStore" where
  "RehydrateSegment sm m = m\<lparr> segments := gm_put (seg_Seq sm) sm (segments m) \<rparr>"

section \<open>Shipping\<close>

definition forged :: "OpRoot list \<Rightarrow> string \<Rightarrow> State \<Rightarrow> State" where
  "forged opRoots name s =
     (if \<lparr> op_Bucket = name, op_Root = st_Root s \<rparr> \<in> set opRoots then s\<lparr> st_ForgeRoot := st_Root s \<rparr> else s)"

lemma advanceForgeRoot_get:
  "gm_get (buckets (advanceForgeRoot opr m)) name = map_option (forged [opr] name) (gm_get (buckets m) name)"
  by (cases opr; cases "gm_get (buckets m) name") (auto simp: advanceForgeRoot_def forged_def split: option.splits)

lemma advanceForgeRoots_get:
  "gm_get (buckets (fold advanceForgeRoot oprs m)) name = map_option (forged oprs name) (gm_get (buckets m) name)"
proof (induction oprs arbitrary: m)
  case Nil
  then show ?case by (simp add: forged_def map_option_idI)
next
  case (Cons opr oprs)
  have "forged oprs name (forged [opr] name s) = forged (opr # oprs) name s" for s
    by (simp add: forged_def)
  then show ?case
    using Cons.IH advanceForgeRoot_get by (simp add: option.map_comp comp_def)
qed

text \<open>C32. Shipping a catalog segment advances a bucket's \<open>ForgeRoot\<close> exactly when one of the segment's
  op-roots is the root the bucket has committed, and then to that root; no bucket's root changes, and a
  durable op-root the bucket never adopted advances nothing. The segment's journal rows are gone.\<close>

theorem MarkSegmentShipped_forge_root:
  "gm_get (buckets (MarkSegmentShipped PlaneCatalog seq at idx dead oprs m)) name
     = map_option (forged oprs name) (gm_get (buckets m) name)
   \<and> gm_get (journal (MarkSegmentShipped PlaneCatalog seq at idx dead oprs m)) seq = None"
proof -
  have j: "journal (fold advanceForgeRoot oprs m') = journal m'" for m'
    by (rule fold_frame) (auto simp: advanceForgeRoot_def split: option.splits)
  show ?thesis
    by (auto simp: MarkSegmentShipped_def Let_def advanceForgeRoots_get j split: option.splits)
qed

section \<open>Journaling a commit\<close>

lemma journalBlocks_get:
  "gm_get (journalBlocks b now blks rows) k =
     (case gm_get rows k of
        Some r \<Rightarrow> Some r
      | None \<Rightarrow> map_option (\<lambda>d. \<lparr> jr_bucket = b, jr_data = d, jr_at = now \<rparr>) (map_of blks k))"
proof (induction blks arbitrary: rows)
  case (Cons x blks)
  then show ?case
    by (cases x) (auto simp: journalBlocks_def split: option.splits)
qed (simp add: journalBlocks_def split: option.split)

lemma JournaledBlocks_get: "gm_get (JournaledBlocks seg m) k = map_option jr_data (gm_get (gm_inner (journal m) seg) k)"
proof -
  have "distinct (map fst xs) \<Longrightarrow> gm_get (fold (\<lambda>(k, row) out. gm_put k (jr_data row) out) xs out) k
      = (case map_of xs k of Some row \<Rightarrow> Some (jr_data row) | None \<Rightarrow> gm_get out k)" for xs out
  proof (induction xs arbitrary: out)
    case (Cons x xs)
    have "k \<notin> fst ` set xs \<Longrightarrow> map_of xs k = None" by (simp add: map_of_eq_None_iff)
    with Cons show ?case by (cases x) (auto split: option.split)
  qed simp
  from this [OF gm_distinct, of "gm_inner (journal m) seg" gm_empty] show ?thesis
    by (simp add: JournaledBlocks_def gm_get_map_of [symmetric] split: option.split)
qed

lemma NextSegmentSeq_above:
  assumes "unat (max (nextSeq m) seq) < 2 ^ 64 - 1"
  shows "seq < snd (NextSegmentSeq (EnsureSegmentSeqAbove seq m))"
    and "nextSeq m < snd (NextSegmentSeq (EnsureSegmentSeqAbove seq m))"
proof -
  let ?n = "max (nextSeq m) seq"
  have "unat (?n + 1) = unat ?n + 1" using assms by (simp add: unat_word_ariths)
  then have "?n < ?n + 1" by (simp add: word_less_nat_alt)
  then show "seq < snd (NextSegmentSeq (EnsureSegmentSeqAbove seq m))"
    "nextSeq m < snd (NextSegmentSeq (EnsureSegmentSeqAbove seq m))"
    by (auto simp: NextSegmentSeq_def EnsureSegmentSeqAbove_def Let_def intro: le_less_trans [OF max.cobounded1] le_less_trans [OF max.cobounded2])
qed

text \<open>C33. A segment number drawn after recovery has seen \<open>seq\<close> is above it and above every number
  drawn before, until the 64-bit counter is exhausted.\<close>

theorem segment_seq_fresh:
  assumes "nextSeq m < 2 ^ 64 - 1" and "seq < (2 ^ 64 - 1 :: seqno)"
  shows "seq < snd (NextSegmentSeq (EnsureSegmentSeqAbove seq m)) \<and>
    nextSeq m < snd (NextSegmentSeq (EnsureSegmentSeqAbove seq m))"
proof -
  have "max (nextSeq m) seq < 2 ^ 64 - 1" using assms by simp
  then have "unat (max (nextSeq m) seq) < 2 ^ 64 - 1" by (simp add: word_less_nat_alt)
  then show ?thesis using NextSegmentSeq_above by blast
qed

theorem segment_seq_fresh_witness:
  "(7 :: seqno) < snd (NextSegmentSeq (EnsureSegmentSeqAbove 7 NewMemStore))"
  using segment_seq_fresh [of NewMemStore 7] by (simp add: NewMemStore_def)

end
