(* ===== verification/Log_Segment.thy ===== *)
theory Log_Segment
  imports Ops_Codec Mem_Segments
begin

text \<open>
  One segment of the catalog log (\<open>src/logstore/segment.go\<close>): a CAR file, the \<open>.ops\<close> sidecar with the
  batches' op-roots, the \<open>.idx\<close> sidecar written at seal, and the in-memory index over the CAR. A file is
  its bytes; the descriptors are flags; \<open>sg_dead\<close> is \<open>dead\<close> once \<open>deadOnce\<close> has run. The append descriptor stands at the end of the file, so a write
  appends there, wherever the segment believes the end to be (\<open>size\<close>).

  I/O that can fail takes its outcome as an argument: how many bytes of a short write reached the
  file, whether a sync or a rename went through. A theorem that quantifies over these arguments covers
  every fault. The metadata rows are the in-memory store's, with a flag for a call that fails. The JSON
  text of the \<open>.idx\<close> and the CID strings in it are represented by the values they encode.
\<close>

section \<open>State\<close>

record BlockLoc =
  bl_Offset :: nat
  bl_Length :: nat

record idxFile =
  ix_Seq :: seqno
  ix_Plane :: Plane
  ix_SizeByte :: nat
  ix_SHA256 :: bytes
  ix_SealedAt :: int
  ix_Blocks :: "(cid \<times> BlockLoc) list"
  ix_OpRoots :: "OpRoot list"

record Segment =
  sg_seq :: seqno
  sg_plane :: Plane
  sg_state :: SegState
  sg_sealedAt :: int
  sg_idxWritten :: bool
  sg_sealRecorded :: bool
  sg_fdRW :: bool
  sg_fdRO :: bool
  sg_opsFD :: bool
  sg_index :: "(cid, BlockLoc) gomap"
  sg_seen :: "(cid, unit) gomap"
  sg_size :: nat
  sg_sha :: bytes
  sg_shippedAt :: int
  sg_retired :: bool
  sg_opRoots :: "OpRoot list"
  sg_dead :: "int option"
  sg_car :: bytes
  sg_ops :: "bytes option"
  sg_idx :: "idxFile option"

text \<open>What the segment uses of the libraries: CIDs and their codec, blocks, SHA-256, the links of a
  DAG-CBOR block and the CAR header's CBOR.\<close>

record log_env = car_env +
  Cast :: "bytes \<Rightarrow> string + cid"
  Sum256 :: "bytes \<Rightarrow> bytes"
  headerBytes :: bytes
  IsDagCBOR :: "cid \<Rightarrow> bool"
  ScanForLinks :: "bytes \<Rightarrow> string + cid list"

definition ErrBlockNotFound :: log_error where
  "ErrBlockNotFound = LogErr ''not found''"

definition hasOps :: "Segment \<Rightarrow> bool" where
  "hasOps s \<longleftrightarrow> sg_plane s = PlaneCatalog"

definition IsShipped :: "Segment \<Rightarrow> bool" where
  "IsShipped s \<longleftrightarrow> sg_shippedAt s \<noteq> 0"

definition newSegment :: "seqno \<Rightarrow> Plane \<Rightarrow> Segment" where
  "newSegment seq plane =
     \<lparr> sg_seq = seq, sg_plane = plane, sg_state = StateOpen, sg_sealedAt = 0, sg_idxWritten = False,
       sg_sealRecorded = False, sg_fdRW = False, sg_fdRO = False, sg_opsFD = False, sg_index = gm_empty,
       sg_seen = gm_empty, sg_size = 0, sg_sha = [], sg_shippedAt = 0, sg_retired = False,
       sg_opRoots = [], sg_dead = None, sg_car = [], sg_ops = None, sg_idx = None \<rparr>"

section \<open>Creating\<close>

text \<open>\<open>Some e\<close>: a file operation fails with \<open>e\<close>; the code then removes what it created.\<close>

definition createOpenSegment ::
  "log_env \<Rightarrow> string option \<Rightarrow> seqno \<Rightarrow> Plane \<Rightarrow> string \<Rightarrow> MemStore \<Rightarrow> (log_error + Segment) \<times> MemStore" where
  "createOpenSegment E io seq plane bucket m =
     (case io of
        Some e \<Rightarrow> (Inl (LogErr e), m)
      | None \<Rightarrow>
          let (sz, hdr) = WriteHeader (headerBytes E);
              s = (newSegment seq plane)\<lparr> sg_state := StateOpen, sg_fdRW := True, sg_size := sz, sg_car := hdr \<rparr>;
              s' = (if hasOps s then s\<lparr> sg_opsFD := True, sg_ops := Some [] \<rparr> else s)
          in (Inr s', InsertSegmentOpen plane seq bucket m))"

section \<open>Appending\<close>

record append_io =
  io_car :: "nat option"
  io_ops :: "nat option"
  io_sync :: bool

definition no_faults :: append_io where
  "no_faults = \<lparr> io_car = None, io_ops = None, io_sync = True \<rparr>"

definition written :: "nat option \<Rightarrow> bytes \<Rightarrow> bytes" where
  "written short out = (case short of None \<Rightarrow> out | Some n \<Rightarrow> take n out)"

definition writeFresh ::
  "nat option \<Rightarrow> (cid \<times> bytes) list \<Rightarrow> Segment \<Rightarrow> Segment \<times> (log_error + (cid \<times> bytes) list \<times> BlockPosition list)" where
  "writeFresh short blocks s =
     (let fresh = filter (\<lambda>b. gm_get (sg_seen s) (fst b) = None) blocks
      in if fresh = [] then (s, Inr ([], []))
         else
           let (positions, out) = WriteBlocksAt (sg_size s) fresh;
               s' = s\<lparr> sg_car := sg_car s @ written short out \<rparr>
           in if short \<noteq> None then (s', Inl (LogErr ''append'')) else (s', Inr (fresh, positions)))"

definition commitBlock :: "(cid \<times> bytes) \<times> BlockPosition \<Rightarrow> Segment \<Rightarrow> Segment" where
  "commitBlock bp s =
     (let (blk, pos) = bp
      in s\<lparr> sg_seen := gm_put (fst blk) () (sg_seen s),
            sg_index := gm_put (fst blk) \<lparr> bl_Offset = bp_Offset pos, bl_Length = bp_Length pos \<rparr> (sg_index s) \<rparr>)"

definition commitFresh :: "(cid \<times> bytes) list \<Rightarrow> BlockPosition list \<Rightarrow> Segment \<Rightarrow> Segment" where
  "commitFresh fresh positions s =
     (let s' = fold commitBlock (zip fresh positions) s
      in if positions = [] then s'
         else
           let stop = bp_Offset (last positions) + bp_Length (last positions)
           in if stop > sg_size s' then s'\<lparr> sg_size := stop \<rparr> else s')"

fun encodeOps :: "OpRoot list \<Rightarrow> log_error + bytes" where
  "encodeOps [] = Inr []"
| "encodeOps (opr # oprs) =
     bindE (encodeOpRecord opr) (\<lambda>enc. bindE (encodeOps oprs) (\<lambda>rest. Inr (enc @ rest)))"

definition seg_append :: "append_io \<Rightarrow> (cid \<times> bytes) list \<Rightarrow> OpRoot list \<Rightarrow> Segment \<Rightarrow> Segment \<times> log_error option" where
  "seg_append io blocks opRoots s =
     (if sg_state s \<noteq> StateOpen \<or> \<not> sg_fdRW s then (s, Some (LogErr ''segment not open for append''))
      else
        case writeFresh (io_car io) blocks s of
          (s1, Inl e) \<Rightarrow> (s1, Some e)
        | (s1, Inr (fresh, positions)) \<Rightarrow>
            let (s2, opsErr) =
              (if hasOps s1 \<and> opRoots \<noteq> [] then
                 case encodeOps opRoots of
                   Inl e \<Rightarrow> (s1, Some e)
                 | Inr enc \<Rightarrow>
                     (s1\<lparr> sg_ops := map_option (\<lambda>f. f @ written (io_ops io) enc) (sg_ops s1) \<rparr>,
                      if io_ops io = None then None else Some (LogErr ''write ops''))
               else (s1, None))
            in case opsErr of
                 Some e \<Rightarrow> (s2, Some e)
               | None \<Rightarrow>
                   if \<not> io_sync io then (s2, Some (LogErr ''fsync''))
                   else
                     let s3 = commitFresh fresh positions s2
                     in (if hasOps s3 then s3\<lparr> sg_opRoots := sg_opRoots s3 @ opRoots \<rparr> else s3, None))"

section \<open>Reading\<close>

definition ReadAt :: "bytes \<Rightarrow> nat \<Rightarrow> nat \<Rightarrow> bytes option" where
  "ReadAt f off len = (if off + len \<le> length f then Some (take len (drop off f)) else None)"

definition seg_get :: "log_env \<Rightarrow> cid \<Rightarrow> Segment \<Rightarrow> log_error + cid \<times> bytes" where
  "seg_get E c s =
     (if sg_retired s then Inl ErrBlockNotFound
      else
        case gm_get (sg_index s) c of
          None \<Rightarrow> Inl ErrBlockNotFound
        | Some loc \<Rightarrow>
            if \<not> sg_fdRO s \<and> \<not> sg_fdRW s then Inl (LogErr ''no read fd'')
            else
              case ReadAt (sg_car s) (bl_Offset loc) (bl_Length loc) of
                None \<Rightarrow> Inl (LogErr ''read'')
              | Some buf \<Rightarrow> (case NewBlockWithCid E buf c of Inl e \<Rightarrow> Inl (LogErr e) | Inr blk \<Rightarrow> Inr blk))"

section \<open>Sealing\<close>

text \<open>\<open>io_freeze\<close>: the first of the sync, hash and open steps to fail; none changes the segment.\<close>

record seal_io =
  io_freeze :: "string option"
  io_idx :: bool
  io_mark :: bool

definition freeze :: "log_env \<Rightarrow> string option \<Rightarrow> time \<Rightarrow> Segment \<Rightarrow> Segment \<times> log_error option" where
  "freeze E io now s =
     (case io of
        Some e \<Rightarrow> (s, Some (LogErr e))
      | None \<Rightarrow>
          (s\<lparr> sg_fdRW := False, sg_opsFD := False, sg_fdRO := True, sg_sha := Sum256 E (sg_car s),
              sg_sealedAt := now, sg_state := StateSealed \<rparr>, None))"

definition writeIdx :: "Segment \<Rightarrow> Segment" where
  "writeIdx s = s\<lparr> sg_idx := Some \<lparr> ix_Seq = sg_seq s, ix_Plane = sg_plane s, ix_SizeByte = sg_size s,
     ix_SHA256 = sg_sha s, ix_SealedAt = sg_sealedAt s, ix_Blocks = gm_items (sg_index s),
     ix_OpRoots = sg_opRoots s \<rparr> \<rparr>"

definition seg_seal :: "log_env \<Rightarrow> seal_io \<Rightarrow> time \<Rightarrow> Segment \<Rightarrow> MemStore \<Rightarrow> (Segment \<times> log_error option) \<times> MemStore" where
  "seg_seal E io now s m =
     (if sg_sealRecorded s then ((s, None), m)
      else
        case (if sg_state s = StateOpen then freeze E (io_freeze io) now s else (s, None)) of
          (s1, Some e) \<Rightarrow> ((s1, Some e), m)
        | (s1, None) \<Rightarrow>
            if \<not> sg_idxWritten s1 \<and> \<not> io_idx io then ((s1, Some (LogErr ''write idx'')), m)
            else
              let s2 = (if sg_idxWritten s1 then s1 else (writeIdx s1)\<lparr> sg_idxWritten := True \<rparr>)
              in if \<not> io_mark io then ((s2, Some (LogErr ''mark sealed'')), m)
                 else ((s2\<lparr> sg_sealRecorded := True \<rparr>, None),
                       MarkSegmentSealed (sg_plane s2) (sg_seq s2) (sg_sealedAt s2) (int (sg_size s2))
                         (sg_sha s2) (sg_opRoots s2) m))"

definition markShipped :: "int \<Rightarrow> Segment \<Rightarrow> Segment" where
  "markShipped at s = s\<lparr> sg_shippedAt := at \<rparr>"

text \<open>The files are unlinked in the order CAR, \<open>.idx\<close>, \<open>.ops\<close>; \<open>Some n\<close> is a failure after \<open>n\<close> of them.
  The descriptors are closed either way; the index is dropped only once all files are gone.\<close>

definition unlink :: "nat \<Rightarrow> Segment \<Rightarrow> Segment" where
  "unlink n s =
     s\<lparr> sg_car := (if n \<ge> 1 then [] else sg_car s),
        sg_idx := (if n \<ge> 2 then None else sg_idx s),
        sg_ops := (if n \<ge> 3 then None else sg_ops s) \<rparr>"

definition seg_retire :: "nat option \<Rightarrow> Segment \<Rightarrow> Segment \<times> log_error option" where
  "seg_retire io s =
     (if sg_retired s then (s, None)
      else
        let s1 = s\<lparr> sg_fdRO := False, sg_fdRW := False, sg_opsFD := False \<rparr>
        in case io of
             Some n \<Rightarrow> (unlink n s1, Some (LogErr ''unlink''))
           | None \<Rightarrow>
               ((unlink 3 s1)\<lparr> sg_retired := True, sg_index := gm_empty, sg_seen := gm_empty \<rparr>, None))"

section \<open>Loading from disk\<close>

definition loadSealedFromIdx ::
  "seqno \<Rightarrow> Plane \<Rightarrow> int \<Rightarrow> bytes option \<Rightarrow> bytes option \<Rightarrow> idxFile option \<Rightarrow> log_error + Segment" where
  "loadSealedFromIdx seq plane shippedAt car ops idx =
     (case idx of
        None \<Rightarrow> Inl (LogErr ''read idx'')
      | Some raw \<Rightarrow>
          if ix_Seq raw \<noteq> seq then Inl (LogErr ''idx seq != filename'')
          else
            case car of
              None \<Rightarrow> Inl (LogErr ''open sealed car'')
            | Some f \<Rightarrow>
                Inr ((newSegment seq plane)\<lparr>
                  sg_index := fold (\<lambda>(c, loc). gm_put c loc) (ix_Blocks raw) gm_empty,
                  sg_seen := fold (\<lambda>(c, _). gm_put c ()) (ix_Blocks raw) gm_empty,
                  sg_sha := ix_SHA256 raw, sg_size := ix_SizeByte raw, sg_sealedAt := ix_SealedAt raw,
                  sg_state := StateSealed, sg_idxWritten := True, sg_sealRecorded := True,
                  sg_shippedAt := shippedAt, sg_opRoots := ix_OpRoots raw, sg_fdRO := True,
                  sg_car := f, sg_ops := ops, sg_idx := idx \<rparr>))"

definition indexFrame :: "Frame \<Rightarrow> Segment \<Rightarrow> Segment" where
  "indexFrame f s =
     s\<lparr> sg_index := gm_put (fst (fr_Block f)) \<lparr> bl_Offset = fr_Offset f, bl_Length = fr_Length f \<rparr> (sg_index s),
        sg_seen := gm_put (fst (fr_Block f)) () (sg_seen s) \<rparr>"

definition indexScan :: "ScanResult \<Rightarrow> Segment \<Rightarrow> Segment" where
  "indexScan scan s = fold indexFrame (sr_Frames scan) (s\<lparr> sg_size := sr_LastGoodEnd scan \<rparr>)"

definition reopen :: "log_env \<Rightarrow> bytes option \<Rightarrow> Segment \<Rightarrow> log_error + Segment" where
  "reopen E ops s =
     (let s1 = s\<lparr> sg_fdRW := True, sg_state := StateOpen \<rparr>
      in if hasOps s1 then
           bindE (readAllOps (Cast E) ops) (\<lambda>oprs.
             Inr (s1\<lparr> sg_opRoots := oprs, sg_opsFD := True,
                      sg_ops := Some (case ops of None \<Rightarrow> [] | Some f \<Rightarrow> f) \<rparr>))
         else Inr s1)"

definition rebuildOpenFromDisk ::
  "log_env \<Rightarrow> seqno \<Rightarrow> Plane \<Rightarrow> bytes \<Rightarrow> bytes option \<Rightarrow> log_error + Segment" where
  "rebuildOpenFromDisk E seq plane car ops =
     (case ScanFile (car_env.truncate E) car of
        ScanFailed e \<Rightarrow> Inl (LogErr ''scan recovered car'')
      | Scanned scan \<Rightarrow> reopen E ops (indexScan scan ((newSegment seq plane)\<lparr> sg_car := car \<rparr>))
      | Torn scan \<Rightarrow>
          reopen E ops (indexScan scan ((newSegment seq plane)\<lparr> sg_car := take (sr_LastGoodEnd scan) car \<rparr>)))"

end
