(* ===== verification/Log_Durable.thy ===== *)
theory Log_Durable
  imports Log_Segment
begin

text \<open>
  A segment keeps what it acknowledged: every block of a batch whose append returned is read back, the
  seal keeps it, and after a crash in the middle of the next append the segment rebuilt from the files
  serves it again. \<open>holds E bs s\<close> says that the CAR is exactly the frames of \<open>bs\<close> and the index points at
  them.
\<close>

abbreviation carE :: "'a log_env_scheme \<Rightarrow> car_env" where
  "carE E \<equiv> car_env.truncate E"

lemma carE_simps [simp]: "CidFromBytes (carE E) = CidFromBytes E" "NewBlockWithCid (carE E) = NewBlockWithCid E"
  by (simp_all add: car_env.defs)

lemma hasOps_catalog [simp]: "hasOps s"
  by (cases "sg_plane s") (simp add: hasOps_def)

definition hdr :: "log_env \<Rightarrow> bytes" where
  "hdr E = snd (WriteHeader (headerBytes E))"

lemma fst_WriteHeader [simp]: "fst (WriteHeader (headerBytes E)) = length (hdr E)"
  by (simp add: hdr_def WriteHeader_def Let_def)

definition locOf :: "Frame \<Rightarrow> cid \<times> BlockLoc" where
  "locOf f = (fst (fr_Block f), \<lparr> bl_Offset = fr_Offset f, bl_Length = fr_Length f \<rparr>)"

definition holds :: "log_env \<Rightarrow> (cid \<times> bytes) list \<Rightarrow> Segment \<Rightarrow> bool" where
  "holds E bs s \<longleftrightarrow> sg_car s = hdr E @ frames bs \<and> sg_size s = length (sg_car s) \<and> distinct (map fst bs)
     \<and> (\<forall>c. gm_get (sg_seen s) c \<noteq> None \<longleftrightarrow> c \<in> fst ` set bs)
     \<and> (\<forall>c. gm_get (sg_index s) c = map_of (map locOf (framesAt (length (hdr E)) bs)) c) \<and> \<not> sg_retired s"

definition ops_hold :: "Segment \<Rightarrow> bool" where
  "ops_hold s \<longleftrightarrow> sg_ops s = Some (concat (map opRec (sg_opRoots s)))"

definition readable :: "Segment \<Rightarrow> bool" where
  "readable s \<longleftrightarrow> sg_fdRO s \<or> sg_fdRW s"

definition appendable :: "Segment \<Rightarrow> bool" where
  "appendable s \<longleftrightarrow> sg_state s = StateOpen \<and> sg_fdRW s"

section \<open>Reading what the segment holds\<close>

lemma fst_locOf [simp]: "map fst (map locOf (framesAt n bs)) = map fst bs"
  by (induction bs arbitrary: n) (auto simp: locOf_def)

lemma map_of_locOf:
  assumes "distinct (map fst bs)" and "map_of (map locOf (framesAt n bs)) c = Some loc"
  shows "\<exists>f \<in> set (framesAt n bs). fr_Block f = (c, the (map_of bs c)) \<and> map_of bs c \<noteq> None
    \<and> loc = \<lparr> bl_Offset = fr_Offset f, bl_Length = fr_Length f \<rparr>"
proof -
  from map_of_SomeD [OF assms(2)] obtain f where f: "f \<in> set (framesAt n bs)" "locOf f = (c, loc)" by auto
  have "fr_Block f \<in> fr_Block ` set (framesAt n bs)" using f(1) by (rule imageI)
  then have "fr_Block f \<in> set bs" by (metis framesAt_blocks(1) list.set_map)
  moreover have "fst (fr_Block f) = c" using f(2) by (simp add: locOf_def)
  ultimately have "map_of bs c = Some (snd (fr_Block f))" using assms(1) by (metis map_of_is_SomeI prod.collapse)
  then show ?thesis using f by (intro bexI [of _ f]) (auto simp: locOf_def)
qed

lemma map_of_locOf_None: "map_of (map locOf (framesAt n bs)) c = None \<longleftrightarrow> map_of bs c = None"
  by (metis fst_locOf list.set_map map_of_eq_None_iff)

lemma seg_get_holds:
  assumes "holds E bs s" and "car_ok (carE E) bs" and "readable s"
  shows "seg_get E c s = (case map_of bs c of None \<Rightarrow> Inl ErrBlockNotFound | Some d \<Rightarrow> Inr (c, d))"
proof (cases "map_of (map locOf (framesAt (length (hdr E)) bs)) c")
  case None
  then show ?thesis using assms(1) map_of_locOf_None [of "length (hdr E)" bs c]
    by (auto simp: seg_get_def holds_def)
next
  case (Some loc)
  from assms(1) have d: "distinct (map fst bs)" by (simp add: holds_def)
  obtain f where f: "f \<in> set (framesAt (length (hdr E)) bs)" "fr_Block f = (c, the (map_of bs c))"
      "map_of bs c \<noteq> None" "loc = \<lparr> bl_Offset = fr_Offset f, bl_Length = fr_Length f \<rparr>"
    using map_of_locOf [OF d Some] by auto
  then obtain data where data: "map_of bs c = Some data" by auto
  have "ReadAt (sg_car s) (bl_Offset loc) (bl_Length loc) = Some data"
    using framesAt_slice [OF f(1), of "[]"] assms(1) f data
    by (auto simp: ReadAt_def holds_def simp del: take_append drop_append)
  moreover have "NewBlockWithCid E data c = Inr (c, data)"
    using assms(2) map_of_SomeD [OF data] by (force simp: car_ok_def)
  ultimately show ?thesis using assms(1,3) Some data by (auto simp: seg_get_def holds_def readable_def)
qed

section \<open>Appending\<close>

lemma commit_fold:
  assumes "distinct (map fst bs)"
  shows "gm_get (sg_index (fold commitBlock (zip bs (map posOf (framesAt n bs))) s)) c =
      (case map_of (map locOf (framesAt n bs)) c of Some l \<Rightarrow> Some l | None \<Rightarrow> gm_get (sg_index s) c)"
    and "gm_get (sg_seen (fold commitBlock (zip bs (map posOf (framesAt n bs))) s)) c =
      (if c \<in> fst ` set bs then Some () else gm_get (sg_seen s) c)"
    and "(fold commitBlock (zip bs (map posOf (framesAt n bs))) s)\<lparr> sg_seen := x, sg_index := y \<rparr>
      = s\<lparr> sg_seen := x, sg_index := y \<rparr>"
proof -
  show "gm_get (sg_index (fold commitBlock (zip bs (map posOf (framesAt n bs))) s)) c =
      (case map_of (map locOf (framesAt n bs)) c of Some l \<Rightarrow> Some l | None \<Rightarrow> gm_get (sg_index s) c)"
    using assms
  proof (induction bs arbitrary: n s)
    case (Cons b bs)
    let ?f = "\<lparr> fr_Block = b, fr_Offset = payload_at n b, fr_Length = length (snd b) \<rparr>"
    have "fst b \<notin> fst ` set bs" using Cons.prems by simp
    then have none: "map_of (map locOf (framesAt (n + length (frame b)) bs)) (fst b) = None"
      by (metis fst_locOf list.set_map map_of_eq_None_iff)
    have "gm_get (sg_index (commitBlock (b, posOf ?f) s)) c = (if c = fst b then Some (snd (locOf ?f)) else gm_get (sg_index s) c)"
      by (simp add: commitBlock_def posOf_def locOf_def)
    moreover have "fst (locOf ?f) = fst b" by (simp add: locOf_def)
    ultimately show ?case using Cons.IH [of "n + length (frame b)" "commitBlock (b, posOf ?f) s"] Cons.prems none
      by (cases "locOf ?f") (auto split: option.splits)
  qed simp
  show "gm_get (sg_seen (fold commitBlock (zip bs (map posOf (framesAt n bs))) s)) c =
      (if c \<in> fst ` set bs then Some () else gm_get (sg_seen s) c)"
    by (induction bs arbitrary: n s) (auto simp: commitBlock_def)
  show "(fold commitBlock (zip bs (map posOf (framesAt n bs))) s)\<lparr> sg_seen := x, sg_index := y \<rparr>
      = s\<lparr> sg_seen := x, sg_index := y \<rparr>"
    by (induction bs arbitrary: n s) (auto simp: commitBlock_def)
qed

lemma last_position: "bs \<noteq> [] \<Longrightarrow>
  bp_Offset (last (map posOf (framesAt n bs))) + bp_Length (last (map posOf (framesAt n bs))) = n + length (frames bs)"
proof (induction bs arbitrary: n)
  case (Cons b bs)
  then show ?case by (cases "bs = []") (auto simp: posOf_def payload_at_def frame_def add.assoc)
qed simp

definition unseen :: "(cid \<times> bytes) list \<Rightarrow> Segment \<Rightarrow> (cid \<times> bytes) list" where
  "unseen blocks s = filter (\<lambda>b. gm_get (sg_seen s) (fst b) = None) blocks"

lemma unseen_disjoint:
  assumes "holds E bs s" and "c \<in> fst ` set (unseen blocks s)"
  shows "c \<notin> fst ` set bs"
proof -
  have "gm_get (sg_seen s) c = None" using assms(2) by (auto simp: unseen_def)
  then show ?thesis using assms(1) unfolding holds_def by metis
qed

lemma holds_unseen_distinct:
  assumes "holds E bs s" and "distinct (map fst blocks)"
  shows "distinct (map fst (bs @ unseen blocks s))"
proof -
  have "distinct (map fst (unseen blocks s))" using assms(2) by (simp add: unseen_def distinct_map_filter)
  moreover have "fst ` set bs \<inter> fst ` set (unseen blocks s) = {}"
    using unseen_disjoint [OF assms(1)] by (meson disjoint_iff)
  ultimately show ?thesis using assms(1) by (simp add: holds_def)
qed

lemma commitFresh_holds:
  assumes "holds E bs s" and "distinct (map fst blocks)" and "fresh = unseen blocks s"
    and "s' = commitFresh fresh (map posOf (framesAt (sg_size s) fresh)) (s\<lparr> sg_car := sg_car s @ frames fresh \<rparr>)"
  shows "holds E (bs @ fresh) s'"
proof -
  have d: "distinct (map fst fresh)" using assms(2) by (auto simp: assms(3) unseen_def distinct_map_filter)
  have disj: "c \<notin> fst ` set bs" if "c \<in> fst ` set fresh" for c
    using unseen_disjoint [OF assms(1)] that by (simp add: assms(3))
  have size: "sg_size s = length (hdr E) + length (frames bs)" using assms(1) by (simp add: holds_def)
  show ?thesis
  proof (cases "fresh = []")
    case True
    then show ?thesis using assms(1,4) by (simp add: commitFresh_def holds_def)
  next
    case False
    have index: "map_of (map locOf (framesAt (length (hdr E)) (bs @ fresh))) c =
        (case map_of (map locOf (framesAt (sg_size s) fresh)) c of
           Some l \<Rightarrow> Some l | None \<Rightarrow> map_of (map locOf (framesAt (length (hdr E)) bs)) c)" for c
    proof (cases "map_of (map locOf (framesAt (sg_size s) fresh)) c")
      case (Some l)
      then have "map_of fresh c \<noteq> None" using map_of_locOf_None [of "sg_size s" fresh c] by simp
      then have "c \<in> fst ` set fresh" by (simp add: map_of_eq_None_iff)
      then have "map_of bs c = None" using disj by (simp add: map_of_eq_None_iff)
      then have "map_of (map locOf (framesAt (length (hdr E)) bs)) c = None" using map_of_locOf_None by metis
      then show ?thesis using Some by (simp add: framesAt_append size map_add_def)
    qed (simp add: framesAt_append size map_add_def split: option.split)
    have pos: "map posOf (framesAt (sg_size s) fresh) \<noteq> []" using False by (cases fresh) auto
    have fr: "frames fresh \<noteq> []" using False by (cases fresh) auto
    define s0 where "s0 = s\<lparr> sg_car := sg_car s @ frames fresh \<rparr>"
    define s1 where "s1 = fold commitBlock (zip fresh (map posOf (framesAt (sg_size s) fresh))) s0"
    have s1: "s1\<lparr> sg_seen := x, sg_index := y \<rparr> = s0\<lparr> sg_seen := x, sg_index := y \<rparr>" for x y
      using commit_fold(3) [OF d, where n = "sg_size s" and s = s0] by (simp add: s1_def)
    have keep: "sg_size s1 = sg_size s" "sg_car s1 = sg_car s @ frames fresh" "sg_retired s1 = sg_retired s"
      using s1 [of gm_empty gm_empty, THEN arg_cong [where f = sg_size]]
        s1 [of gm_empty gm_empty, THEN arg_cong [where f = sg_car]]
        s1 [of gm_empty gm_empty, THEN arg_cong [where f = sg_retired]] by (simp_all add: s0_def)
    have old: "gm_get (sg_index s0) c = map_of (map locOf (framesAt (length (hdr E)) bs)) c"
      "gm_get (sg_seen s0) c \<noteq> None \<longleftrightarrow> c \<in> fst ` set bs" for c
      using assms(1) by (auto simp: s0_def holds_def)
    have "s' = s1\<lparr> sg_size := sg_size s + length (frames fresh) \<rparr>"
      using assms(4) pos fr last_position [OF False, of "sg_size s"] keep(1)
      by (simp add: commitFresh_def Let_def s1_def s0_def)
    moreover have "gm_get (sg_index s1) c = map_of (map locOf (framesAt (length (hdr E)) (bs @ fresh))) c" for c
      using commit_fold(1) [OF d, of "sg_size s" s0 c, folded s1_def] index [of c] old(1) [of c]
      by (simp split: option.splits)
    moreover have "gm_get (sg_seen s1) c \<noteq> None \<longleftrightarrow> c \<in> fst ` set (bs @ fresh)" for c
      using commit_fold(2) [OF d, of "sg_size s" s0 c, folded s1_def] old(2) [of c] by auto
    moreover have "distinct (map fst (bs @ fresh))" using holds_unseen_distinct [OF assms(1,2)] by (simp add: assms(3))
    ultimately show ?thesis using assms(1) keep by (simp add: holds_def)
  qed
qed

lemma commitFresh_frame:
  "sg_car (commitFresh f ps s) = sg_car s" "sg_ops (commitFresh f ps s) = sg_ops s"
  "sg_opRoots (commitFresh f ps s) = sg_opRoots s" "sg_state (commitFresh f ps s) = sg_state s"
  "sg_fdRW (commitFresh f ps s) = sg_fdRW s" "sg_fdRO (commitFresh f ps s) = sg_fdRO s"
  "sg_seq (commitFresh f ps s) = sg_seq s" "sg_shippedAt (commitFresh f ps s) = sg_shippedAt s"
  "sg_sealRecorded (commitFresh f ps s) = sg_sealRecorded s"
proof -
  have frame: "g (fold commitBlock xs s) = g s" if "\<And>x s. g (commitBlock x s) = g s" for g :: "Segment \<Rightarrow> 'b" and xs s
    using that by (induction xs arbitrary: s) auto
  show "sg_car (commitFresh f ps s) = sg_car s" "sg_ops (commitFresh f ps s) = sg_ops s"
    "sg_opRoots (commitFresh f ps s) = sg_opRoots s" "sg_state (commitFresh f ps s) = sg_state s"
    "sg_fdRW (commitFresh f ps s) = sg_fdRW s" "sg_fdRO (commitFresh f ps s) = sg_fdRO s"
    "sg_seq (commitFresh f ps s) = sg_seq s" "sg_shippedAt (commitFresh f ps s) = sg_shippedAt s"
    "sg_sealRecorded (commitFresh f ps s) = sg_sealRecorded s"
    by (simp_all add: commitFresh_def Let_def commitBlock_def frame split_beta)
qed

lemma encodeOps_opRec: "\<forall>opr \<in> set oprs. op_ok C opr \<Longrightarrow> encodeOps oprs = Inr (concat (map opRec oprs))"
  by (induction oprs) (auto simp: encodeOpRecord_opRec)

lemma writeFresh_unseen:
  "writeFresh short blocks s =
     (let fresh = unseen blocks s
      in if fresh = [] then (s, Inr ([], []))
         else (s\<lparr> sg_car := sg_car s @ written short (frames fresh) \<rparr>,
               if short \<noteq> None then Inl (LogErr ''append'') else Inr (fresh, map posOf (framesAt (sg_size s) fresh))))"
  by (simp add: writeFresh_def unseen_def WriteBlocksAt_frames Let_def)

text \<open>What an append leaves on disk, whatever went wrong: a prefix of the new frames and a prefix of
  the new records, behind what was there.\<close>

lemma seg_append_disk:
  assumes "\<forall>opr \<in> set oprs. op_ok C opr"
  shows "\<exists>n n'. sg_car (fst (seg_append io blocks oprs s)) = sg_car s @ take n (frames (unseen blocks s))
    \<and> sg_ops (fst (seg_append io blocks oprs s)) = map_option (\<lambda>f. f @ take n' (concat (map opRec oprs))) (sg_ops s)"
proof -
  have all: "\<exists>n. x = take n x" "\<exists>n. [] = take n x" for x :: bytes by (metis take_all order_refl, metis take0)
  have w: "\<exists>n. written short x = take n x" for short x
    by (cases short) (auto simp: written_def all)
  obtain nc where nc: "written (io_car io) (frames (unseen blocks s)) = take nc (frames (unseen blocks s))" using w by blast
  obtain no where no: "written (io_ops io) (concat (map opRec oprs)) = take no (concat (map opRec oprs))" using w by blast
  have id: "map_option (\<lambda>f. f @ take 0 (concat (map opRec oprs))) (sg_ops s) = sg_ops s" by (cases "sg_ops s") auto
  have car: "sg_car (fst (seg_append io blocks oprs s)) \<in> {sg_car s, sg_car s @ take nc (frames (unseen blocks s))}"
    by (simp add: seg_append_def writeFresh_unseen encodeOps_opRec [OF assms] nc commitFresh_frame Let_def
        split: option.splits)
  have ops: "sg_ops (fst (seg_append io blocks oprs s)) \<in>
      {sg_ops s, map_option (\<lambda>f. f @ take no (concat (map opRec oprs))) (sg_ops s)}"
    by (simp add: seg_append_def writeFresh_unseen encodeOps_opRec [OF assms] no commitFresh_frame Let_def
        split: option.splits)
  have "\<exists>n. sg_car (fst (seg_append io blocks oprs s)) = sg_car s @ take n (frames (unseen blocks s))"
    using car by (metis append_Nil2 insertE singletonD take0)
  moreover have "\<exists>n. sg_ops (fst (seg_append io blocks oprs s)) = map_option (\<lambda>f. f @ take n (concat (map opRec oprs))) (sg_ops s)"
    using ops id by (metis insertE singletonD)
  ultimately show ?thesis by blast
qed

lemma commitFresh_same_roots: "sg_opRoots s = r \<Longrightarrow> (commitFresh f ps s)\<lparr> sg_opRoots := r \<rparr> = commitFresh f ps s"
  using commitFresh_frame(3) [of f ps s] by simp

lemma seg_append_result:
  assumes "seg_append io blocks oprs s = (s', None)" and "\<forall>opr \<in> set oprs. op_ok C opr"
  shows "s' = (commitFresh (unseen blocks s) (map posOf (framesAt (sg_size s) (unseen blocks s)))
      (s\<lparr> sg_car := sg_car s @ frames (unseen blocks s),
         sg_ops := map_option (\<lambda>f. f @ concat (map opRec oprs)) (sg_ops s) \<rparr>))\<lparr> sg_opRoots := sg_opRoots s @ oprs \<rparr>"
  using assms
  by (auto simp: seg_append_def writeFresh_unseen encodeOps_opRec [OF assms(2)] written_def commitFresh_frame
      commitFresh_same_roots option.map_ident Let_def split: if_splits option.splits)

lemma seg_append_acked:
  assumes "holds E bs s" and "ops_hold s" and "distinct (map fst blocks)" and "\<forall>opr \<in> set oprs. op_ok C opr"
    and "seg_append io blocks oprs s = (s', None)"
  shows "holds E (bs @ unseen blocks s) s'" and "ops_hold s'" and "sg_opRoots s' = sg_opRoots s @ oprs"
    and "sg_seq s' = sg_seq s" and "appendable s \<Longrightarrow> appendable s'"
proof -
  let ?o = "map_option (\<lambda>f. f @ concat (map opRec oprs)) (sg_ops s)"
  let ?s = "s\<lparr> sg_ops := ?o \<rparr>"
  note s' = seg_append_result [OF assms(5,4)]
  have "holds E bs ?s" "unseen blocks s = unseen blocks ?s" using assms(1) by (simp_all add: holds_def unseen_def)
  then have "holds E (bs @ unseen blocks s) (commitFresh (unseen blocks s) (map posOf (framesAt (sg_size s) (unseen blocks s)))
      (?s\<lparr> sg_car := sg_car ?s @ frames (unseen blocks s) \<rparr>))"
    by (intro commitFresh_holds [OF _ assms(3)]) auto
  moreover have "?s\<lparr> sg_car := sg_car ?s @ frames (unseen blocks s) \<rparr> =
      s\<lparr> sg_car := sg_car s @ frames (unseen blocks s), sg_ops := ?o \<rparr>" by simp
  ultimately have "holds E (bs @ unseen blocks s) (commitFresh (unseen blocks s) (map posOf (framesAt (sg_size s) (unseen blocks s)))
      (s\<lparr> sg_car := sg_car s @ frames (unseen blocks s), sg_ops := ?o \<rparr>))" by metis
  then show "holds E (bs @ unseen blocks s) s'" by (simp add: s' holds_def)
  show "ops_hold s'" using assms(2) by (simp add: s' ops_hold_def commitFresh_frame)
  show "sg_opRoots s' = sg_opRoots s @ oprs" "sg_seq s' = sg_seq s" "appendable s \<Longrightarrow> appendable s'"
    by (simp_all add: s' commitFresh_frame appendable_def)
qed

lemma seg_append_no_faults:
  assumes "appendable s" and "\<forall>opr \<in> set oprs. op_ok C opr"
  shows "\<exists>s'. seg_append no_faults blocks oprs s = (s', None)"
  using assms by (auto simp: seg_append_def no_faults_def writeFresh_unseen encodeOps_opRec appendable_def written_def Let_def)

section \<open>Creating and sealing\<close>

lemma createOpenSegment_holds:
  "createOpenSegment E None seq plane bucket m = (Inr s, m') \<Longrightarrow>
   holds E [] s \<and> ops_hold s \<and> appendable s \<and> sg_seq s = seq \<and> sg_opRoots s = []"
  by (auto simp: createOpenSegment_def holds_def ops_hold_def appendable_def newSegment_def hdr_def WriteHeader_def Let_def)

lemma seg_seal_keeps:
  assumes "((s', err), m') = seg_seal E io now s m"
  shows "holds E bs s \<Longrightarrow> holds E bs s'" and "ops_hold s \<Longrightarrow> ops_hold s'" and "readable s \<Longrightarrow> readable s'"
    and "sg_opRoots s' = sg_opRoots s" and "sg_seq s' = sg_seq s" and "sg_shippedAt s' = sg_shippedAt s"
  using assms
  by (auto simp: seg_seal_def freeze_def writeIdx_def holds_def ops_hold_def readable_def Let_def
      split: if_splits option.splits prod.splits)

section \<open>Recovery after a crash\<close>

lemma indexFrame_fold:
  assumes "distinct (map fst bs)"
  shows "gm_get (sg_index (fold indexFrame (framesAt n bs) s)) c =
      (case map_of (map locOf (framesAt n bs)) c of Some l \<Rightarrow> Some l | None \<Rightarrow> gm_get (sg_index s) c)"
    and "gm_get (sg_seen (fold indexFrame (framesAt n bs) s)) c =
      (if c \<in> fst ` set bs then Some () else gm_get (sg_seen s) c)"
proof -
  have "map (\<lambda>f. (fr_Block f, posOf f)) (framesAt n bs) = zip bs (map posOf (framesAt n bs))"
    by (induction bs arbitrary: n) auto
  moreover have "indexFrame f s = commitBlock (fr_Block f, posOf f) s" for f s
    by (simp add: indexFrame_def commitBlock_def posOf_def)
  then have "fold indexFrame fs s = fold commitBlock (map (\<lambda>f. (fr_Block f, posOf f)) fs) s" for fs
    by (induction fs arbitrary: s) auto
  ultimately have "fold indexFrame (framesAt n bs) s = fold commitBlock (zip bs (map posOf (framesAt n bs))) s" by simp
  then show "gm_get (sg_index (fold indexFrame (framesAt n bs) s)) c =
      (case map_of (map locOf (framesAt n bs)) c of Some l \<Rightarrow> Some l | None \<Rightarrow> gm_get (sg_index s) c)"
    and "gm_get (sg_seen (fold indexFrame (framesAt n bs) s)) c =
      (if c \<in> fst ` set bs then Some () else gm_get (sg_seen s) c)"
    using commit_fold(1,2) [OF assms] by simp_all
qed

lemma indexFrame_frame:
  "sg_car (fold indexFrame fs s) = sg_car s" "sg_size (fold indexFrame fs s) = sg_size s"
  "sg_retired (fold indexFrame fs s) = sg_retired s" "sg_seq (fold indexFrame fs s) = sg_seq s"
  by (induction fs arbitrary: s) (auto simp: indexFrame_def)

lemma indexScan_holds:
  assumes "distinct (map fst bs)" and "length car = length (hdr E) + length (frames bs)" and "car = hdr E @ frames bs"
    and "sr_Frames scan = framesAt (length (hdr E)) bs" and "sr_LastGoodEnd scan = length car"
  shows "holds E bs (indexScan scan ((newSegment seq plane)\<lparr> sg_car := car \<rparr>))"
  using assms indexFrame_fold [OF assms(1), of "length (hdr E)"]
  by (auto simp: holds_def indexScan_def indexFrame_frame newSegment_def split: option.splits)

lemma reopen_spec:
  assumes "readAllOps (Cast E) ops = Inr oprs"
  shows "\<exists>s'. reopen E ops s = Inr s' \<and> sg_opRoots s' = oprs \<and> appendable s' \<and> (holds E bs s \<longrightarrow> holds E bs s')
    \<and> sg_seq s' = sg_seq s"
  using assms by (auto simp: reopen_def holds_def appendable_def Let_def hasOps_catalog)

text \<open>The files as a crash can leave them: of each, any prefix that contains what was synced.\<close>

lemma rebuild_cut:
  assumes "distinct (map fst (bs @ fresh))" and "car_ok (carE E) (bs @ fresh)"
    and "length (hdr E) + length (frames (bs @ fresh)) < 2 ^ 63"
    and "\<forall>opr \<in> set oprs. op_ok (Cast E) opr"
    and "car = hdr E @ frames bs @ take j (frames fresh)" and "ops = take k (concat (map opRec oprs))"
  shows "\<exists>s'. rebuildOpenFromDisk E seq plane car (Some ops) = Inr s' \<and> holds E (bs @ fit frame j fresh) s'
    \<and> sg_opRoots s' = fit opRec k oprs \<and> appendable s' \<and> sg_seq s' = seq"
proof -
  let ?i = "min j (length (frames fresh))"
  let ?all = "bs @ fresh" and ?kept = "bs @ fit frame ?i fresh"
  let ?scan = "\<lparr> sr_Frames = framesAt (length (hdr E)) ?kept,
    sr_LastGoodEnd = length (hdr E) + length (frames ?kept), sr_HeaderEnd = length (hdr E) \<rparr>"
  have same: "fit frame ?i fresh = fit frame j fresh"
    by (cases "j \<le> length (frames fresh)") (auto simp: min_def fit_all)
  have tk: "take (length (frames bs) + ?i) (frames ?all) = frames bs @ take j (frames fresh)"
    by (simp add: min_def)
  have fitk: "fit frame (length (frames bs) + ?i) ?all = ?kept" by (simp add: fit_append)
  have "ScanFile (carE E) (snd (WriteHeader (headerBytes E)) @ take (length (frames bs) + ?i) (frames ?all)) =
      scan_end (length (frames ?kept) = length (frames bs) + ?i) ?scan"
    using Scan_cut [OF assms(2), of "length (frames bs) + ?i" "headerBytes E"] assms(3)
    by (simp add: fitk Let_def hdr_def WriteHeader_def)
  then have scan: "ScanFile (carE E) car = scan_end (length (frames ?kept) = length (frames bs) + ?i) ?scan"
    unfolding tk by (simp add: assms(5) hdr_def)
  obtain rest where rest: "?all = ?kept @ rest"
    by (metis append.assoc append_take_drop_id fit_prefix)
  have dk: "distinct (map fst ?kept)" using assms(1) unfolding rest by (simp add: Int_Un_distrib)
  have whole: "take (length (hdr E) + length (frames ?kept)) car = hdr E @ frames ?kept"
  proof -
    have "frames ?all = frames ?kept @ frames rest" unfolding rest by simp
    then have "car = hdr E @ take (length (frames bs) + ?i) (frames ?kept @ frames rest)"
      using tk by (simp only: assms(5))
    then show ?thesis using length_concat_fit [of frame ?i fresh] by simp
  qed
  have held: "holds E ?kept (indexScan ?scan ((newSegment seq plane)\<lparr> sg_car := hdr E @ frames ?kept \<rparr>))"
    using dk by (intro indexScan_holds) auto
  have "readAllOps (Cast E) (Some ops) = Inr (fit opRec k oprs)"
    using readOps_cut [OF assms(4), of k] by (simp add: readAllOps_def assms(6))
  note re = reopen_spec [OF this, of "indexScan ?scan ((newSegment seq plane)\<lparr> sg_car := hdr E @ frames ?kept \<rparr>)" ?kept]
  have "rebuildOpenFromDisk E seq plane car (Some ops) =
      reopen E (Some ops) (indexScan ?scan ((newSegment seq plane)\<lparr> sg_car := hdr E @ frames ?kept \<rparr>))"
  proof (cases "length (frames ?kept) = length (frames bs) + ?i")
    case True
    moreover have "take ?i (frames fresh) = take j (frames fresh)" by (simp add: min_def)
    ultimately have kept: "car = hdr E @ frames ?kept" using whole by (simp add: assms(5))
    have "rebuildOpenFromDisk E seq plane car (Some ops) =
        reopen E (Some ops) (indexScan ?scan ((newSegment seq plane)\<lparr> sg_car := car \<rparr>))"
      using True by (simp add: rebuildOpenFromDisk_def scan scan_end_def)
    then show ?thesis by (simp only: kept)
  next
    case False
    then show ?thesis using whole by (simp add: rebuildOpenFromDisk_def scan scan_end_def)
  qed
  then show ?thesis using re held by (auto simp: same indexScan_def indexFrame_frame newSegment_def)
qed

section \<open>The life of a segment without failed appends\<close>

text \<open>\<open>clean E bs s\<close>: the segment was created, took batches that were acknowledged, and may have been
  sealed, with any outcome of the seal's own steps; \<open>bs\<close> are the blocks it took.\<close>

inductive clean :: "log_env \<Rightarrow> (cid \<times> bytes) list \<Rightarrow> Segment \<Rightarrow> bool" for E where
  clean_create: "createOpenSegment E None seq plane bucket m = (Inr s, m') \<Longrightarrow> clean E [] s"
| clean_append: "clean E bs s \<Longrightarrow> distinct (map fst blocks) \<Longrightarrow> \<forall>opr \<in> set oprs. op_ok (Cast E) opr \<Longrightarrow>
    seg_append io blocks oprs s = (s', None) \<Longrightarrow> clean E (bs @ unseen blocks s) s'"
| clean_seal: "clean E bs s \<Longrightarrow> seg_seal E io now s m = ((s', err), m') \<Longrightarrow> clean E bs s'"

lemma seg_append_open: "seg_append io blocks oprs s = (s', None) \<Longrightarrow> appendable s"
  by (auto simp: seg_append_def appendable_def split: if_splits)

lemma clean_holds:
  "clean E bs s \<Longrightarrow> holds E bs s \<and> ops_hold s \<and> readable s \<and> (\<forall>opr \<in> set (sg_opRoots s). op_ok (Cast E) opr)"
proof (induction rule: clean.induct)
  case (clean_create seq plane bucket m s m')
  from createOpenSegment_holds [OF this] show ?case by (auto simp: readable_def appendable_def)
next
  case (clean_append bs s blocks oprs io s')
  then show ?case using seg_append_acked [of E bs s blocks oprs "Cast E" io s'] seg_append_open [of io blocks oprs s s']
    by (auto simp: readable_def appendable_def)
next
  case (clean_seal bs s io now m s' err m')
  then show ?case using seg_seal_keeps [OF clean_seal.hyps(2) [symmetric]] by auto
qed

definition demo_log_env :: log_env where
  "demo_log_env = car_env.extend demo_car_env
     \<lparr> Cast = demo_Cast, Sum256 = (\<lambda>b. take 32 b), headerBytes = ''H'',
        IsDagCBOR = (\<lambda>_. False), ScanForLinks = (\<lambda>_. Inr []) \<rparr>"

lemma demo_log_env_simps [simp]:
  "CidFromBytes demo_log_env = CidFromBytes demo_car_env" "NewBlockWithCid demo_log_env = NewBlockWithCid demo_car_env"
  "Cast demo_log_env = demo_Cast" "headerBytes demo_log_env = ''H''"
  by (simp_all add: demo_log_env_def car_env.defs)

definition demo_segment :: Segment where
  "demo_segment = projr (fst (createOpenSegment demo_log_env None 1 PlaneCatalog ''photos'' NewMemStore))"

definition demo_root :: OpRoot where
  "demo_root = \<lparr> op_Bucket = ''photos'', op_Root = ''r1'' \<rparr>"

lemma clean_demo: "clean demo_log_env [] demo_segment"
  by (rule clean_create [where seq = 1 and plane = PlaneCatalog and bucket = "''photos''" and m = NewMemStore])
     (simp add: demo_segment_def createOpenSegment_def Let_def split: prod.splits)

lemma op_ok_demo: "op_ok demo_Cast demo_root"
  by (simp add: op_ok_def demo_Cast_def demo_root_def cid_Defined_def cid_Undef_def)



lemma unseen_subset: "set (unseen blocks s) \<subseteq> set blocks"
  by (auto simp: unseen_def)

lemma car_ok_subset: "car_ok E bs \<Longrightarrow> set as \<subseteq> set bs \<Longrightarrow> car_ok E as"
  by (auto simp: car_ok_def)

text \<open>The segment rebuilt from what a crash left of the files holds the acknowledged blocks and a prefix
  of the batch that was being appended.\<close>

lemma crash_rebuild:
  assumes "clean E bs s" and "distinct (map fst blocks)" and "car_ok (carE E) (bs @ blocks)"
    and "\<forall>opr \<in> set oprs. op_ok (Cast E) opr"
    and "length (sg_car s) + length (frames (unseen blocks s)) < 2 ^ 63"
    and "seg_append io blocks oprs s = (s1, err)"
    and "length (sg_car s) \<le> k" and "\<forall>f. sg_ops s = Some f \<longrightarrow> length f \<le> k'"
  shows "\<exists>s' n n'. rebuildOpenFromDisk E seq plane (take k (sg_car s1)) (map_option (take k') (sg_ops s1)) = Inr s'
    \<and> holds E (bs @ take n (unseen blocks s)) s' \<and> appendable s' \<and> sg_opRoots s' = sg_opRoots s @ take n' oprs
    \<and> (sg_car s1 = sg_car s @ frames (unseen blocks s) \<longrightarrow> length (sg_car s1) \<le> k \<longrightarrow> take n (unseen blocks s) = unseen blocks s)"
proof -
  let ?fresh = "unseen blocks s" and ?recs = "concat (map opRec oprs)"
  have inv: "holds E bs s" "ops_hold s" "\<forall>opr \<in> set (sg_opRoots s). op_ok (Cast E) opr"
    using clean_holds [OF assms(1)] by auto
  from seg_append_disk [OF assms(4), of io blocks s] obtain n n' where
    car: "sg_car s1 = sg_car s @ take n (frames ?fresh)" and
    ops: "sg_ops s1 = map_option (\<lambda>f. f @ take n' ?recs) (sg_ops s)"
    using assms(6) by auto
  let ?j = "min n (k - length (sg_car s))"
  let ?old = "concat (map opRec (sg_opRoots s))"
  have car': "take k (sg_car s1) = hdr E @ frames bs @ take ?j (frames ?fresh)"
    using inv(1) assms(7) by (simp add: car holds_def min.commute)
  have old: "sg_ops s = Some ?old" using inv(2) by (simp add: ops_hold_def)
  then have "length ?old \<le> k'" using assms(8) by simp
  then have ops': "map_option (take k') (sg_ops s1) =
      Some (take (length ?old + min n' (k' - length ?old)) (concat (map opRec (sg_opRoots s @ oprs))))"
    by (simp add: ops old min.commute)
  have allops: "\<forall>opr \<in> set (sg_opRoots s @ oprs). op_ok (Cast E) opr" using inv(3) assms(4) by auto
  have sub: "car_ok (carE E) (bs @ ?fresh)"
    using assms(3) unseen_subset [of blocks s] by (intro car_ok_subset [OF assms(3)]) auto
  have size: "length (hdr E) + length (frames (bs @ ?fresh)) < 2 ^ 63" using assms(5) inv(1) by (simp add: holds_def)
  obtain s' where s': "rebuildOpenFromDisk E seq plane (take k (sg_car s1)) (map_option (take k') (sg_ops s1)) = Inr s'"
      "holds E (bs @ fit frame ?j ?fresh) s'" "appendable s'"
      "sg_opRoots s' = fit opRec (length ?old + min n' (k' - length ?old)) (sg_opRoots s @ oprs)"
    using rebuild_cut [OF holds_unseen_distinct [OF inv(1) assms(2)] sub size allops car' refl, where k = "length ?old + min n' (k' - length ?old)" and seq = seq and plane = plane]
    unfolding ops' by blast
  have "fit frame ?j ?fresh = ?fresh" if "sg_car s1 = sg_car s @ frames ?fresh" "length (sg_car s1) \<le> k"
  proof -
    have "length (take n (frames ?fresh)) = length (frames ?fresh)" using car that(1) by simp
    then have "length (frames ?fresh) \<le> n" by simp
    moreover have "length (frames ?fresh) \<le> k - length (sg_car s)" using that assms(7) by simp
    ultimately show ?thesis by (intro fit_all) simp
  qed
  moreover have "sg_opRoots s' = sg_opRoots s @ take (length (fit opRec (min n' (k' - length ?old)) oprs)) oprs"
    unfolding s'(4) by (simp add: fit_append fit_prefix)
  ultimately show ?thesis
    using s' by (intro exI [of _ s'] exI [of _ "length (fit frame ?j ?fresh)"]
        exI [of _ "length (fit opRec (min n' (k' - length ?old)) oprs)"] conjI) (auto simp: fit_prefix)
qed



lemmas seg_eval = seg_append_def writeFresh_def WriteBlocksAt_def writeBlock_def written_def commitFresh_def commitBlock_def
  PutUvarint.simps Let_def

definition demo_torn :: Segment where
  "demo_torn = fst (seg_append \<lparr> io_car = Some 1, io_ops = None, io_sync = True \<rparr> [(''A'', ''hello'')] [] demo_segment)"

definition demo_shifted :: Segment where
  "demo_shifted = fst (seg_append no_faults [(''B'', ''world'')] [demo_root] demo_torn)"

lemma char_of_small: "char_of (Suc 0) = CHR 0x01" "char_of (Suc (Suc (Suc (Suc (Suc (Suc 0)))))) = CHR 0x06"
  by code_simp+

lemma demo_segment_eval: "demo_segment = (newSegment 1 PlaneCatalog)\<lparr> sg_fdRW := True, sg_size := 2,
    sg_car := [CHR 0x01, CHR ''H''], sg_opsFD := True, sg_ops := Some [] \<rparr>"
  by (simp add: demo_segment_def createOpenSegment_def WriteHeader_def PutUvarint.simps newSegment_def char_of_small Let_def)

lemma demo_torn_eval: "demo_torn = demo_segment\<lparr> sg_car := [CHR 0x01, CHR ''H'', CHR 0x06] \<rparr>"
  by (simp add: demo_torn_def demo_segment_eval seg_eval newSegment_def char_of_small)

lemma demo_enc: "encodeOpRecord demo_root = Inr (opRec demo_root)"
  using encodeOpRecord_opRec [OF op_ok_demo] .

lemma demo_shifted_eval:
  "seg_append no_faults [(''B'', ''world'')] [demo_root] demo_torn = (demo_shifted, None)"
  "sg_car demo_shifted = [CHR 0x01, CHR ''H'', CHR 0x06, CHR 0x06] @ ''Bworld''"
  "sg_ops demo_shifted = Some (opRec demo_root)" 
  "gm_get (sg_index demo_shifted) ''B'' = Some \<lparr> bl_Offset = 4, bl_Length = 5 \<rparr>"
  "sg_retired demo_shifted = False" "sg_fdRW demo_shifted"
  by (simp_all add: demo_shifted_def demo_torn_eval demo_segment_eval seg_eval demo_enc newSegment_def
      char_of_small no_faults_def)

lemma demo_shifted_get: "seg_get demo_log_env ''B'' demo_shifted = Inr (''B'', ''Bworl'')"
  by (simp add: seg_get_def demo_shifted_eval ReadAt_def demo_car_env_def)

lemma of_char_small: "(of_char CHR 0x01 :: nat) = 1" "(of_char CHR 0x06 :: nat) = 6" "(of_char CHR ''d'' :: nat) = 100"
  by code_simp+

lemma demo_scan: "ScanFile (carE demo_log_env) (sg_car demo_shifted) =
   Torn \<lparr> sr_Frames = [\<lparr> fr_Block = ([CHR 0x06], ''Bworl''), fr_Offset = 4, fr_Length = 5 \<rparr>], sr_LastGoodEnd = 9, sr_HeaderEnd = 2 \<rparr>"
  by (simp add: ScanFile_def Scan_def demo_shifted_eval of_char_small uvarintLen_def PutUvarint.simps Let_def)
     (subst scanFrames.simps, simp add: of_char_small int64_def demo_car_env_def,
      subst scanFrames.simps, simp add: of_char_small int64_def)

end
