(* ===== verification/Log_Dead.thy ===== *)
theory Log_Dead
  imports Log_Durable
begin

text \<open>
  What a segment holds that is dead on arrival (\<open>src/logstore/dead.go\<close>): the frames of the blocks its
  last op-root does not reach. The walk is a worklist over the segment's own index; it is shown to end
  on every segment, cycles in the links included, and to measure exactly the unreachable frames.
\<close>

section \<open>The walk\<close>

text \<open>\<open>pending\<close> is the stack with its top first. \<open>reached\<close> is the set of blocks counted so far; each new
  one leaves fewer blocks of the index to reach.\<close>

definition unreached :: "(cid, BlockLoc) gomap \<Rightarrow> cid list \<Rightarrow> nat" where
  "unreached idx reached = length (filter (\<lambda>c. c \<notin> set reached) (map fst (gm_items idx)))"

lemma unreached_less:
  assumes "gm_get idx c = Some loc" and "c \<notin> set reached"
  shows "unreached idx (c # reached) < unreached idx reached"
proof -
  let ?open = "filter (\<lambda>x. x \<notin> set reached) (map fst (gm_items idx))"
  have "c \<in> set ?open" using assms by (force simp: gm_get_iff_items)
  then have "length (filter (\<lambda>x. x \<noteq> c) ?open) < length ?open" by (rule length_filter_less) simp
  then show ?thesis by (simp add: unreached_def conj_commute)
qed

function deadWalk :: "log_env \<Rightarrow> (cid, BlockLoc) gomap \<Rightarrow> bytes \<Rightarrow> cid list \<Rightarrow> nat \<Rightarrow> cid list \<Rightarrow> log_error + nat" where
  "deadWalk E idx car reached live [] = Inr live"
| "deadWalk E idx car reached live (c # pending) =
     (if c \<in> set reached then deadWalk E idx car reached live pending
      else
        case gm_get idx c of
          None \<Rightarrow> deadWalk E idx car reached live pending
        | Some loc \<Rightarrow>
            let reached' = c # reached;
                live' = live + FrameSize c (bl_Length loc)
            in if \<not> IsDagCBOR E c then deadWalk E idx car reached' live' pending
               else
                 case ReadAt car (bl_Offset loc) (bl_Length loc) of
                   None \<Rightarrow> Inl (LogErr ''read'')
                 | Some buf \<Rightarrow>
                     (case ScanForLinks E buf of
                        Inl e \<Rightarrow> Inl (LogErr e)
                      | Inr links \<Rightarrow>
                          deadWalk E idx car reached' live'
                            (rev (filter (\<lambda>l. gm_get idx l \<noteq> None) links) @ pending)))"
  by pat_completeness auto

termination deadWalk
  by (relation "measures [\<lambda>(E, idx, car, reached, live, pending). unreached idx reached,
                          \<lambda>(E, idx, car, reached, live, pending). length pending]")
     (auto simp: unreached_less)

definition deadBytes :: "log_env \<Rightarrow> Segment \<Rightarrow> log_error + int" where
  "deadBytes E s =
     (if sg_state s \<noteq> StateSealed \<or> sg_retired s \<or> \<not> sg_fdRO s
      then Inl (LogErr ''dead bytes of a segment that is not sealed and on disk'')
      else
        let total = sum_list (map (\<lambda>(c, loc). FrameSize c (bl_Length loc)) (gm_items (sg_index s)))
        in if sg_opRoots s = [] then
             if total = 0 then Inr 0
             else Inl (LogErr ''dead bytes of a segment with blocks but no op-root to walk from'')
           else
             bindE (deadWalk E (sg_index s) (sg_car s) [] 0 [op_Root (last (sg_opRoots s))])
               (\<lambda>live. Inr (int total - int live)))"

text \<open>Measured once; \<open>-1\<close> when it could not be measured.\<close>

definition deadOnArrival :: "log_env \<Rightarrow> Segment \<Rightarrow> Segment \<times> int" where
  "deadOnArrival E s =
     (case sg_dead s of
        Some d \<Rightarrow> (s, d)
      | None \<Rightarrow>
          let d = (case deadBytes E s of Inl e \<Rightarrow> -1 | Inr d \<Rightarrow> d) in (s\<lparr> sg_dead := Some d \<rparr>, d))"

section \<open>What the walk measures\<close>

text \<open>A block's links within the segment; a block of another codec has none.\<close>

definition block_links :: "log_env \<Rightarrow> (cid, BlockLoc) gomap \<Rightarrow> bytes \<Rightarrow> (cid \<times> cid) set" where
  "block_links E idx car = {(c, l). \<exists>loc buf links. gm_get idx c = Some loc \<and> IsDagCBOR E c
     \<and> ReadAt car (bl_Offset loc) (bl_Length loc) = Some buf \<and> ScanForLinks E buf = Inr links
     \<and> l \<in> set links \<and> gm_get idx l \<noteq> None}"

definition frame_bytes :: "(cid, BlockLoc) gomap \<Rightarrow> cid \<Rightarrow> nat" where
  "frame_bytes idx c = (case gm_get idx c of None \<Rightarrow> 0 | Some loc \<Rightarrow> FrameSize c (bl_Length loc))"

text \<open>The invariant of the walk: what is reached or pending generates the live set, a reached block's
  links are reached or pending, and the bytes counted are those of the reached blocks.\<close>

definition walk_inv :: "(cid \<times> cid) set \<Rightarrow> (cid, BlockLoc) gomap \<Rightarrow> cid set \<Rightarrow> cid list \<Rightarrow> nat \<Rightarrow> cid list \<Rightarrow> bool" where
  "walk_inv R idx L reached live pending \<longleftrightarrow>
     R\<^sup>* `` (set reached \<union> {c \<in> set pending. gm_get idx c \<noteq> None}) = L
     \<and> R `` set reached \<subseteq> set reached \<union> set pending \<and> live = (\<Sum>c \<in> set reached. frame_bytes idx c)"

lemma walk_inv_skip:
  assumes "walk_inv (block_links E idx car) idx L reached live (c # pending)" and "c \<in> set reached \<or> gm_get idx c = None"
  shows "walk_inv (block_links E idx car) idx L reached live pending"
proof -
  have "set reached \<union> {x \<in> set (c # pending). gm_get idx x \<noteq> None} = set reached \<union> {x \<in> set pending. gm_get idx x \<noteq> None}"
    using assms(2) by auto
  moreover have "c \<in> set reached \<or> c \<notin> block_links E idx car `` set reached"
    using assms(2) by (auto simp: block_links_def)
  ultimately show ?thesis using assms(1) by (auto simp: walk_inv_def)
qed

lemma rtrancl_Image_generate: "B \<subseteq> R\<^sup>* `` A \<Longrightarrow> R\<^sup>* `` (A \<union> B) = R\<^sup>* `` A"
  by (auto intro: rtrancl_trans)

lemma walk_inv_visit:
  assumes "walk_inv R idx L reached live (c # pending)" and "gm_get idx c = Some loc" and "c \<notin> set reached"
    and "R `` {c} = set links" and "\<forall>l \<in> set links. gm_get idx l \<noteq> None"
  shows "walk_inv R idx L (c # reached) (live + FrameSize c (bl_Length loc)) (rev links @ pending)"
proof -
  let ?A = "set reached \<union> {x \<in> set (c # pending). gm_get idx x \<noteq> None}"
  have "set (c # reached) \<union> {x \<in> set (rev links @ pending). gm_get idx x \<noteq> None} = ?A \<union> set links"
    using assms(2,5) by auto
  moreover have "set links \<subseteq> R\<^sup>* `` ?A" using assms(2,4) by auto
  ultimately have "R\<^sup>* `` (set (c # reached) \<union> {x \<in> set (rev links @ pending). gm_get idx x \<noteq> None}) = L"
    using assms(1) rtrancl_Image_generate [of "set links" R ?A] by (simp add: walk_inv_def)
  moreover have "R `` set (c # reached) \<subseteq> set (c # reached) \<union> set (rev links @ pending)"
    using assms(1,4) by (auto simp: walk_inv_def)
  moreover have "live + FrameSize c (bl_Length loc) = (\<Sum>x \<in> set (c # reached). frame_bytes idx x)"
    using assms(1-3) by (simp add: walk_inv_def frame_bytes_def)
  ultimately show ?thesis by (simp add: walk_inv_def)
qed

lemma walk_inv_end: "walk_inv R idx L reached live [] \<Longrightarrow> live = (\<Sum>c \<in> L. frame_bytes idx c)"
proof -
  assume inv: "walk_inv R idx L reached live []"
  then have "R `` set reached \<subseteq> set reached" by (simp add: walk_inv_def)
  then have "R\<^sup>* `` set reached = set reached" by (rule Image_closed_trancl)
  then show ?thesis using inv by (simp add: walk_inv_def)
qed

lemma deadWalk_live:
  "deadWalk E idx car reached live pending = Inr n \<Longrightarrow> walk_inv (block_links E idx car) idx L reached live pending \<Longrightarrow>
   n = (\<Sum>c \<in> L. frame_bytes idx c)"
proof (induction E idx car reached live pending rule: deadWalk.induct)
  case (1 E idx car reached live)
  then show ?case using walk_inv_end by simp
next
  case (2 E idx car reached live c pending)
  let ?R = "block_links E idx car"
  show ?case
  proof (cases "c \<in> set reached \<or> gm_get idx c = None")
    case True
    then show ?thesis using 2(1,2) 2(5) walk_inv_skip [OF 2(6) True] by (cases "c \<in> set reached") auto
  next
    case False
    then obtain loc where loc: "gm_get idx c = Some loc" and c: "c \<notin> set reached" by auto
    show ?thesis
    proof (cases "IsDagCBOR E c")
      case False
      have "?R `` {c} = set []" using False by (auto simp: block_links_def)
      from walk_inv_visit [OF 2(6) loc c this] show ?thesis
        using 2(3) [OF c loc refl refl False] 2(5) loc c False by simp
    next
      case True
      then obtain buf links where bl: "ReadAt car (bl_Offset loc) (bl_Length loc) = Some buf" "ScanForLinks E buf = Inr links"
        using 2(5) loc c by (auto split: option.splits sum.splits)
      let ?links = "filter (\<lambda>l. gm_get idx l \<noteq> None) links"
      have "?R `` {c} = set ?links" using loc True bl by (auto simp: block_links_def)
      from walk_inv_visit [OF 2(6) loc c this] have "walk_inv ?R idx L (c # reached) (live + FrameSize c (bl_Length loc)) (rev ?links @ pending)"
        by simp
      then show ?thesis
        using 2(4) [OF c loc refl refl, of buf links] 2(5) loc c True bl by simp
    qed
  qed
qed

lemma deadWalk_total:
  "\<forall>c loc. gm_get idx c = Some loc \<longrightarrow> IsDagCBOR E c \<longrightarrow>
     (\<exists>buf links. ReadAt car (bl_Offset loc) (bl_Length loc) = Some buf \<and> ScanForLinks E buf = Inr links) \<Longrightarrow>
   \<exists>n. deadWalk E idx car reached live pending = Inr n"
proof (induction E idx car reached live pending rule: deadWalk.induct)
  case (2 E idx car reached live c pending)
  show ?case
  proof (cases "c \<in> set reached \<or> gm_get idx c = None")
    case True
    then show ?thesis using 2(1,2) 2(5) by (cases "c \<in> set reached") auto
  next
    case False
    then obtain loc where loc: "gm_get idx c = Some loc" and c: "c \<notin> set reached" by auto
    show ?thesis
    proof (cases "IsDagCBOR E c")
      case False
      then show ?thesis using 2(3) [OF c loc refl refl False] 2(5) loc c by simp
    next
      case True
      then obtain buf links where "ReadAt car (bl_Offset loc) (bl_Length loc) = Some buf" "ScanForLinks E buf = Inr links"
        using 2(5) loc by blast
      then show ?thesis using 2(4) [OF c loc refl refl, of buf links] 2(5) loc c True by simp
    qed
  qed
qed simp

lemma sum_items: "sum_list (map (\<lambda>(c, loc). FrameSize c (bl_Length loc)) (gm_items idx)) = (\<Sum>c | gm_get idx c \<noteq> None. frame_bytes idx c)"
proof -
  have "sum_list (map (\<lambda>(c, loc). FrameSize c (bl_Length loc)) (gm_items idx)) = sum_list (map (frame_bytes idx) (map fst (gm_items idx)))"
    by (simp add: comp_def split_beta)
       (rule arg_cong [where f = sum_list], rule map_cong [OF refl], force simp: frame_bytes_def gm_get_map_of)
  also have "\<dots> = (\<Sum>c \<in> fst ` set (gm_items idx). frame_bytes idx c)"
    by (subst sum_list_distinct_conv_sum_set [OF gm_distinct]) simp
  also have "fst ` set (gm_items idx) = {c. gm_get idx c \<noteq> None}"
    by (auto simp: gm_get_map_of map_of_eq_None_iff)
  finally show ?thesis .
qed

lemma finite_index [simp]: "finite {c. gm_get idx c \<noteq> None}"
  using finite_dom_map_of [of "gm_items idx"] by (simp add: gm_get_map_of dom_def)

lemma links_in_index: "(block_links E idx car)\<^sup>* `` {c. c = r \<and> gm_get idx c \<noteq> None} \<subseteq> {c. gm_get idx c \<noteq> None}"
proof
  fix x assume "x \<in> (block_links E idx car)\<^sup>* `` {c. c = r \<and> gm_get idx c \<noteq> None}"
  then have "(r, x) \<in> (block_links E idx car)\<^sup>*" "gm_get idx r \<noteq> None" by auto
  then show "x \<in> {c. gm_get idx c \<noteq> None}" by (induction rule: rtrancl_induct) (auto simp: block_links_def)
qed

text \<open>C39. What a shipped segment reports as dead on arrival is exactly the frame bytes of the blocks its
  last op-root does not reach through the segment's own blocks. The measurement ends whatever the links,
  and succeeds on every sealed segment whose DAG-CBOR blocks read and parse.\<close>

theorem deadBytes_unreachable:
  assumes "sg_state s = StateSealed" and "\<not> sg_retired s" and "sg_fdRO s" and "sg_opRoots s \<noteq> []"
    and "\<forall>c loc. gm_get (sg_index s) c = Some loc \<longrightarrow> IsDagCBOR E c \<longrightarrow>
      (\<exists>buf links. ReadAt (sg_car s) (bl_Offset loc) (bl_Length loc) = Some buf \<and> ScanForLinks E buf = Inr links)"
  shows "deadBytes E s = Inr (int (\<Sum>c | gm_get (sg_index s) c \<noteq> None
    \<and> c \<notin> (block_links E (sg_index s) (sg_car s))\<^sup>* `` {r. r = op_Root (last (sg_opRoots s)) \<and> gm_get (sg_index s) r \<noteq> None}.
      frame_bytes (sg_index s) c))"
proof -
  let ?idx = "sg_index s" and ?root = "op_Root (last (sg_opRoots s))"
  let ?R = "block_links E ?idx (sg_car s)" and ?D = "{c. gm_get (sg_index s) c \<noteq> None}"
  let ?L = "?R\<^sup>* `` {r. r = ?root \<and> gm_get ?idx r \<noteq> None}"
  obtain live where live: "deadWalk E ?idx (sg_car s) [] 0 [?root] = Inr live"
    using deadWalk_total [OF assms(5)] by blast
  have "walk_inv ?R ?idx ?L [] 0 [?root]" by (auto simp: walk_inv_def)
  then have sum: "live = (\<Sum>c \<in> ?L. frame_bytes ?idx c)" by (rule deadWalk_live [OF live])
  have "(\<Sum>c \<in> ?D. frame_bytes ?idx c) = (\<Sum>c \<in> ?D - ?L. frame_bytes ?idx c) + live"
    unfolding sum by (rule sum.subset_diff) (use links_in_index finite_index in auto)
  moreover have "?D - ?L = {c. gm_get ?idx c \<noteq> None \<and> c \<notin> ?L}" by auto
  ultimately show ?thesis using assms(1-4) live by (simp add: deadBytes_def sum_items)
qed

definition demo_dag_env :: log_env where
  "demo_dag_env = demo_log_env\<lparr> IsDagCBOR := (\<lambda>_. True), ScanForLinks := (\<lambda>buf. Inr [buf]) \<rparr>"

text \<open>Two blocks that link to each other and a third the root does not reach.\<close>

definition demo_dag :: Segment where
  "demo_dag = (newSegment 1 PlaneCatalog)\<lparr> sg_state := StateSealed, sg_fdRO := True, sg_car := ''BAC'',
     sg_opRoots := [\<lparr> op_Bucket = ''photos'', op_Root = ''A'' \<rparr>],
     sg_index := gm_put ''A'' \<lparr> bl_Offset = 0, bl_Length = 1 \<rparr> (gm_put ''B'' \<lparr> bl_Offset = 1, bl_Length = 1 \<rparr>
       (gm_put ''C'' \<lparr> bl_Offset = 2, bl_Length = 1 \<rparr> gm_empty)) \<rparr>"

theorem deadBytes_unreachable_witness:
  "deadBytes demo_dag_env demo_dag = Inr 3
   \<and> deadBytes demo_dag_env demo_dag = Inr (int (\<Sum>c | gm_get (sg_index demo_dag) c \<noteq> None
       \<and> c \<notin> (block_links demo_dag_env (sg_index demo_dag) (sg_car demo_dag))\<^sup>* ``
             {r. r = op_Root (last (sg_opRoots demo_dag)) \<and> gm_get (sg_index demo_dag) r \<noteq> None}.
         frame_bytes (sg_index demo_dag) c))"
proof
  have [simp]: "sg_state demo_dag = StateSealed" "\<not> sg_retired demo_dag" "sg_fdRO demo_dag"
    "sg_opRoots demo_dag = [\<lparr> op_Bucket = ''photos'', op_Root = ''A'' \<rparr>]"
    "sg_car demo_dag = ''BAC''" "ScanForLinks demo_dag_env = (\<lambda>buf. Inr [buf])" "IsDagCBOR demo_dag_env = (\<lambda>_. True)"
    by (simp_all add: demo_dag_def newSegment_def demo_dag_env_def)
  have idx: "gm_get (sg_index demo_dag) c = (if c = ''A'' then Some \<lparr> bl_Offset = 0, bl_Length = 1 \<rparr>
      else if c = ''B'' then Some \<lparr> bl_Offset = 1, bl_Length = 1 \<rparr>
      else if c = ''C'' then Some \<lparr> bl_Offset = 2, bl_Length = 1 \<rparr> else None)" for c
    by (simp add: demo_dag_def)
  have items: "sum_list (map (\<lambda>(c, loc). FrameSize c (bl_Length loc)) (gm_items (sg_index demo_dag))) = 9"
    by (simp add: demo_dag_def DAList.update.rep_eq DAList.empty.rep_eq FrameSize_def PutUvarint.simps)
  show "deadBytes demo_dag_env demo_dag = Inr 3"
    unfolding deadBytes_def items by (simp add: idx ReadAt_def FrameSize_def PutUvarint.simps Let_def)
  show "deadBytes demo_dag_env demo_dag = Inr (int (\<Sum>c | gm_get (sg_index demo_dag) c \<noteq> None
       \<and> c \<notin> (block_links demo_dag_env (sg_index demo_dag) (sg_car demo_dag))\<^sup>* ``
             {r. r = op_Root (last (sg_opRoots demo_dag)) \<and> gm_get (sg_index demo_dag) r \<noteq> None}.
         frame_bytes (sg_index demo_dag) c))"
    by (rule deadBytes_unreachable) (simp_all add: idx ReadAt_def)
qed

end
