(* ===== verification/Log_Plane.thy ===== *)
theory Log_Plane
  imports Log_Dead
begin

text \<open>
  A bucket's log (\<open>src/logstore/planelog.go\<close>, \<open>config.go\<close>, \<open>store.go\<close>): one open segment that takes
  appends and the sealed segments behind it, newest first, each of them shipped to the network by the
  flush worker and retired from disk once enough newer ones have shipped. The log's goroutines share it
  under locks; every operation here is what one of them does while it holds a lock, and an attempt to
  ship (\<open>shipAttempt\<close>) is one such step of \<open>flushOne\<close>, so that appends and seals come between two
  attempts. The queue holds pointers to segments of the log; here they are the segments' numbers, which
  are unique in a log. A segment that is no longer in the log has been retired.

  As in \<open>Log_Segment\<close>, what the file system, the metadata store and the network answer is an argument.
\<close>

section \<open>Configuration and state\<close>

record PlaneConfig =
  pc_SealBytes :: int
  pc_SealAge :: int
  pc_Ship :: bool
  pc_Retain :: int
  pc_ShipRetry :: int

definition withDefaults :: "PlaneConfig \<Rightarrow> PlaneConfig" where
  "withDefaults pc =
     \<lparr> pc_SealBytes = (if pc_SealBytes pc \<le> 0 then 64 * 2 ^ 20 else pc_SealBytes pc),
       pc_SealAge = (if pc_SealAge pc \<le> 0 then 5 * 10 ^ 9 else pc_SealAge pc),
       pc_Ship = pc_Ship pc,
       pc_Retain = (if pc_Retain pc \<le> 0 then 6 else pc_Retain pc),
       pc_ShipRetry = (if pc_ShipRetry pc \<le> 0 then 60 * 10 ^ 9 else pc_ShipRetry pc) \<rparr>"

record PlaneLog =
  pl_plane :: Plane
  pl_bucket :: string
  pl_pc :: PlaneConfig
  pl_open :: "Segment option"
  pl_sealed :: "Segment list"
  pl_flushQ :: "seqno list"
  pl_closing :: bool
  pl_openedAt :: time
  pl_sealReq :: bool

type_synonym plane_state = "PlaneLog \<times> MemStore"

text \<open>The log over an empty directory: \<open>openPlaneLog\<close> with nothing to recover.\<close>

definition newPlaneLog :: "Plane \<Rightarrow> string \<Rightarrow> PlaneConfig \<Rightarrow> PlaneLog" where
  "newPlaneLog plane bucket pc =
     \<lparr> pl_plane = plane, pl_bucket = bucket, pl_pc = pc, pl_open = None, pl_sealed = [], pl_flushQ = [],
       pl_closing = False, pl_openedAt = 0, pl_sealReq = False \<rparr>"

definition flushQ_cap :: nat where
  "flushQ_cap = 64"

section \<open>Appending and reading\<close>

definition requestSeal :: "PlaneLog \<Rightarrow> PlaneLog" where
  "requestSeal pl = pl\<lparr> pl_sealReq := True \<rparr>"

definition enqueueFlush :: "seqno \<Rightarrow> PlaneLog \<Rightarrow> PlaneLog" where
  "enqueueFlush seq pl =
     (if \<not> pc_Ship (pl_pc pl) then pl
      else if length (pl_flushQ pl) < flushQ_cap then pl\<lparr> pl_flushQ := pl_flushQ pl @ [seq] \<rparr> else pl)"

text \<open>\<open>io_seq\<close>: a number could be drawn; \<open>io_create\<close>: the failure of creating the files or the row.
  The branch for a segment that lost the race to become the open one is left out: the append lock is held.\<close>

record open_io =
  io_seq :: bool
  io_create :: "string option"

definition ensureOpenLockedAppMu ::
  "log_env \<Rightarrow> open_io \<Rightarrow> time \<Rightarrow> plane_state \<Rightarrow> plane_state \<times> (log_error + Segment)" where
  "ensureOpenLockedAppMu E io now st =
     (let (pl, m) = st
      in case pl_open pl of
           Some s \<Rightarrow> ((pl, m), Inr s)
         | None \<Rightarrow>
             if \<not> io_seq io then ((pl, m), Inl (LogErr ''next segment seq''))
             else
               let (m1, seq) = NextSegmentSeq m
               in case createOpenSegment E (io_create io) seq (pl_plane pl) (pl_bucket pl) m1 of
                    (Inl e, m2) \<Rightarrow> ((pl, m2), Inl e)
                  | (Inr s, m2) \<Rightarrow> ((pl\<lparr> pl_open := Some s, pl_openedAt := now \<rparr>, m2), Inr s))"

definition plane_Append ::
  "log_env \<Rightarrow> open_io \<Rightarrow> append_io \<Rightarrow> time \<Rightarrow> (cid \<times> bytes) list \<Rightarrow> OpRoot list \<Rightarrow> plane_state
     \<Rightarrow> plane_state \<times> (log_error + seqno)" where
  "plane_Append E oio aio now blocks opRoots st =
     (if blocks = [] \<and> opRoots = [] then (st, Inr 0)
      else
        case ensureOpenLockedAppMu E oio now st of
          (st1, Inl e) \<Rightarrow> (st1, Inl e)
        | ((pl, m), Inr s) \<Rightarrow>
            (case seg_append aio blocks opRoots s of
               (s', Some e) \<Rightarrow> ((pl\<lparr> pl_open := Some s' \<rparr>, m), Inl e)
             | (s', None) \<Rightarrow>
                 let pl1 = pl\<lparr> pl_open := Some s' \<rparr>
                 in ((if int (sg_size s') \<ge> pc_SealBytes (pl_pc pl1) then requestSeal pl1 else pl1, m),
                     Inr (sg_seq s'))))"

fun firstHit :: "log_env \<Rightarrow> cid \<Rightarrow> Segment list \<Rightarrow> log_error + cid \<times> bytes" where
  "firstHit E c [] = Inl ErrBlockNotFound"
| "firstHit E c (s # ss) =
     (case seg_get E c s of
        Inr blk \<Rightarrow> Inr blk
      | Inl e \<Rightarrow> if e = ErrBlockNotFound then firstHit E c ss else Inl e)"

definition segs :: "PlaneLog \<Rightarrow> Segment list" where
  "segs pl = (case pl_open pl of None \<Rightarrow> [] | Some s \<Rightarrow> [s]) @ pl_sealed pl"

definition plane_Get :: "log_env \<Rightarrow> cid \<Rightarrow> PlaneLog \<Rightarrow> log_error + cid \<times> bytes" where
  "plane_Get E c pl = firstHit E c (segs pl)"

definition AppendBatch ::
  "log_env \<Rightarrow> open_io \<Rightarrow> append_io \<Rightarrow> time \<Rightarrow> (cid \<times> bytes) list \<Rightarrow> OpRoot \<Rightarrow> plane_state
     \<Rightarrow> plane_state \<times> (log_error + seqno)" where
  "AppendBatch E oio aio now blocks opRoot st =
     (if \<not> cid_Defined (op_Root opRoot) then (st, Inl (LogErr ''AppendBatch: opRoot.Root must be defined''))
      else plane_Append E oio aio now blocks [opRoot] st)"

section \<open>Sealing\<close>

definition sealOpenIfDue ::
  "log_env \<Rightarrow> seal_io \<Rightarrow> bool \<Rightarrow> time \<Rightarrow> plane_state \<Rightarrow> plane_state \<times> log_error option" where
  "sealOpenIfDue E io force now st =
     (let (pl, m) = st
      in case pl_open pl of
           None \<Rightarrow> ((pl, m), None)
         | Some s \<Rightarrow>
             if \<not> force \<and> int (sg_size s) < pc_SealBytes (pl_pc pl) \<and> now - pl_openedAt pl < pc_SealAge (pl_pc pl)
             then ((pl, m), None)
             else
               let ((s', err), m') = seg_seal E io now s m
               in if err \<noteq> None \<and> sg_state s' = StateOpen then ((pl\<lparr> pl_open := Some s' \<rparr>, m'), err)
                  else
                    ((enqueueFlush (sg_seq s') (pl\<lparr> pl_open := None, pl_sealed := s' # pl_sealed pl \<rparr>), m'), None))"

text \<open>A second \<open>Close\<close> does nothing. A segment whose seal fails is dropped from the log's memory; its
  files stay for the next start. What the flush worker still takes off the queue is a step of its own.\<close>

definition plane_Close :: "log_env \<Rightarrow> seal_io \<Rightarrow> time \<Rightarrow> plane_state \<Rightarrow> plane_state" where
  "plane_Close E io now st =
     (let (pl, m) = st
      in if pl_closing pl then (pl, m)
         else
           let pl1 = pl\<lparr> pl_closing := True, pl_open := None \<rparr>
           in case pl_open pl of
                None \<Rightarrow> (pl1, m)
              | Some s \<Rightarrow>
                  let ((s', err), m') = seg_seal E io now s m
                  in if err \<noteq> None then (pl1, m')
                     else (enqueueFlush (sg_seq s') (pl1\<lparr> pl_sealed := s' # pl_sealed pl1 \<rparr>), m'))"

section \<open>Retention\<close>

fun beyondRetain :: "int \<Rightarrow> int \<Rightarrow> Segment list \<Rightarrow> seqno list" where
  "beyondRetain retain shippedSeen [] = []"
| "beyondRetain retain shippedSeen (s # ss) =
     (if \<not> IsShipped s \<or> sg_retired s then beyondRetain retain shippedSeen ss
      else if shippedSeen + 1 \<le> retain then beyondRetain retain (shippedSeen + 1) ss
      else sg_seq s # beyondRetain retain (shippedSeen + 1) ss)"

text \<open>What happens to each segment: where its unlinking fails, if it does, and whether its row can be
  stamped.\<close>

record retain_io =
  io_retire :: "seqno \<Rightarrow> nat option"
  io_row :: "seqno \<Rightarrow> bool"
  io_retiredAt :: int

definition runRetention :: "retain_io \<Rightarrow> plane_state \<Rightarrow> plane_state" where
  "runRetention io st =
     (let (pl, m) = st
      in if \<not> pc_Ship (pl_pc pl) then (pl, m)
         else
           let toRetire = beyondRetain (pc_Retain (pl_pc pl)) 0 (pl_sealed pl);
               sealed = map (\<lambda>s. if sg_seq s \<in> set toRetire then fst (seg_retire (io_retire io (sg_seq s)) s) else s)
                          (pl_sealed pl);
               keep = filter (\<lambda>s. \<not> sg_retired s) sealed;
               remove = filter sg_retired sealed
           in (pl\<lparr> pl_sealed := keep \<rparr>,
               fold (\<lambda>s m. if io_row io (sg_seq s)
                           then RetireSegment (pl_plane pl) (sg_seq s) (io_retiredAt io) m else m) remove m))"

section \<open>Shipping\<close>

record ship_io =
  io_seal :: seal_io
  io_flush :: "string + multihash option"
  io_stamp :: bool
  io_now :: int

definition setSeg :: "Segment \<Rightarrow> PlaneLog \<Rightarrow> PlaneLog" where
  "setSeg s pl = pl\<lparr> pl_sealed := map (\<lambda>s'. if sg_seq s' = sg_seq s then s else s') (pl_sealed pl) \<rparr>"

definition findSeg :: "seqno \<Rightarrow> PlaneLog \<Rightarrow> Segment option" where
  "findSeg seq pl = find (\<lambda>s. sg_seq s = seq) (pl_sealed pl)"

text \<open>One round of \<open>flushOne\<close>'s loop: record the seal and ship, unless an earlier round has shipped
  (\<open>flushed\<close>: when, and the digest of the index), then stamp. The answer is whether the segment is stamped,
  and what the next round knows.\<close>

definition shipAttempt ::
  "log_env \<Rightarrow> ship_io \<Rightarrow> retain_io \<Rightarrow> int \<Rightarrow> Segment \<Rightarrow> (int \<times> multihash option) option \<Rightarrow> plane_state
     \<Rightarrow> plane_state \<times> (int \<times> multihash option) option \<times> bool" where
  "shipAttempt E io rio dead s flushed st =
     (let (pl, m) = st;
          ((s1, err), m1) = (case flushed of None \<Rightarrow> seg_seal E (io_seal io) (io_now io) s m | Some _ \<Rightarrow> ((s, None), m));
          pl1 = setSeg s1 pl;
          flushed' = (if flushed = None \<and> err = None
                      then (case io_flush io of Inl e \<Rightarrow> None | Inr digest \<Rightarrow> Some (io_now io, digest))
                      else flushed)
      in case flushed' of
           None \<Rightarrow> ((pl1, m1), None, False)
         | Some (shippedAt, digest) \<Rightarrow>
             if io_stamp io
             then (runRetention rio (setSeg (markShipped shippedAt s1) pl1,
                     MarkSegmentShipped (pl_plane pl) (sg_seq s1) shippedAt digest dead (sg_opRoots s1) m1),
                   flushed', True)
             else ((pl1, m1), flushed', False))"

text \<open>The rounds of one call, one entry of the list each: at most \<open>maxAttempts\<close>, fewer when the log is
  closed in between.\<close>

fun shipRounds ::
  "log_env \<Rightarrow> int \<Rightarrow> seqno \<Rightarrow> (ship_io \<times> retain_io) list \<Rightarrow> (int \<times> multihash option) option \<Rightarrow> plane_state
     \<Rightarrow> plane_state \<times> bool" where
  "shipRounds E dead seq [] flushed st = (st, False)"
| "shipRounds E dead seq ((io, rio) # ios) flushed st =
     (case findSeg seq (fst st) of
        None \<Rightarrow> (st, True)
      | Some s \<Rightarrow>
          (case shipAttempt E io rio dead s flushed st of
             (st', _, True) \<Rightarrow> (st', True)
           | (st', flushed', False) \<Rightarrow> shipRounds E dead seq ios flushed' st'))"

definition flushOne :: "log_env \<Rightarrow> nat \<Rightarrow> (ship_io \<times> retain_io) list \<Rightarrow> seqno \<Rightarrow> plane_state \<Rightarrow> plane_state \<times> bool" where
  "flushOne E maxAttempts ios seq st =
     (case findSeg seq (fst st) of
        None \<Rightarrow> (st, True)
      | Some s \<Rightarrow>
          if IsShipped s \<or> sg_retired s then (st, True)
          else
            let (s1, dead) = deadOnArrival E s
            in shipRounds E dead seq (take maxAttempts ios) None (setSeg s1 (fst st), snd st))"

definition queuedShipAttempts :: nat where
  "queuedShipAttempts = 5"

text \<open>One turn of \<open>flushLoop\<close> on the queue.\<close>

definition flushQueued :: "log_env \<Rightarrow> (ship_io \<times> retain_io) list \<Rightarrow> plane_state \<Rightarrow> plane_state" where
  "flushQueued E ios st =
     (case pl_flushQ (fst st) of
        [] \<Rightarrow> st
      | seq # q \<Rightarrow> fst (flushOne E queuedShipAttempts ios seq ((fst st)\<lparr> pl_flushQ := q \<rparr>, snd st)))"

text \<open>The sweep, oldest first; it stops at the first segment that does not ship, or when the log closes
  (the list of outcomes is then shorter than the list of segments).\<close>

fun sweep :: "log_env \<Rightarrow> (ship_io \<times> retain_io) list \<Rightarrow> seqno list \<Rightarrow> plane_state \<Rightarrow> plane_state" where
  "sweep E ios [] st = st"
| "sweep E [] (seq # seqs) st = st"
| "sweep E (io # ios) (seq # seqs) st =
     (case flushOne E 1 [io] seq st of (st', True) \<Rightarrow> sweep E ios seqs st' | (st', False) \<Rightarrow> st')"

definition pendingSegs :: "PlaneLog \<Rightarrow> seqno list" where
  "pendingSegs pl = map sg_seq (filter (\<lambda>s. \<not> IsShipped s \<and> \<not> sg_retired s) (rev (pl_sealed pl)))"

definition retryUnshipped :: "log_env \<Rightarrow> (ship_io \<times> retain_io) list \<Rightarrow> plane_state \<Rightarrow> plane_state" where
  "retryUnshipped E ios st = sweep E ios (pendingSegs (fst st)) st"

end
