(* ===== verification/Log_NoLoss.thy ===== *)
theory Log_NoLoss
  imports Log_Plane
begin

text \<open>
  A log loses nothing it acknowledged: along every interleaving of appends, seals, ship attempts and
  retention, an acknowledged block is read back from the log, unless a ship of a segment holding it has
  succeeded. Also what retention keeps, and that a sweep whose ships succeed leaves nothing unshipped.
\<close>

section \<open>Runs of a log\<close>

text \<open>\<open>content\<close> is the data each CID names. \<open>A\<close> are the blocks acknowledged so far, \<open>S\<close> the blocks of
  the segments shipped so far. The metadata store is shared: between two steps of the log others may
  change it, but never take segment numbers back, and the 64-bit counter is not exhausted. An append that failed before it reached the segment's
  files leaves the log as it was; one that failed on the files is not followed (see
  \<open>Log_Durable\<close>).\<close>

definition addressed :: "(cid \<Rightarrow> bytes) \<Rightarrow> (cid \<times> bytes) list \<Rightarrow> bool" where
  "addressed content bs \<longleftrightarrow> (\<forall>(c, d) \<in> set bs. d = content c)"

definition served :: "(cid \<Rightarrow> bytes) \<Rightarrow> Segment \<Rightarrow> (cid \<times> bytes) set" where
  "served content s = {(c, content c) | c. gm_get (sg_index s) c \<noteq> None}"

inductive plog :: "log_env \<Rightarrow> (cid \<Rightarrow> bytes) \<Rightarrow> (cid \<times> bytes) set \<Rightarrow> (cid \<times> bytes) set \<Rightarrow> PlaneLog \<Rightarrow> MemStore \<Rightarrow> bool"
  for E content where
  plog_new: "plog E content {} {} (newPlaneLog plane bucket pc) m"
| plog_meta: "plog E content A S pl m \<Longrightarrow> nextSeq m \<le> nextSeq m' \<Longrightarrow> plog E content A S pl m'"
| plog_append: "plog E content A S pl m \<Longrightarrow> nextSeq m < - 1 \<Longrightarrow> distinct (map fst blocks) \<Longrightarrow> addressed content blocks \<Longrightarrow>
    car_ok (carE E) blocks \<Longrightarrow> \<forall>opr \<in> set oprs. op_ok (Cast E) opr \<Longrightarrow>
    plane_Append E oio aio now blocks oprs (pl, m) = ((pl', m'), Inr seq) \<Longrightarrow>
    plog E content (A \<union> set blocks) S pl' m'"
| plog_refused: "plog E content A S pl m \<Longrightarrow> nextSeq m < - 1 \<Longrightarrow>
    plane_Append E oio aio now blocks oprs (pl, m) = ((pl, m'), Inl e) \<Longrightarrow> plog E content A S pl m'"
| plog_seal: "plog E content A S pl m \<Longrightarrow> sealOpenIfDue E sio force now (pl, m) = ((pl', m'), r) \<Longrightarrow>
    plog E content A S pl' m'"
| plog_measure: "plog E content A S pl m \<Longrightarrow> findSeg seq pl = Some s \<Longrightarrow> deadOnArrival E s = (s', d) \<Longrightarrow>
    plog E content A S (setSeg s' pl) m"
| plog_ship: "plog E content A S pl m \<Longrightarrow> findSeg seq pl = Some s \<Longrightarrow> \<not> IsShipped s \<Longrightarrow>
    (flushed \<noteq> None \<Longrightarrow> served content s \<subseteq> S) \<Longrightarrow>
    shipAttempt E io rio d s flushed (pl, m) = ((pl', m'), flushed', ok) \<Longrightarrow>
    plog E content A (if flushed' = None then S else S \<union> served content s) pl' m'"
| plog_retain: "plog E content A S pl m \<Longrightarrow> runRetention rio (pl, m) = (pl', m') \<Longrightarrow> plog E content A S pl' m'"

section \<open>The invariant\<close>

definition local_ok :: "log_env \<Rightarrow> (cid \<Rightarrow> bytes) \<Rightarrow> Segment \<Rightarrow> bool" where
  "local_ok E content s \<longleftrightarrow> (\<exists>bs. holds E bs s \<and> car_ok (carE E) bs \<and> readable s \<and> addressed content bs)"

definition away_ok :: "log_env \<Rightarrow> (cid \<Rightarrow> bytes) \<Rightarrow> (cid \<times> bytes) set \<Rightarrow> Segment \<Rightarrow> bool" where
  "away_ok E content S s \<longleftrightarrow> served content s \<subseteq> S \<and> (\<forall>c b. seg_get E c s = Inr b \<longrightarrow> b = (c, content c))"

definition seg_ok :: "log_env \<Rightarrow> (cid \<Rightarrow> bytes) \<Rightarrow> (cid \<times> bytes) set \<Rightarrow> Segment \<Rightarrow> bool" where
  "seg_ok E content S s \<longleftrightarrow> (if IsShipped s then away_ok E content S s else local_ok E content s)"

definition plog_inv :: "log_env \<Rightarrow> (cid \<Rightarrow> bytes) \<Rightarrow> (cid \<times> bytes) set \<Rightarrow> (cid \<times> bytes) set \<Rightarrow> PlaneLog \<Rightarrow> MemStore \<Rightarrow> bool" where
  "plog_inv E content A S pl m \<longleftrightarrow>
     distinct (map sg_seq (segs pl)) \<and> (\<forall>s \<in> set (segs pl). sg_seq s \<le> nextSeq m)
     \<and> (\<forall>s \<in> set (segs pl). seg_ok E content S s)
     \<and> (\<forall>s. pl_open pl = Some s \<longrightarrow> appendable s \<and> ops_hold s \<and> \<not> IsShipped s)
     \<and> (\<forall>(c, d) \<in> A. d = content c \<and> ((c, d) \<in> S \<or> (\<exists>s \<in> set (segs pl). \<not> IsShipped s \<and> gm_get (sg_index s) c \<noteq> None)))"

lemma plog_inv_acked:
  assumes "plog_inv E content A S pl m" and "(c, d) \<in> A"
  shows "d = content c" and "(c, d) \<in> S \<or> (\<exists>s \<in> set (segs pl). \<not> IsShipped s \<and> gm_get (sg_index s) c \<noteq> None)"
  using assms unfolding plog_inv_def by fastforce+

lemma served_same: "sg_index s' = sg_index s \<Longrightarrow> served content s' = served content s"
  by (simp add: served_def)

lemma seg_ok_mono: "seg_ok E content S s \<Longrightarrow> S \<subseteq> S' \<Longrightarrow> seg_ok E content S' s"
  unfolding seg_ok_def away_ok_def by (auto simp: subset_iff split: if_splits)

lemma servedI: "gm_get (sg_index s) c \<noteq> None \<Longrightarrow> (c, content c) \<in> served content s"
  by (auto simp: served_def)

lemma local_ok_get:
  assumes "local_ok E content s"
  shows "seg_get E c s = (if gm_get (sg_index s) c = None then Inl ErrBlockNotFound else Inr (c, content c))"
proof -
  obtain bs where bs: "holds E bs s" "car_ok (carE E) bs" "readable s" "addressed content bs"
    using assms by (auto simp: local_ok_def)
  have "gm_get (sg_index s) c = None \<longleftrightarrow> map_of bs c = None"
    using bs(1) map_of_locOf_None by (auto simp: holds_def)
  moreover have "map_of bs c = Some d \<Longrightarrow> d = content c" for d
    using bs(4) by (force simp: addressed_def dest: map_of_SomeD)
  ultimately show ?thesis using seg_get_holds [OF bs(1,2,3)] by (auto split: option.splits)
qed

lemma local_away: "local_ok E content s \<Longrightarrow> served content s \<subseteq> S \<Longrightarrow> away_ok E content S s"
  by (auto simp: away_ok_def local_ok_get split: if_splits)

lemma seg_ok_get:
  assumes "seg_ok E content S s" and "(c, content c) \<notin> S"
  shows "seg_get E c s = (if gm_get (sg_index s) c = None \<or> sg_retired s then Inl ErrBlockNotFound else Inr (c, content c))"
proof (cases "IsShipped s")
  case True
  then have "served content s \<subseteq> S" using assms by (simp add: seg_ok_def away_ok_def)
  then have "gm_get (sg_index s) c = None" using assms(2) servedI [of s c content] by blast
  then show ?thesis by (simp add: seg_get_def)
next
  case False
  then have "local_ok E content s" using assms by (simp add: seg_ok_def)
  moreover then have "\<not> sg_retired s" by (auto simp: local_ok_def holds_def)
  ultimately show ?thesis by (simp add: local_ok_get)
qed

lemma firstHit_finds:
  assumes "\<forall>s \<in> set ss. seg_ok E content S s" and "(c, content c) \<notin> S"
    and "s \<in> set ss" and "\<not> IsShipped s" and "gm_get (sg_index s) c \<noteq> None"
  shows "firstHit E c ss = Inr (c, content c)"
  using assms
proof (induction ss)
  case (Cons s' ss)
  have "\<not> sg_retired s" using Cons.prems(1,3,4) by (auto simp: seg_ok_def local_ok_def holds_def)
  then show ?case using Cons seg_ok_get [of E content S s' c] by auto
qed simp

text \<open>What the log answers in any state of the invariant.\<close>

lemma plog_inv_get:
  assumes "plog_inv E content A S pl m" and "(c, d) \<in> A" and "(c, d) \<notin> S"
  shows "plane_Get E c pl = Inr (c, d)"
proof -
  obtain s where "d = content c" "s \<in> set (segs pl)" "\<not> IsShipped s" "gm_get (sg_index s) c \<noteq> None"
    using plog_inv_acked [OF assms(1,2)] assms(3) by blast
  moreover have "\<forall>s \<in> set (segs pl). seg_ok E content S s" using assms(1) by (simp add: plog_inv_def)
  ultimately show ?thesis using assms(3) firstHit_finds [of "segs pl" E content S c s] by (simp add: plane_Get_def)
qed

section \<open>Every step keeps the invariant\<close>

lemma inv_new: "plog_inv E content {} {} (newPlaneLog plane bucket pc) m"
  by (simp add: plog_inv_def newPlaneLog_def segs_def)

lemma inv_meta: "plog_inv E content A S pl m \<Longrightarrow> nextSeq m \<le> nextSeq m' \<Longrightarrow> plog_inv E content A S pl m'"
  unfolding plog_inv_def by (meson order_trans)

text \<open>The log's list of segments changes by a function on segments that keeps numbers, except for segments
  that leave it.\<close>

lemma inv_segs:
  assumes inv: "plog_inv E content A S pl m" and "S \<subseteq> S'" and "nextSeq m \<le> nextSeq m'"
    and list: "segs pl' = filter P (map f (segs pl))" and seq: "\<And>s. sg_seq (f s) = sg_seq s"
    and ok: "\<And>s. s \<in> set (segs pl) \<Longrightarrow> seg_ok E content S' (f s)"
    and op: "\<And>s. pl_open pl' = Some s \<Longrightarrow> appendable s \<and> ops_hold s \<and> \<not> IsShipped s"
    and kept: "\<And>s. s \<in> set (segs pl) \<Longrightarrow> \<not> IsShipped s \<Longrightarrow>
      served content s \<subseteq> S' \<or> (P (f s) \<and> \<not> IsShipped (f s) \<and> sg_index (f s) = sg_index s)"
  shows "plog_inv E content A S' pl' m'"
proof -
  have same: "map sg_seq (map f xs) = map sg_seq xs" for xs by (simp add: seq comp_def)
  have "distinct (map sg_seq (map f (segs pl)))" unfolding same using inv by (simp add: plog_inv_def)
  then have "distinct (map sg_seq (segs pl'))" unfolding list by (rule distinct_map_filter)
  moreover have "\<forall>s \<in> set (segs pl'). sg_seq s \<le> nextSeq m'"
    using inv assms(3) unfolding list by (auto simp: plog_inv_def seq intro: order_trans)
  moreover have "\<forall>s \<in> set (segs pl'). seg_ok E content S' s" using ok unfolding list by auto
  moreover have "d = content c \<and> ((c, d) \<in> S' \<or> (\<exists>s \<in> set (segs pl'). \<not> IsShipped s \<and> gm_get (sg_index s) c \<noteq> None))"
    if "(c, d) \<in> A" for c d
  proof -
    note cd = plog_inv_acked [OF inv that]
    show ?thesis
    proof (cases "(c, d) \<in> S'")
      case False
      then obtain s where s: "s \<in> set (segs pl)" "\<not> IsShipped s" "gm_get (sg_index s) c \<noteq> None"
        using cd(2) assms(2) by auto
      then have "\<not> served content s \<subseteq> S'" using False cd(1) servedI by blast
      then have "P (f s) \<and> \<not> IsShipped (f s) \<and> sg_index (f s) = sg_index s" using kept [OF s(1,2)] by simp
      then show ?thesis using s cd(1) unfolding list by (auto intro!: bexI [of _ s])
    qed (simp add: cd(1))
  qed
  ultimately show ?thesis using op by (auto simp: plog_inv_def)
qed

lemma segs_simps [simp]:
  "segs (pl\<lparr> pl_sealed := xs \<rparr>) = (case pl_open pl of None \<Rightarrow> [] | Some s \<Rightarrow> [s]) @ xs"
  "segs (requestSeal pl) = segs pl" "segs (enqueueFlush n pl) = segs pl"
  "pl_open (requestSeal pl) = pl_open pl" "pl_open (enqueueFlush n pl) = pl_open pl"
  by (simp_all add: segs_def requestSeal_def enqueueFlush_def)

lemma find_seq:
  assumes "findSeg seq pl = Some s"
  shows "s \<in> set (pl_sealed pl)" and "sg_seq s = seq" and "s \<in> set (segs pl)"
  using assms by (auto simp: findSeg_def find_Some_iff segs_def)

text \<open>Replacing the sealed segment \<open>s\<close> by \<open>s'\<close>, its number kept, is such a change.\<close>

lemma setSeg_map:
  assumes "plog_inv E content A S pl m" and "s \<in> set (pl_sealed pl)" and "sg_seq s' = sg_seq s"
  shows "segs (setSeg s' pl) = map (\<lambda>t. if t = s then s' else t) (segs pl)"
proof -
  have d: "distinct (map sg_seq (segs pl))" using assms(1) by (simp add: plog_inv_def)
  have "t = s \<longleftrightarrow> sg_seq t = sg_seq s" if "t \<in> set (segs pl)" for t
    using d assms(2) that by (auto simp: segs_def distinct_map dest: inj_onD split: option.splits)
  moreover have "pl_open pl \<noteq> Some s" using d assms(2) by (auto simp: segs_def distinct_map)
  ultimately show ?thesis using assms(3)
    by (auto simp: segs_def setSeg_def split: option.splits intro!: map_cong)
qed

lemma setSeg_open [simp]: "pl_open (setSeg s pl) = pl_open pl" "pl_plane (setSeg s pl) = pl_plane pl"
  by (simp_all add: setSeg_def)

lemma inv_setSeg:
  assumes inv: "plog_inv E content A S pl m" and "s \<in> set (pl_sealed pl)" and "sg_seq s' = sg_seq s"
    and "S \<subseteq> S'" and "nextSeq m \<le> nextSeq m'" and ok: "seg_ok E content S' s'"
    and kept: "\<not> IsShipped s \<Longrightarrow> served content s \<subseteq> S' \<or> (\<not> IsShipped s' \<and> sg_index s' = sg_index s)"
  shows "plog_inv E content A S' (setSeg s' pl) m'"
proof (rule inv_segs [OF inv assms(4,5), where P = "\<lambda>_. True" and f = "\<lambda>t. if t = s then s' else t"])
  show "segs (setSeg s' pl) = filter (\<lambda>_. True) (map (\<lambda>t. if t = s then s' else t) (segs pl))"
    using setSeg_map [OF inv assms(2,3)] by simp
  show "seg_ok E content S' (if t = s then s' else t)" if "t \<in> set (segs pl)" for t
    using ok inv that assms(4) by (auto simp: plog_inv_def intro: seg_ok_mono)
  show "appendable t \<and> ops_hold t \<and> \<not> IsShipped t" if "pl_open (setSeg s' pl) = Some t" for t
    using inv that by (simp add: plog_inv_def)
  show "served content t \<subseteq> S' \<or> (True \<and> \<not> IsShipped (if t = s then s' else t) \<and> sg_index (if t = s then s' else t) = sg_index t)"
    if "t \<in> set (segs pl)" "\<not> IsShipped t" for t
    using kept that by auto
qed (use assms(3) in auto)

lemma local_ok_seal:
  assumes "local_ok E content s" and "seg_seal E io now s m = ((s', err), m')"
  shows "local_ok E content s'" and "sg_seq s' = sg_seq s" and "IsShipped s' = IsShipped s" and "sg_index s' = sg_index s"
    and "nextSeq m' = nextSeq m"
proof -
  note keeps = seg_seal_keeps [OF assms(2) [symmetric]]
  show "local_ok E content s'" using assms(1) keeps(1,3) unfolding local_ok_def by blast
  show "sg_seq s' = sg_seq s" "IsShipped s' = IsShipped s" using keeps by (simp_all add: IsShipped_def)
  show "sg_index s' = sg_index s" "nextSeq m' = nextSeq m" using assms(2)
    by (auto simp: seg_seal_def freeze_def writeIdx_def MarkSegmentSealed_def Let_def split: if_splits option.splits prod.splits)
qed

lemma inv_seal:
  assumes inv: "plog_inv E content A S pl m" and "sealOpenIfDue E sio force now (pl, m) = ((pl', m'), r)"
  shows "plog_inv E content A S pl' m'"
proof (cases "pl_open pl")
  case None
  then show ?thesis using assms by (simp add: sealOpenIfDue_def)
next
  case (Some s)
  obtain s' err m1 where seal: "seg_seal E sio now s m = ((s', err), m1)" by (metis prod.exhaust)
  have s: "appendable s" "ops_hold s" "\<not> IsShipped s" "local_ok E content s"
    using inv Some by (auto simp: plog_inv_def segs_def seg_ok_def)
  note k = local_ok_seal [OF s(4) seal]
  have same: "sg_state s' = StateOpen \<longrightarrow> appendable s' \<and> ops_hold s'"
    using seal s(1,2) by (auto simp: seg_seal_def freeze_def writeIdx_def appendable_def ops_hold_def Let_def
        split: if_splits option.splits prod.splits)
  have new: "plog_inv E content A S pl2 m1"
    if "segs pl2 = s' # pl_sealed pl" "pl_open pl2 = None \<or> (pl_open pl2 = Some s' \<and> sg_state s' = StateOpen)" for pl2
  proof (rule inv_segs [OF inv subset_refl, where P = "\<lambda>_. True" and f = "\<lambda>t. if t = s then s' else t"])
    have "s \<notin> set (pl_sealed pl)" using inv Some by (auto simp: plog_inv_def segs_def)
    then show "segs pl2 = filter (\<lambda>_. True) (map (\<lambda>t. if t = s then s' else t) (segs pl))"
      using that(1) Some by (auto simp: segs_def intro!: map_idI [symmetric])
    show "appendable t \<and> ops_hold t \<and> \<not> IsShipped t" if "pl_open pl2 = Some t" for t
      using same s(3) k(3) that \<open>pl_open pl2 = None \<or> _\<close> by auto
    show "seg_ok E content S (if t = s then s' else t)" if "t \<in> set (segs pl)" for t
      using inv that k s(3) by (auto simp: plog_inv_def seg_ok_def)
  qed (use k s(3) in auto)
  show ?thesis
  proof (cases "pl' = pl \<and> m' = m")
    case False
    then have "(segs pl' = s' # pl_sealed pl \<and> m' = m1) \<and> (pl_open pl' = None \<or> (pl_open pl' = Some s' \<and> sg_state s' = StateOpen))"
      using assms(2) Some seal by (auto simp: sealOpenIfDue_def segs_def Let_def enqueueFlush_def split: if_splits)
    then show ?thesis using new by blast
  qed (use inv in simp)
qed

lemma beyondRetain_shipped:
  "n \<in> set (beyondRetain r k ss) \<Longrightarrow> \<exists>s \<in> set ss. sg_seq s = n \<and> IsShipped s \<and> \<not> sg_retired s"
  by (induction ss arbitrary: k) (auto split: if_splits)

lemma retire_away:
  assumes "away_ok E content S s" and "\<not> sg_retired s"
  shows "away_ok E content S (fst (seg_retire io s))" and "IsShipped (fst (seg_retire io s)) = IsShipped s"
    and "sg_seq (fst (seg_retire io s)) = sg_seq s"
proof -
  have "served content (fst (seg_retire io s)) \<subseteq> served content s"
    using assms(2) by (auto simp: served_def seg_retire_def unlink_def Let_def split: option.splits)
  moreover have "seg_get E c (fst (seg_retire io s)) \<noteq> Inr b" for c b
    using assms(2) by (auto simp: seg_get_def seg_retire_def unlink_def Let_def split: option.splits)
  ultimately show "away_ok E content S (fst (seg_retire io s))" using assms(1) unfolding away_ok_def by blast
  show "IsShipped (fst (seg_retire io s)) = IsShipped s" "sg_seq (fst (seg_retire io s)) = sg_seq s"
    by (auto simp: IsShipped_def seg_retire_def unlink_def Let_def split: option.splits)
qed

lemma nextSeq_RetireSegment: "nextSeq (RetireSegment p n t m) = nextSeq m"
  by (simp add: RetireSegment_def split: option.split)

lemma inv_retain:
  assumes inv: "plog_inv E content A S pl m" and "runRetention rio (pl, m) = (pl', m')"
  shows "plog_inv E content A S pl' m'"
proof (cases "pc_Ship (pl_pc pl)")
  case True
  define R where "R = set (beyondRetain (pc_Retain (pl_pc pl)) 0 (pl_sealed pl))"
  let ?f = "\<lambda>s. if sg_seq s \<in> R then fst (seg_retire (io_retire rio (sg_seq s)) s) else s"
  have m': "nextSeq m' = nextSeq m" and sealed: "pl' = pl\<lparr> pl_sealed := filter (\<lambda>s. \<not> sg_retired s) (map ?f (pl_sealed pl)) \<rparr>"
    using assms(2) True
    by (auto simp: runRetention_def R_def Let_def nextSeq_RetireSegment intro!: fold_frame [where f = nextSeq])
  have R: "IsShipped s \<and> \<not> sg_retired s" if "s \<in> set (segs pl)" "sg_seq s \<in> R" for s
  proof -
    obtain t where t: "t \<in> set (pl_sealed pl)" "sg_seq t = sg_seq s" "IsShipped t" "\<not> sg_retired t"
      using beyondRetain_shipped \<open>sg_seq s \<in> R\<close> unfolding R_def by metis
    moreover have "t \<in> set (segs pl)" using t(1) by (simp add: segs_def)
    moreover have "distinct (map sg_seq (segs pl))" using inv by (simp add: plog_inv_def)
    ultimately have "t = s" using that(1) by (auto simp: distinct_map dest: inj_onD)
    then show ?thesis using t by simp
  qed
  have live: "\<not> sg_retired s" if "s \<in> set (segs pl)" "\<not> IsShipped s" for s
    using inv that by (auto simp: plog_inv_def seg_ok_def local_ok_def holds_def)
  show ?thesis
  proof (rule inv_segs [OF inv subset_refl, where P = "\<lambda>s. \<not> sg_retired s" and f = ?f])
    have "\<not> sg_retired s \<and> sg_seq s \<notin> R" if "pl_open pl = Some s" for s
      using inv that R [of s] live [of s] by (auto simp: plog_inv_def segs_def)
    then show "segs pl' = filter (\<lambda>s. \<not> sg_retired s) (map ?f (segs pl))"
      by (auto simp: sealed segs_def split: option.splits)
    show "sg_seq (?f s) = sg_seq s" for s
      by (simp add: seg_retire_def unlink_def Let_def split: option.split)
    show "seg_ok E content S (?f s)" if "s \<in> set (segs pl)" for s
      using inv that R [OF that] retire_away [of E content S s] by (auto simp: plog_inv_def seg_ok_def)
    show "served content s \<subseteq> S \<or> (\<not> sg_retired (?f s) \<and> \<not> IsShipped (?f s) \<and> sg_index (?f s) = sg_index s)"
      if "s \<in> set (segs pl)" "\<not> IsShipped s" for s
      using that R [OF that(1)] live [OF that] by auto
  qed (use inv m' sealed in \<open>auto simp: plog_inv_def\<close>)
qed (use assms in \<open>simp add: runRetention_def\<close>)

lemma seg_ok_markShipped:
  assumes "local_ok E content s" and "served content s \<subseteq> S"
  shows "seg_ok E content S (markShipped at s)"
proof -
  have "local_ok E content (markShipped at s)"
    using assms(1) by (simp add: local_ok_def markShipped_def holds_def readable_def)
  moreover have "served content (markShipped at s) = served content s" by (simp add: markShipped_def served_def)
  ultimately show ?thesis using assms(2) local_away by (simp add: seg_ok_def)
qed

lemma nextSeq_MarkSegmentShipped [simp]: "nextSeq (MarkSegmentShipped p n at dg dd oprs m) = nextSeq m"
proof -
  have "nextSeq (fold advanceForgeRoot oprs m') = nextSeq m'" for m'
    by (rule fold_frame) (simp add: advanceForgeRoot_def split: option.split)
  then show ?thesis by (simp add: MarkSegmentShipped_def Let_def split: option.split)
qed

lemma inv_ship:
  assumes inv: "plog_inv E content A S pl m" and find: "findSeg seq pl = Some s" and "\<not> IsShipped s"
    and early: "flushed \<noteq> None \<Longrightarrow> served content s \<subseteq> S"
    and att: "shipAttempt E io rio d s flushed (pl, m) = ((pl', m'), flushed', ok)"
  shows "plog_inv E content A (if flushed' = None then S else S \<union> served content s) pl' m'"
proof -
  obtain s1 err m1 where seal: "(case flushed of None \<Rightarrow> seg_seal E (io_seal io) (io_now io) s m | Some _ \<Rightarrow> ((s, None), m)) = ((s1, err), m1)"
    by (metis prod.exhaust)
  have loc: "local_ok E content s" using inv assms(3) find_seq [OF find] by (auto simp: plog_inv_def seg_ok_def)
  have k: "local_ok E content s1" "sg_seq s1 = sg_seq s" "\<not> IsShipped s1" "sg_index s1 = sg_index s" "nextSeq m1 = nextSeq m"
    using seal loc assms(3) local_ok_seal [OF loc, of "io_seal io" "io_now io" m s1 err m1] by (auto split: option.splits)
  let ?S = "if flushed' = None then S else S \<union> served content s"
  have stay: "plog_inv E content A ?S (setSeg s1 pl) m1"
    by (rule inv_setSeg [OF inv find_seq(1) [OF find] k(2)]) (use k in \<open>auto simp: seg_ok_def\<close>)
  show ?thesis
  proof (cases ok)
    case False
    then have "pl' = setSeg s1 pl \<and> m' = m1" using att seal
      by (auto simp: shipAttempt_def Let_def split: option.splits if_splits prod.splits)
    then show ?thesis using stay by simp
  next
    case True
    then obtain at dg where fl: "flushed' = Some (at, dg)" and
      ret: "runRetention rio (setSeg (markShipped at s1) (setSeg s1 pl),
         MarkSegmentShipped (pl_plane pl) (sg_seq s1) at dg d (sg_opRoots s1) m1) = (pl', m')"
      using att seal by (auto simp: shipAttempt_def Let_def split: option.splits if_splits prod.splits sum.splits)
    have mem: "s1 \<in> set (pl_sealed (setSeg s1 pl))"
      using find_seq [OF find] k(2) by (auto simp: setSeg_def intro!: image_eqI [of _ _ s])
    have "plog_inv E content A ?S (setSeg (markShipped at s1) (setSeg s1 pl))
        (MarkSegmentShipped (pl_plane pl) (sg_seq s1) at dg d (sg_opRoots s1) m1)"
      by (rule inv_setSeg [OF stay mem])
         (use fl k served_same [OF k(4)] in \<open>auto simp: markShipped_def [of at s1] intro!: seg_ok_markShipped [unfolded markShipped_def]\<close>)
    then show ?thesis by (rule inv_retain [OF _ ret])
  qed
qed

lemma deadOnArrival_same:
  assumes "deadOnArrival E s = (s', d)"
  shows "sg_seq s' = sg_seq s" and "IsShipped s' = IsShipped s" and "sg_index s' = sg_index s"
    and "seg_ok E content S s \<Longrightarrow> seg_ok E content S s'"
proof -
  have s': "s' = s \<or> (\<exists>x. s' = s\<lparr> sg_dead := x \<rparr>)"
    using assms by (auto simp: deadOnArrival_def Let_def split: option.splits)
  then show "sg_seq s' = sg_seq s" "IsShipped s' = IsShipped s" "sg_index s' = sg_index s"
    by (auto simp: IsShipped_def)
  have "seg_get E c (s\<lparr> sg_dead := x \<rparr>) = seg_get E c s" for c x by (simp add: seg_get_def split: option.split)
  then have "seg_ok E content S (s\<lparr> sg_dead := x \<rparr>) = seg_ok E content S s" for x
    by (simp add: seg_ok_def away_ok_def local_ok_def served_def holds_def readable_def IsShipped_def)
  then show "seg_ok E content S s \<Longrightarrow> seg_ok E content S s'" using s' by auto
qed

lemma local_ok_append:
  assumes "local_ok E content s" and "appendable s" and "ops_hold s" and "distinct (map fst blocks)" and "addressed content blocks"
    and "car_ok (carE E) blocks" and "\<forall>opr \<in> set oprs. op_ok (Cast E) opr" and "seg_append io blocks oprs s = (s', None)"
  shows "local_ok E content s'" and "appendable s'" and "ops_hold s'" and "sg_seq s' = sg_seq s"
    and "IsShipped s' = IsShipped s"
    and "\<And>c. gm_get (sg_index s') c \<noteq> None \<longleftrightarrow> gm_get (sg_index s) c \<noteq> None \<or> c \<in> fst ` set blocks"
proof -
  obtain bs where bs: "holds E bs s" "car_ok (carE E) bs" "addressed content bs" using assms(1) by (auto simp: local_ok_def)
  note ack = seg_append_acked [OF bs(1) assms(3,4,7,8)]
  show ap: "appendable s'" "ops_hold s'" "sg_seq s' = sg_seq s" using ack assms(2) by auto
  show "IsShipped s' = IsShipped s"
    using seg_append_result [OF assms(8,7)] by (simp add: IsShipped_def commitFresh_frame)
  have "readable s'" using ap(1) by (simp add: readable_def appendable_def)
  moreover have "car_ok (carE E) (bs @ unseen blocks s)" "addressed content (bs @ unseen blocks s)"
    using bs assms(5,6) unseen_subset [of blocks s] by (auto simp: car_ok_def addressed_def)
  ultimately show "local_ok E content s'" using ack(1) unfolding local_ok_def by blast
  fix c
  have "gm_get (sg_index s') c \<noteq> None \<longleftrightarrow> c \<in> fst ` set (bs @ unseen blocks s)"
    using ack(1) map_of_locOf_None [of "length (hdr E)" "bs @ unseen blocks s" c] by (simp add: holds_def map_of_eq_None_iff image_Un)
  moreover have "gm_get (sg_index s) c \<noteq> None \<longleftrightarrow> c \<in> fst ` set bs" "gm_get (sg_seen s) c \<noteq> None \<longleftrightarrow> c \<in> fst ` set bs"
    using bs(1) map_of_locOf_None [of "length (hdr E)" bs c] by (auto simp: holds_def map_of_eq_None_iff)
  moreover have "c \<in> fst ` set (unseen blocks s) \<longleftrightarrow> c \<in> fst ` set blocks \<and> gm_get (sg_seen s) c = None"
    by (force simp: unseen_def)
  ultimately show "gm_get (sg_index s') c \<noteq> None \<longleftrightarrow> gm_get (sg_index s) c \<noteq> None \<or> c \<in> fst ` set blocks"
    by auto
qed

text \<open>Opening a segment adds an empty one under a fresh number.\<close>

lemma seq_up: "n < (- 1 :: seqno) \<Longrightarrow> n < n + 1"
proof -
  assume n: "n < (- 1 :: seqno)"
  then have "unat n < 2 ^ 64 - 1" by (simp add: word_less_nat_alt unsigned_minus_1_eq_mask mask_eq_exp_minus_1)
  then have "unat (n + 1) = unat n + 1" by (simp add: unat_word_ariths)
  then show ?thesis by (simp add: word_less_nat_alt)
qed

lemma inv_ensureOpen:
  assumes inv: "plog_inv E content A S pl m" and room: "nextSeq m < - 1" and en: "ensureOpenLockedAppMu E oio now (pl, m) = ((pl1, m1), Inr s)"
  shows "plog_inv E content A S pl1 m1" and "pl_open pl1 = Some s" and "pl_sealed pl1 = pl_sealed pl"
proof -
  show op: "pl_open pl1 = Some s" "pl_sealed pl1 = pl_sealed pl" using en
    by (auto simp: ensureOpenLockedAppMu_def Let_def split: option.splits if_splits prod.splits sum.splits)
  show "plog_inv E content A S pl1 m1"
  proof (cases "pl_open pl")
    case (Some s0)
    then show ?thesis using inv en by (simp add: ensureOpenLockedAppMu_def)
  next
    case None
    have cr: "createOpenSegment E None (nextSeq m + 1) (pl_plane pl) (pl_bucket pl) (m\<lparr> nextSeq := nextSeq m + 1 \<rparr>) = (Inr s, m1)"
      using en None by (auto simp: ensureOpenLockedAppMu_def NextSegmentSeq_def Let_def createOpenSegment_def
          split: if_splits prod.splits sum.splits option.splits)
    note hs = createOpenSegment_holds [OF cr]
    have "nextSeq m1 = nextSeq m + 1" using cr
      by (auto simp: createOpenSegment_def InsertSegmentOpen_def Let_def split: prod.splits if_splits)
    moreover have "\<not> IsShipped s" using cr by (auto simp: createOpenSegment_def newSegment_def IsShipped_def Let_def split: prod.splits)
    moreover have "local_ok E content s"
      using hs by (auto simp: local_ok_def car_ok_def addressed_def readable_def appendable_def intro!: exI [of _ "[]"])
    moreover have sg: "segs pl1 = s # segs pl" using op None by (simp add: segs_def)
    moreover have "distinct (map sg_seq (segs pl))" "\<forall>t \<in> set (segs pl). sg_seq t \<le> nextSeq m \<and> seg_ok E content S t"
      using inv by (simp_all add: plog_inv_def)
    ultimately have "distinct (map sg_seq (segs pl1))" "\<forall>t \<in> set (segs pl1). sg_seq t \<le> nextSeq m1 \<and> seg_ok E content S t"
      using hs seq_up [OF room] by (auto simp: seg_ok_def)
    moreover have "d = content c \<and> ((c, d) \<in> S \<or> (\<exists>t \<in> set (segs pl1). \<not> IsShipped t \<and> gm_get (sg_index t) c \<noteq> None))"
      if "(c, d) \<in> A" for c d using plog_inv_acked [OF inv that] unfolding sg by auto
    ultimately show ?thesis using hs op(1) \<open>\<not> IsShipped s\<close> unfolding plog_inv_def by auto
  qed
qed

lemma inv_append:
  assumes inv: "plog_inv E content A S pl m" and room: "nextSeq m < - 1" and blocks: "distinct (map fst blocks)" "addressed content blocks" "car_ok (carE E) blocks"
    and oprs: "\<forall>opr \<in> set oprs. op_ok (Cast E) opr"
    and app: "plane_Append E oio aio now blocks oprs (pl, m) = ((pl', m'), Inr seq)"
  shows "plog_inv E content (A \<union> set blocks) S pl' m'"
proof (cases "blocks = [] \<and> oprs = []")
  case True
  then show ?thesis using inv app by (simp add: plane_Append_def)
next
  case False
  obtain pl1 s s' where en: "ensureOpenLockedAppMu E oio now (pl, m) = ((pl1, m'), Inr s)"
    and ap: "seg_append aio blocks oprs s = (s', None)"
    and pl': "segs pl' = s' # pl_sealed pl1" "pl_open pl' = Some s'"
    using app False by (auto simp: plane_Append_def segs_def requestSeal_def Let_def split: sum.splits prod.splits option.splits if_splits)
  note e = inv_ensureOpen [OF inv room en]
  have s: "appendable s" "ops_hold s" "\<not> IsShipped s" "local_ok E content s"
    using e(1,2) by (auto simp: plog_inv_def segs_def seg_ok_def)
  note a = local_ok_append [OF s(4,1,2) blocks oprs ap]
  have "segs pl1 = s # pl_sealed pl1" using e(2) by (simp add: segs_def)
  then have e1: "plog_inv E content A S pl1 m'" "segs pl1 = s # pl_sealed pl1" using e(1) by auto
  have "d = content c \<and> ((c, d) \<in> S \<or> (\<exists>t \<in> set (segs pl'). \<not> IsShipped t \<and> gm_get (sg_index t) c \<noteq> None))"
    if "(c, d) \<in> A \<union> set blocks" for c d
  proof (cases "(c, d) \<in> set blocks")
    case True
    then have "c \<in> fst ` set blocks" by force
    then have "gm_get (sg_index s') c \<noteq> None" using a(6) by blast
    moreover have "d = content c" using blocks(2) True by (auto simp: addressed_def)
    moreover have "s' \<in> set (segs pl')" by (simp add: pl'(1))
    ultimately show ?thesis using a(5) s(3) by blast
  next
    case False
    then have cd: "d = content c \<and> ((c, d) \<in> S \<or> (\<exists>t \<in> set (segs pl1). \<not> IsShipped t \<and> gm_get (sg_index t) c \<noteq> None))"
      using that plog_inv_acked [OF e1(1)] by blast
    have "gm_get (sg_index s) c \<noteq> None \<Longrightarrow> gm_get (sg_index s') c \<noteq> None" using a(6) by blast
    then show ?thesis using cd a(5) s(3) unfolding e1(2) pl'(1) by auto
  qed
  moreover have "seg_ok E content S s'" using a(1,5) s(3) by (simp add: seg_ok_def)
  moreover have "distinct (map sg_seq (segs pl'))" "\<forall>t \<in> set (segs pl'). sg_seq t \<le> nextSeq m'"
    "\<forall>t \<in> set (pl_sealed pl1). seg_ok E content S t"
    using e1(1) a(4) unfolding plog_inv_def e1(2) pl'(1) by auto
  ultimately show ?thesis using pl' a(2,3,5) s(3) unfolding plog_inv_def pl'(1) by auto
qed

lemma refused_nextSeq:
  assumes "nextSeq m < - 1" and "plane_Append E oio aio now blocks oprs (pl, m) = ((pl', m'), Inl e)"
  shows "nextSeq m \<le> nextSeq m'"
proof -
  have "nextSeq m' \<in> {nextSeq m, nextSeq m + 1}" using assms(2)
    by (auto simp: plane_Append_def ensureOpenLockedAppMu_def NextSegmentSeq_def createOpenSegment_def InsertSegmentOpen_def Let_def
        split: sum.splits prod.splits option.splits if_splits)
  then show ?thesis using seq_up [OF assms(1)] by auto
qed

lemma plog_inv: "plog E content A S pl m \<Longrightarrow> plog_inv E content A S pl m"
proof (induction rule: plog.induct)
  case (plog_measure A S pl m seq s s' d)
  note k = deadOnArrival_same [OF plog_measure.hyps(3)]
  have "seg_ok E content S s" using plog_measure.IH find_seq [OF plog_measure.hyps(2)] by (simp add: plog_inv_def)
  then show ?case
    by (intro inv_setSeg [OF plog_measure.IH find_seq(1) [OF plog_measure.hyps(2)] k(1)]) (use k in auto)
next
  case (plog_ship A S pl m seq s flushed io rio d pl' m' flushed' ok)
  then show ?case by (intro inv_ship) auto
qed (auto intro: inv_new inv_meta inv_append inv_seal inv_retain inv_meta [OF _ refused_nextSeq])

section \<open>Results\<close>

definition demo_content :: "cid \<Rightarrow> bytes" where
  "demo_content c = (if c = ''A'' then ''hello'' else ''world'')"

definition demo_plane :: PlaneLog where
  "demo_plane = newPlaneLog PlaneCatalog ''photos'' (withDefaults
     \<lparr> pc_SealBytes = 0, pc_SealAge = 0, pc_Ship = True, pc_Retain = 0, pc_ShipRetry = 0 \<rparr>)"

definition demo_open_io :: open_io where
  "demo_open_io = \<lparr> io_seq = True, io_create = None \<rparr>"

lemma demo_append:
  "\<exists>pl m. plane_Append demo_log_env demo_open_io no_faults 5 demo_blocks [demo_root] (demo_plane, NewMemStore) = ((pl, m), Inr 1)
     \<and> plog demo_log_env demo_content (set demo_blocks) {} pl m \<and> pl_pc pl = pl_pc demo_plane \<and> pl_open pl \<noteq> None \<and> pl_sealed pl = []"
proof -
  have ok: "\<forall>opr \<in> set [demo_root]. op_ok (Cast demo_log_env) opr" using op_ok_demo by simp
  have "appendable demo_segment" by (simp add: demo_segment_eval appendable_def newSegment_def)
  from seg_append_no_faults [OF this ok] obtain s where s: "seg_append no_faults demo_blocks [demo_root] demo_segment = (s, None)" by blast
  have "sg_seq s = 1"
    using seg_append_result [OF s ok] by (simp add: commitFresh_frame demo_segment_eval newSegment_def)
  moreover obtain m where m: "createOpenSegment demo_log_env None 1 PlaneCatalog ''photos'' (NewMemStore\<lparr> nextSeq := 1 \<rparr>) = (Inr demo_segment, m)"
    by (simp add: demo_segment_def createOpenSegment_def Let_def split: prod.splits)
  ultimately obtain pl where pl: "plane_Append demo_log_env demo_open_io no_faults 5 demo_blocks [demo_root] (demo_plane, NewMemStore) = ((pl, m), Inr 1)"
      "pl_pc pl = pl_pc demo_plane" "pl_open pl \<noteq> None" "pl_sealed pl = []"
    using s by (auto simp: plane_Append_def ensureOpenLockedAppMu_def demo_plane_def newPlaneLog_def demo_open_io_def
        NextSegmentSeq_def NewMemStore_def requestSeal_def Let_def)
  have "nextSeq NewMemStore < - 1" by (simp add: NewMemStore_def word_gt_0)
  moreover have "distinct (map fst demo_blocks)" "addressed demo_content demo_blocks" "car_ok (carE demo_log_env) demo_blocks"
    using demo_car_ok by (simp_all add: demo_blocks_def addressed_def demo_content_def car_ok_def)
  ultimately have "plog demo_log_env demo_content ({} \<union> set demo_blocks) {} pl m"
    by (intro plog_append [OF plog_new _ _ _ _ ok pl(1) [unfolded demo_plane_def]])
  then show ?thesis using pl by (simp only: Un_empty_left) blast
qed

text \<open>The log after a seal whose recording failed.\<close>

definition demo_seal_io :: seal_io where
  "demo_seal_io = \<lparr> io_freeze = None, io_idx = True, io_mark = False \<rparr>"

lemma demo_sealed:
  "\<exists>pl m s. plog demo_log_env demo_content (set demo_blocks) {} pl m \<and> pl_sealed pl = [s] \<and> \<not> IsShipped s \<and> \<not> sg_retired s
     \<and> pl_pc pl = pl_pc demo_plane"
proof -
  obtain pl m where p: "plog demo_log_env demo_content (set demo_blocks) {} pl m" "pl_pc pl = pl_pc demo_plane" "pl_open pl \<noteq> None" "pl_sealed pl = []"
    using demo_append by blast
  then obtain s where s: "pl_open pl = Some s" by auto
  then have loc: "local_ok demo_log_env demo_content s" "\<not> IsShipped s" "appendable s"
    using plog_inv [OF p(1)] by (auto simp: plog_inv_def segs_def seg_ok_def)
  obtain s' err m' where seal: "seg_seal demo_log_env demo_seal_io 9 s m = ((s', err), m')" by (metis prod.exhaust)
  note k = local_ok_seal [OF loc(1) seal]
  have st: "err = None \<or> sg_state s' = StateSealed"
    using seal loc(3) by (auto simp: seg_seal_def freeze_def appendable_def demo_seal_io_def writeIdx_def Let_def split: if_splits)
  obtain pl' r where pl': "sealOpenIfDue demo_log_env demo_seal_io True 9 (pl, m) = ((pl', m'), r)" "pl_sealed pl' = [s']" "pl_pc pl' = pl_pc pl"
    using s p(4) seal st by (auto simp: sealOpenIfDue_def enqueueFlush_def Let_def)
  have "\<not> sg_retired s'" using k(1) by (auto simp: local_ok_def holds_def)
  then show ?thesis using plog_seal [OF p(1) pl'(1)] pl' k(3) loc(2) p(2) by auto
qed



section \<open>Retention and the retry sweep\<close>

lemma beyondRetain_take:
  assumes "distinct (map sg_seq ss)" and "\<forall>s \<in> set ss. \<not> sg_retired s"
  shows "filter IsShipped (filter (\<lambda>s. sg_seq s \<notin> set (beyondRetain r k ss)) ss) = take (nat (r - k)) (filter IsShipped ss)
    \<and> filter (\<lambda>s. \<not> IsShipped s) (filter (\<lambda>s. sg_seq s \<notin> set (beyondRetain r k ss)) ss) = filter (\<lambda>s. \<not> IsShipped s) ss"
  using assms
proof (induction ss arbitrary: k)
  case (Cons s ss)
  have notin: "sg_seq s \<notin> set (beyondRetain r k' ss)" for k'
  proof -
    have "sg_seq s \<notin> sg_seq ` set ss" using Cons.prems(1) by simp
    then show ?thesis using beyondRetain_shipped [of "sg_seq s" r k' ss] by (metis image_eqI)
  qed
  have skip: "filter (\<lambda>t. sg_seq t \<noteq> sg_seq s \<and> P t) ss = filter P ss" for P
    using Cons.prems by (intro filter_cong) (auto dest: image_eqI [OF sym, of sg_seq])
  show ?case
  proof (cases "IsShipped s \<and> r - k \<le> 0")
    case True
    then have "nat (r - k) = 0" "nat (r - (k + 1)) = 0" by auto
    then show ?thesis using Cons.IH [of "k + 1"] Cons.prems True notin [of "k + 1"] skip by simp
  next
    case False
    moreover have "nat (r - k) = Suc (nat (r - (k + 1)))" if "\<not> r - k \<le> 0" using that by linarith
    ultimately show ?thesis using Cons.IH [of "k + 1"] Cons.IH [of k] Cons.prems notin by auto
  qed
qed simp

lemma retire_all:
  assumes "\<forall>s \<in> set ss. \<not> sg_retired s" and "\<forall>n. io n = None"
  shows "filter (\<lambda>s. \<not> sg_retired s) (map (\<lambda>s. if sg_seq s \<in> R then fst (seg_retire (io (sg_seq s)) s) else s) ss)
    = filter (\<lambda>s. sg_seq s \<notin> R) ss"
  using assms by (induction ss) (auto simp: seg_retire_def Let_def)

text \<open>Retention without faults keeps every unshipped segment and of the shipped ones exactly the
  \<open>Retain\<close> newest, in order.\<close>

theorem runRetention_keeps:
  assumes "plog E content A S pl m" and "pc_Ship (pl_pc pl)" and "\<forall>n. io_retire io n = None"
    and "\<forall>s \<in> set (pl_sealed pl). \<not> sg_retired s"
  shows "filter (\<lambda>s. \<not> IsShipped s) (pl_sealed (fst (runRetention io (pl, m)))) = filter (\<lambda>s. \<not> IsShipped s) (pl_sealed pl)
    \<and> filter IsShipped (pl_sealed (fst (runRetention io (pl, m)))) = take (nat (pc_Retain (pl_pc pl))) (filter IsShipped (pl_sealed pl))"
proof -
  have d: "distinct (map sg_seq (pl_sealed pl))" using plog_inv [OF assms(1)] by (simp add: plog_inv_def segs_def)
  let ?R = "set (beyondRetain (pc_Retain (pl_pc pl)) 0 (pl_sealed pl))"
  have "pl_sealed (fst (runRetention io (pl, m))) = filter (\<lambda>s. sg_seq s \<notin> ?R) (pl_sealed pl)"
    using assms(2) retire_all [OF assms(4,3), of ?R] by (simp add: runRetention_def Let_def)
  then show ?thesis using beyondRetain_take [OF d assms(4), of "pc_Retain (pl_pc pl)" 0] by simp
qed

theorem runRetention_keeps_witness:
  "\<exists>pl m s. pl_sealed pl = [s] \<and> \<not> IsShipped s
     \<and> filter (\<lambda>s. \<not> IsShipped s) (pl_sealed (fst (runRetention \<lparr> io_retire = (\<lambda>_. None), io_row = (\<lambda>_. True), io_retiredAt = 7 \<rparr> (pl, m)))) = [s]"
proof -
  obtain pl m s where p: "plog demo_log_env demo_content (set demo_blocks) {} pl m" "pl_sealed pl = [s]" "\<not> IsShipped s" "\<not> sg_retired s"
    "pc_Ship (pl_pc pl)" using demo_sealed by (auto simp: demo_plane_def newPlaneLog_def withDefaults_def)
  then show ?thesis
    using runRetention_keeps [OF p(1,5), of "\<lparr> io_retire = (\<lambda>_. None), io_row = (\<lambda>_. True), io_retiredAt = 7 \<rparr>"]
    by (intro exI [of _ pl] exI [of _ m] exI [of _ s]) simp
qed

text \<open>A sealed list whose unshipped segments are on disk, each under its own number.\<close>

definition tidy :: "PlaneLog \<Rightarrow> bool" where
  "tidy pl \<longleftrightarrow> distinct (map sg_seq (pl_sealed pl)) \<and> (\<forall>s \<in> set (pl_sealed pl). sg_retired s \<longrightarrow> IsShipped s)"

definition unshipped :: "PlaneLog \<Rightarrow> seqno set" where
  "unshipped pl = sg_seq ` {s \<in> set (pl_sealed pl). \<not> IsShipped s}"

lemma runRetention_tidy:
  assumes "tidy pl"
  shows "tidy (fst (runRetention rio (pl, m)))" and "unshipped (fst (runRetention rio (pl, m))) \<subseteq> unshipped pl"
proof -
  have f: "sg_seq (fst (seg_retire x s)) = sg_seq s" "IsShipped (fst (seg_retire x s)) = IsShipped s" for x s
    by (auto simp: IsShipped_def seg_retire_def unlink_def Let_def split: option.splits)
  have c: "map (\<lambda>s. sg_seq (if Q s then fst (seg_retire (g s) s) else s)) ss = map sg_seq ss" for Q g ss
    by (simp add: f if_distrib cong: if_cong)
  show "tidy (fst (runRetention rio (pl, m)))"
    using assms by (auto simp: tidy_def runRetention_def Let_def comp_def c intro!: distinct_map_filter)
  show "unshipped (fst (runRetention rio (pl, m))) \<subseteq> unshipped pl"
    by (auto simp: unshipped_def runRetention_def Let_def f split: if_splits)
qed

lemma setSeg_tidy:
  assumes "tidy pl" and "s \<in> set (pl_sealed pl)" and "sg_seq s' = sg_seq s" and "sg_retired s' \<longrightarrow> IsShipped s'"
  shows "tidy (setSeg s' pl)" and "unshipped (setSeg s' pl) \<subseteq> (if IsShipped s' then unshipped pl - {sg_seq s} else insert (sg_seq s) (unshipped pl))"
proof -
  have c: "map (\<lambda>t. sg_seq (if sg_seq t = sg_seq s then s' else t)) ss = map sg_seq ss" for ss
    using assms(3) by (auto intro!: map_cong)
  show "tidy (setSeg s' pl)" using assms by (auto simp: tidy_def setSeg_def comp_def c)
  show "unshipped (setSeg s' pl) \<subseteq> (if IsShipped s' then unshipped pl - {sg_seq s} else insert (sg_seq s) (unshipped pl))"
    using assms(3) by (auto simp: unshipped_def setSeg_def split: if_splits)
qed

lemma setSeg_setSeg: "sg_seq s' = sg_seq s \<Longrightarrow> setSeg s (setSeg s' pl) = setSeg s pl"
  by (auto simp: setSeg_def)

lemma findSeg_setSeg: "findSeg n pl = Some s \<Longrightarrow> sg_seq s' = n \<Longrightarrow> findSeg n (setSeg s' pl) = Some s'"
proof -
  have "find (\<lambda>t. sg_seq t = n) ss = Some s \<Longrightarrow> sg_seq s' = n \<Longrightarrow>
      find (\<lambda>t. sg_seq t = n) (map (\<lambda>t. if sg_seq t = n then s' else t) ss) = Some s'" for ss
    by (induction ss) (auto split: if_splits)
  then show "findSeg n pl = Some s \<Longrightarrow> sg_seq s' = n \<Longrightarrow> ?thesis" by (simp add: findSeg_def setSeg_def)
qed

definition ships :: "ship_io \<Rightarrow> bool" where
  "ships io \<longleftrightarrow> io_freeze (io_seal io) = None \<and> io_idx (io_seal io) \<and> io_mark (io_seal io)
     \<and> \<not> isl (io_flush io) \<and> io_stamp io \<and> io_now io \<noteq> 0"

lemma flushOne_ships:
  assumes "tidy pl" and "ships io"
  shows "\<exists>pl' m'. flushOne E 1 [(io, rio)] seq (pl, m) = ((pl', m'), True) \<and> tidy pl' \<and> unshipped pl' \<subseteq> unshipped pl - {seq}"
proof (cases "findSeg seq pl")
  case None
  then have "seq \<notin> unshipped pl" by (auto simp: unshipped_def findSeg_def find_None_iff)
  then show ?thesis using None assms(1) by (simp add: flushOne_def)
next
  case (Some s)
  note fs = find_seq [OF Some]
  show ?thesis
  proof (cases "IsShipped s \<or> sg_retired s")
    case True
    then have "IsShipped s" using assms(1) fs(1) by (auto simp: tidy_def)
    then have "seq \<notin> unshipped pl" using assms(1) fs by (auto simp: unshipped_def tidy_def distinct_map dest: inj_onD)
    then show ?thesis using Some True assms(1) by (simp add: flushOne_def)
  next
    case False
    obtain s1 d where d: "deadOnArrival E s = (s1, d)" by (metis prod.exhaust)
    have s1: "sg_seq s1 = seq" "\<not> sg_retired s1" "\<not> IsShipped s1"
      using d fs(2) False by (auto simp: deadOnArrival_def IsShipped_def Let_def split: option.splits)
    have "\<exists>s2 m2. seg_seal E (io_seal io) (io_now io) s1 m = ((s2, None), m2)"
      using assms(2) by (simp add: seg_seal_def freeze_def ships_def Let_def)
    then obtain s2 m2 where seal: "seg_seal E (io_seal io) (io_now io) s1 m = ((s2, None), m2)" by blast
    have s2: "sg_seq s2 = seq" "\<not> sg_retired s2"
      using seal s1 by (auto simp: seg_seal_def freeze_def writeIdx_def Let_def split: if_splits option.splits)
    obtain dg where dg: "io_flush io = Inr dg" using assms(2) by (auto simp: ships_def isl_def split: sum.splits) (metis sum.exhaust)
    let ?s3 = "markShipped (io_now io) s2"
    have s3: "sg_seq ?s3 = seq" "IsShipped ?s3" using s2 assms(2) by (simp_all add: markShipped_def IsShipped_def ships_def)
    have "findSeg seq (setSeg s1 pl) = Some s1" using findSeg_setSeg [OF Some s1(1)] .
    then have fl: "flushOne E 1 [(io, rio)] seq (pl, m) = (runRetention rio (setSeg ?s3 pl,
        MarkSegmentShipped (pl_plane pl) seq (io_now io) dg d (sg_opRoots s2) m2), True)"
      using Some False d seal dg s1 s2 s3 assms(2)
      by (simp add: flushOne_def shipAttempt_def ships_def Let_def setSeg_setSeg)
    have "sg_seq ?s3 = sg_seq s" using s3 fs(2) by simp
    note t = setSeg_tidy [OF assms(1) fs(1) this]
    then have "tidy (setSeg ?s3 pl)" "unshipped (setSeg ?s3 pl) \<subseteq> unshipped pl - {seq}" using s3 fs(2) by auto
    then show ?thesis unfolding fl
      using runRetention_tidy [of "setSeg ?s3 pl" rio "MarkSegmentShipped (pl_plane pl) seq (io_now io) dg d (sg_opRoots s2) m2"]
      by (cases "runRetention rio (setSeg ?s3 pl, MarkSegmentShipped (pl_plane pl) seq (io_now io) dg d (sg_opRoots s2) m2)") auto
  qed
qed

lemma sweep_ships:
  "tidy (fst st) \<Longrightarrow> unshipped (fst st) \<subseteq> set seqs \<Longrightarrow> length seqs \<le> length ios \<Longrightarrow> \<forall>(io, rio) \<in> set ios. ships io \<Longrightarrow>
   unshipped (fst (sweep E ios seqs st)) = {}"
proof (induction E ios seqs st rule: sweep.induct)
  case (3 E io ios seq seqs st)
  obtain pl' m' where fl: "flushOne E 1 [io] seq st = ((pl', m'), True)" "tidy pl'" "unshipped pl' \<subseteq> unshipped (fst st) - {seq}"
    using flushOne_ships [of "fst st" "fst io" E "snd io" seq "snd st"] 3 by auto
  moreover from fl(3) have "unshipped pl' \<subseteq> set seqs" using "3.prems"(2) by auto
  ultimately show ?case using "3.IH" "3.prems"(3,4) by simp
qed auto

text \<open>C38. Shipping makes progress: from any state of a log, a retry sweep whose ships and stamps go through
  leaves no sealed segment unshipped, whatever retention does.\<close>

theorem retryUnshipped_ships_all:
  assumes "plog E content A S pl m" and "\<forall>(io, rio) \<in> set ios. ships io" and "length (pl_sealed pl) \<le> length ios"
  shows "\<forall>s \<in> set (pl_sealed (fst (retryUnshipped E ios (pl, m)))). IsShipped s"
proof -
  have inv: "plog_inv E content A S pl m" by (rule plog_inv [OF assms(1)])
  have "IsShipped s" if "s \<in> set (pl_sealed pl)" "sg_retired s" for s
  proof (rule ccontr)
    assume "\<not> IsShipped s"
    then have "local_ok E content s" using inv that by (auto simp: plog_inv_def segs_def seg_ok_def)
    then show False using that(2) by (auto simp: local_ok_def holds_def)
  qed
  then have t: "tidy pl" using inv by (simp add: plog_inv_def tidy_def segs_def)
  then have "unshipped pl \<subseteq> set (pendingSegs pl)" by (auto simp: unshipped_def pendingSegs_def tidy_def)
  moreover have "length (pendingSegs pl) \<le> length ios"
    using assms(3) length_filter_le [of "\<lambda>s. \<not> IsShipped s \<and> \<not> sg_retired s" "rev (pl_sealed pl)"]
    by (simp add: pendingSegs_def del: length_filter_le)
  ultimately have "unshipped (fst (retryUnshipped E ios (pl, m))) = {}"
    unfolding retryUnshipped_def using sweep_ships [of "(pl, m)" "pendingSegs pl" ios E] t assms(2) by simp
  then show ?thesis by (auto simp: unshipped_def)
qed

definition demo_ship :: "ship_io \<times> retain_io" where
  "demo_ship = (\<lparr> io_seal = \<lparr> io_freeze = None, io_idx = True, io_mark = True \<rparr>, io_flush = Inr None, io_stamp = True, io_now = 11 \<rparr>,
     \<lparr> io_retire = (\<lambda>_. Some 1), io_row = (\<lambda>_. False), io_retiredAt = 7 \<rparr>)"

theorem retryUnshipped_ships_all_witness:
  "\<exists>pl m s. pl_sealed pl = [s] \<and> \<not> IsShipped s
     \<and> (\<forall>s \<in> set (pl_sealed (fst (retryUnshipped demo_log_env [demo_ship] (pl, m)))). IsShipped s)"
proof -
  obtain pl m s where p: "plog demo_log_env demo_content (set demo_blocks) {} pl m" "pl_sealed pl = [s]" "\<not> IsShipped s"
    using demo_sealed by blast
  have "\<forall>(io, rio) \<in> set [demo_ship]. ships io" by (simp add: demo_ship_def ships_def)
  from retryUnshipped_ships_all [OF p(1) this] show ?thesis using p(2,3) by auto
qed

end
