(* ===== verification/Log_Recover.thy ===== *)
theory Log_Recover
  imports Log_Plane
begin

text \<open>
  Opening a bucket's log (\<open>src/logstore/recovery.go\<close>): the directory of segment files and the segment
  rows are brought together, every segment that was open at the crash is rebuilt and sealed, damaged or
  lost files are made up from the journal, rows without a file are retired, and what has not shipped is
  queued. The directory is a map from segment numbers to files; a sidecar that is missing and one that
  does not parse are the same here, as they are for the code. The calls to the metadata store and to the
  file system go through; a failing one would abort the start.
\<close>

section \<open>The directory\<close>

record segFiles =
  fl_car :: "bytes option"
  fl_idx :: "idxFile option"
  fl_ops :: "bytes option"

type_synonym segDir = "(seqno, segFiles) gomap"

definition all_through :: seal_io where
  "all_through = \<lparr> io_freeze = None, io_idx = True, io_mark = True \<rparr>"

definition carMatchesRow :: "log_env \<Rightarrow> bytes \<Rightarrow> SegmentMeta \<Rightarrow> bool" where
  "carMatchesRow E car row \<longleftrightarrow>
     int (length car) = seg_Size row \<and> seg_SHA256 row \<noteq> [] \<and> Sum256 E car = seg_SHA256 row"

section \<open>One segment\<close>

text \<open>\<open>Inr (m, None)\<close>: the CAR is damaged and set aside.\<close>

definition sealedRow ::
  "log_env \<Rightarrow> time \<Rightarrow> PlaneLog \<Rightarrow> SegmentMeta \<Rightarrow> bytes \<Rightarrow> segFiles \<Rightarrow> MemStore \<Rightarrow> log_error + MemStore \<times> Segment option" where
  "sealedRow E now pl row car files m =
     (let seq = seg_Seq row
      in case loadSealedFromIdx seq (pl_plane pl) (seg_ShippedAt row) (Some car) (fl_ops files) (fl_idx files) of
           Inr s \<Rightarrow> Inr (m, Some s)
         | Inl e \<Rightarrow>
             if \<not> carMatchesRow E car row then
               if seg_ShippedAt row = 0 \<and> seq \<notin> set (JournalSegments (pl_bucket pl) m)
               then Inl (LogErr ''CAR does not match its row, nothing journaled to rebuild it from'')
               else Inr (m, None)
             else
               bindE (rebuildOpenFromDisk E seq (pl_plane pl) car (fl_ops files)) (\<lambda>s.
                 let s1 = (if seg_OpRoots row \<noteq> [] then s\<lparr> sg_opRoots := seg_OpRoots row \<rparr> else s);
                     ((s2, err), m') = seg_seal E all_through now s1 m
                 in case err of
                      Some e \<Rightarrow> Inl e
                    | None \<Rightarrow> Inr (m', Some (if seg_ShippedAt row \<noteq> 0 then markShipped (seg_ShippedAt row) s2 else s2))))"

definition sealedFromIdx ::
  "PlaneLog \<Rightarrow> seqno \<Rightarrow> bool \<Rightarrow> bytes \<Rightarrow> segFiles \<Rightarrow> MemStore \<Rightarrow> MemStore \<times> Segment option" where
  "sealedFromIdx pl seq hasRow car files m =
     (case loadSealedFromIdx seq (pl_plane pl) 0 (Some car) (fl_ops files) (fl_idx files) of
        Inl e \<Rightarrow> (m, None)
      | Inr s \<Rightarrow>
          (if hasRow
           then MarkSegmentSealed (pl_plane pl) seq (sg_sealedAt s) (int (sg_size s)) (sg_sha s) (sg_opRoots s) m
           else RehydrateSegment
                  \<lparr> seg_Seq = seq, seg_Plane = pl_plane pl, seg_Bucket = pl_bucket pl, seg_State = StateSealed,
                    seg_SealedAt = sg_sealedAt s, seg_Size = int (sg_size s), seg_SHA256 = sg_sha s, seg_ShippedAt = 0,
                    seg_IndexDigest = None, seg_DeadBytes = 0, seg_RetiredAt = 0, seg_OpRoots = sg_opRoots s \<rparr> m,
           Some s))"

datatype recovered =
    FilesGone
  | SealedSeg Segment
  | OpenSeg Segment

text \<open>The loop over the CARs of the directory. \<open>rows\<close> are the bucket's unretired rows and \<open>gone\<close> the retired
  ones that shipped, both as the start found them.\<close>

definition recoverCar ::
  "log_env \<Rightarrow> time \<Rightarrow> PlaneLog \<Rightarrow> (seqno \<Rightarrow> SegmentMeta option) \<Rightarrow> (seqno \<Rightarrow> bool) \<Rightarrow> seqno \<Rightarrow> bytes \<Rightarrow> segFiles \<Rightarrow> MemStore
     \<Rightarrow> log_error + MemStore \<times> recovered" where
  "recoverCar E now pl rows gone seq car files m =
     (case rows seq of
        None \<Rightarrow>
          if gone seq then Inr (m, FilesGone)
          else
            (case sealedFromIdx pl seq False car files m of
               (m', Some s) \<Rightarrow> Inr (m', SealedSeg s)
             | (m', None) \<Rightarrow>
                 bindE (rebuildOpenFromDisk E seq (pl_plane pl) car (fl_ops files)) (\<lambda>s.
                   Inr (InsertSegmentOpen (pl_plane pl) seq (pl_bucket pl) m', OpenSeg s)))
      | Some row \<Rightarrow>
          if seg_State row = StateSealed
          then bindE (sealedRow E now pl row car files m) (\<lambda>(m', r).
                 Inr (m', case r of None \<Rightarrow> FilesGone | Some s \<Rightarrow> SealedSeg s))
          else
            (case sealedFromIdx pl seq True car files m of
               (m', Some s) \<Rightarrow> Inr (m', SealedSeg s)
             | (m', None) \<Rightarrow>
                 bindE (rebuildOpenFromDisk E seq (pl_plane pl) car (fl_ops files)) (\<lambda>s. Inr (m', OpenSeg s))))"

fun recoverCars ::
  "log_env \<Rightarrow> time \<Rightarrow> PlaneLog \<Rightarrow> (seqno \<Rightarrow> SegmentMeta option) \<Rightarrow> (seqno \<Rightarrow> bool) \<Rightarrow> (seqno \<times> segFiles) list \<Rightarrow> MemStore
     \<Rightarrow> log_error + MemStore \<times> (seqno \<times> recovered) list" where
  "recoverCars E now pl rows gone [] m = Inr (m, [])"
| "recoverCars E now pl rows gone ((seq, files) # dir) m =
     (case fl_car files of
        None \<Rightarrow> recoverCars E now pl rows gone dir m
      | Some car \<Rightarrow>
          bindE (recoverCar E now pl rows gone seq car files m) (\<lambda>(m1, r).
            bindE (recoverCars E now pl rows gone dir m1) (\<lambda>(m2, rs). Inr (m2, (seq, r) # rs))))"

fun sealAll :: "log_env \<Rightarrow> time \<Rightarrow> Segment list \<Rightarrow> MemStore \<Rightarrow> log_error + MemStore \<times> Segment list" where
  "sealAll E now [] m = Inr (m, [])"
| "sealAll E now (s # ss) m =
     (case seg_seal E all_through now s m of
        ((s', Some e), m') \<Rightarrow> Inl e
      | ((s', None), m') \<Rightarrow> bindE (sealAll E now ss m') (\<lambda>(m'', ss'). Inr (m'', s' # ss')))"

section \<open>Lost segments\<close>

definition journalPage :: nat where
  "journalPage = 256"

definition frameBound :: "cid \<times> bytes \<Rightarrow> nat" where
  "frameBound b = 10 + length (fst b) + length (snd b)"

text \<open>How many of the blocks fit, the first being taken in any case.\<close>

fun fits :: "int \<Rightarrow> int \<Rightarrow> (cid \<times> bytes) list \<Rightarrow> nat" where
  "fits limit sz [] = 0"
| "fits limit sz (b # bs) = (if sz + int (frameBound b) \<le> limit then Suc (fits limit (sz + int (frameBound b)) bs) else 0)"

record rebuild =
  rb_meta :: MemStore
  rb_built :: "Segment list"
  rb_cur :: "Segment option"

definition sealCur :: "log_env \<Rightarrow> time \<Rightarrow> Segment \<Rightarrow> rebuild \<Rightarrow> log_error + rebuild" where
  "sealCur E now s rb =
     (case seg_seal E all_through now s (rb_meta rb) of
        ((s', Some e), m') \<Rightarrow> Inl e
      | ((s', None), m') \<Rightarrow> Inr \<lparr> rb_meta = m', rb_built = rb_built rb @ [s'], rb_cur = None \<rparr>)"

definition openCur :: "log_env \<Rightarrow> PlaneLog \<Rightarrow> rebuild \<Rightarrow> log_error + rebuild \<times> Segment" where
  "openCur E pl rb =
     (case rb_cur rb of
        Some s \<Rightarrow> Inr (rb, s)
      | None \<Rightarrow>
          let (m1, seq) = NextSegmentSeq (rb_meta rb)
          in case createOpenSegment E None seq (pl_plane pl) (pl_bucket pl) m1 of
               (Inl e, _) \<Rightarrow> Inl e
             | (Inr s, m2) \<Rightarrow> Inr (rb\<lparr> rb_meta := m2, rb_cur := Some s \<rparr>, s))"

text \<open>As many blocks of the page as the current segment takes: the append, and the journal rows moved onto
  the segment; then the rest of the page.\<close>

definition takeChunk ::
  "PlaneLog \<Rightarrow> seqno \<Rightarrow> (cid \<times> bytes) list \<Rightarrow> Segment \<Rightarrow> rebuild \<Rightarrow> log_error + rebuild \<times> Segment \<times> (cid \<times> bytes) list" where
  "takeChunk pl frm blocks s rb =
     (let n = 1 + fits (pc_SealBytes (pl_pc pl)) (int (sg_size s) + int (frameBound (hd blocks))) (tl blocks);
          chunk = take n blocks
      in case seg_append no_faults chunk [] s of
           (s', Some e) \<Rightarrow> Inl e
         | (s', None) \<Rightarrow>
             (case MoveJournal (pl_bucket pl) frm (sg_seq s') (fst (hd chunk)) (fst (last chunk)) (rb_meta rb) of
                (m', Some e) \<Rightarrow> Inl (LogErr ''move journal'')
              | (m', None) \<Rightarrow> Inr (rb\<lparr> rb_meta := m', rb_cur := Some s' \<rparr>, s', drop n blocks)))"

text \<open>A segment that holds blocks seals rather than take one that would carry it past the limit; the next
  round then opens an empty one, which takes at least one block. \<open>Seg_full\<close> is that test.\<close>

definition Seg_full :: "PlaneLog \<Rightarrow> Segment \<Rightarrow> cid \<times> bytes \<Rightarrow> bool" where
  "Seg_full pl s b \<longleftrightarrow> \<not> gm_is_empty (sg_index s) \<and> int (sg_size s) + int (frameBound b) > pc_SealBytes (pl_pc pl)"

function rebuildPage ::
  "log_env \<Rightarrow> time \<Rightarrow> PlaneLog \<Rightarrow> seqno \<Rightarrow> (cid \<times> bytes) list \<Rightarrow> rebuild \<Rightarrow> log_error + rebuild" where
  "rebuildPage E now pl frm [] rb = Inr rb"
| "rebuildPage E now pl frm (b # bs) rb =
     bindE (openCur E pl rb) (\<lambda>(rb1, s).
       if Seg_full pl s b then bindE (sealCur E now s rb1) (rebuildPage E now pl frm (b # bs))
       else
         bindE (takeChunk pl frm (b # bs) s rb1) (\<lambda>(rb2, s', rest).
           if rest \<noteq> [] \<or> int (sg_size s') \<ge> pc_SealBytes (pl_pc pl)
           then bindE (sealCur E now s' rb2) (rebuildPage E now pl frm rest)
           else Inr rb2))"
  by pat_completeness auto

definition cur_busy :: "rebuild \<Rightarrow> nat" where
  "cur_busy rb = (case rb_cur rb of None \<Rightarrow> 0 | Some s \<Rightarrow> if gm_is_empty (sg_index s) then 0 else 1)"

lemma sealCur_idle: "sealCur E now s rb = Inr rb' \<Longrightarrow> cur_busy rb' = 0"
  by (auto simp: sealCur_def cur_busy_def split: prod.splits option.splits)

lemma openCur_busy: "openCur E pl rb = Inr (rb1, s) \<Longrightarrow> \<not> gm_is_empty (sg_index s) \<Longrightarrow> cur_busy rb = 1"
  by (auto simp: openCur_def cur_busy_def createOpenSegment_def newSegment_def gm_is_empty_iff Let_def
      split: option.splits prod.splits sum.splits if_splits)

lemma takeChunk_shorter: "takeChunk pl frm (b # bs) s rb = Inr (rb', s', rest) \<Longrightarrow> length rest < Suc (length bs)"
  by (auto simp: takeChunk_def Let_def split: prod.splits option.splits)

termination rebuildPage
proof (relation "measures [\<lambda>(E, now, pl, frm, bs, rb). length bs, \<lambda>(E, now, pl, frm, bs, rb). cur_busy rb]", goal_cases)
  case (2 E now pl frm b bs rb x rb1 s rb')
  then show ?case using sealCur_idle openCur_busy by (fastforce simp: Seg_full_def)
next
  case (3 E now pl frm b bs rb x rb1 s y rb2 z s' rest rb')
  then show ?case using takeChunk_shorter by fastforce
qed simp

text \<open>The pages of one lost segment. Each full page moves \<open>after\<close> past at least one of the rows filed under
  it, so one round per row, and one to find nothing left, is fuel enough.\<close>

fun rebuildLost ::
  "nat \<Rightarrow> log_env \<Rightarrow> time \<Rightarrow> PlaneLog \<Rightarrow> seqno \<Rightarrow> cid \<Rightarrow> rebuild \<Rightarrow> log_error + rebuild" where
  "rebuildLost 0 E now pl frm after rb = Inl (LogPanic ''fuel'')"
| "rebuildLost (Suc fuel) E now pl frm after rb =
     (let blocks = ReadJournal frm after journalPage (rb_meta rb)
      in if blocks = [] then Inr rb
         else
           bindE (rebuildPage E now pl frm blocks rb) (\<lambda>rb'.
             if length blocks = journalPage then rebuildLost fuel E now pl frm (fst (last blocks)) rb' else Inr rb'))"

definition lost_fuel :: "MemStore \<Rightarrow> seqno \<Rightarrow> nat" where
  "lost_fuel m frm = Suc (length (gm_items (gm_inner (journal m) frm)))"

fun rebuildAll :: "log_env \<Rightarrow> time \<Rightarrow> PlaneLog \<Rightarrow> seqno list \<Rightarrow> rebuild \<Rightarrow> log_error + rebuild" where
  "rebuildAll E now pl [] rb = Inr rb"
| "rebuildAll E now pl (frm # lost) rb =
     bindE (rebuildLost (lost_fuel (rb_meta rb) frm) E now pl frm cid_Undef rb) (rebuildAll E now pl lost)"

definition rebuildFromJournal ::
  "log_env \<Rightarrow> time \<Rightarrow> PlaneLog \<Rightarrow> seqno list \<Rightarrow> MemStore \<Rightarrow> log_error + MemStore \<times> Segment list" where
  "rebuildFromJournal E now pl onDisk m =
     (let lost = filter (\<lambda>seq. seq \<notin> set onDisk) (JournalSegments (pl_bucket pl) m)
      in if lost = [] then Inr (m, [])
         else
           bindE (rebuildAll E now pl lost \<lparr> rb_meta = m, rb_built = [], rb_cur = None \<rparr>) (\<lambda>rb.
             case rb_cur rb of
               None \<Rightarrow> Inr (rb_meta rb, rb_built rb)
             | Some s \<Rightarrow> bindE (sealCur E now s rb) (\<lambda>rb'. Inr (rb_meta rb', rb_built rb'))))"

section \<open>Opening the log\<close>

definition orphanRow :: "PlaneLog \<Rightarrow> int \<Rightarrow> seqno list \<Rightarrow> SegmentMeta \<Rightarrow> MemStore \<Rightarrow> MemStore" where
  "orphanRow pl now carPresent row m =
     (if seg_Seq row \<in> set carPresent then m
      else if seg_State row = StateSealed then RetireSegment (pl_plane pl) (seg_Seq row) now m
      else DeleteSegment (pl_plane pl) (seg_Seq row) m)"

definition dbBySeq :: "PlaneLog \<Rightarrow> MemStore \<Rightarrow> seqno \<Rightarrow> SegmentMeta option" where
  "dbBySeq pl m seq = find (\<lambda>r. seg_Seq r = seq) (ListSegments (pl_plane pl) (pl_bucket pl) m)"

definition isRetiredShipped :: "PlaneLog \<Rightarrow> MemStore \<Rightarrow> seqno \<Rightarrow> bool" where
  "isRetiredShipped pl m seq \<longleftrightarrow>
     list_ex (\<lambda>r. seg_Seq r = seq \<and> seg_ShippedAt r \<noteq> 0) (ListRetiredSegments (pl_plane pl) (pl_bucket pl) m)"

definition recover :: "log_env \<Rightarrow> time \<Rightarrow> segDir \<Rightarrow> PlaneLog \<Rightarrow> MemStore \<Rightarrow> log_error + plane_state" where
  "recover E now dir pl m =
     (let listed = ListSegments (pl_plane pl) (pl_bucket pl) m
      in bindE (recoverCars E now pl (dbBySeq pl m) (isRetiredShipped pl m) (gm_items dir) m) (\<lambda>(m1, rs).
           let carPresent = map fst (filter (\<lambda>(seq, r). r \<noteq> FilesGone) rs);
               sealed = concat (map (\<lambda>(seq, r). case r of SealedSeg s \<Rightarrow> [s] | _ \<Rightarrow> []) rs);
               opens = concat (map (\<lambda>(seq, r). case r of OpenSeg s \<Rightarrow> [s] | _ \<Rightarrow> []) rs)
           in bindE (sealAll E now opens m1) (\<lambda>(m2, ss).
                bindE (rebuildFromJournal E now pl carPresent m2) (\<lambda>(m3, built).
                  let pl1 = pl\<lparr> pl_sealed := rev (sort_key sg_seq (sealed @ ss @ built)) \<rparr>;
                      pl2 = fold (\<lambda>s pl. if IsShipped s \<or> sg_retired s then pl else enqueueFlush (sg_seq s) pl)
                              (pl_sealed pl1) pl1
                  in Inr (pl2, fold (orphanRow pl now carPresent) listed m3)))))"

definition openPlaneLog ::
  "log_env \<Rightarrow> time \<Rightarrow> Plane \<Rightarrow> string \<Rightarrow> PlaneConfig \<Rightarrow> segDir \<Rightarrow> MemStore \<Rightarrow> log_error + plane_state" where
  "openPlaneLog E now plane bucket pc dir m = recover E now dir (newPlaneLog plane bucket pc) m"

end
