(* ===== verification/Log_Restart.thy ===== *)
theory Log_Restart
  imports Log_NoLoss Log_Recover
begin

text \<open>
  A restart recovers what the log held: every block of a segment whose files are intact, up to a torn
  tail, is served by the opened log, and so is every block the journal still holds for a segment whose
  file is lost.
\<close>

section \<open>The journal while rows move\<close>

abbreviation jrow :: "MemStore \<Rightarrow> seqno \<Rightarrow> cid \<Rightarrow> journalRow option" where
  "jrow m seq k \<equiv> gm_get (gm_inner (journal m) seq) k"

definition journal_ok :: "log_env \<Rightarrow> (cid \<Rightarrow> bytes) \<Rightarrow> MemStore \<Rightarrow> bool" where
  "journal_ok E content m \<longleftrightarrow> (\<forall>seq k row. jrow m seq k = Some row \<longrightarrow>
     jr_data row = content k \<and> car_ok (carE E) [(k, content k)] \<and> cid_Defined k)"

lemma moveRows_get:
  "gm_get (moveRows True rows dst) k = (case gm_get dst k of Some r \<Rightarrow> Some r | None \<Rightarrow> map_of rows k)"
  unfolding moveRows_def by (induction rows arbitrary: dst) (auto split: option.splits if_splits)

lemma gm_inner_del: "gm_inner (gm_del k m) k' = (if k' = k then gm_empty else gm_inner m k')"
  by (simp add: gm_inner_def)

lemma MoveJournal_get:
  assumes "MoveJournal bucket frm to lo hi m = (m', None)"
  shows "jrow m' frm k = (case jrow m frm k of None \<Rightarrow> None
      | Some row \<Rightarrow> if jr_bucket row = bucket \<and> lo \<le> k \<and> k \<le> hi then None else Some row)"
    and "seq \<noteq> frm \<Longrightarrow> jrow m' seq k = jrow m seq k \<or> (jrow m seq k = None \<and> jrow m' seq k = jrow m frm k)"
    and "segments m' = segments m" and "nextSeq m' = nextSeq m"
proof -
  let ?src = "gm_inner (journal m) frm"
  let ?in = "\<lambda>k row. \<not> (jr_bucket row \<noteq> bucket \<or> k < lo \<or> k > hi)"
  let ?moved = "filter (\<lambda>(k, row). ?in k row) (gm_items ?src)"
  obtain target where t: "gm_get (segments m) to = Some target"
    using assms by (auto simp: MoveJournal_def split: option.splits)
  define j1 where "j1 = (if ?moved \<noteq> [] \<and> seg_ShippedAt target = 0
    then gm_put to (moveRows True ?moved (gm_inner (journal m) to)) (journal m) else journal m)"
  define src' where "src' = gm_filter (\<lambda>k row. \<not> ?in k row) ?src"
  have m': "m' = m\<lparr> journal := (if gm_is_empty src' then gm_del frm j1 else gm_put frm src' j1) \<rparr>"
    using assms unfolding MoveJournal_def t option.case Let_def j1_def src'_def by (auto simp only: prod.inject)
  then show "segments m' = segments m" "nextSeq m' = nextSeq m" by simp_all
  have inner: "gm_get (gm_inner (journal m') seq) k = (if seq = frm then gm_get src' k else gm_get (gm_inner j1 seq) k)" for seq k
    by (simp add: m' gm_inner_del gm_is_empty_iff)
  then show "jrow m' frm k = (case jrow m frm k of None \<Rightarrow> None
      | Some row \<Rightarrow> if jr_bucket row = bucket \<and> lo \<le> k \<and> k \<le> hi then None else Some row)"
    by (auto simp: src'_def not_less split: option.splits)
  have "map_of ?moved k \<in> {None, jrow m frm k}"
    using map_of_filter_in [of "gm_items ?src"] by (auto simp: gm_get_map_of map_of_eq_None_iff dest!: map_of_SomeD split: option.splits)
  then show "seq \<noteq> frm \<Longrightarrow> jrow m' seq k = jrow m seq k \<or> (jrow m seq k = None \<and> jrow m' seq k = jrow m frm k)"
    by (auto simp: inner j1_def moveRows_get split: option.splits)
qed

lemma MoveJournal_ok:
  assumes "MoveJournal bucket frm to lo hi m = (m', None)" and "journal_ok E content m"
  shows "journal_ok E content m'"
  unfolding journal_ok_def
proof (intro allI impI)
  fix seq k row assume "jrow m' seq k = Some row"
  then have "jrow m seq k = Some row \<or> jrow m frm k = Some row"
    using MoveJournal_get(1) [OF assms(1), of k] MoveJournal_get(2) [OF assms(1), of seq k]
    by (cases "seq = frm") (auto split: option.splits if_splits)
  then show "jr_data row = content k \<and> car_ok (carE E) [(k, content k)] \<and> cid_Defined k"
    using assms(2) by (auto simp: journal_ok_def)
qed

section \<open>Pages of the journal\<close>

lemma sorted_take_rest:
  assumes "sorted ks" and "distinct ks" and "k \<in> set ks" and "k \<notin> set (take n ks)" and "take n ks \<noteq> []"
  shows "last (take n ks) < k" and "length (take n ks) = n"
proof -
  have split: "ks = take n ks @ drop n ks" by simp
  have "k \<in> set (drop n ks)" using assms(3,4) by (metis Un_iff set_append split)
  moreover have "sorted (take n ks @ drop n ks)" using assms(1) by simp
  ultimately have "last (take n ks) \<le> k" using assms(5) unfolding sorted_append by simp
  moreover have "last (take n ks) \<noteq> k" using assms(4,5) by (metis last_in_set)
  ultimately show "last (take n ks) < k" by simp
  show "length (take n ks) = n" using \<open>k \<in> set (drop n ks)\<close> by (cases "n \<le> length ks") auto
qed

lemma ReadJournal_page:
  assumes "blocks = ReadJournal frm after n m"
  shows "sorted (map fst blocks)" and "distinct (map fst blocks)"
    and "\<forall>(k, d) \<in> set blocks. after < k \<and> (\<exists>row. jrow m frm k = Some row \<and> d = jr_data row)"
    and "blocks \<noteq> [] \<Longrightarrow> jrow m frm k = Some row \<Longrightarrow> after < k \<Longrightarrow> k \<notin> fst ` set blocks \<Longrightarrow>
      length blocks = n \<and> fst (last blocks) < k"
    and "0 < n \<Longrightarrow> blocks = [] \<Longrightarrow> jrow m frm k = Some row \<Longrightarrow> \<not> after < k"
proof -
  let ?rows = "gm_inner (journal m) frm"
  let ?ks = "filter (\<lambda>k. \<not> k \<le> after) (sort (map fst (gm_items ?rows)))"
  have blocks: "blocks = map (\<lambda>k. (k, jr_data (the (gm_get ?rows k)))) (take n ?ks)"
    using assms by (simp add: ReadJournal_def Let_def)
  then have keys: "map fst blocks = take n ?ks" by (simp add: comp_def)
  have ks: "sorted ?ks" "distinct ?ks" by (simp_all add: sorted_wrt_filter)
  show "sorted (map fst blocks)" "distinct (map fst blocks)" unfolding keys using ks by (simp_all add: sorted_wrt_take)
  have mem: "k \<in> set ?ks \<longleftrightarrow> after < k \<and> gm_get ?rows k \<noteq> None" for k
    by (force simp: gm_get_map_of map_of_eq_None_iff not_le)
  show "\<forall>(k, d) \<in> set blocks. after < k \<and> (\<exists>row. jrow m frm k = Some row \<and> d = jr_data row)"
    using mem set_take_subset [of n ?ks] by (fastforce simp: blocks)
  {
    assume "jrow m frm k = Some row" "after < k"
    then have k: "k \<in> set ?ks" using mem by simp
    show "blocks \<noteq> [] \<Longrightarrow> k \<notin> fst ` set blocks \<Longrightarrow> length blocks = n \<and> fst (last blocks) < k"
    proof -
      assume b: "blocks \<noteq> []" and "k \<notin> fst ` set blocks"
      then have "k \<notin> set (take n ?ks)" "take n ?ks \<noteq> []" using keys by (metis list.set_map, metis list.map_disc_iff)
      from sorted_take_rest [OF ks k this] show "length blocks = n \<and> fst (last blocks) < k"
        using b keys by (metis last_map length_map)
    qed
  }
  show "0 < n \<Longrightarrow> blocks = [] \<Longrightarrow> jrow m frm k = Some row \<Longrightarrow> \<not> after < k"
    using mem [of k] keys by (cases ?ks) auto
qed

section \<open>Rebuilding from the journal\<close>

definition exact :: "log_env \<Rightarrow> (cid \<Rightarrow> bytes) \<Rightarrow> Segment \<Rightarrow> bool" where
  "exact E content s \<longleftrightarrow>
     (\<forall>c. seg_get E c s = (if gm_get (sg_index s) c = None then Inl ErrBlockNotFound else Inr (c, content c)))"

lemma local_exact: "local_ok E content s \<Longrightarrow> exact E content s"
  by (simp add: exact_def local_ok_get)

lemma firstHit_exact:
  "\<forall>s \<in> set ss. exact E content s \<Longrightarrow> s \<in> set ss \<Longrightarrow> gm_get (sg_index s) c \<noteq> None \<Longrightarrow> firstHit E c ss = Inr (c, content c)"
  by (induction ss) (auto simp: exact_def)

definition rb_segs :: "rebuild \<Rightarrow> Segment list" where
  "rb_segs rb = rb_built rb @ (case rb_cur rb of None \<Rightarrow> [] | Some s \<Rightarrow> [s])"

definition covered :: "rebuild \<Rightarrow> cid set" where
  "covered rb = {c. \<exists>s \<in> set (rb_segs rb). gm_get (sg_index s) c \<noteq> None}"

definition rb_ok :: "log_env \<Rightarrow> (cid \<Rightarrow> bytes) \<Rightarrow> rebuild \<Rightarrow> bool" where
  "rb_ok E content rb \<longleftrightarrow> journal_ok E content (rb_meta rb) \<and> (\<forall>s \<in> set (rb_built rb). exact E content s)
     \<and> (\<forall>s. rb_cur rb = Some s \<longrightarrow> local_ok E content s \<and> appendable s \<and> ops_hold s
          \<and> gm_get (segments (rb_meta rb)) (sg_seq s) \<noteq> None)"

text \<open>A step of the rebuild: nothing covered is lost, and of the journal only rows of \<open>frm\<close> up to \<open>hi\<close> leave.\<close>

definition advances :: "seqno \<Rightarrow> cid \<Rightarrow> rebuild \<Rightarrow> rebuild \<Rightarrow> bool" where
  "advances frm hi rb rb' \<longleftrightarrow> covered rb \<subseteq> covered rb'
     \<and> (\<forall>seq k row. jrow (rb_meta rb) seq k = Some row \<longrightarrow> seq \<noteq> frm \<or> hi < k \<longrightarrow> jrow (rb_meta rb') seq k = Some row)
     \<and> (\<forall>k row. jrow (rb_meta rb') frm k = Some row \<longrightarrow> jrow (rb_meta rb) frm k = Some row)"

lemma advances_refl: "advances frm hi rb rb"
  by (simp add: advances_def)

lemma advances_trans: "advances frm hi rb rb1 \<Longrightarrow> advances frm hi rb1 rb2 \<Longrightarrow> advances frm hi rb rb2"
  unfolding advances_def by (meson order_trans)

lemma advances_mono: "advances frm hi rb rb' \<Longrightarrow> hi \<le> hi' \<Longrightarrow> advances frm hi' rb rb'"
  unfolding advances_def by (meson le_less_trans)

lemma seal_through:
  assumes "local_ok E content s"
  shows "\<exists>s' m'. seg_seal E all_through now s m = ((s', None), m') \<and> local_ok E content s' \<and> sg_index s' = sg_index s
    \<and> sg_seq s' = sg_seq s \<and> IsShipped s' = IsShipped s \<and> journal m' = journal m \<and> nextSeq m' = nextSeq m"
proof -
  have "\<exists>s' m'. seg_seal E all_through now s m = ((s', None), m')"
    by (simp add: seg_seal_def freeze_def all_through_def Let_def)
  then obtain s' m' where s': "seg_seal E all_through now s m = ((s', None), m')" by blast
  moreover have "journal m' = journal m" using s'
    by (auto simp: seg_seal_def freeze_def MarkSegmentSealed_def all_through_def Let_def split: if_splits option.splits)
  ultimately show ?thesis using local_ok_seal [OF assms s'] by blast
qed

lemma sealCur_ok:
  assumes "rb_ok E content rb" and "rb_cur rb = Some s"
  shows "\<exists>rb'. sealCur E now s rb = Inr rb' \<and> rb_ok E content rb' \<and> advances frm hi rb rb' \<and> rb_cur rb' = None \<and> covered rb' = covered rb"
proof -
  have "local_ok E content s" using assms by (simp add: rb_ok_def)
  from seal_through [OF this, of now "rb_meta rb"] obtain s' m' where s': "seg_seal E all_through now s (rb_meta rb) = ((s', None), m')"
      "local_ok E content s'" "sg_index s' = sg_index s" "journal m' = journal (rb_meta rb)" by blast
  let ?rb = "\<lparr> rb_meta = m', rb_built = rb_built rb @ [s'], rb_cur = None \<rparr>"
  have "covered ?rb = covered rb" using assms(2) s'(3) by (auto simp: covered_def rb_segs_def)
  moreover have "rb_ok E content ?rb" using assms s' local_exact by (auto simp: rb_ok_def journal_ok_def)
  ultimately show ?thesis using s'(1,4) by (simp add: sealCur_def advances_def)
qed

lemma openCur_ok:
  assumes "rb_ok E content rb"
  shows "\<exists>rb1 s. openCur E pl rb = Inr (rb1, s) \<and> rb_ok E content rb1 \<and> advances frm hi rb rb1 \<and> rb_cur rb1 = Some s"
proof (cases "rb_cur rb")
  case (Some s)
  then show ?thesis using assms advances_refl by (simp add: openCur_def)
next
  case None
  let ?m = "(rb_meta rb)\<lparr> nextSeq := nextSeq (rb_meta rb) + 1 \<rparr>" and ?n = "nextSeq (rb_meta rb) + 1"
  have "\<exists>s m2. createOpenSegment E None ?n (pl_plane pl) (pl_bucket pl) ?m = (Inr s, m2)"
    by (simp add: createOpenSegment_def Let_def split: prod.split)
  then obtain s m2 where cr: "createOpenSegment E None ?n (pl_plane pl) (pl_bucket pl) ?m = (Inr s, m2)" by blast
  note hs = createOpenSegment_holds [OF cr]
  have m2: "journal m2 = journal (rb_meta rb)" "gm_get (segments m2) ?n \<noteq> None"
    using cr by (auto simp: createOpenSegment_def InsertSegmentOpen_def Let_def split: prod.splits if_splits)
  have "local_ok E content s"
    using hs by (auto simp: local_ok_def car_ok_def addressed_def readable_def appendable_def intro!: exI [of _ "[]"])
  then have "rb_ok E content (rb\<lparr> rb_meta := m2, rb_cur := Some s \<rparr>)"
    using assms hs m2 by (auto simp: rb_ok_def journal_ok_def)
  moreover have "advances frm hi rb (rb\<lparr> rb_meta := m2, rb_cur := Some s \<rparr>)"
    using m2 None by (auto simp: advances_def covered_def rb_segs_def)
  ultimately show ?thesis using None cr by (simp add: openCur_def NextSegmentSeq_def Let_def)
qed

lemma sorted_key_last: "sorted (map fst bs) \<Longrightarrow> b \<in> set bs \<Longrightarrow> fst b \<le> fst (last bs)"
proof (induction bs)
  case (Cons x xs)
  then show ?case by (cases "xs = []") auto
qed simp

lemma takeChunk_ok:
  assumes rb: "rb_ok E content rb" "rb_cur rb = Some s" and "blocks \<noteq> []"
    and "sorted (map fst blocks)" and "distinct (map fst blocks)" and "addressed content blocks" and "car_ok (carE E) blocks"
  shows "\<exists>rb' s' n. takeChunk pl frm blocks s rb = Inr (rb', s', drop n blocks) \<and> 0 < n \<and> rb_ok E content rb' \<and> rb_cur rb' = Some s'
    \<and> advances frm (fst (last blocks)) rb rb' \<and> fst ` set (take n blocks) \<subseteq> covered rb'"
proof -
  let ?n = "1 + fits (pc_SealBytes (pl_pc pl)) (int (sg_size s) + int (frameBound (hd blocks))) (tl blocks)"
  let ?chunk = "take ?n blocks"
  have cur: "local_ok E content s" "appendable s" "ops_hold s" "gm_get (segments (rb_meta rb)) (sg_seq s) \<noteq> None"
    using rb by (auto simp: rb_ok_def)
  have sub: "set ?chunk \<subseteq> set blocks" by (rule set_take_subset)
  have ch: "distinct (map fst ?chunk)" "addressed content ?chunk" "car_ok (carE E) ?chunk" "?chunk \<noteq> []"
    using assms sub by (auto simp: take_map [symmetric] addressed_def car_ok_def)
  obtain s' where s': "seg_append no_faults ?chunk [] s = (s', None)"
    using seg_append_no_faults [OF cur(2), of "[]" "Cast E" ?chunk] by auto
  note a = local_ok_append [OF cur(1-3) ch(1-3), of "[]", OF _ s']
  obtain m' where m': "MoveJournal (pl_bucket pl) frm (sg_seq s') (fst (hd ?chunk)) (fst (last ?chunk)) (rb_meta rb) = (m', None)"
    using a(4) cur(4) by (auto simp: MoveJournal_def Let_def split: option.splits)
  let ?rb = "rb\<lparr> rb_meta := m', rb_cur := Some s' \<rparr>"
  have "fst (last ?chunk) \<le> fst (last blocks)"
    using ch(4) sub by (intro sorted_key_last [OF assms(4)]) (meson last_in_set subsetD)
  then have keep: "jrow m' seq k = Some row" if "jrow (rb_meta rb) seq k = Some row" "seq \<noteq> frm \<or> fst (last blocks) < k" for seq k row
    using that MoveJournal_get(1) [OF m', of k] MoveJournal_get(2) [OF m', of seq k] by (cases "seq = frm") auto
  have cov: "covered ?rb = covered rb \<union> fst ` set ?chunk" using a(6) rb(2) by (auto simp: covered_def rb_segs_def)
  then have "advances frm (fst (last blocks)) rb ?rb"
    using keep MoveJournal_get(1) [OF m'] by (auto simp: advances_def split: option.splits if_splits)
  moreover have "rb_ok E content ?rb"
    using rb(1) a(1-4) cur(4) MoveJournal_ok [OF m'] MoveJournal_get(3) [OF m'] by (auto simp: rb_ok_def)
  moreover have "takeChunk pl frm blocks s rb = Inr (?rb, s', drop ?n blocks)"
    using s' m' by (simp add: takeChunk_def Let_def)
  ultimately show ?thesis using cov by (intro exI [of _ ?rb] exI [of _ s'] exI [of _ ?n]) auto
qed

lemma sorted_drop_last: "sorted (map fst bs) \<Longrightarrow> drop n bs \<noteq> [] \<Longrightarrow> last (drop n bs) = last bs"
  by simp

lemma page_part:
  assumes "sorted (map fst blocks)" and "distinct (map fst blocks)" and "addressed content blocks" and "car_ok (carE E) blocks"
  shows "sorted (map fst (drop n blocks))" and "distinct (map fst (drop n blocks))" and "addressed content (drop n blocks)"
    and "car_ok (carE E) (drop n blocks)"
  using assms set_drop_subset [of n blocks]
  by (auto simp: drop_map [symmetric] sorted_wrt_drop addressed_def car_ok_def)

lemma rebuildPage_ok:
  assumes "rb_ok E content rb" and "sorted (map fst blocks)" and "distinct (map fst blocks)" and "addressed content blocks"
    and "car_ok (carE E) blocks" and "blocks \<noteq> [] \<Longrightarrow> hi = fst (last blocks)"
  shows "\<exists>rb'. rebuildPage E now pl frm blocks rb = Inr rb' \<and> rb_ok E content rb' \<and> advances frm hi rb rb'
    \<and> fst ` set blocks \<subseteq> covered rb'"
  using assms
proof (induction E now pl frm blocks rb rule: rebuildPage.induct)
  case (1 E now pl frm rb)
  then show ?case using advances_refl by simp
next
  case (2 E now pl frm b bs rb)
  let ?bs = "b # bs"
  obtain rb1 s where op: "openCur E pl rb = Inr (rb1, s)" "rb_ok E content rb1" "advances frm hi rb rb1" "rb_cur rb1 = Some s"
    using openCur_ok [OF 2(3)] by blast
  show ?case
  proof (cases "Seg_full pl s b")
    case True
    obtain rb2 where se: "sealCur E now s rb1 = Inr rb2" "rb_ok E content rb2" "advances frm hi rb1 rb2"
      using sealCur_ok [OF op(2,4)] by blast
    from 2(1) [OF op(1) refl True se(1,2) 2(4-8)] obtain rb' where rb': "rebuildPage E now pl frm ?bs rb2 = Inr rb'"
        "rb_ok E content rb'" "advances frm hi rb2 rb'" "fst ` set ?bs \<subseteq> covered rb'" by blast
    have "rebuildPage E now pl frm ?bs rb = Inr rb'"
      by (subst rebuildPage.simps) (simp add: op(1) True se(1) rb'(1) del: rebuildPage.simps)
    then show ?thesis using rb'(2,4) advances_trans [OF op(3) advances_trans [OF se(3) rb'(3)]] by blast
  next
    case False
    obtain rb2 s' n where ch: "takeChunk pl frm ?bs s rb1 = Inr (rb2, s', drop n ?bs)" "0 < n" "rb_ok E content rb2" "rb_cur rb2 = Some s'"
        "advances frm hi rb1 rb2" "fst ` set (take n ?bs) \<subseteq> covered rb2"
      using takeChunk_ok [OF op(2,4) _ 2(4-7)] 2(8) by blast
    show ?thesis
    proof (cases "drop n ?bs \<noteq> [] \<or> int (sg_size s') \<ge> pc_SealBytes (pl_pc pl)")
      case True
      obtain rb3 where se: "sealCur E now s' rb2 = Inr rb3" "rb_ok E content rb3" "advances frm hi rb2 rb3"
        using sealCur_ok [OF ch(3,4)] by blast
      have "drop n ?bs \<noteq> [] \<Longrightarrow> hi = fst (last (drop n ?bs))" using 2(8) by simp
      from 2(2) [OF op(1) refl False ch(1) refl refl True se(1,2) page_part [OF 2(4-7)] this] obtain rb' where
        rb': "rebuildPage E now pl frm (drop n ?bs) rb3 = Inr rb'" "rb_ok E content rb'" "advances frm hi rb3 rb'"
          "fst ` set (drop n ?bs) \<subseteq> covered rb'" by blast
      have "rebuildPage E now pl frm ?bs rb = Inr rb'"
        by (subst rebuildPage.simps) (use True in \<open>simp add: op(1) False ch(1) se(1) rb'(1) del: rebuildPage.simps\<close>)
      moreover have "covered rb2 \<subseteq> covered rb'" using advances_trans [OF se(3) rb'(3)] unfolding advances_def by blast
      then have "fst ` (set (take n ?bs) \<union> set (drop n ?bs)) \<subseteq> covered rb'" using ch(6) rb'(4) by (simp add: image_Un)
      then have "fst ` set ?bs \<subseteq> covered rb'" by (metis append_take_drop_id set_append)
      moreover note advances_trans [OF op(3) advances_trans [OF ch(5) advances_trans [OF se(3) rb'(3)]]]
      ultimately show ?thesis using rb'(2) by blast
    next
      case stop: False
      have "rebuildPage E now pl frm ?bs rb = Inr rb2"
        by (subst rebuildPage.simps) (use stop in \<open>simp add: op(1) False ch(1) del: rebuildPage.simps\<close>)
      moreover have "take n ?bs = ?bs" using stop by simp
      ultimately show ?thesis using ch(3,6) advances_trans [OF op(3) ch(5)] by metis
    qed
  qed
qed

definition above :: "MemStore \<Rightarrow> seqno \<Rightarrow> cid \<Rightarrow> cid set" where
  "above m frm after = {k. jrow m frm k \<noteq> None \<and> after < k}"

lemma finite_above: "finite (above m frm after)"
  unfolding above_def using finite_dom_map_of [of "gm_items (gm_inner (journal m) frm)"]
  by (rule rev_finite_subset) (auto simp: gm_get_map_of)

lemma rebuildLost_ok:
  assumes "rb_ok E content rb" and "card (above (rb_meta rb) frm after) < fuel"
  shows "\<exists>rb'. rebuildLost fuel E now pl frm after rb = Inr rb' \<and> rb_ok E content rb' \<and> covered rb \<subseteq> covered rb'
    \<and> above (rb_meta rb) frm after \<subseteq> covered rb'
    \<and> (\<forall>seq k row. jrow (rb_meta rb) seq k = Some row \<longrightarrow> seq \<noteq> frm \<longrightarrow> jrow (rb_meta rb') seq k = Some row)"
  using assms
proof (induction fuel arbitrary: after rb)
  case (Suc fuel)
  define blocks where "blocks = ReadJournal frm after journalPage (rb_meta rb)"
  note page = ReadJournal_page [OF blocks_def]
  have pos: "0 < journalPage" by (simp add: journalPage_def)
  show ?case
  proof (cases "blocks = []")
    case True
    then have "above (rb_meta rb) frm after = {}" using page(5) [OF pos] by (fastforce simp: above_def)
    then show ?thesis using True Suc.prems(1) by (simp add: blocks_def [symmetric] Let_def)
  next
    case False
    let ?hi = "fst (last blocks)"
    have "d = content c \<and> car_ok (carE E) [(c, d)]" if "(c, d) \<in> set blocks" for c d
      using page(3) that Suc.prems(1) unfolding rb_ok_def journal_ok_def by fastforce
    then have good: "addressed content blocks" "car_ok (carE E) blocks" by (fastforce simp: addressed_def car_ok_def)+
    obtain rb1 where rb1: "rebuildPage E now pl frm blocks rb = Inr rb1" "rb_ok E content rb1" "advances frm ?hi rb rb1"
        "fst ` set blocks \<subseteq> covered rb1"
      using rebuildPage_ok [OF Suc.prems(1) page(1,2) good] by blast
    have rest: "above (rb_meta rb) frm after \<subseteq> fst ` set blocks \<union> above (rb_meta rb1) frm ?hi"
    proof
      fix k assume "k \<in> above (rb_meta rb) frm after"
      then obtain row where row: "jrow (rb_meta rb) frm k = Some row" "after < k" by (auto simp: above_def)
      show "k \<in> fst ` set blocks \<union> above (rb_meta rb1) frm ?hi"
      proof (cases "k \<in> fst ` set blocks")
        case False
        then have "?hi < k" using page(4) [OF \<open>blocks \<noteq> []\<close> row] by simp
        moreover then have "jrow (rb_meta rb1) frm k = Some row" using rb1(3) row(1) unfolding advances_def by blast
        ultimately show ?thesis by (simp add: above_def)
      qed simp
    qed
    have kept: "\<forall>seq k row. jrow (rb_meta rb) seq k = Some row \<longrightarrow> seq \<noteq> frm \<longrightarrow> jrow (rb_meta rb1) seq k = Some row"
      and mono: "covered rb \<subseteq> covered rb1" using rb1(3) unfolding advances_def by blast+
    show ?thesis
    proof (cases "length blocks = journalPage")
      case True
      have hi: "?hi \<in> above (rb_meta rb) frm after" 
        using page(3) last_in_set [OF False] by (cases "last blocks") (auto simp: above_def)
      have "above (rb_meta rb1) frm ?hi \<subseteq> above (rb_meta rb) frm after - {?hi}"
      proof
        fix k assume k: "k \<in> above (rb_meta rb1) frm ?hi"
        then have "jrow (rb_meta rb) frm k \<noteq> None" using rb1(3) unfolding advances_def above_def by blast
        then show "k \<in> above (rb_meta rb) frm after - {?hi}" using k hi by (auto simp: above_def)
      qed
      then have "card (above (rb_meta rb1) frm ?hi) \<le> card (above (rb_meta rb) frm after - {?hi})"
        by (intro card_mono) (simp_all add: finite_above)
      moreover have "card (above (rb_meta rb) frm after - {?hi}) < card (above (rb_meta rb) frm after)"
        using hi by (intro card_Diff1_less finite_above)
      ultimately have "card (above (rb_meta rb1) frm ?hi) < fuel" using Suc.prems(2) by linarith
      from Suc.IH [OF rb1(2) this] obtain rb' where rb': "rebuildLost fuel E now pl frm ?hi rb1 = Inr rb'" "rb_ok E content rb'"
          "covered rb1 \<subseteq> covered rb'" "above (rb_meta rb1) frm ?hi \<subseteq> covered rb'"
          "\<forall>seq k row. jrow (rb_meta rb1) seq k = Some row \<longrightarrow> seq \<noteq> frm \<longrightarrow> jrow (rb_meta rb') seq k = Some row" by blast
      have "rebuildLost (Suc fuel) E now pl frm after rb = Inr rb'"
        using False True rb1(1) rb'(1) by (simp add: blocks_def [symmetric] Let_def)
      moreover have "above (rb_meta rb) frm after \<subseteq> covered rb'" using rest rb1(4) rb'(3,4) by blast
      ultimately show ?thesis using rb' mono kept by blast
    next
      case short: False
      then have "above (rb_meta rb) frm after \<subseteq> fst ` set blocks" using page(4) [OF False] by (fastforce simp: above_def)
      then show ?thesis using False short rb1 mono kept by (auto simp: blocks_def [symmetric] Let_def)
    qed
  qed
qed simp

lemma lost_fuel_enough: "card (above m frm after) < lost_fuel m frm"
proof -
  have "above m frm after \<subseteq> set (map fst (gm_items (gm_inner (journal m) frm)))"
    by (auto simp: above_def gm_get_map_of dest!: map_of_SomeD) force
  then have "card (above m frm after) \<le> card (set (map fst (gm_items (gm_inner (journal m) frm))))" by (rule card_mono [OF finite_set])
  also have "\<dots> \<le> length (gm_items (gm_inner (journal m) frm))" by (metis card_length length_map)
  finally show ?thesis by (simp add: lost_fuel_def)
qed

lemma rebuildAll_ok:
  assumes "rb_ok E content rb"
  shows "\<exists>rb'. rebuildAll E now pl lost rb = Inr rb' \<and> rb_ok E content rb' \<and> covered rb \<subseteq> covered rb'
    \<and> (\<forall>seq \<in> set lost. \<forall>k row. jrow (rb_meta rb) seq k = Some row \<longrightarrow> k \<in> covered rb')"
  using assms
proof (induction lost arbitrary: rb)
  case (Cons frm lost)
  obtain rb1 where rb1: "rebuildLost (lost_fuel (rb_meta rb) frm) E now pl frm cid_Undef rb = Inr rb1" "rb_ok E content rb1"
      "covered rb \<subseteq> covered rb1" "above (rb_meta rb) frm cid_Undef \<subseteq> covered rb1"
      "\<forall>seq k row. jrow (rb_meta rb) seq k = Some row \<longrightarrow> seq \<noteq> frm \<longrightarrow> jrow (rb_meta rb1) seq k = Some row"
    using rebuildLost_ok [OF Cons.prems lost_fuel_enough] by blast
  obtain rb' where rb': "rebuildAll E now pl lost rb1 = Inr rb'" "rb_ok E content rb'" "covered rb1 \<subseteq> covered rb'"
      "\<forall>seq \<in> set lost. \<forall>k row. jrow (rb_meta rb1) seq k = Some row \<longrightarrow> k \<in> covered rb'"
    using Cons.IH [OF rb1(2)] by blast
  have "k \<in> covered rb1" if "jrow (rb_meta rb) frm k = Some row" for k row
  proof -
    have "cid_Defined k" using Cons.prems that by (auto simp: rb_ok_def journal_ok_def)
    then have "cid_Undef < k" by (cases k) (simp_all add: cid_Defined_def cid_Undef_def)
    then show ?thesis using rb1(4) that by (auto simp: above_def)
  qed
  then have "k \<in> covered rb'" if "seq \<in> set (frm # lost)" "jrow (rb_meta rb) seq k = Some row" for seq k row
    using that rb1(5) rb'(3,4) by (cases "seq = frm") auto
  then show ?case using rb1 rb' by auto
qed simp

lemma rebuildFromJournal_ok:
  assumes "journal_ok E content m"
  shows "\<exists>m' built. rebuildFromJournal E now pl onDisk m = Inr (m', built) \<and> (\<forall>s \<in> set built. exact E content s)
    \<and> (\<forall>seq k row. seq \<in> set (JournalSegments (pl_bucket pl) m) \<longrightarrow> seq \<notin> set onDisk \<longrightarrow> jrow m seq k = Some row \<longrightarrow>
         (\<exists>s \<in> set built. gm_get (sg_index s) k \<noteq> None))"
proof -
  let ?lost = "filter (\<lambda>seq. seq \<notin> set onDisk) (JournalSegments (pl_bucket pl) m)"
  let ?rb = "\<lparr> rb_meta = m, rb_built = [], rb_cur = None \<rparr>"
  have "rb_ok E content ?rb" using assms by (simp add: rb_ok_def)
  from rebuildAll_ok [OF this] obtain rb where rb: "rebuildAll E now pl ?lost ?rb = Inr rb" "rb_ok E content rb"
      "\<forall>seq \<in> set ?lost. \<forall>k row. jrow m seq k = Some row \<longrightarrow> k \<in> covered rb" by fastforce
  have all: "\<exists>s \<in> set (rb_segs rb). gm_get (sg_index s) k \<noteq> None"
    if "seq \<in> set (JournalSegments (pl_bucket pl) m)" "seq \<notin> set onDisk" "jrow m seq k = Some row" for seq k row
    using rb(3) that by (auto simp: covered_def)
  show ?thesis
  proof (cases "?lost = []")
    case True
    then show ?thesis by (auto simp: rebuildFromJournal_def filter_empty_conv)
  next
    case False
    show ?thesis
    proof (cases "rb_cur rb")
      case None
      then have "rebuildFromJournal E now pl onDisk m = Inr (rb_meta rb, rb_built rb)" "rb_segs rb = rb_built rb"
        using False rb(1) by (auto simp: rebuildFromJournal_def rb_segs_def Let_def)
      then show ?thesis using all rb(2) by (auto simp: rb_ok_def)
    next
      case (Some s)
      obtain rb' where rb': "sealCur E now s rb = Inr rb'" "rb_ok E content rb'" "rb_cur rb' = None" "covered rb' = covered rb"
        using sealCur_ok [OF rb(2) Some] by blast
      have "rebuildFromJournal E now pl onDisk m = Inr (rb_meta rb', rb_built rb')"
        using False rb(1) Some rb'(1) by (auto simp: rebuildFromJournal_def Let_def)
      moreover have "\<exists>s \<in> set (rb_built rb'). gm_get (sg_index s) k \<noteq> None"
        if "seq \<in> set (JournalSegments (pl_bucket pl) m)" "seq \<notin> set onDisk" "jrow m seq k = Some row" for seq k row
      proof -
        have "k \<in> covered rb'" using all [OF that] rb'(4) by (auto simp: covered_def)
        then show ?thesis using rb'(3) by (simp add: covered_def rb_segs_def)
      qed
      ultimately show ?thesis using rb'(2) by (auto simp: rb_ok_def)
    qed
  qed
qed

section \<open>Segments whose files are there\<close>

text \<open>The files of a segment that acknowledged \<open>bs\<close>, as a crash can leave them: behind the acknowledged
  frames a cut batch, a sidecar of op-roots cut anywhere, and if the segment was sealed an index of
  exactly its frames.\<close>

definition index_of :: "log_env \<Rightarrow> seqno \<Rightarrow> (cid \<times> bytes) list \<Rightarrow> idxFile \<Rightarrow> bool" where
  "index_of E seq bs ix \<longleftrightarrow> ix_Seq ix = seq \<and> distinct (map fst (ix_Blocks ix))
     \<and> (\<forall>c. map_of (ix_Blocks ix) c = map_of (map locOf (framesAt (length (hdr E)) bs)) c)
     \<and> ix_SizeByte ix = length (hdr E) + length (frames bs)"

definition intact :: "log_env \<Rightarrow> (cid \<Rightarrow> bytes) \<Rightarrow> seqno \<Rightarrow> segFiles \<Rightarrow> (cid \<times> bytes) list \<Rightarrow> bool" where
  "intact E content seq files bs \<longleftrightarrow> (\<exists>fresh j oprs k.
     distinct (map fst (bs @ fresh)) \<and> addressed content (bs @ fresh) \<and> car_ok (carE E) (bs @ fresh)
     \<and> length (hdr E) + length (frames (bs @ fresh)) < 2 ^ 63 \<and> (\<forall>opr \<in> set oprs. op_ok (Cast E) opr)
     \<and> fl_car files = Some (hdr E @ frames bs @ take j (frames fresh))
     \<and> fl_ops files = Some (take k (concat (map opRec oprs)))
     \<and> (\<forall>ix. fl_idx files = Some ix \<longrightarrow> fresh = [] \<and> index_of E seq bs ix))"

definition serves :: "log_env \<Rightarrow> (cid \<Rightarrow> bytes) \<Rightarrow> (cid \<times> bytes) list \<Rightarrow> Segment \<Rightarrow> bool" where
  "serves E content bs s \<longleftrightarrow> local_ok E content s \<and> (\<forall>c \<in> fst ` set bs. gm_get (sg_index s) c \<noteq> None)"

lemma holds_serves:
  assumes "holds E (bs @ rest) s" and "readable s" and "car_ok (carE E) (bs @ rest)" and "addressed content (bs @ rest)"
  shows "serves E content bs s"
proof -
  have "gm_get (sg_index s) c \<noteq> None" if "c \<in> fst ` set bs" for c
    using assms(1) that map_of_locOf_None [of "length (hdr E)" "bs @ rest" c] by (auto simp: holds_def map_of_eq_None_iff image_Un)
  then show ?thesis using assms by (auto simp: serves_def local_ok_def)
qed

lemma gm_get_puts: "distinct (map fst xs) \<Longrightarrow> gm_get (fold (\<lambda>(k, v). gm_put k (f v)) xs m) c =
   (case map_of xs c of Some v \<Rightarrow> Some (f v) | None \<Rightarrow> gm_get m c)"
proof (induction xs arbitrary: m)
  case (Cons x xs)
  have "fst x \<notin> fst ` set xs \<Longrightarrow> map_of xs (fst x) = None" by (simp add: map_of_eq_None_iff)
  then show ?case using Cons by (cases x) (auto split: option.splits)
qed simp

lemma load_serves:
  assumes "intact E content seq files bs" and "fl_idx files = Some ix" and "fl_car files = Some car"
  shows "\<exists>s. loadSealedFromIdx seq plane at (Some car) (fl_ops files) (fl_idx files) = Inr s \<and> serves E content bs s \<and> sg_seq s = seq"
proof -
  have car: "car = hdr E @ frames bs" and ix: "index_of E seq bs ix" and bs: "distinct (map fst bs)" "addressed content bs" "car_ok (carE E) bs"
    using assms by (auto simp: intact_def addressed_def car_ok_def)
  have d: "distinct (map fst (ix_Blocks ix))" and mo: "\<And>c. map_of (ix_Blocks ix) c = map_of (map locOf (framesAt (length (hdr E)) bs)) c"
    using ix by (auto simp: index_of_def)
  obtain s where s: "loadSealedFromIdx seq plane at (Some car) (fl_ops files) (fl_idx files) = Inr s" "sg_seq s = seq" "sg_car s = car"
      "sg_size s = length car" "\<not> sg_retired s" "sg_fdRO s"
      "sg_index s = fold (\<lambda>(c, loc). gm_put c loc) (ix_Blocks ix) gm_empty" "sg_seen s = fold (\<lambda>(c, _). gm_put c ()) (ix_Blocks ix) gm_empty"
    using assms(2) ix car by (auto simp: loadSealedFromIdx_def index_of_def newSegment_def)
  have "gm_get (sg_index s) c = map_of (map locOf (framesAt (length (hdr E)) bs)) c" for c
    using gm_get_puts [OF d, of "\<lambda>x. x" gm_empty c] mo by (simp add: s(7) split: option.splits)
  moreover have "gm_get (sg_seen s) c \<noteq> None \<longleftrightarrow> c \<in> fst ` set bs" for c
  proof -
    have "gm_get (sg_seen s) c \<noteq> None \<longleftrightarrow> map_of (map locOf (framesAt (length (hdr E)) bs)) c \<noteq> None"
      using gm_get_puts [OF d, of "\<lambda>_. ()" gm_empty c] mo by (simp add: s(8) split: option.splits)
    then show ?thesis unfolding map_of_locOf_None by (simp add: map_of_eq_None_iff)
  qed
  ultimately have "holds E (bs @ []) s" using s(3-5) bs(1) car by (simp add: holds_def)
  from holds_serves [OF this] show ?thesis using s bs by (auto simp: readable_def)
qed

lemma rebuild_serves:
  assumes "intact E content seq files bs" and "fl_car files = Some car"
  shows "\<exists>s. rebuildOpenFromDisk E seq plane car (fl_ops files) = Inr s \<and> serves E content bs s"
proof -
  obtain fresh j oprs k where i: "distinct (map fst (bs @ fresh))" "addressed content (bs @ fresh)" "car_ok (carE E) (bs @ fresh)"
      "length (hdr E) + length (frames (bs @ fresh)) < 2 ^ 63" "\<forall>opr \<in> set oprs. op_ok (Cast E) opr"
      "car = hdr E @ frames bs @ take j (frames fresh)" "fl_ops files = Some (take k (concat (map opRec oprs)))"
    using assms by (auto simp: intact_def)
  obtain s where s: "rebuildOpenFromDisk E seq plane car (fl_ops files) = Inr s" "holds E (bs @ fit frame j fresh) s" "appendable s"
    using rebuild_cut [OF i(1,3,4,5,6) refl, where k = k and seq = seq and plane = plane] i(7) by auto
  have "set (bs @ fit frame j fresh) \<subseteq> set (bs @ fresh)"
    using fit_prefix [of frame j fresh] set_take_subset [of "length (fit frame j fresh)" fresh] by auto
  then have "car_ok (carE E) (bs @ fit frame j fresh)" "addressed content (bs @ fit frame j fresh)"
    using i(2,3) by (auto simp: car_ok_def addressed_def)
  from holds_serves [OF s(2) _ this] show ?thesis using s by (auto simp: readable_def appendable_def)
qed

lemma serves_seal:
  assumes "serves E content bs s"
  shows "\<exists>s' m'. seg_seal E all_through now s m = ((s', None), m') \<and> serves E content bs s' \<and> journal m' = journal m"
  using seal_through [of E content s now m] assms unfolding serves_def by metis

lemma serves_marks:
  "serves E content bs s \<Longrightarrow> serves E content bs (s\<lparr> sg_opRoots := x \<rparr>)"
  "serves E content bs s \<Longrightarrow> serves E content bs (markShipped at s)"
  by (auto simp: serves_def local_ok_def holds_def readable_def markShipped_def)

section \<open>Recovery\<close>

datatype standing = Whole | Damaged

text \<open>What the start finds of a CAR: intact files that a sealed row can be read with, or a damaged CAR of a
  sealed row whose blocks are elsewhere.\<close>

definition found ::
  "log_env \<Rightarrow> (cid \<Rightarrow> bytes) \<Rightarrow> string \<Rightarrow> MemStore \<Rightarrow> (seqno \<Rightarrow> SegmentMeta option) \<Rightarrow> (seqno \<Rightarrow> bool) \<Rightarrow> (seqno \<Rightarrow> (cid \<times> bytes) list)
     \<Rightarrow> seqno \<Rightarrow> bytes \<Rightarrow> segFiles \<Rightarrow> standing \<Rightarrow> bool" where
  "found E content bucket m rows gone B seq car files st \<longleftrightarrow>
     (case st of
        Whole \<Rightarrow> intact E content seq files (B seq)
          \<and> (case rows seq of None \<Rightarrow> \<not> gone seq
              | Some row \<Rightarrow> seg_Seq row = seq \<and> (seg_State row = StateSealed \<longrightarrow> fl_idx files \<noteq> None \<or> carMatchesRow E car row))
      | Damaged \<Rightarrow> fl_idx files = None \<and> (\<exists>row. rows seq = Some row \<and> seg_Seq row = seq \<and> seg_State row = StateSealed
          \<and> \<not> carMatchesRow E car row \<and> (seg_ShippedAt row \<noteq> 0 \<or> seq \<in> set (JournalSegments bucket m))))"

lemma JournalSegments_same: "journal m' = journal m \<Longrightarrow> JournalSegments b m' = JournalSegments b m"
  by (simp add: JournalSegments_def)

lemma journal_frames [simp]:
  "journal (MarkSegmentSealed a b c d e f m) = journal m" "journal (RehydrateSegment r m) = journal m"
  "journal (InsertSegmentOpen a b' c' m) = journal m"
  by (simp_all add: MarkSegmentSealed_def RehydrateSegment_def InsertSegmentOpen_def split: option.split)

definition outcome_ok :: "log_env \<Rightarrow> (cid \<Rightarrow> bytes) \<Rightarrow> (cid \<times> bytes) list \<Rightarrow> standing \<Rightarrow> recovered \<Rightarrow> bool" where
  "outcome_ok E content bs st r \<longleftrightarrow>
     (case st of Whole \<Rightarrow> (\<exists>s. (r = SealedSeg s \<or> r = OpenSeg s) \<and> serves E content bs s) | Damaged \<Rightarrow> r = FilesGone)"

lemma sealedRow_ok:
  assumes "found E content (pl_bucket pl) m0 rows gone B seq car files st" and "journal m = journal m0" and "fl_car files = Some car"
    and "rows seq = Some row" and "seg_State row = StateSealed"
  shows "\<exists>m' r. sealedRow E now pl row car files m = Inr (m', r) \<and> journal m' = journal m
    \<and> outcome_ok E content (B seq) st (case r of None \<Rightarrow> FilesGone | Some s \<Rightarrow> SealedSeg s)"
proof (cases st)
  case Damaged
  then show ?thesis using assms JournalSegments_same [OF assms(2)]
    by (auto simp: found_def sealedRow_def loadSealedFromIdx_def outcome_ok_def Let_def)
next
  case Whole
  then have i: "intact E content seq files (B seq)" "seg_Seq row = seq" "fl_idx files \<noteq> None \<or> carMatchesRow E car row"
    using assms by (auto simp: found_def)
  show ?thesis
  proof (cases "fl_idx files")
    case (Some ix)
    then show ?thesis using load_serves [OF i(1) Some assms(3), of "pl_plane pl" "seg_ShippedAt row"] i(2) Whole
      by (auto simp: sealedRow_def outcome_ok_def Let_def)
  next
    case None
    obtain s where s: "rebuildOpenFromDisk E seq (pl_plane pl) car (fl_ops files) = Inr s" "serves E content (B seq) s"
      using rebuild_serves [OF i(1) assms(3)] by blast
    let ?s = "if seg_OpRoots row \<noteq> [] then s\<lparr> sg_opRoots := seg_OpRoots row \<rparr> else s"
    have "serves E content (B seq) ?s" using s(2) serves_marks by simp
    then obtain s' m' where s': "seg_seal E all_through now ?s m = ((s', None), m')" "serves E content (B seq) s'" "journal m' = journal m"
      using serves_seal by blast
    then show ?thesis using None i s Whole serves_marks(2) [OF s'(2)]
      by (auto simp: sealedRow_def loadSealedFromIdx_def outcome_ok_def Let_def)
  qed
qed

lemma recoverCar_ok:
  assumes "found E content (pl_bucket pl) m0 rows gone B seq car files st" and "journal m = journal m0" and "fl_car files = Some car"
  shows "\<exists>m' r. recoverCar E now pl rows gone seq car files m = Inr (m', r) \<and> journal m' = journal m0 \<and> outcome_ok E content (B seq) st r"
proof (cases "\<exists>row. rows seq = Some row \<and> seg_State row = StateSealed")
  case True
  then obtain row where row: "rows seq = Some row" "seg_State row = StateSealed" by blast
  obtain m' r where "sealedRow E now pl row car files m = Inr (m', r)" "journal m' = journal m"
      "outcome_ok E content (B seq) st (case r of None \<Rightarrow> FilesGone | Some s \<Rightarrow> SealedSeg s)"
    using sealedRow_ok [OF assms row] by blast
  then show ?thesis using row assms(2) by (simp add: recoverCar_def)
next
  case False
  then have st: "st = Whole" using assms(1) by (cases st) (auto simp: found_def)
  then have i: "intact E content seq files (B seq)" "rows seq = None \<Longrightarrow> \<not> gone seq" using assms(1) by (auto simp: found_def)
  obtain s where s: "rebuildOpenFromDisk E seq (pl_plane pl) car (fl_ops files) = Inr s" "serves E content (B seq) s"
    using rebuild_serves [OF i(1) assms(3)] by blast
  show ?thesis
  proof (cases "fl_idx files")
    case None
    then show ?thesis using s i False st assms(2)
      by (auto simp: recoverCar_def sealedFromIdx_def loadSealedFromIdx_def outcome_ok_def split: option.splits)
  next
    case (Some ix)
    from load_serves [OF i(1) Some assms(3), of "pl_plane pl" 0] show ?thesis using i False st assms(2)
      by (auto simp: recoverCar_def sealedFromIdx_def outcome_ok_def split: option.splits)
  qed
qed

lemma recoverCars_ok:
  assumes "\<forall>(seq, files) \<in> set dir. \<forall>car. fl_car files = Some car \<longrightarrow>
      found E content (pl_bucket pl) m0 rows gone B seq car files (St seq)" and "journal m = journal m0"
  shows "\<exists>m' rs. recoverCars E now pl rows gone dir m = Inr (m', rs) \<and> journal m' = journal m0
    \<and> map fst rs = map fst (filter (\<lambda>(_, files). fl_car files \<noteq> None) dir)
    \<and> (\<forall>(seq, r) \<in> set rs. outcome_ok E content (B seq) (St seq) r)"
  using assms
proof (induction dir arbitrary: m)
  case (Cons x dir)
  obtain seq files where x: "x = (seq, files)" by (cases x)
  show ?case
  proof (cases "fl_car files")
    case None
    then show ?thesis using Cons.IH [of m] Cons.prems x by simp
  next
    case (Some car)
    have "found E content (pl_bucket pl) m0 rows gone B seq car files (St seq)" using Cons.prems(1) x Some by simp
    then obtain m1 r where r: "recoverCar E now pl rows gone seq car files m = Inr (m1, r)" "journal m1 = journal m0"
        "outcome_ok E content (B seq) (St seq) r"
      using recoverCar_ok [OF _ Cons.prems(2) Some] by blast
    then show ?thesis using Cons.IH [of m1] Cons.prems(1) x Some by auto
  qed
qed simp

lemma sealAll_ok:
  "\<forall>s \<in> set ss. local_ok E content s \<Longrightarrow> \<exists>m' ss'. sealAll E now ss m = Inr (m', ss') \<and> journal m' = journal m
    \<and> (\<forall>s \<in> set ss'. local_ok E content s) \<and> map sg_index ss' = map sg_index ss"
proof (induction ss arbitrary: m)
  case (Cons s ss)
  obtain s' m' where s': "seg_seal E all_through now s m = ((s', None), m')" "local_ok E content s'" "sg_index s' = sg_index s" "journal m' = journal m"
    using seal_through [of E content s now m] Cons.prems by auto
  obtain m'' ss' where "sealAll E now ss m' = Inr (m'', ss')" "journal m'' = journal m'" "\<forall>s \<in> set ss'. local_ok E content s"
      "map sg_index ss' = map sg_index ss"
    using Cons.IH [of m'] Cons.prems by auto
  then show ?case using s' by simp
qed simp

text \<open>The segments that come out of the directory.\<close>

definition sealedOf :: "(seqno \<times> recovered) list \<Rightarrow> Segment list" where
  "sealedOf rs = concat (map (\<lambda>(seq, r). case r of SealedSeg s \<Rightarrow> [s] | _ \<Rightarrow> []) rs)"

definition opensOf :: "(seqno \<times> recovered) list \<Rightarrow> Segment list" where
  "opensOf rs = concat (map (\<lambda>(seq, r). case r of OpenSeg s \<Rightarrow> [s] | _ \<Rightarrow> []) rs)"

lemma recovered_mem:
  "s \<in> set (sealedOf rs) \<longleftrightarrow> (\<exists>seq. (seq, SealedSeg s) \<in> set rs)" "s \<in> set (opensOf rs) \<longleftrightarrow> (\<exists>seq. (seq, OpenSeg s) \<in> set rs)"
  by (force simp: sealedOf_def opensOf_def split: recovered.splits)+

lemma outcome_local:
  assumes "\<forall>(seq, r) \<in> set rs. outcome_ok E content (B seq) (St seq) r"
  shows "\<forall>s \<in> set (sealedOf rs @ opensOf rs). local_ok E content s"
proof
  fix s assume "s \<in> set (sealedOf rs @ opensOf rs)"
  then obtain seq r where "(seq, r) \<in> set rs" "r = SealedSeg s \<or> r = OpenSeg s" by (auto simp: recovered_mem)
  then show "local_ok E content s" using assms by (fastforce simp: outcome_ok_def serves_def split: standing.splits)
qed

lemma recover_result:
  assumes dir: "\<forall>(seq, files) \<in> set (gm_items dir). \<forall>car. fl_car files = Some car \<longrightarrow>
      found E content (pl_bucket pl) m (dbBySeq pl m) (isRetiredShipped pl m) B seq car files (St seq)"
    and jok: "journal_ok E content m"
  shows "\<exists>pl' m' rs. recover E now dir pl m = Inr (pl', m') \<and> pl_open pl' = pl_open pl
    \<and> map fst rs = map fst (filter (\<lambda>(_, files). fl_car files \<noteq> None) (gm_items dir))
    \<and> (\<forall>(seq, r) \<in> set rs. outcome_ok E content (B seq) (St seq) r)
    \<and> (\<forall>s \<in> set (pl_sealed pl'). exact E content s)
    \<and> (\<forall>s \<in> set (sealedOf rs @ opensOf rs). \<exists>s' \<in> set (pl_sealed pl'). sg_index s' = sg_index s)
    \<and> (\<forall>seq k row. seq \<in> set (JournalSegments (pl_bucket pl) m) \<longrightarrow> (\<forall>r. (seq, r) \<in> set rs \<longrightarrow> r = FilesGone) \<longrightarrow>
         jrow m seq k = Some row \<longrightarrow> (\<exists>s \<in> set (pl_sealed pl'). gm_get (sg_index s) k \<noteq> None))"
proof -
  obtain m1 rs where rs: "recoverCars E now pl (dbBySeq pl m) (isRetiredShipped pl m) (gm_items dir) m = Inr (m1, rs)" "journal m1 = journal m"
      "map fst rs = map fst (filter (\<lambda>(_, files). fl_car files \<noteq> None) (gm_items dir))"
      "\<forall>(seq, r) \<in> set rs. outcome_ok E content (B seq) (St seq) r"
    using recoverCars_ok [OF dir refl] by blast
  note loc = outcome_local [OF rs(4)]
  obtain m2 ss where ss: "sealAll E now (opensOf rs) m1 = Inr (m2, ss)" "journal m2 = journal m1" "\<forall>s \<in> set ss. local_ok E content s"
      "map sg_index ss = map sg_index (opensOf rs)"
    using sealAll_ok [of "opensOf rs" E content now m1] loc by auto
  let ?present = "map fst (filter (\<lambda>(seq, r). r \<noteq> FilesGone) rs)"
  have "journal_ok E content m2" using jok ss(2) rs(2) by (simp add: journal_ok_def)
  from rebuildFromJournal_ok [OF this] obtain m3 built where b: "rebuildFromJournal E now pl ?present m2 = Inr (m3, built)"
      "\<forall>s \<in> set built. exact E content s" "\<forall>seq k row. seq \<in> set (JournalSegments (pl_bucket pl) m) \<longrightarrow> seq \<notin> set ?present \<longrightarrow> jrow m seq k = Some row \<longrightarrow>
         (\<exists>s \<in> set built. gm_get (sg_index s) k \<noteq> None)"
    using ss(2) rs(2) JournalSegments_same [of m2 m] by fastforce
  define pl1 where "pl1 = pl\<lparr> pl_sealed := rev (sort_key sg_seq (sealedOf rs @ ss @ built)) \<rparr>"
  define pl2 where "pl2 = fold (\<lambda>s pl. if IsShipped s \<or> sg_retired s then pl else enqueueFlush (sg_seq s) pl) (pl_sealed pl1) pl1"
  have frame: "pl_sealed pl2 = pl_sealed pl1" "pl_open pl2 = pl_open pl1"
    unfolding pl2_def by (rule fold_frame, simp add: enqueueFlush_def)+
  have rec: "recover E now dir pl m = Inr (pl2, fold (orphanRow pl now ?present) (ListSegments (pl_plane pl) (pl_bucket pl) m) m3)"
    using rs(1) ss(1) b(1) by (simp add: recover_def Let_def sealedOf_def [symmetric] opensOf_def [symmetric] pl1_def pl2_def)
  have sealed: "set (pl_sealed pl2) = set (sealedOf rs) \<union> set ss \<union> set built" by (auto simp: frame pl1_def)
  have "\<exists>s' \<in> set (pl_sealed pl2). sg_index s' = sg_index s" if "s \<in> set (sealedOf rs @ opensOf rs)" for s
  proof (cases "s \<in> set (sealedOf rs)")
    case False
    then have "sg_index s \<in> set (map sg_index ss)" using that by (simp add: ss(4))
    then show ?thesis by (auto simp: sealed)
  qed (auto simp: sealed)
  moreover have "\<forall>s \<in> set (pl_sealed pl2). exact E content s" using loc ss(3) b(2) local_exact by (auto simp: sealed)
  moreover have "\<exists>s \<in> set (pl_sealed pl2). gm_get (sg_index s) k \<noteq> None"
    if "seq \<in> set (JournalSegments (pl_bucket pl) m)" "\<forall>r. (seq, r) \<in> set rs \<longrightarrow> r = FilesGone" "jrow m seq k = Some row" for seq k row
  proof -
    have "seq \<notin> set ?present" using that(2) by auto
    then show ?thesis using b(3) that unfolding sealed by blast
  qed
  moreover have "pl_open pl2 = pl_open pl" by (simp add: frame pl1_def)
  ultimately show ?thesis using rec rs(3,4) by blast
qed

text \<open>The outcome of recovery for each segment, read off the log it gives: a segment that was whole is there
  with its blocks, and a lost one with what the journal has.\<close>

lemma recovered_whole:
  assumes "\<forall>(seq, r) \<in> set rs. outcome_ok E content (B seq) (St seq) r" and "(seq, o') \<in> set rs" and "St seq = Whole"
    and "\<forall>s \<in> set (sealedOf rs @ opensOf rs). \<exists>s' \<in> set ss. sg_index s' = sg_index s" and "(c, d) \<in> set (B seq)"
  shows "\<exists>s \<in> set ss. gm_get (sg_index s) c \<noteq> None"
proof -
  have "outcome_ok E content (B seq) Whole o'" using assms(1-3) by auto
  then obtain s where o': "o' = SealedSeg s \<or> o' = OpenSeg s" "serves E content (B seq) s" by (auto simp: outcome_ok_def)
  then have "s \<in> set (sealedOf rs @ opensOf rs)" using assms(2) by (auto simp: recovered_mem)
  moreover have "gm_get (sg_index s) c \<noteq> None" using o'(2) assms(5) by (force simp: serves_def)
  ultimately show ?thesis using assms(4) by metis
qed

lemma journal_segment:
  assumes "gm_get (gm_inner (journal m) seq) k = Some row" and "jr_bucket row = bucket"
  shows "seq \<in> set (JournalSegments bucket m)"
proof -
  have "\<exists>rows. gm_get (journal m) seq = Some rows \<and> gm_get rows k = Some row"
    using assms(1) by (auto simp: gm_inner_def split: option.splits)
  then show ?thesis using assms(2) by (force simp: JournalSegments_def gm_get_iff_items list_ex_iff image_iff)
qed

lemma recovered_from_dir:
  assumes "map fst rs = map fst (filter (\<lambda>(_, files). fl_car files \<noteq> None) (gm_items dir))"
  shows "seq \<in> fst ` set rs \<longleftrightarrow> (\<exists>files. gm_get dir seq = Some files \<and> fl_car files \<noteq> None)"
proof -
  have "seq \<in> fst ` set rs \<longleftrightarrow> seq \<in> set (map fst (filter (\<lambda>(_, files). fl_car files \<noteq> None) (gm_items dir)))"
    using assms by (metis list.set_map)
  also have "\<dots> \<longleftrightarrow> (\<exists>files. (seq, files) \<in> set (gm_items dir) \<and> fl_car files \<noteq> None)" by (auto simp: image_iff)
  finally show ?thesis by (simp only: gm_get_iff_items)
qed


text \<open>The files of a segment that has not failed are intact.\<close>

lemma clean_index:
  "clean E bs s \<Longrightarrow> (sg_state s = StateOpen \<longrightarrow> sg_idx s = None \<and> \<not> sg_sealRecorded s) \<and> (sg_idxWritten s \<longrightarrow> sg_state s \<noteq> StateOpen)
    \<and> (\<forall>ix. sg_idx s = Some ix \<longrightarrow> index_of E (sg_seq s) bs ix)"
proof (induction rule: clean.induct)
  case (clean_create seq plane bucket m s m')
  then show ?case by (auto simp: createOpenSegment_def newSegment_def Let_def split: prod.splits)
next
  case (clean_append bs s blocks oprs io s')
  have "sg_idx (commitFresh f ps t) = sg_idx t" "sg_idxWritten (commitFresh f ps t) = sg_idxWritten t" for f ps t
    by (simp_all add: commitFresh_def Let_def commitBlock_def split_beta fold_frame [where f = sg_idx] fold_frame [where f = sg_idxWritten])
  then show ?case
    using clean_append seg_append_result [OF clean_append.hyps(4,3)] seg_append_open [OF clean_append.hyps(4)]
    by (simp add: commitFresh_frame appendable_def)
next
  case (clean_seal bs s io now m s' err m')
  have h: "holds E bs s" using clean_holds [OF clean_seal.hyps(1)] by blast
  then have "index_of E (sg_seq s) bs ix" if "ix_Seq ix = sg_seq s" "ix_Blocks ix = gm_items (sg_index s)" "ix_SizeByte ix = sg_size s" for ix
    using that by (simp add: index_of_def holds_def gm_get_map_of [symmetric])
  then show ?case using clean_seal
    by (auto simp: seg_seal_def freeze_def writeIdx_def Let_def split: if_splits option.splits prod.splits)
qed

lemma clean_intact:
  assumes "clean E bs s" and "addressed content bs" and "car_ok (carE E) bs" and "length (sg_car s) < 2 ^ 63"
  shows "intact E content (sg_seq s) \<lparr> fl_car = Some (sg_car s), fl_idx = sg_idx s, fl_ops = sg_ops s \<rparr> bs"
proof -
  have h: "holds E bs s" "ops_hold s" "\<forall>opr \<in> set (sg_opRoots s). op_ok (Cast E) opr" using clean_holds [OF assms(1)] by auto
  have "sg_car s = hdr E @ frames bs @ take 0 (frames [])" "distinct (map fst (bs @ []))" using h(1) by (auto simp: holds_def)
  moreover have "sg_ops s = Some (take (length (concat (map opRec (sg_opRoots s)))) (concat (map opRec (sg_opRoots s))))"
    using h(2) by (simp add: ops_hold_def)
  ultimately show ?thesis unfolding intact_def using assms clean_index [OF assms(1)] h(3)
    by (intro exI [of _ "[]"] exI [of _ 0] exI [of _ "sg_opRoots s"] exI [of _ "length (concat (map opRec (sg_opRoots s)))"]) auto
qed

definition demo_lost :: MemStore where
  "demo_lost = NewMemStore\<lparr> journal := gm_put 7 (gm_put ''A'' \<lparr> jr_bucket = ''photos'', jr_data = ''hello'', jr_at = 3 \<rparr> gm_empty) gm_empty \<rparr>"


end
