(* ===== verification/Log_Manager.thy ===== *)
theory Log_Manager
  imports Log_Restart
begin

text \<open>
  The log of all buckets (\<open>src/logstore/manager.go\<close>): one log per bucket over a shared metadata store,
  opened on first use; and what deleting a bucket releases. The directories are an argument, as the start
  finds them; the multihash encoding of a SHA-256 sum is a parameter.
\<close>

section \<open>State\<close>

record Manager =
  mg_catalog :: PlaneConfig
  mg_stores :: "(string, PlaneLog) gomap"
  mg_closed :: bool

type_synonym manager_state = "Manager \<times> MemStore"

definition validBucketDir :: "string \<Rightarrow> bool" where
  "validBucketDir bucket \<longleftrightarrow> \<not> (bucket = [] \<or> bucket = ''.'' \<or> bucket = ''..'' \<or> CHR ''/'' \<in> set bucket \<or> CHR 0x5C \<in> set bucket)"

text \<open>\<open>Open\<close> fills in the defaults of the template.\<close>

definition logFor ::
  "log_env \<Rightarrow> time \<Rightarrow> (string \<Rightarrow> segDir) \<Rightarrow> string \<Rightarrow> manager_state \<Rightarrow> log_error + manager_state \<times> PlaneLog" where
  "logFor E now dirs bucket st =
     (let (mg, m) = st
      in if \<not> validBucketDir bucket then Inl (LogErr ''invalid bucket name'')
         else if mg_closed mg then Inl (LogErr ''manager: closed'')
         else
           case gm_get (mg_stores mg) bucket of
             Some pl \<Rightarrow> Inr ((mg, m), pl)
           | None \<Rightarrow>
               bindE (openPlaneLog E now PlaneCatalog bucket (withDefaults (mg_catalog mg)) (dirs bucket) m) (\<lambda>(pl, m').
                 Inr ((mg\<lparr> mg_stores := gm_put bucket pl (mg_stores mg) \<rparr>, m'), pl)))"

definition mgr_AppendBatch ::
  "log_env \<Rightarrow> open_io \<Rightarrow> append_io \<Rightarrow> time \<Rightarrow> (string \<Rightarrow> segDir) \<Rightarrow> (cid \<times> bytes) list \<Rightarrow> OpRoot \<Rightarrow> manager_state
     \<Rightarrow> manager_state \<times> (log_error + seqno)" where
  "mgr_AppendBatch E oio aio now dirs blocks opRoot st =
     (if op_Bucket opRoot = [] then (st, Inl (LogErr ''AppendBatch: opRoot.Bucket must be set''))
      else
        case logFor E now dirs (op_Bucket opRoot) st of
          Inl e \<Rightarrow> (st, Inl e)
        | Inr ((mg, m), pl) \<Rightarrow>
            let ((pl', m'), r) = AppendBatch E oio aio now blocks opRoot (pl, m)
            in ((mg\<lparr> mg_stores := gm_put (op_Bucket opRoot) pl' (mg_stores mg) \<rparr>, m'), r))"

fun firstStore :: "log_env \<Rightarrow> cid \<Rightarrow> PlaneLog list \<Rightarrow> log_error + cid \<times> bytes" where
  "firstStore E c [] = Inl ErrBlockNotFound"
| "firstStore E c (pl # pls) =
     (case plane_Get E c pl of
        Inr blk \<Rightarrow> Inr blk
      | Inl e \<Rightarrow> if e = ErrBlockNotFound then firstStore E c pls else Inl e)"

definition mgr_Get :: "log_env \<Rightarrow> cid \<Rightarrow> Manager \<Rightarrow> log_error + cid \<times> bytes" where
  "mgr_Get E c mg = firstStore E c (map snd (gm_items (mg_stores mg)))"

definition mgr_Close :: "log_env \<Rightarrow> (string \<Rightarrow> seal_io) \<Rightarrow> time \<Rightarrow> manager_state \<Rightarrow> manager_state" where
  "mgr_Close E io now st =
     (let (mg, m) = st
      in if mg_closed mg then (mg, m)
         else (mg\<lparr> mg_closed := True, mg_stores := gm_empty \<rparr>,
               fold (\<lambda>(b, pl) m. snd (plane_Close E (io b) now (pl, m))) (gm_items (mg_stores mg)) m))"

text \<open>The store leaves the map and is closed; the next use opens it again.\<close>

definition QuiesceBucketLog :: "log_env \<Rightarrow> seal_io \<Rightarrow> time \<Rightarrow> string \<Rightarrow> manager_state \<Rightarrow> manager_state \<times> log_error option" where
  "QuiesceBucketLog E io now bucket st =
     (let (mg, m) = st
      in if \<not> validBucketDir bucket then ((mg, m), Some (LogErr ''invalid bucket name''))
         else
           case gm_get (mg_stores mg) bucket of
             None \<Rightarrow> ((mg, m), None)
           | Some pl \<Rightarrow>
               ((mg\<lparr> mg_stores := gm_del bucket (mg_stores mg) \<rparr>, snd (plane_Close E io now (pl, m))), None))"

section \<open>What a bucket's segments registered\<close>

definition registeredDigests :: "(bytes \<Rightarrow> string + multihash) \<Rightarrow> SegmentMeta \<Rightarrow> log_error + multihash list" where
  "registeredDigests enc r =
     (if seg_State r \<noteq> StateSealed \<or> seg_SHA256 r = [] then Inr []
      else
        case enc (seg_SHA256 r) of
          Inl e \<Rightarrow> Inl (LogErr e)
        | Inr carDigest \<Rightarrow>
            Inr (carDigest #
              (case seg_IndexDigest r of
                 Some d \<Rightarrow> if seg_ShippedAt r \<noteq> 0 \<and> d \<noteq> [] then [d] else []
               | None \<Rightarrow> [])))"

fun allDigests :: "(bytes \<Rightarrow> string + multihash) \<Rightarrow> SegmentMeta list \<Rightarrow> log_error + multihash list" where
  "allDigests enc [] = Inr []"
| "allDigests enc (r # rs) =
     bindE (registeredDigests enc r) (\<lambda>ds. bindE (allDigests enc rs) (\<lambda>rest. Inr (ds @ rest)))"

definition ShippedSegmentDigests :: "(bytes \<Rightarrow> string + multihash) \<Rightarrow> string \<Rightarrow> MemStore \<Rightarrow> log_error + multihash list" where
  "ShippedSegmentDigests enc bucket m = allDigests enc (ListSegments PlaneCatalog bucket m)"

text \<open>Releasing answers the digests handed to \<open>release\<close> that it took, in order, next to the outcome. The
  calls' outcomes come from a list, one per call: a call that has no entry left is one that never came
  back, and ends the run as an error does.\<close>

fun releaseDigests :: "multihash list \<Rightarrow> bool list \<Rightarrow> multihash list \<times> bool list \<times> bool" where
  "releaseDigests [] oks = ([], oks, True)"
| "releaseDigests (d # ds) (True # oks) = (let (done', oks', ok) = releaseDigests ds oks in (d # done', oks', ok))"
| "releaseDigests (d # ds) oks = ([], oks, False)"

fun releaseRows ::
  "(bytes \<Rightarrow> string + multihash) \<Rightarrow> SegmentMeta list \<Rightarrow> bool list \<Rightarrow> MemStore \<Rightarrow> MemStore \<times> multihash list \<times> log_error option" where
  "releaseRows enc [] oks m = (m, [], None)"
| "releaseRows enc (r # rs) oks m =
     (case registeredDigests enc r of
        Inl e \<Rightarrow> (m, [], Some e)
      | Inr digests \<Rightarrow>
          (case releaseDigests digests oks of
             (done', _, False) \<Rightarrow> (m, done', Some (LogErr ''release retired segment''))
           | (done', oks', True) \<Rightarrow>
               let (m', rest, err) = releaseRows enc rs oks' (DeleteSegment (seg_Plane r) (seg_Seq r) m)
               in (m', done' @ rest, err)))"

definition ReleaseRetiredSegments ::
  "(bytes \<Rightarrow> string + multihash) \<Rightarrow> string \<Rightarrow> bool list \<Rightarrow> MemStore \<Rightarrow> MemStore \<times> multihash list \<times> log_error option" where
  "ReleaseRetiredSegments enc bucket oks m = releaseRows enc (ListRetiredSegments PlaneCatalog bucket m) oks m"

definition RemoveBucketLog ::
  "log_env \<Rightarrow> seal_io \<Rightarrow> time \<Rightarrow> string \<Rightarrow> manager_state \<Rightarrow> manager_state \<times> log_error option" where
  "RemoveBucketLog E io now bucket st =
     (case QuiesceBucketLog E io now bucket st of
        (st', Some e) \<Rightarrow> (st', Some e)
      | ((mg, m), None) \<Rightarrow>
          let rows = ListSegments PlaneCatalog bucket m;
              retired = ListRetiredSegments PlaneCatalog bucket m
          in ((mg, fold (\<lambda>r. DeleteSegment (seg_Plane r) (seg_Seq r)) (rows @ retired) m), None))"

section \<open>Opening\<close>

definition maxSegmentSeq :: "segDir \<Rightarrow> seqno" where
  "maxSegmentSeq dir = fold (\<lambda>(seq, _). max seq) (gm_items dir) 0"

fun openAll :: "log_env \<Rightarrow> time \<Rightarrow> (string \<Rightarrow> segDir) \<Rightarrow> string list \<Rightarrow> manager_state \<Rightarrow> log_error + manager_state" where
  "openAll E now dirs [] st = Inr st"
| "openAll E now dirs (b # bs) st = bindE (logFor E now dirs b st) (\<lambda>(st', _). openAll E now dirs bs st')"

text \<open>The buckets with a directory, a segment row or a journaled block; \<open>onDisk\<close> lists the directories.\<close>

definition OpenManager ::
  "log_env \<Rightarrow> time \<Rightarrow> PlaneConfig \<Rightarrow> string list \<Rightarrow> (string \<Rightarrow> segDir) \<Rightarrow> MemStore \<Rightarrow> log_error + manager_state" where
  "OpenManager E now pc onDisk dirs m =
     (let maxSeq = fold (\<lambda>b. max (maxSegmentSeq (dirs b))) onDisk 0;
          m1 = (if maxSeq > 0 then EnsureSegmentSeqAbove maxSeq m else m);
          buckets = remdups (onDisk @ ListSegmentBuckets PlaneCatalog m1 @ JournalBuckets m1)
      in openAll E now dirs buckets (\<lparr> mg_catalog = pc, mg_stores = gm_empty, mg_closed = False \<rparr>, m1))"

section \<open>Reading across the buckets' logs\<close>

lemma firstHit_clean:
  assumes "\<forall>s \<in> set ss. seg_ok E content S s" and "(c, content c) \<notin> S"
  shows "firstHit E c ss \<in> {Inl ErrBlockNotFound, Inr (c, content c)}"
  using assms by (induction ss) (auto simp: seg_ok_get [where content = content and S = S])

lemma plane_Get_clean:
  assumes "plog E content A S pl m" and "(c, content c) \<notin> S"
  shows "plane_Get E c pl \<in> {Inl ErrBlockNotFound, Inr (c, content c)}"
  unfolding plane_Get_def using firstHit_clean [where content = content and S = S] plog_inv [OF assms(1)] assms(2)
  by (simp add: plog_inv_def)

lemma firstStore_finds:
  "\<forall>pl \<in> set pls. plane_Get E c pl \<in> {Inl ErrBlockNotFound, Inr (c, d)} \<Longrightarrow> pl \<in> set pls \<Longrightarrow> plane_Get E c pl = Inr (c, d) \<Longrightarrow>
   firstStore E c pls = Inr (c, d)"
  by (induction pls) auto

lemma mgr_Get_finds:
  assumes "\<forall>b pl. gm_get (mg_stores mg) b = Some pl \<longrightarrow> plog E content (A b) (S b) pl m" and "gm_get (mg_stores mg) b = Some pl"
    and "(c, d) \<in> A b" and "\<forall>b. (c, d) \<notin> S b"
  shows "mgr_Get E c mg = Inr (c, d)"
proof -
  have d: "d = content c" and get: "plane_Get E c pl = Inr (c, d)"
    using plog_inv_acked(1) [OF plog_inv assms(3)] plog_inv_get [OF plog_inv assms(3)] assms by blast+
  then have "\<forall>pl \<in> set (map snd (gm_items (mg_stores mg))). plane_Get E c pl \<in> {Inl ErrBlockNotFound, Inr (c, d)}"
    using plane_Get_clean assms(1,4) by (fastforce simp: gm_get_iff_items)
  moreover have "pl \<in> set (map snd (gm_items (mg_stores mg)))" using assms(2) by (force simp: gm_get_iff_items)
  ultimately show ?thesis unfolding mgr_Get_def using firstStore_finds get by blast
qed

lemma plog_AppendBatch:
  assumes "plog E content A S pl m" and "nextSeq m < - 1" and "distinct (map fst blocks)" and "addressed content blocks"
    and "car_ok (carE E) blocks" and "op_ok (Cast E) opRoot" and "AppendBatch E oio aio now blocks opRoot (pl, m) = ((pl', m'), Inr seq)"
  shows "plog E content (A \<union> set blocks) S pl' m'" and "nextSeq m \<le> nextSeq m'"
proof -
  have app: "plane_Append E oio aio now blocks [opRoot] (pl, m) = ((pl', m'), Inr seq)"
    using assms(7) by (simp add: AppendBatch_def split: if_splits)
  have "\<forall>opr \<in> set [opRoot]. op_ok (Cast E) opr" using assms(6) by simp
  from plog_append [OF assms(1-5) this app] show "plog E content (A \<union> set blocks) S pl' m'" .
  have "nextSeq m' \<in> {nextSeq m, nextSeq m + 1}" using app
    by (auto simp: plane_Append_def ensureOpenLockedAppMu_def NextSegmentSeq_def createOpenSegment_def InsertSegmentOpen_def Let_def
        split: sum.splits prod.splits option.splits if_splits)
  then show "nextSeq m \<le> nextSeq m'" using seq_up [OF assms(2)] by auto
qed

text \<open>What any bucket's log acknowledged is read through the manager: after a batch is appended to one
  bucket's log, a lookup that names no bucket finds every block of the batch and every block any open log
  had acknowledged, unless it has shipped.\<close>

theorem manager_serves:
  assumes "\<forall>b pl. gm_get (mg_stores mg) b = Some pl \<longrightarrow> plog E content (A b) (S b) pl m"
    and "gm_get (mg_stores mg) (op_Bucket opRoot) \<noteq> None" and "validBucketDir (op_Bucket opRoot)" and "\<not> mg_closed mg"
    and "nextSeq m < - 1" and "distinct (map fst blocks)" and "addressed content blocks"
    and "car_ok (car_env.truncate E) blocks" and "op_ok (Cast E) opRoot"
    and "mgr_AppendBatch E oio aio now dirs blocks opRoot (mg, m) = ((mg', m'), Inr seq)"
    and "(c, d) \<in> set blocks \<or> (\<exists>b pl. gm_get (mg_stores mg) b = Some pl \<and> (c, d) \<in> A b)" and "\<forall>b. (c, d) \<notin> S b"
  shows "mgr_Get E c mg' = Inr (c, d)"
proof -
  let ?b = "op_Bucket opRoot"
  obtain pl where pl: "gm_get (mg_stores mg) ?b = Some pl" using assms(2) by auto
  obtain pl' where ap: "AppendBatch E oio aio now blocks opRoot (pl, m) = ((pl', m'), Inr seq)"
      and mg': "mg' = mg\<lparr> mg_stores := gm_put ?b pl' (mg_stores mg) \<rparr>"
    using assms(3,4,10) pl by (auto simp: mgr_AppendBatch_def logFor_def Let_def split: if_splits prod.splits)
  note new = plog_AppendBatch [OF assms(1) [rule_format, OF pl] assms(5-9) ap]
  let ?A = "A(?b := A ?b \<union> set blocks)"
  have "plog E content (?A b) (S b) p m'" if "gm_get (mg_stores mg') b = Some p" for b p
    using that new assms(1) plog_meta [OF _ new(2)] by (auto simp: mg' split: if_splits)
  then have all: "\<forall>b p. gm_get (mg_stores mg') b = Some p \<longrightarrow> plog E content (?A b) (S b) p m'" by blast
  have "\<exists>b p. gm_get (mg_stores mg') b = Some p \<and> (c, d) \<in> ?A b"
    using assms(11) by (auto simp: mg') metis
  then show ?thesis using mgr_Get_finds [OF all _ _ assms(12)] by blast
qed

theorem manager_serves_witness:
  "\<exists>mg' m'. mgr_AppendBatch demo_log_env demo_open_io no_faults 5 (\<lambda>_. gm_empty) demo_blocks demo_root
       (\<lparr> mg_catalog = pl_pc demo_plane, mg_stores = gm_put ''photos'' demo_plane gm_empty, mg_closed = False \<rparr>, NewMemStore) = ((mg', m'), Inr 1)
     \<and> mgr_Get demo_log_env ''B'' mg' = Inr (''B'', ''world'')"
proof -
  let ?mg = "\<lparr> mg_catalog = pl_pc demo_plane, mg_stores = gm_put ''photos'' demo_plane gm_empty, mg_closed = False \<rparr>"
  obtain pl m where ap: "plane_Append demo_log_env demo_open_io no_faults 5 demo_blocks [demo_root] (demo_plane, NewMemStore) = ((pl, m), Inr 1)"
    using demo_append by blast
  have b: "op_Bucket demo_root = ''photos''" "cid_Defined (op_Root demo_root)" "validBucketDir ''photos''"
    by (simp_all add: demo_root_def cid_Defined_def cid_Undef_def validBucketDir_def)
  have r: "mgr_AppendBatch demo_log_env demo_open_io no_faults 5 (\<lambda>_. gm_empty) demo_blocks demo_root (?mg, NewMemStore)
      = ((?mg\<lparr> mg_stores := gm_put ''photos'' pl (mg_stores ?mg) \<rparr>, m), Inr 1)"
    using ap b by (simp add: mgr_AppendBatch_def logFor_def AppendBatch_def Let_def)
  have "plog demo_log_env demo_content {} {} demo_plane NewMemStore" unfolding demo_plane_def by (rule plog_new)
  then have p: "\<forall>b pl. gm_get (mg_stores ?mg) b = Some pl \<longrightarrow> plog demo_log_env demo_content {} {} pl NewMemStore" by simp
  have env: "nextSeq NewMemStore < - 1" "distinct (map fst demo_blocks)" "addressed demo_content demo_blocks"
      "car_ok (car_env.truncate demo_log_env) demo_blocks" "op_ok (Cast demo_log_env) demo_root"
    using demo_car_ok op_ok_demo by (auto simp: NewMemStore_def word_gt_0 demo_blocks_def addressed_def demo_content_def car_ok_def)
  have "mgr_Get demo_log_env ''B'' (?mg\<lparr> mg_stores := gm_put ''photos'' pl (mg_stores ?mg) \<rparr>) = Inr (''B'', ''world'')"
    by (rule manager_serves [OF p _ _ _ env r]) (use b in \<open>auto simp: demo_blocks_def\<close>)
  then show ?thesis using r by blast
qed

section \<open>Releasing a deleted bucket's segments\<close>

definition seg_keys :: "MemStore \<Rightarrow> bool" where
  "seg_keys m \<longleftrightarrow> (\<forall>k r. gm_get (segments m) k = Some r \<longrightarrow> seg_Seq r = k)"

lemma seg_keys_delete: "seg_keys m \<Longrightarrow> seg_keys (DeleteSegment p n m)"
  by (simp add: seg_keys_def DeleteSegment_def)

lemma listSegments_delete:
  assumes "seg_keys m"
  shows "listSegments p b x (DeleteSegment q n m) = filter (\<lambda>r. seg_Seq r \<noteq> n) (listSegments p b x m)"
proof -
  have "map snd (filter Q (AList.delete n xs)) = filter (\<lambda>r. seg_Seq r \<noteq> n) (map snd (filter Q xs))"
    if "\<forall>(k, r) \<in> set xs. seg_Seq r = k" for xs :: "(seqno \<times> SegmentMeta) list" and Q
    using that by (induction xs) auto
  moreover have "\<forall>(k, r) \<in> set (gm_items (segments m)). seg_Seq r = k"
    using assms by (auto simp: seg_keys_def gm_get_iff_items)
  ultimately show ?thesis
    by (simp add: listSegments_def gm_values_def DeleteSegment_def DAList.delete.rep_eq filter_sort)
qed

lemma listSegments_distinct: "seg_keys m \<Longrightarrow> distinct (map seg_Seq (listSegments p b x m))"
proof -
  assume k: "seg_keys m"
  have "map seg_Seq (map snd (filter Q xs)) = map fst (filter Q xs)" if "\<forall>(k, r) \<in> set xs. seg_Seq r = k"
    for xs :: "(seqno \<times> SegmentMeta) list" and Q
    using that by (induction xs) auto
  moreover have "\<forall>(k, r) \<in> set (gm_items (segments m)). seg_Seq r = k" using k by (auto simp: seg_keys_def gm_get_iff_items)
  ultimately have "distinct (map seg_Seq (gm_values (\<lambda>_ r. Q r) (segments m)))" for Q
    using distinct_map_filter [OF gm_distinct] unfolding gm_values_def by metis
  then show ?thesis by (simp add: listSegments_def distinct_map inj_on_def)
qed

lemma releaseDigests_spec:
  assumes "releaseDigests ds oks = (dn, oks', ok)"
  shows "\<exists>j. dn = take j ds" and "ok \<Longrightarrow> dn = ds"
proof -
  have "(\<exists>j. dn = take j ds) \<and> (ok \<longrightarrow> dn = ds)" using assms
  proof (induction ds oks arbitrary: dn rule: releaseDigests.induct)
    case (2 d ds oks)
    then obtain dn' where "releaseDigests ds oks = (dn', oks', ok)" "dn = d # dn'" by (auto split: prod.splits)
    with 2 show ?case by (metis take_Suc_Cons)
  qed (auto intro: exI [of _ 0])
  then show "\<exists>j. dn = take j ds" "ok \<Longrightarrow> dn = ds" by auto
qed

abbreviation deleteRows :: "SegmentMeta list \<Rightarrow> MemStore \<Rightarrow> MemStore" where
  "deleteRows rs m \<equiv> fold (\<lambda>r. DeleteSegment (seg_Plane r) (seg_Seq r)) rs m"

lemma releaseRows_spec:
  assumes "\<forall>r \<in> set rs. registeredDigests enc r = Inr (ds r)" and "releaseRows enc rs oks m = (m1, dn, err)"
  shows "\<exists>k j. k \<le> length rs \<and> m1 = deleteRows (take k rs) m \<and> (err = None \<longleftrightarrow> k = length rs)
    \<and> dn = concat (map ds (take k rs)) @ take j (concat (map ds (take 1 (drop k rs))))"
  using assms
proof (induction rs arbitrary: oks m m1 dn err)
  case (Cons r rs)
  obtain dn0 oks' ok where rd: "releaseDigests (ds r) oks = (dn0, oks', ok)" by (metis prod.exhaust)
  show ?case
  proof (cases ok)
    case False
    then have "m1 = m" "dn = dn0" "err \<noteq> None" using Cons.prems rd by auto
    moreover obtain j where "dn0 = take j (ds r)" using releaseDigests_spec(1) [OF rd] by blast
    ultimately show ?thesis by (intro exI [of _ 0] exI [of _ j]) simp
  next
    case True
    obtain dn1 where re: "releaseRows enc rs oks' (DeleteSegment (seg_Plane r) (seg_Seq r) m) = (m1, dn1, err)" "dn = ds r @ dn1"
      using Cons.prems rd True releaseDigests_spec(2) [OF rd] by (auto split: prod.splits)
    from Cons.IH [OF _ re(1)] Cons.prems(1) obtain k j where "k \<le> length rs" "m1 = deleteRows (take k rs) (DeleteSegment (seg_Plane r) (seg_Seq r) m)"
        "err = None \<longleftrightarrow> k = length rs" "dn1 = concat (map ds (take k rs)) @ take j (concat (map ds (take 1 (drop k rs))))" by auto
    then show ?thesis using re(2) by (intro exI [of _ "Suc k"] exI [of _ j]) simp
  qed
qed simp

lemma releaseDigests_all: "set oks \<subseteq> {True} \<Longrightarrow> length ds \<le> length oks \<Longrightarrow> releaseDigests ds oks = (ds, drop (length ds) oks, True)"
  by (induction ds oks rule: releaseDigests.induct) auto

lemma releaseRows_all:
  "\<forall>r \<in> set rs. registeredDigests enc r = Inr (ds r) \<Longrightarrow> set oks \<subseteq> {True} \<Longrightarrow> length (concat (map ds rs)) \<le> length oks \<Longrightarrow>
   releaseRows enc rs oks m = (deleteRows rs m, concat (map ds rs), None)"
proof (induction rs arbitrary: oks m)
  case (Cons r rs)
  have "set (drop (length (ds r)) oks) \<subseteq> {True}" using Cons.prems(2) set_drop_subset by fastforce
  then show ?case using Cons releaseDigests_all [of oks "ds r"] by simp
qed simp

lemma deleteRows_list:
  assumes "seg_keys m"
  shows "listSegments p b x (deleteRows rs m) = filter (\<lambda>r. seg_Seq r \<notin> seg_Seq ` set rs) (listSegments p b x m)"
  using assms
proof (induction rs arbitrary: m)
  case (Cons r rs)
  then show ?case
    by (simp add: listSegments_delete seg_keys_delete conj_commute)
qed simp

lemma filter_not_taken: "distinct (map f xs) \<Longrightarrow> filter (\<lambda>x. f x \<notin> f ` set (take k xs)) xs = drop k xs"
proof (induction xs arbitrary: k)
  case (Cons x xs)
  show ?case
  proof (cases k)
    case (Suc n)
    have "filter (\<lambda>y. f y \<noteq> f x \<and> Q y) xs = filter Q xs" for Q 
      using Cons.prems by (intro filter_cong) (auto dest: image_eqI [OF sym, of f])
    then show ?thesis using Suc Cons by simp
  qed simp
qed simp

text \<open>C40. Deleting a bucket resumes where it failed: a run that releases the blobs of the retired segments and
  is stopped by a failure has released, in order, all of the first segments' blobs and a part of the next
  one's, and has deleted exactly the rows of the segments it finished; a second run releases the blobs of
  the segments left, none of those finished, and leaves no row.\<close>

theorem ReleaseRetiredSegments_resumes:
  assumes "seg_keys m" and "rows = ListRetiredSegments PlaneCatalog bucket m"
    and "\<forall>r \<in> set rows. registeredDigests enc r = Inr (ds r)" and "ReleaseRetiredSegments enc bucket oks m = (m1, dn, err)"
    and "set oks' \<subseteq> {True}" and "length (concat (map ds rows)) \<le> length oks'"
  shows "\<exists>k j m2. k \<le> length rows \<and> (err = None \<longleftrightarrow> k = length rows)
    \<and> dn = concat (map ds (take k rows)) @ take j (concat (map ds (take 1 (drop k rows))))
    \<and> ListRetiredSegments PlaneCatalog bucket m1 = drop k rows
    \<and> ReleaseRetiredSegments enc bucket oks' m1 = (m2, concat (map ds (drop k rows)), None)
    \<and> ListRetiredSegments PlaneCatalog bucket m2 = []"
proof -
  have keep: "seg_keys (deleteRows rs m)" for rs
    by (rule fold_invariant [where P = seg_keys, OF assms(1)]) (rule seg_keys_delete)
  have dist: "distinct (map seg_Seq rows)" using listSegments_distinct [OF assms(1)] by (simp add: assms(2) ListRetiredSegments_def)
  obtain k j where k: "k \<le> length rows" "m1 = deleteRows (take k rows) m" "err = None \<longleftrightarrow> k = length rows"
      "dn = concat (map ds (take k rows)) @ take j (concat (map ds (take 1 (drop k rows))))"
    using releaseRows_spec [OF assms(3)] assms(2,4) unfolding ReleaseRetiredSegments_def by blast
  have left: "ListRetiredSegments PlaneCatalog bucket m1 = drop k rows"
    using deleteRows_list [OF assms(1)] filter_not_taken [OF dist] by (simp add: k(2) assms(2) ListRetiredSegments_def)
  have sub: "set (drop k rows) \<subseteq> set rows" by (rule set_drop_subset)
  have "length (concat (map ds (take k rows @ drop k rows))) \<le> length oks'" using assms(6) by simp
  then have "length (concat (map ds (drop k rows))) \<le> length oks'" by (simp del: append_take_drop_id)
  then have second: "ReleaseRetiredSegments enc bucket oks' m1 = (deleteRows (drop k rows) m1, concat (map ds (drop k rows)), None)"
    using releaseRows_all [of "drop k rows" enc ds oks' m1] sub assms(3,5) by (auto simp: ReleaseRetiredSegments_def left)
  have "ListRetiredSegments PlaneCatalog bucket (deleteRows (drop k rows) m1) = []"
    using deleteRows_list [of m1 PlaneCatalog bucket True "drop k rows"] keep left by (simp add: k(2) ListRetiredSegments_def filter_empty_conv)
  then show ?thesis using k left second by blast
qed

definition demo_row :: "seqno \<Rightarrow> bytes \<Rightarrow> SegmentMeta" where
  "demo_row n sha = \<lparr> seg_Seq = n, seg_Plane = PlaneCatalog, seg_Bucket = ''photos'', seg_State = StateSealed, seg_SealedAt = 1,
     seg_Size = 9, seg_SHA256 = sha, seg_ShippedAt = 0, seg_IndexDigest = None, seg_DeadBytes = 0, seg_RetiredAt = 3, seg_OpRoots = [] \<rparr>"

definition demo_retired :: MemStore where
  "demo_retired = NewMemStore\<lparr> segments := gm_put 1 (demo_row 1 ''x'') (gm_put 2 (demo_row 2 ''y'') gm_empty) \<rparr>"

theorem ReleaseRetiredSegments_resumes_witness:
  "\<exists>m1 dn m2 rest. ReleaseRetiredSegments Inr ''photos'' [True, False] demo_retired = (m1, dn, Some (LogErr ''release retired segment''))
     \<and> ReleaseRetiredSegments Inr ''photos'' [True, True] m1 = (m2, rest, None) \<and> ListRetiredSegments PlaneCatalog ''photos'' m2 = []"
proof -
  have rows: "ListRetiredSegments PlaneCatalog ''photos'' demo_retired = [demo_row 1 ''x'', demo_row 2 ''y'']"
    by (simp add: ListRetiredSegments_def listSegments_def gm_values_def demo_retired_def NewMemStore_def demo_row_def
        DAList.update.rep_eq DAList.empty.rep_eq word_le_nat_alt)
  have keys: "seg_keys demo_retired" by (simp add: seg_keys_def demo_retired_def demo_row_def)
  have dg: "registeredDigests Inr (demo_row n (a # sha)) = Inr [a # sha]" for n a sha by (simp add: registeredDigests_def demo_row_def)
  obtain m1 dn where r: "ReleaseRetiredSegments Inr ''photos'' [True, False] demo_retired = (m1, dn, Some (LogErr ''release retired segment''))"
    by (simp add: ReleaseRetiredSegments_def rows dg)
  have ds: "\<forall>r \<in> set [demo_row 1 ''x'', demo_row 2 ''y'']. registeredDigests Inr r = Inr [seg_SHA256 r]"
    using dg by (simp add: demo_row_def)
  show ?thesis
    using ReleaseRetiredSegments_resumes [OF keys rows [symmetric] ds r, of "[True, True]"] r by auto
qed

end
