(* ===== verification/Op_Staging.thy ===== *)
theory Op_Staging
  imports Ingot_Prelude
begin

text \<open>
  The per-operation staging buffer of \<open>src/blockstore/staging.go\<close>: it captures every block an S3
  operation writes, serves the operation's own writes back to it, and hands the batch to the log in
  first-write order. A block is the pair of its CID and its content; the underlying read tier and
  the log with its \<open>AppendBatch\<close> are arguments. The mutex makes each method atomic and leaves no trace.
\<close>

type_synonym 'b block = "cid \<times> 'b"

record 'b OpStaging =
  blocks :: "(cid, 'b) gomap"
  order :: "cid list"

datatype 'e staging_error = StagingUndefinedRoot | StagingAppend 'e

definition NewOpStaging :: "'b OpStaging" where
  "NewOpStaging = \<lparr> blocks = gm_empty, order = [] \<rparr>"

definition staging_Get :: "(cid \<Rightarrow> 'e + 'b) \<Rightarrow> 'b OpStaging \<Rightarrow> cid \<Rightarrow> 'e + 'b" where
  "staging_Get underlying b c =
     (case gm_get (blocks b) c of Some blk \<Rightarrow> Inr blk | None \<Rightarrow> underlying c)"

definition staging_Put :: "'b block \<Rightarrow> 'b OpStaging \<Rightarrow> 'b OpStaging" where
  "staging_Put blk b =
     (let (key, content) = blk
      in if gm_get (blocks b) key \<noteq> None then b
         else b\<lparr> blocks := gm_put key content (blocks b), order := order b @ [key] \<rparr>)"

text \<open>\<open>b.blocks[...]\<close> of a missing key would be a nil block; the invariant below says it never is.\<close>

definition staging_batch :: "'b OpStaging \<Rightarrow> 'b option block list" where
  "staging_batch b = map (\<lambda>c. (c, gm_get (blocks b) c)) (order b)"

definition staging_Commit ::
  "('b option block list \<Rightarrow> cid \<Rightarrow> 's \<Rightarrow> 's \<times> ('e + 'seg)) \<Rightarrow> cid \<Rightarrow> 'b OpStaging \<Rightarrow> 's
   \<Rightarrow> 's \<times> ('e staging_error + ('seg \<times> 'b option block list) \<times> 'b OpStaging)" where
  "staging_Commit AppendBatch root b log =
     (if \<not> cid_Defined root then (log, Inl StagingUndefinedRoot)
      else
        let cat = staging_batch b
        in case AppendBatch cat root log of
             (log', Inl err) \<Rightarrow> (log', Inl (StagingAppend err))
           | (log', Inr seg) \<Rightarrow> (log', Inr ((seg, cat), b\<lparr> blocks := gm_empty, order := [] \<rparr>)))"

definition staging_Discard :: "'b OpStaging \<Rightarrow> 'b OpStaging" where
  "staging_Discard b = b\<lparr> blocks := gm_empty, order := [] \<rparr>"

section \<open>The buffer's invariant\<close>

definition staging_ok :: "'b OpStaging \<Rightarrow> bool" where
  "staging_ok b \<longleftrightarrow> distinct (order b) \<and> (\<forall>c. c \<in> set (order b) \<longleftrightarrow> gm_get (blocks b) c \<noteq> None)"

lemma staging_ok_New: "staging_ok NewOpStaging"
  by (simp add: staging_ok_def NewOpStaging_def)

lemma staging_ok_Put: "staging_ok b \<Longrightarrow> staging_ok (staging_Put blk b)"
  by (cases blk) (auto simp: staging_ok_def staging_Put_def split: if_splits)

lemma staging_ok_Discard: "staging_ok (staging_Discard b)"
  by (simp add: staging_ok_def staging_Discard_def)

lemma staging_Get_Put:
  "staging_Get u (staging_Put (c, x) b) c' =
     (if c' = c \<and> gm_get (blocks b) c = None then Inr x else staging_Get u b c')"
  by (auto simp: staging_Get_def staging_Put_def)

lemma staging_batch_complete:
  assumes "staging_ok b"
  shows "map fst (staging_batch b) = order b" and "distinct (map fst (staging_batch b))"
    and "(c, Some x) \<in> set (staging_batch b) \<longleftrightarrow> gm_get (blocks b) c = Some x"
    and "(c, None) \<notin> set (staging_batch b)"
  using assms by (auto simp: staging_batch_def staging_ok_def comp_def)

end
