(* ===== verification/Block_Read.thy ===== *)
theory Block_Read
  imports Log_Manager Op_Staging
begin

text \<open>
  The read tiers of \<open>src/blockstore/layered.go\<close>: the local copies of body blobs, the log, then the base
  store (the network). A tier is a function of the space and the CID or digest; a tier that is nil, or
  that does not implement \<open>BlobReader\<close>, is \<open>None\<close>. The counters of reads per tier leave no trace. A
  stream is the bytes it would yield.

  What a reader of the log relies on is an interface (\<open>block_log\<close>), which the buckets' logs provide: an
  append that succeeds changes what is read exactly by the blocks of the batch.
\<close>

section \<open>Reading\<close>

type_synonym tier = "did \<Rightarrow> cid \<Rightarrow> log_error + cid \<times> bytes"

definition layered_GetBlock ::
  "tier option \<Rightarrow> (cid \<Rightarrow> log_error + cid \<times> bytes) option \<Rightarrow> tier \<Rightarrow> tier" where
  "layered_GetBlock local log base space c =
     (let below_log = base space c;
          below_local =
            (case log of
               None \<Rightarrow> below_log
             | Some get \<Rightarrow> (case get c of Inr b \<Rightarrow> Inr b | Inl e \<Rightarrow> if e \<noteq> ErrBlockNotFound then Inl e else below_log))
      in case local of
           None \<Rightarrow> below_local
         | Some get \<Rightarrow> (case get space c of Inr b \<Rightarrow> Inr b | Inl e \<Rightarrow> if e \<noteq> ErrBlockNotFound then Inl e else below_local))"

text \<open>A body blob is read by digest, from the local copy or the base only.\<close>

type_synonym blob_tier = "did \<Rightarrow> multihash \<Rightarrow> log_error + bytes"

definition layered_OpenBlob :: "blob_tier option \<Rightarrow> blob_tier option \<Rightarrow> blob_tier" where
  "layered_OpenBlob local base space digest =
     (let below = (case base of Some br \<Rightarrow> br space digest | None \<Rightarrow> Inl ErrBlockNotFound)
      in case local of
           None \<Rightarrow> below
         | Some br \<Rightarrow> (case br space digest of Inr rc \<Rightarrow> Inr rc | Inl e \<Rightarrow> if e \<noteq> ErrBlockNotFound then Inl e else below))"

text \<open>\<open>OpenBlobRangeOf\<close> of a tier with no ranged read: skip to \<open>start\<close>, then at most \<open>end - start + 1\<close>
  bytes. A file is sought, and a seek past its end is no error; a stream is skipped, and one that
  ends before \<open>start\<close> is an error.\<close>

definition rangeOfBlob :: "bool \<Rightarrow> int \<Rightarrow> int \<Rightarrow> bytes \<Rightarrow> log_error + bytes" where
  "rangeOfBlob seekable start stop rc =
     (if start > 0 \<and> \<not> seekable \<and> int (length rc) < start then Inl (LogErr ''skip into blob'')
      else Inr (take (nat (stop - start + 1)) (drop (nat start) rc)))"

record blob_reader =
  br_OpenBlob :: blob_tier
  br_OpenBlobRange :: "(int \<Rightarrow> int \<Rightarrow> blob_tier) option"
  br_seekable :: bool

definition OpenBlobRangeOf :: "blob_reader \<Rightarrow> int \<Rightarrow> int \<Rightarrow> blob_tier" where
  "OpenBlobRangeOf br start stop space digest =
     (case br_OpenBlobRange br of
        Some open_range \<Rightarrow> open_range start stop space digest
      | None \<Rightarrow> bindE (br_OpenBlob br space digest) (rangeOfBlob (br_seekable br) start stop))"

definition layered_OpenBlobRange :: "blob_reader option \<Rightarrow> blob_reader option \<Rightarrow> int \<Rightarrow> int \<Rightarrow> blob_tier" where
  "layered_OpenBlobRange local base start stop =
     layered_OpenBlob (map_option (\<lambda>br. OpenBlobRangeOf br start stop) local)
       (map_option (\<lambda>br. OpenBlobRangeOf br start stop) base)"

section \<open>What a reader relies on\<close>

text \<open>A tier that never answers a block with other bytes than its CID names, and does not fail.\<close>

definition true_to :: "(cid \<Rightarrow> bytes) \<Rightarrow> cid \<Rightarrow> log_error + cid \<times> bytes \<Rightarrow> bool" where
  "true_to content c r \<longleftrightarrow> r \<in> {Inl ErrBlockNotFound, Inr (c, content c)}"

locale block_log =
  fixes get :: "'s \<Rightarrow> cid \<Rightarrow> log_error + cid \<times> bytes"
    and append :: "(cid \<times> bytes) list \<Rightarrow> OpRoot \<Rightarrow> 's \<Rightarrow> 's \<times> (log_error + seqno)"
    and ok :: "'s \<Rightarrow> bool"
    and fits :: "(cid \<times> bytes) list \<Rightarrow> OpRoot \<Rightarrow> 's \<Rightarrow> bool"
    and content :: "cid \<Rightarrow> bytes"
  assumes get_true: "ok s \<Longrightarrow> true_to content c (get s c)"
    and append_ok: "ok s \<Longrightarrow> fits blks opr s \<Longrightarrow> append blks opr s = (s', Inr seq) \<Longrightarrow> ok s'"
    and append_get: "ok s \<Longrightarrow> fits blks opr s \<Longrightarrow> append blks opr s = (s', Inr seq) \<Longrightarrow>
      get s' c = (if c \<in> fst ` set blks then Inr (c, content c) else get s c)"
begin

lemma layered_append:
  assumes "ok s" and "fits blks opr s" and "append blks opr s = (s', Inr seq)"
    and "\<And>c f. local = Some f \<Longrightarrow> c \<in> fst ` set blks \<Longrightarrow> true_to content c (f space c)"
  shows "layered_GetBlock local (Some (get s')) base space c =
    (if c \<in> fst ` set blks then Inr (c, content c) else layered_GetBlock local (Some (get s)) base space c)"
proof (cases "c \<in> fst ` set blks")
  case True
  then have "get s' c = Inr (c, content c)" "local = Some f \<Longrightarrow> true_to content c (f space c)" for f
    using append_get [OF assms(1-3)] assms(4) by auto
  then show ?thesis using True by (auto simp: layered_GetBlock_def true_to_def Let_def split: option.split)
qed (simp add: layered_GetBlock_def append_get [OF assms(1-3)])

end

section \<open>The buckets' logs provide it\<close>

lemma plane_Get_append:
  assumes inv: "plog_inv E content A S pl m" and room: "nextSeq m < - 1" and blks: "distinct (map fst blks)" "addressed content blks" "car_ok (carE E) blks"
    and oprs: "\<forall>opr \<in> set oprs. op_ok (Cast E) opr"
    and app: "plane_Append E oio aio now blks oprs (pl, m) = ((pl', m'), Inr seq)"
  shows "plane_Get E c pl' = (if c \<in> fst ` set blks then Inr (c, content c) else plane_Get E c pl)"
proof (cases "blks = [] \<and> oprs = []")
  case True
  then show ?thesis using app by (simp add: plane_Append_def)
next
  case False
  obtain pl1 s s' where en: "ensureOpenLockedAppMu E oio now (pl, m) = ((pl1, m'), Inr s)"
    and ap: "seg_append aio blks oprs s = (s', None)" and pl': "segs pl' = s' # pl_sealed pl1"
    using app False by (auto simp: plane_Append_def segs_def requestSeal_def Let_def split: sum.splits prod.splits option.splits if_splits)
  note e = inv_ensureOpen [OF inv room en]
  have s: "appendable s" "ops_hold s" "local_ok E content s" using e(1,2) by (auto simp: plog_inv_def segs_def seg_ok_def)
  note a = local_ok_append [OF s(3,1,2) blks oprs ap]
  have "pl_open pl = Some s \<or> pl_open pl = None \<and> gm_get (sg_index s) c = None"
    using en by (auto simp: ensureOpenLockedAppMu_def createOpenSegment_def newSegment_def Let_def
        split: option.splits if_splits prod.splits sum.splits)
  then show ?thesis
    using a(6) [of c] local_ok_get [OF a(1)] local_ok_get [OF s(3)] e(3) pl' by (auto simp: plane_Get_def segs_def)
qed


text \<open>The state of the manager the readers rely on: every open log is in a state of \<open>plog\<close> and none of its
  reads fails (a shipped segment whose files could be unlinked only in part would). A batch fits when its
  blocks are well formed and addressed by content, the bucket's log is open and a segment number is left.\<close>

definition logs_ok :: "log_env \<Rightarrow> (cid \<Rightarrow> bytes) \<Rightarrow> manager_state \<Rightarrow> bool" where
  "logs_ok E content st \<longleftrightarrow> (\<forall>b pl. gm_get (mg_stores (fst st)) b = Some pl \<longrightarrow>
     (\<exists>A S. plog E content A S pl (snd st)) \<and> (\<forall>c. true_to content c (plane_Get E c pl)))"

definition batch_fits :: "log_env \<Rightarrow> (cid \<Rightarrow> bytes) \<Rightarrow> (cid \<times> bytes) list \<Rightarrow> OpRoot \<Rightarrow> manager_state \<Rightarrow> bool" where
  "batch_fits E content blks opr st \<longleftrightarrow> distinct (map fst blks) \<and> addressed content blks \<and> car_ok (carE E) blks \<and> op_ok (Cast E) opr
     \<and> nextSeq (snd st) < - 1 \<and> gm_get (mg_stores (fst st)) (op_Bucket opr) \<noteq> None"

lemma firstStore_true:
  "\<forall>pl \<in> set pls. true_to content c (plane_Get E c pl) \<Longrightarrow>
   firstStore E c pls = (if \<exists>pl \<in> set pls. plane_Get E c pl = Inr (c, content c) then Inr (c, content c) else Inl ErrBlockNotFound)"
  by (induction pls) (auto simp: true_to_def)

lemma mgr_Get_true:
  assumes "logs_ok E content st"
  shows "mgr_Get E c (fst st) = (if \<exists>b pl. gm_get (mg_stores (fst st)) b = Some pl \<and> plane_Get E c pl = Inr (c, content c)
    then Inr (c, content c) else Inl ErrBlockNotFound)"
proof -
  have "\<forall>pl \<in> set (map snd (gm_items (mg_stores (fst st)))). true_to content c (plane_Get E c pl)"
    using assms by (force simp: logs_ok_def gm_get_iff_items)
  from firstStore_true [OF this] show ?thesis unfolding mgr_Get_def gm_get_iff_items by (auto simp: Bex_def image_iff)
qed

lemma mgr_append:
  assumes "logs_ok E content st" and "batch_fits E content blks opr st" and "mgr_AppendBatch E oio aio now dirs blks opr st = (st', Inr seq)"
  obtains pl pl' where "gm_get (mg_stores (fst st)) (op_Bucket opr) = Some pl"
    and "fst st' = (fst st)\<lparr> mg_stores := gm_put (op_Bucket opr) pl' (mg_stores (fst st)) \<rparr>"
    and "\<And>c. plane_Get E c pl' = (if c \<in> fst ` set blks then Inr (c, content c) else plane_Get E c pl)"
    and "\<exists>A S. plog E content A S pl' (snd st')" and "nextSeq (snd st) \<le> nextSeq (snd st')"
proof -
  note fits = assms(2) [unfolded batch_fits_def]
  obtain pl A S where pl: "gm_get (mg_stores (fst st)) (op_Bucket opr) = Some pl" "plog E content A S pl (snd st)"
    using fits assms(1) unfolding logs_ok_def by blast
  obtain pl' where ap: "AppendBatch E oio aio now blks opr (pl, snd st) = ((pl', snd st'), Inr seq)"
      and mg': "fst st' = (fst st)\<lparr> mg_stores := gm_put (op_Bucket opr) pl' (mg_stores (fst st)) \<rparr>"
    using assms(3) pl(1) by (cases st) (auto simp: mgr_AppendBatch_def logFor_def Let_def split: if_splits prod.splits)
  have app: "plane_Append E oio aio now blks [opr] (pl, snd st) = ((pl', snd st'), Inr seq)"
    using ap by (simp add: AppendBatch_def split: if_splits)
  show thesis
  proof (rule that [OF pl(1) mg'])
    show "plane_Get E c pl' = (if c \<in> fst ` set blks then Inr (c, content c) else plane_Get E c pl)" for c
      by (rule plane_Get_append [OF plog_inv [OF pl(2)] _ _ _ _ _ app]) (use fits in auto)
    show "\<exists>A S. plog E content A S pl' (snd st')" "nextSeq (snd st) \<le> nextSeq (snd st')"
      using plog_AppendBatch [OF pl(2) _ _ _ _ _ ap] fits by blast+
  qed
qed

interpretation buckets_log: block_log "\<lambda>st c. mgr_Get E c (fst st)" "mgr_AppendBatch E oio aio now dirs"
    "logs_ok E content" "batch_fits E content" content
  for E oio aio now dirs content
proof
  show "true_to content c (mgr_Get E c (fst st))" if "logs_ok E content st" for st c
    by (simp add: mgr_Get_true [OF that] true_to_def)
  fix st st' :: manager_state and blks opr seq c
  assume h: "logs_ok E content st" "batch_fits E content blks opr st" "mgr_AppendBatch E oio aio now dirs blks opr st = (st', Inr seq)"
  obtain pl pl' where pl: "gm_get (mg_stores (fst st)) (op_Bucket opr) = Some pl"
      "fst st' = (fst st)\<lparr> mg_stores := gm_put (op_Bucket opr) pl' (mg_stores (fst st)) \<rparr>"
      "\<And>c. plane_Get E c pl' = (if c \<in> fst ` set blks then Inr (c, content c) else plane_Get E c pl)"
      "\<exists>A S. plog E content A S pl' (snd st')" "nextSeq (snd st) \<le> nextSeq (snd st')"
    using mgr_append [OF h] by blast
  show ok: "logs_ok E content st'"
    using h(1) pl plog_meta [OF _ pl(5)] unfolding logs_ok_def by (auto simp: true_to_def split: if_splits) blast+
  have "(\<exists>b p. gm_get (mg_stores (fst st')) b = Some p \<and> plane_Get E c p = Inr (c, content c)) \<longleftrightarrow>
      c \<in> fst ` set blks \<or> (\<exists>b p. gm_get (mg_stores (fst st)) b = Some p \<and> plane_Get E c p = Inr (c, content c))"
    using pl(1-3) by (auto split: if_splits) (metis option.inject)
  then show "mgr_Get E c (fst st') = (if c \<in> fst ` set blks then Inr (c, content c) else mgr_Get E c (fst st))"
    unfolding mgr_Get_true [OF h(1)] mgr_Get_true [OF ok] by simp
qed

end
