(* ===== verification/Mst.thy ===== *)
theory Mst
  imports Ingot_Prelude
begin

text \<open>
  The Merkle Search Tree of \<open>src/mst\<close>: its nodes, the lazily loaded view of a stored node, and
  every operation of \<open>mst.go\<close> and the key and node codec of \<open>mst_util.go\<close>, in the order of the
  code. The block reader (\<open>cst\<close>, with the tree's space fixed) and SHA-256 are parameters, carried
  in one record. Nothing here is proved; see \<open>Mst_Correct\<close> and the theories after it.

  A node is a value. Two things the Go does to a node in place are memoisation and leave no
  trace here: \<open>getEntries\<close> keeps the entries it loaded, \<open>attemptGetLayer\<close> keeps the layer of a
  child it computed. The layer \<open>Add\<close> computes for its own receiver is visible in the tree it
  returns (\<open>newTree\<close> copies it) and is modelled (\<open>with_layer\<close>). The entries are
  values too: a slice that shares its backing array with a node the caller still holds is outside
  the model.

  Recursion into subtrees is bounded by fuel: a subtree may be a block that is loaded on demand,
  so nothing structural decreases. \<open>Mst_Correct\<close> shows that fuel above the tree's layer is
  enough, and that a layer is at most 128.
\<close>

unbundle bit_operations_syntax

section \<open>Errors and stored nodes\<close>

text \<open>Errors the package returns, and the panics it can raise. Wrapping with \<open>%w\<close> keeps
  \<open>errors.Is\<close>, so a wrapped error is the error itself.\<close>

datatype mst_error =
    ErrNotFound
  | ErrAlreadyExists
  | ErrStopWalk
  | ErrInvalidKey
  | ErrUndefCid
  | ErrNoEntriesOrPointer
  | ErrTwoSubtrees
  | ErrDifferentLayers
  | ErrEqualLeaves
  | ErrOther string
  | Panic string
  | OutOfFuel

record TreeEntry =
  PrefixLen :: int
  KeySuffix :: bytes
  Val :: cid
  TreePtr :: "cid option"

record NodeData =
  Left :: "cid option"
  Entries :: "TreeEntry list"

record mst_env =
  sha256_Sum256 :: "bytes \<Rightarrow> 8 word list"
  cst_Get :: "cid \<Rightarrow> mst_error + NodeData"

section \<open>In-memory nodes\<close>

text \<open>\<open>entries\<close> is \<open>None\<close> (Go's nil) until the node is hydrated. A \<open>nodeEntry\<close> whose \<open>Kind\<close> is
  \<open>entryUndefined\<close> is what \<open>atIndex\<close> returns out of range. A tree entry carries the key of the
  leaf before it when it was decoded from a block, and the empty key otherwise.\<close>

datatype mst = MST (entries: "nodeEntry list option") (layer: int) (pointer: cid) (validPtr: bool)
  and nodeEntry = entryUndefined | entryLeaf (Key: bytes) (LeafVal: cid)
    | entryTree (Key: bytes) (Tree: mst)

definition mkTreeEntry :: "mst \<Rightarrow> nodeEntry" where
  "mkTreeEntry t = entryTree [] t"

fun isTree :: "nodeEntry \<Rightarrow> bool" where
  "isTree (entryTree _ _) = True"
| "isTree _ = False"

fun isLeaf :: "nodeEntry \<Rightarrow> bool" where
  "isLeaf (entryLeaf _ _) = True"
| "isLeaf _ = False"

fun isUndefined :: "nodeEntry \<Rightarrow> bool" where
  "isUndefined entryUndefined = True"
| "isUndefined _ = False"

fun adjacentTrees :: "nodeEntry list \<Rightarrow> bool" where
  "adjacentTrees (a # b # es) = (isTree a \<and> isTree b \<or> adjacentTrees (b # es))"
| "adjacentTrees _ = False"

definition checkTreeInvariant :: "nodeEntry list \<Rightarrow> mst_error + unit" where
  "checkTreeInvariant ents =
     (if adjacentTrees ents then Inl (Panic ''two trees next to each other!'') else Inr ())"

definition createMST :: "cid \<Rightarrow> nodeEntry list option \<Rightarrow> int \<Rightarrow> mst" where
  "createMST ptr ents l = MST ents l ptr (cid_Defined ptr)"

definition NewEmptyMST :: mst where
  "NewEmptyMST = createMST cid_Undef (Some []) 0"

definition LoadMST :: "cid \<Rightarrow> mst" where
  "LoadMST root = createMST root None (-1)"

definition newTree :: "mst \<Rightarrow> nodeEntry list \<Rightarrow> mst" where
  "newTree t ents = createMST cid_Undef (Some ents) (layer t)"

definition with_layer :: "mst \<Rightarrow> int \<Rightarrow> mst" where
  "with_layer t l = MST (entries t) l (pointer t) (validPtr t)"

section \<open>Keys\<close>

definition MaxKeyBytes :: nat where
  "MaxKeyBytes = 1024"

text \<open>\<open>utf8.ValidString\<close>: the well-formed byte sequences of the Unicode standard.\<close>

definition in_range :: "nat \<Rightarrow> nat \<Rightarrow> nat \<Rightarrow> bool" where
  "in_range lo hi b \<longleftrightarrow> lo \<le> b \<and> b \<le> hi"

fun utf8_ValidBytes :: "nat list \<Rightarrow> bool" where
  "utf8_ValidBytes [] = True"
| "utf8_ValidBytes (a # bs) =
     (if a < 128 then utf8_ValidBytes bs
      else if in_range 194 223 a then
        (case bs of b # bs' \<Rightarrow> in_range 128 191 b \<and> utf8_ValidBytes bs' | _ \<Rightarrow> False)
      else if in_range 224 239 a then
        (case bs of b # c # bs' \<Rightarrow>
            in_range (if a = 224 then 160 else 128) (if a = 237 then 159 else 191) b
            \<and> in_range 128 191 c \<and> utf8_ValidBytes bs'
          | _ \<Rightarrow> False)
      else if in_range 240 244 a then
        (case bs of b # c # d # bs' \<Rightarrow>
            in_range (if a = 240 then 144 else 128) (if a = 244 then 143 else 191) b
            \<and> in_range 128 191 c \<and> in_range 128 191 d \<and> utf8_ValidBytes bs'
          | _ \<Rightarrow> False)
      else False)"

definition utf8_ValidString :: "bytes \<Rightarrow> bool" where
  "utf8_ValidString s = utf8_ValidBytes (map of_char s)"

definition IsValidKey :: "bytes \<Rightarrow> bool" where
  "IsValidKey s =
     (if length s = 0 \<or> length s > MaxKeyBytes then False
      else if \<not> utf8_ValidString s then False
      else if CHR 0x00 \<in> set s then False
      else True)"

definition ensureValidKey :: "bytes \<Rightarrow> mst_error + unit" where
  "ensureValidKey s = (if IsValidKey s then Inr () else Inl ErrInvalidKey)"

text \<open>The layer of a key: the leading zero 2-bit groups of its SHA-256.\<close>

fun leadingZerosOfDigest :: "8 word list \<Rightarrow> nat" where
  "leadingZerosOfDigest [] = 0"
| "leadingZerosOfDigest (b # bs) =
     (if b AND 0xC0 \<noteq> 0 then 0
      else if b = 0 then 4 + leadingZerosOfDigest bs
      else if b AND 0xFC = 0 then 3
      else if b AND 0xF0 = 0 then 2
      else 1)"

definition leadingZerosOnHashBytes :: "mst_env \<Rightarrow> bytes \<Rightarrow> nat" where
  "leadingZerosOnHashBytes E key = leadingZerosOfDigest (sha256_Sum256 E key)"

definition leadingZerosOnHash :: "mst_env \<Rightarrow> bytes \<Rightarrow> nat" where
  "leadingZerosOnHash E key = leadingZerosOnHashBytes E key"

definition layerForEntries :: "mst_env \<Rightarrow> nodeEntry list \<Rightarrow> int" where
  "layerForEntries E ents =
     (case filter isLeaf ents of
        [] \<Rightarrow> - 1
      | firstLeaf # _ \<Rightarrow> int (leadingZerosOnHash E (Key firstLeaf)))"

section \<open>The node codec\<close>

fun countPrefixLen :: "bytes \<Rightarrow> bytes \<Rightarrow> nat" where
  "countPrefixLen (a # as) (b # bs) = (if a \<noteq> b then 0 else Suc (countPrefixLen as bs))"
| "countPrefixLen _ _ = 0"

text \<open>The entry loop of \<open>deserializeNodeData\<close>: \<open>lastKey[:e.PrefixLen]\<close> panics when the prefix
  length is negative or runs past the previous key.\<close>

fun deserializeEntries :: "int \<Rightarrow> bytes \<Rightarrow> TreeEntry list \<Rightarrow> mst_error + nodeEntry list" where
  "deserializeEntries l lastKey [] = Inr []"
| "deserializeEntries l lastKey (e # es) =
     (if PrefixLen e < 0 \<or> PrefixLen e > int (length lastKey)
      then Inl (Panic ''slice bounds out of range'')
      else
        let keyStr = take (nat (PrefixLen e)) lastKey @ KeySuffix e
        in bindE (ensureValidKey keyStr) (\<lambda>_.
           bindE (deserializeEntries l keyStr es) (\<lambda>rest.
             Inr (entryLeaf keyStr (Val e)
                  # (case TreePtr e of
                       None \<Rightarrow> []
                     | Some p \<Rightarrow> [entryTree keyStr (createMST p None (l - 1))])
                  @ rest))))"

definition deserializeNodeData :: "NodeData \<Rightarrow> int \<Rightarrow> mst_error + nodeEntry list" where
  "deserializeNodeData nd l =
     bindE (deserializeEntries l [] (Entries nd)) (\<lambda>rest.
       Inr ((case Left nd of
               None \<Rightarrow> []
             | Some p \<Rightarrow> [entryTree [] (createMST p None (l - 1))]) @ rest))"

definition entriesFromNodeData :: "mst_env \<Rightarrow> NodeData \<Rightarrow> mst_error + nodeEntry list" where
  "entriesFromNodeData E nd =
     deserializeNodeData nd
       (case Entries nd of
          [] \<Rightarrow> - 1
        | firstLeaf # _ \<Rightarrow> int (leadingZerosOnHashBytes E (KeySuffix firstLeaf)))"

section \<open>Lazy getters\<close>

definition getEntries :: "mst_env \<Rightarrow> mst \<Rightarrow> mst_error + nodeEntry list" where
  "getEntries E t =
     (case entries t of
        Some es \<Rightarrow> Inr es
      | None \<Rightarrow>
          if pointer t \<noteq> cid_Undef
          then bindE (cst_Get E (pointer t)) (entriesFromNodeData E)
          else Inl ErrNoEntriesOrPointer)"

text \<open>\<open>attemptGetLayer\<close> answers a negative number when the layer is unknown; its loop over the
  children stops at the first that knows its own.\<close>

fun firstChildLayer :: "(mst \<Rightarrow> mst_error + int) \<Rightarrow> nodeEntry list \<Rightarrow> mst_error + int option" where
  "firstChildLayer f [] = Inr None"
| "firstChildLayer f (e # es) =
     (case e of
        entryTree _ s \<Rightarrow>
          bindE (f s) (\<lambda>childLayer.
            if childLayer \<ge> 0 then Inr (Some childLayer) else firstChildLayer f es)
      | _ \<Rightarrow> firstChildLayer f es)"

fun attemptGetLayer :: "nat \<Rightarrow> mst_env \<Rightarrow> mst \<Rightarrow> mst_error + int" where
  "attemptGetLayer 0 E t = Inl OutOfFuel"
| "attemptGetLayer (Suc n) E t =
     (if layer t \<ge> 0 then Inr (layer t)
      else
        bindE (getEntries E t) (\<lambda>es.
          let l = layerForEntries E es
          in if l \<ge> 0 then Inr l
             else bindE (firstChildLayer (attemptGetLayer n E) es) (\<lambda>c.
                    case c of
                      Some childLayer \<Rightarrow> Inr (childLayer + 1)
                    | None \<Rightarrow> Inr (layer t))))"

definition getLayer :: "nat \<Rightarrow> mst_env \<Rightarrow> mst \<Rightarrow> mst_error + int" where
  "getLayer n E t = bindE (attemptGetLayer n E t) (\<lambda>l. Inr (if l < 0 then 0 else l))"

section \<open>Finding insertion points\<close>

fun findGeLeaf :: "bytes \<Rightarrow> nodeEntry list \<Rightarrow> nat" where
  "findGeLeaf key [] = 0"
| "findGeLeaf key (e # es) = (if isLeaf e \<and> Key e \<ge> key then 0 else Suc (findGeLeaf key es))"

definition findGtOrEqualLeafIndex :: "mst_env \<Rightarrow> mst \<Rightarrow> bytes \<Rightarrow> mst_error + int" where
  "findGtOrEqualLeafIndex E t key =
     bindE (getEntries E t) (\<lambda>es. Inr (int (findGeLeaf key es)))"

section \<open>Simple operations\<close>

text \<open>Slicing \<open>entries[:ix]\<close> or indexing \<open>nents[ix]\<close> out of range panics.\<close>

definition outOfRange :: "mst_error + 'a" where
  "outOfRange = Inl (Panic ''index out of range'')"

definition checkedTree :: "mst \<Rightarrow> nodeEntry list \<Rightarrow> mst_error + mst" where
  "checkedTree t nents = bindE (checkTreeInvariant nents) (\<lambda>_. Inr (newTree t nents))"

definition updateEntry :: "mst_env \<Rightarrow> mst \<Rightarrow> int \<Rightarrow> nodeEntry \<Rightarrow> mst_error + mst" where
  "updateEntry E t ix entry =
     bindE (getEntries E t) (\<lambda>es.
       if ix < 0 \<or> ix \<ge> int (length es) then outOfRange
       else checkedTree t (take (nat ix) es @ entry # drop (nat ix + 1) es))"

definition removeEntry :: "mst_env \<Rightarrow> mst \<Rightarrow> int \<Rightarrow> mst_error + mst" where
  "removeEntry E t ix =
     bindE (getEntries E t) (\<lambda>es.
       if ix < 0 \<or> ix \<ge> int (length es) then outOfRange
       else checkedTree t (take (nat ix) es @ drop (nat ix + 1) es))"

definition mst_append :: "mst_env \<Rightarrow> mst \<Rightarrow> nodeEntry \<Rightarrow> mst_error + mst" where
  "mst_append E t ent = bindE (getEntries E t) (\<lambda>es. checkedTree t (es @ [ent]))"

definition mst_prepend :: "mst_env \<Rightarrow> mst \<Rightarrow> nodeEntry \<Rightarrow> mst_error + mst" where
  "mst_prepend E t ent = bindE (getEntries E t) (\<lambda>es. checkedTree t (ent # es))"

definition atIndex :: "mst_env \<Rightarrow> mst \<Rightarrow> int \<Rightarrow> mst_error + nodeEntry" where
  "atIndex E t ix =
     bindE (getEntries E t) (\<lambda>es.
       if ix < 0 \<or> ix \<ge> int (length es) then Inr entryUndefined else Inr (es ! nat ix))"

definition spliceIn :: "mst_env \<Rightarrow> mst \<Rightarrow> nodeEntry \<Rightarrow> int \<Rightarrow> mst_error + mst" where
  "spliceIn E t entry ix =
     bindE (getEntries E t) (\<lambda>es.
       if ix < 0 \<or> ix > int (length es) then outOfRange
       else checkedTree t (take (nat ix) es @ entry # drop (nat ix) es))"

definition optTree :: "mst option \<Rightarrow> nodeEntry list" where
  "optTree t = (case t of None \<Rightarrow> [] | Some s \<Rightarrow> [mkTreeEntry s])"

definition replaceWithSplit ::
  "mst_env \<Rightarrow> mst \<Rightarrow> int \<Rightarrow> mst option \<Rightarrow> nodeEntry \<Rightarrow> mst option \<Rightarrow> mst_error + mst" where
  "replaceWithSplit E t ix left nl right =
     bindE (getEntries E t) (\<lambda>es.
     bindE (checkTreeInvariant es) (\<lambda>_.
       if ix < 0 \<or> ix \<ge> int (length es) then outOfRange
       else checkedTree t
              (take (nat ix) es @ optTree left @ nl # optTree right @ drop (nat ix + 1) es)))"

fun trimTop :: "nat \<Rightarrow> mst_env \<Rightarrow> mst \<Rightarrow> mst_error + mst" where
  "trimTop 0 E t = Inl OutOfFuel"
| "trimTop (Suc n) E t =
     bindE (getEntries E t) (\<lambda>es.
       case es of
         [entryTree _ s] \<Rightarrow> trimTop n E s
       | _ \<Rightarrow> Inr t)"

section \<open>Subtree splits and merges\<close>

definition nonEmpty :: "mst_env \<Rightarrow> mst \<Rightarrow> mst_error + mst option" where
  "nonEmpty E t =
     (case getEntries E t of
        Inl _ \<Rightarrow> Inl (Panic ''entryCount'')
      | Inr es \<Rightarrow> Inr (if length es = 0 then None else Some t))"

fun splitAround :: "nat \<Rightarrow> mst_env \<Rightarrow> mst \<Rightarrow> bytes \<Rightarrow> mst_error + (mst option \<times> mst option)" where
  "splitAround 0 E t key = Inl OutOfFuel"
| "splitAround (Suc n) E t key =
     bindE (findGtOrEqualLeafIndex E t key) (\<lambda>index.
     bindE (getEntries E t) (\<lambda>es.
       let leftData = take (nat index) es;
           rightData = drop (nat index) es;
           left = newTree t leftData;
           right = newTree t rightData
       in bindE
            (if length leftData > 0 \<and> isTree (last leftData) then
               bindE (removeEntry E left (int (length leftData) - 1)) (\<lambda>nleft.
               bindE (splitAround n E (Tree (last leftData)) key) (\<lambda>(subl, subr).
               bindE (case subl of
                        None \<Rightarrow> Inr nleft
                      | Some s \<Rightarrow> mst_append E nleft (mkTreeEntry s)) (\<lambda>left'.
               bindE (case subr of
                        None \<Rightarrow> Inr right
                      | Some s \<Rightarrow> mst_prepend E right (mkTreeEntry s)) (\<lambda>right'.
                 Inr (left', right')))))
             else Inr (left, right))
            (\<lambda>(left', right').
               bindE (nonEmpty E left') (\<lambda>l.
               bindE (nonEmpty E right') (\<lambda>r. Inr (l, r))))))"

text \<open>\<open>entries[len(entries)-1]\<close> and \<open>tomergeEnts[0]\<close> panic on an empty node.\<close>

fun appendMerge :: "nat \<Rightarrow> mst_env \<Rightarrow> mst \<Rightarrow> mst \<Rightarrow> mst_error + mst" where
  "appendMerge 0 E t omst = Inl OutOfFuel"
| "appendMerge (Suc n) E t omst =
     bindE (getLayer (Suc n) E t) (\<lambda>mylayer.
     bindE (getLayer (Suc n) E omst) (\<lambda>olayer.
       if mylayer \<noteq> olayer then Inl ErrDifferentLayers
       else
         bindE (getEntries E t) (\<lambda>es.
         bindE (getEntries E omst) (\<lambda>tomergeEnts.
           if es = [] \<or> tomergeEnts = [] then outOfRange
           else
             let lastInLeft = last es; firstInRight = hd tomergeEnts; t' = with_layer t mylayer
             in if isTree lastInLeft \<and> isTree firstInRight then
                  bindE (appendMerge n E (Tree lastInLeft) (Tree firstInRight)) (\<lambda>merged.
                    Inr (newTree t' (butlast es @ mkTreeEntry merged # tl tomergeEnts)))
                else Inr (newTree t' (es @ tomergeEnts))))))"

section \<open>Creating relatives\<close>

definition createChild :: "nat \<Rightarrow> mst_env \<Rightarrow> mst \<Rightarrow> mst_error + mst" where
  "createChild n E t =
     bindE (getLayer n E t) (\<lambda>l. Inr (createMST cid_Undef (Some []) (l - 1)))"

definition createParent :: "nat \<Rightarrow> mst_env \<Rightarrow> mst \<Rightarrow> mst_error + mst" where
  "createParent n E t =
     bindE (getLayer n E t) (\<lambda>l.
       Inr (createMST cid_Undef (Some [mkTreeEntry (with_layer t l)]) (l + 1)))"

section \<open>Core operations\<close>

definition optParent :: "nat \<Rightarrow> mst_env \<Rightarrow> mst option \<Rightarrow> mst_error + mst option" where
  "optParent n E t =
     (case t of None \<Rightarrow> Inr None | Some s \<Rightarrow> bindE (createParent n E s) (\<lambda>par. Inr (Some par)))"

text \<open>The loop \<open>for i := 1; i < extraLayersToAdd; i++\<close> that lifts both halves of a split root;
  the first argument counts the iterations left.\<close>

fun addParents ::
  "nat \<Rightarrow> nat \<Rightarrow> mst_env \<Rightarrow> mst option \<Rightarrow> mst option \<Rightarrow> mst_error + (mst option \<times> mst option)" where
  "addParents 0 n E left right = Inr (left, right)"
| "addParents (Suc i) n E left right =
     bindE (optParent n E left) (\<lambda>left'.
     bindE (optParent n E right) (\<lambda>right'. addParents i n E left' right'))"

fun mst_Add :: "nat \<Rightarrow> mst_env \<Rightarrow> mst \<Rightarrow> bytes \<Rightarrow> cid \<Rightarrow> int \<Rightarrow> mst_error + mst" where
  "mst_Add 0 E t key val knownZeros = Inl OutOfFuel"
| "mst_Add (Suc n) E t key val knownZeros =
     bindE (ensureValidKey key) (\<lambda>_.
       if val = cid_Undef then Inl ErrUndefCid
       else
         let keyZeros = (if knownZeros < 0 then int (leadingZerosOnHash E key) else knownZeros)
         in bindE (getLayer (Suc n) E t) (\<lambda>l.
            let t' = with_layer t l; newLeaf = entryLeaf key val
            in if keyZeros = l then
                 bindE (findGtOrEqualLeafIndex E t' key) (\<lambda>index.
                 bindE (atIndex E t' index) (\<lambda>found.
                   if isLeaf found \<and> Key found = key then Inl ErrAlreadyExists
                   else
                     bindE (atIndex E t' (index - 1)) (\<lambda>prevNode.
                       if isUndefined prevNode \<or> isLeaf prevNode then spliceIn E t' newLeaf index
                       else
                         bindE (splitAround n E (Tree prevNode) key) (\<lambda>(left, right).
                           replaceWithSplit E t' (index - 1) left newLeaf right))))
               else if keyZeros < l then
                 bindE (findGtOrEqualLeafIndex E t' key) (\<lambda>index.
                 bindE (atIndex E t' (index - 1)) (\<lambda>prevNode.
                   if \<not> isUndefined prevNode \<and> isTree prevNode then
                     bindE (mst_Add n E (Tree prevNode) key val keyZeros) (\<lambda>newSubtree.
                       updateEntry E t' (index - 1) (mkTreeEntry newSubtree))
                   else
                     bindE (createChild (Suc n) E t') (\<lambda>subTree.
                     bindE (mst_Add n E subTree key val keyZeros) (\<lambda>newSubTree.
                       spliceIn E t' (mkTreeEntry newSubTree) index))))
               else
                 bindE (splitAround (Suc n) E t' key) (\<lambda>(left, right).
                 bindE (getLayer (Suc n) E t') (\<lambda>l'.
                 bindE (addParents (nat (keyZeros - l') - 1) (Suc n) E left right) (\<lambda>(left', right').
                   let updated = optTree left' @ newLeaf # optTree right'
                   in bindE (checkTreeInvariant updated) (\<lambda>_.
                        Inr (createMST cid_Undef (Some updated) keyZeros)))))))"

fun mst_Get :: "nat \<Rightarrow> mst_env \<Rightarrow> mst \<Rightarrow> bytes \<Rightarrow> mst_error + cid" where
  "mst_Get 0 E t k = Inl OutOfFuel"
| "mst_Get (Suc n) E t k =
     bindE (findGtOrEqualLeafIndex E t k) (\<lambda>index.
     bindE (atIndex E t index) (\<lambda>found.
       if \<not> isUndefined found \<and> isLeaf found \<and> Key found = k then Inr (LeafVal found)
       else
         bindE (atIndex E t (index - 1)) (\<lambda>prev.
           if \<not> isUndefined prev \<and> isTree prev then mst_Get n E (Tree prev) k
           else Inl ErrNotFound)))"

fun mst_Update :: "nat \<Rightarrow> mst_env \<Rightarrow> mst \<Rightarrow> bytes \<Rightarrow> cid \<Rightarrow> mst_error + mst" where
  "mst_Update 0 E t k val = Inl OutOfFuel"
| "mst_Update (Suc n) E t k val =
     bindE (ensureValidKey k) (\<lambda>_.
       if val = cid_Undef then Inl ErrUndefCid
       else
         bindE (findGtOrEqualLeafIndex E t k) (\<lambda>index.
         bindE (atIndex E t index) (\<lambda>found.
           if \<not> isUndefined found \<and> isLeaf found \<and> Key found = k
           then updateEntry E t index (entryLeaf k val)
           else
             bindE (atIndex E t (index - 1)) (\<lambda>prev.
               if \<not> isUndefined prev \<and> isTree prev then
                 bindE (mst_Update n E (Tree prev) k val) (\<lambda>updatedTree.
                   updateEntry E t (index - 1) (mkTreeEntry updatedTree))
               else Inl ErrNotFound))))"

fun deleteRecurse :: "nat \<Rightarrow> mst_env \<Rightarrow> mst \<Rightarrow> bytes \<Rightarrow> mst_error + mst" where
  "deleteRecurse 0 E t k = Inl OutOfFuel"
| "deleteRecurse (Suc n) E t k =
     bindE (findGtOrEqualLeafIndex E t k) (\<lambda>ix.
     bindE (atIndex E t ix) (\<lambda>found.
       if isLeaf found \<and> Key found = k then
         bindE (atIndex E t (ix - 1)) (\<lambda>prev.
         bindE (atIndex E t (ix + 1)) (\<lambda>nxt.
           if isTree prev \<and> isTree nxt then
             bindE (appendMerge n E (Tree prev) (Tree nxt)) (\<lambda>merged.
             bindE (getEntries E t) (\<lambda>es.
               Inr (newTree t (take (nat (ix - 1)) es @ mkTreeEntry merged # drop (nat (ix + 2)) es))))
           else removeEntry E t ix))
       else
         bindE (atIndex E t (ix - 1)) (\<lambda>prev.
           if isTree prev then
             bindE (deleteRecurse n E (Tree prev) k) (\<lambda>subtree.
             bindE (getEntries E subtree) (\<lambda>subtreeEntries.
               if length subtreeEntries = 0 then removeEntry E t (ix - 1)
               else updateEntry E t (ix - 1) (mkTreeEntry subtree)))
           else Inl ErrNotFound)))"

definition mst_Delete :: "nat \<Rightarrow> mst_env \<Rightarrow> mst \<Rightarrow> bytes \<Rightarrow> mst_error + mst" where
  "mst_Delete n E t k = bindE (deleteRecurse n E t k) (trimTop n E)"

section \<open>Listing\<close>

text \<open>The callback threads a state and may return an error, \<open>ErrStopWalk\<close> among them. \<open>nocache\<close>
  only sets a field of the loop's own copy of an entry, so the two public walks read the same.\<close>

fun walkEntries ::
  "(mst \<Rightarrow> 's \<Rightarrow> 's \<times> mst_error option) \<Rightarrow> ('s \<Rightarrow> bytes \<Rightarrow> cid \<Rightarrow> 's \<times> mst_error option)
   \<Rightarrow> nodeEntry list \<Rightarrow> 's \<Rightarrow> 's \<times> mst_error option" where
  "walkEntries sub cb [] s = (s, None)"
| "walkEntries sub cb (e # es) s =
     (case (case e of
              entryLeaf k v \<Rightarrow> cb s k v
            | entryTree _ t \<Rightarrow> sub t s
            | entryUndefined \<Rightarrow> (s, Some (Panic ''nil pointer dereference''))) of
        (s', Some err) \<Rightarrow> (s', Some err)
      | (s', None) \<Rightarrow> walkEntries sub cb es s')"

fun walkLeavesFrom ::
  "nat \<Rightarrow> mst_env \<Rightarrow> mst \<Rightarrow> bytes \<Rightarrow> ('s \<Rightarrow> bytes \<Rightarrow> cid \<Rightarrow> 's \<times> mst_error option) \<Rightarrow> 's
   \<Rightarrow> 's \<times> mst_error option" where
  "walkLeavesFrom 0 E t from cb s = (s, Some OutOfFuel)"
| "walkLeavesFrom (Suc n) E t from cb s =
     (case getEntries E t of
        Inl err \<Rightarrow> (s, Some err)
      | Inr es \<Rightarrow>
          let index = findGeLeaf from es
          in case (if index > 0 \<and> isTree (es ! (index - 1))
                   then walkLeavesFrom n E (Tree (es ! (index - 1))) from cb s
                   else (s, None)) of
               (s', Some err) \<Rightarrow> (s', Some err)
             | (s', None) \<Rightarrow>
                 walkEntries (\<lambda>t s. walkLeavesFrom n E t from cb s) cb (drop index es) s')"

definition WalkLeavesFrom ::
  "nat \<Rightarrow> mst_env \<Rightarrow> mst \<Rightarrow> bytes \<Rightarrow> ('s \<Rightarrow> bytes \<Rightarrow> cid \<Rightarrow> 's \<times> mst_error option) \<Rightarrow> 's
   \<Rightarrow> 's \<times> mst_error option" where
  "WalkLeavesFrom n E t from cb s =
     (case walkLeavesFrom n E t from cb s of
        (s', Some ErrStopWalk) \<Rightarrow> (s', None)
      | r \<Rightarrow> r)"

end
