(* ===== verification/Mst_Correct.thy ===== *)
theory Mst_Correct
  imports Mst
begin

text \<open>
  What a (possibly unloaded) tree means, and that every operation of \<open>Mst\<close> computes on it what
  the corresponding operation on a sorted association list computes.
\<close>

section \<open>Sorted association lists\<close>

type_synonym kvs = "(bytes \<times> cid) list"

definition sorted_kvs :: "kvs \<Rightarrow> bool" where
  "sorted_kvs kvs = sorted_wrt (<) (map fst kvs)"

definition keys_lt :: "kvs \<Rightarrow> bytes \<Rightarrow> bool" where
  "keys_lt kvs k = (\<forall>p \<in> set kvs. fst p < k)"

definition keys_ge :: "kvs \<Rightarrow> bytes \<Rightarrow> bool" where
  "keys_ge kvs k = (\<forall>p \<in> set kvs. k \<le> fst p)"

definition keys_gt :: "kvs \<Rightarrow> bytes \<Rightarrow> bool" where
  "keys_gt kvs k = (\<forall>p \<in> set kvs. k < fst p)"

lemmas keys_defs = keys_lt_def keys_ge_def keys_gt_def

fun ins_kv :: "bytes \<Rightarrow> cid \<Rightarrow> kvs \<Rightarrow> kvs" where
  "ins_kv k v [] = [(k, v)]"
| "ins_kv k v ((k', v') # r) =
     (if k < k' then (k, v) # (k', v') # r
      else if k = k' then (k, v) # r
      else (k', v') # ins_kv k v r)"

definition del_kv :: "bytes \<Rightarrow> kvs \<Rightarrow> kvs" where
  "del_kv k kvs = filter (\<lambda>p. fst p \<noteq> k) kvs"

definition has_key :: "bytes \<Rightarrow> kvs \<Rightarrow> bool" where
  "has_key k kvs = (\<exists>v. (k, v) \<in> set kvs)"

lemma sorted_kvs_Nil [simp]: "sorted_kvs []"
  by (simp add: sorted_kvs_def)

lemma sorted_kvs_Cons:
  "sorted_kvs (p # r) \<longleftrightarrow> keys_gt r (fst p) \<and> sorted_kvs r"
  by (auto simp: sorted_kvs_def keys_gt_def)

lemma sorted_kvs_append:
  "sorted_kvs (a @ b) \<longleftrightarrow>
     sorted_kvs a \<and> sorted_kvs b \<and> (\<forall>p \<in> set a. \<forall>q \<in> set b. fst p < fst q)"
  by (auto simp: sorted_kvs_def sorted_wrt_append)

lemma keys_append [simp]:
  "keys_lt (a @ b) k \<longleftrightarrow> keys_lt a k \<and> keys_lt b k"
  "keys_ge (a @ b) k \<longleftrightarrow> keys_ge a k \<and> keys_ge b k"
  "keys_gt (a @ b) k \<longleftrightarrow> keys_gt a k \<and> keys_gt b k"
  "keys_lt [] k" "keys_ge [] k" "keys_gt [] k"
  by (auto simp: keys_defs)

lemma keys_Cons [simp]:
  "keys_lt (p # a) k \<longleftrightarrow> fst p < k \<and> keys_lt a k"
  "keys_ge (p # a) k \<longleftrightarrow> k \<le> fst p \<and> keys_ge a k"
  "keys_gt (p # a) k \<longleftrightarrow> k < fst p \<and> keys_gt a k"
  by (auto simp: keys_defs)

lemma keys_gt_mono: "keys_gt a k \<Longrightarrow> k' \<le> k \<Longrightarrow> keys_gt a k'"
  by (auto simp: keys_defs)

lemma keys_gt_imp_ge: "keys_gt a k \<Longrightarrow> keys_ge a k"
  by (auto simp: keys_defs)

lemma has_key_append [simp]: "has_key k (a @ b) \<longleftrightarrow> has_key k a \<or> has_key k b"
  by (auto simp: has_key_def)

lemma has_key_Cons [simp]: "has_key k (p # a) \<longleftrightarrow> fst p = k \<or> has_key k a"
  by (cases p) (auto simp: has_key_def)

lemma has_key_Nil [simp]: "\<not> has_key k []"
  by (simp add: has_key_def)

lemma has_key_map_of: "has_key k kvs \<longleftrightarrow> map_of kvs k \<noteq> None"
  by (induction kvs) auto

lemma not_has_key [simp]:
  "keys_lt a k \<Longrightarrow> \<not> has_key k a"
  "keys_gt a k \<Longrightarrow> \<not> has_key k a"
  by (auto simp: keys_defs has_key_def)

lemma map_of_outside [simp]:
  "keys_lt a k \<Longrightarrow> map_of a k = None"
  "keys_gt a k \<Longrightarrow> map_of a k = None"
  using has_key_map_of [of k a] not_has_key [of a k] by auto

lemma map_of_ins_kv: "sorted_kvs kvs \<Longrightarrow> map_of (ins_kv k v kvs) = (map_of kvs)(k \<mapsto> v)"
proof (induction kvs)
  case (Cons p r)
  then show ?case
    by (cases p) (auto simp: sorted_kvs_Cons fun_eq_iff)
qed simp

lemma map_of_del_kv: "map_of (del_kv k kvs) = (map_of kvs)(k := None)"
  by (induction kvs) (auto simp: del_kv_def)

lemma set_ins_kv: "sorted_kvs kvs \<Longrightarrow> set (ins_kv k v kvs) = insert (k, v) {p \<in> set kvs. fst p \<noteq> k}"
proof (induction kvs)
  case (Cons p r)
  then show ?case
    by (cases p, cases "k < fst p"; cases "k = fst p") (auto simp: sorted_kvs_Cons keys_defs)
qed simp

lemma set_del_kv: "set (del_kv k kvs) = {p \<in> set kvs. fst p \<noteq> k}"
  by (auto simp: del_kv_def)

lemma ins_kv_not_Nil [simp]: "ins_kv k v kvs \<noteq> []"
  by (cases kvs) (auto split: if_splits)

lemma sorted_ins_kv: "sorted_kvs kvs \<Longrightarrow> sorted_kvs (ins_kv k v kvs)"
proof (induction kvs)
  case (Cons p r)
  then show ?case
    by (cases p) (auto simp: sorted_kvs_Cons keys_gt_def set_ins_kv)
qed (simp add: sorted_kvs_Cons)

lemma sorted_del_kv: "sorted_kvs kvs \<Longrightarrow> sorted_kvs (del_kv k kvs)"
  unfolding sorted_kvs_def del_kv_def by (simp add: sorted_wrt_map sorted_wrt_filter)

lemma ins_kv_left: "keys_lt a k \<Longrightarrow> ins_kv k v (a @ b) = a @ ins_kv k v b"
  by (induction a) (auto split: prod.splits)

lemma ins_kv_right: "keys_gt b k \<Longrightarrow> ins_kv k v (a @ b) = ins_kv k v a @ b"
proof (induction a)
  case Nil
  then show ?case by (cases b) auto
qed (auto split: prod.splits)

lemma ins_kv_before: "keys_gt b k \<Longrightarrow> ins_kv k v b = (k, v) # b"
  using ins_kv_right [of b k v "[]"] by simp

lemma ins_kv_middle: "keys_lt a k \<Longrightarrow> keys_gt b k \<Longrightarrow> ins_kv k v (a @ c @ b) = a @ ins_kv k v c @ b"
  by (simp add: ins_kv_left ins_kv_right)

lemma del_kv_append [simp]: "del_kv k (a @ b) = del_kv k a @ del_kv k b"
  by (simp add: del_kv_def)

lemma del_kv_Cons [simp]: "del_kv k (p # a) = (if fst p = k then del_kv k a else p # del_kv k a)"
  by (simp add: del_kv_def)

lemma del_kv_outside [simp]:
  "keys_lt a k \<Longrightarrow> del_kv k a = a"
  "keys_gt a k \<Longrightarrow> del_kv k a = a"
  by (auto simp: del_kv_def keys_defs intro!: filter_True)

lemma sorted_mid:
  assumes "sorted_kvs (a @ (k, v) # b)"
  shows "keys_lt a k" and "keys_gt b k" and "sorted_kvs a" and "sorted_kvs b"
  using assms by (auto simp: sorted_kvs_append sorted_kvs_Cons keys_defs)

section \<open>What a tree means\<close>

text \<open>\<open>ents_rel P E l es kvs\<close>: the entries \<open>es\<close> of a node at layer \<open>l\<close> spell the pairs \<open>kvs\<close>
  in order: every leaf's key hashes to layer \<open>l\<close>, every subtree is non-empty and means its part
  of \<open>kvs\<close> by \<open>P\<close>, and no two subtrees are neighbours.\<close>

fun ents_rel :: "(mst \<Rightarrow> kvs \<Rightarrow> bool) \<Rightarrow> mst_env \<Rightarrow> nat \<Rightarrow> nodeEntry list \<Rightarrow> kvs \<Rightarrow> bool" where
  "ents_rel P E l [] kvs = (kvs = [])"
| "ents_rel P E l (entryUndefined # es) kvs = False"
| "ents_rel P E l (entryLeaf k v # es) kvs =
     (\<exists>r. kvs = (k, v) # r \<and> leadingZerosOnHash E k = l \<and> ents_rel P E l es r)"
| "ents_rel P E l (entryTree _ s # es) kvs =
     (\<exists>a b. kvs = a @ b \<and> a \<noteq> [] \<and> P s a \<and> (es = [] \<or> \<not> isTree (hd es)) \<and> ents_rel P E l es b)"

definition layer_ok :: "mst \<Rightarrow> nat \<Rightarrow> nodeEntry list \<Rightarrow> bool" where
  "layer_ok t l es \<longleftrightarrow> layer t = int l \<or> layer t < 0 \<and> (es \<noteq> [] \<or> l = 0)"

text \<open>\<open>node_ok l E t kvs\<close>: read through the store of \<open>E\<close>, the node \<open>t\<close> is a well-formed tree at
  layer \<open>l\<close> whose leaves, in order, are \<open>kvs\<close>; subtrees sit exactly one layer down; and a pointer
  marked valid is that of a stored node that means the same.\<close>

fun node_ok :: "nat \<Rightarrow> mst_env \<Rightarrow> mst \<Rightarrow> kvs \<Rightarrow> bool" where
  "node_ok 0 E t kvs =
     ((\<exists>es. getEntries E t = Inr es \<and> layer_ok t 0 es \<and> ents_rel (\<lambda>_ _. False) E 0 es kvs)
      \<and> (validPtr t \<longrightarrow>
           (\<exists>es. getEntries E (LoadMST (pointer t)) = Inr es \<and> ents_rel (\<lambda>_ _. False) E 0 es kvs)))"
| "node_ok (Suc l) E t kvs =
     ((\<exists>es. getEntries E t = Inr es \<and> layer_ok t (Suc l) es \<and> ents_rel (node_ok l E) E (Suc l) es kvs)
      \<and> (validPtr t \<longrightarrow>
           (\<exists>es. getEntries E (LoadMST (pointer t)) = Inr es \<and> ents_rel (node_ok l E) E (Suc l) es kvs)))"

definition sub_ok :: "nat \<Rightarrow> mst_env \<Rightarrow> mst \<Rightarrow> kvs \<Rightarrow> bool" where
  "sub_ok l E s kvs = (case l of 0 \<Rightarrow> False | Suc l' \<Rightarrow> node_ok l' E s kvs)"

definition ptr_ok :: "nat \<Rightarrow> mst_env \<Rightarrow> mst \<Rightarrow> kvs \<Rightarrow> bool" where
  "ptr_ok l E t kvs \<longleftrightarrow>
     (validPtr t \<longrightarrow> (\<exists>es. getEntries E (LoadMST (pointer t)) = Inr es \<and> ents_rel (sub_ok l E) E l es kvs))"

lemma sub_ok_simps [simp]: "sub_ok 0 E = (\<lambda>_ _. False)" "sub_ok (Suc l) E = node_ok l E"
  by (auto simp: sub_ok_def fun_eq_iff)

lemma node_ok_iff:
  "node_ok l E t kvs \<longleftrightarrow> ptr_ok l E t kvs \<and>
     (\<exists>es. getEntries E t = Inr es \<and> layer_ok t l es \<and> ents_rel (sub_ok l E) E l es kvs)"
  by (cases l) (auto simp: ptr_ok_def)

lemma ptr_ok_simps [simp]:
  "ptr_ok l E (newTree t es) kvs" "ptr_ok l E (createMST cid_Undef r lay) kvs"
  "ptr_ok l E (MST r lay p False) kvs" "ptr_ok l E NewEmptyMST kvs"
  "ptr_ok l E (with_layer t lay) kvs = ptr_ok l E t kvs"
  by (simp_all add: ptr_ok_def newTree_def createMST_def NewEmptyMST_def with_layer_def cid_Defined_def)

declare node_ok.simps [simp del]

definition ok_join :: "nodeEntry list \<Rightarrow> nodeEntry list \<Rightarrow> bool" where
  "ok_join xs ys \<longleftrightarrow> xs = [] \<or> ys = [] \<or> \<not> (isTree (last xs) \<and> isTree (hd ys))"

lemma ok_join_simps [simp]: "ok_join [] ys" "ok_join xs []"
  by (simp_all add: ok_join_def)

lemma ents_rel_append:
  "ents_rel P E l (xs @ ys) kvs \<longleftrightarrow>
     (\<exists>a b. kvs = a @ b \<and> ents_rel P E l xs a \<and> ents_rel P E l ys b \<and> ok_join xs ys)"
proof (induction xs arbitrary: kvs)
  case Nil
  then show ?case by simp
next
  case (Cons x xs)
  show ?case
  proof (cases x)
    case entryUndefined
    then show ?thesis by simp
  next
    case (entryLeaf k v)
    have "ok_join (x # xs) ys \<longleftrightarrow> ok_join xs ys"
      using entryLeaf by (auto simp: ok_join_def)
    then show ?thesis
      using entryLeaf Cons.IH by simp (metis append_Cons)
  next
    case (entryTree k s)
    show ?thesis
    proof (cases xs)
      case Nil
      then show ?thesis
        using entryTree by (auto simp: ok_join_def)
    next
      case (Cons x' xs')
      then have j: "ok_join (x # xs) ys \<longleftrightarrow> ok_join xs ys" and h: "hd (xs @ ys) = hd xs" "xs \<noteq> []"
        by (auto simp: ok_join_def)
      have "ents_rel P E l ((x # xs) @ ys) kvs \<longleftrightarrow>
          (\<exists>a c d. kvs = a @ c @ d \<and> a \<noteq> [] \<and> P s a \<and> \<not> isTree (hd xs)
            \<and> ents_rel P E l xs c \<and> ents_rel P E l ys d \<and> ok_join xs ys)"
        using entryTree h by (auto simp: Cons.IH)
      also have "\<dots> \<longleftrightarrow> (\<exists>a b. kvs = a @ b \<and> ents_rel P E l (x # xs) a \<and> ents_rel P E l ys b
          \<and> ok_join (x # xs) ys)"
        unfolding j using entryTree h by (auto simp del: append_assoc simp: append_assoc [symmetric])
      finally show ?thesis .
    qed
  qed
qed

lemma ents_rel_no_adjacent: "ents_rel P E l es kvs \<Longrightarrow> \<not> adjacentTrees es"
proof (induction es arbitrary: kvs rule: adjacentTrees.induct)
  case (1 a b es)
  then show ?case
    by (cases a; cases b) auto
qed auto

lemma ents_rel_checkTree: "ents_rel P E l es kvs \<Longrightarrow> checkTreeInvariant es = Inr ()"
  by (simp add: checkTreeInvariant_def ents_rel_no_adjacent)

lemma ents_rel_checkedTree: "ents_rel P E l es kvs \<Longrightarrow> checkedTree t es = Inr (newTree t es)"
  by (simp add: checkedTree_def ents_rel_checkTree)

lemma ents_rel_Nil_iff: "ents_rel P E l es [] \<longleftrightarrow> es = []"
  by (cases es rule: list.exhaust) (auto elim: ents_rel.elims)

lemma ents_rel_empty: "ents_rel P E l es kvs \<Longrightarrow> kvs = [] \<longleftrightarrow> es = []"
  using ents_rel_Nil_iff by fastforce

lemma ents_rel_leaf_layer:
  "ents_rel P E l es kvs \<Longrightarrow> e \<in> set es \<Longrightarrow> isLeaf e \<Longrightarrow> leadingZerosOnHash E (Key e) = l"
proof (induction es arbitrary: kvs)
  case (Cons x es)
  then show ?case by (cases x) auto
qed simp

lemma getEntries_newTree [simp]: "getEntries E (newTree t es) = Inr es"
  by (simp add: getEntries_def newTree_def createMST_def)

lemma getEntries_createMST_Some [simp]: "getEntries E (createMST p (Some es) l) = Inr es"
  by (simp add: getEntries_def createMST_def)

lemma getEntries_with_layer [simp]: "getEntries E (with_layer t l) = getEntries E t"
  by (simp add: getEntries_def with_layer_def split: option.split)

lemma layer_simps [simp]:
  "layer (newTree t es) = layer t"
  "layer (createMST p es' l) = l"
  "layer (with_layer t l) = l"
  by (simp_all add: newTree_def createMST_def with_layer_def)

lemma getEntries_empty_MST [simp]: "getEntries E NewEmptyMST = Inr []" "layer NewEmptyMST = 0"
  by (simp_all add: NewEmptyMST_def)

lemma node_ok_with_layer: "node_ok l E t kvs \<Longrightarrow> node_ok l E (with_layer t (int l)) kvs"
  by (auto simp: node_ok_iff layer_ok_def)

lemma node_ok_newTree:
  "node_ok l E (newTree t es) kvs \<longleftrightarrow> layer_ok t l es \<and> ents_rel (sub_ok l E) E l es kvs"
  by (simp add: node_ok_iff layer_ok_def)

lemma node_ok_NewEmptyMST: "node_ok 0 E NewEmptyMST []"
  by (simp add: node_ok_iff layer_ok_def)

section \<open>Layers\<close>

lemma layerForEntries_leaf:
  assumes "ents_rel P E l es kvs" and "filter isLeaf es \<noteq> []"
  shows "layerForEntries E es = int l"
proof -
  obtain e r where f: "filter isLeaf es = e # r"
    using assms(2) by (cases "filter isLeaf es") auto
  then have "e \<in> set (filter isLeaf es)" by simp
  then have "e \<in> set es" and "isLeaf e" by auto
  then show ?thesis
    using ents_rel_leaf_layer [OF assms(1)] f by (simp add: layerForEntries_def)
qed

lemma ents_rel_no_leaf:
  assumes "ents_rel P E l es kvs" and "filter isLeaf es = []" and "es \<noteq> []"
  obtains k s where "es = [entryTree k s]" and "P s kvs"
proof -
  obtain e r where es: "es = e # r" using assms(3) by (cases es) auto
  obtain k s where e: "e = entryTree k s"
    using assms es by (cases e) auto
  have "r = []"
  proof (rule ccontr)
    assume "r \<noteq> []"
    then obtain x r' where r: "r = x # r'" by (cases r) auto
    then show False using assms es e by (cases x) auto
  qed
  then show thesis
    using that assms es e by auto
qed

lemma attemptGetLayer_ok:
  "node_ok l E t kvs \<Longrightarrow> l < n \<Longrightarrow> kvs \<noteq> [] \<Longrightarrow> attemptGetLayer n E t = Inr (int l)"
proof (induction l arbitrary: n t)
  case 0
  then obtain m where n: "n = Suc m" by (cases n) auto
  from 0 obtain es where es: "getEntries E t = Inr es" "layer_ok t 0 es"
    "ents_rel (\<lambda>_ _. False) E 0 es kvs"
    by (auto simp: node_ok_iff)
  have "filter isLeaf es \<noteq> []"
    using es(3) 0(3) ents_rel_no_leaf [OF es(3)] by (cases "es = []") auto
  then have "layerForEntries E es = 0"
    using layerForEntries_leaf [OF es(3)] by simp
  then show ?case
    using es n by (auto simp: layer_ok_def)
next
  case (Suc l)
  then obtain m where n: "n = Suc m" and m: "l < m" by (cases n) auto
  from Suc.prems obtain es where es: "getEntries E t = Inr es" "layer_ok t (Suc l) es"
    "ents_rel (node_ok l E) E (Suc l) es kvs"
    by (auto simp: node_ok_iff)
  show ?case
  proof (cases "filter isLeaf es = []")
    case False
    then have "layerForEntries E es = int (Suc l)"
      using layerForEntries_leaf [OF es(3)] by blast
    then show ?thesis using es n by (auto simp: layer_ok_def)
  next
    case True
    moreover have "es \<noteq> []" using es(3) Suc.prems(3) by auto
    ultimately obtain k s where s: "es = [entryTree k s]" "node_ok l E s kvs"
      using ents_rel_no_leaf [OF es(3)] by blast
    then have "attemptGetLayer m E s = Inr (int l)"
      using Suc.IH m Suc.prems(3) by blast
    then show ?thesis
      using es n s by (auto simp: layer_ok_def layerForEntries_def)
  qed
qed

lemma getLayer_ok:
  assumes "node_ok l E t kvs" and "l < n"
  shows "getLayer n E t = Inr (int l)"
proof (cases "kvs = []")
  case False
  then show ?thesis using attemptGetLayer_ok [OF assms] by (simp add: getLayer_def)
next
  case True
  with assms obtain m where "n = Suc m" by (cases n) auto
  moreover have "getEntries E t = Inr []" and "layer_ok t l []"
    using assms(1) True by (auto simp: node_ok_iff ents_rel_Nil_iff)
  ultimately show ?thesis
    by (auto simp: getLayer_def layer_ok_def layerForEntries_def)
qed

text \<open>A digest of 32 bytes has at most 128 zero groups.\<close>

lemma leadingZerosOfDigest_le: "leadingZerosOfDigest bs \<le> 4 * length bs"
  by (induction bs) auto

definition sha_ok :: "mst_env \<Rightarrow> bool" where
  "sha_ok E \<longleftrightarrow> (\<forall>k. length (sha256_Sum256 E k) = 32)"

lemma leadingZerosOnHash_le: "sha_ok E \<Longrightarrow> leadingZerosOnHash E k \<le> 128"
  using leadingZerosOfDigest_le [of "sha256_Sum256 E k"]
  by (simp add: leadingZerosOnHash_def leadingZerosOnHashBytes_def sha_ok_def)

end
