(* ===== verification/Mst_Ops.thy ===== *)
theory Mst_Ops
  imports Mst_Correct
begin

text \<open>
  Correctness of the reading and writing operations of the Merkle Search Tree, by induction on
  the layer. Every operation first looks for the insertion point; \<open>find_split\<close> is the one case
  analysis they all share: the key falls either into a gap between two leaves of the node or into
  the subtree in front of the next leaf.
\<close>

section \<open>The insertion point\<close>

lemma findGeLeaf_le: "findGeLeaf k es \<le> length es"
  by (induction es) auto

lemma findGeLeaf_before: "e \<in> set (take (findGeLeaf k es) es) \<Longrightarrow> isLeaf e \<Longrightarrow> Key e < k"
proof (induction es)
  case (Cons x es)
  then show ?case by (auto simp: not_le split: if_splits)
qed simp

lemma findGeLeaf_after:
  "drop (findGeLeaf k es) es = [] \<or>
   (isLeaf (hd (drop (findGeLeaf k es) es)) \<and> k \<le> Key (hd (drop (findGeLeaf k es) es)))"
  by (induction es) auto

lemma ents_rel_last_leaf_lt:
  assumes "ents_rel P E l pre a" and "sorted_kvs a" and "pre \<noteq> []" and "isLeaf (last pre)"
    and "Key (last pre) < k"
  shows "keys_lt a k"
proof -
  obtain k' v' where last: "last pre = entryLeaf k' v'"
    using assms(4) by (cases "last pre") auto
  have "ents_rel P E l (butlast pre @ [last pre]) a"
    using assms(1,3) by simp
  then obtain a' where a: "a = a' @ [(k', v')]"
    unfolding ents_rel_append last by auto
  have "keys_lt a' k'" using assms(2) sorted_mid(1) [of a' k' v' "[]"] a by simp
  then show ?thesis
    using a last assms(5) by (auto simp: keys_defs)
qed

lemma ents_rel_hd_leaf_ge:
  assumes "ents_rel P E l post b" and "sorted_kvs b"
    and "post = [] \<or> isLeaf (hd post) \<and> k \<le> Key (hd post)"
  shows "keys_ge b k"
proof (cases post)
  case (Cons e r)
  then obtain k' v' where "e = entryLeaf k' v'" "k \<le> k'"
    using assms(3) by (cases e) auto
  then show ?thesis
    using assms(1,2) Cons by (force simp: sorted_kvs_Cons keys_defs)
qed (use assms in simp)

lemma ents_rel_last_kind:
  assumes "ents_rel P E l es a" and "es \<noteq> []"
  shows "isLeaf (last es) \<or> isTree (last es)"
proof -
  have "ents_rel P E l (butlast es @ [last es]) a" using assms by simp
  then show ?thesis unfolding ents_rel_append by (cases "last es") auto
qed

lemma find_split:
  assumes "ents_rel P E l es kvs" and "sorted_kvs kvs"
  obtains (gap) pre post a b where
      "es = pre @ post" "findGeLeaf k es = length pre" "kvs = a @ b"
      "ents_rel P E l pre a" "ents_rel P E l post b" "keys_lt a k" "keys_ge b k"
      "pre = [] \<or> isLeaf (last pre)" "post = [] \<or> isLeaf (hd post)"
    | (sub) pre tk s post a c b where
      "es = pre @ entryTree tk s # post" "findGeLeaf k es = Suc (length pre)" "kvs = a @ c @ b"
      "ents_rel P E l pre a" "P s c" "c \<noteq> []" "ents_rel P E l post b" "keys_lt a k" "keys_ge b k"
      "pre = [] \<or> isLeaf (last pre)" "post = [] \<or> isLeaf (hd post)"
proof -
  define i where "i = findGeLeaf k es"
  define pre0 where "pre0 = take i es"
  define post where "post = drop i es"
  have es: "es = pre0 @ post" by (simp add: pre0_def post_def)
  have len: "length pre0 = i" using findGeLeaf_le by (simp add: pre0_def i_def)
  obtain x b where kvs: "kvs = x @ b" and x: "ents_rel P E l pre0 x" and b: "ents_rel P E l post b"
    and j: "ok_join pre0 post"
    using assms(1) unfolding es ents_rel_append by blast
  have srt: "sorted_kvs x" "sorted_kvs b" using assms(2) kvs by (auto simp: sorted_kvs_append)
  have post_hd: "post = [] \<or> isLeaf (hd post) \<and> k \<le> Key (hd post)"
    using findGeLeaf_after [of k es] by (simp add: post_def i_def)
  then have bge: "keys_ge b k" using ents_rel_hd_leaf_ge [OF b srt(2)] by blast
  have lt: "isLeaf e \<Longrightarrow> e \<in> set pre0 \<Longrightarrow> Key e < k" for e
    using findGeLeaf_before [of e k es] by (simp add: pre0_def i_def)
  show thesis
  proof (cases "pre0 = [] \<or> isLeaf (last pre0)")
    case True
    then have "keys_lt x k"
      using ents_rel_last_leaf_lt [OF x srt(1)] lt x by (cases "pre0 = []") auto
    then show thesis
      using gap [of pre0 post x b] es len kvs x b bge post_hd True by (simp add: i_def) blast
  next
    case False
    then obtain tk s where s: "last pre0 = entryTree tk s"
      using ents_rel_last_kind [OF x] by (cases "last pre0") auto
    define pre where "pre = butlast pre0"
    have pre0: "pre0 = pre @ [entryTree tk s]"
      using False s by (metis append_butlast_last_id pre_def)
    obtain a c where ac: "x = a @ c" "ents_rel P E l pre a" "P s c" "c \<noteq> []"
      and jp: "ok_join pre [entryTree tk s]"
      using x unfolding pre0 ents_rel_append by auto
    have plast: "pre = [] \<or> isLeaf (last pre)"
      using jp ents_rel_last_kind [OF ac(2)] by (auto simp: ok_join_def)
    have "sorted_kvs a" using srt(1) ac(1) by (simp add: sorted_kvs_append)
    then have "keys_lt a k"
      using ents_rel_last_leaf_lt [OF ac(2)] lt pre0 plast ac(2) by (cases "pre = []") auto
    then show thesis
      using sub [of pre tk s post a c b] es len kvs pre0 ac b bge plast post_hd
      by (simp add: i_def) blast
  qed
qed

text \<open>What \<open>atIndex\<close> finds around the insertion point.\<close>

definition head_entry :: "nodeEntry list \<Rightarrow> nodeEntry" where
  "head_entry es = (case es of [] \<Rightarrow> entryUndefined | e # _ \<Rightarrow> e)"

definition last_entry :: "nodeEntry list \<Rightarrow> nodeEntry" where
  "last_entry es = (if es = [] then entryUndefined else last es)"

lemma head_entry_simps [simp]: "head_entry [] = entryUndefined" "head_entry (e # es) = e"
  by (simp_all add: head_entry_def)

lemma last_entry_simps [simp]: "last_entry [] = entryUndefined" "last_entry (es @ [e]) = e"
  by (simp_all add: last_entry_def)

lemma last_entry_not_tree: "pre = [] \<or> isLeaf (last pre) \<Longrightarrow> \<not> isTree (last_entry pre)"
  by (cases "last pre") (auto simp: last_entry_def)

lemma atIndex_split:
  assumes "getEntries E t = Inr (pre @ post)"
  shows "atIndex E t (int (length pre)) = Inr (head_entry post)"
    and "atIndex E t (int (length pre) - 1) = Inr (last_entry pre)"
proof -
  show "atIndex E t (int (length pre)) = Inr (head_entry post)"
    using assms by (cases post) (auto simp: atIndex_def)
  show "atIndex E t (int (length pre) - 1) = Inr (last_entry pre)"
  proof (cases "pre = []")
    case False
    then have "nat (int (length pre) - 1) = length pre - 1" and "0 < length pre" by auto
    with False show ?thesis
      using assms by (auto simp: atIndex_def nth_append last_conv_nth last_entry_def)
  qed (use assms in \<open>simp add: atIndex_def\<close>)
qed

lemma atIndex_after:
  assumes "getEntries E t = Inr (pre @ e # post)"
  shows "atIndex E t (int (length pre) + 1) = Inr (head_entry post)"
  using atIndex_split(1) [of E t "pre @ [e]" post] assms by (simp add: add.commute)

lemma isUndefined_not: "isUndefined e \<longleftrightarrow> \<not> isLeaf e \<and> \<not> isTree e"
  by (cases e) auto

lemma leaf_head:
  assumes "ents_rel P E l post b" and "post = [] \<or> isLeaf (hd post)" and "keys_ge b k" and "sorted_kvs b"
  obtains (absent) "keys_gt b k"
      "\<not> (isLeaf (head_entry post)
          \<and> Key (head_entry post) = k)"
    | (present) v post' b' where "post = entryLeaf k v # post'" "b = (k, v) # b'"
      "ents_rel P E l post' b'" "keys_gt b' k" "leadingZerosOnHash E k = l"
proof (cases post)
  case Nil
  then show ?thesis using assms absent by simp
next
  case (Cons e post')
  then obtain k' v' where e: "e = entryLeaf k' v'" using assms(2) by (cases e) auto
  then obtain b' where b: "b = (k', v') # b'" "ents_rel P E l post' b'" "leadingZerosOnHash E k' = l"
    using assms(1) Cons by auto
  have gt: "keys_gt b' k'" using assms(4) b by (simp add: sorted_kvs_Cons)
  show ?thesis
  proof (cases "k' = k")
    case True
    then show ?thesis using present Cons e b gt by auto
  next
    case False
    then have "k < k'" using assms(3) b by auto
    then have "keys_gt b k" using gt b by (auto intro: keys_gt_mono less_imp_le)
    then show ?thesis using absent Cons e False by simp
  qed
qed

section \<open>Rebuilding a node\<close>

lemma ents_rel_put_leaf:
  "ents_rel P E l pre a \<Longrightarrow> ents_rel P E l post b \<Longrightarrow> leadingZerosOnHash E k = l \<Longrightarrow>
   ents_rel P E l (pre @ entryLeaf k v # post) (a @ (k, v) # b)"
  unfolding ents_rel_append by (intro exI conjI) (auto simp: ok_join_def)

lemma isLeaf_not_isTree: "isLeaf e \<Longrightarrow> \<not> isTree e"
  by (cases e) auto

lemma ents_rel_put_tree:
  assumes "ents_rel P E l pre a" and "P s c" and "c \<noteq> []" and "ents_rel P E l post b"
    and "pre = [] \<or> isLeaf (last pre)" and "post = [] \<or> isLeaf (hd post)"
  shows "ents_rel P E l (pre @ entryTree tk s # post) (a @ c @ b)"
proof -
  have "ents_rel P E l (entryTree tk s # post) (c @ b)"
    using assms isLeaf_not_isTree by (simp, blast)
  moreover have "ok_join pre (entryTree tk s # post)"
    using assms(5) isLeaf_not_isTree by (auto simp: ok_join_def)
  ultimately show ?thesis
    using assms(1) unfolding ents_rel_append by blast
qed

lemma ents_rel_join:
  "ents_rel P E l pre a \<Longrightarrow> ents_rel P E l post b \<Longrightarrow>
   (pre = [] \<or> isLeaf (last pre)) \<or> (post = [] \<or> isLeaf (hd post)) \<Longrightarrow>
   ents_rel P E l (pre @ post) (a @ b)"
  unfolding ents_rel_append by (intro exI conjI) (auto simp: ok_join_def dest: isLeaf_not_isTree)

lemma layer_ok_nonempty: "layer_ok t l es \<Longrightarrow> es' \<noteq> [] \<Longrightarrow> layer_ok t l es'"
  by (auto simp: layer_ok_def)

lemma updateEntry_split:
  "getEntries E t = Inr (pre @ e # post) \<Longrightarrow>
   updateEntry E t (int (length pre)) e' = checkedTree t (pre @ e' # post)"
  by (simp add: updateEntry_def)

lemma removeEntry_split:
  "getEntries E t = Inr (pre @ e # post) \<Longrightarrow>
   removeEntry E t (int (length pre)) = checkedTree t (pre @ post)"
  by (simp add: removeEntry_def)

lemma spliceIn_split:
  "getEntries E t = Inr (pre @ post) \<Longrightarrow>
   spliceIn E t e (int (length pre)) = checkedTree t (pre @ e # post)"
  by (simp add: spliceIn_def)

lemma checkedTree_node:
  assumes "ents_rel (sub_ok l E) E l es' kvs'" and "layer_ok t l es'"
  shows "checkedTree t es' = Inr (newTree t es')" and "node_ok l E (newTree t es') kvs'"
  using assms by (auto simp: ents_rel_checkedTree node_ok_newTree)

text \<open>Where a key is in a well-formed node: at a leaf of the node, in a gap between leaves, or
  under a subtree; with what the code reads at and before the index it finds.\<close>

lemma locate:
  assumes ok: "node_ok l E t kvs" and srt: "sorted_kvs kvs"
  obtains (present) pre v0 post a b where
      "getEntries E t = Inr (pre @ entryLeaf k v0 # post)"
      "layer_ok t l (pre @ entryLeaf k v0 # post)" "kvs = a @ (k, v0) # b"
      "ents_rel (sub_ok l E) E l pre a" "ents_rel (sub_ok l E) E l post b"
      "keys_lt a k" "keys_gt b k" "leadingZerosOnHash E k = l"
      "findGtOrEqualLeafIndex E t k = Inr (int (length pre))"
      "atIndex E t (int (length pre)) = Inr (entryLeaf k v0)"
    | (gap) pre post a b f p where
      "getEntries E t = Inr (pre @ post)" "layer_ok t l (pre @ post)" "kvs = a @ b"
      "ents_rel (sub_ok l E) E l pre a" "ents_rel (sub_ok l E) E l post b"
      "keys_lt a k" "keys_gt b k" "pre = [] \<or> isLeaf (last pre)" "post = [] \<or> isLeaf (hd post)"
      "findGtOrEqualLeafIndex E t k = Inr (int (length pre))"
      "atIndex E t (int (length pre)) = Inr f" "\<not> (isLeaf f \<and> Key f = k)"
      "atIndex E t (int (length pre) - 1) = Inr p" "\<not> isTree p"
    | (sub) l' pre tk s post a c b f where
      "l = Suc l'" "getEntries E t = Inr (pre @ entryTree tk s # post)"
      "layer_ok t l (pre @ entryTree tk s # post)" "kvs = a @ c @ b"
      "ents_rel (sub_ok l E) E l pre a" "node_ok l' E s c" "c \<noteq> []" "sorted_kvs c"
      "ents_rel (sub_ok l E) E l post b" "keys_lt a k" "keys_gt b k"
      "pre = [] \<or> isLeaf (last pre)" "post = [] \<or> isLeaf (hd post)"
      "findGtOrEqualLeafIndex E t k = Inr (int (length pre) + 1)"
      "atIndex E t (int (length pre) + 1) = Inr f" "\<not> (isLeaf f \<and> Key f = k)"
      "atIndex E t (int (length pre)) = Inr (entryTree tk s)"
proof -
  obtain es where es: "getEntries E t = Inr es" "layer_ok t l es"
    and rel: "ents_rel (sub_ok l E) E l es kvs"
    using ok by (auto simp: node_ok_iff)
  from rel srt show thesis
  proof (cases rule: find_split [where k = k])
    case (gap pre post a b)
    have fi: "findGtOrEqualLeafIndex E t k = Inr (int (length pre))"
      using es gap by (simp add: findGtOrEqualLeafIndex_def)
    have sb: "sorted_kvs b" using srt gap by (simp add: sorted_kvs_append)
    have g: "getEntries E t = Inr (pre @ post)" using es gap(1) by simp
    note at = atIndex_split [OF g]
    from gap(5,9,7) sb show thesis
    proof (cases rule: leaf_head)
      case absent
      show thesis
        using that(2) [OF g _ gap(3-6) absent(1) gap(8,9) fi at(1) absent(2) at(2) last_entry_not_tree [OF gap(8)]]
          es gap(1) by simp
    next
      case (present v post' b')
      then show thesis using that(1) [of pre v post' a b'] es gap fi at by simp
    qed
  next
    case (sub pre tk s post a c b)
    let ?pre = "pre @ [entryTree tk s]"
    have fi: "findGtOrEqualLeafIndex E t k = Inr (int (length ?pre))"
      using es sub by (simp add: findGtOrEqualLeafIndex_def)
    have srt': "sorted_kvs b" "sorted_kvs c" using srt sub by (auto simp: sorted_kvs_append)
    have g: "getEntries E t = Inr (?pre @ post)" using es sub(1) by simp
    note at = atIndex_split [OF g]
    have prel: "ents_rel (sub_ok l E) E l ?pre (a @ c)"
      using sub by (auto intro: ents_rel_put_tree [where post = "[]" and b = "[]", simplified])
    obtain l' where l: "l = Suc l'" "node_ok l' E s c" using sub(5) by (cases l) auto
    from sub(7,11,9) srt'(1) show thesis
    proof (cases rule: leaf_head)
      case absent
      show thesis
        using that(3) [OF l(1) _ _ sub(3,4) l(2) sub(6) srt'(2) sub(7,8) absent(1) sub(10,11) _ _ absent(2)]
          es sub(1) fi at by (simp add: add.commute)
    next
      case (present v post' b')
      then have "keys_lt (a @ c) k" using srt sub(3) sorted_mid(1) [of "a @ c" k v b'] by simp
      then show thesis using that(1) [of ?pre v post' "a @ c" b'] present es sub(1,3) fi at prel by simp
    qed
  qed
qed

section \<open>Lookup\<close>

definition lookup_result :: "cid option \<Rightarrow> mst_error + cid" where
  "lookup_result r = (case r of Some v \<Rightarrow> Inr v | None \<Rightarrow> Inl ErrNotFound)"

lemma mst_Get_node:
  "node_ok l E t kvs \<Longrightarrow> sorted_kvs kvs \<Longrightarrow> l < n \<Longrightarrow> mst_Get n E t k = lookup_result (map_of kvs k)"
proof (induction l arbitrary: n t kvs)
  case 0
  then obtain m where n: "n = Suc m" by (cases n) auto
  from 0(1,2) show ?case
    by (cases rule: locate [where k = k]) (auto simp: n lookup_result_def map_add_def)
next
  case (Suc l)
  then obtain m where n: "n = Suc m" "l < m" by (cases n) auto
  from Suc.prems(1,2) show ?case
  proof (cases rule: locate [where k = k])
    case (sub l' pre tk s post a c b f)
    then have "mst_Get m E s k = lookup_result (map_of c k)" using Suc.IH n by simp
    then show ?thesis using sub n by (auto simp: map_add_def split: option.split)
  qed (auto simp: n lookup_result_def map_add_def)
qed

section \<open>Update\<close>

lemma mst_Update_node:
  "node_ok l E t kvs \<Longrightarrow> sorted_kvs kvs \<Longrightarrow> l < n \<Longrightarrow> IsValidKey k \<Longrightarrow> v \<noteq> cid_Undef \<Longrightarrow>
   (if has_key k kvs
    then \<exists>t'. mst_Update n E t k v = Inr t' \<and> node_ok l E t' (ins_kv k v kvs)
    else mst_Update n E t k v = Inl ErrNotFound)"
proof (induction l arbitrary: n t kvs rule: less_induct)
  case (less l)
  then obtain m where n: "n = Suc m" by (cases n) auto
  have vk: "ensureValidKey k = Inr ()" using less.prems(4) by (simp add: ensureValidKey_def)
  from less.prems(1,2) show ?case
  proof (cases rule: locate [where k = k])
    case (present pre v0 post a b)
    then have "ents_rel (sub_ok l E) E l (pre @ entryLeaf k v # post) (a @ (k, v) # b)"
      by (intro ents_rel_put_leaf)
    note new = checkedTree_node [OF this layer_ok_nonempty [OF present(2)]]
    then show ?thesis
      using present n vk less.prems(5) updateEntry_split [OF present(1), of "entryLeaf k v"]
      by (simp add: ins_kv_left)
  next
    case (gap pre post a b f p)
    then show ?thesis using n vk less.prems(5) by auto
  next
    case (sub l' pre tk s post a c b f)
    have IH: "if has_key k c then \<exists>s'. mst_Update m E s k v = Inr s' \<and> node_ok l' E s' (ins_kv k v c)
        else mst_Update m E s k v = Inl ErrNotFound"
      using less.IH [of l' s c m] sub less.prems n by simp
    show ?thesis
    proof (cases "has_key k c")
      case True
      then obtain s' where s': "mst_Update m E s k v = Inr s'" "node_ok l' E s' (ins_kv k v c)"
        using IH by auto
      then have "ents_rel (sub_ok l E) E l (pre @ mkTreeEntry s' # post) (a @ ins_kv k v c @ b)"
        using sub unfolding mkTreeEntry_def by (intro ents_rel_put_tree) auto
      note new = checkedTree_node [OF this layer_ok_nonempty [OF sub(3)]]
      then show ?thesis
        using True sub n vk less.prems(5) s' updateEntry_split [OF sub(2), of "mkTreeEntry s'"]
        by (auto simp: ins_kv_middle)
    qed (use sub n vk less.prems(5) IH in auto)
  qed
qed

section \<open>Splitting and merging\<close>

definition opt_ok :: "nat \<Rightarrow> mst_env \<Rightarrow> int \<Rightarrow> mst option \<Rightarrow> kvs \<Rightarrow> bool" where
  "opt_ok l E lay r kvs =
     (case r of None \<Rightarrow> kvs = [] | Some s \<Rightarrow> kvs \<noteq> [] \<and> node_ok l E s kvs \<and> layer s = lay)"

lemma ents_rel_optTree:
  assumes "opt_ok l E lay r c" and "ents_rel (node_ok l E) E (Suc l) pre a"
    and "ents_rel (node_ok l E) E (Suc l) post b"
    and "pre = [] \<or> isLeaf (last pre)" and "post = [] \<or> isLeaf (hd post)"
  shows "ents_rel (node_ok l E) E (Suc l) (pre @ optTree r @ post) (a @ c @ b)"
proof (cases r)
  case None
  then show ?thesis using assms by (auto simp: opt_ok_def optTree_def intro: ents_rel_join)
next
  case (Some s)
  then show ?thesis
    using assms by (auto simp: opt_ok_def optTree_def mkTreeEntry_def intro: ents_rel_put_tree)
qed

end
