(* ===== verification/Mst_Write.thy ===== *)
theory Mst_Write
  imports Mst_Ops
begin

text \<open>
  Splitting a subtree around a new key, merging two neighbouring subtrees, and on top of them
  \<open>Add\<close> and \<open>Delete\<close>: both compute the insertion and the deletion on the sorted list of pairs the
  tree stands for, and both answer the code's error exactly when the key is there, or is not.
\<close>

section \<open>Splitting\<close>

lemma newTree_newTree [simp]: "newTree (newTree t es) es' = newTree t es'"
  by (simp add: newTree_def createMST_def)

lemma nonEmpty_newTree:
  assumes "ents_rel (sub_ok l E) E l es kvs" and "layer_ok t l es0" and "es \<noteq> [] \<Longrightarrow> es0 \<noteq> []"
  shows "\<exists>x. nonEmpty E (newTree t es) = Inr x \<and> opt_ok l E (layer t) x kvs"
  using assms ents_rel_empty [OF assms(1)]
  by (auto simp: nonEmpty_def opt_ok_def node_ok_newTree layer_ok_def)

lemma removeEntry_last:
  "ents_rel P E l es kvs \<Longrightarrow>
   removeEntry E (newTree t (es @ [e])) (int (length es)) = Inr (newTree t es)"
  using removeEntry_split [of E "newTree t (es @ [e])" es e "[]"] by (simp add: ents_rel_checkedTree)

lemma append_optTree:
  assumes "ents_rel P E l (es @ optTree r) kvs"
  shows "(case r of None \<Rightarrow> Inr (newTree t es) | Some s \<Rightarrow> mst_append E (newTree t es) (mkTreeEntry s))
         = Inr (newTree t (es @ optTree r))"
  using assms by (cases r) (auto simp: optTree_def mst_append_def ents_rel_checkedTree)

lemma prepend_optTree:
  assumes "ents_rel P E l (optTree r @ es) kvs"
  shows "(case r of None \<Rightarrow> Inr (newTree t es) | Some s \<Rightarrow> mst_prepend E (newTree t es) (mkTreeEntry s))
         = Inr (newTree t (optTree r @ es))"
  using assms ents_rel_checkedTree [OF assms] by (cases r) (auto simp: optTree_def mst_prepend_def)

lemma splitAround_gap:
  assumes "findGtOrEqualLeafIndex E t k = Inr (int (length pre))" and "getEntries E t = Inr (pre @ post)"
    and "pre = [] \<or> isLeaf (last pre)"
    and "nonEmpty E (newTree t pre) = Inr L" and "nonEmpty E (newTree t post) = Inr R"
  shows "splitAround (Suc m) E t k = Inr (L, R)"
  using assms isLeaf_not_isTree by auto

lemma splitAround_sub:
  assumes idx: "findGtOrEqualLeafIndex E t k = Inr (int (length pre) + 1)"
    and es: "getEntries E t = Inr (pre @ entryTree tk s # post)"
    and pre: "ents_rel P E l pre a"
    and rec: "splitAround m E s k = Inr (L', R')"
    and l: "ents_rel P E l (pre @ optTree L') a'" and r: "ents_rel P E l (optTree R' @ post) b'"
    and ne: "nonEmpty E (newTree t (pre @ optTree L')) = Inr L"
      "nonEmpty E (newTree t (optTree R' @ post)) = Inr R"
  shows "splitAround (Suc m) E t k = Inr (L, R)"
proof -
  have n: "nat (int (length pre) + 1) = Suc (length pre)" by simp
  show ?thesis
    using idx es rec ne removeEntry_last [OF pre] append_optTree [OF l] prepend_optTree [OF r]
    by (simp add: n Let_def cong: option.case_cong)
qed

lemma splitAround_node:
  "node_ok l E t kvs \<Longrightarrow> sorted_kvs kvs \<Longrightarrow> l < n \<Longrightarrow> \<not> has_key k kvs \<Longrightarrow>
   \<exists>L R a b. splitAround n E t k = Inr (L, R) \<and> kvs = a @ b \<and> keys_lt a k \<and> keys_gt b k
     \<and> opt_ok l E (layer t) L a \<and> opt_ok l E (layer t) R b"
proof (induction l arbitrary: n t kvs rule: less_induct)
  case (less l)
  then obtain m where n: "n = Suc m" by (cases n) auto
  from less.prems(1,2) show ?case
  proof (cases rule: locate [where k = k])
    case (present pre v0 post a b)
    then show ?thesis using less.prems(4) by simp
  next
    case (gap pre post a b f p)
    obtain L where L: "nonEmpty E (newTree t pre) = Inr L" "opt_ok l E (layer t) L a"
      using nonEmpty_newTree [OF gap(4,2)] by auto
    obtain R where R: "nonEmpty E (newTree t post) = Inr R" "opt_ok l E (layer t) R b"
      using nonEmpty_newTree [OF gap(5,2)] by auto
    show ?thesis
      using splitAround_gap [OF gap(10,1,8) L(1) R(1)] L(2) R(2) gap(3,6,7) n by blast
  next
    case (sub l' pre tk s post a c b f)
    have "\<not> has_key k c" using less.prems(4) sub(4) by simp
    then obtain L' R' c1 c2 where IH: "splitAround m E s k = Inr (L', R')" "c = c1 @ c2"
      "keys_lt c1 k" "keys_gt c2 k" "opt_ok l' E (layer s) L' c1" "opt_ok l' E (layer s) R' c2"
      using less.IH [of l' s c m] sub less.prems(3) n by auto
    have rl: "ents_rel (sub_ok l E) E l (pre @ optTree L') (a @ c1)"
      using ents_rel_optTree [OF IH(5), where post = "[]" and b = "[]" and pre = pre and a = a] sub by simp
    have rr: "ents_rel (sub_ok l E) E l (optTree R' @ post) (c2 @ b)"
      using ents_rel_optTree [OF IH(6), where pre = "[]" and a = "[]" and post = post and b = b] sub by simp
    obtain L where L: "nonEmpty E (newTree t (pre @ optTree L')) = Inr L" "opt_ok l E (layer t) L (a @ c1)"
      using nonEmpty_newTree [OF rl sub(3)] by auto
    obtain R where R: "nonEmpty E (newTree t (optTree R' @ post)) = Inr R" "opt_ok l E (layer t) R (c2 @ b)"
      using nonEmpty_newTree [OF rr sub(3)] by auto
    have "kvs = (a @ c1) @ (c2 @ b)" using sub(4) IH(2) by simp
    then show ?thesis
      using splitAround_sub [OF sub(14,2,5) IH(1) rl rr L(1) R(1)] L(2) R(2) IH(3,4) sub(10,11) n
      by (metis keys_append(1,3))
  qed
qed

section \<open>Merging\<close>

lemma ents_rel_snoc_tree:
  assumes "ents_rel P E l es a" and "es \<noteq> []" and "isTree (last es)"
  obtains pre k s a1 a2 where "es = pre @ [entryTree k s]" "a = a1 @ a2" "a2 \<noteq> []" "P s a2"
    "ents_rel P E l pre a1" "pre = [] \<or> isLeaf (last pre)"
proof -
  obtain k s where s: "last es = entryTree k s" using assms(3) by (cases "last es") auto
  define pre where "pre = butlast es"
  have es: "es = pre @ [entryTree k s]"
    using assms(2) s by (metis append_butlast_last_id pre_def)
  with assms(1) obtain a1 a2 where a: "a = a1 @ a2" "ents_rel P E l pre a1" "P s a2" "a2 \<noteq> []"
    and j: "ok_join pre [entryTree k s]"
    unfolding es ents_rel_append by auto
  have "pre = [] \<or> isLeaf (last pre)"
    using j ents_rel_last_kind [OF a(2)] by (auto simp: ok_join_def)
  then show thesis using that es a by blast
qed

lemma ents_rel_cons_tree:
  assumes "ents_rel P E l es b" and "es \<noteq> []" and "isTree (hd es)"
  obtains post k s b1 b2 where "es = entryTree k s # post" "b = b1 @ b2" "b1 \<noteq> []" "P s b1"
    "ents_rel P E l post b2" "post = [] \<or> isLeaf (hd post)"
proof -
  obtain k s post where es: "es = entryTree k s # post"
    using assms(2,3) by (cases es; cases "hd es") auto
  obtain b1 b2 where b: "b = b1 @ b2" "b1 \<noteq> []" "P s b1" "ents_rel P E l post b2"
    "post = [] \<or> \<not> isTree (hd post)"
    using assms(1) es by auto
  have "post = [] \<or> isLeaf (hd post)"
    using b(4,5) by (cases post; cases "hd post") auto
  then show thesis using that es b by blast
qed

lemma appendMerge_node:
  "node_ok l E t a \<Longrightarrow> node_ok l E u b \<Longrightarrow> a \<noteq> [] \<Longrightarrow> b \<noteq> [] \<Longrightarrow> l < n \<Longrightarrow>
   \<exists>r. appendMerge n E t u = Inr r \<and> node_ok l E r (a @ b)"
proof (induction l arbitrary: n t u a b rule: less_induct)
  case (less l)
  then obtain m where n: "n = Suc m" by (cases n) auto
  obtain es where es: "getEntries E t = Inr es" "ents_rel (sub_ok l E) E l es a"
    using less.prems(1) by (auto simp: node_ok_iff)
  obtain us where us: "getEntries E u = Inr us" "ents_rel (sub_ok l E) E l us b"
    using less.prems(2) by (auto simp: node_ok_iff)
  have ne: "es \<noteq> []" "us \<noteq> []"
    using less.prems(3,4) ents_rel_empty [OF es(2)] ents_rel_empty [OF us(2)] by auto
  have lay: "getLayer n E t = Inr (int l)" "getLayer n E u = Inr (int l)"
    using getLayer_ok less.prems(1,2,5) by blast+
  let ?t = "with_layer t (int l)"
  have lok: "layer_ok ?t l xs" for xs by (simp add: layer_ok_def)
  show ?case
  proof (cases "isTree (last es) \<and> isTree (hd us)")
    case True
    then have tr: "isTree (last es)" "isTree (hd us)" by auto
    obtain pre k s a1 a2 where s: "es = pre @ [entryTree k s]" "a = a1 @ a2" "a2 \<noteq> []"
      "sub_ok l E s a2" "ents_rel (sub_ok l E) E l pre a1" "pre = [] \<or> isLeaf (last pre)"
      by (rule ents_rel_snoc_tree [OF es(2) ne(1) tr(1)])
    obtain post k' s' b1 b2 where s': "us = entryTree k' s' # post" "b = b1 @ b2" "b1 \<noteq> []"
      "sub_ok l E s' b1" "ents_rel (sub_ok l E) E l post b2" "post = [] \<or> isLeaf (hd post)"
      by (rule ents_rel_cons_tree [OF us(2) ne(2) tr(2)])
    obtain l' where l: "l = Suc l'" using s(4) by (cases l) auto
    then have "l' < l" "l' < m" "node_ok l' E s a2" "node_ok l' E s' b1"
      using s(4) s'(4) less.prems(5) n by simp_all
    from less.IH [OF this(1,3,4) s(3) s'(3) this(2)]
    obtain r where r: "appendMerge m E s s' = Inr r" "node_ok l' E r (a2 @ b1)" by blast
    have "ents_rel (sub_ok l E) E l (pre @ mkTreeEntry r # post) (a1 @ (a2 @ b1) @ b2)"
      unfolding mkTreeEntry_def using s s' l r by (intro ents_rel_put_tree) auto
    then show ?thesis
      using lay es us n s s' r True by (simp add: node_ok_newTree lok)
  next
    case False
    then have "ents_rel (sub_ok l E) E l (es @ us) (a @ b)"
      using es(2) us(2) unfolding ents_rel_append ok_join_def by blast
    then show ?thesis
      using lay es us n ne False by (auto simp: node_ok_newTree lok Let_def)
  qed
qed

section \<open>Layers of the keys\<close>

lemma ents_rel_zeros:
  assumes "\<And>s c. P s c \<Longrightarrow> p \<in> set c \<Longrightarrow> leadingZerosOnHash E (fst p) \<le> l"
  shows "ents_rel P E l es kvs \<Longrightarrow> p \<in> set kvs \<Longrightarrow> leadingZerosOnHash E (fst p) \<le> l"
proof (induction es arbitrary: kvs)
  case (Cons x es)
  then show ?case using assms by (cases x) auto
qed simp

lemma node_ok_zeros:
  "node_ok l E t kvs \<Longrightarrow> p \<in> set kvs \<Longrightarrow> leadingZerosOnHash E (fst p) \<le> l"
proof (induction l arbitrary: t kvs p)
  case 0
  then show ?case by (auto simp: node_ok_iff dest: ents_rel_zeros [rotated])
next
  case (Suc l)
  then obtain es where "ents_rel (node_ok l E) E (Suc l) es kvs" by (auto simp: node_ok_iff)
  from ents_rel_zeros [OF _ this Suc.prems(2)] show ?case using Suc.IH le_SucI by blast
qed

lemma zeros_above_absent:
  "node_ok l E t kvs \<Longrightarrow> l < leadingZerosOnHash E k \<Longrightarrow> \<not> has_key k kvs"
  using node_ok_zeros by (fastforce simp: has_key_def)

section \<open>Lifting the halves of a split root\<close>

lemma optParent_ok:
  assumes "opt_ok l E lay r kvs" and "l < n"
  shows "\<exists>r'. optParent n E r = Inr r' \<and> opt_ok (Suc l) E (int (Suc l)) r' kvs"
proof (cases r)
  case (Some s)
  then have s: "node_ok l E s kvs" "kvs \<noteq> []" using assms(1) by (auto simp: opt_ok_def)
  then have "node_ok (Suc l) E (createMST cid_Undef (Some [mkTreeEntry (with_layer s (int l))]) (int l + 1)) kvs"
    by (simp add: node_ok_iff [of "Suc l"] layer_ok_def mkTreeEntry_def node_ok_with_layer)
  then show ?thesis
    using Some s getLayer_ok [OF s(1) assms(2)] by (simp add: optParent_def createParent_def opt_ok_def)
qed (use assms in \<open>simp add: optParent_def opt_ok_def\<close>)

lemma addParents_ok:
  "opt_ok l E (int l) L a \<Longrightarrow> opt_ok l E (int l) R b \<Longrightarrow> l + i \<le> n \<Longrightarrow>
   \<exists>L' R'. addParents i n E L R = Inr (L', R') \<and> opt_ok (l + i) E (int (l + i)) L' a
     \<and> opt_ok (l + i) E (int (l + i)) R' b"
proof (induction i arbitrary: l L R)
  case (Suc i)
  obtain L1 where L1: "optParent n E L = Inr L1" "opt_ok (Suc l) E (int (Suc l)) L1 a"
    using optParent_ok [OF Suc.prems(1), of n] Suc.prems(3) by auto
  obtain R1 where R1: "optParent n E R = Inr R1" "opt_ok (Suc l) E (int (Suc l)) R1 b"
    using optParent_ok [OF Suc.prems(2), of n] Suc.prems(3) by auto
  show ?case using Suc.IH [OF L1(2) R1(2)] Suc.prems(3) L1 R1 by auto
qed auto

section \<open>Add\<close>

lemma ents_rel_split_leaf:
  assumes "opt_ok l E lay L c1" and "opt_ok l E lay' R c2"
    and "ents_rel (node_ok l E) E (Suc l) pre a" and "ents_rel (node_ok l E) E (Suc l) post b"
    and "pre = [] \<or> isLeaf (last pre)" and "post = [] \<or> isLeaf (hd post)"
    and "leadingZerosOnHash E k = Suc l"
  shows "ents_rel (node_ok l E) E (Suc l) (pre @ optTree L @ entryLeaf k v # optTree R @ post)
           (a @ c1 @ (k, v) # c2 @ b)"
proof -
  have "ents_rel (node_ok l E) E (Suc l) (pre @ optTree L) (a @ c1)"
    using ents_rel_optTree [OF assms(1,3) _ assms(5), where post = "[]" and b = "[]"] by simp
  moreover have "ents_rel (node_ok l E) E (Suc l) (optTree R @ post) (c2 @ b)"
    using ents_rel_optTree [OF assms(2) _ assms(4) _ assms(6), where pre = "[]" and a = "[]"] by simp
  ultimately show ?thesis using ents_rel_put_leaf [OF _ _ assms(7)] by fastforce
qed

lemma ins_kv_gap:
  "keys_lt a k \<Longrightarrow> keys_gt b k \<Longrightarrow> ins_kv k v (a @ b) = a @ (k, v) # b"
  by (simp add: ins_kv_left ins_kv_before)

lemma ins_kv_split:
  "keys_lt a k \<Longrightarrow> keys_lt c1 k \<Longrightarrow> keys_gt c2 k \<Longrightarrow> keys_gt b k \<Longrightarrow>
   ins_kv k v (a @ c1 @ c2 @ b) = a @ c1 @ (k, v) # c2 @ b"
  using ins_kv_gap [of "a @ c1" k "c2 @ b" v] by simp

lemma mst_Add_above:
  assumes "node_ok l E t kvs" and "sorted_kvs kvs" and "leadingZerosOnHash E k < Suc n"
    and "IsValidKey k" and "v \<noteq> cid_Undef" and "z < 0 \<or> z = int (leadingZerosOnHash E k)"
    and "l < leadingZerosOnHash E k"
  shows "\<exists>t'. mst_Add (Suc n) E t k v z = Inr t' \<and> node_ok (leadingZerosOnHash E k) E t' (ins_kv k v kvs)"
proof -
  let ?z = "leadingZerosOnHash E k" and ?t = "with_layer t (int l)"
  define i where "i = ?z - l - 1"
  have z: "?z = Suc (l + i)" "nat (int ?z - int l) - 1 = i" using assms(7) by (auto simp: i_def)
  have ok: "node_ok l E ?t kvs" using assms(1) by (rule node_ok_with_layer)
  have abs: "\<not> has_key k kvs" using zeros_above_absent [OF assms(1,7)] .
  have "l < Suc n" using assms(3,7) by simp
  from splitAround_node [OF ok assms(2) this abs]
  obtain L R a b where sp: "splitAround (Suc n) E ?t k = Inr (L, R)" "kvs = a @ b" "keys_lt a k"
    "keys_gt b k" "opt_ok l E (int l) L a" "opt_ok l E (int l) R b" by auto
  obtain L' R' where lift: "addParents i (Suc n) E L R = Inr (L', R')"
    "opt_ok (l + i) E (int (l + i)) L' a" "opt_ok (l + i) E (int (l + i)) R' b"
    using addParents_ok [OF sp(5,6), of i "Suc n"] assms(3) z by auto
  have rel: "ents_rel (node_ok (l + i) E) E ?z (optTree L' @ entryLeaf k v # optTree R') (ins_kv k v kvs)"
    using ents_rel_split_leaf [OF lift(2,3), where pre = "[]" and post = "[]" and k = k and a = "[]" and b = "[]" and v = v]
      z sp(2-4) by (simp add: ins_kv_gap)
  have "getLayer (Suc n) E t = Inr (int l)" "getLayer (Suc n) E ?t = Inr (int l)"
    using getLayer_ok [OF assms(1) \<open>l < Suc n\<close>] getLayer_ok [OF ok \<open>l < Suc n\<close>] by auto
  then have "mst_Add (Suc n) E t k v z =
      Inr (createMST cid_Undef (Some (optTree L' @ entryLeaf k v # optTree R')) (int ?z))"
    using assms(4-7) sp(1) lift(1) z(2) ents_rel_checkTree [OF rel]
    by (auto simp: ensureValidKey_def Let_def simp del: splitAround.simps)
  moreover have "node_ok ?z E (createMST cid_Undef (Some (optTree L' @ entryLeaf k v # optTree R')) (int ?z)) (ins_kv k v kvs)"
    using rel z by (simp add: node_ok_iff [of "Suc (l + i)"] layer_ok_def)
  ultimately show ?thesis by blast
qed

lemma replaceWithSplit_split:
  assumes "node_ok l E t kvs" and "getEntries E t = Inr (pre @ e # post)"
  shows "replaceWithSplit E t (int (length pre)) L nl R
    = checkedTree t (pre @ optTree L @ nl # optTree R @ post)"
  using assms ents_rel_checkTree by (auto simp: node_ok_iff replaceWithSplit_def)

lemma mst_Add_here:
  assumes "node_ok l E t kvs" and "sorted_kvs kvs" and "l < Suc n"
    and "IsValidKey k" and "v \<noteq> cid_Undef" and "z < 0 \<or> z = int (leadingZerosOnHash E k)"
    and "l = leadingZerosOnHash E k"
  shows "if has_key k kvs then mst_Add (Suc n) E t k v z = Inl ErrAlreadyExists
     else \<exists>t'. mst_Add (Suc n) E t k v z = Inr t' \<and> node_ok l E t' (ins_kv k v kvs)"
proof -
  let ?t = "with_layer t (int l)"
  have ok: "node_ok l E ?t kvs" using assms(1) by (rule node_ok_with_layer)
  have lay: "getLayer (Suc n) E t = Inr (int l)" using getLayer_ok [OF assms(1,3)] .
  have vk: "ensureValidKey k = Inr ()" using assms(4) by (simp add: ensureValidKey_def)
  note code = vk lay assms(5,6) assms(7) [symmetric]
  from ok assms(2) show ?thesis
  proof (cases rule: locate [where k = k])
    case (present pre v0 post a b)
    then show ?thesis using code by (auto simp: Let_def)
  next
    case (gap pre post a b f p)
    have "ents_rel (sub_ok l E) E l (pre @ entryLeaf k v # post) (a @ (k, v) # b)"
      using gap assms(7) by (intro ents_rel_put_leaf) auto
    note new = checkedTree_node [OF this, of ?t]
    show ?thesis
      using code gap new spliceIn_split [OF gap(1), of "entryLeaf k v"]
      by (auto simp: Let_def isUndefined_not ins_kv_gap layer_ok_def)
  next
    case (sub l' pre tk s post a c b f)
    show ?thesis
    proof (cases "has_key k c")
      case True
      then have "leadingZerosOnHash E k \<le> l'" using node_ok_zeros [OF sub(6)] by (auto simp: has_key_def)
      then show ?thesis using assms(7) sub(1) by simp
    next
      case False
      obtain L R c1 c2 where sp: "splitAround n E s k = Inr (L, R)" "c = c1 @ c2" "keys_lt c1 k"
        "keys_gt c2 k" "opt_ok l' E (layer s) L c1" "opt_ok l' E (layer s) R c2"
        using splitAround_node [OF sub(6,8) _ False, of n] assms(3) sub(1) by auto
      have "ents_rel (sub_ok l E) E l (pre @ optTree L @ entryLeaf k v # optTree R @ post) (ins_kv k v kvs)"
        using ents_rel_split_leaf [OF sp(5,6) _ _ sub(12,13)] sub sp assms(7) by (simp add: ins_kv_split)
      note new = checkedTree_node [OF this, of ?t] ents_rel_checkTree
      have "replaceWithSplit E ?t (int (length pre)) L (entryLeaf k v) R
          = Inr (newTree ?t (pre @ optTree L @ entryLeaf k v # optTree R @ post))"
        using replaceWithSplit_split [OF ok sub(2)] new by (simp add: layer_ok_def)
      then show ?thesis
        using code sub sp False new by (auto simp: Let_def layer_ok_def)
    qed
  qed
qed

lemma mst_Add_below:
  assumes "node_ok (Suc l) E t kvs" and "sorted_kvs kvs" and "Suc l < Suc n"
    and "IsValidKey k" and "v \<noteq> cid_Undef" and "z < 0 \<or> z = int (leadingZerosOnHash E k)"
    and "leadingZerosOnHash E k \<le> l"
    and IH: "\<And>s c. node_ok l E s c \<Longrightarrow> sorted_kvs c \<Longrightarrow>
      (if has_key k c then mst_Add n E s k v (int (leadingZerosOnHash E k)) = Inl ErrAlreadyExists
       else \<exists>s'. mst_Add n E s k v (int (leadingZerosOnHash E k)) = Inr s' \<and> node_ok l E s' (ins_kv k v c))"
  shows "if has_key k kvs then mst_Add (Suc n) E t k v z = Inl ErrAlreadyExists
     else \<exists>t'. mst_Add (Suc n) E t k v z = Inr t' \<and> node_ok (Suc l) E t' (ins_kv k v kvs)"
proof -
  let ?t = "with_layer t (int (Suc l))"
  have ok: "node_ok (Suc l) E ?t kvs" using assms(1) by (rule node_ok_with_layer)
  have lay: "getLayer (Suc n) E t = Inr (int (Suc l))" "getLayer (Suc n) E ?t = Inr (int (Suc l))"
    using getLayer_ok [OF assms(1,3)] getLayer_ok [OF ok assms(3)] by auto
  have vk: "ensureValidKey k = Inr ()" using assms(4) by (simp add: ensureValidKey_def)
  have lok: "layer_ok ?t (Suc l) xs" for xs by (simp add: layer_ok_def)
  have kz: "(if z < 0 then int (leadingZerosOnHash E k) else z) = int (leadingZerosOnHash E k)"
    using assms(6) by auto
  note code = vk lay assms(5,7) kz
  from ok assms(2) show ?thesis
  proof (cases rule: locate [where k = k])
    case (present pre v0 post a b)
    then show ?thesis using assms(7) by simp
  next
    case (gap pre post a b f p)
    let ?c = "createMST cid_Undef (Some []) (int l)"
    have child: "createChild (Suc n) E ?t = Inr ?c" using lay by (simp add: createChild_def)
    have "node_ok l E ?c []" by (simp add: node_ok_iff layer_ok_def)
    from IH [OF this] obtain s' where s': "node_ok l E s' [(k, v)]"
      "mst_Add n E ?c k v (int (leadingZerosOnHash E k)) = Inr s'" by auto
    have "ents_rel (sub_ok (Suc l) E) E (Suc l) (pre @ mkTreeEntry s' # post) (a @ [(k, v)] @ b)"
      unfolding mkTreeEntry_def using gap s'(1) by (intro ents_rel_put_tree) auto
    note new = checkedTree_node [OF this lok]
    have "mst_Add (Suc n) E t k v z = spliceIn E ?t (mkTreeEntry s') (int (length pre))"
      using code gap(10,13,14) s'(2) child by (simp add: Let_def)
    then show ?thesis
      using gap(3,6,7) new spliceIn_split [OF gap(1), of "mkTreeEntry s'"]
      by (simp add: ins_kv_gap del: mst_Add.simps)
  next
    case (sub l' pre tk s post a c b f)
    have IHs: "if has_key k c then mst_Add n E s k v (int (leadingZerosOnHash E k)) = Inl ErrAlreadyExists
       else \<exists>s'. mst_Add n E s k v (int (leadingZerosOnHash E k)) = Inr s' \<and> node_ok l E s' (ins_kv k v c)"
      using IH sub by blast
    show ?thesis
    proof (cases "has_key k c")
      case True
      then show ?thesis using code sub(4,14,17) IHs by (simp add: Let_def)
    next
      case False
      then obtain s' where s': "mst_Add n E s k v (int (leadingZerosOnHash E k)) = Inr s'"
        "node_ok l E s' (ins_kv k v c)" using IHs by auto
      have "ents_rel (sub_ok (Suc l) E) E (Suc l) (pre @ mkTreeEntry s' # post) (a @ ins_kv k v c @ b)"
        unfolding mkTreeEntry_def using sub s' by (intro ents_rel_put_tree) auto
      note new = checkedTree_node [OF this lok]
      have "mst_Add (Suc n) E t k v z = updateEntry E ?t (int (length pre)) (mkTreeEntry s')"
        using code sub(14,17) s'(1) by (simp add: Let_def)
      then show ?thesis
        using sub(4,10,11) new False updateEntry_split [OF sub(2), of "mkTreeEntry s'"]
        by (simp add: ins_kv_middle del: mst_Add.simps)
    qed
  qed
qed

lemma mst_Add_node:
  assumes "node_ok l E t kvs" and "sorted_kvs kvs" and "max l (leadingZerosOnHash E k) < n"
    and "IsValidKey k" and "v \<noteq> cid_Undef" and "z < 0 \<or> z = int (leadingZerosOnHash E k)"
  shows "if has_key k kvs then mst_Add n E t k v z = Inl ErrAlreadyExists
     else \<exists>t'. mst_Add n E t k v z = Inr t' \<and>
            node_ok (max l (leadingZerosOnHash E k)) E t' (ins_kv k v kvs)"
  using assms
proof (induction l arbitrary: n t kvs z rule: less_induct)
  case (less l)
  then obtain m where n: "n = Suc m" by (cases n) auto
  consider "l < leadingZerosOnHash E k" | "l = leadingZerosOnHash E k"
    | l' where "l = Suc l'" "leadingZerosOnHash E k \<le> l'"
    by (cases l) force+
  then show ?case
  proof cases
    case 1
    then show ?thesis
      using mst_Add_above [OF less.prems(1,2) _ less.prems(4-6), of m] less.prems(3) n
        zeros_above_absent [OF less.prems(1) 1] by (simp add: max_def del: mst_Add.simps)
  next
    case 2
    then show ?thesis
      using mst_Add_here [OF less.prems(1,2) _ less.prems(4-6), of m] less.prems(3) n by (auto simp del: mst_Add.simps)
  next
    case (3 l')
    have "Suc l' < Suc m" "max l' (leadingZerosOnHash E k) < m" "max l' (leadingZerosOnHash E k) = l'"
      using less.prems(3) n 3 by auto
    note IH = less.IH [OF _ _ _ this(2) less.prems(4,5), unfolded this(3)]
    from mst_Add_below [OF less.prems(1) [unfolded 3(1)] less.prems(2) \<open>Suc l' < Suc m\<close> less.prems(4-6) 3(2) IH]
    show ?thesis unfolding n using 3 by (simp add: max_def del: mst_Add.simps)
  qed
qed

lemma mst_Add_invalid:
  "\<not> IsValidKey k \<Longrightarrow> mst_Add (Suc n) E t k v z = Inl ErrInvalidKey"
  "IsValidKey k \<Longrightarrow> mst_Add (Suc n) E t k cid_Undef z = Inl ErrUndefCid"
  by (simp_all add: ensureValidKey_def)

end
