(* ===== verification/Mst_Remove.thy ===== *)
theory Mst_Remove
  imports Mst_Write
begin

text \<open>
  \<open>Delete\<close> and the ordered walk. \<open>Delete\<close> removes the leaf, merges the subtrees that become
  neighbours and trims a chain of single-child roots, so the root it leaves is at the layer of
  the highest key still in the tree. The walk calls back, in key order, with exactly the pairs at
  or after its starting key, until the callback answers an error.
\<close>

section \<open>Delete\<close>

lemma newTree_inject [simp]: "newTree t es = newTree t es' \<longleftrightarrow> es = es'"
  by (simp add: newTree_def createMST_def)

lemma ents_rel_remove_leaf:
  assumes "ents_rel P E l pre a" and "ents_rel P E l post b"
    and "\<not> (isTree (last_entry pre) \<and> isTree (head_entry post))"
  shows "ents_rel P E l (pre @ post) (a @ b)"
proof -
  have "ok_join pre post"
    using assms(3) by (cases post) (auto simp: ok_join_def last_entry_def)
  then show ?thesis using assms(1,2) unfolding ents_rel_append by blast
qed

lemma deleteRecurse_leaf:
  assumes g: "getEntries E t = Inr (pre @ entryLeaf k v0 # post)"
    and rel: "ents_rel (sub_ok l E) E l pre a" "ents_rel (sub_ok l E) E l post b"
    and idx: "findGtOrEqualLeafIndex E t k = Inr (int (length pre))"
    and at: "atIndex E t (int (length pre)) = Inr (entryLeaf k v0)" and n: "l \<le> n"
  shows "\<exists>es'. deleteRecurse (Suc n) E t k = Inr (newTree t es') \<and> ents_rel (sub_ok l E) E l es' (a @ b)"
proof -
  have prev: "atIndex E t (int (length pre) - 1) = Inr (last_entry pre)"
    using atIndex_split(2) [OF g] .
  have nxt: "atIndex E t (int (length pre) + 1) = Inr (head_entry post)"
    using atIndex_after [OF g] .
  show ?thesis
  proof (cases "isTree (last_entry pre) \<and> isTree (head_entry post)")
    case False
    then have r: "ents_rel (sub_ok l E) E l (pre @ post) (a @ b)"
      using ents_rel_remove_leaf [OF rel] by blast
    have "deleteRecurse (Suc n) E t k = removeEntry E t (int (length pre))"
      using idx at prev nxt False by auto
    then show ?thesis
      using removeEntry_split [OF g] ents_rel_checkedTree [OF r] r by simp
  next
    case True
    then have ne: "pre \<noteq> []" "isTree (last pre)" "post \<noteq> []" "isTree (hd post)"
      by (auto simp: last_entry_def head_entry_def split: if_splits list.splits)
    obtain p k1 s a1 a2 where s: "pre = p @ [entryTree k1 s]" "a = a1 @ a2" "a2 \<noteq> []"
      "sub_ok l E s a2" "ents_rel (sub_ok l E) E l p a1" "p = [] \<or> isLeaf (last p)"
      by (rule ents_rel_snoc_tree [OF rel(1) ne(1,2)])
    obtain q k2 s' b1 b2 where s': "post = entryTree k2 s' # q" "b = b1 @ b2" "b1 \<noteq> []"
      "sub_ok l E s' b1" "ents_rel (sub_ok l E) E l q b2" "q = [] \<or> isLeaf (hd q)"
      by (rule ents_rel_cons_tree [OF rel(2) ne(3,4)])
    obtain l' where l: "l = Suc l'" using s(4) by (cases l) auto
    then have sub: "node_ok l' E s a2" "node_ok l' E s' b1" "l' < n" using s s' n by auto
    obtain m where m: "appendMerge n E s s' = Inr m" "node_ok l' E m (a2 @ b1)"
      using appendMerge_node [OF sub(1,2) s(3) s'(3) sub(3)] by blast
    have r: "ents_rel (sub_ok l E) E l (p @ mkTreeEntry m # q) (a1 @ (a2 @ b1) @ b2)"
      unfolding mkTreeEntry_def using s s' l m by (intro ents_rel_put_tree) auto
    have "nat (int (length pre) - 1) = length p" "nat (int (length pre) + 2) = length p + 3"
      using s(1) by auto
    then have "deleteRecurse (Suc n) E t k = Inr (newTree t (p @ mkTreeEntry m # q))"
      using idx at prev nxt g s(1) s'(1) m(1) by simp
    then show ?thesis using r s(2) s'(2) by auto
  qed
qed

lemma deleteRecurse_node:
  "node_ok l E t kvs \<Longrightarrow> sorted_kvs kvs \<Longrightarrow> l < n \<Longrightarrow>
   (if has_key k kvs
    then \<exists>es'. deleteRecurse n E t k = Inr (newTree t es') \<and> ents_rel (sub_ok l E) E l es' (del_kv k kvs)
    else deleteRecurse n E t k = Inl ErrNotFound)"
proof (induction l arbitrary: n t kvs rule: less_induct)
  case (less l)
  then obtain m where n: "n = Suc m" by (cases n) auto
  from less.prems(1,2) show ?case
  proof (cases rule: locate [where k = k])
    case (present pre v0 post a b)
    then show ?thesis
      using deleteRecurse_leaf [OF present(1,4,5,9,10)] less.prems(3) n by simp
  next
    case (gap pre post a b f p)
    then show ?thesis using n by auto
  next
    case (sub l' pre tk s post a c b f)
    have IH: "if has_key k c
        then \<exists>es'. deleteRecurse m E s k = Inr (newTree s es') \<and> ents_rel (sub_ok l' E) E l' es' (del_kv k c)
        else deleteRecurse m E s k = Inl ErrNotFound"
      using less.IH [of l' s c m] sub less.prems n by simp
    show ?thesis
    proof (cases "has_key k c")
      case False
      then show ?thesis using sub n IH by auto
    next
      case True
      then obtain es' where s': "deleteRecurse m E s k = Inr (newTree s es')"
        "ents_rel (sub_ok l' E) E l' es' (del_kv k c)" using IH by auto
      have dk: "del_kv k kvs = a @ del_kv k c @ b" using sub by simp
      show ?thesis
      proof (cases "es' = []")
        case True
        then have r: "ents_rel (sub_ok l E) E l (pre @ post) (a @ b)" "del_kv k c = []"
          using ents_rel_join [OF sub(5,9)] sub(12) s'(2) by auto
        have "deleteRecurse n E t k = removeEntry E t (int (length pre))"
          using sub n s' True by auto
        then show ?thesis
          using removeEntry_split [OF sub(2)] ents_rel_checkedTree [OF r(1)] r dk \<open>has_key k c\<close> sub(4)
          by simp
      next
        case False
        have "layer_ok s l' es'"
          using sub(6,7) False by (auto simp: node_ok_iff layer_ok_def ents_rel_empty)
        then have "node_ok l' E (newTree s es') (del_kv k c)" using s'(2) by (simp add: node_ok_newTree)
        moreover have "del_kv k c \<noteq> []" using ents_rel_empty [OF s'(2)] False by simp
        ultimately have r: "ents_rel (sub_ok l E) E l (pre @ mkTreeEntry (newTree s es') # post) (a @ del_kv k c @ b)"
          unfolding mkTreeEntry_def using sub by (intro ents_rel_put_tree) auto
        have "deleteRecurse n E t k = updateEntry E t (int (length pre)) (mkTreeEntry (newTree s es'))"
          using sub n s' False by auto
        then show ?thesis
          using updateEntry_split [OF sub(2)] ents_rel_checkedTree [OF r] r dk \<open>has_key k c\<close> sub(4)
          by simp
      qed
    qed
  qed
qed

text \<open>A root is \<open>tight\<close> when its layer is the layer of its highest key: no chain of single-child
  nodes sits on top.\<close>

definition tight :: "nat \<Rightarrow> mst_env \<Rightarrow> kvs \<Rightarrow> bool" where
  "tight l E kvs = (\<exists>p \<in> set kvs. leadingZerosOnHash E (fst p) = l)"

lemma ents_rel_leaf_mem: "ents_rel P E l es kvs \<Longrightarrow> e \<in> set es \<Longrightarrow> isLeaf e \<Longrightarrow> has_key (Key e) kvs"
proof (induction es arbitrary: kvs)
  case (Cons x es)
  then show ?case by (cases x) auto
qed simp

lemma ents_rel_leaf_tight:
  assumes "ents_rel P E l es kvs" and "filter isLeaf es \<noteq> []"
  shows "tight l E kvs"
proof -
  obtain e where "e \<in> set es" "isLeaf e" using assms(2) by (auto simp: filter_empty_conv)
  then show ?thesis
    using ents_rel_leaf_mem [OF assms(1)] ents_rel_leaf_layer [OF assms(1)]
    by (force simp: tight_def has_key_def)
qed

lemma trimTop_node:
  "node_ok l E t kvs \<Longrightarrow> kvs \<noteq> [] \<Longrightarrow> l < n \<Longrightarrow>
   \<exists>l' r. trimTop n E t = Inr r \<and> l' \<le> l \<and> node_ok l' E r kvs \<and> tight l' E kvs"
proof (induction l arbitrary: n t rule: less_induct)
  case (less l)
  then obtain m where n: "n = Suc m" by (cases n) auto
  obtain es where es: "getEntries E t = Inr es" "ents_rel (sub_ok l E) E l es kvs"
    using less.prems(1) by (auto simp: node_ok_iff)
  show ?case
  proof (cases "filter isLeaf es = []")
    case True
    moreover have "es \<noteq> []" using less.prems(2) ents_rel_empty [OF es(2)] by simp
    ultimately obtain k s where s: "es = [entryTree k s]" "sub_ok l E s kvs"
      using ents_rel_no_leaf [OF es(2)] by blast
    then obtain l' where l: "l = Suc l'" "node_ok l' E s kvs" by (cases l) auto
    have "l' < l" "l' < m" using l less.prems(3) n by auto
    from less.IH [OF this(1) l(2) less.prems(2) this(2)] show ?thesis
      using n es(1) s(1) l(1) by (auto intro: le_SucI)
  next
    case False
    then have "trimTop n E t = Inr t"
      using n es(1) by (auto split: list.split nodeEntry.split)
    then show ?thesis using less.prems(1) ents_rel_leaf_tight [OF es(2) False] by auto
  qed
qed

lemma node_ok_emptied:
  assumes "node_ok l E t kvs"
  obtains l' where "l' \<le> l" "node_ok l' E (newTree t []) []"
proof (cases "layer t < 0")
  case True
  then show thesis using that [of 0] by (simp add: node_ok_newTree layer_ok_def)
next
  case False
  then show thesis using that [of l] assms by (auto simp: node_ok_newTree node_ok_iff layer_ok_def)
qed

lemma mst_Delete_node:
  assumes "node_ok l E t kvs" and "sorted_kvs kvs" and "l < n" and "has_key k kvs"
  shows "\<exists>l' r. mst_Delete n E t k = Inr r \<and> l' \<le> l \<and> node_ok l' E r (del_kv k kvs)
    \<and> (del_kv k kvs \<noteq> [] \<longrightarrow> tight l' E (del_kv k kvs))"
proof -
  obtain m where n: "n = Suc m" using assms(3) by (cases n) auto
  obtain es' where r: "deleteRecurse n E t k = Inr (newTree t es')"
    "ents_rel (sub_ok l E) E l es' (del_kv k kvs)"
    using deleteRecurse_node [OF assms(1-3), of k] assms(4) by auto
  show ?thesis
  proof (cases "es' = []")
    case True
    then have "mst_Delete n E t k = Inr (newTree t [])" "del_kv k kvs = []"
      using r n by (auto simp: mst_Delete_def simp del: deleteRecurse.simps)
    then show ?thesis by (metis node_ok_emptied [OF assms(1)])
  next
    case False
    obtain es where "getEntries E t = Inr es" "layer_ok t l es" "ents_rel (sub_ok l E) E l es kvs"
      using assms(1) by (auto simp: node_ok_iff)
    moreover have "kvs \<noteq> []" using assms(4) by auto
    ultimately have "node_ok l E (newTree t es') (del_kv k kvs)"
      using r(2) False by (auto simp: node_ok_newTree layer_ok_def)
    moreover have "del_kv k kvs \<noteq> []" using ents_rel_empty [OF r(2)] False by simp
    ultimately show ?thesis
      using trimTop_node [OF _ _ assms(3)] r(1) by (simp add: mst_Delete_def)
  qed
qed

lemma mst_Delete_absent:
  assumes "node_ok l E t kvs" and "sorted_kvs kvs" and "l < n" and "\<not> has_key k kvs"
  shows "mst_Delete n E t k = Inl ErrNotFound"
  using deleteRecurse_node [OF assms(1-3), of k] assms(4) by (simp add: mst_Delete_def)

section \<open>The ordered walk\<close>

abbreviation from_key :: "bytes \<Rightarrow> kvs \<Rightarrow> kvs" where
  "from_key from kvs \<equiv> filter (\<lambda>p. from \<le> fst p) kvs"

definition visit :: "('s \<Rightarrow> bytes \<Rightarrow> cid \<Rightarrow> 's \<times> mst_error option) \<Rightarrow> 's \<Rightarrow> bytes \<times> cid \<Rightarrow> 's \<times> mst_error option" where
  "visit cb s p = cb s (fst p) (snd p)"

lemma from_key_simps [simp]:
  "keys_lt a from \<Longrightarrow> from_key from a = []"
  "keys_ge a from \<Longrightarrow> from_key from a = a"
  by (auto simp: keys_defs filter_empty_conv)

lemma walkEntries_rel:
  assumes "\<And>u c s. P u c \<Longrightarrow> sorted_kvs c \<Longrightarrow> keys_ge c from \<Longrightarrow> sub u s = fold_until (visit cb) s c"
  shows "ents_rel P E l es kvs \<Longrightarrow> sorted_kvs kvs \<Longrightarrow> keys_ge kvs from \<Longrightarrow>
    walkEntries sub cb es s = fold_until (visit cb) s kvs"
proof (induction es arbitrary: kvs s)
  case (Cons x es)
  show ?case
  proof (cases x)
    case (entryLeaf k v)
    then show ?thesis
      using Cons.prems Cons.IH by (auto simp: visit_def sorted_kvs_Cons split: prod.split option.split)
  next
    case (entryTree k u)
    then obtain a b where ab: "kvs = a @ b" "P u a" "ents_rel P E l es b" using Cons.prems by auto
    then have "sub u s = fold_until (visit cb) s a" for s
      using assms Cons.prems by (simp add: sorted_kvs_append)
    moreover have "walkEntries sub cb es s = fold_until (visit cb) s b" for s
      using Cons ab by (simp add: sorted_kvs_append)
    ultimately show ?thesis using entryTree ab by (simp add: fold_until_append)
  qed (use Cons.prems in simp)
qed simp

lemma walkLeavesFrom_node:
  "node_ok l E t kvs \<Longrightarrow> sorted_kvs kvs \<Longrightarrow> l < n \<Longrightarrow>
   walkLeavesFrom n E t from cb s = fold_until (visit cb) s (from_key from kvs)"
proof (induction l arbitrary: n t kvs s rule: less_induct)
  case (less l)
  then obtain m where n: "n = Suc m" by (cases n) auto
  obtain es where es: "getEntries E t = Inr es" "ents_rel (sub_ok l E) E l es kvs"
    using less.prems(1) by (auto simp: node_ok_iff)
  have below: "walkLeavesFrom m E u from cb s = fold_until (visit cb) s (from_key from c)"
    if u: "sub_ok l E u c" "sorted_kvs c" for u c s
  proof -
    obtain l' where "l = Suc l'" "node_ok l' E u c" using u by (cases l) auto
    then show ?thesis using less.IH [of l' u c m] u less.prems(3) n by simp
  qed
  have rest: "walkEntries (\<lambda>t s. walkLeavesFrom m E t from cb s) cb post s = fold_until (visit cb) s b"
    if "ents_rel (sub_ok l E) E l post b" "sorted_kvs b" "keys_ge b from" for post b s
    by (rule walkEntries_rel [OF _ that]) (simp add: below)
  from es(2) less.prems(2) show ?case
  proof (cases rule: find_split [where k = "from"])
    case (gap pre post a b)
    then have "\<not> (length pre > 0 \<and> isTree (es ! (length pre - 1)))"
      by (cases pre rule: rev_cases) (auto simp: nth_append dest: isLeaf_not_isTree)
    then show ?thesis
      using n es(1) gap rest [OF gap(5)] less.prems(2) by (auto simp: Let_def sorted_kvs_append)
  next
    case (sub pre tk u post a c b)
    have "walkLeavesFrom m E u from cb s = fold_until (visit cb) s (from_key from c)"
      using below [OF sub(5)] less.prems(2) sub(3)
      by (simp add: sorted_kvs_append)
    then show ?thesis
      using n es(1) sub rest [OF sub(7)] less.prems(2)
      by (auto simp: Let_def sorted_kvs_append fold_until_append nth_append split: prod.split option.split)
  qed
qed

end
