(* ===== verification/Mst_Index.thy ===== *)
theory Mst_Index
  imports Mst_Remove
begin

text \<open>
  The tree as its callers use it: a finite map from keys to CIDs. The locale \<open>kv_index\<close> is the
  contract the rest of the program relies on, with every error the operations answer; it gives a
  simulation of the abstract map for any sequence of calls. The tree's operations, with the fuel a
  SHA-256 layer can ever need, interpret it.
\<close>

section \<open>The contract\<close>

datatype index_op = OpAdd bytes cid | OpUpdate bytes cid | OpDelete bytes | OpGet bytes

type_synonym index_result = "mst_error + cid option"

definition applied :: "'s \<Rightarrow> mst_error + 's \<Rightarrow> 's \<times> index_result" where
  "applied s r = (case r of Inl e \<Rightarrow> (s, Inl e) | Inr s' \<Rightarrow> (s', Inr None))"

definition index_step ::
  "('s \<Rightarrow> bytes \<Rightarrow> mst_error + cid) \<Rightarrow> ('s \<Rightarrow> bytes \<Rightarrow> cid \<Rightarrow> mst_error + 's)
   \<Rightarrow> ('s \<Rightarrow> bytes \<Rightarrow> cid \<Rightarrow> mst_error + 's) \<Rightarrow> ('s \<Rightarrow> bytes \<Rightarrow> mst_error + 's)
   \<Rightarrow> index_op \<Rightarrow> 's \<Rightarrow> 's \<times> index_result" where
  "index_step get add upd del c s =
     (case c of
        OpAdd k v \<Rightarrow> applied s (add s k v)
      | OpUpdate k v \<Rightarrow> applied s (upd s k v)
      | OpDelete k \<Rightarrow> applied s (del s k)
      | OpGet k \<Rightarrow> (s, map_sum id Some (get s k)))"

text \<open>The specification: a map, with the errors in the order the code checks for them.\<close>

type_synonym kv_map = "bytes \<Rightarrow> cid option"

definition map_Add :: "kv_map \<Rightarrow> bytes \<Rightarrow> cid \<Rightarrow> mst_error + kv_map" where
  "map_Add m k v =
     (if \<not> IsValidKey k then Inl ErrInvalidKey
      else if v = cid_Undef then Inl ErrUndefCid
      else if m k \<noteq> None then Inl ErrAlreadyExists
      else Inr (m(k \<mapsto> v)))"

definition map_Update :: "kv_map \<Rightarrow> bytes \<Rightarrow> cid \<Rightarrow> mst_error + kv_map" where
  "map_Update m k v =
     (if \<not> IsValidKey k then Inl ErrInvalidKey
      else if v = cid_Undef then Inl ErrUndefCid
      else if m k = None then Inl ErrNotFound
      else Inr (m(k \<mapsto> v)))"

definition map_Delete :: "kv_map \<Rightarrow> bytes \<Rightarrow> mst_error + kv_map" where
  "map_Delete m k = (if m k = None then Inl ErrNotFound else Inr (m(k := None)))"

definition map_Get :: "kv_map \<Rightarrow> bytes \<Rightarrow> mst_error + cid" where
  "map_Get m k = lookup_result (m k)"

definition refines :: "('s \<Rightarrow> kv_map \<Rightarrow> bool) \<Rightarrow> mst_error + 's \<Rightarrow> mst_error + kv_map \<Rightarrow> bool" where
  "refines R x y =
     (case (x, y) of (Inl e, Inl e') \<Rightarrow> e = e' | (Inr s, Inr m) \<Rightarrow> R s m | _ \<Rightarrow> False)"

lemma refines_simps [simp]:
  "refines R (Inl e) y \<longleftrightarrow> y = Inl e"
  "refines R (Inr s) y \<longleftrightarrow> (\<exists>m. y = Inr m \<and> R s m)"
  "refines R x (Inl e) \<longleftrightarrow> x = Inl e"
  "refines R x (Inr m) \<longleftrightarrow> (\<exists>s. x = Inr s \<and> R s m)"
  by (cases x; cases y; auto simp: refines_def)+

lemma applied_refines:
  "refines R x y \<Longrightarrow> R s m \<Longrightarrow> R (fst (applied s x)) (fst (applied m y)) \<and> snd (applied s x) = snd (applied m y)"
  by (cases x) (auto simp: applied_def)

locale kv_index =
  fixes repr :: "'s \<Rightarrow> kv_map \<Rightarrow> bool"
    and get :: "'s \<Rightarrow> bytes \<Rightarrow> mst_error + cid"
    and add :: "'s \<Rightarrow> bytes \<Rightarrow> cid \<Rightarrow> mst_error + 's"
    and upd :: "'s \<Rightarrow> bytes \<Rightarrow> cid \<Rightarrow> mst_error + 's"
    and del :: "'s \<Rightarrow> bytes \<Rightarrow> mst_error + 's"
  assumes get_refines: "repr s m \<Longrightarrow> get s k = map_Get m k"
    and add_refines: "repr s m \<Longrightarrow> refines repr (add s k v) (map_Add m k v)"
    and upd_refines: "repr s m \<Longrightarrow> refines repr (upd s k v) (map_Update m k v)"
    and del_refines: "repr s m \<Longrightarrow> refines repr (del s k) (map_Delete m k)"
begin

lemma get_after_add:
  "repr s m \<Longrightarrow> add s k v = Inr s' \<Longrightarrow> get s' k' = (if k' = k then Inr v else get s k')"
  using add_refines [of s m k v] get_refines
  by (auto simp: map_Add_def map_Get_def lookup_result_def split: if_splits)

lemma get_after_del:
  "repr s m \<Longrightarrow> del s k = Inr s' \<Longrightarrow> get s' k' = (if k' = k then Inl ErrNotFound else get s k')"
  using del_refines [of s m k] get_refines
  by (auto simp: map_Delete_def map_Get_def lookup_result_def split: if_splits)

lemma del_undoes_add:
  assumes "repr s m" and "add s k v = Inr s'"
  shows "\<exists>s''. del s' k = Inr s'' \<and> repr s'' m"
proof -
  have m: "repr s' (m(k \<mapsto> v))" "m k = None"
    using add_refines [OF assms(1), of k v] assms(2) by (auto simp: map_Add_def split: if_splits)
  then have "(m(k \<mapsto> v))(k := None) = m" by auto
  then show ?thesis using del_refines [OF m(1), of k] by (auto simp: map_Delete_def)
qed

end

sublocale kv_index \<subseteq> sim: simulation repr "index_step get add upd del"
    "index_step map_Get map_Add map_Update map_Delete"
proof
  fix s m c
  assume r: "repr s m"
  note steps = applied_refines [OF add_refines [OF r] r] applied_refines [OF upd_refines [OF r] r]
    applied_refines [OF del_refines [OF r] r]
  show "repr (fst (index_step get add upd del c s))
      (fst (index_step map_Get map_Add map_Update map_Delete c m))"
    using r steps by (cases c) (auto simp: index_step_def)
  show "snd (index_step get add upd del c s) = snd (index_step map_Get map_Add map_Update map_Delete c m)"
    using get_refines [OF r] steps by (cases c) (auto simp: index_step_def)
qed

section \<open>The tree meets it\<close>

text \<open>A layer is at most 128, so a call descends at most 129 nodes.\<close>

definition mst_fuel :: nat where
  "mst_fuel = 130"

definition mst_repr :: "mst_env \<Rightarrow> mst \<Rightarrow> kv_map \<Rightarrow> bool" where
  "mst_repr E t m \<longleftrightarrow>
     sha_ok E \<and> (\<exists>l kvs. l \<le> 128 \<and> node_ok l E t kvs \<and> sorted_kvs kvs \<and> m = map_of kvs)"

lemma mst_reprI:
  "sha_ok E \<Longrightarrow> l \<le> 128 \<Longrightarrow> node_ok l E t kvs \<Longrightarrow> sorted_kvs kvs \<Longrightarrow> m = map_of kvs \<Longrightarrow> mst_repr E t m"
  by (auto simp: mst_repr_def)

lemma mst_reprE:
  assumes "mst_repr E t m"
  obtains l kvs where "sha_ok E" "l \<le> 128" "l < mst_fuel" "node_ok l E t kvs" "sorted_kvs kvs" "m = map_of kvs"
  using assms by (auto simp: mst_repr_def mst_fuel_def)

lemma mst_repr_ins:
  "sha_ok E \<Longrightarrow> l \<le> 128 \<Longrightarrow> sorted_kvs kvs \<Longrightarrow> node_ok l E t (ins_kv k v kvs) \<Longrightarrow>
   mst_repr E t ((map_of kvs)(k \<mapsto> v))"
  by (rule mst_reprI [of _ l _ "ins_kv k v kvs"]) (auto simp: map_of_ins_kv sorted_ins_kv)

lemma mst_fuel_pos: "\<exists>n. mst_fuel = Suc n"
  by (simp add: mst_fuel_def)

lemma mst_repr_empty: "sha_ok E \<Longrightarrow> mst_repr E NewEmptyMST Map.empty"
  by (rule mst_reprI [OF _ _ node_ok_NewEmptyMST]) auto

lemma mst_Add_refines:
  assumes "mst_repr E t m"
  shows "refines (mst_repr E) (mst_Add mst_fuel E t k v (- 1)) (map_Add m k v)"
proof -
  from assms obtain l kvs where t: "sha_ok E" "l \<le> 128" "l < mst_fuel" "node_ok l E t kvs"
    "sorted_kvs kvs" "m = map_of kvs" by (rule mst_reprE)
  obtain n where n: "mst_fuel = Suc n" using mst_fuel_pos by blast
  define L where "L = max l (leadingZerosOnHash E k)"
  have z: "L \<le> 128" using leadingZerosOnHash_le [OF t(1)] t(2) by (simp add: L_def)
  then have z': "L < mst_fuel" by (simp add: mst_fuel_def)
  show ?thesis
  proof (cases "IsValidKey k \<and> v \<noteq> cid_Undef")
    case True
    then show ?thesis
      using mst_Add_node [OF t(4,5) z' [unfolded L_def], of v "- 1", folded L_def] t z
      by (auto simp: map_Add_def has_key_map_of simp del: mst_Add.simps
          intro: mst_repr_ins split: if_splits)
  qed (auto simp: n map_Add_def ensureValidKey_def)
qed

lemma mst_Update_refines:
  assumes "mst_repr E t m"
  shows "refines (mst_repr E) (mst_Update mst_fuel E t k v) (map_Update m k v)"
proof -
  from assms obtain l kvs where t: "sha_ok E" "l \<le> 128" "l < mst_fuel" "node_ok l E t kvs"
    "sorted_kvs kvs" "m = map_of kvs" by (rule mst_reprE)
  obtain n where n: "mst_fuel = Suc n" using mst_fuel_pos by blast
  show ?thesis
  proof (cases "IsValidKey k \<and> v \<noteq> cid_Undef")
    case True
    then show ?thesis
      using mst_Update_node [OF t(4,5,3), of k v] t
      by (auto simp: map_Update_def has_key_map_of simp del: mst_Update.simps
          intro: mst_repr_ins split: if_splits)
  qed (auto simp: n map_Update_def ensureValidKey_def)
qed

lemma mst_Delete_refines:
  assumes "mst_repr E t m"
  shows "refines (mst_repr E) (mst_Delete mst_fuel E t k) (map_Delete m k)"
proof -
  from assms obtain l kvs where t: "sha_ok E" "l \<le> 128" "l < mst_fuel" "node_ok l E t kvs"
    "sorted_kvs kvs" "m = map_of kvs" by (rule mst_reprE)
  show ?thesis
  proof (cases "has_key k kvs")
    case True
    then obtain l' r where "mst_Delete mst_fuel E t k = Inr r" "l' \<le> l" "node_ok l' E r (del_kv k kvs)"
      using mst_Delete_node [OF t(4,5,3)] by blast
    then show ?thesis
      using True t by (auto simp: map_Delete_def has_key_map_of map_of_del_kv sorted_del_kv
          intro!: mst_reprI [of _ l' _ "del_kv k kvs"])
  next
    case False
    then show ?thesis
      using mst_Delete_absent [OF t(4,5,3)] t(6) by (simp add: map_Delete_def has_key_map_of)
  qed
qed

interpretation tree: kv_index "mst_repr E" "mst_Get mst_fuel E"
    "\<lambda>t k v. mst_Add mst_fuel E t k v (- 1)" "mst_Update mst_fuel E" "mst_Delete mst_fuel E"
  for E :: mst_env
proof
  show "mst_Get mst_fuel E s k = map_Get m k" if "mst_repr E s m" for s m k
    using that mst_Get_node by (auto simp: map_Get_def elim!: mst_reprE)
qed (rule mst_Add_refines mst_Update_refines mst_Delete_refines, assumption)+

definition mst_step :: "mst_env \<Rightarrow> index_op \<Rightarrow> mst \<Rightarrow> mst \<times> index_result" where
  "mst_step E = index_step (mst_Get mst_fuel E) (\<lambda>t k v. mst_Add mst_fuel E t k v (- 1))
     (mst_Update mst_fuel E) (mst_Delete mst_fuel E)"

definition map_step :: "index_op \<Rightarrow> kv_map \<Rightarrow> kv_map \<times> index_result" where
  "map_step = index_step map_Get map_Add map_Update map_Delete"

section \<open>Properties of the tree\<close>

text \<open>A small hash for the witnesses: ''b'' is at layer 1, ''c'' at layer 2, other keys at 0.\<close>

definition demo_env :: mst_env where
  "demo_env = \<lparr> sha256_Sum256 = (\<lambda>k. (if k = ''b'' then 0x3F else if k = ''c'' then 0x0F else 0xFF) # replicate 31 0),
     cst_Get = (\<lambda>_. Inl ErrNotFound) \<rparr>"

lemma sha_ok_demo: "sha_ok demo_env"
  by (simp add: sha_ok_def demo_env_def)

definition demo_tree :: mst where
  "demo_tree = MST (Some [entryTree [] (MST (Some [entryLeaf ''a'' ''A'']) 0 cid_Undef False),
     entryLeaf ''b'' ''B'']) 1 cid_Undef False"

lemma node_ok_demo: "node_ok 1 demo_env demo_tree [(''a'', ''A''), (''b'', ''B'')]"
proof -
  have "node_ok 0 demo_env (MST (Some [entryLeaf ''a'' ''A'']) 0 cid_Undef False) [(''a'', ''A'')]"
    by (simp add: node_ok_iff getEntries_def layer_ok_def leadingZerosOnHash_def
        leadingZerosOnHashBytes_def demo_env_def)
  moreover have "leadingZerosOnHash demo_env ''b'' = 1"
    by (simp add: leadingZerosOnHash_def leadingZerosOnHashBytes_def demo_env_def)
  ultimately show ?thesis
    by (auto simp: demo_tree_def node_ok_iff [of "Suc 0"] getEntries_def layer_ok_def Cons_eq_append_conv)
qed

lemma sorted_demo: "sorted_kvs [(''a'', ''A''), (''b'', ''B'')]"
  by (simp add: sorted_kvs_def)



text \<open>\<open>Add\<close> on a well-formed node of any layer: the error \<open>ErrAlreadyExists\<close> exactly when the
  key is there, and otherwise a well-formed tree for the list with the pair inserted, whose root is
  at the higher of the old layer and the key's layer.\<close>

theorem mst_Add_correct:
  assumes "node_ok l E t kvs" and "sorted_kvs kvs" and "max l (leadingZerosOnHash E k) < n"
    and "IsValidKey k" and "v \<noteq> cid_Undef"
  shows "if has_key k kvs then mst_Add n E t k v (- 1) = Inl ErrAlreadyExists
     else \<exists>t'. mst_Add n E t k v (- 1) = Inr t' \<and>
            node_ok (max l (leadingZerosOnHash E k)) E t' (ins_kv k v kvs)"
  using mst_Add_node [OF assms] by simp

theorem mst_Add_correct_witness:
  "\<exists>t'. mst_Add 5 demo_env demo_tree ''c'' ''C'' (- 1) = Inr t' \<and>
     node_ok 2 demo_env t' [(''a'', ''A''), (''b'', ''B''), (''c'', ''C'')]"
proof -
  have z: "leadingZerosOnHash demo_env ''c'' = 2"
    by (simp add: leadingZerosOnHash_def leadingZerosOnHashBytes_def demo_env_def)
  have "IsValidKey ''c''"
    by (simp add: IsValidKey_def MaxKeyBytes_def utf8_ValidString_def)
  moreover have "ins_kv ''c'' ''C'' [(''a'', ''A''), (''b'', ''B'')] = [(''a'', ''A''), (''b'', ''B''), (''c'', ''C'')]"
    by code_simp
  ultimately show ?thesis
    using mst_Add_correct [OF node_ok_demo sorted_demo, of "''c''" 5 "''C''"] z
    by (simp add: cid_Undef_def max_def has_key_def del: mst_Add.simps ins_kv.simps)
qed



text \<open>C23. The ordered walk visits, in key order, exactly the pairs whose key is at or after the
  starting key, threading the callback's state and stopping at its first error; a callback that
  answers \<open>ErrStopWalk\<close> ends the walk without an error.\<close>

theorem WalkLeavesFrom_correct:
  assumes "node_ok l E t kvs" and "sorted_kvs kvs" and "l < n"
  shows "WalkLeavesFrom n E t from cb s =
    (case fold_until (visit cb) s (from_key from kvs) of
       (s', Some ErrStopWalk) \<Rightarrow> (s', None)
     | r \<Rightarrow> r)"
  by (simp add: WalkLeavesFrom_def walkLeavesFrom_node [OF assms])

theorem WalkLeavesFrom_correct_witness:
  "WalkLeavesFrom 5 demo_env demo_tree ''aa'' (\<lambda>s k v. (s @ [(k, v)], None)) [] = ([(''b'', ''B'')], None)"
proof -
  have "from_key ''aa'' [(''a'', ''A''), (''b'', ''B'')] = [(''b'', ''B'')]" by code_simp
  then show ?thesis
    using WalkLeavesFrom_correct [OF node_ok_demo sorted_demo, of 5 "''aa''" "\<lambda>s k v. (s @ [(k, v)], None)" "[]"]
    by (simp add: visit_def)
qed

text \<open>\<open>splitAround\<close> a key that is not in the tree: two trees at the same layer, one holding the
  pairs below the key and one those above, an empty half being nil.\<close>

theorem splitAround_correct:
  assumes "node_ok l E t kvs" and "sorted_kvs kvs" and "l < n" and "\<not> has_key k kvs"
  shows "\<exists>L R a b. splitAround n E t k = Inr (L, R) \<and> kvs = a @ b \<and> keys_lt a k \<and> keys_gt b k
     \<and> opt_ok l E (layer t) L a \<and> opt_ok l E (layer t) R b"
  using splitAround_node [OF assms] .

theorem splitAround_correct_witness:
  "\<exists>L R a b. splitAround 5 demo_env demo_tree ''ab'' = Inr (L, R) \<and> a @ b = [(''a'', ''A''), (''b'', ''B'')]
     \<and> keys_lt a ''ab'' \<and> keys_gt b ''ab''"
  using splitAround_correct [OF node_ok_demo sorted_demo, of 5 "''ab''"]
  by (simp add: has_key_def del: splitAround.simps) metis


end
