(* ===== verification/Mst_Persist.thy ===== *)
theory Mst_Persist
  imports Mst_Index Op_Staging
begin

text \<open>
  Writing a tree out: \<open>GetPointer\<close> of \<open>mst.go\<close> with \<open>serializeNodeData\<close> and \<open>cidForEntries\<close> of
  \<open>mst_util.go\<close>, over the staging buffer of the running transaction, which is both where the tree
  reads its nodes from and where it writes them. A block's CID is computed by the CBOR encoder and
  SHA-256, which are an argument (\<open>addr\<close>); it may fail, for a node too large to encode.

  The theorems: a node's codec is a round trip although keys are prefix-compressed; the tree loaded
  back from the pointer means exactly what the tree in memory meant; and the pointer is a function
  of the pairs alone, so two histories that end in the same map publish the same root.
\<close>

section \<open>The transaction's view of the store\<close>

type_synonym node_store = "NodeData OpStaging"
type_synonym node_addr = "NodeData \<Rightarrow> mst_error + cid"

definition tx_env :: "mst_env \<Rightarrow> node_store \<Rightarrow> mst_env" where
  "tx_env E w = E\<lparr> cst_Get := staging_Get (cst_Get E) w \<rparr>"

definition tx_Put :: "node_addr \<Rightarrow> NodeData \<Rightarrow> node_store \<Rightarrow> mst_error + cid \<times> node_store" where
  "tx_Put addr nd w = bindE (addr nd) (\<lambda>c. Inr (c, staging_Put (c, nd) w))"

section \<open>Serialising a node\<close>

type_synonym get_pointer = "mst \<Rightarrow> node_store \<Rightarrow> mst_error + cid \<times> mst \<times> node_store"

definition mkEntry :: "bytes \<Rightarrow> nodeEntry \<Rightarrow> cid option \<Rightarrow> TreeEntry" where
  "mkEntry lastKey leaf subtree =
     (let prefixLen = countPrefixLen lastKey (Key leaf)
      in \<lparr> PrefixLen = int prefixLen, KeySuffix = drop prefixLen (Key leaf),
           Val = LeafVal leaf, TreePtr = subtree \<rparr>)"

fun serializeEntries ::
  "get_pointer \<Rightarrow> bytes \<Rightarrow> nodeEntry list \<Rightarrow> node_store \<Rightarrow> mst_error + TreeEntry list \<times> node_store" where
  "serializeEntries gp lastKey [] w = Inr ([], w)"
| "serializeEntries gp lastKey (leaf # rest) w =
     (if \<not> isLeaf leaf then Inl ErrTwoSubtrees
      else
        case rest of
          entryTree _ nxt # rest' \<Rightarrow>
            bindE (gp nxt w) (\<lambda>(ptr, _, w1).
            bindE (ensureValidKey (Key leaf)) (\<lambda>_.
            bindE (serializeEntries gp (Key leaf) rest' w1) (\<lambda>(es, w2).
              Inr (mkEntry lastKey leaf (Some ptr) # es, w2))))
        | _ \<Rightarrow>
            bindE (ensureValidKey (Key leaf)) (\<lambda>_.
            bindE (serializeEntries gp (Key leaf) rest w) (\<lambda>(es, w2).
              Inr (mkEntry lastKey leaf None # es, w2))))"

definition serializeNodeData ::
  "get_pointer \<Rightarrow> nodeEntry list \<Rightarrow> node_store \<Rightarrow> mst_error + NodeData \<times> node_store" where
  "serializeNodeData gp ents w =
     (case ents of
        entryTree _ t # rest \<Rightarrow>
          bindE (gp t w) (\<lambda>(ptr, _, w1).
          bindE (serializeEntries gp [] rest w1) (\<lambda>(es, w2).
            Inr (\<lparr> Left = Some ptr, Entries = es \<rparr>, w2)))
      | _ \<Rightarrow>
          bindE (serializeEntries gp [] ents w) (\<lambda>(es, w2).
            Inr (\<lparr> Left = None, Entries = es \<rparr>, w2)))"

definition cidForEntries ::
  "get_pointer \<Rightarrow> node_addr \<Rightarrow> nodeEntry list \<Rightarrow> node_store \<Rightarrow> mst_error + cid \<times> node_store" where
  "cidForEntries gp addr ents w =
     bindE (serializeNodeData gp ents w) (\<lambda>(nd, w1). tx_Put addr nd w1)"

section \<open>GetPointer\<close>

text \<open>The loop over the children; a child whose pointer is still valid is left alone.\<close>

fun pointEntries ::
  "get_pointer \<Rightarrow> nodeEntry list \<Rightarrow> node_store \<Rightarrow> mst_error + nodeEntry list \<times> node_store" where
  "pointEntries gp [] w = Inr ([], w)"
| "pointEntries gp (e # es) w =
     (case e of
        entryTree k s \<Rightarrow>
          if validPtr s then bindE (pointEntries gp es w) (\<lambda>(es', w'). Inr (e # es', w'))
          else
            bindE (gp s w) (\<lambda>(_, s', w1).
            bindE (pointEntries gp es w1) (\<lambda>(es', w'). Inr (entryTree k s' # es', w')))
      | _ \<Rightarrow> bindE (pointEntries gp es w) (\<lambda>(es', w'). Inr (e # es', w')))"

fun GetPointer :: "nat \<Rightarrow> mst_env \<Rightarrow> node_addr \<Rightarrow> get_pointer" where
  "GetPointer 0 E addr t w = Inl OutOfFuel"
| "GetPointer (Suc n) E addr t w =
     (if validPtr t then Inr (pointer t, t, w)
      else
        bindE (getEntries (tx_env E w) t) (\<lambda>es.
        bindE (pointEntries (GetPointer n E addr) es w) (\<lambda>(es', w1).
        bindE (cidForEntries (GetPointer n E addr) addr es' w1) (\<lambda>(nptr, w2).
          Inr (nptr, MST (Some es') (layer t) nptr True, w2)))))"

section \<open>The node codec is a round trip\<close>

lemma countPrefixLen_le: "countPrefixLen a b \<le> length a"
  by (induction a b rule: countPrefixLen.induct) auto

lemma countPrefixLen_restore: "take (countPrefixLen a b) a @ drop (countPrefixLen a b) b = b"
  by (induction a b rule: countPrefixLen.induct) auto

lemma countPrefixLen_Nil [simp]: "countPrefixLen [] b = 0"
  by (cases b) auto

text \<open>What a node decodes to once it was written: leaves as they were, subtrees by pointer.\<close>

fun reload :: "int \<Rightarrow> bytes \<Rightarrow> nodeEntry list \<Rightarrow> nodeEntry list" where
  "reload l k [] = []"
| "reload l k (entryTree _ s # es) = entryTree k (createMST (pointer s) None (l - 1)) # reload l k es"
| "reload l _ (entryLeaf k v # es) = entryLeaf k v # reload l k es"
| "reload l k (entryUndefined # es) = reload l k es"

fun entriesOf :: "bytes \<Rightarrow> nodeEntry list \<Rightarrow> TreeEntry list" where
  "entriesOf lk (entryLeaf k v # entryTree _ s # es) =
     mkEntry lk (entryLeaf k v) (Some (pointer s)) # entriesOf k es"
| "entriesOf lk (entryLeaf k v # es) = mkEntry lk (entryLeaf k v) None # entriesOf k es"
| "entriesOf lk _ = []"

definition nodeDataOf :: "nodeEntry list \<Rightarrow> NodeData" where
  "nodeDataOf es =
     (case es of
        entryTree _ s # rest \<Rightarrow> \<lparr> Left = Some (pointer s), Entries = entriesOf [] rest \<rparr>
      | _ \<Rightarrow> \<lparr> Left = None, Entries = entriesOf [] es \<rparr>)"

definition leaf_keys_valid :: "nodeEntry list \<Rightarrow> bool" where
  "leaf_keys_valid es \<longleftrightarrow> (\<forall>e \<in> set es. isLeaf e \<longrightarrow> IsValidKey (Key e))"

text \<open>Entries the codec accepts: no undefined entry, no two trees side by side.\<close>

definition shaped :: "nodeEntry list \<Rightarrow> bool" where
  "shaped es \<longleftrightarrow> \<not> adjacentTrees es \<and> entryUndefined \<notin> set es"

lemma deserialize_mkEntry:
  assumes "IsValidKey k"
  shows "deserializeEntries l lk (mkEntry lk (entryLeaf k v) p # es) =
    bindE (deserializeEntries l k es) (\<lambda>rest.
      Inr (entryLeaf k v # (case p of None \<Rightarrow> [] | Some p \<Rightarrow> [entryTree k (createMST p None (l - 1))]) @ rest))"
  using assms countPrefixLen_le [of lk k] countPrefixLen_restore [of lk k]
  by (simp add: mkEntry_def Let_def ensureValidKey_def)

declare deserializeEntries.simps(2) [simp del]

lemma deserialize_entriesOf:
  "shaped es \<Longrightarrow> leaf_keys_valid es \<Longrightarrow> es = [] \<or> isLeaf (hd es) \<Longrightarrow>
   deserializeEntries l lk (entriesOf lk es) = Inr (reload l lk es)"
proof (induction lk es rule: entriesOf.induct)
  case (1 lk k v tk s es)
  have "es = [] \<or> isLeaf (hd es)"
    using 1(2) by (cases es; cases "hd es") (auto simp: shaped_def)
  moreover have "shaped es" "leaf_keys_valid es" "IsValidKey k"
    using 1(2,3) by (cases es; auto simp: shaped_def leaf_keys_valid_def)+
  ultimately show ?case using 1(1) by (simp add: deserialize_mkEntry)
qed (auto simp: deserialize_mkEntry leaf_keys_valid_def shaped_def)

lemma deserialize_nodeDataOf:
  assumes "shaped es" and "leaf_keys_valid es"
  shows "deserializeNodeData (nodeDataOf es) l = Inr (reload l [] es)"
proof (cases es)
  case (Cons e rest)
  show ?thesis
  proof (cases e)
    case (entryTree k s)
    then have "rest = [] \<or> isLeaf (hd rest)"
      using assms(1) Cons by (cases rest; cases "hd rest") (auto simp: shaped_def)
    moreover have "shaped rest" "leaf_keys_valid rest"
      using assms Cons by (cases rest; auto simp: shaped_def leaf_keys_valid_def)+
    ultimately show ?thesis
      using Cons entryTree deserialize_entriesOf [of rest l "[]"]
      by (simp add: nodeDataOf_def deserializeNodeData_def)
  next
    case (entryLeaf k v)
    then show ?thesis
      using Cons assms deserialize_entriesOf [of es l "[]"]
      by (simp add: nodeDataOf_def deserializeNodeData_def)
  qed (use assms Cons in \<open>simp add: shaped_def\<close>)
qed (simp add: nodeDataOf_def deserializeNodeData_def)

lemma entriesOf_reload:
  "shaped es \<Longrightarrow> es = [] \<or> isLeaf (hd es) \<Longrightarrow> entriesOf lk (reload l k0 es) = entriesOf lk es"
proof (induction lk es arbitrary: k0 rule: entriesOf.induct)
  case (1 lk k v tk s es)
  have "es = [] \<or> isLeaf (hd es)" "shaped es"
    using 1(2) by (cases es; cases "hd es"; auto simp: shaped_def)+
  then show ?case using 1(1) by (simp add: createMST_def)
qed (auto simp: shaped_def)

lemma nodeDataOf_reload:
  assumes "shaped es"
  shows "nodeDataOf (reload l k es) = nodeDataOf es"
proof (cases es)
  case (Cons e rest)
  show ?thesis
  proof (cases e)
    case (entryTree k' s)
    then have "rest = [] \<or> isLeaf (hd rest)" "shaped rest"
      using assms Cons by (cases rest; cases "hd rest"; auto simp: shaped_def)+
    then show ?thesis
      using Cons entryTree entriesOf_reload [of rest "[]" l k] by (simp add: nodeDataOf_def createMST_def)
  next
    case (entryLeaf k' v)
    then show ?thesis
      using Cons assms entriesOf_reload [of es "[]" l k] by (simp add: nodeDataOf_def)
  qed (use assms Cons in \<open>simp add: shaped_def\<close>)
qed (simp add: nodeDataOf_def)

text \<open>Serialising entries whose subtrees all have their pointer writes nothing but the node.\<close>

definition pointed :: "get_pointer \<Rightarrow> nodeEntry list \<Rightarrow> node_store \<Rightarrow> bool" where
  "pointed gp es w \<longleftrightarrow> (\<forall>k s. entryTree k s \<in> set es \<longrightarrow> gp s w = Inr (pointer s, s, w))"

lemma serialize_entriesOf:
  "shaped es \<Longrightarrow> leaf_keys_valid es \<Longrightarrow> pointed gp es w \<Longrightarrow> es = [] \<or> isLeaf (hd es) \<Longrightarrow>
   serializeEntries gp lk es w = Inr (entriesOf lk es, w)"
proof (induction lk es rule: entriesOf.induct)
  case (1 lk k v tk s es)
  have "es = [] \<or> isLeaf (hd es)"
    using 1(2) by (cases es; cases "hd es") (auto simp: shaped_def)
  moreover have "shaped es" "leaf_keys_valid es" "IsValidKey k" "pointed gp es w" "gp s w = Inr (pointer s, s, w)"
    using 1(2-4) by (cases es; auto simp: shaped_def leaf_keys_valid_def pointed_def)+
  ultimately show ?case using 1(1) by (simp add: ensureValidKey_def)
qed (auto simp: leaf_keys_valid_def ensureValidKey_def shaped_def pointed_def)

lemma serialize_nodeDataOf:
  assumes "shaped es" and "leaf_keys_valid es" and "pointed gp es w"
  shows "serializeNodeData gp es w = Inr (nodeDataOf es, w)"
proof (cases es)
  case (Cons e rest)
  show ?thesis
  proof (cases e)
    case (entryTree k s)
    then have "rest = [] \<or> isLeaf (hd rest)"
      using assms(1) Cons by (cases rest; cases "hd rest") (auto simp: shaped_def)
    moreover have "shaped rest" "leaf_keys_valid rest" "pointed gp rest w" "gp s w = Inr (pointer s, s, w)"
      using assms Cons entryTree by (cases rest; auto simp: shaped_def leaf_keys_valid_def pointed_def)+
    ultimately show ?thesis
      using Cons entryTree serialize_entriesOf [of rest gp w "[]"]
      by (simp add: nodeDataOf_def serializeNodeData_def)
  next
    case (entryLeaf k v)
    then show ?thesis
      using Cons assms serialize_entriesOf [of es gp w "[]"]
      by (simp add: nodeDataOf_def serializeNodeData_def)
  qed (use assms Cons in \<open>simp add: shaped_def\<close>)
qed (simp add: nodeDataOf_def serializeNodeData_def)

section \<open>Meaning is stable under new blocks\<close>

definition env_le :: "mst_env \<Rightarrow> mst_env \<Rightarrow> bool" where
  "env_le E E' \<longleftrightarrow> sha256_Sum256 E = sha256_Sum256 E'
     \<and> (\<forall>c nd. cst_Get E c = Inr nd \<longrightarrow> cst_Get E' c = Inr nd)"

lemma env_le_refl [simp]: "env_le E E"
  by (simp add: env_le_def)

lemma env_le_trans: "env_le E E' \<Longrightarrow> env_le E' E'' \<Longrightarrow> env_le E E''"
  by (simp add: env_le_def)

lemma zeros_env: "env_le E E' \<Longrightarrow> leadingZerosOnHash E' k = leadingZerosOnHash E k"
  by (simp add: env_le_def leadingZerosOnHash_def leadingZerosOnHashBytes_def)

lemma getEntries_mono: "env_le E E' \<Longrightarrow> getEntries E t = Inr es \<Longrightarrow> getEntries E' t = Inr es"
  by (auto simp: getEntries_def env_le_def entriesFromNodeData_def leadingZerosOnHashBytes_def
      bindE_eq_Inr split: option.splits if_splits list.splits)

lemma ents_rel_mono:
  assumes "\<And>s c. P s c \<Longrightarrow> P' s c" and "\<And>k. leadingZerosOnHash E' k = leadingZerosOnHash E k"
  shows "ents_rel P E l es kvs \<Longrightarrow> ents_rel P' E' l es kvs"
proof (induction es arbitrary: kvs)
  case (Cons x es)
  then show ?case using assms by (cases x; simp) blast+
qed simp

lemma node_ok_mono: "env_le E E' \<Longrightarrow> node_ok l E t kvs \<Longrightarrow> node_ok l E' t kvs"
proof (induction l arbitrary: t kvs)
  case 0
  have "ents_rel (\<lambda>_ _. False) E' 0 es kvs" if "ents_rel (\<lambda>_ _. False) E 0 es kvs" for es
    using ents_rel_mono [OF _ zeros_env [OF 0(1)] that] by blast
  then show ?case
    using 0 getEntries_mono [OF 0(1)] unfolding node_ok_iff ptr_ok_def sub_ok_simps by blast
next
  case (Suc l)
  have "ents_rel (node_ok l E') E' (Suc l) es kvs" if "ents_rel (node_ok l E) E (Suc l) es kvs" for es
    using ents_rel_mono [OF _ zeros_env [OF Suc.prems(1)] that] Suc by blast
  then show ?case
    using Suc.prems getEntries_mono [OF Suc.prems(1)] unfolding node_ok_iff ptr_ok_def sub_ok_simps by blast
qed

lemma sub_ok_mono: "env_le E E' \<Longrightarrow> sub_ok l E t kvs \<Longrightarrow> sub_ok l E' t kvs"
  using node_ok_mono by (cases l) auto

text \<open>Blocks are addressed by content: no two nodes share a CID, and a block read under a node's CID is
  that node. The store holds other blocks too (manifests, leaves), which the node decoder reads as a node
  without entries, since it skips the fields it does not know; every other block it reads as a node
  is the one its CID names, encoded the way \<open>serializeNodeData\<close> encodes it.\<close>

definition addr_ok :: "node_addr \<Rightarrow> bool" where
  "addr_ok addr \<longleftrightarrow> (\<forall>nd c. addr nd = Inr c \<longrightarrow> cid_Defined c)
     \<and> (\<forall>nd nd' c. addr nd = Inr c \<longrightarrow> addr nd' = Inr c \<longrightarrow> nd = nd')"

definition encoded :: "NodeData \<Rightarrow> bool" where
  "encoded nd \<longleftrightarrow> (\<forall>l es. deserializeNodeData nd l = Inr es \<longrightarrow> nodeDataOf es = nd)"

definition store_agrees :: "node_addr \<Rightarrow> mst_env \<Rightarrow> bool" where
  "store_agrees addr E \<longleftrightarrow> (\<forall>c nd nd'. addr nd = Inr c \<longrightarrow> cst_Get E c = Inr nd' \<longrightarrow> nd' = nd)"

definition emptyNode :: NodeData where
  "emptyNode = \<lparr> Left = None, Entries = [] \<rparr>"

definition store_ok :: "node_addr \<Rightarrow> mst_env \<Rightarrow> bool" where
  "store_ok addr E \<longleftrightarrow> store_agrees addr E
     \<and> (\<forall>c nd. cst_Get E c = Inr nd \<longrightarrow> nd = emptyNode \<or> addr nd = Inr c \<and> encoded nd)"

lemma tx_env_Put:
  assumes "addr_ok addr" and "store_agrees addr (tx_env E w)" and "addr nd = Inr c" and "encoded nd"
  shows "env_le (tx_env E w) (tx_env E (staging_Put (c, nd) w))"
    and "store_agrees addr (tx_env E (staging_Put (c, nd) w))"
    and "store_ok addr (tx_env E w) \<Longrightarrow> store_ok addr (tx_env E (staging_Put (c, nd) w))"
    and "cst_Get (tx_env E (staging_Put (c, nd) w)) c = Inr nd"
proof -
  have same: "staging_Get (cst_Get E) w c = Inr nd" if "gm_get (blocks w) c \<noteq> None"
    using that assms(2,3) unfolding store_agrees_def tx_env_def staging_Get_def by fastforce
  show "env_le (tx_env E w) (tx_env E (staging_Put (c, nd) w))"
    using assms unfolding env_le_def store_agrees_def tx_env_def by (auto simp: staging_Get_Put)
  show agrees: "store_agrees addr (tx_env E (staging_Put (c, nd) w))"
    using assms(1-3) unfolding store_agrees_def addr_ok_def tx_env_def by (auto simp: staging_Get_Put split: if_splits)
  show "store_ok addr (tx_env E (staging_Put (c, nd) w))" if "store_ok addr (tx_env E w)"
    using that assms(3,4) agrees unfolding store_ok_def tx_env_def by (auto simp: staging_Get_Put split: if_splits)
  show "cst_Get (tx_env E (staging_Put (c, nd) w)) c = Inr nd"
    using same by (auto simp: tx_env_def staging_Get_Put)
qed

lemma encoded_nodeDataOf: "shaped es \<Longrightarrow> leaf_keys_valid es \<Longrightarrow> encoded (nodeDataOf es)"
  by (auto simp: encoded_def deserialize_nodeDataOf nodeDataOf_reload)

section \<open>The stored tree means the same\<close>

definition valid_keys :: "kvs \<Rightarrow> bool" where
  "valid_keys kvs \<longleftrightarrow> (\<forall>p \<in> set kvs. IsValidKey (fst p))"

lemma valid_keys_append [simp]: "valid_keys (a @ b) \<longleftrightarrow> valid_keys a \<and> valid_keys b"
  by (auto simp: valid_keys_def)

lemma ents_rel_shaped: "ents_rel P E l es kvs \<Longrightarrow> shaped es"
proof -
  have "ents_rel P E l es kvs \<Longrightarrow> entryUndefined \<notin> set es"
  proof (induction es arbitrary: kvs)
    case (Cons x es)
    then show ?case by (cases x) auto
  qed simp
  then show "ents_rel P E l es kvs \<Longrightarrow> shaped es" using ents_rel_no_adjacent by (auto simp: shaped_def)
qed

lemma ents_rel_leaf_keys: "ents_rel P E l es kvs \<Longrightarrow> valid_keys kvs \<Longrightarrow> leaf_keys_valid es"
  using ents_rel_leaf_mem by (fastforce simp: leaf_keys_valid_def valid_keys_def has_key_def)

lemma reload_hd_tree: "shaped es \<Longrightarrow> es \<noteq> [] \<Longrightarrow> isTree (hd (reload l k es)) = isTree (hd es)"
  by (cases es; cases "hd es") (auto simp: shaped_def)

lemma ents_rel_reload:
  assumes "\<And>s c. P s c \<Longrightarrow> c \<noteq> [] \<Longrightarrow> P' (createMST (pointer s) None (lay - 1)) c"
  shows "ents_rel P E l es kvs \<Longrightarrow> ents_rel P' E l (reload lay k es) kvs"
proof (induction es arbitrary: kvs k)
  case (Cons x es)
  show ?case
  proof (cases x)
    case (entryTree k' s)
    then obtain a b where ab: "kvs = a @ b" "a \<noteq> []" "P s a" "es = [] \<or> \<not> isTree (hd es)" "ents_rel P E l es b"
      using Cons.prems by auto
    have "reload lay k es = [] \<or> \<not> isTree (hd (reload lay k es))"
      using ab(4) reload_hd_tree [OF ents_rel_shaped [OF ab(5)]] by (cases "es = []") auto
    moreover have "P' (createMST (pointer s) None (lay - 1)) a" "ents_rel P' E l (reload lay k es) b"
      using assms Cons.IH ab by blast+
    ultimately show ?thesis unfolding entryTree reload.simps ents_rel.simps using ab(1,2) by blast
  qed (use Cons in auto)
qed simp

lemma entriesOf_leaf: "\<exists>p r. entriesOf lk (entryLeaf k v # es) = mkEntry lk (entryLeaf k v) p # r"
  by (cases es; cases "hd es") auto

lemma shaped_cases:
  assumes "shaped es"
  obtains "filter isLeaf es = []" "Entries (nodeDataOf es) = []"
    | k v r p r' where "filter isLeaf es = entryLeaf k v # r" "Entries (nodeDataOf es) = mkEntry [] (entryLeaf k v) p # r'"
proof -
  consider "es = []" | k s where "es = [entryTree k s]" | k v r where "es = entryLeaf k v # r"
    | k s k' v r where "es = entryTree k s # entryLeaf k' v # r"
    using assms by (cases es; cases "hd es"; cases "tl es"; cases "hd (tl es)") (auto simp: shaped_def)
  then show thesis
    by cases (use that entriesOf_leaf in \<open>fastforce simp: nodeDataOf_def\<close>)+
qed

text \<open>A node whose subtrees have their pointers, once put under its CID, reads back as its entries
  with the subtrees by pointer.\<close>

lemma stored_node_reads:
  assumes rel: "ents_rel P E l es kvs" and vk: "valid_keys kvs" and get: "cst_Get E c = Inr (nodeDataOf es)"
    and c: "cid_Defined c"
  obtains lay where "getEntries E (LoadMST c) = Inr (reload lay [] es)"
    and "lay = int l \<or> lay < 0"
proof -
  define lay where "lay = (case Entries (nodeDataOf es) of [] \<Rightarrow> - 1
    | f # _ \<Rightarrow> int (leadingZerosOnHashBytes E (KeySuffix f)))"
  note sh = ents_rel_shaped [OF rel] ents_rel_leaf_keys [OF rel vk]
  have "getEntries E (LoadMST c) = Inr (reload lay [] es)"
    using get c deserialize_nodeDataOf [OF sh, of lay]
    by (simp add: getEntries_def LoadMST_def createMST_def cid_Defined_def entriesFromNodeData_def lay_def)
  moreover have "lay = int l \<or> lay < 0"
  proof (cases rule: shaped_cases [OF sh(1)])
    case 1
    then show ?thesis by (simp add: lay_def)
  next
    case (2 k v r p r')
    then have "entryLeaf k v \<in> set (filter isLeaf es)" by simp
    then have "leadingZerosOnHash E k = l" using ents_rel_leaf_layer [OF rel, of "entryLeaf k v"] by simp
    then show ?thesis using 2 by (simp add: lay_def mkEntry_def leadingZerosOnHash_def)
  qed
  ultimately show thesis using that by blast
qed

section \<open>GetPointer is correct\<close>

definition grown :: "node_addr \<Rightarrow> mst_env \<Rightarrow> node_store \<Rightarrow> node_store \<Rightarrow> bool" where
  "grown addr E w w' \<longleftrightarrow> env_le (tx_env E w) (tx_env E w') \<and> store_agrees addr (tx_env E w')
     \<and> (store_ok addr (tx_env E w) \<longrightarrow> store_ok addr (tx_env E w'))"

lemma grown_trans: "grown addr E w w1 \<Longrightarrow> grown addr E w1 w2 \<Longrightarrow> grown addr E w w2"
  by (auto simp: grown_def intro: env_le_trans)

lemma zeros_tx_env [simp]: "leadingZerosOnHash (tx_env E w) k = leadingZerosOnHash E k"
  by (simp add: tx_env_def leadingZerosOnHash_def leadingZerosOnHashBytes_def)

lemma ents_rel_tx_env [simp]: "ents_rel P (tx_env E w) = ents_rel P E"
  by (intro ext iffI) (erule ents_rel_mono [rotated 2], auto)+

text \<open>The outcome of writing a tree out: an error is one the encoder gave for some node; otherwise
  the store has only grown, and the node now carries a valid pointer and means what it meant.\<close>

definition gp_spec ::
  "node_addr \<Rightarrow> mst_env \<Rightarrow> (mst_env \<Rightarrow> mst \<Rightarrow> kvs \<Rightarrow> bool) \<Rightarrow> node_store \<Rightarrow> kvs
   \<Rightarrow> mst_error + cid \<times> mst \<times> node_store \<Rightarrow> bool" where
  "gp_spec addr E P w kvs r =
     (case r of
        Inl e \<Rightarrow> \<exists>nd. addr nd = Inl e
      | Inr (c, t', w') \<Rightarrow> grown addr E w w' \<and> validPtr t' \<and> pointer t' = c \<and> P (tx_env E w') t' kvs)"

definition pe_spec ::
  "node_addr \<Rightarrow> mst_env \<Rightarrow> nat \<Rightarrow> node_store \<Rightarrow> nodeEntry list \<Rightarrow> kvs
   \<Rightarrow> mst_error + nodeEntry list \<times> node_store \<Rightarrow> bool" where
  "pe_spec addr E l w es kvs r =
     (case r of
        Inl e \<Rightarrow> \<exists>nd. addr nd = Inl e
      | Inr (es', w') \<Rightarrow> grown addr E w w' \<and> map isTree es' = map isTree es
          \<and> ents_rel (\<lambda>s c. sub_ok l (tx_env E w') s c \<and> validPtr s) E l es' kvs)"

lemma map_isTree_hd: "map isTree es' = map isTree es \<Longrightarrow> (es' = [] \<longleftrightarrow> es = []) \<and> (es \<noteq> [] \<longrightarrow> isTree (hd es') = isTree (hd es))"
  by (cases es; cases es') auto

lemma pe_spec_cons:
  assumes "pe_spec addr E l w1 es b (pointEntries gp es w1)" and "grown addr E w w1"
    and "\<And>es' w'. grown addr E w1 w' \<Longrightarrow> map isTree es' = map isTree es \<Longrightarrow>
      ents_rel (\<lambda>s c. sub_ok l (tx_env E w') s c \<and> validPtr s) E l es' b \<Longrightarrow>
      ents_rel (\<lambda>s c. sub_ok l (tx_env E w') s c \<and> validPtr s) E l (e' # es') kvs"
    and "isTree e' = isTree e"
  shows "pe_spec addr E l w (e # es) kvs (bindE (pointEntries gp es w1) (\<lambda>(es', w'). Inr (e' # es', w')))"
  using assms grown_trans [OF assms(2)]
  by (auto simp: pe_spec_def split: sum.splits)

lemma ents_rel_tree_mem: "ents_rel P E l es kvs \<Longrightarrow> entryTree k s \<in> set es \<Longrightarrow> \<exists>c. P s c"
proof (induction es arbitrary: kvs)
  case (Cons x es)
  then show ?case by (cases x) auto
qed simp

lemma ents_rel_sub_mono:
  assumes "env_le E1 E2" and "ents_rel (sub_ok l E1) E l es kvs"
  shows "ents_rel (sub_ok l E2) E l es kvs"
  by (rule ents_rel_mono [OF _ _ assms(2)]) (auto intro: sub_ok_mono [OF assms(1)])

lemma ents_rel_tree_cons:
  "P s a \<Longrightarrow> a \<noteq> [] \<Longrightarrow> es = [] \<or> \<not> isTree (hd es) \<Longrightarrow> ents_rel P E l es b \<Longrightarrow>
   ents_rel P E l (entryTree k s # es) (a @ b)"
  by simp blast

lemma pointEntries_ok:
  assumes gp: "\<And>s c w. sub_ok l (tx_env E w) s c \<Longrightarrow> store_agrees addr (tx_env E w) \<Longrightarrow> valid_keys c \<Longrightarrow>
      gp_spec addr E (sub_ok l) w c (gp s w)"
  shows "ents_rel (sub_ok l (tx_env E w)) E l es kvs \<Longrightarrow> store_agrees addr (tx_env E w) \<Longrightarrow> valid_keys kvs \<Longrightarrow>
    pe_spec addr E l w es kvs (pointEntries gp es w)"
proof (induction es arbitrary: kvs w)
  case Nil
  then show ?case by (simp add: pe_spec_def grown_def)
next
  case (Cons x es)
  have here: "grown addr E w w" using Cons.prems(2) by (simp add: grown_def)
  show ?case
  proof (cases x)
    case (entryLeaf k v)
    then obtain r where r: "kvs = (k, v) # r" "leadingZerosOnHash E k = l" "ents_rel (sub_ok l (tx_env E w)) E l es r"
      using Cons.prems(1) by auto
    then have "pe_spec addr E l w es r (pointEntries gp es w)"
      using Cons.IH Cons.prems by (simp add: valid_keys_def)
    then show ?thesis
      using pe_spec_cons [OF _ here, of l es r gp x kvs x] r entryLeaf by simp
  next
    case (entryTree k s)
    then obtain a b where ab: "kvs = a @ b" "a \<noteq> []" "sub_ok l (tx_env E w) s a"
      "es = [] \<or> \<not> isTree (hd es)" "ents_rel (sub_ok l (tx_env E w)) E l es b"
      using Cons.prems(1) by auto
    have vk: "valid_keys a" "valid_keys b" using Cons.prems(3) ab(1) by auto
    have put: "ents_rel (\<lambda>s c. sub_ok l (tx_env E w') s c \<and> validPtr s) E l (entryTree k s' # es') kvs"
      if "sub_ok l (tx_env E w1) s' a" "validPtr s'" "grown addr E w1 w'" "map isTree es' = map isTree es"
        "ents_rel (\<lambda>s c. sub_ok l (tx_env E w') s c \<and> validPtr s) E l es' b" for s' w1 w' es'
    proof -
      have "sub_ok l (tx_env E w') s' a" using that(1,3) sub_ok_mono by (auto simp: grown_def)
      then show ?thesis
        unfolding ab(1) using that(2,5) ab(2,4) map_isTree_hd [OF that(4)]
        by (intro ents_rel_tree_cons) auto
    qed
    show ?thesis
    proof (cases "validPtr s")
      case True
      have "pe_spec addr E l w es b (pointEntries gp es w)" using Cons.IH ab Cons.prems(2) vk by blast
      then show ?thesis
        using pe_spec_cons [OF _ here, of l es b gp x kvs x] put [OF ab(3) True] entryTree True by simp
    next
      case False
      have "gp_spec addr E (sub_ok l) w a (gp s w)" using gp ab(3) Cons.prems(2) vk by blast
      then consider e nd where "gp s w = Inl e" "addr nd = Inl e"
        | c s' w1 where "gp s w = Inr (c, s', w1)" "grown addr E w w1" "validPtr s'" "sub_ok l (tx_env E w1) s' a"
        by (auto simp: gp_spec_def split: sum.splits prod.splits)
      then show ?thesis
      proof cases
        case 1
        then show ?thesis using entryTree False by (auto simp: pe_spec_def)
      next
        case 2
        have "ents_rel (sub_ok l (tx_env E w1)) E l es b"
          using ents_rel_sub_mono [OF _ ab(5)] 2(2) by (simp add: grown_def)
        then have "pe_spec addr E l w1 es b (pointEntries gp es w1)"
          using Cons.IH vk 2(2) by (simp add: grown_def)
        then show ?thesis
          using pe_spec_cons [OF _ 2(2), of l es b gp "entryTree k s'" kvs x] put [OF 2(4,3)] entryTree False 2(1)
          by simp
      qed
    qed
  qed (use Cons.prems in simp)
qed

lemma node_ok_by_pointer:
  assumes "node_ok l E t kvs" and "validPtr t" and "lay = int l \<or> lay < 0 \<and> (kvs \<noteq> [] \<or> l = 0)"
  shows "node_ok l E (createMST (pointer t) None lay) kvs"
proof -
  obtain es where es: "getEntries E (LoadMST (pointer t)) = Inr es" "ents_rel (sub_ok l E) E l es kvs"
    using assms(1,2) by (auto simp: node_ok_iff ptr_ok_def)
  moreover have "getEntries E (createMST (pointer t) None lay) = Inr es"
    using es(1) by (auto simp: getEntries_def LoadMST_def createMST_def split: if_splits)
  moreover have "layer_ok (createMST (pointer t) None lay) l es"
    using assms(3) ents_rel_empty [OF es(2)] by (auto simp: layer_ok_def)
  moreover have "pointer (createMST (pointer t) None lay) = pointer t" by (simp add: createMST_def)
  ultimately show ?thesis by (auto simp: node_ok_iff ptr_ok_def)
qed

lemma stored_node_ok:
  assumes rel: "ents_rel (\<lambda>s c. sub_ok l E s c \<and> validPtr s) E l es kvs" and vk: "valid_keys kvs"
    and get: "cst_Get E c = Inr (nodeDataOf es)" and c: "cid_Defined c"
    and lay: "layer t = int l \<or> layer t < 0 \<and> (es \<noteq> [] \<or> l = 0)"
  shows "node_ok l E (MST (Some es) (layer t) c True) kvs"
proof -
  obtain lay where r: "getEntries E (LoadMST c) = Inr (reload lay [] es)" "lay = int l \<or> lay < 0"
    by (rule stored_node_reads [OF rel vk get c])
  have "sub_ok l E (createMST (pointer s) None (lay - 1)) c'" if "sub_ok l E s c' \<and> validPtr s" "c' \<noteq> []" for s c'
    using that r(2) node_ok_by_pointer by (cases l) auto
  from ents_rel_reload [where P' = "sub_ok l E", OF this rel]
  have "ents_rel (sub_ok l E) E l (reload lay [] es) kvs" .
  moreover have "ents_rel (sub_ok l E) E l es kvs" by (rule ents_rel_mono [OF _ _ rel]) auto
  ultimately show ?thesis
    using r(1) lay by (auto simp: node_ok_iff ptr_ok_def layer_ok_def getEntries_def)
qed

lemma GetPointer_node:
  assumes ad: "addr_ok addr"
  shows "node_ok l (tx_env E w) t kvs \<Longrightarrow> store_agrees addr (tx_env E w) \<Longrightarrow> valid_keys kvs \<Longrightarrow> l < n \<Longrightarrow>
    gp_spec addr E (node_ok l) w kvs (GetPointer n E addr t w)"
proof (induction l arbitrary: n t kvs w rule: less_induct)
  case (less l)
  then obtain m where n: "n = Suc m" by (cases n) auto
  show ?case
  proof (cases "validPtr t")
    case True
    then show ?thesis using n less.prems by (simp add: gp_spec_def grown_def)
  next
    case False
    obtain es where es: "getEntries (tx_env E w) t = Inr es" "layer_ok t l es"
      "ents_rel (sub_ok l (tx_env E w)) E l es kvs"
      using less.prems(1) by (auto simp: node_ok_iff)
    have gp: "gp_spec addr E (sub_ok l) w c (GetPointer m E addr s w)"
      if "sub_ok l (tx_env E w) s c" "store_agrees addr (tx_env E w)" "valid_keys c" for s c w
      using that less.IH [of "l - 1" w s c m] less.prems(4) n by (cases l) (auto simp: gp_spec_def split: sum.splits)
    have "pe_spec addr E l w es kvs (pointEntries (GetPointer m E addr) es w)"
      by (rule pointEntries_ok [OF gp es(3) less.prems(2,3)])
    then consider e nd where "pointEntries (GetPointer m E addr) es w = Inl e" "addr nd = Inl e"
      | es' w1 where "pointEntries (GetPointer m E addr) es w = Inr (es', w1)" "grown addr E w w1"
        "map isTree es' = map isTree es"
        "ents_rel (\<lambda>s c. sub_ok l (tx_env E w1) s c \<and> validPtr s) E l es' kvs"
      by (auto simp: pe_spec_def split: sum.splits prod.splits)
    then show ?thesis
    proof cases
      case 1
      then show ?thesis using n es(1) False by (auto simp: gp_spec_def)
    next
      case 2
      have lay: "layer t = int l \<or> layer t < 0 \<and> (es' \<noteq> [] \<or> l = 0)"
        using es(2) map_isTree_hd [OF 2(3)] by (auto simp: layer_ok_def)
      have "validPtr s \<Longrightarrow> 0 < m \<Longrightarrow> GetPointer m E addr s w1 = Inr (pointer s, s, w1)" for s
        by (cases m) auto
      moreover have "entryTree k s \<in> set es' \<Longrightarrow> validPtr s \<and> 0 < l" for k s
        using ents_rel_tree_mem [OF 2(4)] by (cases l) auto
      ultimately have pt: "pointed (GetPointer m E addr) es' w1"
        using less.prems(4) n by (auto simp: pointed_def)
      note sh = ents_rel_shaped [OF 2(4)] ents_rel_leaf_keys [OF 2(4) less.prems(3)]
      have ser: "cidForEntries (GetPointer m E addr) addr es' w1
          = bindE (addr (nodeDataOf es')) (\<lambda>c. Inr (c, staging_Put (c, nodeDataOf es') w1))"
        using serialize_nodeDataOf [OF sh pt]
        by (simp add: cidForEntries_def tx_Put_def)
      show ?thesis
      proof (cases "addr (nodeDataOf es')")
        case (Inl e)
        then show ?thesis using n es(1) False 2(1) ser by (auto simp: gp_spec_def)
      next
        case (Inr c)
        let ?w = "staging_Put (c, nodeDataOf es') w1"
        have d: "cid_Defined c" using ad Inr by (auto simp: addr_ok_def)
        have g: "grown addr E w1 ?w" "cst_Get (tx_env E ?w) c = Inr (nodeDataOf es')"
          using tx_env_Put [OF ad _ Inr encoded_nodeDataOf [OF sh]] 2(2) by (auto simp: grown_def)
        have "ents_rel (\<lambda>s c. sub_ok l (tx_env E ?w) s c \<and> validPtr s) (tx_env E ?w) l es' kvs"
          by (rule ents_rel_mono [OF _ _ 2(4)]) (use g(1) sub_ok_mono in \<open>auto simp: grown_def\<close>)
        from stored_node_ok [OF this less.prems(3) g(2) d lay]
        show ?thesis
          using n es(1) False 2(1) ser Inr grown_trans [OF 2(2) g(1)] by (simp add: gp_spec_def)
      qed
    qed
  qed
qed

section \<open>Invariants of the store\<close>

text \<open>A property of the store that putting a node keeps holds after \<open>GetPointer\<close>.\<close>

lemma pointEntries_keeps:
  assumes "\<And>s w c s' w'. gp s w = Inr (c, s', w') \<Longrightarrow> P w \<Longrightarrow> P w'"
  shows "pointEntries gp es w = Inr (es', w') \<Longrightarrow> P w \<Longrightarrow> P w'"
proof (induction es arbitrary: w es')
  case (Cons e es)
  show ?case
    using Cons.prems assms by (auto simp: bindE_eq_Inr split: nodeEntry.splits if_splits prod.splits intro: Cons.IH)
qed simp

lemma serializeEntries_keeps:
  assumes gp: "\<And>s w c s' w'. gp s w = Inr (c, s', w') \<Longrightarrow> P w \<Longrightarrow> P w'"
  shows "serializeEntries gp lk es w = Inr (tes, w') \<Longrightarrow> P w \<Longrightarrow> P w'"
proof (induction es arbitrary: lk w tes rule: length_induct)
  case (1 es)
  show ?case
  proof (cases es)
    case (Cons leaf rest)
    show ?thesis
    proof (cases "\<exists>k s rest'. rest = entryTree k s # rest'")
      case True
      then obtain k s rest' where "rest = entryTree k s # rest'" by blast
      moreover then obtain ptr s' w1 tes' where "gp s w = Inr (ptr, s', w1)" "serializeEntries gp (Key leaf) rest' w1 = Inr (tes', w')"
        using 1(2) Cons by (auto simp: bindE_eq_Inr split: if_splits)
      moreover then have "P w1" using gp 1(3) by blast
      ultimately show ?thesis using 1(1) Cons by (metis length_Cons less_Suc_eq)
    next
      case False
      then have "serializeEntries gp lk (leaf # rest) w =
          (if \<not> isLeaf leaf then Inl ErrTwoSubtrees
           else bindE (ensureValidKey (Key leaf)) (\<lambda>_. bindE (serializeEntries gp (Key leaf) rest w) (\<lambda>(es, w2).
             Inr (mkEntry lk leaf None # es, w2))))" by (auto split: list.split nodeEntry.split)
      then obtain tes' where "serializeEntries gp (Key leaf) rest w = Inr (tes', w')"
        using 1(2) Cons by (auto simp: bindE_eq_Inr simp del: serializeEntries.simps split: if_splits)
      then show ?thesis using 1(1) [rule_format, of rest "Key leaf" w tes'] 1(3) Cons by simp
    qed
  qed (use 1 in simp)
qed

lemma GetPointer_keeps:
  assumes put: "\<And>nd c w. addr nd = Inr c \<Longrightarrow> P w \<Longrightarrow> P (staging_Put (c, nd) w)"
  shows "GetPointer n E addr t w = Inr (c, t', w') \<Longrightarrow> P w \<Longrightarrow> P w'"
proof (induction n arbitrary: t w c t' w')
  case (Suc n)
  let ?gp = "GetPointer n E addr"
  have gp: "?gp s w = Inr (c, s', w') \<Longrightarrow> P w \<Longrightarrow> P w'" for s w c s' w' by (rule Suc.IH)
  show ?case
  proof (cases "validPtr t")
    case False
    then obtain es es' w1 c' where r: "pointEntries ?gp es w = Inr (es', w1)" "cidForEntries ?gp addr es' w1 = Inr (c', w')"
      using Suc.prems(1) by (auto simp: bindE_eq_Inr)
    then obtain nd w2 where s: "serializeNodeData ?gp es' w1 = Inr (nd, w2)" "tx_Put addr nd w2 = Inr (c', w')"
      by (auto simp: cidForEntries_def bindE_eq_Inr)
    have "P w1" by (rule pointEntries_keeps [where P = P, OF gp r(1) Suc.prems(2)])
    moreover have se: "serializeEntries ?gp lk xs v = Inr (tes, v') \<Longrightarrow> P v \<Longrightarrow> P v'" for lk xs v tes v'
      by (rule serializeEntries_keeps [where P = P, OF gp])
    ultimately have "P w2"
    proof (cases "\<exists>k u rest. es' = entryTree k u # rest")
      case True
      then obtain k u rest where "es' = entryTree k u # rest" by blast
      then obtain ptr u' v tes where "?gp u w1 = Inr (ptr, u', v)" "serializeEntries ?gp [] rest v = Inr (tes, w2)"
        using s(1) by (auto simp: serializeNodeData_def bindE_eq_Inr)
      then show ?thesis using gp se \<open>P w1\<close> by blast
    next
      case False
      then have eq: "serializeNodeData ?gp es' w1 =
          bindE (serializeEntries ?gp [] es' w1) (\<lambda>(es, w2). Inr (\<lparr> Left = None, Entries = es \<rparr>, w2))"
        by (auto simp: serializeNodeData_def simp del: serializeEntries.simps split: list.split nodeEntry.split)
      have "\<exists>tes. serializeEntries ?gp [] es' w1 = Inr (tes, w2)"
        using s(1) [unfolded eq] by (auto simp: bindE_eq_Inr simp del: serializeEntries.simps)
      then show ?thesis using se \<open>P w1\<close> by blast
    qed
    then show ?thesis using s(2) put by (auto simp: tx_Put_def bindE_eq_Inr)
  qed (use Suc.prems in simp)
qed simp

end
