(* ===== verification/Mst_Canon.thy ===== *)
theory Mst_Canon
  imports Mst_Persist
begin

text \<open>
  History independence: the CID \<open>GetPointer\<close> answers depends on the pairs of the tree only, not on
  the operations that built it nor on which nodes were in memory. \<open>canon_ptr\<close> says what the CID of a
  list of pairs at a layer is; it is unique, every valid pointer is it, and so is every new one.
\<close>

section \<open>The canonical pointer\<close>

fun canon_ptr :: "node_addr \<Rightarrow> mst_env \<Rightarrow> nat \<Rightarrow> kvs \<Rightarrow> cid \<Rightarrow> bool" where
  "canon_ptr addr E 0 kvs c =
     (\<exists>es. ents_rel (\<lambda>_ _. False) E 0 es kvs \<and> addr (nodeDataOf es) = Inr c)"
| "canon_ptr addr E (Suc l) kvs c =
     (\<exists>es. ents_rel (\<lambda>s a. canon_ptr addr E l a (pointer s)) E (Suc l) es kvs
        \<and> addr (nodeDataOf es) = Inr c)"

lemma canon_ptr_zeros:
  "canon_ptr addr E l kvs c \<Longrightarrow> p \<in> set kvs \<Longrightarrow> leadingZerosOnHash E (fst p) \<le> l"
proof (induction l arbitrary: kvs c)
  case 0
  then show ?case by (auto dest: ents_rel_zeros [rotated])
next
  case (Suc l)
  then obtain es where "ents_rel (\<lambda>s a. canon_ptr addr E l a (pointer s)) E (Suc l) es kvs" by auto
  from ents_rel_zeros [OF _ this Suc.prems(2)] show ?case using Suc.IH le_SucI by blast
qed

text \<open>Two readings of the same pairs as entries of a node at the same layer have the same shape: a
  leaf is where a key is at the layer, a subtree is a maximal run of lower keys.\<close>

definition below :: "mst_env \<Rightarrow> nat \<Rightarrow> kvs \<Rightarrow> bool" where
  "below E l kvs \<longleftrightarrow> (\<forall>p \<in> set kvs. leadingZerosOnHash E (fst p) < l)"

lemma below_prefix_unique:
  assumes "a @ b = a' @ b'" and "below E l a" and "below E l a'"
    and "b = [] \<or> leadingZerosOnHash E (fst (hd b)) = l" and "b' = [] \<or> leadingZerosOnHash E (fst (hd b')) = l"
  shows "a = a'" and "b = b'"
proof -
  have tw: "takeWhile (\<lambda>p. leadingZerosOnHash E (fst p) < l) (x @ y) = x"
    if "below E l x" "y = [] \<or> leadingZerosOnHash E (fst (hd y)) = l" for x y
    using that by (cases y) (auto simp: below_def takeWhile_append)
  show "a = a'" using tw [OF assms(2,4)] tw [OF assms(3,5)] assms(1) by simp
  then show "b = b'" using assms(1) by simp
qed

lemma ents_rel_hd_layer:
  assumes "ents_rel P E l es b" and "es = [] \<or> \<not> isTree (hd es)"
  shows "b = [] \<or> leadingZerosOnHash E (fst (hd b)) = l"
  using assms by (cases es; cases "hd es") auto

fun same_ptr :: "nodeEntry \<Rightarrow> nodeEntry \<Rightarrow> bool" where
  "same_ptr (entryLeaf k v) e \<longleftrightarrow> e = entryLeaf k v"
| "same_ptr (entryTree _ s) e \<longleftrightarrow> (\<exists>k' s'. e = entryTree k' s' \<and> pointer s = pointer s')"
| "same_ptr entryUndefined e \<longleftrightarrow> False"

lemma entriesOf_same: "list_all2 same_ptr es es' \<Longrightarrow> entriesOf lk es = entriesOf lk es'"
  by (induction lk es arbitrary: es' rule: entriesOf.induct) (auto simp: list_all2_Cons1)

lemma nodeDataOf_same:
  assumes "list_all2 same_ptr es es'"
  shows "nodeDataOf es = nodeDataOf es'"
  using assms entriesOf_same [OF assms] entriesOf_same
  by (cases es; cases "hd es") (auto simp: nodeDataOf_def list_all2_Cons1)

lemma ents_rel_unique:
  assumes "\<And>s c. P s c \<Longrightarrow> below E l c" and "\<And>s c. P' s c \<Longrightarrow> below E l c"
    and "\<And>s s' c. P s c \<Longrightarrow> P' s' c \<Longrightarrow> pointer s = pointer s'"
  shows "ents_rel P E l es kvs \<Longrightarrow> ents_rel P' E l es' kvs \<Longrightarrow> list_all2 same_ptr es es'"
proof (induction es arbitrary: es' kvs)
  case Nil
  then show ?case by (simp add: ents_rel_Nil_iff)
next
  case (Cons x es)
  have "kvs \<noteq> []" using Cons.prems(1) ents_rel_Nil_iff by fastforce
  then obtain x' r' where es': "es' = x' # r'" using Cons.prems(2) by (cases es') auto
  show ?case
  proof (cases x)
    case (entryLeaf k v)
    then obtain r where r: "kvs = (k, v) # r" "leadingZerosOnHash E k = l" "ents_rel P E l es r"
      using Cons.prems(1) by auto
    have "x' \<noteq> entryTree k' s'" for k' s'
    proof
      assume "x' = entryTree k' s'"
      then obtain a' b' where "kvs = a' @ b'" "a' \<noteq> []" "below E l a'"
        using Cons.prems(2) es' assms(2) by auto
      then show False using r(1,2) by (cases a') (auto simp: below_def)
    qed
    then show ?thesis using Cons.prems(2) Cons.IH [OF r(3)] r(1) es' entryLeaf
      by (cases x') auto
  next
    case (entryTree k s)
    then obtain a b where ab: "kvs = a @ b" "a \<noteq> []" "P s a" "es = [] \<or> \<not> isTree (hd es)" "ents_rel P E l es b"
      using Cons.prems(1) by auto
    have "leadingZerosOnHash E (fst (hd kvs)) < l" using ab assms(1) by (cases a) (auto simp: below_def)
    then obtain k' s' where x': "x' = entryTree k' s'" using Cons.prems(2) es' by (cases x') auto
    then obtain a' b' where ab': "kvs = a' @ b'" "a' \<noteq> []" "P' s' a'" "r' = [] \<or> \<not> isTree (hd r')" "ents_rel P' E l r' b'"
      using Cons.prems(2) es' by auto
    have "a = a'" "b = b'"
      using below_prefix_unique [of a b a' b' E l] ab ab' assms(1,2) ents_rel_hd_layer [OF ab(5,4)]
        ents_rel_hd_layer [OF ab'(5,4)] by auto
    then show ?thesis using Cons.IH [OF ab(5)] ab'(3,5) ab(3) assms(3) es' x' entryTree by auto
  qed (use Cons.prems in simp)
qed

lemma canon_ptr_unique: "canon_ptr addr E l kvs c \<Longrightarrow> canon_ptr addr E l kvs c' \<Longrightarrow> c = c'"
proof (induction l arbitrary: kvs c c')
  case 0
  then obtain es es' where es: "ents_rel (\<lambda>_ _. False) E 0 es kvs" "addr (nodeDataOf es) = Inr c"
    "ents_rel (\<lambda>_ _. False) E 0 es' kvs" "addr (nodeDataOf es') = Inr c'" by auto
  have "list_all2 same_ptr es es'" by (rule ents_rel_unique [OF _ _ _ es(1,3)]) auto
  then show ?case using es(2,4) nodeDataOf_same by force
next
  case (Suc l)
  let ?P = "\<lambda>s a. canon_ptr addr E l a (pointer s)"
  obtain es es' where es: "ents_rel ?P E (Suc l) es kvs" "addr (nodeDataOf es) = Inr c"
    "ents_rel ?P E (Suc l) es' kvs" "addr (nodeDataOf es') = Inr c'" using Suc.prems by auto
  have b: "?P s a \<Longrightarrow> below E (Suc l) a" for s a
    using canon_ptr_zeros by (fastforce simp: below_def less_Suc_eq_le)
  have "list_all2 same_ptr es es'" by (rule ents_rel_unique [OF b b _ es(1,3)]) (use Suc.IH in auto)
  then show ?case using es(2,4) nodeDataOf_same by force
qed

section \<open>Every valid pointer is canonical\<close>

lemma ents_rel_on:
  "ents_rel P E l es kvs \<Longrightarrow> (\<And>k s c. entryTree k s \<in> set es \<Longrightarrow> P s c \<Longrightarrow> P' s c) \<Longrightarrow> ents_rel P' E l es kvs"
proof (induction es arbitrary: kvs)
  case (Cons x es)
  then have IH: "ents_rel P E l es b \<Longrightarrow> ents_rel P' E l es b" for b by (metis list.set_intros(2))
  show ?case using Cons.prems IH by (cases x; simp) blast+
qed simp

lemma canon_ptr_env:
  assumes "\<And>k. leadingZerosOnHash E' k = leadingZerosOnHash E k"
  shows "canon_ptr addr E l kvs c \<Longrightarrow> canon_ptr addr E' l kvs c"
proof (induction l arbitrary: kvs c)
  case 0
  then show ?case using ents_rel_mono [of "\<lambda>_ _. False" "\<lambda>_ _. False", OF _ assms] by auto
next
  case (Suc l)
  then obtain es where es: "ents_rel (\<lambda>s a. canon_ptr addr E l a (pointer s)) E (Suc l) es kvs" "addr (nodeDataOf es) = Inr c"
    by auto
  have "ents_rel (\<lambda>s a. canon_ptr addr E' l a (pointer s)) E' (Suc l) es kvs"
    by (rule ents_rel_mono [OF _ assms es(1)]) (use Suc.IH in auto)
  then show ?case using es(2) by auto
qed

lemma deserializeEntries_trees:
  "deserializeEntries lay lk xs = Inr es \<Longrightarrow> entryTree k s \<in> set es \<Longrightarrow> \<exists>p l'. s = createMST p None l'"
proof (induction lay lk xs arbitrary: es rule: deserializeEntries.induct)
  case (2 lay lk e xs)
  from 2(2) obtain k' r where r: "deserializeEntries lay k' xs = Inr r"
    "es = entryLeaf k' (Val e) # (case TreePtr e of None \<Rightarrow> [] | Some p \<Rightarrow> [entryTree k' (createMST p None (lay - 1))]) @ r"
    "k' = take (nat (PrefixLen e)) lk @ KeySuffix e" "ensureValidKey k' = Inr ()"
    "\<not> (PrefixLen e < 0 \<or> int (length lk) < PrefixLen e)"
    by (auto simp: deserializeEntries.simps(2) Let_def bindE_eq_Inr split: if_splits)
  then show ?case using 2(1) [OF r(5,3,4,1)] 2(3) by (auto split: option.splits)
qed simp

lemma deserializeNodeData_trees:
  "deserializeNodeData nd lay = Inr es \<Longrightarrow> entryTree k s \<in> set es \<Longrightarrow> \<exists>p l'. s = createMST p None l'"
  using deserializeEntries_trees by (fastforce simp: deserializeNodeData_def bindE_eq_Inr split: option.splits)

lemma stub_valid: "node_ok l E (createMST p None lay) kvs \<Longrightarrow> validPtr (createMST p None lay)"
  by (auto simp: node_ok_iff getEntries_def createMST_def cid_Defined_def split: if_splits)

lemma load_decodes:
  assumes "getEntries E (LoadMST p) = Inr es" and "store_ok addr E" and "es \<noteq> []"
  obtains nd lay where "addr nd = Inr p" "deserializeNodeData nd lay = Inr es" "nodeDataOf es = nd"
proof -
  obtain nd where nd: "cst_Get E p = Inr nd" "entriesFromNodeData E nd = Inr es"
    using assms(1) by (auto simp: getEntries_def LoadMST_def createMST_def bindE_eq_Inr split: if_splits)
  have "entriesFromNodeData E emptyNode = Inr []"
    by (simp add: emptyNode_def entriesFromNodeData_def deserializeNodeData_def)
  then have "nd \<noteq> emptyNode" using nd(2) assms(3) by force
  then have "addr nd = Inr p" "encoded nd" using nd(1) assms(2) by (auto simp: store_ok_def)
  then show thesis
    using that nd(2) unfolding encoded_def entriesFromNodeData_def by blast
qed

lemma ents_rel_nonempty: "ents_rel P E l es kvs \<Longrightarrow> ents_rel (\<lambda>s c. P s c \<and> c \<noteq> []) E l es kvs"
proof (induction es arbitrary: kvs)
  case (Cons x es)
  then show ?case by (cases x; simp) blast+
qed simp

lemma node_ok_canon:
  "node_ok l E t kvs \<Longrightarrow> validPtr t \<Longrightarrow> store_ok addr E \<Longrightarrow> kvs \<noteq> [] \<Longrightarrow> canon_ptr addr E l kvs (pointer t)"
proof (induction l arbitrary: t kvs)
  case 0
  then obtain es where es: "getEntries E (LoadMST (pointer t)) = Inr es" "ents_rel (\<lambda>_ _. False) E 0 es kvs"
    by (auto simp: node_ok_iff ptr_ok_def)
  have "es \<noteq> []" using es(2) 0(4) by auto
  then show ?case using load_decodes [OF es(1) 0(3)] es(2) by (metis canon_ptr.simps(1))
next
  case (Suc l)
  then obtain es where es: "getEntries E (LoadMST (pointer t)) = Inr es" "ents_rel (node_ok l E) E (Suc l) es kvs"
    by (auto simp: node_ok_iff ptr_ok_def)
  have ne: "es \<noteq> []" using es(2) Suc.prems(4) by (cases es) auto
  obtain nd lay where nd: "addr nd = Inr (pointer t)" "deserializeNodeData nd lay = Inr es" "nodeDataOf es = nd"
    by (rule load_decodes [OF es(1) Suc.prems(3) ne])
  have "canon_ptr addr E l c (pointer s)" if "entryTree k s \<in> set es" "node_ok l E s c \<and> c \<noteq> []" for k s c
    using deserializeNodeData_trees [OF nd(2) that(1)] that(2) stub_valid Suc.IH Suc.prems(3) by blast
  then have "ents_rel (\<lambda>s a. canon_ptr addr E l a (pointer s)) E (Suc l) es kvs"
    by (rule ents_rel_on [OF ents_rel_nonempty [OF es(2)]])
  then show ?case using nd(1,3) by auto
qed

section \<open>Properties\<close>

text \<open>An encoder for the witnesses: it names the two nodes of the demonstration tree and refuses
  every other node.\<close>

definition demo_leaf_node :: NodeData where
  "demo_leaf_node = \<lparr> Left = None, Entries = [\<lparr> PrefixLen = 0, KeySuffix = ''a'', Val = ''A'', TreePtr = None \<rparr>] \<rparr>"

definition demo_root_node :: NodeData where
  "demo_root_node = \<lparr> Left = Some ''n1'', Entries = [\<lparr> PrefixLen = 0, KeySuffix = ''b'', Val = ''B'', TreePtr = None \<rparr>] \<rparr>"

definition demo_addr :: node_addr where
  "demo_addr nd = (if nd = demo_leaf_node then Inr ''n1'' else if nd = demo_root_node then Inr ''n2''
     else Inl (ErrOther ''too large''))"

lemma addr_ok_demo: "addr_ok demo_addr"
  by (auto simp: addr_ok_def demo_addr_def cid_Defined_def cid_Undef_def split: if_splits)

lemma demo_store_ok: "store_ok demo_addr (tx_env demo_env NewOpStaging)"
  by (simp add: store_ok_def store_agrees_def tx_env_def demo_env_def staging_Get_def NewOpStaging_def)

lemmas demo_store_agrees = demo_store_ok [unfolded store_ok_def, THEN conjunct1]

lemma demo_tx_ok:
  "node_ok 1 (tx_env demo_env NewOpStaging) demo_tree [(''a'', ''A''), (''b'', ''B'')]"
  by (rule node_ok_mono [OF _ node_ok_demo]) (simp add: env_le_def tx_env_def demo_env_def)

lemma demo_valid_keys: "valid_keys [(''a'', ''A''), (''b'', ''B'')]"
  by (simp add: valid_keys_def IsValidKey_def MaxKeyBytes_def utf8_ValidString_def)

lemma demo_write: "map_sum id fst (GetPointer 5 demo_env demo_addr demo_tree NewOpStaging) = Inr ''n2''"
  by code_simp

lemma demo_write_2:
  "\<not> isl (GetPointer 5 demo_env demo_addr (with_layer demo_tree (- 1)) NewOpStaging)"
  by code_simp

text \<open>C9. Writing a tree out and loading it back: \<open>GetPointer\<close> fails only with an error of the
  encoder; otherwise the tree loaded from the CID it answers, read through the transaction, answers
  every lookup as the tree in memory did, and the transaction still reads every block it could read
  before.\<close>

theorem GetPointer_roundtrip:
  assumes "addr_ok addr" and "store_agrees addr (tx_env E w)" and "node_ok l (tx_env E w) t kvs"
    and "sorted_kvs kvs" and "valid_keys kvs" and "l < n" and "kvs \<noteq> [] \<or> l = 0"
  shows "(\<exists>e nd. GetPointer n E addr t w = Inl e \<and> addr nd = Inl e) \<or>
    (\<exists>c t' w'. GetPointer n E addr t w = Inr (c, t', w') \<and> env_le (tx_env E w) (tx_env E w')
       \<and> node_ok l (tx_env E w') (LoadMST c) kvs
       \<and> (\<forall>k. mst_Get n (tx_env E w') (LoadMST c) k = mst_Get n (tx_env E w) t k))"
proof (cases "GetPointer n E addr t w")
  case (Inl e)
  then show ?thesis using GetPointer_node [OF assms(1,3,2,5,6)] by (simp add: gp_spec_def)
next
  case (Inr r)
  then obtain c t' w' where r: "GetPointer n E addr t w = Inr (c, t', w')" by (cases r) auto
  then have t': "grown addr E w w'" "validPtr t'" "pointer t' = c" "node_ok l (tx_env E w') t' kvs"
    using GetPointer_node [OF assms(1,3,2,5,6)] by (auto simp: gp_spec_def)
  then have ld: "node_ok l (tx_env E w') (LoadMST c) kvs"
    using node_ok_by_pointer [OF t'(4,2), of "- 1"] assms(7) by (simp add: LoadMST_def)
  then show ?thesis
    using r t'(1) mst_Get_node [OF ld assms(4,6)] mst_Get_node [OF assms(3,4,6)]
    by (auto simp: grown_def)
qed

theorem GetPointer_roundtrip_witness:
  "\<exists>c t' w'. GetPointer 5 demo_env demo_addr demo_tree NewOpStaging = Inr (c, t', w')
     \<and> node_ok 1 (tx_env demo_env w') (LoadMST c) [(''a'', ''A''), (''b'', ''B'')]"
  using GetPointer_roundtrip [OF addr_ok_demo demo_store_agrees demo_tx_ok sorted_demo demo_valid_keys, of 5] demo_write
  by (auto simp del: GetPointer.simps)

text \<open>C8. History independence: two trees that hold the same pairs, at least one, and whose roots are at the
  layer of their highest key have the same CID, whatever operations built them, whatever part of each was in
  memory, and whatever stores they were written to.\<close>

theorem GetPointer_canonical:
  assumes "addr_ok addr" and "sha256_Sum256 E1 = sha256_Sum256 E2"
    and "store_ok addr (tx_env E1 w1)" and "node_ok l1 (tx_env E1 w1) t1 kvs" and "tight l1 E1 kvs"
    and "store_ok addr (tx_env E2 w2)" and "node_ok l2 (tx_env E2 w2) t2 kvs" and "tight l2 E2 kvs"
    and "valid_keys kvs" and "kvs \<noteq> []" and "l1 < n"
    and "GetPointer n E1 addr t1 w1 = Inr (c1, t1', w1')" and "GetPointer n E2 addr t2 w2 = Inr (c2, t2', w2')"
  shows "c1 = c2"
proof -
  have z: "leadingZerosOnHash E2 k = leadingZerosOnHash E1 k" for k
    using assms(2) by (simp add: leadingZerosOnHash_def leadingZerosOnHashBytes_def)
  have "l1 = l2"
    using assms(5,8) node_ok_zeros [OF assms(4)] node_ok_zeros [OF assms(7)]
    by (auto simp: tight_def z intro: antisym)
  then have l: "l2 < n" "node_ok l1 (tx_env E2 w2) t2 kvs" using assms(7,11) by auto
  have "canon_ptr addr (tx_env E1 w1') l1 kvs c1"
    using GetPointer_node [OF assms(1,4) _ assms(9,11)] assms(3,10,12) node_ok_canon
    by (auto simp: gp_spec_def grown_def store_ok_def)
  moreover have "canon_ptr addr (tx_env E2 w2') l1 kvs c2"
    using GetPointer_node [OF assms(1) l(2) _ assms(9,11)] assms(6,10,13) node_ok_canon
    by (auto simp: gp_spec_def grown_def store_ok_def)
  ultimately show ?thesis
    using canon_ptr_unique canon_ptr_env [of "tx_env E2 w2'" "tx_env E1 w1'"] z by simp blast
qed

theorem GetPointer_canonical_witness:
  "\<exists>w w'. GetPointer 5 demo_env demo_addr (with_layer demo_tree (- 1)) NewOpStaging = Inr (''n2'', w)
     \<and> GetPointer 5 demo_env demo_addr demo_tree NewOpStaging = Inr (''n2'', w')"
proof -
  let ?t = "with_layer demo_tree (- 1)" and ?E = "tx_env demo_env NewOpStaging"
  have ok: "node_ok 1 ?E ?t [(''a'', ''A''), (''b'', ''B'')]"
    using demo_tx_ok by (auto simp: node_ok_iff [of "Suc 0"] layer_ok_def)
  have ti: "tight 1 demo_env [(''a'', ''A''), (''b'', ''B'')]"
    by (simp add: tight_def leadingZerosOnHash_def leadingZerosOnHashBytes_def demo_env_def)
  have "\<exists>c t w. GetPointer 5 demo_env demo_addr ?t NewOpStaging = Inr (c, t, w)"
    using demo_write_2 by (cases "GetPointer 5 demo_env demo_addr ?t NewOpStaging") auto
  then show ?thesis
    using GetPointer_canonical [OF addr_ok_demo refl demo_store_ok ok ti demo_store_ok demo_tx_ok ti demo_valid_keys _, of 5]
      demo_write by (cases "GetPointer 5 demo_env demo_addr demo_tree NewOpStaging") fastforce+
qed

end
