(* ===== verification/Bucket_Tx.thy ===== *)
theory Bucket_Tx
  imports Block_Read Mst_Canon
begin

text \<open>
  Write transactions on a bucket (\<open>src/bucketop/bucketop.go\<close>): a transaction snapshots the bucket's
  published root under the bucket's lock, stages blocks and the rows its commit carries, and publishes
  them by one append to the log followed by one compare-and-swap of the root.

  The registry is the in-memory store, the log the buckets' logs over it, the reads the layered tiers.
  The CBOR codec of a tree node (with the SHA-256 CID of the encoding) is a parameter. A lock that is
  held is a bucket in the set of locked ones, and taking it again waits, which is \<open>None\<close>. The ship
  authority captured from a commit's request is kept by the uploader and is outside the model.
\<close>

section \<open>What a coordinator is wired to\<close>

record bucket_env =
  be_log :: log_env
  be_SHA256 :: "bytes \<Rightarrow> 8 word list"
  be_Encode :: "NodeData \<Rightarrow> string + cid \<times> bytes"
  be_Decode :: "bytes \<Rightarrow> string + NodeData"
  be_Local :: "tier option"
  be_Base :: tier

definition reads_GetBlock :: "bucket_env \<Rightarrow> Manager \<Rightarrow> tier" where
  "reads_GetBlock D mg = layered_GetBlock (be_Local D) (Some (\<lambda>c. mgr_Get (be_log D) c mg)) (be_Base D)"

text \<open>\<open>CborStore\<close>: the block of a CID, decoded. A failed read is no error of the tree's own.\<close>

definition decodeBlock :: "bucket_env \<Rightarrow> log_error + bytes \<Rightarrow> mst_error + NodeData" where
  "decodeBlock D r =
     (case r of
        Inl _ \<Rightarrow> Inl (ErrOther ''get block'')
      | Inr d \<Rightarrow> (case be_Decode D d of Inl e \<Rightarrow> Inl (ErrOther e) | Inr nd \<Rightarrow> Inr nd))"

definition reads_env :: "bucket_env \<Rightarrow> Manager \<Rightarrow> did \<Rightarrow> mst_env" where
  "reads_env D mg space = \<lparr> sha256_Sum256 = be_SHA256 D,
     cst_Get = (\<lambda>c. decodeBlock D (map_sum id snd (reads_GetBlock D mg space c))) \<rparr>"

section \<open>Transactions\<close>

record Tx =
  tx_bucket :: string
  tx_state :: State
  tx_staging :: "bytes OpStaging"
  tx_commit :: RootCommit
  tx_held :: bool

text \<open>The errors of a coordinator; \<open>OpFn\<close> is an error of the closure a transaction runs.\<close>

datatype 'e op_error =
    ErrBucketNotFound
  | OpGetBucket registry_error
  | ErrTxFinalized
  | OpAppend "log_error staging_error"
  | OpAdvanceRoot registry_error
  | OpFn 'e

record Coordinator =
  co_locks :: "string set"
  co_log :: manager_state

definition co_Lock :: "string \<Rightarrow> Coordinator \<Rightarrow> Coordinator option" where
  "co_Lock bucket co = (if bucket \<in> co_locks co then None else Some (co\<lparr> co_locks := insert bucket (co_locks co) \<rparr>))"

definition co_release :: "string \<Rightarrow> Coordinator \<Rightarrow> Coordinator" where
  "co_release bucket co = co\<lparr> co_locks := co_locks co - {bucket} \<rparr>"

definition Begin :: "string \<Rightarrow> Coordinator \<Rightarrow> (Coordinator \<times> ('e op_error + Tx)) option" where
  "Begin bucket co =
     map_option (\<lambda>co1.
       case mem_Get bucket (snd (co_log co1)) of
         Inl e \<Rightarrow> (co_release bucket co1, Inl (if e = RegErrNotFound then ErrBucketNotFound else OpGetBucket e))
       | Inr st \<Rightarrow>
           (co1, Inr \<lparr> tx_bucket = bucket, tx_state = st, tx_staging = NewOpStaging, tx_commit = emptyCommit, tx_held = True \<rparr>))
       (co_Lock bucket co)"

text \<open>The rows the commit carries.\<close>

definition EnqueueUploadRegistration :: "UploadRegistration \<Rightarrow> Tx \<Rightarrow> Tx" where
  "EnqueueUploadRegistration reg tx =
     tx\<lparr> tx_commit := (tx_commit tx)\<lparr> rcm_Registrations := rcm_Registrations (tx_commit tx) @ [reg] \<rparr> \<rparr>"

definition ClaimBlobs :: "BlobClaim list \<Rightarrow> Tx \<Rightarrow> Tx" where
  "ClaimBlobs claims tx = tx\<lparr> tx_commit := (tx_commit tx)\<lparr> rcm_Claims := rcm_Claims (tx_commit tx) @ claims \<rparr> \<rparr>"

definition PinBlobs :: "BlobClaim list \<Rightarrow> Tx \<Rightarrow> Tx" where
  "PinBlobs claims tx = tx\<lparr> tx_commit := (tx_commit tx)\<lparr> rcm_Pins := rcm_Pins (tx_commit tx) @ claims \<rparr> \<rparr>"

definition DropClaims :: "ClaimDrop list \<Rightarrow> time \<Rightarrow> Tx \<Rightarrow> Tx" where
  "DropClaims drops grace tx =
     tx\<lparr> tx_commit := (tx_commit tx)\<lparr> rcm_Drops := rcm_Drops (tx_commit tx) @ drops, rcm_ReleaseGrace := grace \<rparr> \<rparr>"

text \<open>Blocks: the staging buffer first, then the layered reads in the bucket's space.\<close>

definition tx_GetBlock :: "bucket_env \<Rightarrow> Manager \<Rightarrow> Tx \<Rightarrow> cid \<Rightarrow> log_error + bytes" where
  "tx_GetBlock D mg tx =
     staging_Get (\<lambda>c. map_sum id snd (reads_GetBlock D mg (st_Space (tx_state tx)) c)) (tx_staging tx)"

definition tx_PutBlock :: "cid \<times> bytes \<Rightarrow> Tx \<Rightarrow> Tx" where
  "tx_PutBlock blk tx = tx\<lparr> tx_staging := staging_Put blk (tx_staging tx) \<rparr>"

text \<open>The transaction as the tree's store: \<open>Get\<close> decodes a block of this view, \<open>Put\<close> stages the encoding.\<close>

definition tx_reader :: "bucket_env \<Rightarrow> Manager \<Rightarrow> Tx \<Rightarrow> mst_env" where
  "tx_reader D mg tx = \<lparr> sha256_Sum256 = be_SHA256 D, cst_Get = (\<lambda>c. decodeBlock D (tx_GetBlock D mg tx c)) \<rparr>"

definition tx_PutNode :: "bucket_env \<Rightarrow> NodeData \<Rightarrow> Tx \<Rightarrow> mst_error + cid \<times> Tx" where
  "tx_PutNode D nd tx =
     (case be_Encode D nd of
        Inl e \<Rightarrow> Inl (ErrOther e)
      | Inr (c, d) \<Rightarrow> Inr (c, tx_PutBlock (c, d) tx))"

definition LoadTree :: "Tx \<Rightarrow> mst" where
  "LoadTree tx = (if cid_Defined (st_Root (tx_state tx)) then LoadMST (st_Root (tx_state tx)) else NewEmptyMST)"

text \<open>\<open>GetPointer\<close> with the transaction as the store it writes to: the nodes it puts are collected in
  their order and staged; a node it reads back is read from the collection.\<close>

definition node_addr_of :: "bucket_env \<Rightarrow> node_addr" where
  "node_addr_of D nd = (case be_Encode D nd of Inl e \<Rightarrow> Inl (ErrOther e) | Inr (c, _) \<Rightarrow> Inr c)"

fun putNodes :: "bucket_env \<Rightarrow> NodeData option block list \<Rightarrow> Tx \<Rightarrow> mst_error + Tx" where
  "putNodes D [] tx = Inr tx"
| "putNodes D ((c, None) # bs) tx = putNodes D bs tx"
| "putNodes D ((c, Some nd) # bs) tx = bindE (tx_PutNode D nd tx) (\<lambda>(_, tx'). putNodes D bs tx')"

definition tx_GetPointer :: "bucket_env \<Rightarrow> Manager \<Rightarrow> mst \<Rightarrow> Tx \<Rightarrow> mst_error + cid \<times> Tx" where
  "tx_GetPointer D mg t tx =
     bindE (GetPointer mst_fuel (tx_reader D mg tx) (node_addr_of D) t NewOpStaging) (\<lambda>(c, _, w).
     bindE (putNodes D (staging_batch w) tx) (\<lambda>tx'. Inr (c, tx')))"

section \<open>Commit and Discard\<close>

record commit_io =
  ci_open :: open_io
  ci_append :: append_io
  ci_dirs :: "string \<Rightarrow> segDir"
  ci_now :: time

text \<open>A nil block in the batch would panic in the log.\<close>

definition appendStaged ::
  "bucket_env \<Rightarrow> commit_io \<Rightarrow> string \<Rightarrow> bytes option block list \<Rightarrow> cid \<Rightarrow> manager_state \<Rightarrow> manager_state \<times> (log_error + seqno)" where
  "appendStaged D io bucket cat root st =
     (if list_ex (\<lambda>(_, d). d = None) cat then (st, Inl (LogPanic ''nil block''))
      else mgr_AppendBatch (be_log D) (ci_open io) (ci_append io) (ci_now io) (ci_dirs io)
             (map (\<lambda>(c, d). (c, the d)) cat) \<lparr> op_Bucket = bucket, op_Root = root \<rparr> st)"

definition finalize :: "Tx \<Rightarrow> Coordinator \<Rightarrow> Coordinator \<times> Tx" where
  "finalize tx co = (if tx_held tx then (co_release (tx_bucket tx) co, tx\<lparr> tx_held := False \<rparr>) else (co, tx))"

definition Commit :: "bucket_env \<Rightarrow> commit_io \<Rightarrow> cid \<Rightarrow> Tx \<Rightarrow> Coordinator \<Rightarrow> (Coordinator \<times> Tx) \<times> 'e op_error option" where
  "Commit D io newRoot tx co =
     (if \<not> tx_held tx then ((co, tx), Some ErrTxFinalized)
      else
        case staging_Commit (appendStaged D io (tx_bucket tx)) newRoot (tx_staging tx) (co_log co) of
          (st1, Inl e) \<Rightarrow> (finalize tx (co\<lparr> co_log := st1 \<rparr>), Some (OpAppend e))
        | ((mg, m), Inr ((seg, cat), staging')) \<Rightarrow>
            let tx1 = tx\<lparr> tx_staging := staging',
                  tx_commit := (tx_commit tx)\<lparr> rcm_Journal := \<lparr> ap_Segment = seg, ap_Blocks = map (\<lambda>(c, d). (c, the d)) cat \<rparr> \<rparr> \<rparr>;
                (m', err) = CommitRoot (tx_bucket tx) (st_Root (tx_state tx)) newRoot (tx_commit tx1) (ci_now io) m
            in (finalize tx1 (co\<lparr> co_log := (mg, m') \<rparr>), map_option OpAdvanceRoot err))"

definition Discard :: "Tx \<Rightarrow> Coordinator \<Rightarrow> Coordinator \<times> Tx" where
  "Discard tx co = (if \<not> tx_held tx then (co, tx) else finalize (tx\<lparr> tx_staging := staging_Discard (tx_staging tx) \<rparr>) co)"

text \<open>The closure reads the coordinator's log, may write to the registry, and answers a root (undefined for
  a no-op) with the transaction it has staged into. What it wrote to the registry stays, whatever becomes of
  the transaction.\<close>

type_synonym 'e MutateFn = "Manager \<Rightarrow> Tx \<Rightarrow> MemStore \<Rightarrow> MemStore \<times> ('e + cid \<times> Tx)"

definition with_registry :: "MemStore \<Rightarrow> Coordinator \<Rightarrow> Coordinator" where
  "with_registry m co = co\<lparr> co_log := (fst (co_log co), m) \<rparr>"

definition WithTx :: "bucket_env \<Rightarrow> commit_io \<Rightarrow> string \<Rightarrow> 'e MutateFn \<Rightarrow> Coordinator \<Rightarrow> (Coordinator \<times> 'e op_error option) option" where
  "WithTx D io bucket fn co =
     map_option (\<lambda>(co1, r).
       case r of
         Inl e \<Rightarrow> (co1, Some e)
       | Inr tx \<Rightarrow>
           (case fn (fst (co_log co1)) tx (snd (co_log co1)) of
              (m, Inl e) \<Rightarrow> (fst (Discard tx (with_registry m co1)), Some (OpFn e))
            | (m, Inr (newRoot, tx')) \<Rightarrow>
                if \<not> cid_Defined newRoot then (fst (Discard tx' (with_registry m co1)), None)
                else (let ((co2, _), err) = Commit D io newRoot tx' (with_registry m co1) in (co2, err))))
       (Begin bucket co)"

definition WithLock :: "string \<Rightarrow> (manager_state \<Rightarrow> manager_state \<times> 'e option) \<Rightarrow> Coordinator \<Rightarrow> (Coordinator \<times> 'e option) option" where
  "WithLock bucket fn co =
     map_option (\<lambda>co1. let (st', err) = fn (co_log co1) in (co_release bucket (co1\<lparr> co_log := st' \<rparr>), err)) (co_Lock bucket co)"

definition co_Close :: "bucket_env \<Rightarrow> (string \<Rightarrow> seal_io) \<Rightarrow> time \<Rightarrow> Coordinator \<Rightarrow> Coordinator" where
  "co_Close D io now co = co\<lparr> co_log := mgr_Close (be_log D) io now (co_log co) \<rparr>"

end
