(* ===== verification/Log_Frame.thy ===== *)
theory Log_Frame
  imports Log_Manager
begin

text \<open>
  What the log leaves alone in the registry it shares with the buckets: opening a bucket's log, with all
  that recovery may do, and appending to it change no bucket row, no claim and no version counter.
\<close>

definition shared :: "MemStore \<Rightarrow> (string, State) gomap \<times> (claimKey, BlobClaim) gomap \<times> (string, seqno) gomap" where
  "shared m = (buckets m, blobRefs m, verSeqs m)"

lemma shared_upd [simp]:
  "shared (segments_update f m) = shared m" "shared (nextSeq_update g m) = shared m" "shared (journal_update h m) = shared m"
  by (simp_all add: shared_def)

lemma seg_seal_shared: "seg_seal E io now s m = (r, m') \<Longrightarrow> shared m' = shared m"
  by (auto simp: seg_seal_def freeze_def writeIdx_def MarkSegmentSealed_def Let_def split: if_splits option.splits prod.splits)

lemma sealedRow_shared: "sealedRow E now pl row car files m = Inr (m', r) \<Longrightarrow> shared m' = shared m"
  by (auto simp: sealedRow_def bindE_eq_Inr Let_def dest: seg_seal_shared split: if_splits option.splits prod.splits sum.splits)

lemma sealedFromIdx_shared: "sealedFromIdx pl seq hasRow car files m = (m', r) \<Longrightarrow> shared m' = shared m"
  by (auto simp: sealedFromIdx_def RehydrateSegment_def MarkSegmentSealed_def Let_def split: if_splits option.splits sum.splits)

lemma recoverCar_shared: "recoverCar E now pl rows gone seq car files m = Inr (m', r) \<Longrightarrow> shared m' = shared m"
  by (auto simp: recoverCar_def InsertSegmentOpen_def bindE_eq_Inr dest: sealedRow_shared sealedFromIdx_shared
      split: if_splits option.splits prod.splits)

lemma recoverCars_shared: "recoverCars E now pl rows gone dir m = Inr (m', rs) \<Longrightarrow> shared m' = shared m"
  by (induction dir arbitrary: m rs) (auto simp: bindE_eq_Inr recoverCar_shared split: option.splits)

lemma sealAll_shared: "sealAll E now ss m = Inr (m', ss') \<Longrightarrow> shared m' = shared m"
proof (induction ss arbitrary: m ss')
  case (Cons s ss)
  then obtain s' m1 ss1 where "seg_seal E all_through now s m = ((s', None), m1)" "sealAll E now ss m1 = Inr (m', ss1)"
    by (auto simp: bindE_eq_Inr split: prod.splits option.splits)
  then show ?case using Cons.IH seg_seal_shared by metis
qed simp

lemma rebuild_step_shared:
  "sealCur E now s rb = Inr rb' \<Longrightarrow> shared (rb_meta rb') = shared (rb_meta rb)"
  "openCur E pl rb = Inr (rb', s) \<Longrightarrow> shared (rb_meta rb') = shared (rb_meta rb)"
  "takeChunk pl frm bs s rb = Inr (rb', s', rest) \<Longrightarrow> shared (rb_meta rb') = shared (rb_meta rb)"
  by (auto simp: sealCur_def openCur_def takeChunk_def seg_seal_shared NextSegmentSeq_def createOpenSegment_def InsertSegmentOpen_def
      MoveJournal_def Let_def split: prod.splits option.splits sum.splits if_splits)


lemma rebuildPage_shared: "rebuildPage E now pl frm bs rb = Inr rb' \<Longrightarrow> shared (rb_meta rb') = shared (rb_meta rb)"
proof (induction E now pl frm bs rb arbitrary: rb' rule: rebuildPage.induct)
  case (2 E now pl frm b bs rb)
  note r = 2(3) [unfolded rebuildPage.simps(2) [of E now pl frm b bs rb]]
  obtain rb1 s where o1: "openCur E pl rb = Inr (rb1, s)" using r by (auto simp: bindE_eq_Inr simp del: rebuildPage.simps)
  note b1 = rebuild_step_shared(2) [OF o1]
  show ?case
  proof (cases "Seg_full pl s b")
    case True
    then obtain rb2 where "sealCur E now s rb1 = Inr rb2" "rebuildPage E now pl frm (b # bs) rb2 = Inr rb'"
      using r o1 by (auto simp: bindE_eq_Inr simp del: rebuildPage.simps)
    then show ?thesis using 2(1) [OF o1] True b1 rebuild_step_shared(1) by fastforce
  next
    case False
    then obtain rb2 s' rest where t: "takeChunk pl frm (b # bs) s rb1 = Inr (rb2, s', rest)" using r o1 by (auto simp: bindE_eq_Inr simp del: rebuildPage.simps)
    note b2 = rebuild_step_shared(3) [OF t]
    show ?thesis
    proof (cases "rest \<noteq> [] \<or> int (sg_size s') \<ge> pc_SealBytes (pl_pc pl)")
      case full: True
      then obtain rb3 where "sealCur E now s' rb2 = Inr rb3" "rebuildPage E now pl frm rest rb3 = Inr rb'"
        using r o1 t False by (auto simp: bindE_eq_Inr simp del: rebuildPage.simps split: if_splits)
      then show ?thesis using 2(2) [OF o1 refl False t refl refl full] b1 b2 rebuild_step_shared(1) by metis
    qed (use r o1 t False b1 b2 in \<open>simp del: rebuildPage.simps\<close>)
  qed
qed simp

lemma rebuildLost_shared: "rebuildLost fuel E now pl frm after rb = Inr rb' \<Longrightarrow> shared (rb_meta rb') = shared (rb_meta rb)"
proof (induction fuel arbitrary: after rb)
  case (Suc fuel)
  define bs where "bs = ReadJournal frm after journalPage (rb_meta rb)"
  have r: "(if bs = [] then Inr rb else bindE (rebuildPage E now pl frm bs rb) (\<lambda>rb'.
      if length bs = journalPage then rebuildLost fuel E now pl frm (fst (last bs)) rb' else Inr rb')) = Inr rb'"
    using Suc.prems unfolding bs_def rebuildLost.simps Let_def .
  show ?case
  proof (cases "bs = []")
    case False
    then obtain rb1 where "rebuildPage E now pl frm bs rb = Inr rb1"
        "(if length bs = journalPage then rebuildLost fuel E now pl frm (fst (last bs)) rb1 else Inr rb1) = Inr rb'"
      using r by (auto simp: bindE_eq_Inr simp del: rebuildPage.simps)
    then show ?thesis using Suc.IH rebuildPage_shared by (metis sum.inject(2))
  qed (use r in simp)
qed simp

lemma rebuildAll_shared: "rebuildAll E now pl lost rb = Inr rb' \<Longrightarrow> shared (rb_meta rb') = shared (rb_meta rb)"
  by (induction lost arbitrary: rb) (auto simp: bindE_eq_Inr rebuildLost_shared simp del: rebuildLost.simps)

lemma openPlaneLog_shared:
  assumes "openPlaneLog E now plane bucket pc dir m = Inr (pl, m')"
  shows "shared m' = shared m"
proof -
  let ?pl = "newPlaneLog plane bucket pc"
  obtain m1 rs os m2 ss cp m3 built where r: "recoverCars E now ?pl (dbBySeq ?pl m) (isRetiredShipped ?pl m) (gm_items dir) m = Inr (m1, rs)"
      "sealAll E now os m1 = Inr (m2, ss)" "rebuildFromJournal E now ?pl cp m2 = Inr (m3, built)"
      "m' = fold (orphanRow ?pl now cp) (ListSegments (pl_plane ?pl) (pl_bucket ?pl) m) m3"
    using assms by (auto simp: openPlaneLog_def recover_def bindE_eq_Inr Let_def)
  have "shared m3 = shared m2"
    using r(3) by (auto simp: rebuildFromJournal_def bindE_eq_Inr Let_def dest!: rebuildAll_shared rebuild_step_shared(1) split: if_splits option.splits)
  moreover have "shared m' = shared m3" unfolding r(4)
    by (rule fold_frame) (simp add: orphanRow_def RetireSegment_def DeleteSegment_def split: option.split)
  ultimately show ?thesis using recoverCars_shared [OF r(1)] sealAll_shared [OF r(2)] by simp
qed

lemma mgr_AppendBatch_shared:
  assumes "mgr_AppendBatch E oio aio now dirs blks opr st = (st', r)"
  shows "shared (snd st') = shared (snd st)"
proof -
  have app: "shared m' = shared m" if "AppendBatch E oio aio now blks opr (pl, m) = ((pl', m'), r)" for pl m pl' m' r
    using that by (auto simp: AppendBatch_def plane_Append_def ensureOpenLockedAppMu_def NextSegmentSeq_def createOpenSegment_def
        InsertSegmentOpen_def Let_def split: if_splits prod.splits sum.splits option.splits)
  have log: "shared m' = shared (snd st)" if "logFor E now dirs b st = Inr ((mg', m'), pl)" for b mg' m' pl
    using that by (cases st) (auto simp: logFor_def bindE_eq_Inr Let_def dest: openPlaneLog_shared split: if_splits option.splits)
  show ?thesis using assms
    by (auto simp: mgr_AppendBatch_def Let_def dest!: app log split: if_splits prod.splits sum.splits)
qed

lemma mgr_AppendBatch_buckets:
  assumes "mgr_AppendBatch E oio aio now dirs blks opr st = (st', r)"
  shows "buckets (snd st') = buckets (snd st)"
  using mgr_AppendBatch_shared [OF assms] by (simp add: shared_def)

end
