(* ===== verification/Mem_Claims.thy ===== *)
theory Mem_Claims
  imports Mem_Registry
begin

text \<open>
  What the reference index guarantees. A root commit is a compare-and-swap that writes all of its rows
  or nothing; the successful commits of a bucket form one chain of roots. A blob whose release has
  started is claimed by no object version, and none can claim it until the release is over; dropping
  the last claim of a blob records its release in the same step.
\<close>

section \<open>Frames\<close>

lemma addClaim_frame [simp]:
  "buckets (addClaimLocked p now c m) = buckets m"
  "releases (addClaimLocked p now c m) = releases m"
  "locations (addClaimLocked p now c m) = locations m"
  "blobRefs (addClaimLocked p now c m) = gm_put (claim_key c) c (blobRefs m)"
  "uploadRegs (addClaimLocked p now c m) = uploadRegs m"
  "uploadRegSeq (addClaimLocked p now c m) = uploadRegSeq m"
  "evicted (addClaimLocked p now c m) = evicted m"
  by (auto simp: addClaimLocked_def Let_def split: option.splits)

lemma enqueueRelease_frame [simp]:
  "buckets (fst (enqueueReleaseLocked s d t m)) = buckets m"
  "blobRefs (fst (enqueueReleaseLocked s d t m)) = blobRefs m"
  "intents (fst (enqueueReleaseLocked s d t m)) = intents m"
  "evicted (fst (enqueueReleaseLocked s d t m)) = evicted m"
  "uploadRegs (fst (enqueueReleaseLocked s d t m)) = uploadRegs m"
  "uploadRegSeq (fst (enqueueReleaseLocked s d t m)) = uploadRegSeq m"
  by (simp_all add: enqueueReleaseLocked_def Let_def)

lemma dropClaim_frame [simp]:
  "buckets (dropClaimLocked due d m) = buckets m"
  "blobRefs (dropClaimLocked due d m) = gm_del (drop_key d) (blobRefs m)"
  "intents (dropClaimLocked due d m) = intents m"
  "evicted (dropClaimLocked due d m) = evicted m"
  "uploadRegs (dropClaimLocked due d m) = uploadRegs m"
  "uploadRegSeq (dropClaimLocked due d m) = uploadRegSeq m"
  by (simp_all add: dropClaimLocked_def Let_def)

lemma journal_frame [simp]:
  "buckets (journalLocked b j now m) = buckets m"
  "blobRefs (journalLocked b j now m) = blobRefs m"
  "releases (journalLocked b j now m) = releases m"
  "locations (journalLocked b j now m) = locations m"
  "intents (journalLocked b j now m) = intents m"
  "evicted (journalLocked b j now m) = evicted m"
  "uploadRegs (journalLocked b j now m) = uploadRegs m"
  "uploadRegSeq (journalLocked b j now m) = uploadRegSeq m"
  by (auto simp: journalLocked_def split: option.splits)

lemma addRegistration_frame [simp]:
  "buckets (addRegistration now r m) = buckets m"
  "blobRefs (addRegistration now r m) = blobRefs m"
  "releases (addRegistration now r m) = releases m"
  "locations (addRegistration now r m) = locations m"
  "intents (addRegistration now r m) = intents m"
  "evicted (addRegistration now r m) = evicted m"
  by (simp_all add: addRegistration_def Let_def)

lemma commitRows_buckets [simp]:
  "buckets (commitRows name s nxt c now m) = gm_put name (s\<lparr> st_Root := nxt \<rparr>) (buckets m)"
  by (simp add: commitRows_def fold_frame [where f = buckets])

section \<open>The root is a compare-and-swap register\<close>

definition rootOf :: "string \<Rightarrow> MemStore \<Rightarrow> cid option" where
  "rootOf name m = map_option st_Root (gm_get (buckets m) name)"

definition commit_cas :: "string \<Rightarrow> RootCommit \<times> time \<Rightarrow> cid \<Rightarrow> cid \<Rightarrow> MemStore \<Rightarrow> MemStore \<times> bool" where
  "commit_cas name a e n m = (let (m', err) = CommitRoot name e n (fst a) (snd a) m in (m', err = None))"

lemma CommitRoot_ok_iff:
  "CommitRoot name e n c now m = (m', None) \<longleftrightarrow>
     (\<exists>s. gm_get (buckets m) name = Some s \<and> st_Root s = e \<and> firstRefused (rcm_Claims c) m = None
        \<and> (\<forall>p \<in> set (rcm_Pins c). \<not> pinRefusedLocked p m) \<and> m' = commitRows name s n c now m)"
  by (auto simp: CommitRoot_def list_ex_iff split: option.splits)

lemma CommitRoot_error: "CommitRoot name e n c now m = (m', Some err) \<Longrightarrow> m' = m"
  by (auto simp: CommitRoot_def split: option.splits if_splits)

interpretation root: cas_register "rootOf name" "commit_cas name" for name
proof
  fix a e n s s'
  assume "commit_cas name a e n s = (s', True)"
  then show "rootOf name s = Some e \<and> rootOf name s' = Some n"
    by (auto simp: commit_cas_def rootOf_def CommitRoot_ok_iff Let_def split: prod.splits)
next
  fix a e n s s'
  assume "commit_cas name a e n s = (s', False)"
  then show "s' = s"
    by (auto simp: commit_cas_def Let_def split: prod.splits dest: CommitRoot_error)
qed

section \<open>Claims and releases\<close>

definition started :: "did \<Rightarrow> multihash \<Rightarrow> MemStore \<Rightarrow> bool" where
  "started sp d m = (\<exists>pr. gm_get (releases m) (sp, d) = Some pr \<and> \<not> IsZero (pr_StartedAt pr))"

definition claimed :: "did \<Rightarrow> multihash \<Rightarrow> MemStore \<Rightarrow> bool" where
  "claimed sp d m = (\<exists>k c. gm_get (blobRefs m) k = Some c \<and> fst k = d \<and> claim_Space c = sp)"

lemma countClaims_eq_0: "countClaimsLocked sp d m = 0 \<longleftrightarrow> \<not> claimed sp d m"
  by (auto simp: countClaimsLocked_def gm_count_eq_0 claimed_def)

lemma started_frame: "releases m' = releases m \<Longrightarrow> started sp d m' = started sp d m"
  by (simp add: started_def)

lemma claimed_frame: "blobRefs m' = blobRefs m \<Longrightarrow> claimed sp d m' = claimed sp d m"
  by (simp add: claimed_def)

text \<open>A pin renews a claim row of its own space: the bucket of a row fixes its space.\<close>

definition pins_local :: "RootCommit \<Rightarrow> MemStore \<Rightarrow> bool" where
  "pins_local c m \<longleftrightarrow> (\<forall>p \<in> set (rcm_Pins c). \<forall>r. gm_get (blobRefs m) (claim_key p) = Some r \<longrightarrow>
     claim_Space r = claim_Space p)"

definition release_safe :: "MemStore \<Rightarrow> bool" where
  "release_safe m \<longleftrightarrow> (\<forall>sp d. started sp d m \<longrightarrow> \<not> claimed sp d m)"

lemma release_safe_frame:
  "releases m' = releases m \<Longrightarrow> blobRefs m' = blobRefs m \<Longrightarrow> release_safe m' = release_safe m"
  by (simp add: release_safe_def started_def claimed_def)

lemma started_enqueue:
  "started sp d (fst (enqueueReleaseLocked s e t m)) \<longleftrightarrow> started sp d m"
  by (auto simp: started_def enqueueReleaseLocked_def Let_def IsZero_def split: option.splits if_splits)

lemma release_safe_enqueue: "release_safe m \<Longrightarrow> release_safe (fst (enqueueReleaseLocked s e t m))"
  by (auto simp: release_safe_def started_enqueue claimed_def)

lemma release_safe_drop: "release_safe m \<Longrightarrow> release_safe (dropClaimLocked due d m)"
proof -
  assume m: "release_safe m"
  let ?m = "m\<lparr> blobRefs := gm_del (drop_key d) (blobRefs m) \<rparr>"
  have "release_safe ?m"
    using m by (auto simp: release_safe_def started_def claimed_def split: if_splits)
  then show ?thesis
    using release_safe_enqueue by (auto simp: dropClaimLocked_def Let_def)
qed

lemma claimed_add:
  "claimed sp d (addClaimLocked p now c m) \<Longrightarrow>
   claimed sp d m \<or> (sp = claim_Space c \<and> d = claim_Digest c)"
  by (auto simp: claimed_def claim_key_def split: if_splits)

lemma release_safe_add:
  "release_safe m \<Longrightarrow> \<not> started (claim_Space c) (claim_Digest c) m \<Longrightarrow> release_safe (addClaimLocked p now c m)"
  using claimed_add [of _ _ p now c m] by (auto simp: release_safe_def started_frame [OF addClaim_frame(2)])

lemma release_safe_adds:
  assumes "release_safe m" and "\<And>c. c \<in> set cs \<Longrightarrow> \<not> started (claim_Space c) (claim_Digest c) m"
  shows "release_safe (fold (addClaimLocked p now) cs m)"
proof -
  have "release_safe (fold (addClaimLocked p now) cs m) \<and> releases (fold (addClaimLocked p now) cs m) = releases m"
    by (rule fold_invariant [where P = "\<lambda>m'. release_safe m' \<and> releases m' = releases m"])
      (use assms release_safe_add started_def in auto)
  then show ?thesis by simp
qed

lemma firstRefused_None:
  "firstRefused cs m = None \<Longrightarrow> c \<in> set cs \<Longrightarrow>
   \<not> started (claim_Space c) (claim_Digest c) m \<and> gm_get (locations m) (claim_Space c, claim_Digest c) \<noteq> None"
  by (induction cs) (auto simp: claimRefusedLocked_def started_def split: option.splits if_splits)

lemma pin_accepted:
  assumes "release_safe m" and "\<not> pinRefusedLocked p m"
    and "\<And>r. gm_get (blobRefs m) (claim_key p) = Some r \<Longrightarrow> claim_Space r = claim_Space p"
  shows "\<not> started (claim_Space p) (claim_Digest p) m"
proof -
  have "claimed (claim_Space p) (claim_Digest p) m"
  proof (cases "gm_get (blobRefs m) (claim_key p)")
    case None
    then show ?thesis using assms(2) by (simp add: pinRefusedLocked_def countClaims_eq_0)
  next
    case (Some r)
    then have "fst (claim_key p) = claim_Digest p" "claim_Space r = claim_Space p"
      using assms(3) by (auto simp: claim_key_def)
    with Some show ?thesis unfolding claimed_def by blast
  qed
  then show ?thesis using assms(1) by (auto simp: release_safe_def)
qed

lemma release_safe_CommitRoot:
  assumes m: "release_safe m" and pl: "pins_local c m"
  shows "release_safe (fst (CommitRoot name e n c now m))"
proof (cases "snd (CommitRoot name e n c now m)")
  case (Some err)
  then have "fst (CommitRoot name e n c now m) = m" using CommitRoot_error by (metis prod.collapse)
  then show ?thesis using m by simp
next
  case None
  then obtain s where s: "firstRefused (rcm_Claims c) m = None" "\<forall>p \<in> set (rcm_Pins c). \<not> pinRefusedLocked p m"
    and eq: "fst (CommitRoot name e n c now m) = commitRows name s n c now m"
    using CommitRoot_ok_iff [of name e n c now m "fst (CommitRoot name e n c now m)"]
    by (cases "CommitRoot name e n c now m") auto
  define m1 where "m1 = fold (addRegistration now) (rcm_Registrations c)
    (journalLocked name (rcm_Journal c) now (m\<lparr> buckets := gm_put name (s\<lparr> st_Root := n \<rparr>) (buckets m) \<rparr>))"
  have fr: "releases m1 = releases m" "blobRefs m1 = blobRefs m"
    by (simp_all add: m1_def fold_frame [where f = releases] fold_frame [where f = blobRefs])
  define m2 where "m2 = fold (addClaimLocked True now) (rcm_Claims c) m1"
  have "release_safe m2" unfolding m2_def
    using release_safe_adds [of m1] m fr firstRefused_None [OF s(1)]
    by (simp add: release_safe_frame [OF fr] started_frame [OF fr(1)])
  moreover have "\<not> started (claim_Space p) (claim_Digest p) m2" if "p \<in> set (rcm_Pins c)" for p
  proof -
    have "releases m2 = releases m" by (simp add: m2_def fold_frame [where f = releases] fr)
    then have "started (claim_Space p) (claim_Digest p) m2 = started (claim_Space p) (claim_Digest p) m"
      by (rule started_frame)
    then show ?thesis using pin_accepted [OF m] s(2) pl that by (auto simp: pins_local_def)
  qed
  ultimately have "release_safe (fold (addClaimLocked False now) (rcm_Pins c) m2)"
    using release_safe_adds by blast
  then show ?thesis
    unfolding eq commitRows_def m1_def [symmetric] m2_def [symmetric]
    by (rule fold_invariant [where P = release_safe]) (rule release_safe_drop)
qed

lemma release_safe_StartRelease: "release_safe m \<Longrightarrow> release_safe (fst (StartRelease sp d now m))"
  by (auto simp: release_safe_def started_def claimed_def StartRelease_def Let_def countClaims_eq_0
      split: option.splits if_splits)

lemma release_safe_del:
  "release_safe m \<Longrightarrow> release_safe (m\<lparr> releases := gm_del k (releases m) \<rparr>)"
  by (auto simp: release_safe_def started_def claimed_def split: if_splits)

section \<open>Rows carry their bucket's space\<close>

text \<open>\<open>f\<close> gives the space of a bucket. Every row of the index is filed under its own key and names its
  bucket's space; a commit of the write path names it too.\<close>

definition rows_ok :: "(string \<Rightarrow> did) \<Rightarrow> MemStore \<Rightarrow> bool" where
  "rows_ok f m \<longleftrightarrow> (\<forall>k c. gm_get (blobRefs m) k = Some c \<longrightarrow> claim_key c = k \<and> claim_Space c = f (claim_Bucket c))"

definition commit_ok :: "(string \<Rightarrow> did) \<Rightarrow> RootCommit \<Rightarrow> bool" where
  "commit_ok f c \<longleftrightarrow> list_all (\<lambda>cl. claim_Space cl = f (claim_Bucket cl)) (rcm_Claims c @ rcm_Pins c)
     \<and> list_all (\<lambda>d. drop_Space d = f (drop_Bucket d)) (rcm_Drops c)"

lemma rows_ok_add: "rows_ok f m \<Longrightarrow> claim_Space c = f (claim_Bucket c) \<Longrightarrow> rows_ok f (addClaimLocked p now c m)"
  by (simp add: rows_ok_def)

lemma rows_ok_drop: "rows_ok f m \<Longrightarrow> rows_ok f (dropClaimLocked due d m)"
  by (simp add: rows_ok_def)

lemma rows_ok_pins: "rows_ok f m \<Longrightarrow> commit_ok f c \<Longrightarrow> pins_local c m"
  by (auto simp: rows_ok_def commit_ok_def pins_local_def list_all_iff claim_key_def)

definition before_drops :: "string \<Rightarrow> State \<Rightarrow> cid \<Rightarrow> RootCommit \<Rightarrow> time \<Rightarrow> MemStore \<Rightarrow> MemStore" where
  "before_drops name s n c now m = commitRows name s n (c\<lparr> rcm_Drops := [] \<rparr>) now m"

lemma commitRows_drops:
  "commitRows name s n c now m
     = fold (dropClaimLocked (now + rcm_ReleaseGrace c)) (rcm_Drops c) (before_drops name s n c now m)"
  by (simp add: before_drops_def commitRows_def)

lemma rows_ok_before_drops:
  assumes "rows_ok f m" and "commit_ok f c"
  shows "rows_ok f (before_drops name s n c now m)"
proof -
  define m1 where "m1 = fold (addRegistration now) (rcm_Registrations c)
    (journalLocked name (rcm_Journal c) now (m\<lparr> buckets := gm_put name (s\<lparr> st_Root := n \<rparr>) (buckets m) \<rparr>))"
  have "rows_ok f m1" using assms(1) by (simp add: m1_def rows_ok_def fold_frame [where f = blobRefs])
  then have "rows_ok f (fold (addClaimLocked True now) (rcm_Claims c) m1)"
    by (rule fold_invariant [where P = "rows_ok f"]) (use assms(2) rows_ok_add in \<open>auto simp: commit_ok_def list_all_iff\<close>)
  then have "rows_ok f (fold (addClaimLocked False now) (rcm_Pins c) (fold (addClaimLocked True now) (rcm_Claims c) m1))"
    by (rule fold_invariant [where P = "rows_ok f"]) (use assms(2) rows_ok_add in \<open>auto simp: commit_ok_def list_all_iff\<close>)
  then show ?thesis by (simp add: before_drops_def commitRows_def m1_def)
qed

lemma rows_ok_commitRows: "rows_ok f m \<Longrightarrow> commit_ok f c \<Longrightarrow> rows_ok f (commitRows name s n c now m)"
  unfolding commitRows_drops
  by (rule fold_invariant [where P = "rows_ok f"]) (auto intro: rows_ok_before_drops rows_ok_drop)

lemma rows_ok_CommitRoot: "rows_ok f m \<Longrightarrow> commit_ok f c \<Longrightarrow> rows_ok f (fst (CommitRoot name e n c now m))"
  by (auto simp: CommitRoot_def rows_ok_commitRows split: option.split)

section \<open>The last drop records the release\<close>

definition due_by :: "did \<Rightarrow> multihash \<Rightarrow> time \<Rightarrow> MemStore \<Rightarrow> bool" where
  "due_by sp d t m = (\<exists>pr. gm_get (releases m) (sp, d) = Some pr \<and> t \<le> pr_NotBefore pr)"

lemma due_by_enqueue: "due_by sp d t (fst (enqueueReleaseLocked sp' d' t' m)) \<longleftrightarrow>
    due_by sp d t m \<or> (sp = sp' \<and> d = d' \<and> t \<le> t')"
  by (auto simp: due_by_def enqueueReleaseLocked_def Let_def split: option.splits)

lemma drop_step:
  assumes "rows_ok f m" and "drop_Space e = f (drop_Bucket e)"
    and "claimed sp d m \<or> due_by sp d t m \<or> (sp = drop_Space e \<and> d = drop_Digest e)"
  shows "claimed sp d (dropClaimLocked t e m) \<or> due_by sp d t (dropClaimLocked t e m)"
proof -
  let ?m = "m\<lparr> blobRefs := gm_del (drop_key e) (blobRefs m) \<rparr>"
  have after: "claimed sp d (dropClaimLocked t e m) = claimed sp d ?m" by (simp add: claimed_def)
  have due: "due_by sp d t (dropClaimLocked t e m) \<longleftrightarrow>
      due_by sp d t m \<or> (\<not> claimed (drop_Space e) (drop_Digest e) ?m \<and> sp = drop_Space e \<and> d = drop_Digest e)"
    by (auto simp: dropClaimLocked_def Let_def countClaims_eq_0 due_by_enqueue) (simp_all add: due_by_def)
  have "claimed sp d ?m \<or> (sp = drop_Space e \<and> d = drop_Digest e)" if cl: "claimed sp d m"
  proof -
    obtain k c where k: "gm_get (blobRefs m) k = Some c" "fst k = d" "claim_Space c = sp"
      using cl by (auto simp: claimed_def)
    show ?thesis
    proof (cases "k = drop_key e")
      case True
      then have "claim_key c = drop_key e" "claim_Space c = f (claim_Bucket c)" 
        using assms(1) k(1) unfolding rows_ok_def by blast+
      then show ?thesis using k True assms(2) by (auto simp: claim_key_def drop_key_def)
    next
      case False
      then have "gm_get (blobRefs ?m) k = Some c" using k(1) by simp
      then show ?thesis using k(2,3) unfolding claimed_def by blast
    qed
  qed
  then show ?thesis using assms(3) after due by blast
qed

lemma drops_recorded:
  "rows_ok f m \<Longrightarrow> \<forall>e \<in> set ds. drop_Space e = f (drop_Bucket e) \<Longrightarrow>
   claimed sp d m \<or> due_by sp d t m \<or> (\<exists>e \<in> set ds. sp = drop_Space e \<and> d = drop_Digest e) \<Longrightarrow>
   claimed sp d (fold (dropClaimLocked t) ds m) \<or> due_by sp d t (fold (dropClaimLocked t) ds m)"
proof (induction ds arbitrary: m)
  case (Cons e ds)
  have "claimed sp d (dropClaimLocked t e m) \<or> due_by sp d t (dropClaimLocked t e m)
      \<or> (\<exists>e \<in> set ds. sp = drop_Space e \<and> d = drop_Digest e)"
    using drop_step [OF Cons.prems(1), of e sp d t] Cons.prems(2,3) by auto
  then show ?case using Cons.IH [OF rows_ok_drop [OF Cons.prems(1)]] Cons.prems(2) by simp
qed auto

section \<open>Properties\<close>

lemma adds_present:
  "gm_get (blobRefs (fold (addClaimLocked p now) cs m)) k \<noteq> None \<longleftrightarrow>
     gm_get (blobRefs m) k \<noteq> None \<or> k \<in> claim_key ` set cs"
  by (induction cs arbitrary: m) auto

lemma drops_present:
  "gm_get (blobRefs (fold (dropClaimLocked t) ds m)) k \<noteq> None \<longleftrightarrow>
     gm_get (blobRefs m) k \<noteq> None \<and> k \<notin> drop_key ` set ds"
  by (induction ds arbitrary: m) auto

lemma commitRows_present:
  "gm_get (blobRefs (commitRows name s n c now m)) k \<noteq> None \<longleftrightarrow>
     (gm_get (blobRefs m) k \<noteq> None \<or> k \<in> claim_key ` (set (rcm_Claims c) \<union> set (rcm_Pins c)))
     \<and> k \<notin> drop_key ` set (rcm_Drops c)"
  unfolding commitRows_def drops_present adds_present
  by (auto simp: fold_frame [where f = blobRefs and g = "addRegistration now"])

definition demo_bucket :: MemStore where
  "demo_bucket = fst (Create ''b'' ''did:space'' \<lparr> cs_Tenant = ''t'', cs_Versioning = None, cs_ObjectLockConfig = None \<rparr> 1 NewMemStore)"

definition demo_claim :: "string \<Rightarrow> BlobClaim" where
  "demo_claim key = \<lparr> claim_Digest = ''d'', claim_Bucket = ''b'', claim_ObjectKey = key, claim_VersionID = ''null'', claim_Space = ''did:space'' \<rparr>"

definition demo_drop :: "string \<Rightarrow> ClaimDrop" where
  "demo_drop key = \<lparr> drop_Digest = ''d'', drop_Bucket = ''b'', drop_ObjectKey = key, drop_VersionID = ''null'', drop_Space = ''did:space'' \<rparr>"

lemma rootOf_demo: "rootOf ''b'' demo_bucket = Some cid_Undef"
  by (simp add: rootOf_def demo_bucket_def Create_def NewMemStore_def)

text \<open>C6. A root commit is all or nothing. On any error the store is as it was. On success the bucket's
  root was the expected one and is the new one, and the reference index has gained exactly the rows the
  commit claims or pins and lost exactly those it drops.\<close>

theorem CommitRoot_all_or_nothing:
  "case CommitRoot name e n c now m of
     (m', Some err) \<Rightarrow> m' = m
   | (m', None) \<Rightarrow> rootOf name m = Some e \<and> rootOf name m' = Some n
       \<and> {k. gm_get (blobRefs m') k \<noteq> None} =
           ({k. gm_get (blobRefs m) k \<noteq> None} \<union> claim_key ` (set (rcm_Claims c) \<union> set (rcm_Pins c)))
           - drop_key ` set (rcm_Drops c)"
proof -
  obtain m' err where r: "CommitRoot name e n c now m = (m', err)" by fastforce
  show ?thesis
  proof (cases err)
    case (Some e')
    then show ?thesis using r CommitRoot_error by simp
  next
    case None
    then obtain s where "gm_get (buckets m) name = Some s" "st_Root s = e" "m' = commitRows name s n c now m"
      using r by (auto simp: CommitRoot_ok_iff)
    then show ?thesis using r None commitRows_present [of name s n c now m] by (auto simp: rootOf_def)
  qed
qed

text \<open>C19. Whatever commits are attempted on a bucket, by whatever writers and in whatever order, those
  that succeed form one chain: each expected the root the one before it installed, the first the root
  the bucket had, and the bucket ends at the last one's root.\<close>

theorem commits_form_a_chain:
  assumes "rootOf name m = Some v" and "run_cas (commit_cas name) attempts m = (m', won)"
  shows "\<exists>v'. rootOf name m' = Some v' \<and> chained v won v'"
  using root.successes_chain [OF assms] .

theorem commits_form_a_chain_witness:
  "snd (run_cas (commit_cas ''b'')
      [((emptyCommit, 2), cid_Undef, ''r1''), ((emptyCommit, 3), cid_Undef, ''r2''), ((emptyCommit, 4), ''r1'', ''r3'')] demo_bucket)
     = [(cid_Undef, ''r1''), (''r1'', ''r3'')]
   \<and> (\<exists>v'. chained cid_Undef [(cid_Undef, ''r1''), (''r1'', ''r3'')] v')"
proof -
  let ?r = "run_cas (commit_cas ''b'')
      [((emptyCommit, 2), cid_Undef, ''r1''), ((emptyCommit, 3), cid_Undef, ''r2''), ((emptyCommit, 4), ''r1'', ''r3'')] demo_bucket"
  have won: "snd ?r = [(cid_Undef, ''r1''), (''r1'', ''r3'')]"
    by (simp add: commit_cas_def CommitRoot_def commitRows_def journalLocked_def emptyCommit_def emptyAppended_def
        demo_bucket_def Create_def NewMemStore_def cid_Undef_def)
  then show ?thesis
    using commits_form_a_chain [OF rootOf_demo, of _ "fst ?r" "snd ?r"] by (metis prod.collapse)
qed

text \<open>C20. No crash window between the last claim and its release: after a commit that drops a claim on
  a blob, the space still claims the blob, or its release is on record, due no earlier than the grace
  after the commit.\<close>

theorem CommitRoot_drop_recorded:
  assumes "rows_ok f m" and "commit_ok f c" and "CommitRoot name e n c now m = (m', None)" and "dr \<in> set (rcm_Drops c)"
  shows "claimed (drop_Space dr) (drop_Digest dr) m' \<or> due_by (drop_Space dr) (drop_Digest dr) (now + rcm_ReleaseGrace c) m'"
proof -
  obtain s where m': "m' = commitRows name s n c now m" using assms(3) by (auto simp: CommitRoot_ok_iff)
  show ?thesis
    unfolding m' commitRows_drops
    by (rule drops_recorded [where f = f, OF rows_ok_before_drops [OF assms(1,2)]])
      (use assms(2,4) in \<open>auto simp: commit_ok_def list_all_iff\<close>)
qed

definition demo_claimed :: MemStore where
  "demo_claimed = demo_bucket\<lparr> blobRefs := gm_put (claim_key (demo_claim ''k'')) (demo_claim ''k'') gm_empty \<rparr>"

theorem CommitRoot_drop_recorded_witness:
  "\<exists>m'. CommitRoot ''b'' cid_Undef ''r1'' (emptyCommit\<lparr> rcm_Drops := [demo_drop ''k''], rcm_ReleaseGrace := 60 \<rparr>) 5 demo_claimed = (m', None)
     \<and> (claimed ''did:space'' ''d'' m' \<or> due_by ''did:space'' ''d'' 65 m')"
proof -
  let ?c = "emptyCommit\<lparr> rcm_Drops := [demo_drop ''k''], rcm_ReleaseGrace := 60 \<rparr>"
  have "rows_ok (\<lambda>_. ''did:space'') demo_claimed"
    by (simp add: rows_ok_def demo_claimed_def demo_claim_def)
  moreover have "commit_ok (\<lambda>_. ''did:space'') ?c"
    by (simp add: commit_ok_def emptyCommit_def demo_drop_def)
  moreover obtain m' where r: "CommitRoot ''b'' cid_Undef ''r1'' ?c 5 demo_claimed = (m', None)"
    by (simp add: CommitRoot_def demo_claimed_def demo_bucket_def Create_def NewMemStore_def emptyCommit_def)
  ultimately show ?thesis
    using CommitRoot_drop_recorded [OF _ _ r, of "\<lambda>_. ''did:space''" "demo_drop ''k''"]
    by (auto simp: emptyCommit_def demo_drop_def)
qed

end
