(* ===== verification/Bucket_Commit.thy ===== *)
theory Bucket_Commit
  imports Bucket_Tx Log_Frame Mem_Claims
begin

text \<open>
  What a committed transaction publishes. The blocks of a batch become readable exactly as the
  transaction saw them; so a tree written out in a transaction means, to every reader after the commit,
  what it meant inside; and the trees of the other buckets mean what they meant.
\<close>

section \<open>Assumptions on the codec and the tiers\<close>

text \<open>\<open>content\<close> is the block a CID names. A node's encoding is the block of its CID, decodes to the node,
  and is a block the log's files can hold; what the tiers answer is the block asked for.\<close>

definition well_formed :: "bucket_env \<Rightarrow> (cid \<Rightarrow> bytes) \<Rightarrow> cid \<Rightarrow> bool" where
  "well_formed D content c \<longleftrightarrow> cid_Defined c \<and> car_ok (carE (be_log D)) [(c, content c)]
     \<and> length c < 2 ^ 16 \<and> Cast (be_log D) c = Inr c"

definition codec_ok :: "bucket_env \<Rightarrow> (cid \<Rightarrow> bytes) \<Rightarrow> bool" where
  "codec_ok D content \<longleftrightarrow> (\<forall>k. length (be_SHA256 D k) = 32)
     \<and> (\<forall>nd c d. be_Encode D nd = Inr (c, d) \<longrightarrow> d = content c \<and> be_Decode D d = Inr nd \<and> well_formed D content c)"

definition tiers_ok :: "bucket_env \<Rightarrow> (cid \<Rightarrow> bytes) \<Rightarrow> bool" where
  "tiers_ok D content \<longleftrightarrow> (\<forall>f space c. be_Local D = Some f \<longrightarrow> true_to content c (f space c))
     \<and> (\<forall>space c b. be_Base D space c = Inr b \<longrightarrow> b = (c, content c))"

lemma codec_encode:
  assumes "codec_ok D content" and "node_addr_of D nd = Inr c"
  shows "be_Encode D nd = Inr (c, content c)" and "be_Decode D (content c) = Inr nd" and "well_formed D content c"
  using assms by (auto simp: codec_ok_def node_addr_of_def split: sum.splits prod.splits)

lemma codec_addr_ok: "codec_ok D content \<Longrightarrow> addr_ok (node_addr_of D)"
  unfolding addr_ok_def using codec_encode(2,3) unfolding well_formed_def by (metis sum.inject(2))

section \<open>The blocks of a transaction\<close>

text \<open>Every block a reader gets is the one its CID names, under a CID the log's files can hold.\<close>

definition view_ok :: "bucket_env \<Rightarrow> (cid \<Rightarrow> bytes) \<Rightarrow> (cid \<Rightarrow> log_error + bytes) \<Rightarrow> bool" where
  "view_ok D content B \<longleftrightarrow> (\<forall>c d. B c = Inr d \<longrightarrow> d = content c \<and> well_formed D content c)"

definition reads_view :: "bucket_env \<Rightarrow> Manager \<Rightarrow> did \<Rightarrow> cid \<Rightarrow> log_error + bytes" where
  "reads_view D mg space c = map_sum id snd (reads_GetBlock D mg space c)"

definition view_env :: "bucket_env \<Rightarrow> (cid \<Rightarrow> log_error + bytes) \<Rightarrow> mst_env" where
  "view_env D B = \<lparr> sha256_Sum256 = be_SHA256 D, cst_Get = (\<lambda>c. decodeBlock D (B c)) \<rparr>"

lemma reads_env_view: "reads_env D mg space = view_env D (reads_view D mg space)"
  by (simp add: reads_env_def view_env_def reads_view_def)

lemma tx_reader_view: "tx_reader D mg tx = view_env D (tx_GetBlock D mg tx)"
  by (simp add: tx_reader_def view_env_def)

lemma tx_GetBlock_view:
  "tx_GetBlock D mg tx c = (case gm_get (blocks (tx_staging tx)) c of Some d \<Rightarrow> Inr d | None \<Rightarrow> reads_view D mg (st_Space (tx_state tx)) c)"
  by (simp add: tx_GetBlock_def staging_Get_def reads_view_def split: option.split)

text \<open>A view reads all another reads.\<close>

definition view_le :: "(cid \<Rightarrow> log_error + bytes) \<Rightarrow> (cid \<Rightarrow> log_error + bytes) \<Rightarrow> bool" where
  "view_le B B' \<longleftrightarrow> (\<forall>c d. B c = Inr d \<longrightarrow> B' c = Inr d)"

lemma view_le_refl [simp]: "view_le B B"
  by (simp add: view_le_def)

lemma view_le_trans: "view_le B B' \<Longrightarrow> view_le B' B'' \<Longrightarrow> view_le B B''"
  by (simp add: view_le_def)

lemma view_le_env: "view_le B B' \<Longrightarrow> env_le (view_env D B) (view_env D B')"
  by (auto simp: view_le_def env_le_def view_env_def decodeBlock_def split: sum.splits)

lemma view_agrees: "codec_ok D content \<Longrightarrow> view_ok D content B \<Longrightarrow> store_agrees (node_addr_of D) (view_env D B)"
  unfolding store_agrees_def
proof (intro allI impI)
  fix c nd nd'
  assume a: "codec_ok D content" "view_ok D content B" "node_addr_of D nd = Inr c" "cst_Get (view_env D B) c = Inr nd'"
  then have "be_Decode D (content c) = Inr nd'"
    by (auto simp: view_env_def decodeBlock_def view_ok_def split: sum.splits)
  then show "nd' = nd" using codec_encode(2) [OF a(1,3)] by simp
qed

lemma view_node_cid: "view_ok D content B \<Longrightarrow> cst_Get (view_env D B) c = Inr nd \<Longrightarrow> well_formed D content c"
  by (auto simp: view_env_def decodeBlock_def view_ok_def split: sum.splits)

definition tx_ok :: "bucket_env \<Rightarrow> (cid \<Rightarrow> bytes) \<Rightarrow> Tx \<Rightarrow> bool" where
  "tx_ok D content tx \<longleftrightarrow> staging_ok (tx_staging tx)
     \<and> (\<forall>c d. gm_get (blocks (tx_staging tx)) c = Some d \<longrightarrow> d = content c \<and> well_formed D content c)"

lemma tx_ok_Put: "tx_ok D content tx \<Longrightarrow> well_formed D content c \<Longrightarrow> tx_ok D content (tx_PutBlock (c, content c) tx)"
  unfolding tx_ok_def using staging_ok_Put [of "tx_staging tx" "(c, content c)"]
  by (auto simp: tx_PutBlock_def staging_Put_def split: if_splits)

lemma tx_GetBlock_Put:
  "tx_ok D content tx \<Longrightarrow>
   tx_GetBlock D mg (tx_PutBlock (c, content c) tx) c' = (if c' = c then Inr (content c) else tx_GetBlock D mg tx c')"
  by (auto simp: tx_ok_def tx_GetBlock_def tx_PutBlock_def staging_Get_Put) (auto simp: staging_Get_def)

definition same_tx :: "Tx \<Rightarrow> Tx \<Rightarrow> bool" where
  "same_tx tx tx' \<longleftrightarrow> tx_bucket tx' = tx_bucket tx \<and> tx_state tx' = tx_state tx \<and> tx_commit tx' = tx_commit tx \<and> tx_held tx' = tx_held tx"

lemma putNodes_ok:
  assumes "codec_ok D content"
  shows "tx_ok D content tx \<Longrightarrow> \<forall>(c, x) \<in> set bs. \<exists>nd. x = Some nd \<and> node_addr_of D nd = Inr c \<Longrightarrow>
    \<exists>tx'. putNodes D bs tx = Inr tx' \<and> tx_ok D content tx' \<and> same_tx tx tx'
      \<and> (\<forall>c. tx_GetBlock D mg tx' c = (if c \<in> fst ` set bs then Inr (content c) else tx_GetBlock D mg tx c))"
proof (induction bs arbitrary: tx)
  case (Cons b bs)
  obtain c nd where b: "b = (c, Some nd)" "node_addr_of D nd = Inr c" using Cons.prems(2) by auto
  note enc = codec_encode [OF assms b(2)]
  let ?tx = "tx_PutBlock (c, content c) tx"
  obtain tx' where tx': "putNodes D bs ?tx = Inr tx'" "tx_ok D content tx'" "same_tx ?tx tx'"
      "\<And>c'. tx_GetBlock D mg tx' c' = (if c' \<in> fst ` set bs then Inr (content c') else tx_GetBlock D mg ?tx c')"
    using Cons.IH [OF tx_ok_Put [OF Cons.prems(1) enc(3)]] Cons.prems(2) by auto
  have "putNodes D (b # bs) tx = Inr tx'" using tx'(1) enc(1) by (simp add: b(1) tx_PutNode_def)
  moreover have "same_tx tx tx'" using tx'(3) by (simp add: same_tx_def tx_PutBlock_def)
  ultimately show ?case using tx'(2,4) tx_GetBlock_Put [OF Cons.prems(1)] by (auto simp: b(1))
qed (simp add: same_tx_def)

lemma tx_env_New [simp]: "tx_env E NewOpStaging = E"
proof -
  have "staging_Get f NewOpStaging = f" for f :: "cid \<Rightarrow> mst_error + NodeData"
    by (simp add: NewOpStaging_def staging_Get_def fun_eq_iff)
  then show ?thesis by (simp add: tx_env_def)
qed

text \<open>A tree read by its pointer alone means the same; an empty one is at layer 0.\<close>

lemma node_ok_load:
  assumes "node_ok l E t kvs" and "validPtr t"
  shows "\<exists>l' \<le> l. node_ok l' E (LoadMST (pointer t)) kvs"
proof (cases "kvs = []")
  case False
  then show ?thesis using node_ok_by_pointer [OF assms, of "- 1"] by (auto simp: LoadMST_def)
next
  case True
  then obtain es where es: "getEntries E (LoadMST (pointer t)) = Inr es" "ents_rel (sub_ok l E) E l es []"
    using assms by (auto simp: node_ok_iff ptr_ok_def)
  then have "es = []" using ents_rel_empty [OF es(2)] by simp
  then have "node_ok 0 E (LoadMST (pointer t)) kvs"
    using es(1) True by (auto simp: node_ok_iff ptr_ok_def layer_ok_def LoadMST_def createMST_def)
  then show ?thesis by blast
qed

lemma tx_GetPointer_ok:
  assumes codec: "codec_ok D content" and tx: "tx_ok D content tx" and view: "view_ok D content (tx_GetBlock D mg tx)"
    and t: "node_ok l (tx_reader D mg tx) t kvs" and vk: "valid_keys kvs" and l: "l < mst_fuel"
    and gp: "tx_GetPointer D mg t tx = Inr (c, tx')"
  shows "tx_ok D content tx'" and "same_tx tx tx'" and "view_ok D content (tx_GetBlock D mg tx')"
    and "view_le (tx_GetBlock D mg tx) (tx_GetBlock D mg tx')"
    and "\<exists>l' \<le> l. node_ok l' (tx_reader D mg tx') (LoadMST c) kvs" and "well_formed D content c"
proof -
  let ?E = "tx_reader D mg tx" and ?a = "node_addr_of D"
  obtain t' w where w: "GetPointer mst_fuel ?E ?a t NewOpStaging = Inr (c, t', w)" "putNodes D (staging_batch w) tx = Inr tx'"
    using gp by (auto simp: tx_GetPointer_def bindE_eq_Inr)
  have g: "validPtr t'" "pointer t' = c" "node_ok l (tx_env ?E w) t' kvs"
    using GetPointer_node [OF codec_addr_ok [OF codec], of l ?E NewOpStaging t kvs mst_fuel] view_agrees [OF codec view] t vk l w(1)
    by (auto simp: gp_spec_def grown_def tx_reader_view)
  have P: "staging_ok w \<and> (\<forall>c nd. gm_get (blocks w) c = Some nd \<longrightarrow> ?a nd = Inr c)"
    by (rule GetPointer_keeps [OF _ w(1), where P = "\<lambda>w. staging_ok w \<and> (\<forall>c nd. gm_get (blocks w) c = Some nd \<longrightarrow> ?a nd = Inr c)"])
      (auto simp: staging_ok_Put staging_ok_New, auto simp: staging_Put_def NewOpStaging_def split: if_splits)
  have bs: "\<forall>(c, x) \<in> set (staging_batch w). \<exists>nd. x = Some nd \<and> ?a nd = Inr c"
    and dom: "c' \<in> fst ` set (staging_batch w) \<longleftrightarrow> gm_get (blocks w) c' \<noteq> None" for c'
    using P by (auto simp: staging_batch_def staging_ok_def image_image)
  have put: "tx_ok D content tx'" "same_tx tx tx'"
      "\<And>c'. tx_GetBlock D mg tx' c' = (if gm_get (blocks w) c' \<noteq> None then Inr (content c') else tx_GetBlock D mg tx c')"
    using putNodes_ok [OF codec tx bs, of mg] w(2) by (simp_all add: dom)
  then show "tx_ok D content tx'" "same_tx tx tx'" by blast+
  have wf: "well_formed D content c'" if "gm_get (blocks w) c' = Some nd" for c' nd
    using P that codec_encode(3) [OF codec] by blast
  then show view': "view_ok D content (tx_GetBlock D mg tx')"
    using view put(3) unfolding view_ok_def by (metis (no_types, lifting) option.exhaust sum.inject(2))
  show "view_le (tx_GetBlock D mg tx) (tx_GetBlock D mg tx')"
    using view put(3) by (auto simp: view_ok_def view_le_def)
  have "cst_Get (tx_reader D mg tx') c' = cst_Get (tx_env ?E w) c'" for c'
  proof (cases "gm_get (blocks w) c'")
    case (Some nd)
    then have "be_Decode D (content c') = Inr nd" using codec_encode(2) [OF codec] P by blast
    then show ?thesis using Some put(3) [of c']
      by (simp add: tx_reader_def tx_env_def staging_Get_def decodeBlock_def)
  qed (use put(3) [of c'] in \<open>simp add: tx_reader_def tx_env_def staging_Get_def\<close>)
  then have eq: "tx_reader D mg tx' = tx_env ?E w" by (simp add: tx_reader_def tx_env_def fun_eq_iff)
  show ld: "\<exists>l' \<le> l. node_ok l' (tx_reader D mg tx') (LoadMST c) kvs" using node_ok_load [OF g(3,1)] g(2) eq by simp
  then obtain nd where "cst_Get (tx_reader D mg tx') c = Inr nd"
    by (auto simp: node_ok_iff getEntries_def LoadMST_def createMST_def bindE_eq_Inr split: if_splits)
  then show "well_formed D content c" using view_node_cid [OF view'] by (simp add: tx_reader_view)
qed


section \<open>What a commit publishes\<close>

text \<open>The batch a commit appends.\<close>

definition staged :: "Tx \<Rightarrow> (cid \<times> bytes) list" where
  "staged tx = map (\<lambda>(c, d). (c, the d)) (staging_batch (tx_staging tx))"

lemma staged_ok:
  assumes "tx_ok D content tx"
  shows "\<not> list_ex (\<lambda>(_, d). d = None) (staging_batch (tx_staging tx))" and "distinct (map fst (staged tx))"
    and "addressed content (staged tx)" and "car_ok (carE (be_log D)) (staged tx)"
    and "c \<in> fst ` set (staged tx) \<longleftrightarrow> gm_get (blocks (tx_staging tx)) c \<noteq> None"
proof -
  have mem: "(c, d) \<in> set (staging_batch (tx_staging tx)) \<Longrightarrow> d = Some (content c) \<and> well_formed D content c" for c d
    using assms by (auto simp: tx_ok_def staging_batch_def staging_ok_def)
  then show "\<not> list_ex (\<lambda>(_, d). d = None) (staging_batch (tx_staging tx))" by (auto simp: list_ex_iff)
  show "addressed content (staged tx)" using mem by (fastforce simp: addressed_def staged_def)
  show "car_ok (carE (be_log D)) (staged tx)" using mem by (fastforce simp: car_ok_def staged_def well_formed_def)
  have "map fst (staged tx) = order (tx_staging tx)" by (simp add: staged_def staging_batch_def comp_def split_beta)
  moreover then have "fst ` set (staged tx) = set (order (tx_staging tx))" by (metis list.set_map)
  ultimately show "distinct (map fst (staged tx))" "c \<in> fst ` set (staged tx) \<longleftrightarrow> gm_get (blocks (tx_staging tx)) c \<noteq> None"
    using assms by (simp_all add: tx_ok_def staging_ok_def)
qed

text \<open>A commit that got past the append: the log has changed by the batch, and the registry by \<open>CommitRoot\<close>.\<close>

lemma Commit_appended:
  assumes "tx_ok D content tx" and "Commit D io newRoot tx co = ((co', tx'), err)" and "err = None \<or> (\<exists>e. err = Some (OpAdvanceRoot e))"
  obtains mg m seg c m' rerr where "mgr_AppendBatch (be_log D) (ci_open io) (ci_append io) (ci_now io) (ci_dirs io) (staged tx)
      \<lparr> op_Bucket = tx_bucket tx, op_Root = newRoot \<rparr> (co_log co) = ((mg, m), Inr seg)"
    and "CommitRoot (tx_bucket tx) (st_Root (tx_state tx)) newRoot c (ci_now io) m = (m', rerr)"
    and "c = (tx_commit tx)\<lparr> rcm_Journal := \<lparr> ap_Segment = seg, ap_Blocks = staged tx \<rparr> \<rparr>"
    and "co_log co' = (mg, m')" and "co_locks co' = co_locks co - {tx_bucket tx}" and "err = map_option OpAdvanceRoot rerr" and "cid_Defined newRoot"
proof -
  obtain mg m seg where ap: "mgr_AppendBatch (be_log D) (ci_open io) (ci_append io) (ci_now io) (ci_dirs io) (staged tx)
      \<lparr> op_Bucket = tx_bucket tx, op_Root = newRoot \<rparr> (co_log co) = ((mg, m), Inr seg)" and h: "tx_held tx" "cid_Defined newRoot"
    using assms(2,3) staged_ok(1) [OF assms(1)]
    by (auto simp: Commit_def staging_Commit_def appendStaged_def staged_def [symmetric] Let_def
        split: if_splits prod.splits sum.splits)
  let ?c = "(tx_commit tx)\<lparr> rcm_Journal := \<lparr> ap_Segment = seg, ap_Blocks = staged tx \<rparr> \<rparr>"
  obtain m' rerr where cr: "CommitRoot (tx_bucket tx) (st_Root (tx_state tx)) newRoot ?c (ci_now io) m = (m', rerr)"
    by (metis prod.exhaust)
  have "co_log co' = (mg, m')" "co_locks co' = co_locks co - {tx_bucket tx}" "err = map_option OpAdvanceRoot rerr"
    using assms(2) staged_ok(1) [OF assms(1)] ap h cr
    by (auto simp: Commit_def staging_Commit_def appendStaged_def staged_def [symmetric] finalize_def co_release_def Let_def)
  then show thesis using that [OF ap cr refl] h(2) by blast
qed

lemma Commit_locks:
  assumes "tx_held tx" and "Commit D io newRoot tx co = ((co', tx'), err)"
  shows "co_locks co' = co_locks co - {tx_bucket tx}"
  using assms by (auto simp: Commit_def finalize_def co_release_def Let_def split: prod.splits sum.splits)

lemma Commit_reads:
  assumes "tx_ok D content tx" and "tiers_ok D content" and "logs_ok (be_log D) content (co_log co)"
    and "batch_fits (be_log D) content (staged tx) \<lparr> op_Bucket = tx_bucket tx, op_Root = newRoot \<rparr> (co_log co)"
    and "Commit D io newRoot tx co = ((co', tx'), err)" and "err = None \<or> (\<exists>e. err = Some (OpAdvanceRoot e))"
  shows "reads_GetBlock D (fst (co_log co')) space c =
      (if gm_get (blocks (tx_staging tx)) c \<noteq> None then Inr (c, content c) else reads_GetBlock D (fst (co_log co)) space c)"
proof -
  obtain mg m seg rc m' rerr where ap: "mgr_AppendBatch (be_log D) (ci_open io) (ci_append io) (ci_now io) (ci_dirs io) (staged tx)
      \<lparr> op_Bucket = tx_bucket tx, op_Root = newRoot \<rparr> (co_log co) = ((mg, m), Inr seg)" and co': "co_log co' = (mg, m')"
    by (rule Commit_appended [OF assms(1,5,6)])
  have "true_to content c (f space c)" if "be_Local D = Some f" for c f using assms(2) that by (simp add: tiers_ok_def)
  then have "layered_GetBlock (be_Local D) (Some (\<lambda>c. mgr_Get (be_log D) c (fst (mg, m)))) (be_Base D) space c =
      (if c \<in> fst ` set (staged tx) then Inr (c, content c) else reads_GetBlock D (fst (co_log co)) space c)"
    unfolding reads_GetBlock_def by (intro buckets_log.layered_append [OF assms(3,4) ap]) blast
  then show ?thesis by (simp add: reads_GetBlock_def co' staged_ok(5) [OF assms(1)])
qed


section \<open>The published trees\<close>

definition tree_at :: "cid \<Rightarrow> mst" where
  "tree_at root = (if cid_Defined root then LoadMST root else NewEmptyMST)"

definition published :: "bucket_env \<Rightarrow> (cid \<Rightarrow> bytes) \<Rightarrow> Coordinator \<Rightarrow> string \<Rightarrow> kv_map \<Rightarrow> bool" where
  "published D content co bucket M \<longleftrightarrow> (\<exists>st. gm_get (buckets (snd (co_log co))) bucket = Some st
     \<and> mst_repr (reads_env D (fst (co_log co)) (st_Space st)) (tree_at (st_Root st)) M
     \<and> view_ok D content (reads_view D (fst (co_log co)) (st_Space st)) \<and> (\<forall>k \<in> dom M. IsValidKey k))"

lemma reads_true:
  assumes "tiers_ok D content" and "logs_ok (be_log D) content (co_log co)" and "reads_GetBlock D (fst (co_log co)) space c = Inr b"
  shows "b = (c, content c)"
proof -
  have "true_to content c (mgr_Get (be_log D) c (fst (co_log co)))" by (rule buckets_log.get_true [OF assms(2)])
  moreover have "be_Local D = Some f \<Longrightarrow> true_to content c (f space c)" "be_Base D space c = Inr b \<Longrightarrow> b = (c, content c)" for f
    using assms(1) unfolding tiers_ok_def by blast+
  ultimately show ?thesis using assms(3)
    by (cases "be_Local D") (auto simp: reads_GetBlock_def layered_GetBlock_def true_to_def Let_def)
qed

lemma mst_repr_mono: "env_le E E' \<Longrightarrow> mst_repr E t M \<Longrightarrow> mst_repr E' t M"
  using node_ok_mono by (auto simp: mst_repr_def sha_ok_def env_le_def) blast

lemma repr_valid_keys: "\<forall>k \<in> dom (map_of kvs). IsValidKey k \<Longrightarrow> valid_keys kvs"
  by (auto simp: valid_keys_def dom_map_of_conv_image_fst)

lemma nextSeq_CommitRoot:
  assumes "CommitRoot b e n c now m = (m', err)"
  shows "nextSeq m' = nextSeq m"
proof -
  have "nextSeq (addClaimLocked p now c m) = nextSeq m" "nextSeq (dropClaimLocked due d m) = nextSeq m"
      "nextSeq (journalLocked b j now m) = nextSeq m" "nextSeq (addRegistration now r m) = nextSeq m" for p now c m due d j r
    by (auto simp: addClaimLocked_def dropClaimLocked_def enqueueReleaseLocked_def journalLocked_def addRegistration_def Let_def
        split: option.splits)
  then have "nextSeq (commitRows b s n c now m) = nextSeq m" for s
    by (simp add: commitRows_def fold_frame [where f = nextSeq])
  then show ?thesis using assms by (auto simp: CommitRoot_def split: option.splits if_splits)
qed

lemma logs_ok_meta:
  assumes "logs_ok E content (mg, m)" and "nextSeq m' = nextSeq m"
  shows "logs_ok E content (mg, m')"
proof -
  have "nextSeq m \<le> nextSeq m'" using assms(2) by simp
  then have "plog E content A S pl m \<Longrightarrow> plog E content A S pl m'" for A S pl using plog_meta by blast
  then show ?thesis using assms(1) unfolding logs_ok_def fst_conv snd_conv by blast
qed


text \<open>What a commit leaves of every bucket's tree: after the append, each tree is read through an
  environment that reads all it read before; the bucket's own tree may be any tree the transaction
  has written.\<close>

lemma Commit_view:
  assumes tx: "tx_ok D content tx" and tiers: "tiers_ok D content" and logs: "logs_ok (be_log D) content (co_log co)"
    and fits: "batch_fits (be_log D) content (staged tx) \<lparr> op_Bucket = tx_bucket tx, op_Root = newRoot \<rparr> (co_log co)"
    and commit: "Commit D io newRoot tx co = ((co', tx'), err)" "err = None \<or> (\<exists>e. err = Some (OpAdvanceRoot e))"
  shows "view_le (reads_view D (fst (co_log co)) space) (reads_view D (fst (co_log co')) space)"
    and "view_ok D content (reads_view D (fst (co_log co)) space) \<Longrightarrow> view_ok D content (reads_view D (fst (co_log co')) space)"
    and "reads_view D (fst (co_log co')) (st_Space (tx_state tx)) = tx_GetBlock D (fst (co_log co)) tx"
proof -
  have after: "reads_view D (fst (co_log co')) space c =
      (if gm_get (blocks (tx_staging tx)) c \<noteq> None then Inr (content c) else reads_view D (fst (co_log co)) space c)" for space c
    using Commit_reads [OF tx tiers logs fits commit] by (simp add: reads_view_def)
  show "view_le (reads_view D (fst (co_log co)) space) (reads_view D (fst (co_log co')) space)"
    unfolding view_le_def
  proof (intro allI impI)
    fix c d assume "reads_view D (fst (co_log co)) space c = Inr d"
    then obtain b where "reads_GetBlock D (fst (co_log co)) space c = Inr b" "d = snd b"
      by (cases "reads_GetBlock D (fst (co_log co)) space c") (auto simp: reads_view_def)
    then have "d = content c" using reads_true [OF tiers logs] by (metis snd_conv)
    then show "reads_view D (fst (co_log co')) space c = Inr d" using \<open>reads_view D (fst (co_log co)) space c = Inr d\<close> after by simp
  qed
  show "view_ok D content (reads_view D (fst (co_log co')) space)" if "view_ok D content (reads_view D (fst (co_log co)) space)"
    using that tx after [of space] unfolding view_ok_def tx_ok_def by (metis (no_types, lifting) option.exhaust sum.inject(2))
  show "reads_view D (fst (co_log co')) (st_Space (tx_state tx)) = tx_GetBlock D (fst (co_log co)) tx"
    using tx by (auto simp: after tx_GetBlock_view tx_ok_def fun_eq_iff split: option.splits)
qed


section \<open>Properties\<close>

text \<open>The closure of a transaction that changes the bucket's tree: load it, apply the change, write it out.\<close>

fun tree_apply :: "index_op \<Rightarrow> mst_env \<Rightarrow> mst \<Rightarrow> mst_error + mst" where
  "tree_apply (OpAdd k v) E t = mst_Add mst_fuel E t k v (- 1)"
| "tree_apply (OpUpdate k v) E t = mst_Update mst_fuel E t k v"
| "tree_apply (OpDelete k) E t = mst_Delete mst_fuel E t k"
| "tree_apply (OpGet k) E t = Inr t"

fun map_apply :: "index_op \<Rightarrow> kv_map \<Rightarrow> mst_error + kv_map" where
  "map_apply (OpAdd k v) M = map_Add M k v"
| "map_apply (OpUpdate k v) M = map_Update M k v"
| "map_apply (OpDelete k) M = map_Delete M k"
| "map_apply (OpGet k) M = Inr M"

definition tree_fn :: "bucket_env \<Rightarrow> index_op \<Rightarrow> mst_error MutateFn" where
  "tree_fn D p mg tx m =
     (m, bindE (tree_apply p (tx_reader D mg tx) (LoadTree tx)) (\<lambda>t. tx_GetPointer D mg t tx))"

lemma tree_apply_refines: "mst_repr E t M \<Longrightarrow> refines (mst_repr E) (tree_apply p E t) (map_apply p M)"
  using mst_Add_refines mst_Update_refines mst_Delete_refines by (cases p) auto

lemma map_apply_keys: "map_apply p M = Inr M' \<Longrightarrow> \<forall>k \<in> dom M. IsValidKey k \<Longrightarrow> \<forall>k \<in> dom M'. IsValidKey k"
  by (cases p) (auto simp: map_Add_def map_Update_def map_Delete_def split: if_splits)

text \<open>A tree that stands for a map, written out in a transaction, is read back from its pointer.\<close>

lemma tx_GetPointer_repr:
  assumes "codec_ok D content" and "tx_ok D content tx" and "view_ok D content (tx_GetBlock D mg tx)"
    and "mst_repr (tx_reader D mg tx) t M" and "\<forall>k \<in> dom M. IsValidKey k" and "tx_GetPointer D mg t tx = Inr (c, tx')"
  shows "tx_ok D content tx'" and "same_tx tx tx'" and "view_ok D content (tx_GetBlock D mg tx')"
    and "view_le (tx_GetBlock D mg tx) (tx_GetBlock D mg tx')"
    and "mst_repr (tx_reader D mg tx') (LoadMST c) M" and "well_formed D content c"
proof -
  obtain l kvs where l: "sha_ok (tx_reader D mg tx)" "l \<le> 128" "l < mst_fuel" "node_ok l (tx_reader D mg tx) t kvs" "sorted_kvs kvs" "M = map_of kvs"
    using assms(4) by (rule mst_reprE)
  have vk: "valid_keys kvs" using assms(5) l(6) by (intro repr_valid_keys) simp
  note gp = tx_GetPointer_ok [OF assms(1-3) l(4) vk l(3) assms(6)]
  then show "tx_ok D content tx'" "same_tx tx tx'" "view_ok D content (tx_GetBlock D mg tx')"
    "view_le (tx_GetBlock D mg tx) (tx_GetBlock D mg tx')" "well_formed D content c" by blast+
  obtain l' where l': "l' \<le> l" "node_ok l' (tx_reader D mg tx') (LoadMST c) kvs" using gp(5) by blast
  moreover have "sha_ok (tx_reader D mg tx')" using l(1) by (simp add: sha_ok_def tx_reader_def)
  moreover have "l' \<le> 128" using l'(1) l(2) by simp
  ultimately show "mst_repr (tx_reader D mg tx') (LoadMST c) M" using l(5,6) by (intro mst_reprI)
qed

text \<open>What a fresh transaction reads.\<close>

lemma fresh_tx:
  assumes "tx = \<lparr> tx_bucket = b, tx_state = st, tx_staging = NewOpStaging, tx_commit = emptyCommit, tx_held = True \<rparr>"
  shows "tx_GetBlock D mg tx = reads_view D mg (st_Space st)" and "LoadTree tx = tree_at (st_Root st)" and "tx_ok D content tx"
  using assms by (simp_all add: tx_GetBlock_view NewOpStaging_def LoadTree_def tree_at_def tx_ok_def staging_ok_def fun_eq_iff)

lemma tree_fn_ok:
  assumes codec: "codec_ok D content" and st: "mst_repr (reads_env D mg (st_Space st)) (tree_at (st_Root st)) M"
    and view: "view_ok D content (reads_view D mg (st_Space st))" and keys: "\<forall>k \<in> dom M. IsValidKey k"
    and tx: "tx = \<lparr> tx_bucket = b, tx_state = st, tx_staging = NewOpStaging, tx_commit = emptyCommit, tx_held = True \<rparr>"
  shows "map_apply p M = Inl e \<Longrightarrow> tree_fn D p mg tx m = (m, Inl e)"
    and "tree_fn D p mg tx m = (m', Inr (c, tx')) \<Longrightarrow> \<exists>M'. map_apply p M = Inr M' \<and> tx_ok D content tx' \<and> same_tx tx tx'
      \<and> mst_repr (tx_reader D mg tx') (LoadMST c) M' \<and> well_formed D content c"
proof -
  note fresh = fresh_tx [OF tx]
  have E: "tx_reader D mg tx = reads_env D mg (st_Space st)" by (simp add: tx_reader_view reads_env_view fresh)
  note ref = tree_apply_refines [OF st, of p]
  show "tree_fn D p mg tx m = (m, Inl e)" if "map_apply p M = Inl e"
    using ref that by (simp add: tree_fn_def E fresh(2))
  assume "tree_fn D p mg tx m = (m', Inr (c, tx'))"
  then obtain u where u: "tree_apply p (reads_env D mg (st_Space st)) (tree_at (st_Root st)) = Inr u" "tx_GetPointer D mg u tx = Inr (c, tx')"
    by (auto simp: tree_fn_def E fresh(2) bindE_eq_Inr)
  then obtain M' where M': "map_apply p M = Inr M'" "mst_repr (tx_reader D mg tx) u M'" using ref E by auto
  then show "\<exists>M'. map_apply p M = Inr M' \<and> tx_ok D content tx' \<and> same_tx tx tx'
      \<and> mst_repr (tx_reader D mg tx') (LoadMST c) M' \<and> well_formed D content c"
    using tx_GetPointer_repr [OF codec fresh(3) _ M'(2) map_apply_keys [OF M'(1) keys] u(2)] view fresh(1) by metis
qed


text \<open>A commit past its append keeps every tree published, and one that swaps the root publishes the
  tree at the new root.\<close>

lemma Commit_publishes:
  assumes tx: "tx_ok D content tx" and tiers: "tiers_ok D content" and logs: "logs_ok (be_log D) content (co_log co)"
    and fits: "batch_fits (be_log D) content (staged tx) \<lparr> op_Bucket = tx_bucket tx, op_Root = newRoot \<rparr> (co_log co)"
    and commit: "Commit D io newRoot tx co = ((co', tx'), err)" "err = None \<or> (\<exists>e. err = Some (OpAdvanceRoot e))"
    and st: "gm_get (buckets (snd (co_log co))) (tx_bucket tx) = Some (tx_state tx)"
  shows "err \<noteq> None \<or> b \<noteq> tx_bucket tx \<Longrightarrow> gm_get (buckets (snd (co_log co'))) b = gm_get (buckets (snd (co_log co))) b"
    and "err = None \<Longrightarrow> gm_get (buckets (snd (co_log co'))) (tx_bucket tx) = Some ((tx_state tx)\<lparr> st_Root := newRoot \<rparr>)"
    and "co_locks co' = co_locks co - {tx_bucket tx}" and "logs_ok (be_log D) content (co_log co')" and "cid_Defined newRoot"
proof -
  obtain mg m seg c m' rerr where ap: "mgr_AppendBatch (be_log D) (ci_open io) (ci_append io) (ci_now io) (ci_dirs io) (staged tx)
      \<lparr> op_Bucket = tx_bucket tx, op_Root = newRoot \<rparr> (co_log co) = ((mg, m), Inr seg)"
    and cr: "CommitRoot (tx_bucket tx) (st_Root (tx_state tx)) newRoot c (ci_now io) m = (m', rerr)"
    and co': "co_log co' = (mg, m')" "co_locks co' = co_locks co - {tx_bucket tx}" "err = map_option OpAdvanceRoot rerr"
    and root: "cid_Defined newRoot"
    by (rule Commit_appended [OF tx commit])
  show "co_locks co' = co_locks co - {tx_bucket tx}" "cid_Defined newRoot" by (rule co'(2), rule root)
  show "logs_ok (be_log D) content (co_log co')"
    unfolding co'(1) by (rule logs_ok_meta [OF buckets_log.append_ok [OF logs fits ap] nextSeq_CommitRoot [OF cr]])
  have same: "buckets m = buckets (snd (co_log co))" using mgr_AppendBatch_buckets [OF ap] by simp
  show "gm_get (buckets (snd (co_log co'))) b = gm_get (buckets (snd (co_log co))) b" if "err \<noteq> None \<or> b \<noteq> tx_bucket tx"
    using that cr same co'(1,3) by (cases rerr) (auto simp: CommitRoot_ok_iff dest: CommitRoot_error)
  show "gm_get (buckets (snd (co_log co'))) (tx_bucket tx) = Some ((tx_state tx)\<lparr> st_Root := newRoot \<rparr>)" if "err = None"
    using that cr co'(1,3) st same by (auto simp: CommitRoot_ok_iff)
qed

lemma published_mono:
  assumes "published D content co b N" and "gm_get (buckets (snd (co_log co'))) b = gm_get (buckets (snd (co_log co))) b"
    and "\<And>space. view_le (reads_view D (fst (co_log co)) space) (reads_view D (fst (co_log co')) space)"
    and "\<And>space. view_ok D content (reads_view D (fst (co_log co)) space) \<Longrightarrow> view_ok D content (reads_view D (fst (co_log co')) space)"
  shows "published D content co' b N"
  using assms mst_repr_mono [OF view_le_env [OF assms(3)]] unfolding published_def reads_env_view by metis


text \<open>C2. A transaction that adds, changes or removes a key of a bucket's tree, from the root it snapshots to the
  root it publishes. Each bucket's tree, read from its published root through the local copies, the log
  and the network, stands for a map. If the change is refused by the map, the transaction fails with that
  error and changes neither the log nor the registry. If the transaction succeeds, the new root stands for
  the changed map, and every other bucket's root still stands for its map; so too, for all buckets, if the root
  swap is refused. The locks are as they were.\<close>

theorem WithTx_tree:
  assumes "codec_ok D content" and "tiers_ok D content" and "logs_ok (be_log D) content (co_log co)"
    and "nextSeq (snd (co_log co)) < - 1" and "gm_get (mg_stores (fst (co_log co))) bucket \<noteq> None" and "length bucket \<le> 2 ^ 16"
    and "\<forall>b N. F b = Some N \<longrightarrow> published D content co b N" and "F bucket = Some M"
    and "WithTx D io bucket (tree_fn D p) co = Some (co', err)"
  shows "(\<forall>e. map_apply p M = Inl e \<longrightarrow> err = Some (OpFn e) \<and> co_log co' = co_log co)
    \<and> (err = None \<longrightarrow> (\<exists>M'. map_apply p M = Inr M' \<and> (\<forall>b N. (F(bucket \<mapsto> M')) b = Some N \<longrightarrow> published D content co' b N)))
    \<and> ((\<exists>e. err = Some (OpAdvanceRoot e)) \<longrightarrow> (\<forall>b N. F b = Some N \<longrightarrow> published D content co' b N))
    \<and> co_locks co' = co_locks co"
proof -
  obtain st where st: "gm_get (buckets (snd (co_log co))) bucket = Some st" "mst_repr (reads_env D (fst (co_log co)) (st_Space st)) (tree_at (st_Root st)) M"
      "view_ok D content (reads_view D (fst (co_log co)) (st_Space st))" "\<forall>k \<in> dom M. IsValidKey k"
    using assms(7,8) unfolding published_def by blast
  let ?co = "co\<lparr> co_locks := insert bucket (co_locks co) \<rparr>"
  define tx where "tx = \<lparr> tx_bucket = bucket, tx_state = st, tx_staging = NewOpStaging, tx_commit = emptyCommit, tx_held = True \<rparr>"
  obtain m r where mr: "tree_fn D p (fst (co_log co)) tx (snd (co_log co)) = (m, r)" "m = snd (co_log co)" by (simp add: tree_fn_def)
  have free: "bucket \<notin> co_locks co" and run: "(case r of
        Inl e \<Rightarrow> (fst (Discard tx ?co), Some (OpFn e))
      | Inr (newRoot, tx') \<Rightarrow> if \<not> cid_Defined newRoot then (fst (Discard tx' ?co), None)
          else (let ((co2, _), err) = Commit D io newRoot tx' ?co in (co2, err))) = (co', err)"
    using assms(9) st(1) mr(1) unfolding tx_def mr(2)
    by (auto simp: WithTx_def Begin_def co_Lock_def mem_Get_def with_registry_def split: if_splits sum.splits)
  note fn = tree_fn_ok [OF assms(1) st(2-4) tx_def, of p]
  show ?thesis
  proof (cases r)
    case (Inl e)
    have "co_log co' = co_log co \<and> co_locks co' = co_locks co \<and> err = Some (OpFn e)"
      using run Inl free by (auto simp: Discard_def finalize_def co_release_def tx_def)
    then show ?thesis using fn(1) mr Inl by auto
  next
    case (Inr cr)
    obtain c tx' where r: "r = Inr (c, tx')" using Inr by (cases cr) auto
    then obtain M' where M': "map_apply p M = Inr M'" "tx_ok D content tx'" "same_tx tx tx'"
        "mst_repr (tx_reader D (fst (co_log co)) tx') (LoadMST c) M'" "well_formed D content c"
      using fn(2) mr(1) by blast
    have b: "tx_bucket tx' = bucket" "tx_state tx' = st" using M'(3) by (simp_all add: same_tx_def tx_def)
    obtain tx2 where cm: "Commit D io c tx' ?co = ((co', tx2), err)"
      using run M'(5) by (auto simp: r well_formed_def split: prod.splits)
    have fits: "batch_fits (be_log D) content (staged tx') \<lparr> op_Bucket = tx_bucket tx', op_Root = c \<rparr> (co_log ?co)"
      using assms(4-6) M'(5) staged_ok [OF M'(2)] by (simp add: batch_fits_def Ops_Codec.op_ok_def well_formed_def b(1))
    have cp: "(\<forall>b N. published D content co b N \<longrightarrow> err \<noteq> None \<or> b \<noteq> bucket \<longrightarrow> published D content co' b N)
        \<and> (err = None \<longrightarrow> published D content co' bucket M')"
      if e: "err = None \<or> (\<exists>e. err = Some (OpAdvanceRoot e))"
    proof -
      have logs: "logs_ok (be_log D) content (co_log ?co)" "gm_get (buckets (snd (co_log ?co))) (tx_bucket tx') = Some (tx_state tx')"
        using assms(3) st(1) b by simp_all
      note view = Commit_view [OF M'(2) assms(2) logs(1) fits cm e] and pub = Commit_publishes [OF M'(2) assms(2) logs(1) fits cm e logs(2)]
      have "published D content co' b' N" if "published D content co b' N" "err \<noteq> None \<or> b' \<noteq> bucket" for b' N
        using published_mono [OF that(1)] pub(1) that(2) view(1,2) b(1) by simp
      moreover have "published D content co' bucket M'" if "err = None"
      proof -
        have "view_ok D content (tx_GetBlock D (fst (co_log co)) tx')" using view(2,3) st(3) b by simp metis
        then show ?thesis
          using pub(2,5) that view(3) M'(4) map_apply_keys [OF M'(1) st(4)] b
          by (auto simp: published_def tree_at_def reads_env_view tx_reader_view)
      qed
      ultimately show ?thesis by blast
    qed
    have "co_locks co' = co_locks co"
      using Commit_locks [OF _ cm] M'(3) free b(1) by (simp add: same_tx_def tx_def)
    then show ?thesis using M'(1) cp assms(7) by auto
  qed
qed


text \<open>A bucket with an empty tree and an open, empty log; and a codec of the node that holds one key.\<close>

definition demo_node :: NodeData where
  "demo_node = \<lparr> Left = None, Entries = [\<lparr> PrefixLen = 0, KeySuffix = ''a'', Val = ''V'', TreePtr = None \<rparr>] \<rparr>"

definition demo_deps :: bucket_env where
  "demo_deps = \<lparr> be_log = demo_log_env, be_SHA256 = (\<lambda>_. replicate 32 255),
     be_Encode = (\<lambda>nd. if nd = demo_node then Inr (''A'', ''hello'') else Inl ''too large''),
     be_Decode = (\<lambda>d. if d = ''hello'' then Inr demo_node else Inl ''malformed''),
     be_Local = None, be_Base = (\<lambda>_ _. Inl ErrBlockNotFound) \<rparr>"

definition demo_photos :: State where
  "demo_photos = \<lparr> st_Name = ''photos'', st_Space = ''did:s'', st_Tenant = ''did:t'', st_Root = cid_Undef, st_ForgeRoot = cid_Undef,
     st_Versioning = VersioningUnversioned, st_ObjectLockConfig = None, st_BucketTagging = None, st_CORSConfig = None,
     st_Encryption = BucketEncryptionUnset, st_CreatedAt = 1 \<rparr>"

definition demo_co :: Coordinator where
  "demo_co = \<lparr> co_locks = {}, co_log =
     (\<lparr> mg_catalog = pl_pc demo_plane, mg_stores = gm_put ''photos'' demo_plane gm_empty, mg_closed = False \<rparr>,
      NewMemStore\<lparr> buckets := gm_put ''photos'' demo_photos gm_empty \<rparr>) \<rparr>"

definition demo_commit_io :: commit_io where
  "demo_commit_io = \<lparr> ci_open = demo_open_io, ci_append = no_faults, ci_dirs = (\<lambda>_. gm_empty), ci_now = 5 \<rparr>"

definition demo_tx :: Tx where
  "demo_tx = \<lparr> tx_bucket = ''photos'', tx_state = demo_photos, tx_staging = NewOpStaging, tx_commit = emptyCommit, tx_held = True \<rparr>"

lemma demo_deps_ok: "codec_ok demo_deps demo_content" "tiers_ok demo_deps demo_content"
  by (auto simp: codec_ok_def tiers_ok_def demo_deps_def demo_content_def well_formed_def car_ok_def demo_car_env_def demo_Cast_def
      cid_Defined_def cid_Undef_def split: if_splits)

lemma demo_co_ok:
  "logs_ok demo_log_env demo_content (co_log demo_co)" "nextSeq (snd (co_log demo_co)) < - 1" "gm_get (mg_stores (fst (co_log demo_co))) ''photos'' \<noteq> None"
proof -
  have "plog demo_log_env demo_content {} {} demo_plane m" for m unfolding demo_plane_def by (rule plog_new)
  moreover have "plane_Get demo_log_env c demo_plane = Inl ErrBlockNotFound" for c
    by (simp add: plane_Get_def segs_def demo_plane_def newPlaneLog_def)
  ultimately show "logs_ok demo_log_env demo_content (co_log demo_co)" by (auto simp: logs_ok_def demo_co_def true_to_def)
qed (simp_all add: demo_co_def NewMemStore_def word_gt_0)

lemma demo_published: "published demo_deps demo_content demo_co ''photos'' Map.empty"
proof -
  let ?E = "reads_env demo_deps (fst (co_log demo_co)) (st_Space demo_photos)"
  have "sha_ok ?E" by (simp add: sha_ok_def reads_env_def demo_deps_def)
  moreover have "mgr_Get demo_log_env c (fst (co_log demo_co)) = Inl ErrBlockNotFound" for c
    by (simp add: mgr_Get_def demo_co_def DAList.update.rep_eq DAList.empty.rep_eq plane_Get_def segs_def demo_plane_def newPlaneLog_def)
  then have "reads_view demo_deps (fst (co_log demo_co)) space c = Inl ErrBlockNotFound" for space c
    by (simp add: reads_view_def reads_GetBlock_def layered_GetBlock_def demo_deps_def)
  then have "view_ok demo_deps demo_content (reads_view demo_deps (fst (co_log demo_co)) space)" for space by (simp add: view_ok_def)
  ultimately show ?thesis using mst_repr_empty
    by (auto simp: published_def demo_co_def demo_photos_def tree_at_def cid_Defined_def)
qed

lemma demo_tree_fn: "\<not> isl (snd (tree_fn demo_deps (OpAdd ''a'' ''V'') (fst (co_log demo_co)) demo_tx m))"
  by code_simp

lemma demo_nextSeq: "nextSeq (snd (co_log demo_co)) = 0"
  by (simp add: demo_co_def NewMemStore_def)

lemma demo_log_append:
  assumes "op_ok (Cast demo_log_env) opr" and "op_Bucket opr = ''photos''" and "nextSeq m = 0"
  shows "\<exists>st seq. mgr_AppendBatch demo_log_env demo_open_io no_faults 5 (\<lambda>_. gm_empty) blks opr (fst (co_log demo_co), m) = (st, Inr seq)"
proof -
  have ok: "\<forall>opr \<in> set [opr]. op_ok (Cast demo_log_env) opr" using assms(1) by simp
  have "appendable demo_segment" by (simp add: demo_segment_eval appendable_def newSegment_def)
  from seg_append_no_faults [OF this ok] obtain s where s: "seg_append no_faults blks [opr] demo_segment = (s, None)" by blast
  have "fst (createOpenSegment demo_log_env None 1 PlaneCatalog ''photos'' (m\<lparr> nextSeq := 1 \<rparr>)) = Inr demo_segment" for m
    by (simp add: demo_segment_def createOpenSegment_def Let_def split: prod.splits)
  then obtain m' where "createOpenSegment demo_log_env None 1 PlaneCatalog ''photos'' (m\<lparr> nextSeq := 1 \<rparr>) = (Inr demo_segment, m')"
    by (metis prod.collapse)
  then show ?thesis using s assms
    by (simp add: mgr_AppendBatch_def logFor_def AppendBatch_def plane_Append_def ensureOpenLockedAppMu_def demo_plane_def newPlaneLog_def
        demo_open_io_def NextSegmentSeq_def NewMemStore_def Ops_Codec.op_ok_def demo_co_def validBucketDir_def Let_def)
qed


lemma demo_WithTx: "\<exists>co'. WithTx demo_deps demo_commit_io ''photos'' (tree_fn demo_deps (OpAdd ''a'' ''V'')) demo_co = Some (co', None)"
proof -
  let ?co = "demo_co\<lparr> co_locks := {''photos''} \<rparr>"
  let ?m = "snd (co_log demo_co)"
  obtain c tx' where fn: "tree_fn demo_deps (OpAdd ''a'' ''V'') (fst (co_log demo_co)) demo_tx ?m = (?m, Inr (c, tx'))"
    using demo_tree_fn [of ?m] by (cases "snd (tree_fn demo_deps (OpAdd ''a'' ''V'') (fst (co_log demo_co)) demo_tx ?m)") (auto simp: tree_fn_def)
  have pub: "mst_repr (reads_env demo_deps (fst (co_log demo_co)) (st_Space demo_photos)) (tree_at (st_Root demo_photos)) Map.empty"
      "view_ok demo_deps demo_content (reads_view demo_deps (fst (co_log demo_co)) (st_Space demo_photos))"
    using demo_published by (auto simp: published_def demo_co_def)
  have tx': "tx_ok demo_deps demo_content tx'" "same_tx demo_tx tx'" "well_formed demo_deps demo_content c"
    using tree_fn_ok(2) [OF demo_deps_ok(1) pub _ demo_tx_def fn] by auto
  have b: "tx_bucket tx' = ''photos''" "tx_state tx' = demo_photos" "tx_commit tx' = emptyCommit" "tx_held tx'"
    using tx'(2) by (simp_all add: same_tx_def demo_tx_def)
  have l: "be_log demo_deps = demo_log_env" by (simp add: demo_deps_def)
  let ?opr = "\<lparr> op_Bucket = ''photos'', op_Root = c \<rparr>"
  have "batch_fits demo_log_env demo_content (staged tx') ?opr (co_log demo_co)"
    using demo_co_ok(2,3) tx'(3) staged_ok [OF tx'(1)] by (simp add: batch_fits_def Ops_Codec.op_ok_def well_formed_def l)
  moreover obtain mg m seg where ap: "mgr_AppendBatch demo_log_env demo_open_io no_faults 5 (\<lambda>_. gm_empty) (staged tx') ?opr (co_log demo_co) = ((mg, m), Inr seg)"
    using demo_log_append [of ?opr ?m] calculation demo_nextSeq unfolding batch_fits_def by (metis OpRoot.select_convs(1) prod.collapse)
  ultimately have "gm_get (buckets m) ''photos'' = Some demo_photos" using mgr_AppendBatch_buckets [OF ap] by (simp add: demo_co_def)
  then have "\<exists>m'. CommitRoot ''photos'' (st_Root demo_photos) c (emptyCommit\<lparr> rcm_Journal := \<lparr> ap_Segment = seg, ap_Blocks = staged tx' \<rparr> \<rparr>) 5 m = (m', None)"
    by (simp add: CommitRoot_def emptyCommit_def)
  then obtain co' tx2 where "Commit demo_deps demo_commit_io c tx' ?co = ((co', tx2), None :: mst_error op_error option)"
    using ap b tx'(3) staged_ok(1) [OF tx'(1)]
    by (auto simp: Commit_def staging_Commit_def appendStaged_def staged_def [symmetric] demo_commit_io_def l well_formed_def
        finalize_def Let_def split: prod.splits)
  then show ?thesis using fn tx'(3)
    by (simp add: WithTx_def Begin_def co_Lock_def mem_Get_def demo_co_def demo_tx_def well_formed_def with_registry_def)
qed

theorem WithTx_tree_witness:
  "\<exists>co'. WithTx demo_deps demo_commit_io ''photos'' (tree_fn demo_deps (OpAdd ''a'' ''V'')) demo_co = Some (co', None)
     \<and> published demo_deps demo_content co' ''photos'' [''a'' \<mapsto> ''V'']"
proof -
  obtain co' where co': "WithTx demo_deps demo_commit_io ''photos'' (tree_fn demo_deps (OpAdd ''a'' ''V'')) demo_co = Some (co', None)"
    using demo_WithTx by blast
  have "be_log demo_deps = demo_log_env" by (simp add: demo_deps_def)
  then have "\<exists>M'. map_apply (OpAdd ''a'' ''V'') Map.empty = Inr M' \<and>
      (\<forall>b N. ([''photos'' \<mapsto> Map.empty](''photos'' \<mapsto> M')) b = Some N \<longrightarrow> published demo_deps demo_content co' b N)"
    using WithTx_tree [OF demo_deps_ok _ _ _ _ _ _ co', of "[''photos'' \<mapsto> Map.empty]" Map.empty] demo_co_ok demo_published by (auto split: if_splits)
  moreover have "map_apply (OpAdd ''a'' ''V'') Map.empty = Inr [''a'' \<mapsto> ''V'']"
    by (simp add: map_Add_def IsValidKey_def MaxKeyBytes_def utf8_ValidString_def cid_Undef_def)
  ultimately show ?thesis using co' by auto
qed

end
