(* ===== verification/Mem_Blobs.thy ===== *)
theory Mem_Blobs
  imports Mem_Registry
begin

text \<open>
  The blob side of the in-memory store (\<open>src/inmem/stores.go\<close>): upload intents and their eviction,
  locations, encryption parameters, parks, inclusions, streams, garbage-collection candidates and the
  revocation cursor. The listings sort what a map iteration yields, so their result does not depend
  on the iteration order but for rows the order does not separate.
\<close>

section \<open>Intents\<close>

definition deleteIntentLocked :: "locKey \<Rightarrow> MemStore \<Rightarrow> MemStore" where
  "deleteIntentLocked k m = m\<lparr> intents := gm_del k (intents m), evicted := gm_del k (evicted m) \<rparr>"

definition countIntentsLocked :: "multihash \<Rightarrow> did option \<Rightarrow> MemStore \<Rightarrow> nat" where
  "countIntentsLocked digest except m =
     gm_count (\<lambda>k _. snd k = digest \<and> (case except of None \<Rightarrow> True | Some sp \<Rightarrow> fst k \<noteq> sp)) (intents m)"

definition DeleteIntentAndRelease :: "did \<Rightarrow> multihash \<Rightarrow> MemStore \<Rightarrow> MemStore \<times> nat" where
  "DeleteIntentAndRelease space digest m =
     (let m1 = deleteIntentLocked (space, digest) m;
          m2 = m1\<lparr> releases := gm_del (space, digest) (releases m1) \<rparr>
      in (m2, countIntentsLocked digest None m2))"

definition PutIntent :: "UploadIntent \<Rightarrow> time \<Rightarrow> MemStore \<Rightarrow> MemStore" where
  "PutIntent it now m =
     m\<lparr> intents := gm_put (in_Space it, in_Digest it) (it\<lparr> in_UpdatedAt := now \<rparr>) (intents m),
        evicted := gm_filter (\<lambda>k _. snd k \<noteq> in_Digest it) (evicted m) \<rparr>"

definition SetIntentState :: "did \<Rightarrow> multihash \<Rightarrow> IntentState \<Rightarrow> time \<Rightarrow> MemStore \<Rightarrow> outcome" where
  "SetIntentState space digest state now m =
     (case gm_get (intents m) (space, digest) of
        None \<Rightarrow> (m, Some RegErrNotFound)
      | Some it \<Rightarrow>
          let in' = (if in_State it \<noteq> state then it\<lparr> in_State := state, in_UpdatedAt := now \<rparr> else it)
          in (m\<lparr> intents := gm_put (space, digest) in' (intents m) \<rparr>, None))"

definition GetIntent :: "did \<Rightarrow> multihash \<Rightarrow> MemStore \<Rightarrow> registry_error + UploadIntent" where
  "GetIntent space digest m =
     (case gm_get (intents m) (space, digest) of None \<Rightarrow> Inl RegErrNotFound | Some it \<Rightarrow> Inr it)"

definition CountOtherIntents :: "did \<Rightarrow> multihash \<Rightarrow> MemStore \<Rightarrow> nat" where
  "CountOtherIntents space digest m = countIntentsLocked digest (Some space) m"

definition ListIntentsByState :: "IntentState \<Rightarrow> MemStore \<Rightarrow> UploadIntent list" where
  "ListIntentsByState state m = gm_values (\<lambda>k it. in_State it = state) (intents m)"

definition DeleteIntent :: "did \<Rightarrow> multihash \<Rightarrow> MemStore \<Rightarrow> MemStore" where
  "DeleteIntent space digest m = deleteIntentLocked (space, digest) m"

section \<open>Eviction\<close>

text \<open>Strictly before, in \<open>(updated_at, digest, space)\<close> order. A DID compares by its string.\<close>

definition evictCursorBefore :: "EvictCursor \<Rightarrow> UploadIntent \<Rightarrow> bool" where
  "evictCursorBefore c it =
     (if ec_UpdatedAt c \<noteq> in_UpdatedAt it then ec_UpdatedAt c < in_UpdatedAt it
      else if ec_Digest c \<noteq> in_Digest it then ec_Digest c < in_Digest it
      else ec_Space c < in_Space it)"

definition uploadingAnywhereLocked :: "multihash \<Rightarrow> MemStore \<Rightarrow> bool" where
  "uploadingAnywhereLocked digest m =
     list_ex (\<lambda>(k, it). snd k = digest \<and> (in_State it = IntentSpooled \<or> in_State it = IntentUploading))
       (gm_items (intents m))"

definition locatedLocked :: "multihash \<Rightarrow> MemStore \<Rightarrow> bool" where
  "locatedLocked digest m = list_ex (\<lambda>(k, _). snd k = digest) (gm_items (locations m))"

definition evictable :: "EvictCursor \<Rightarrow> locKey \<Rightarrow> UploadIntent \<Rightarrow> MemStore \<Rightarrow> bool" where
  "evictable after key it m =
     (gm_get (evicted m) key = None
      \<and> (case in_State it of
           IntentParked \<Rightarrow> gm_get (parks m) key \<noteq> None
         | IntentAccepted \<Rightarrow> gm_get (locations m) key \<noteq> None
         | IntentPublished \<Rightarrow> gm_get (locations m) key \<noteq> None
         | _ \<Rightarrow> False)
      \<and> \<not> uploadingAnywhereLocked (snd key) m
      \<and> evictCursorBefore after it)"

definition evict_order :: "UploadIntent \<Rightarrow> time \<times> multihash \<times> did" where
  "evict_order it = (in_UpdatedAt it, in_Digest it, in_Space it)"

text \<open>Insertion by the code's \<open>less\<close> function.\<close>

fun insertBy :: "('a \<Rightarrow> 'a \<Rightarrow> bool) \<Rightarrow> 'a \<Rightarrow> 'a list \<Rightarrow> 'a list" where
  "insertBy lt x [] = [x]"
| "insertBy lt x (y # ys) = (if lt y x then y # insertBy lt x ys else x # y # ys)"

definition sortBy :: "('a \<Rightarrow> 'a \<Rightarrow> bool) \<Rightarrow> 'a list \<Rightarrow> 'a list" where
  "sortBy lt xs = foldr (insertBy lt) xs []"

definition cursorOf :: "UploadIntent \<Rightarrow> EvictCursor" where
  "cursorOf it = \<lparr> ec_UpdatedAt = in_UpdatedAt it, ec_Digest = in_Digest it, ec_Space = in_Space it \<rparr>"

definition ListEvictable :: "EvictCursor \<Rightarrow> nat \<Rightarrow> MemStore \<Rightarrow> UploadIntent list" where
  "ListEvictable after limit m =
     take limit (sortBy (\<lambda>a b. evictCursorBefore (cursorOf a) b)
       (gm_values (\<lambda>key it. evictable after key it m) (intents m)))"

definition MarkEvicted :: "multihash \<Rightarrow> time \<Rightarrow> MemStore \<Rightarrow> outcome" where
  "MarkEvicted digest notAfter m =
     (if countIntentsLocked digest None m = 0 then (m, Some RegErrNotFound)
      else
        (m\<lparr> evicted := fold (\<lambda>(k, it) ev.
              if snd k = digest \<and> \<not> in_UpdatedAt it > notAfter then gm_put k () ev else ev)
            (gm_items (intents m)) (evicted m) \<rparr>, None))"

definition IsEvicted :: "multihash \<Rightarrow> MemStore \<Rightarrow> bool" where
  "IsEvicted digest m \<longleftrightarrow>
     list_all (\<lambda>(k, _). snd k = digest \<longrightarrow> gm_get (evicted m) k \<noteq> None) (gm_items (intents m))
     \<and> gm_count (\<lambda>k _. snd k = digest) (intents m) > 0"

definition claimedAnywhereLocked :: "multihash \<Rightarrow> MemStore \<Rightarrow> bool" where
  "claimedAnywhereLocked digest m = list_ex (\<lambda>(k, _). fst k = digest) (gm_items (blobRefs m))"

definition releasePendingAnywhereLocked :: "multihash \<Rightarrow> MemStore \<Rightarrow> bool" where
  "releasePendingAnywhereLocked digest m = list_ex (\<lambda>(k, _). snd k = digest) (gm_items (releases m))"

definition releasedPublishedLocked :: "locKey \<Rightarrow> UploadIntent \<Rightarrow> MemStore \<Rightarrow> bool" where
  "releasedPublishedLocked key it m \<longleftrightarrow>
     in_State it = IntentPublished \<and> \<not> locatedLocked (in_Digest it) m
     \<and> \<not> claimedAnywhereLocked (snd key) m \<and> \<not> releasePendingAnywhereLocked (snd key) m
     \<and> countLivePartRefsLocked None (in_Digest it) m = 0
     \<and> countIntentsLocked (snd key) (Some (fst key)) m = 0"

definition ListReleasedPublished :: "multihash \<Rightarrow> nat \<Rightarrow> MemStore \<Rightarrow> UploadIntent list" where
  "ListReleasedPublished after limit m =
     take limit (sort_key in_Digest
       (gm_values (\<lambda>key it. \<not> in_Digest it \<le> after \<and> releasedPublishedLocked key it m) (intents m)))"

definition DeleteReleasedPublished :: "did \<Rightarrow> multihash \<Rightarrow> MemStore \<Rightarrow> MemStore \<times> bool" where
  "DeleteReleasedPublished space digest m =
     (let key = (space, digest)
      in case gm_get (intents m) key of
           None \<Rightarrow> (m, False)
         | Some it \<Rightarrow>
             if \<not> releasedPublishedLocked key it m then (m, False)
             else (deleteIntentLocked key m, True))"

definition AgeIntent :: "multihash \<Rightarrow> time \<Rightarrow> MemStore \<Rightarrow> MemStore" where
  "AgeIntent digest d m =
     m\<lparr> intents := gm_each (\<lambda>k it.
          Some (if snd k = digest then it\<lparr> in_UpdatedAt := in_UpdatedAt it - d \<rparr> else it)) (intents m) \<rparr>"

definition StalledBytes :: "time \<Rightarrow> MemStore \<Rightarrow> StalledSizes" where
  "StalledBytes before m =
     fold (\<lambda>(k, it) s.
       if \<not> in_UpdatedAt it < before then s
       else
         case in_State it of
           IntentSpooled \<Rightarrow> s\<lparr> ss_Spooled := ss_Spooled s + in_Size it \<rparr>
         | IntentUploading \<Rightarrow> s\<lparr> ss_Uploading := ss_Uploading s + in_Size it \<rparr>
         | _ \<Rightarrow> s) (gm_items (intents m)) \<lparr> ss_Spooled = 0, ss_Uploading = 0 \<rparr>"

definition MissingIntents :: "multihash list \<Rightarrow> MemStore \<Rightarrow> multihash list" where
  "MissingIntents digests m = filter (\<lambda>d. countIntentsLocked d None m = 0) digests"

section \<open>Locations, encryption parameters, parks, inclusions\<close>

definition PutLocation :: "BlobLocation \<Rightarrow> MemStore \<Rightarrow> MemStore" where
  "PutLocation loc m = m\<lparr> locations := gm_put (loc_Space loc, loc_Digest loc) loc (locations m) \<rparr>"

definition GetLocation :: "did \<Rightarrow> multihash \<Rightarrow> MemStore \<Rightarrow> registry_error + BlobLocation" where
  "GetLocation space digest m =
     (case gm_get (locations m) (space, digest) of None \<Rightarrow> Inl RegErrNotFound | Some loc \<Rightarrow> Inr loc)"

definition batchGet :: "(locKey, 'v) gomap \<Rightarrow> did \<Rightarrow> multihash list \<Rightarrow> (multihash, 'v) gomap" where
  "batchGet tbl space digests =
     fold (\<lambda>d out. case gm_get tbl (space, d) of Some v \<Rightarrow> gm_put d v out | None \<Rightarrow> out) digests gm_empty"

definition GetLocations :: "did \<Rightarrow> multihash list \<Rightarrow> MemStore \<Rightarrow> (multihash, BlobLocation) gomap" where
  "GetLocations space digests m = batchGet (locations m) space digests"

definition DeleteLocation :: "did \<Rightarrow> multihash \<Rightarrow> MemStore \<Rightarrow> MemStore" where
  "DeleteLocation space digest m = m\<lparr> locations := gm_del (space, digest) (locations m) \<rparr>"

definition PutEncryptionParams :: "BlobEncryptionParams \<Rightarrow> MemStore \<Rightarrow> MemStore" where
  "PutEncryptionParams params m = m\<lparr> encParams := gm_put (ep_Space params, ep_Digest params) params (encParams m) \<rparr>"

definition GetEncryptionParams :: "did \<Rightarrow> multihash \<Rightarrow> MemStore \<Rightarrow> registry_error + BlobEncryptionParams" where
  "GetEncryptionParams space digest m =
     (case gm_get (encParams m) (space, digest) of None \<Rightarrow> Inl RegErrNotFound | Some p \<Rightarrow> Inr p)"

definition GetEncryptionParamsBatch :: "did \<Rightarrow> multihash list \<Rightarrow> MemStore \<Rightarrow> (multihash, BlobEncryptionParams) gomap" where
  "GetEncryptionParamsBatch space digests m = batchGet (encParams m) space digests"

definition DeleteEncryptionParams :: "did \<Rightarrow> multihash \<Rightarrow> MemStore \<Rightarrow> MemStore" where
  "DeleteEncryptionParams space digest m = m\<lparr> encParams := gm_del (space, digest) (encParams m) \<rparr>"

definition RewrapEncryptionParams :: "did \<Rightarrow> multihash \<Rightarrow> bytes \<Rightarrow> string \<Rightarrow> MemStore \<Rightarrow> outcome" where
  "RewrapEncryptionParams space digest wrappedCEK keyVersion m =
     (case gm_get (encParams m) (space, digest) of
        None \<Rightarrow> (m, Some RegErrNotFound)
      | Some p \<Rightarrow>
          (m\<lparr> encParams := gm_put (space, digest)
                (p\<lparr> ep_RegionWrappedCEK := wrappedCEK, ep_RegionKeyVersion := keyVersion \<rparr>) (encParams m) \<rparr>, None))"

definition PutPark :: "BlobPark \<Rightarrow> MemStore \<Rightarrow> MemStore \<times> bool" where
  "PutPark p m =
     (if gm_get (parks m) (park_Space p, park_Digest p) \<noteq> None then (m, False)
      else (m\<lparr> parks := gm_put (park_Space p, park_Digest p) p (parks m) \<rparr>, True))"

definition GetPark :: "did \<Rightarrow> multihash \<Rightarrow> MemStore \<Rightarrow> registry_error + BlobPark" where
  "GetPark space digest m =
     (case gm_get (parks m) (space, digest) of None \<Rightarrow> Inl RegErrNotFound | Some p \<Rightarrow> Inr p)"

definition HasParkFor :: "bytes \<Rightarrow> MemStore \<Rightarrow> bool" where
  "HasParkFor addTask m = list_ex (\<lambda>(_, p). park_AddTask p = addTask) (gm_items (parks m))"

definition DeletePark :: "did \<Rightarrow> multihash \<Rightarrow> MemStore \<Rightarrow> MemStore" where
  "DeletePark space digest m = m\<lparr> parks := gm_del (space, digest) (parks m) \<rparr>"

definition ConcludePark :: "BlobLocation \<Rightarrow> bytes \<Rightarrow> MemStore \<Rightarrow> MemStore \<times> bool" where
  "ConcludePark loc addTask m =
     (let key = (loc_Space loc, loc_Digest loc)
      in case gm_get (parks m) key of
           None \<Rightarrow> (m, False)
         | Some park \<Rightarrow>
             if park_AddTask park \<noteq> addTask then (m, False)
             else (m\<lparr> parks := gm_del key (parks m), locations := gm_put key loc (locations m) \<rparr>, True))"

definition PutInclusions :: "BlobInclusion list \<Rightarrow> MemStore \<Rightarrow> MemStore" where
  "PutInclusions incs m =
     fold (\<lambda>i m. m\<lparr> inclusions := gm_put (inc_Space i, inc_Digest i) i (inclusions m) \<rparr>) incs m"

definition GetInclusion :: "did \<Rightarrow> multihash \<Rightarrow> MemStore \<Rightarrow> registry_error + BlobInclusion" where
  "GetInclusion space digest m =
     (case gm_get (inclusions m) (space, digest) of None \<Rightarrow> Inl RegErrNotFound | Some i \<Rightarrow> Inr i)"

section \<open>Streams, candidates, cursor\<close>

definition PutStream :: "BlobStream \<Rightarrow> time \<Rightarrow> MemStore \<Rightarrow> MemStore" where
  "PutStream s now m =
     (let created = (if IsZero (bs_CreatedAt s) then now else bs_CreatedAt s);
          touched = (if IsZero (bs_TouchedAt s) then created else bs_TouchedAt s)
      in m\<lparr> streams := gm_put (bs_AddTask s) (s\<lparr> bs_CreatedAt := created, bs_TouchedAt := touched \<rparr>) (streams m) \<rparr>)"

definition TouchStreams :: "bytes list \<Rightarrow> time \<Rightarrow> MemStore \<Rightarrow> MemStore" where
  "TouchStreams addTasks now m =
     fold (\<lambda>t m. case gm_get (streams m) t of
         Some s \<Rightarrow> m\<lparr> streams := gm_put t (s\<lparr> bs_TouchedAt := now \<rparr>) (streams m) \<rparr>
       | None \<Rightarrow> m) addTasks m"

definition DeleteStream :: "bytes \<Rightarrow> MemStore \<Rightarrow> MemStore" where
  "DeleteStream addTask m = m\<lparr> streams := gm_del addTask (streams m) \<rparr>"

definition ListStaleStreams :: "time \<Rightarrow> nat \<Rightarrow> MemStore \<Rightarrow> BlobStream list" where
  "ListStaleStreams olderThan limit m =
     take limit (sort_key bs_TouchedAt (gm_values (\<lambda>_ s. bs_TouchedAt s < olderThan) (streams m)))"

definition AddGCCandidate :: "bytes \<Rightarrow> MemStore \<Rightarrow> MemStore" where
  "AddGCCandidate cidBytes m = m\<lparr> gcCands := gm_put cidBytes () (gcCands m) \<rparr>"

definition GetRevocationCursor :: "MemStore \<Rightarrow> registry_error + RevocationCursor" where
  "GetRevocationCursor m = (case revCursor m of None \<Rightarrow> Inl RegErrNotFound | Some c \<Rightarrow> Inr c)"

definition PutRevocationCursor :: "RevocationCursor \<Rightarrow> MemStore \<Rightarrow> MemStore" where
  "PutRevocationCursor cur m = m\<lparr> revCursor := Some cur \<rparr>"

end
