(* ===== verification/Mem_Multipart.thy ===== *)
theory Mem_Multipart
  imports Mem_Blobs Mem_Claims
begin

text \<open>
  Multipart sessions, their parts and part trees in the in-memory store (\<open>src/inmem/stores.go\<close>). A
  session moves by a single-winner latch; a part may be recorded only under an open session, and the
  blobs a replaced part named are queued for release with it.
\<close>

section \<open>Sessions\<close>

definition CreateSession :: "MultipartSession \<Rightarrow> time \<Rightarrow> MemStore \<Rightarrow> outcome" where
  "CreateSession s now m =
     (if gm_get (sessions m) (ms_UploadID s) \<noteq> None then (m, Some RegErrExists)
      else
        let state = (case ms_State s of None \<Rightarrow> Some SessionOpen | st \<Rightarrow> st);
            created = (if IsZero (ms_CreatedAt s) then now else ms_CreatedAt s);
            changed = (if IsZero (ms_StateChangedAt s) then created else ms_StateChangedAt s)
        in (m\<lparr> sessions := gm_put (ms_UploadID s)
                (s\<lparr> ms_State := state, ms_CreatedAt := created, ms_StateChangedAt := changed \<rparr>) (sessions m) \<rparr>,
            None))"

definition GetSession :: "string \<Rightarrow> MemStore \<Rightarrow> registry_error + MultipartSession" where
  "GetSession uploadID m =
     (case gm_get (sessions m) uploadID of None \<Rightarrow> Inl RegErrNotFound | Some s \<Rightarrow> Inr s)"

definition LatchSession :: "string \<Rightarrow> SessionState \<Rightarrow> SessionState \<Rightarrow> time \<Rightarrow> MemStore \<Rightarrow> MemStore \<times> bool" where
  "LatchSession uploadID frm to now m =
     (case gm_get (sessions m) uploadID of
        None \<Rightarrow> (m, False)
      | Some s \<Rightarrow>
          if ms_State s \<noteq> Some frm then (m, False)
          else
            (m\<lparr> sessions := gm_put uploadID (s\<lparr> ms_State := Some to, ms_StateChangedAt := now \<rparr>) (sessions m) \<rparr>,
             True))"

definition CompleteSession :: "string \<Rightarrow> string \<Rightarrow> string \<Rightarrow> time \<Rightarrow> MemStore \<Rightarrow> MemStore \<times> bool" where
  "CompleteSession uploadID etag versionID now m =
     (case gm_get (sessions m) uploadID of
        None \<Rightarrow> (m, False)
      | Some s \<Rightarrow>
          if ms_State s \<noteq> Some SessionCompleting then (m, False)
          else
            (m\<lparr> sessions := gm_put uploadID
                  (s\<lparr> ms_State := Some SessionCompleted, ms_CommittedETag := etag,
                      ms_CommittedVersionID := versionID, ms_StateChangedAt := now \<rparr>) (sessions m) \<rparr>,
             True))"

definition DeleteSession :: "string \<Rightarrow> MemStore \<Rightarrow> MemStore" where
  "DeleteSession uploadID m =
     m\<lparr> sessions := gm_del uploadID (sessions m), parts := gm_del uploadID (parts m),
        partTrees := gm_del uploadID (partTrees m) \<rparr>"

definition sessionBefore :: "MultipartSession \<Rightarrow> MultipartSession \<Rightarrow> bool" where
  "sessionBefore a b =
     (if ms_ObjectKey a \<noteq> ms_ObjectKey b then ms_ObjectKey a < ms_ObjectKey b
      else if ms_CreatedAt a \<noteq> ms_CreatedAt b then ms_CreatedAt a < ms_CreatedAt b
      else ms_UploadID a < ms_UploadID b)"

definition ListSessions :: "string \<Rightarrow> MemStore \<Rightarrow> MultipartSession list" where
  "ListSessions bucket m = sortBy sessionBefore (gm_values (\<lambda>_ s. ms_Bucket s = bucket) (sessions m))"

definition ListStaleSessions :: "SessionState \<Rightarrow> time \<Rightarrow> MemStore \<Rightarrow> MultipartSession list" where
  "ListStaleSessions state cutoff m =
     sort_key ms_StateChangedAt
       (gm_values (\<lambda>_ s. ms_State s = Some state \<and> ms_StateChangedAt s < cutoff) (sessions m))"

section \<open>Parts\<close>

text \<open>The releases a part write owes: one per digest the replaced row named and the new part does
  not. \<open>keep\<close> starts as the new part's digests and grows by each digest released.\<close>

fun releaseReplaced ::
  "multihash list \<Rightarrow> did \<Rightarrow> multihash list \<Rightarrow> time \<Rightarrow> MemStore \<Rightarrow> MemStore \<times> PendingRelease list" where
  "releaseReplaced keep space [] now m = (m, [])"
| "releaseReplaced keep space (d # ds) now m =
     (if d \<in> set keep then releaseReplaced keep space ds now m
      else
        let (m1, pr) = enqueueReleaseLocked space d now m;
            (m2, prs) = releaseReplaced (d # keep) space ds now m1
        in (m2, pr # prs))"

definition putTree :: "string \<Rightarrow> int \<Rightarrow> PartTree option \<Rightarrow> MemStore \<Rightarrow> MemStore" where
  "putTree uploadID n tree m =
     (case tree of
        None \<Rightarrow>
          (case gm_get (partTrees m) uploadID of
             None \<Rightarrow> m
           | Some trees \<Rightarrow> m\<lparr> partTrees := gm_put uploadID (gm_del n trees) (partTrees m) \<rparr>)
      | Some t \<Rightarrow>
          m\<lparr> partTrees := gm_put uploadID (gm_put n t (gm_inner (partTrees m) uploadID)) (partTrees m) \<rparr>)"

definition PutPart ::
  "MultipartPart \<Rightarrow> PartTree option \<Rightarrow> time \<Rightarrow> MemStore \<Rightarrow> MemStore \<times> (registry_error + PendingRelease list)" where
  "PutPart p tree now m =
     (case gm_get (sessions m) (mp_UploadID p) of
        None \<Rightarrow> (m, Inl RegErrNotFound)
      | Some sess \<Rightarrow>
          if ms_State sess \<noteq> Some SessionOpen then (m, Inl RegErrNotFound)
          else
            let p' = p\<lparr> mp_State := (case mp_State p of None \<Rightarrow> Some PartSpooled | st \<Rightarrow> st),
                        mp_CreatedAt := (if IsZero (mp_CreatedAt p) then now else mp_CreatedAt p) \<rparr>;
                byNum = gm_inner (parts m) (mp_UploadID p);
                (m1, released) =
                  (case gm_get byNum (mp_PartNumber p) of
                     None \<Rightarrow> (m, [])
                   | Some old \<Rightarrow> releaseReplaced (mp_BlobDigests p) (ms_Space sess) (mp_BlobDigests old) now m);
                m2 = m1\<lparr> parts := gm_put (mp_UploadID p) (gm_put (mp_PartNumber p) p' byNum) (parts m1) \<rparr>
            in (putTree (mp_UploadID p) (mp_PartNumber p) tree m2, Inr released))"

definition movePart :: "PartState \<Rightarrow> PartState \<Rightarrow> MultipartPart \<Rightarrow> MemStore \<times> nat \<Rightarrow> MemStore \<times> nat" where
  "movePart frm to want st =
     (let (m, moved) = st;
          byNum = gm_inner (parts m) (mp_UploadID want)
      in case gm_get byNum (mp_PartNumber want) of
           None \<Rightarrow> (m, moved)
         | Some p \<Rightarrow>
             if mp_State p \<noteq> Some frm \<or> mp_BlobDigests p \<noteq> mp_BlobDigests want then (m, moved)
             else
               (m\<lparr> parts := gm_put (mp_UploadID want)
                     (gm_put (mp_PartNumber want) (p\<lparr> mp_State := Some to \<rparr>) byNum) (parts m) \<rparr>,
                moved + 1))"

definition MoveParts :: "MultipartPart list \<Rightarrow> PartState \<Rightarrow> PartState \<Rightarrow> MemStore \<Rightarrow> MemStore \<times> nat" where
  "MoveParts wanted frm to m = fold (movePart frm to) wanted (m, 0)"

text \<open>The insertion sort over the part numbers.\<close>

definition ListParts :: "string \<Rightarrow> MemStore \<Rightarrow> MultipartPart list" where
  "ListParts uploadID m =
     (let byNum = gm_inner (parts m) uploadID;
          nums = sortBy (\<lambda>a b. a < b) (map fst (gm_items byNum))
      in map (\<lambda>n. the (gm_get byNum n)) nums)"

definition ListParkedParts :: "string \<Rightarrow> nat \<Rightarrow> MemStore \<Rightarrow> MultipartPart list" where
  "ListParkedParts uploadID limit m =
     take limit (filter (\<lambda>p. mp_State p = Some PartParked) (ListParts uploadID m))"

definition liveParts :: "MemStore \<Rightarrow> (string \<times> MultipartPart) list" where
  "liveParts m =
     concat (map (\<lambda>(uploadID, byNum).
       case gm_get (sessions m) uploadID of
         None \<Rightarrow> []
       | Some s \<Rightarrow> if \<not> in_flight s then [] else map (\<lambda>(_, p). (uploadID, p)) (gm_items byNum))
       (gm_items (parts m)))"

definition OldestParkedPart :: "MemStore \<Rightarrow> time \<times> bool" where
  "OldestParkedPart m =
     fold (\<lambda>(_, p) (oldest, found).
       if mp_State p = Some PartParked \<and> (\<not> found \<or> mp_CreatedAt p < oldest)
       then (mp_CreatedAt p, True) else (oldest, found)) (liveParts m) (0, False)"

definition ListUploadsWithParkedParts :: "MemStore \<Rightarrow> string list" where
  "ListUploadsWithParkedParts m =
     sort (map fst (filter (\<lambda>(uploadID, byNum).
       (case gm_get (sessions m) uploadID of None \<Rightarrow> False | Some s \<Rightarrow> in_flight s)
       \<and> list_ex (\<lambda>(_, p). mp_State p = Some PartParked) (gm_items byNum)) (gm_items (parts m))))"

definition ListPartTrees :: "string \<Rightarrow> MemStore \<Rightarrow> (int, PartTree) gomap" where
  "ListPartTrees uploadID m = gm_inner (partTrees m) uploadID"

definition DeletePartTrees :: "string \<Rightarrow> MemStore \<Rightarrow> MemStore" where
  "DeletePartTrees uploadID m = m\<lparr> partTrees := gm_del uploadID (partTrees m) \<rparr>"

definition CountPartRefs :: "multihash \<Rightarrow> string \<Rightarrow> MemStore \<Rightarrow> nat" where
  "CountPartRefs digest excludeUploadID m =
     sum_list (map (\<lambda>(uploadID, byNum).
       if uploadID = excludeUploadID then 0
       else gm_count (\<lambda>n p. digest \<in> set (mp_BlobDigests p)) byNum) (gm_items (parts m)))"

section \<open>The latch\<close>

definition sessionState :: "string \<Rightarrow> MemStore \<Rightarrow> SessionState option" where
  "sessionState uploadID m = (case gm_get (sessions m) uploadID of None \<Rightarrow> None | Some s \<Rightarrow> ms_State s)"

definition latch_cas :: "string \<Rightarrow> time \<Rightarrow> SessionState \<Rightarrow> SessionState \<Rightarrow> MemStore \<Rightarrow> MemStore \<times> bool" where
  "latch_cas uploadID now frm to m = LatchSession uploadID frm to now m"

interpretation session: cas_register "sessionState uploadID" "latch_cas uploadID" for uploadID
  by unfold_locales (auto simp: latch_cas_def LatchSession_def sessionState_def split: option.splits if_splits)

text \<open>C29. Of any number of callers that try to latch one upload out of the open state (a \<open>Complete\<close> and
  an \<open>Abort\<close> racing, in any order), at most one succeeds.\<close>

theorem LatchSession_single_winner:
  assumes "sessionState uploadID m = Some v" and "run_cas (latch_cas uploadID) xs m = (m', won)"
    and "\<forall>(now, frm, to) \<in> set xs. frm = SessionOpen \<and> to \<noteq> SessionOpen"
  shows "length won \<le> 1"
  by (rule session.single_winner [OF assms(1,2), of SessionOpen]) (use assms(3) in auto)

definition demo_session :: MultipartSession where
  "demo_session = \<lparr> ms_UploadID = ''u'', ms_Bucket = ''b'', ms_ObjectKey = ''k'', ms_Space = ''s'',
     ms_State = None, ms_ContentType = [], ms_ContentEncoding = [], ms_ContentDisposition = [],
     ms_ContentLanguage = [], ms_CacheControl = [], ms_Expires = [], ms_WebsiteRedirectLocation = [],
     ms_ChecksumAlgorithm = [], ms_ChecksumType = [], ms_LockMode = [], ms_LockRetainUntil = None,
     ms_LockLegalHold = [], ms_Tagging = [], ms_Metadata = gm_empty, ms_Plaintext = False,
     ms_CommittedETag = [], ms_CommittedVersionID = [], ms_CreatedAt = 0, ms_StateChangedAt = 0 \<rparr>"

definition demo_open :: MemStore where
  "demo_open = fst (CreateSession demo_session 5 NewMemStore)"

theorem LatchSession_single_winner_witness:
  "snd (run_cas (latch_cas ''u'') [(6, SessionOpen, SessionCompleting), (7, SessionOpen, SessionAborting)] demo_open)
     = [(SessionOpen, SessionCompleting)]
   \<and> length (snd (run_cas (latch_cas ''u'') [(6, SessionOpen, SessionCompleting), (7, SessionOpen, SessionAborting)] demo_open)) \<le> 1"
proof
  let ?xs = "[(6, SessionOpen, SessionCompleting), (7, SessionOpen, SessionAborting)]"
  show "snd (run_cas (latch_cas ''u'') ?xs demo_open) = [(SessionOpen, SessionCompleting)]"
    by (simp add: latch_cas_def LatchSession_def demo_open_def CreateSession_def demo_session_def NewMemStore_def IsZero_def)
  have "sessionState ''u'' demo_open = Some SessionOpen"
    by (simp add: sessionState_def demo_open_def CreateSession_def demo_session_def NewMemStore_def IsZero_def)
  from LatchSession_single_winner [OF this, of ?xs "fst (run_cas (latch_cas ''u'') ?xs demo_open)"
      "snd (run_cas (latch_cas ''u'') ?xs demo_open)"]
  show "length (snd (run_cas (latch_cas ''u'') ?xs demo_open)) \<le> 1" by (simp del: run_cas.simps)
qed

section \<open>Replacing a part\<close>

lemma enqueue_due: "due_by sp d t (fst (enqueueReleaseLocked sp d t m))"
  by (simp add: due_by_enqueue)

lemma enqueue_keeps_due: "due_by sp d t m \<Longrightarrow> due_by sp d t (fst (enqueueReleaseLocked sp' d' t' m))"
  by (simp add: due_by_enqueue)

lemma enqueue_digest: "pr_Digest (snd (enqueueReleaseLocked sp d t m)) = d"
  by (simp add: enqueueReleaseLocked_def Let_def)

lemma enqueue_sessions [simp]:
  "sessions (fst (enqueueReleaseLocked sp d t m)) = sessions m"
  "parts (fst (enqueueReleaseLocked sp d t m)) = parts m"
  "partTrees (fst (enqueueReleaseLocked sp d t m)) = partTrees m"
  by (simp_all add: enqueueReleaseLocked_def Let_def)

lemma releaseReplaced_spec:
  "releaseReplaced keep sp ds now m = (m', prs) \<Longrightarrow>
   set (map pr_Digest prs) = set ds - set keep \<and> distinct (map pr_Digest prs) \<and> set (map pr_Digest prs) \<inter> set keep = {}
   \<and> (\<forall>d t. due_by sp d t m \<longrightarrow> due_by sp d t m') \<and> (\<forall>d \<in> set ds - set keep. due_by sp d now m')
   \<and> parts m' = parts m"
proof (induction ds arbitrary: keep m m' prs)
  case (Cons d ds)
  show ?case
  proof (cases "d \<in> set keep")
    case True
    then show ?thesis using Cons by auto
  next
    case False
    obtain m1 pr where e: "enqueueReleaseLocked sp d now m = (m1, pr)" by fastforce
    obtain m2 rest where r: "releaseReplaced (d # keep) sp ds now m1 = (m2, rest)" by fastforce
    have m': "m' = m2" "prs = pr # rest" using Cons.prems False e r by auto
    note IH = Cons.IH [OF r]
    have "pr_Digest pr = d" "due_by sp d now m1" "parts m1 = parts m"
      using enqueue_digest [of sp d now m] enqueue_due [of sp d now m] enqueue_sessions(2) [of sp d now m] e by auto
    moreover have "due_by sp d' t m \<Longrightarrow> due_by sp d' t m1" for d' t
      using enqueue_keeps_due [of sp d' t m sp d now] e by simp
    ultimately show ?thesis using IH False m' by auto
  qed
qed auto

text \<open>C30. Recording a part over an earlier upload of the same number, in an open session: the part is
  stored, and exactly the digests the replaced row named and the new one does not are queued for
  release, once each, in the session's space and due no earlier than now.\<close>

theorem PutPart_replaces:
  assumes "gm_get (sessions m) (mp_UploadID p) = Some sess" and "ms_State sess = Some SessionOpen"
    and "gm_get (gm_inner (parts m) (mp_UploadID p)) (mp_PartNumber p) = Some old"
  shows "\<exists>m' rel p'. PutPart p tree now m = (m', Inr rel)
    \<and> gm_get (gm_inner (parts m') (mp_UploadID p)) (mp_PartNumber p) = Some p' \<and> mp_BlobDigests p' = mp_BlobDigests p
    \<and> distinct (map pr_Digest rel) \<and> set (map pr_Digest rel) = set (mp_BlobDigests old) - set (mp_BlobDigests p)
    \<and> (\<forall>d \<in> set (map pr_Digest rel). due_by (ms_Space sess) d now m')"
proof -
  obtain m1 rel where r: "releaseReplaced (mp_BlobDigests p) (ms_Space sess) (mp_BlobDigests old) now m = (m1, rel)"
    by fastforce
  note spec = releaseReplaced_spec [OF r]
  have pt: "parts (putTree u n t x) = parts x" "releases (putTree u n t x) = releases x" for u n t x
    by (auto simp: putTree_def split: option.split)
  have due: "\<forall>d \<in> set (map pr_Digest rel). due_by (ms_Space sess) d now m1" using spec by blast
  have rd: "due_by s d t (putTree u n tr (x\<lparr> parts := ps \<rparr>)) = due_by s d t x" for s d t u n tr x ps
    by (simp add: due_by_def pt)
  show ?thesis
    using assms r spec due by (simp add: PutPart_def Let_def pt rd) blast
qed

definition demo_part :: "multihash list \<Rightarrow> MultipartPart" where
  "demo_part ds = \<lparr> mp_UploadID = ''u'', mp_PartNumber = 1, mp_ETagMD5 = [], mp_Size = 1, mp_Checksum = [],
     mp_BlobDigests = ds, mp_SpanLengths = None, mp_State = None, mp_CreatedAt = 0 \<rparr>"

theorem PutPart_replaces_witness:
  "\<exists>m' rel. PutPart (demo_part [''d2'']) None 9 (fst (PutPart (demo_part [''d1'', ''d2'', ''d1'']) None 8 demo_open)) = (m', Inr rel)
     \<and> set (map pr_Digest rel) = {''d1''}"
proof -
  let ?m = "fst (PutPart (demo_part [''d1'', ''d2'', ''d1'']) None 8 demo_open)"
  have open_: "gm_get (sessions ?m) ''u'' = gm_get (sessions demo_open) ''u''"
    "\<exists>s. gm_get (sessions demo_open) ''u'' = Some s \<and> ms_State s = Some SessionOpen"
    by (simp_all add: PutPart_def demo_part_def demo_open_def CreateSession_def demo_session_def NewMemStore_def
        IsZero_def gm_inner_def putTree_def)
  moreover have "\<exists>old. gm_get (gm_inner (parts ?m) ''u'') 1 = Some old \<and> mp_BlobDigests old = [''d1'', ''d2'', ''d1'']"
    by (simp add: PutPart_def demo_part_def demo_open_def CreateSession_def demo_session_def NewMemStore_def
        IsZero_def gm_inner_def putTree_def)
  ultimately show ?thesis
    using PutPart_replaces [of ?m "demo_part [''d2'']" _ _ None 9] by (fastforce simp: demo_part_def)
qed

end
