(* ===== verification/Mem_Outbox.thy ===== *)
theory Mem_Outbox
  imports Mem_Registry "HOL-Library.Sublist"
begin

text \<open>
  The upload-registration outbox of the in-memory store (\<open>src/inmem/stores.go\<close>): rows in commit order,
  replayed key by key in that order, held back by a backoff and taken out when dead-lettered.
\<close>

text \<open>\<open>reg.Bucket + NUL + reg.ObjectKey\<close>.\<close>

definition reg_key :: "UploadRegistration \<Rightarrow> string" where
  "reg_key reg = reg_Bucket reg @ CHR 0x00 # reg_ObjectKey reg"

text \<open>The scan: \<open>blocked\<close> holds the keys with a row not yet due, \<open>room\<close> is how many more rows fit,
  \<open>None\<close> for a limit that is not positive.\<close>

fun dueScan :: "time \<Rightarrow> string list \<Rightarrow> nat option \<Rightarrow> UploadRegistration list \<Rightarrow> UploadRegistration list" where
  "dueScan now blocked room [] = []"
| "dueScan now blocked room (reg # regs) =
     (if DeadLettered reg then dueScan now blocked room regs
      else if reg_key reg \<in> set blocked \<or> reg_NextAt reg > now
      then dueScan now (reg_key reg # blocked) room regs
      else
        reg # (case room of
                 None \<Rightarrow> dueScan now blocked None regs
               | Some n \<Rightarrow> if n \<le> 1 then [] else dueScan now blocked (Some (n - 1)) regs))"

definition limitOf :: "int \<Rightarrow> nat option" where
  "limitOf limit = (if limit > 0 then Some (nat limit) else None)"

definition ListDueUploadRegistrations :: "time \<Rightarrow> int \<Rightarrow> MemStore \<Rightarrow> UploadRegistration list" where
  "ListDueUploadRegistrations now limit m = dueScan now [] (limitOf limit) (uploadRegs m)"

definition ListUploadRegistrationsBySpace :: "did \<Rightarrow> MemStore \<Rightarrow> UploadRegistration list" where
  "ListUploadRegistrationsBySpace space m = filter (\<lambda>reg. reg_Space reg = space) (uploadRegs m)"

fun refreshFirst :: "int \<Rightarrow> bytes \<Rightarrow> UploadRegistration list \<Rightarrow> UploadRegistration list" where
  "refreshFirst seq proofs [] = []"
| "refreshFirst seq proofs (reg # regs) =
     (if reg_Seq reg = seq then reg\<lparr> reg_Proofs := proofs \<rparr> # regs
      else reg # refreshFirst seq proofs regs)"

definition RefreshUploadRegistrationProofs :: "int \<Rightarrow> bytes \<Rightarrow> MemStore \<Rightarrow> MemStore" where
  "RefreshUploadRegistrationProofs seq proofs m = m\<lparr> uploadRegs := refreshFirst seq proofs (uploadRegs m) \<rparr>"

definition DeadLetterUploadRegistrations :: "int list \<Rightarrow> string \<Rightarrow> time \<Rightarrow> MemStore \<Rightarrow> MemStore" where
  "DeadLetterUploadRegistrations seqs reason now m =
     (if seqs = [] then m
      else m\<lparr> uploadRegs := map (\<lambda>reg.
          if reg_Seq reg \<in> set seqs \<and> reg_DeadLetteredAt reg = None
          then reg\<lparr> reg_DeadLetteredAt := Some now, reg_DeadLetterReason := reason \<rparr>
          else reg) (uploadRegs m) \<rparr>)"

definition ListDeadLetteredUploadRegistrations :: "int \<Rightarrow> MemStore \<Rightarrow> UploadRegistration list" where
  "ListDeadLetteredUploadRegistrations limit m =
     (let out = filter DeadLettered (uploadRegs m)
      in if limit > 0 then take (nat limit) out else out)"

definition DeleteUploadRegistrations :: "int list \<Rightarrow> MemStore \<Rightarrow> MemStore" where
  "DeleteUploadRegistrations seqs m =
     (if seqs = [] then m
      else m\<lparr> uploadRegs := filter (\<lambda>reg. reg_Seq reg \<notin> set seqs) (uploadRegs m) \<rparr>)"

definition RescheduleUploadRegistrations :: "int list \<Rightarrow> time \<Rightarrow> MemStore \<Rightarrow> MemStore" where
  "RescheduleUploadRegistrations seqs nextAt m =
     (if seqs = [] then m
      else m\<lparr> uploadRegs := map (\<lambda>reg.
          if reg_Seq reg \<in> set seqs
          then reg\<lparr> reg_Attempts := reg_Attempts reg + 1, reg_NextAt := nextAt \<rparr>
          else reg) (uploadRegs m) \<rparr>)"

section \<open>Per-key order\<close>

text \<open>The rows of one key still in the sweep, in commit order, and the run of them that is due.\<close>

definition live_rows :: "string \<Rightarrow> UploadRegistration list \<Rightarrow> UploadRegistration list" where
  "live_rows k regs = filter (\<lambda>r. reg_key r = k \<and> \<not> DeadLettered r) regs"

definition due_run :: "time \<Rightarrow> string \<Rightarrow> UploadRegistration list \<Rightarrow> UploadRegistration list" where
  "due_run now k regs = takeWhile (\<lambda>r. \<not> reg_NextAt r > now) (live_rows k regs)"

lemma dueScan_due: "r \<in> set (dueScan now blocked room regs) \<Longrightarrow> \<not> reg_NextAt r > now \<and> \<not> DeadLettered r"
  by (induction now blocked room regs rule: dueScan.induct) (auto split: if_splits option.splits)

lemma dueScan_length: "length (dueScan now blocked (Some (Suc n)) regs) \<le> Suc n"
proof (induction regs arbitrary: blocked n)
  case (Cons reg regs)
  then show ?case by (cases n) auto
qed simp

lemma dueScan_prefix:
  "prefix (filter (\<lambda>r. reg_key r = k) (dueScan now blocked room regs))
     (if k \<in> set blocked then [] else due_run now k regs)"
proof (induction now blocked room regs rule: dueScan.induct)
  case (2 now blocked room reg regs)
  then show ?case
    by (auto simp: due_run_def live_rows_def split: option.split if_splits)
qed simp

lemma dueScan_unlimited:
  "filter (\<lambda>r. reg_key r = k) (dueScan now blocked None regs) =
     (if k \<in> set blocked then [] else due_run now k regs)"
  by (induction regs arbitrary: blocked) (auto simp: due_run_def live_rows_def)

text \<open>C31. The outbox is replayed per key in commit order: of each key the sweep gets an initial run of
  its live rows, every one of them due, never a row behind one that waits out a backoff; with no limit
  it gets the whole due run, and with a limit at most that many rows.\<close>

theorem ListDueUploadRegistrations_in_order:
  "prefix (filter (\<lambda>r. reg_key r = k) (ListDueUploadRegistrations now limit m)) (due_run now k (uploadRegs m))
   \<and> prefix (due_run now k (uploadRegs m)) (live_rows k (uploadRegs m))
   \<and> list_all (\<lambda>r. \<not> reg_NextAt r > now \<and> \<not> DeadLettered r) (ListDueUploadRegistrations now limit m)
   \<and> (if limit > 0 then length (ListDueUploadRegistrations now limit m) \<le> nat limit
      else filter (\<lambda>r. reg_key r = k) (ListDueUploadRegistrations now limit m) = due_run now k (uploadRegs m))"
proof (intro conjI)
  show "prefix (filter (\<lambda>r. reg_key r = k) (ListDueUploadRegistrations now limit m)) (due_run now k (uploadRegs m))"
    using dueScan_prefix [of k now "[]"] by (simp add: ListDueUploadRegistrations_def)
  show "prefix (due_run now k (uploadRegs m)) (live_rows k (uploadRegs m))"
    by (simp add: due_run_def takeWhile_is_prefix)
  show "list_all (\<lambda>r. \<not> reg_NextAt r > now \<and> \<not> DeadLettered r) (ListDueUploadRegistrations now limit m)"
    using dueScan_due by (auto simp: ListDueUploadRegistrations_def list_all_iff)
  show "if limit > 0 then length (ListDueUploadRegistrations now limit m) \<le> nat limit
      else filter (\<lambda>r. reg_key r = k) (ListDueUploadRegistrations now limit m) = due_run now k (uploadRegs m)"
    using dueScan_length [of now "[]" "nat limit - 1" "uploadRegs m"] dueScan_unlimited [of k now "[]"]
    by (cases "nat limit") (auto simp: ListDueUploadRegistrations_def limitOf_def)
qed

end
