(* ===== verification/Mem_Reach.thy ===== *)
theory Mem_Reach
  imports Mem_Multipart Mem_Outbox Mem_Segments
begin

text \<open>
  Every state-changing method of the in-memory store as a command, the states a sequence of calls can
  reach, and the invariants that hold in all of them: a blob whose release has started is claimed by
  no version, only blobs with an intent are marked evicted, the outbox is numbered in commit order,
  and parts exist only under a session.
\<close>

datatype bucket_op =
    OpCreate string did CreateState time
  | OpDelete string
  | OpEmptyRoot string cid
  | OpCommitRoot string cid cid RootCommit time
  | OpSetForgeRoot string cid
  | OpSetVersioning string VersioningState
  | OpSetObjectLockConfig string "bytes option"
  | OpSetEncryption string BucketEncryption
  | OpSetBucketTagging string "bytes option"
  | OpSetCORSConfig string "bytes option"
  | OpAllocVersionSeq string

datatype segment_op =
    OpNextSegmentSeq
  | OpEnsureSegmentSeqAbove seqno
  | OpMoveJournal string seqno seqno cid cid
  | OpInsertSegmentOpen Plane seqno string
  | OpMarkSegmentSealed Plane seqno int int bytes "OpRoot list"
  | OpMarkSegmentShipped Plane seqno int "multihash option" int "OpRoot list"
  | OpDeleteSegment Plane seqno
  | OpRetireSegment Plane seqno int
  | OpRehydrateSegment SegmentMeta

datatype release_op =
    OpEnqueueRelease did multihash time
  | OpEnqueueReleases did "multihash list" time
  | OpDeleteRelease did multihash
  | OpStartRelease did multihash time
  | OpCancelRelease did multihash
  | OpDeleteIntentAndRelease did multihash

datatype intent_op =
    OpPutIntent UploadIntent time
  | OpSetIntentState did multihash IntentState time
  | OpDeleteIntent did multihash
  | OpMarkEvicted multihash time
  | OpDeleteReleasedPublished did multihash

datatype blob_op =
    OpPutLocation BlobLocation
  | OpDeleteLocation did multihash
  | OpPutEncryptionParams BlobEncryptionParams
  | OpDeleteEncryptionParams did multihash
  | OpRewrapEncryptionParams did multihash bytes string
  | OpPutPark BlobPark
  | OpDeletePark did multihash
  | OpConcludePark BlobLocation bytes
  | OpPutInclusions "BlobInclusion list"
  | OpPutStream BlobStream time
  | OpTouchStreams "bytes list" time
  | OpDeleteStream bytes
  | OpAddGCCandidate bytes
  | OpPutRevocationCursor RevocationCursor

datatype multipart_op =
    OpCreateSession MultipartSession time
  | OpLatchSession string SessionState SessionState time
  | OpCompleteSession string string string time
  | OpDeleteSession string
  | OpPutPart MultipartPart "PartTree option" time
  | OpMoveParts "MultipartPart list" PartState PartState
  | OpDeletePartTrees string

datatype outbox_op =
    OpRefreshProofs int bytes
  | OpDeadLetter "int list" string time
  | OpDeleteRegs "int list"
  | OpReschedule "int list" time

datatype mem_op =
    BucketOp bucket_op
  | SegmentOp segment_op
  | ReleaseOp release_op
  | IntentOp intent_op
  | BlobOp blob_op
  | MultipartOp multipart_op
  | OutboxOp outbox_op

fun apply_bucket_op :: "bucket_op \<Rightarrow> MemStore \<Rightarrow> MemStore" where
  "apply_bucket_op (OpCreate n sp i t) m = fst (Create n sp i t m)"
| "apply_bucket_op (OpDelete n) m = fst (mem_Delete n m)"
| "apply_bucket_op (OpEmptyRoot n e) m = fst (EmptyRoot n e m)"
| "apply_bucket_op (OpCommitRoot n e x c t) m = fst (CommitRoot n e x c t m)"
| "apply_bucket_op (OpSetForgeRoot n r) m = fst (SetForgeRoot n r m)"
| "apply_bucket_op (OpSetVersioning n v) m = fst (SetVersioning n v m)"
| "apply_bucket_op (OpSetObjectLockConfig n c) m = fst (SetObjectLockConfig n c m)"
| "apply_bucket_op (OpSetEncryption n e) m = fst (SetEncryption n e m)"
| "apply_bucket_op (OpSetBucketTagging n c) m = fst (SetBucketTagging n c m)"
| "apply_bucket_op (OpSetCORSConfig n c) m = fst (SetCORSConfig n c m)"
| "apply_bucket_op (OpAllocVersionSeq n) m = fst (AllocVersionSeq n m)"

fun apply_segment_op :: "segment_op \<Rightarrow> MemStore \<Rightarrow> MemStore" where
  "apply_segment_op OpNextSegmentSeq m = fst (NextSegmentSeq m)"
| "apply_segment_op (OpEnsureSegmentSeqAbove s) m = EnsureSegmentSeqAbove s m"
| "apply_segment_op (OpMoveJournal b f t lo hi) m = fst (MoveJournal b f t lo hi m)"
| "apply_segment_op (OpInsertSegmentOpen p s b) m = InsertSegmentOpen p s b m"
| "apply_segment_op (OpMarkSegmentSealed p s t z h rs) m = MarkSegmentSealed p s t z h rs m"
| "apply_segment_op (OpMarkSegmentShipped p s t i d rs) m = MarkSegmentShipped p s t i d rs m"
| "apply_segment_op (OpDeleteSegment p s) m = DeleteSegment p s m"
| "apply_segment_op (OpRetireSegment p s t) m = RetireSegment p s t m"
| "apply_segment_op (OpRehydrateSegment sm) m = RehydrateSegment sm m"

fun apply_release_op :: "release_op \<Rightarrow> MemStore \<Rightarrow> MemStore" where
  "apply_release_op (OpEnqueueRelease sp d t) m = EnqueueRelease sp d t m"
| "apply_release_op (OpEnqueueReleases sp ds t) m = fst (EnqueueReleases sp ds t m)"
| "apply_release_op (OpDeleteRelease sp d) m = DeleteRelease sp d m"
| "apply_release_op (OpStartRelease sp d t) m = fst (StartRelease sp d t m)"
| "apply_release_op (OpCancelRelease sp d) m = fst (CancelRelease sp d m)"
| "apply_release_op (OpDeleteIntentAndRelease sp d) m = fst (DeleteIntentAndRelease sp d m)"

fun apply_intent_op :: "intent_op \<Rightarrow> MemStore \<Rightarrow> MemStore" where
  "apply_intent_op (OpPutIntent i t) m = PutIntent i t m"
| "apply_intent_op (OpSetIntentState sp d st t) m = fst (SetIntentState sp d st t m)"
| "apply_intent_op (OpDeleteIntent sp d) m = DeleteIntent sp d m"
| "apply_intent_op (OpMarkEvicted d t) m = fst (MarkEvicted d t m)"
| "apply_intent_op (OpDeleteReleasedPublished sp d) m = fst (DeleteReleasedPublished sp d m)"

fun apply_blob_op :: "blob_op \<Rightarrow> MemStore \<Rightarrow> MemStore" where
  "apply_blob_op (OpPutLocation l) m = PutLocation l m"
| "apply_blob_op (OpDeleteLocation sp d) m = DeleteLocation sp d m"
| "apply_blob_op (OpPutEncryptionParams p) m = PutEncryptionParams p m"
| "apply_blob_op (OpDeleteEncryptionParams sp d) m = DeleteEncryptionParams sp d m"
| "apply_blob_op (OpRewrapEncryptionParams sp d w v) m = fst (RewrapEncryptionParams sp d w v m)"
| "apply_blob_op (OpPutPark p) m = fst (PutPark p m)"
| "apply_blob_op (OpDeletePark sp d) m = DeletePark sp d m"
| "apply_blob_op (OpConcludePark l a) m = fst (ConcludePark l a m)"
| "apply_blob_op (OpPutInclusions is) m = PutInclusions is m"
| "apply_blob_op (OpPutStream s t) m = PutStream s t m"
| "apply_blob_op (OpTouchStreams ts t) m = TouchStreams ts t m"
| "apply_blob_op (OpDeleteStream t) m = DeleteStream t m"
| "apply_blob_op (OpAddGCCandidate c) m = AddGCCandidate c m"
| "apply_blob_op (OpPutRevocationCursor c) m = PutRevocationCursor c m"

fun apply_multipart_op :: "multipart_op \<Rightarrow> MemStore \<Rightarrow> MemStore" where
  "apply_multipart_op (OpCreateSession s t) m = fst (CreateSession s t m)"
| "apply_multipart_op (OpLatchSession u f t now) m = fst (LatchSession u f t now m)"
| "apply_multipart_op (OpCompleteSession u e v now) m = fst (CompleteSession u e v now m)"
| "apply_multipart_op (OpDeleteSession u) m = DeleteSession u m"
| "apply_multipart_op (OpPutPart p tr now) m = fst (PutPart p tr now m)"
| "apply_multipart_op (OpMoveParts ps f t) m = fst (MoveParts ps f t m)"
| "apply_multipart_op (OpDeletePartTrees u) m = DeletePartTrees u m"

fun apply_outbox_op :: "outbox_op \<Rightarrow> MemStore \<Rightarrow> MemStore" where
  "apply_outbox_op (OpRefreshProofs s p) m = RefreshUploadRegistrationProofs s p m"
| "apply_outbox_op (OpDeadLetter ss r t) m = DeadLetterUploadRegistrations ss r t m"
| "apply_outbox_op (OpDeleteRegs ss) m = DeleteUploadRegistrations ss m"
| "apply_outbox_op (OpReschedule ss t) m = RescheduleUploadRegistrations ss t m"

fun apply_op :: "mem_op \<Rightarrow> MemStore \<Rightarrow> MemStore" where
  "apply_op (BucketOp p) m = apply_bucket_op p m"
| "apply_op (SegmentOp p) m = apply_segment_op p m"
| "apply_op (ReleaseOp p) m = apply_release_op p m"
| "apply_op (IntentOp p) m = apply_intent_op p m"
| "apply_op (BlobOp p) m = apply_blob_op p m"
| "apply_op (MultipartOp p) m = apply_multipart_op p m"
| "apply_op (OutboxOp p) m = apply_outbox_op p m"

text \<open>Which calls the program makes: a commit's rows name their bucket's space (\<open>f\<close>).\<close>

definition op_ok :: "(string \<Rightarrow> did) \<Rightarrow> mem_op \<Rightarrow> bool" where
  "op_ok f p \<longleftrightarrow> (case p of BucketOp (OpCommitRoot _ _ _ c _) \<Rightarrow> commit_ok f c | _ \<Rightarrow> True)"

inductive reachable :: "(string \<Rightarrow> did) \<Rightarrow> MemStore \<Rightarrow> bool" for f where
  reach_init: "reachable f NewMemStore"
| reach_step: "reachable f m \<Longrightarrow> op_ok f p \<Longrightarrow> reachable f (apply_op p m)"

section \<open>Frames\<close>

text \<open>The part of the state the invariants read.\<close>

definition core where
  "core m = (blobRefs m, releases m, intents m, evicted m, uploadRegs m, uploadRegSeq m, sessions m, parts m)"

lemma core_eqD:
  assumes "core m' = core m"
  shows "blobRefs m' = blobRefs m" "releases m' = releases m" "intents m' = intents m" "evicted m' = evicted m"
    "uploadRegs m' = uploadRegs m" "uploadRegSeq m' = uploadRegSeq m" "sessions m' = sessions m" "parts m' = parts m"
  using assms by (auto simp: core_def)

lemma updBucket_core: "core (fst (updBucket n g m)) = core m"
  by (simp add: updBucket_def core_def split: option.split)

lemma advanceForgeRoot_core: "core (fold advanceForgeRoot oprs m) = core m"
  by (rule fold_frame) (simp add: advanceForgeRoot_def core_def split: option.split)

lemma PutInclusions_core: "core (PutInclusions is m) = core m"
  unfolding PutInclusions_def by (rule fold_frame) (simp add: core_def)

lemma TouchStreams_core: "core (TouchStreams ts t m) = core m"
  unfolding TouchStreams_def by (rule fold_frame) (simp add: core_def split: option.split)

lemma MarkSegmentShipped_core: "core (MarkSegmentShipped p s t i d o' m) = core m"
  by (simp add: MarkSegmentShipped_def Let_def advanceForgeRoot_core) (simp add: core_def split: option.split)

lemma apply_blob_op_core: "core (apply_blob_op p m) = core m"
  by (cases p)
    (simp_all add: PutInclusions_core TouchStreams_core,
     simp_all add: core_def PutLocation_def DeleteLocation_def PutEncryptionParams_def
      DeleteEncryptionParams_def RewrapEncryptionParams_def PutPark_def DeletePark_def ConcludePark_def
      PutStream_def DeleteStream_def AddGCCandidate_def PutRevocationCursor_def Let_def split: option.split)

lemma apply_segment_op_core: "core (apply_segment_op p m) = core m"
  by (cases p)
    (simp_all add: MarkSegmentShipped_core,
     simp_all add: core_def NextSegmentSeq_def EnsureSegmentSeqAbove_def MoveJournal_def InsertSegmentOpen_def
      MarkSegmentSealed_def DeleteSegment_def RetireSegment_def RehydrateSegment_def Let_def split: option.split)

end
