(* ===== verification/Mem_Inv.thy ===== *)
theory Mem_Inv
  imports Mem_Reach
begin

text \<open>
  The invariants of the in-memory store: each holds in the empty store and is kept by every operation,
  so it holds in every reachable state, whatever calls the program makes in whatever order.
\<close>

section \<open>Invariants\<close>

definition evicted_ok :: "MemStore \<Rightarrow> bool" where
  "evicted_ok m \<longleftrightarrow> (\<forall>k. gm_get (evicted m) k \<noteq> None \<longrightarrow> gm_get (intents m) k \<noteq> None)"

definition outbox_ok :: "MemStore \<Rightarrow> bool" where
  "outbox_ok m \<longleftrightarrow> sorted_wrt (<) (map reg_Seq (uploadRegs m)) \<and> (\<forall>r \<in> set (uploadRegs m). reg_Seq r \<le> uploadRegSeq m)"

definition parts_fk :: "MemStore \<Rightarrow> bool" where
  "parts_fk m \<longleftrightarrow> (\<forall>u. gm_get (parts m) u \<noteq> None \<longrightarrow> gm_get (sessions m) u \<noteq> None)"

definition mem_inv :: "(string \<Rightarrow> did) \<Rightarrow> MemStore \<Rightarrow> bool" where
  "mem_inv f m \<longleftrightarrow> rows_ok f m \<and> release_safe m \<and> evicted_ok m \<and> outbox_ok m \<and> parts_fk m"

lemmas mem_inv_defs = mem_inv_def evicted_ok_def outbox_ok_def parts_fk_def

lemma inv_updates [simp]:
  "rows_ok f (m\<lparr> uploadRegs := a \<rparr>) = rows_ok f m" "rows_ok f (m\<lparr> releases := b \<rparr>) = rows_ok f m"
  "rows_ok f (m\<lparr> intents := c \<rparr>) = rows_ok f m" "rows_ok f (m\<lparr> evicted := d \<rparr>) = rows_ok f m"
  "rows_ok f (m\<lparr> sessions := e \<rparr>) = rows_ok f m" "rows_ok f (m\<lparr> parts := g \<rparr>) = rows_ok f m"
  "release_safe (m\<lparr> uploadRegs := a \<rparr>) = release_safe m" "release_safe (m\<lparr> intents := c \<rparr>) = release_safe m"
  "release_safe (m\<lparr> evicted := d \<rparr>) = release_safe m" "release_safe (m\<lparr> sessions := e \<rparr>) = release_safe m"
  "release_safe (m\<lparr> parts := g \<rparr>) = release_safe m"
  "evicted_ok (m\<lparr> uploadRegs := a \<rparr>) = evicted_ok m" "evicted_ok (m\<lparr> releases := b \<rparr>) = evicted_ok m"
  "evicted_ok (m\<lparr> sessions := e \<rparr>) = evicted_ok m" "evicted_ok (m\<lparr> parts := g \<rparr>) = evicted_ok m"
  "outbox_ok (m\<lparr> releases := b \<rparr>) = outbox_ok m" "outbox_ok (m\<lparr> intents := c \<rparr>) = outbox_ok m"
  "outbox_ok (m\<lparr> evicted := d \<rparr>) = outbox_ok m" "outbox_ok (m\<lparr> sessions := e \<rparr>) = outbox_ok m"
  "outbox_ok (m\<lparr> parts := g \<rparr>) = outbox_ok m"
  "parts_fk (m\<lparr> uploadRegs := a \<rparr>) = parts_fk m" "parts_fk (m\<lparr> releases := b \<rparr>) = parts_fk m"
  "parts_fk (m\<lparr> intents := c \<rparr>) = parts_fk m" "parts_fk (m\<lparr> evicted := d \<rparr>) = parts_fk m"
  by (simp_all add: rows_ok_def release_safe_def started_def claimed_def evicted_ok_def outbox_ok_def parts_fk_def)

lemma mem_inv_core: "core m' = core m \<Longrightarrow> mem_inv f m' = mem_inv f m"
  by (simp add: mem_inv_defs rows_ok_def release_safe_def started_def claimed_def core_def)

lemma mem_inv_init: "mem_inv f NewMemStore"
  by (simp add: mem_inv_defs rows_ok_def release_safe_def started_def NewMemStore_def)

subsection \<open>Commits\<close>

lemma intents_dom_add: "gm_get (intents (addClaimLocked p now c m)) k \<noteq> None \<longleftrightarrow> gm_get (intents m) k \<noteq> None"
  by (auto simp: addClaimLocked_def Let_def split: option.splits)

lemma commitRows_frame:
  "evicted (commitRows n s x c now m) = evicted m" "sessions (commitRows n s x c now m) = sessions m"
  "parts (commitRows n s x c now m) = parts m"
proof -
  have fr: "sessions (dropClaimLocked t d m) = sessions m" "parts (dropClaimLocked t d m) = parts m"
    "sessions (addClaimLocked p now cl m) = sessions m" "parts (addClaimLocked p now cl m) = parts m"
    "sessions (addRegistration now r m) = sessions m" "parts (addRegistration now r m) = parts m"
    "sessions (journalLocked b j now m) = sessions m" "parts (journalLocked b j now m) = parts m" for t d p cl r b j m
    by (auto simp: dropClaimLocked_def addClaimLocked_def addRegistration_def journalLocked_def Let_def split: option.split)
  show "evicted (commitRows n s x c now m) = evicted m" "sessions (commitRows n s x c now m) = sessions m"
    "parts (commitRows n s x c now m) = parts m"
    by (simp_all add: commitRows_def fr fold_frame [where f = evicted] fold_frame [where f = sessions] fold_frame [where f = parts])
qed

lemma commitRows_intents_dom:
  "gm_get (intents (commitRows n s x c now m)) k \<noteq> None \<longleftrightarrow> gm_get (intents m) k \<noteq> None"
proof -
  have add: "gm_get (intents (fold (addClaimLocked p now) cs m')) k \<noteq> None \<longleftrightarrow> gm_get (intents m') k \<noteq> None" for p cs m'
    using intents_dom_add by (rule fold_frame [where f = "\<lambda>m. gm_get (intents m) k \<noteq> None"])
  show ?thesis
    unfolding commitRows_def
    by (simp only: fold_frame [where f = intents and g = "dropClaimLocked _"] dropClaim_frame add)
      (simp add: fold_frame [where f = intents])
qed

lemma outbox_ok_add: "outbox_ok m \<Longrightarrow> outbox_ok (addRegistration now r m)"
  by (auto simp: outbox_ok_def addRegistration_def Let_def sorted_wrt_append)

lemma outbox_ok_commitRows: "outbox_ok m \<Longrightarrow> outbox_ok (commitRows n s x c now m)"
proof -
  assume m: "outbox_ok m"
  have "outbox_ok (fold (addRegistration now) (rcm_Registrations c)
      (journalLocked n (rcm_Journal c) now (m\<lparr> buckets := gm_put n (s\<lparr> st_Root := x \<rparr>) (buckets m) \<rparr>)))"
    by (rule fold_invariant [where P = outbox_ok]) (use m outbox_ok_add in \<open>auto simp: outbox_ok_def\<close>)
  then show ?thesis
    by (simp add: outbox_ok_def commitRows_def fold_frame [where f = uploadRegs] fold_frame [where f = uploadRegSeq])
qed

lemma CommitRoot_cases:
  obtains (failed) "fst (CommitRoot name e n c now m) = m"
    | (committed) s where "fst (CommitRoot name e n c now m) = commitRows name s n c now m"
proof -
  have "fst (CommitRoot name e n c now m) = m \<or> (\<exists>s. fst (CommitRoot name e n c now m) = commitRows name s n c now m)"
    by (auto simp: CommitRoot_def split: option.split)
  then show thesis using that by blast
qed

lemma mem_inv_CommitRoot:
  assumes "mem_inv f m" and "commit_ok f c"
  shows "mem_inv f (fst (CommitRoot n e x c now m))"
proof -
  have "rows_ok f (fst (CommitRoot n e x c now m))" "release_safe (fst (CommitRoot n e x c now m))"
    using assms rows_ok_CommitRoot release_safe_CommitRoot rows_ok_pins by (auto simp: mem_inv_def)
  moreover have "evicted_ok (fst (CommitRoot n e x c now m)) \<and> outbox_ok (fst (CommitRoot n e x c now m))
      \<and> parts_fk (fst (CommitRoot n e x c now m))"
  proof (cases rule: CommitRoot_cases [of n e x c now m])
    case failed
    then show ?thesis using assms(1) by (simp add: mem_inv_def)
  next
    case (committed s)
    have "evicted_ok (commitRows n s x c now m) = evicted_ok m" "parts_fk (commitRows n s x c now m) = parts_fk m"
      by (simp_all only: evicted_ok_def parts_fk_def commitRows_frame commitRows_intents_dom)
    with committed show ?thesis using assms(1) outbox_ok_commitRows by (simp add: mem_inv_def)
  qed
  ultimately show ?thesis by (simp add: mem_inv_def)
qed

lemma outbox_ok_filter: "outbox_ok m \<Longrightarrow> outbox_ok (m\<lparr> uploadRegs := filter P (uploadRegs m) \<rparr>)"
  by (auto simp: outbox_ok_def sorted_wrt_map intro: sorted_wrt_filter)

lemma outbox_ok_map:
  "outbox_ok m \<Longrightarrow> map reg_Seq rs = map reg_Seq (uploadRegs m) \<Longrightarrow> outbox_ok (m\<lparr> uploadRegs := rs \<rparr>)"
proof -
  assume m: "outbox_ok m" and rs: "map reg_Seq rs = map reg_Seq (uploadRegs m)"
  then have "reg_Seq ` set rs = reg_Seq ` set (uploadRegs m)" by (metis set_map)
  with m rs show ?thesis by (auto simp: outbox_ok_def) (metis (no_types, lifting) image_iff)
qed

lemma mem_inv_regs:
  "mem_inv f m \<Longrightarrow> outbox_ok (m\<lparr> uploadRegs := rs \<rparr>) \<Longrightarrow> mem_inv f (m\<lparr> uploadRegs := rs \<rparr>)"
  by (simp add: mem_inv_def)

lemma mem_inv_outbox: "mem_inv f m \<Longrightarrow> outbox_ok m"
  by (simp add: mem_inv_def)

lemma mem_inv_Delete: "mem_inv f m \<Longrightarrow> mem_inv f (fst (mem_Delete n m))"
proof -
  assume m: "mem_inv f m"
  let ?m = "m\<lparr> uploadRegs := filter (\<lambda>reg. reg_Bucket reg \<noteq> n) (uploadRegs m) \<rparr>"
  have "mem_inv f ?m" by (rule mem_inv_regs [OF m outbox_ok_filter [OF mem_inv_outbox [OF m]]])
  moreover have "core (fst (mem_Delete n m)) = core ?m" if "gm_get (buckets m) n \<noteq> None"
    using that by (auto simp: mem_Delete_def core_def dropJournalLocked_def)
  ultimately show ?thesis
    using m mem_inv_core [of "fst (mem_Delete n m)" ?m f]
    by (cases "gm_get (buckets m) n = None") (simp_all add: mem_Delete_def)
qed

lemma apply_bucket_op_core:
  "(\<forall>n. p \<noteq> OpDelete n) \<Longrightarrow> (\<forall>n e x c t. p \<noteq> OpCommitRoot n e x c t) \<Longrightarrow> core (apply_bucket_op p m) = core m"
  by (cases p)
    (simp_all add: SetForgeRoot_def SetVersioning_def SetObjectLockConfig_def SetEncryption_def
      SetBucketTagging_def SetCORSConfig_def updBucket_core,
     simp_all add: core_def Create_def EmptyRoot_def AllocVersionSeq_def Let_def dropJournalLocked_def split: option.split)

lemma mem_inv_bucket_op:
  assumes "mem_inv f m" and "op_ok f (BucketOp p)"
  shows "mem_inv f (apply_bucket_op p m)"
proof -
  consider n where "p = OpDelete n" | n e x c t where "p = OpCommitRoot n e x c t" | "core (apply_bucket_op p m) = core m"
    using apply_bucket_op_core by blast
  then show ?thesis
  proof cases
    case 1
    then show ?thesis using assms(1) mem_inv_Delete by simp
  next
    case (2 n e x c t)
    then show ?thesis using assms mem_inv_CommitRoot by (simp add: op_ok_def)
  next
    case 3
    then show ?thesis using assms(1) mem_inv_core by blast
  qed
qed

subsection \<open>Releases and intents\<close>

lemma mem_inv_releases:
  "mem_inv f m \<Longrightarrow> release_safe (m\<lparr> releases := rs \<rparr>) \<Longrightarrow> mem_inv f (m\<lparr> releases := rs \<rparr>)"
  by (simp add: mem_inv_def)

lemma mem_inv_enqueue: "mem_inv f m \<Longrightarrow> mem_inv f (fst (enqueueReleaseLocked sp d t m))"
  using release_safe_enqueue [of m sp d t] mem_inv_releases
  by (simp add: enqueueReleaseLocked_def Let_def mem_inv_def [of f m])

lemma mem_inv_del_release: "mem_inv f m \<Longrightarrow> mem_inv f (m\<lparr> releases := gm_del k (releases m) \<rparr>)"
  using release_safe_del mem_inv_releases by (simp add: mem_inv_def [of f m])

lemma mem_inv_enqueueAll: "mem_inv f m \<Longrightarrow> mem_inv f (fst (enqueueAll seen sp ds t m))"
proof (induction ds arbitrary: seen m)
  case (Cons d ds)
  obtain m1 pr where e: "enqueueReleaseLocked sp d t m = (m1, pr)" by fastforce
  then have "mem_inv f m1" using mem_inv_enqueue [OF Cons.prems, of sp d t] by simp
  then have "mem_inv f (fst (enqueueAll (d # seen) sp ds t m1))" by (rule Cons.IH)
  then show ?case using Cons e by (auto simp: Let_def split: prod.splits)
qed simp

lemma mem_inv_StartRelease: "mem_inv f m \<Longrightarrow> mem_inv f (fst (StartRelease sp d now m))"
  using release_safe_StartRelease [of m sp d now] mem_inv_releases mem_inv_del_release
  by (auto simp: StartRelease_def Let_def mem_inv_def [of f m] split: option.splits if_splits)

lemma mem_inv_deleteIntent: "mem_inv f m \<Longrightarrow> mem_inv f (deleteIntentLocked k m)"
  by (simp add: mem_inv_def deleteIntentLocked_def) (simp add: evicted_ok_def)

lemma mem_inv_release_op: "mem_inv f m \<Longrightarrow> mem_inv f (apply_release_op p m)"
  using mem_inv_enqueue mem_inv_enqueueAll mem_inv_StartRelease mem_inv_del_release mem_inv_deleteIntent
  by (cases p) (auto simp: EnqueueRelease_def EnqueueReleases_def DeleteRelease_def CancelRelease_def
      DeleteIntentAndRelease_def Let_def split: option.split)

lemma mem_inv_intents:
  "mem_inv f m \<Longrightarrow> evicted_ok (m\<lparr> intents := x, evicted := y \<rparr>) \<Longrightarrow> mem_inv f (m\<lparr> intents := x, evicted := y \<rparr>)"
  by (simp add: mem_inv_def)

lemma evicted_mark:
  "gm_get (fold (\<lambda>(k, it) ev. if snd k = digest \<and> \<not> in_UpdatedAt it > t then gm_put k () ev else ev) xs ev) k \<noteq> None \<Longrightarrow>
   gm_get ev k \<noteq> None \<or> k \<in> fst ` set xs"
  by (induction xs arbitrary: ev) (auto split: if_splits prod.splits, force+)

lemma mem_inv_MarkEvicted: "mem_inv f m \<Longrightarrow> mem_inv f (fst (MarkEvicted d t m))"
proof -
  assume m: "mem_inv f m"
  let ?ev = "fold (\<lambda>(k, it) ev. if snd k = d \<and> \<not> in_UpdatedAt it > t then gm_put k () ev else ev) (gm_items (intents m)) (evicted m)"
  have "gm_get (intents m) k \<noteq> None" if "gm_get ?ev k \<noteq> None" for k
  proof -
    from evicted_mark [OF that] consider "gm_get (evicted m) k \<noteq> None" | "k \<in> fst ` set (gm_items (intents m))" by blast
    then show ?thesis
    proof cases
      case 1
      then show ?thesis using m unfolding mem_inv_def evicted_ok_def by blast
    next
      case 2
      then show ?thesis by (simp add: gm_get_map_of map_of_eq_None_iff)
    qed
  qed
  then have "evicted_ok (m\<lparr> intents := intents m, evicted := ?ev \<rparr>)" unfolding evicted_ok_def by simp
  from mem_inv_intents [OF m this] show ?thesis using m by (simp add: MarkEvicted_def)
qed

lemma mem_inv_intent_op: "mem_inv f m \<Longrightarrow> mem_inv f (apply_intent_op p m)"
proof -
  assume m: "mem_inv f m"
  then have ev: "gm_get (intents m) k \<noteq> None" if "gm_get (evicted m) k \<noteq> None" for k
    using that unfolding mem_inv_def evicted_ok_def by blast
  show ?thesis
  proof (cases p)
    case (OpPutIntent i t)
    have "evicted_ok (PutIntent i t m)" using ev by (auto simp: PutIntent_def evicted_ok_def split: option.splits if_splits)
    then show ?thesis using mem_inv_intents [OF m] OpPutIntent by (simp add: PutIntent_def)
  next
    case (OpSetIntentState sp d st t)
    have "mem_inv f (m\<lparr> intents := gm_put k x (intents m) \<rparr>)" for k x
      using ev m by (simp add: mem_inv_def) (simp add: evicted_ok_def)
    then show ?thesis
      using m OpSetIntentState by (auto simp: SetIntentState_def Let_def split: option.split)
  qed (use m mem_inv_MarkEvicted mem_inv_deleteIntent in
      \<open>auto simp: DeleteIntent_def DeleteReleasedPublished_def Let_def split: option.split\<close>)
qed

subsection \<open>Sessions and parts\<close>

lemma mem_inv_sessions:
  "mem_inv f m \<Longrightarrow> parts_fk (m\<lparr> sessions := x \<rparr>) \<Longrightarrow> mem_inv f (m\<lparr> sessions := x \<rparr>)"
  "mem_inv f m \<Longrightarrow> parts_fk (m\<lparr> parts := y \<rparr>) \<Longrightarrow> mem_inv f (m\<lparr> parts := y \<rparr>)"
  by (simp_all add: mem_inv_def)

lemma mem_inv_put_session: "mem_inv f m \<Longrightarrow> mem_inv f (m\<lparr> sessions := gm_put u s (sessions m) \<rparr>)"
  by (rule mem_inv_sessions) (auto simp: mem_inv_def parts_fk_def)

lemma mem_inv_put_parts:
  "mem_inv f m \<Longrightarrow> gm_get (sessions m) u \<noteq> None \<Longrightarrow> mem_inv f (m\<lparr> parts := gm_put u b (parts m) \<rparr>)"
  by (rule mem_inv_sessions) (auto simp: mem_inv_def parts_fk_def)

lemma mem_inv_DeleteSession: "mem_inv f m \<Longrightarrow> mem_inv f (DeleteSession u m)"
proof -
  assume m: "mem_inv f m"
  have "core (DeleteSession u m) = core (m\<lparr> sessions := gm_del u (sessions m), parts := gm_del u (parts m) \<rparr>)"
    by (simp add: core_def DeleteSession_def)
  moreover have "mem_inv f (m\<lparr> sessions := gm_del u (sessions m), parts := gm_del u (parts m) \<rparr>)"
    using m by (simp add: mem_inv_def) (simp add: parts_fk_def)
  ultimately show ?thesis using mem_inv_core by blast
qed

lemma mem_inv_releaseReplaced:
  "mem_inv f m \<Longrightarrow> mem_inv f (fst (releaseReplaced keep sp ds now m))
     \<and> sessions (fst (releaseReplaced keep sp ds now m)) = sessions m"
proof (induction ds arbitrary: keep m)
  case (Cons d ds)
  obtain m1 pr where e: "enqueueReleaseLocked sp d now m = (m1, pr)" by fastforce
  then have "mem_inv f m1" "sessions m1 = sessions m"
    using mem_inv_enqueue [OF Cons.prems, of sp d now] enqueue_sessions(1) [of sp d now m] by auto
  then have "mem_inv f (fst (releaseReplaced (d # keep) sp ds now m1))
      \<and> sessions (fst (releaseReplaced (d # keep) sp ds now m1)) = sessions m"
    using Cons.IH [of m1 "d # keep"] by simp
  then show ?case using Cons e by (auto simp: Let_def split: prod.splits)
qed simp

lemma putTree_core: "core (putTree u n t m) = core m"
  by (simp add: core_def putTree_def split: option.split)

lemma mem_inv_PutPart: "mem_inv f m \<Longrightarrow> mem_inv f (fst (PutPart p tr now m))"
proof -
  assume m: "mem_inv f m"
  show ?thesis
  proof (cases "\<exists>sess. gm_get (sessions m) (mp_UploadID p) = Some sess \<and> ms_State sess = Some SessionOpen")
    case True
    then obtain sess where sess: "gm_get (sessions m) (mp_UploadID p) = Some sess" "ms_State sess = Some SessionOpen" by blast
    define r where "r = (case gm_get (gm_inner (parts m) (mp_UploadID p)) (mp_PartNumber p) of None \<Rightarrow> (m, [])
      | Some old \<Rightarrow> releaseReplaced (mp_BlobDigests p) (ms_Space sess) (mp_BlobDigests old) now m)"
    have r: "mem_inv f (fst r)" "sessions (fst r) = sessions m"
      using m mem_inv_releaseReplaced by (auto simp: r_def split: option.split)
    have "\<exists>b. fst (PutPart p tr now m) = putTree (mp_UploadID p) (mp_PartNumber p) tr
        ((fst r)\<lparr> parts := gm_put (mp_UploadID p) b (parts (fst r)) \<rparr>)"
      using sess by (auto simp: PutPart_def Let_def r_def split: prod.split)
    then obtain b where "core (fst (PutPart p tr now m)) = core ((fst r)\<lparr> parts := gm_put (mp_UploadID p) b (parts (fst r)) \<rparr>)"
      using putTree_core by metis
    then have "mem_inv f (fst (PutPart p tr now m)) = mem_inv f ((fst r)\<lparr> parts := gm_put (mp_UploadID p) b (parts (fst r)) \<rparr>)"
      by (rule mem_inv_core)
    then show ?thesis using mem_inv_put_parts [OF r(1), of "mp_UploadID p" b] r(2) sess(1) by simp
  next
    case False
    then have "fst (PutPart p tr now m) = m" by (auto simp: PutPart_def split: option.split)
    then show ?thesis using m by simp
  qed
qed

lemma mem_inv_MoveParts: "mem_inv f m \<Longrightarrow> mem_inv f (fst (MoveParts ps frm to m))"
proof -
  assume "mem_inv f m"
  then have "mem_inv f (fst (m, 0 :: nat))" by simp
  then have "mem_inv f (fst (fold (movePart frm to) ps (m, 0)))"
  proof (rule fold_invariant [where P = "\<lambda>st. mem_inv f (fst st)"])
    fix want :: MultipartPart and st :: "MemStore \<times> nat"
    assume st: "mem_inv f (fst st)"
    have "gm_get (sessions (fst st)) (mp_UploadID want) \<noteq> None"
      if "gm_get (gm_inner (parts (fst st)) (mp_UploadID want)) (mp_PartNumber want) = Some p" for p
    proof -
      have "gm_get (parts (fst st)) (mp_UploadID want) \<noteq> None"
        using that by (auto simp: gm_inner_def split: option.splits)
      then show ?thesis using st unfolding mem_inv_def parts_fk_def by blast
    qed
    then show "mem_inv f (fst (movePart frm to want st))"
      using st mem_inv_put_parts by (auto simp: movePart_def Let_def split: prod.split option.split)
  qed
  then show ?thesis by (simp add: MoveParts_def)
qed

lemma mem_inv_multipart_op: "mem_inv f m \<Longrightarrow> mem_inv f (apply_multipart_op p m)"
proof (cases p)
  case (OpDeletePartTrees u)
  have "core (DeletePartTrees u m) = core m" by (simp add: core_def DeletePartTrees_def)
  then have "mem_inv f (DeletePartTrees u m) = mem_inv f m" by (rule mem_inv_core)
  then show "mem_inv f m \<Longrightarrow> ?thesis" using OpDeletePartTrees by simp
qed (use mem_inv_put_session mem_inv_DeleteSession mem_inv_PutPart mem_inv_MoveParts in
    \<open>auto simp: CreateSession_def LatchSession_def CompleteSession_def Let_def split: option.split\<close>)

subsection \<open>The outbox\<close>

lemma refreshFirst_seqs: "map reg_Seq (refreshFirst s p rs) = map reg_Seq rs"
  by (induction rs) auto

lemma mem_inv_outbox_op: "mem_inv f m \<Longrightarrow> mem_inv f (apply_outbox_op p m)"
proof -
  assume m: "mem_inv f m"
  note regs = mem_inv_regs [OF m] and ob = mem_inv_outbox [OF m]
  show ?thesis
  proof (cases p)
    case (OpRefreshProofs s q)
    then show ?thesis using regs [OF outbox_ok_map [OF ob]] refreshFirst_seqs by (simp add: RefreshUploadRegistrationProofs_def)
  next
    case (OpDeadLetter ss r t)
    then show ?thesis using m regs [OF outbox_ok_map [OF ob]] by (simp add: DeadLetterUploadRegistrations_def comp_def)
  next
    case (OpDeleteRegs ss)
    then show ?thesis using m regs [OF outbox_ok_filter [OF ob]] by (simp add: DeleteUploadRegistrations_def)
  next
    case (OpReschedule ss t)
    then show ?thesis using m regs [OF outbox_ok_map [OF ob]] by (simp add: RescheduleUploadRegistrations_def comp_def)
  qed
qed

lemma reachable_inv: "reachable f m \<Longrightarrow> mem_inv f m"
proof (induction rule: reachable.induct)
  case reach_init
  then show ?case by (rule mem_inv_init)
next
  case (reach_step m p)
  then show ?case
    using mem_inv_bucket_op mem_inv_release_op mem_inv_intent_op mem_inv_multipart_op mem_inv_outbox_op
      mem_inv_core [OF apply_blob_op_core] mem_inv_core [OF apply_segment_op_core]
    by (cases p) auto
qed

section \<open>Properties\<close>

lemma started_refused:
  assumes "started sp d m" and "cl \<in> set (rcm_Claims c)" and "claim_Space cl = sp" and "claim_Digest cl = d"
  shows "snd (CommitRoot name e n c now m) \<noteq> None"
proof
  assume "snd (CommitRoot name e n c now m) = None"
  then have "firstRefused (rcm_Claims c) m = None"
    by (auto simp: CommitRoot_def split: option.splits if_splits)
  from firstRefused_None [OF this assms(2)] show False using assms(1,3,4) by simp
qed


definition demo_queued :: MemStore where
  "demo_queued = apply_op (ReleaseOp (OpEnqueueRelease ''did:space'' ''d'' 3)) NewMemStore"

lemma reachable_queued: "reachable f demo_queued"
  unfolding demo_queued_def by (rule reach_step [OF reach_init]) (simp add: op_ok_def)


text \<open>C21. In every reachable state a blob whose release has started is claimed by no version, only blobs
  with an intent are marked evicted, the outbox is numbered strictly in commit order, and every part
  belongs to a session.\<close>

theorem store_invariants:
  assumes "reachable f m"
  shows "(\<forall>sp d. started sp d m \<longrightarrow> CountClaims sp d m = 0)
    \<and> (\<forall>k. gm_get (evicted m) k \<noteq> None \<longrightarrow> gm_get (intents m) k \<noteq> None)
    \<and> sorted_wrt (<) (map reg_Seq (uploadRegs m))
    \<and> (\<forall>u. gm_get (parts m) u \<noteq> None \<longrightarrow> gm_get (sessions m) u \<noteq> None)"
proof -
  have i: "release_safe m" "evicted_ok m" "outbox_ok m" "parts_fk m"
    using reachable_inv [OF assms] by (simp_all add: mem_inv_def)
  have "\<forall>sp d. started sp d m \<longrightarrow> CountClaims sp d m = 0"
    using i(1) by (simp add: release_safe_def CountClaims_def countClaims_eq_0)
  moreover have "sorted_wrt (<) (map reg_Seq (uploadRegs m))" using i(3) by (simp add: outbox_ok_def)
  ultimately show ?thesis
    using i(2) [unfolded evicted_ok_def] i(4) [unfolded parts_fk_def] by blast
qed

theorem store_invariants_witness:
  "reachable (\<lambda>_. ''did:space'') demo_queued \<and> sorted_wrt (<) (map reg_Seq (uploadRegs demo_queued))"
  using store_invariants [OF reachable_queued] reachable_queued by blast

end
