(* ===== verification/Bucket_Serial.thy ===== *)
theory Bucket_Serial
  imports Bucket_Commit Mem_Inv
begin

text \<open>
  Transactions of one coordinator, interleaved. Between the begin and the commit of a transaction, other
  transactions begin, stage, commit and discard, buckets are created, emptied and deleted, and every other
  method of the registry is called, in any order. The bucket's lock is what makes the snapshot a commit
  swaps against still the bucket's root.
\<close>

section \<open>What changes a bucket's root\<close>

definition roots_kept :: "MemStore \<Rightarrow> MemStore \<Rightarrow> bool" where
  "roots_kept m m' \<longleftrightarrow> (\<forall>b r. rootOf b m = Some r \<longrightarrow> rootOf b m' = Some r)"

lemma roots_keptI: "buckets m' = buckets m \<Longrightarrow> roots_kept m m'"
  by (simp add: roots_kept_def rootOf_def)

text \<open>Every method of the registry but the deletion of a bucket and the two swaps of a root.\<close>

fun root_op :: "mem_op \<Rightarrow> bool" where
  "root_op (BucketOp (OpDelete _)) = True"
| "root_op (BucketOp (OpEmptyRoot _ _)) = True"
| "root_op (BucketOp (OpCommitRoot _ _ _ _ _)) = True"
| "root_op _ = False"

lemma updBucket_roots: "(\<And>s. st_Root (g s) = st_Root s) \<Longrightarrow> roots_kept m (fst (updBucket n g m))"
  by (auto simp: updBucket_def roots_kept_def rootOf_def split: option.split)

lemma bucket_op_roots: "\<not> root_op (BucketOp p) \<Longrightarrow> roots_kept m (apply_bucket_op p m)"
  by (cases p) (auto simp: SetForgeRoot_def SetVersioning_def SetObjectLockConfig_def SetEncryption_def SetBucketTagging_def SetCORSConfig_def
      intro!: updBucket_roots, auto simp: Create_def AllocVersionSeq_def roots_kept_def rootOf_def Let_def split: option.splits if_splits)

lemma segment_op_roots: "roots_kept m (apply_segment_op p m)"
proof (cases p)
  case (OpMarkSegmentShipped p s t i d rs)
  have "rootOf b (fold advanceForgeRoot rs m) = rootOf b m" for b m rs
    by (rule fold_frame [where f = "rootOf b"]) (auto simp: advanceForgeRoot_def rootOf_def split: option.split)
  then show ?thesis using OpMarkSegmentShipped
    by (simp add: MarkSegmentShipped_def roots_kept_def Let_def) (simp add: rootOf_def split: option.split)
qed (auto simp: NextSegmentSeq_def EnsureSegmentSeqAbove_def MoveJournal_def InsertSegmentOpen_def
      MarkSegmentSealed_def DeleteSegment_def RetireSegment_def RehydrateSegment_def Let_def intro!: roots_keptI split: option.split)


lemma blob_op_buckets: "buckets (apply_blob_op p m) = buckets m"
  by (cases p)
    (auto simp: PutInclusions_def TouchStreams_def fold_frame [where f = buckets] PutLocation_def DeleteLocation_def PutEncryptionParams_def
      DeleteEncryptionParams_def RewrapEncryptionParams_def PutPark_def DeletePark_def ConcludePark_def
      PutStream_def DeleteStream_def AddGCCandidate_def PutRevocationCursor_def Let_def split: option.split intro!: fold_frame [where f = buckets])

lemma intent_op_buckets: "buckets (apply_intent_op p m) = buckets m"
  by (cases p)
    (auto simp: PutIntent_def SetIntentState_def DeleteIntent_def MarkEvicted_def DeleteReleasedPublished_def deleteIntentLocked_def
      Let_def split: option.split)

lemma enqueueAll_buckets: "buckets (fst (enqueueAll seen sp ds t m)) = buckets m"
  by (induction ds arbitrary: seen m) (simp_all add: Let_def split_beta)

lemma releaseReplaced_buckets: "buckets (fst (releaseReplaced keep sp ds t m)) = buckets m"
  by (induction ds arbitrary: keep m) (simp_all add: Let_def split_beta)

lemma release_op_buckets: "buckets (apply_release_op p m) = buckets m"
  by (cases p)
    (auto simp: EnqueueRelease_def EnqueueReleases_def DeleteRelease_def StartRelease_def CancelRelease_def DeleteIntentAndRelease_def
      deleteIntentLocked_def enqueueAll_buckets Let_def split: option.split)

lemma outbox_op_buckets: "buckets (apply_outbox_op p m) = buckets m"
  by (cases p)
    (auto simp: RefreshUploadRegistrationProofs_def DeadLetterUploadRegistrations_def DeleteUploadRegistrations_def
      RescheduleUploadRegistrations_def Let_def)

lemma PutPart_buckets: "buckets (fst (PutPart p tr now m)) = buckets m"
  using releaseReplaced_buckets
  by (auto simp: PutPart_def putTree_def Let_def split_beta split: option.split)

lemma MoveParts_buckets: "buckets (fst (MoveParts ps f t m)) = buckets m"
  unfolding MoveParts_def by (rule fold_frame [where f = "buckets \<circ> fst", unfolded comp_apply, of _ _ "(m, 0)", simplified])
    (auto simp: movePart_def Let_def split: option.split prod.split)

lemma multipart_op_buckets: "buckets (apply_multipart_op p m) = buckets m"
  by (cases p)
    (auto simp: CreateSession_def LatchSession_def CompleteSession_def DeleteSession_def PutPart_buckets MoveParts_buckets DeletePartTrees_def
      Let_def split: option.split)

lemma other_op_roots: "\<not> root_op p \<Longrightarrow> roots_kept m (apply_op p m)"
  using bucket_op_roots segment_op_roots
  by (cases p) (auto intro!: roots_keptI simp: blob_op_buckets intent_op_buckets release_op_buckets outbox_op_buckets multipart_op_buckets)


section \<open>Interleaved transactions\<close>

inductive tx_work :: "Tx \<Rightarrow> Tx \<Rightarrow> bool" where
  "tx_work tx (EnqueueUploadRegistration reg tx)"
| "tx_work tx (ClaimBlobs claims tx)"
| "tx_work tx (PinBlobs claims tx)"
| "tx_work tx (DropClaims drops grace tx)"
| "tx_work tx (tx_PutBlock blk tx)"

lemma tx_work_same: "tx_work tx tx' \<Longrightarrow> tx_bucket tx' = tx_bucket tx \<and> tx_state tx' = tx_state tx \<and> tx_held tx' = tx_held tx"
  by (auto elim!: tx_work.cases simp: EnqueueUploadRegistration_def ClaimBlobs_def PinBlobs_def DropClaims_def tx_PutBlock_def)

text \<open>The transactions of a coordinator by a number of their own, ended ones included. The logs' own
  background work changes the manager; what it does to the registry are methods of the registry.\<close>

inductive serial :: "bucket_env \<Rightarrow> Coordinator \<Rightarrow> (nat \<rightharpoonup> Tx) \<Rightarrow> bool" for D where
  serial_start: "serial D \<lparr> co_locks = {}, co_log = st \<rparr> Map.empty"
| serial_begin: "serial D co T \<Longrightarrow> T i = None \<Longrightarrow> Begin b co = Some (co', Inr tx :: unit op_error + Tx) \<Longrightarrow> serial D co' (T(i \<mapsto> tx))"
| serial_refused: "serial D co T \<Longrightarrow> Begin b co = Some (co', Inl e :: unit op_error + Tx) \<Longrightarrow> serial D co' T"
| serial_work: "serial D co T \<Longrightarrow> T i = Some tx \<Longrightarrow> tx_work tx tx' \<Longrightarrow> serial D co (T(i \<mapsto> tx'))"
| serial_commit: "serial D co T \<Longrightarrow> T i = Some tx \<Longrightarrow> Commit D io root tx co = ((co', tx'), err :: unit op_error option) \<Longrightarrow> serial D co' (T(i \<mapsto> tx'))"
| serial_discard: "serial D co T \<Longrightarrow> T i = Some tx \<Longrightarrow> Discard tx co = (co', tx') \<Longrightarrow> serial D co' (T(i \<mapsto> tx'))"
| serial_locked: "serial D co T \<Longrightarrow> p \<in> {OpDelete b, OpEmptyRoot b e} \<Longrightarrow>
    WithLock b (\<lambda>(mg, m). ((mg, apply_bucket_op p m), None :: unit option)) co = Some (co', r) \<Longrightarrow> serial D co' T"
| serial_other: "serial D co T \<Longrightarrow> \<not> root_op p \<Longrightarrow> serial D (co\<lparr> co_log := (fst (co_log co), apply_op p (snd (co_log co))) \<rparr>) T"
| serial_log: "serial D co T \<Longrightarrow> serial D (co\<lparr> co_log := (mg, snd (co_log co)) \<rparr>) T"

definition snapshot_ok :: "Coordinator \<Rightarrow> Tx \<Rightarrow> bool" where
  "snapshot_ok co tx \<longleftrightarrow> (tx_held tx \<longrightarrow> tx_bucket tx \<in> co_locks co
     \<and> rootOf (tx_bucket tx) (snd (co_log co)) = Some (st_Root (tx_state tx)))"

definition serial_inv :: "Coordinator \<Rightarrow> (nat \<rightharpoonup> Tx) \<Rightarrow> bool" where
  "serial_inv co T \<longleftrightarrow> (\<forall>i tx. T i = Some tx \<longrightarrow> snapshot_ok co tx)
     \<and> (\<forall>i j tx tx'. T i = Some tx \<longrightarrow> T j = Some tx' \<longrightarrow> tx_held tx \<longrightarrow> tx_held tx' \<longrightarrow> tx_bucket tx = tx_bucket tx' \<longrightarrow> i = j)"

lemma serial_inv_ok: "serial_inv co T \<Longrightarrow> T i = Some tx \<Longrightarrow> snapshot_ok co tx"
  by (auto simp: serial_inv_def)

text \<open>A step that changes transaction \<open>i\<close> to one that is not held, or holds a bucket that was not locked,
  and keeps what the other holders rely on.\<close>

lemma serial_inv_step:
  assumes "serial_inv co T" and "snapshot_ok co' tx" and "tx_held tx \<Longrightarrow> (\<exists>tx0. T i = Some tx0 \<and> tx_held tx0 \<and> tx_bucket tx0 = tx_bucket tx) \<or> tx_bucket tx \<notin> co_locks co"
    and "\<And>j tx'. j \<noteq> i \<Longrightarrow> T j = Some tx' \<Longrightarrow> snapshot_ok co tx' \<Longrightarrow> snapshot_ok co' tx'"
  shows "serial_inv co' (T(i \<mapsto> tx))"
proof -
  have "j = i" if "T j = Some tx'" "tx_held tx'" "tx_held tx" "tx_bucket tx' = tx_bucket tx" for j tx'
    using assms(1,3) that unfolding serial_inv_def snapshot_ok_def by metis
  then show ?thesis using assms(1,2,4) unfolding serial_inv_def by (auto split: if_splits)
qed

lemma serial_inv_mono:
  "serial_inv co T \<Longrightarrow> (\<And>tx. snapshot_ok co tx \<Longrightarrow> snapshot_ok co' tx) \<Longrightarrow> serial_inv co' T"
  unfolding serial_inv_def by blast

lemma snapshot_ok_roots:
  "snapshot_ok co tx \<Longrightarrow> co_locks co' = co_locks co \<Longrightarrow> roots_kept (snd (co_log co)) (snd (co_log co')) \<Longrightarrow> snapshot_ok co' tx"
  by (auto simp: snapshot_ok_def roots_kept_def)

text \<open>A commit fails at the append, or reaches the swap with the bucket rows as they were. Successful or not,
  it ends the transaction and touches no other bucket's row.\<close>

lemma Commit_cases:
  assumes "Commit D io root tx co = ((co', tx'), err)" and "tx_held tx"
  obtains e where "err = Some (OpAppend e)" and "buckets (snd (co_log co')) = buckets (snd (co_log co))"
    | c m x where "CommitRoot (tx_bucket tx) (st_Root (tx_state tx)) root c (ci_now io) m = (snd (co_log co'), x)"
      and "buckets m = buckets (snd (co_log co))" and "err = map_option OpAdvanceRoot x"
proof -
  obtain st1 r where sc: "staging_Commit (appendStaged D io (tx_bucket tx)) root (tx_staging tx) (co_log co) = (st1, r)" by (metis prod.exhaust)
  then have b: "buckets (snd st1) = buckets (snd (co_log co))" using mgr_AppendBatch_buckets
    by (auto simp: staging_Commit_def appendStaged_def Let_def split: if_splits prod.splits sum.splits)
  show thesis
  proof (cases r)
    case (Inl e)
    then have "err = Some (OpAppend e)" "co_log co' = st1" using assms sc by (auto simp: Commit_def finalize_def co_release_def)
    then show ?thesis using that(1) b by blast
  next
    case (Inr y)
    obtain mg m seg cat stg where y: "st1 = (mg, m)" "y = ((seg, cat), stg)" by (metis prod.exhaust)
    let ?c = "(tx_commit tx)\<lparr> rcm_Journal := \<lparr> ap_Segment = seg, ap_Blocks = map (\<lambda>(c, d). (c, the d)) cat \<rparr> \<rparr>"
    obtain m' x where cr: "CommitRoot (tx_bucket tx) (st_Root (tx_state tx)) root ?c (ci_now io) m = (m', x)" by (metis prod.exhaust)
    then have "err = map_option OpAdvanceRoot x" "snd (co_log co') = m'"
      using assms sc Inr y by (auto simp: Commit_def finalize_def co_release_def Let_def)
    then show ?thesis using that(2) [of ?c m x] cr b y(1) by simp
  qed
qed

lemma Commit_frame:
  assumes "Commit D io root tx co = ((co', tx'), err)" and "tx_held tx"
  shows "\<not> tx_held tx'" and "co_locks co' = co_locks co - {tx_bucket tx}"
    and "b \<noteq> tx_bucket tx \<Longrightarrow> rootOf b (snd (co_log co')) = rootOf b (snd (co_log co))"
proof -
  show "co_locks co' = co_locks co - {tx_bucket tx}" using Commit_locks [OF assms(2,1)] .
  show "\<not> tx_held tx'" using assms by (auto simp: Commit_def finalize_def Let_def split: prod.splits sum.splits)
  assume b: "b \<noteq> tx_bucket tx"
  have cr: "gm_get (buckets m') b = gm_get (buckets m) b" if "CommitRoot (tx_bucket tx) e r c now m = (m', x)" for e r c now m m' x
    using that b by (cases x) (auto simp: CommitRoot_ok_iff dest: CommitRoot_error)
  show "rootOf b (snd (co_log co')) = rootOf b (snd (co_log co))"
    by (rule Commit_cases [OF assms]) (use cr in \<open>auto simp: rootOf_def\<close>)
qed

lemma WithLock_frame:
  assumes "WithLock b (\<lambda>(mg, m). ((mg, apply_bucket_op p m), None :: unit option)) co = Some (co', r)" and "p \<in> {OpDelete b, OpEmptyRoot b e}"
    and "snapshot_ok co tx"
  shows "snapshot_ok co' tx"
proof -
  have free: "b \<notin> co_locks co" and co': "co_locks co' = co_locks co" "snd (co_log co') = apply_bucket_op p (snd (co_log co))"
    using assms(1) by (auto simp: WithLock_def co_Lock_def co_release_def Let_def split: if_splits prod.splits)
  have "n \<noteq> b \<Longrightarrow> rootOf n (apply_bucket_op p m) = rootOf n m" for n m
    using assms(2) by (auto simp: mem_Delete_def EmptyRoot_def dropJournalLocked_def rootOf_def split: option.split)
  moreover have "tx_held tx \<Longrightarrow> tx_bucket tx \<noteq> b" using assms(3) free by (auto simp: snapshot_ok_def)
  ultimately show ?thesis using assms(3) co' by (simp add: snapshot_ok_def)
qed

lemma Begin_frame:
  assumes "Begin b co = Some (co', r)"
  shows "co_log co' = co_log co" and "b \<notin> co_locks co"
    and "case r of Inl _ \<Rightarrow> co_locks co' = co_locks co
      | Inr tx \<Rightarrow> co_locks co' = insert b (co_locks co) \<and> tx_bucket tx = b \<and> rootOf b (snd (co_log co)) = Some (st_Root (tx_state tx))"
  using assms by (auto simp: Begin_def co_Lock_def co_release_def mem_Get_def rootOf_def split: if_splits option.splits sum.splits)

lemma serial_inv: "serial D co T \<Longrightarrow> serial_inv co T"
proof (induction rule: serial.induct)
  case (serial_begin co T i b co' tx)
  note f = Begin_frame [OF serial_begin.hyps(3)]
  show ?case by (rule serial_inv_step [OF serial_begin.IH]) (use f in \<open>auto simp: snapshot_ok_def\<close>)
next
  case (serial_refused co T b co' e)
  then show ?case using Begin_frame [OF serial_refused.hyps(2)] by (auto intro: serial_inv_mono simp: snapshot_ok_def)
next
  case (serial_work co T i tx tx')
  show ?case by (rule serial_inv_step [OF serial_work.IH])
      (use tx_work_same [OF serial_work.hyps(3)] serial_inv_ok [OF serial_work.IH serial_work.hyps(2)] serial_work.hyps(2) in
        \<open>auto simp: snapshot_ok_def\<close>)
next
  case (serial_commit co T i tx io root co' tx' err)
  show ?case
  proof (cases "tx_held tx")
    case True
    note f = Commit_frame [OF serial_commit.hyps(3) True]
    have "tx_bucket tx2 \<noteq> tx_bucket tx" if "j \<noteq> i" "T j = Some tx2" "tx_held tx2" for j tx2
      using serial_commit.IH serial_commit.hyps(2) True that unfolding serial_inv_def by metis
    then show ?thesis by (intro serial_inv_step [OF serial_commit.IH]) (use f in \<open>auto simp: snapshot_ok_def\<close>)
  next
    case False
    then have "co' = co" "tx' = tx" using serial_commit.hyps(3) by (simp_all add: Commit_def)
    then show ?thesis using serial_commit.IH serial_commit.hyps(2) by (simp add: map_upd_triv)
  qed
next
  case (serial_discard co T i tx co' tx')
  show ?case
  proof (cases "tx_held tx")
    case True
    then have f: "\<not> tx_held tx'" "co_log co' = co_log co" "co_locks co' = co_locks co - {tx_bucket tx}"
      using serial_discard.hyps(3) by (auto simp: Discard_def finalize_def co_release_def)
    have "tx_bucket tx2 \<noteq> tx_bucket tx" if "j \<noteq> i" "T j = Some tx2" "tx_held tx2" for j tx2
      using serial_discard.IH serial_discard.hyps(2) True that unfolding serial_inv_def by metis
    then show ?thesis by (intro serial_inv_step [OF serial_discard.IH]) (use f in \<open>auto simp: snapshot_ok_def\<close>)
  next
    case False
    then have "co' = co" "tx' = tx" using serial_discard.hyps(3) by (simp_all add: Discard_def)
    then show ?thesis using serial_discard.IH serial_discard.hyps(2) by (simp add: map_upd_triv)
  qed
next
  case (serial_locked co T p b e co' r)
  then show ?case using WithLock_frame by (blast intro: serial_inv_mono)
next
  case (serial_other co T p)
  have "snapshot_ok co tx \<Longrightarrow> snapshot_ok (co\<lparr> co_log := (fst (co_log co), apply_op p (snd (co_log co))) \<rparr>) tx" for tx
    by (erule snapshot_ok_roots) (simp_all add: other_op_roots [OF serial_other.hyps(2)] del: apply_op.simps)
  then show ?case by (rule serial_inv_mono [OF serial_other.IH])
next
  case (serial_log co T mg)
  show ?case by (rule serial_inv_mono [OF serial_log.IH]) (simp add: snapshot_ok_def)
qed (simp add: serial_inv_def)

lemma firstRefused_errors: "firstRefused cls m \<in> {None, Some RegErrReleaseInProgress}"
  by (induction cls) (auto simp: claimRefusedLocked_def)

text \<open>C17. Within one coordinator no commit loses the race for its root: whatever transactions, bucket deletions
  and registry calls are interleaved with it, a transaction that still holds its bucket is the only one
  that does, and its commit is never refused because the root moved or the bucket went away; and the
  commit, refused or not, releases the bucket.\<close>

theorem Commit_no_conflict:
  assumes "serial D co T" and "T i = Some tx" and "tx_held tx" and "Commit D io root tx co = ((co', tx'), err)"
  shows "err \<noteq> Some (OpAdvanceRoot RegErrConflict) \<and> err \<noteq> Some (OpAdvanceRoot RegErrNotFound)
    \<and> (\<forall>j tx2. T j = Some tx2 \<longrightarrow> tx_held tx2 \<longrightarrow> tx_bucket tx2 = tx_bucket tx \<longrightarrow> j = i)
    \<and> tx_bucket tx \<notin> co_locks co'"
proof -
  note inv = serial_inv [OF assms(1)]
  have root: "rootOf (tx_bucket tx) (snd (co_log co)) = Some (st_Root (tx_state tx))"
    using serial_inv_ok [OF inv assms(2)] assms(3) by (simp add: snapshot_ok_def)
  have x: "x \<notin> {Some RegErrConflict, Some RegErrNotFound}"
    if "CommitRoot (tx_bucket tx) (st_Root (tx_state tx)) root c now m = (m', x)" "buckets m = buckets (snd (co_log co))" for c now m m' x
    using root that firstRefused_errors [of "rcm_Claims c" m] by (auto simp: CommitRoot_def rootOf_def split: option.splits if_splits)
  have "err \<noteq> Some (OpAdvanceRoot RegErrConflict) \<and> err \<noteq> Some (OpAdvanceRoot RegErrNotFound)"
    by (rule Commit_cases [OF assms(4,3)]) (use x in fastforce)+
  moreover have "T j = Some tx2 \<Longrightarrow> tx_held tx2 \<Longrightarrow> tx_bucket tx2 = tx_bucket tx \<Longrightarrow> j = i" for j tx2
    using inv assms(2,3) unfolding serial_inv_def by metis
  ultimately show ?thesis using Commit_frame(2) [OF assms(4,3)] by blast
qed

theorem Commit_no_conflict_witness:
  "\<exists>co tx co' tx' err. Begin ''photos'' demo_co = Some (co, Inr tx :: unit op_error + Tx) \<and> serial demo_deps co [0 \<mapsto> tx] \<and> tx_held tx
     \<and> Commit demo_deps demo_commit_io ''A'' tx co = ((co', tx'), err :: unit op_error option)
     \<and> err \<noteq> Some (OpAdvanceRoot RegErrConflict) \<and> ''photos'' \<notin> co_locks co'"
proof -
  obtain co where b: "Begin ''photos'' demo_co = Some (co, Inr demo_tx :: unit op_error + Tx)"
    by (simp add: Begin_def co_Lock_def mem_Get_def demo_co_def demo_tx_def)
  have "serial demo_deps demo_co Map.empty" unfolding demo_co_def by (rule serial_start)
  from serial_begin [OF this _ b] have s: "serial demo_deps co [0 \<mapsto> demo_tx]" by simp
  obtain co' tx' err where c: "Commit demo_deps demo_commit_io ''A'' demo_tx co = ((co', tx'), err :: unit op_error option)" by (metis prod.exhaust)
  have h: "tx_held demo_tx" "tx_bucket demo_tx = ''photos''" by (simp_all add: demo_tx_def)
  show ?thesis using Commit_no_conflict [OF s _ h(1) c, of 0] b s c h by auto
qed

end
