(* ===== verification/Mst_Diff.thy ===== *)
theory Mst_Diff
  imports Mst_Canon
begin

text \<open>
  The difference of two trees (\<open>src/mst/diff.go\<close>): a walk of both entry lists side by side that opens a
  subtree only where the two differ, and skips a subtree both have under the same pointer. The block
  store, wrapped as a reader, is the environment of \<open>Mst\<close>. The loop has fuel, since a subtree is
  loaded on demand: every round consumes an entry or opens a subtree one layer down.

  The theorem: whatever the shape of the two trees, the answer is the merge of their sorted pairs.
\<close>

section \<open>The walk\<close>

record DiffOp =
  do_Depth :: int
  do_Op :: string
  do_Rpath :: bytes
  do_OldCid :: cid
  do_NewCid :: cid

definition op_add :: "bytes \<Rightarrow> cid \<Rightarrow> DiffOp" where
  "op_add k v = \<lparr> do_Depth = 0, do_Op = ''add'', do_Rpath = k, do_OldCid = cid_Undef, do_NewCid = v \<rparr>"

definition op_del :: "bytes \<Rightarrow> cid \<Rightarrow> DiffOp" where
  "op_del k v = \<lparr> do_Depth = 0, do_Op = ''del'', do_Rpath = k, do_OldCid = v, do_NewCid = cid_Undef \<rparr>"

definition op_mut :: "bytes \<Rightarrow> cid \<Rightarrow> cid \<Rightarrow> DiffOp" where
  "op_mut k v v' = \<lparr> do_Depth = 0, do_Op = ''mut'', do_Rpath = k, do_OldCid = v, do_NewCid = v' \<rparr>"

fun nodeEntriesEqual :: "nodeEntry \<Rightarrow> nodeEntry \<Rightarrow> bool" where
  "nodeEntriesEqual (entryLeaf k v) (entryLeaf k' v') \<longleftrightarrow> k = k' \<and> v = v'"
| "nodeEntriesEqual (entryTree k s) (entryTree k' s') \<longleftrightarrow> k = k' \<and> pointer s = pointer s'"
| "nodeEntriesEqual entryUndefined entryUndefined \<longleftrightarrow> True"
| "nodeEntriesEqual entryUndefined (entryLeaf k v) \<longleftrightarrow> k = [] \<and> v = cid_Undef"
| "nodeEntriesEqual (entryLeaf k v) entryUndefined \<longleftrightarrow> k = [] \<and> v = cid_Undef"
| "nodeEntriesEqual _ _ \<longleftrightarrow> False"

text \<open>What is left of one list when the other is used up; \<open>mk\<close> makes the change of a pair.\<close>

definition collect :: "(bytes \<Rightarrow> cid \<Rightarrow> DiffOp) \<Rightarrow> DiffOp list \<Rightarrow> bytes \<Rightarrow> cid \<Rightarrow> DiffOp list \<times> mst_error option" where
  "collect mk out k v = (out @ [mk k v], None)"

fun diffRest :: "nat \<Rightarrow> mst_env \<Rightarrow> (bytes \<Rightarrow> cid \<Rightarrow> DiffOp) \<Rightarrow> nodeEntry list \<Rightarrow> DiffOp list \<Rightarrow> mst_error + DiffOp list" where
  "diffRest n E mk [] out = Inr out"
| "diffRest n E mk (e # es) out =
     (case e of
        entryLeaf k v \<Rightarrow> diffRest n E mk es (out @ [mk k v])
      | entryTree _ t \<Rightarrow>
          (case WalkLeavesFrom n E t [] (collect mk) out of
             (_, Some err) \<Rightarrow> Inl err
           | (out', None) \<Rightarrow> diffRest n E mk es out')
      | entryUndefined \<Rightarrow> diffRest n E mk es out)"

fun diffLoop :: "nat \<Rightarrow> nat \<Rightarrow> mst_env \<Rightarrow> nodeEntry list \<Rightarrow> nodeEntry list \<Rightarrow> DiffOp list \<Rightarrow> mst_error + DiffOp list" where
  "diffLoop 0 n E fents tents out = Inl OutOfFuel"
| "diffLoop (Suc fuel) n E fents tents out =
     (case (fents, tents) of
        (ef # fs, et # ts) \<Rightarrow>
          if nodeEntriesEqual ef et then diffLoop fuel n E fs ts out
          else
            (case (ef, et) of
               (entryLeaf k v, entryLeaf k' v') \<Rightarrow>
                 if k = k' then
                   if v = v' then Inl ErrEqualLeaves
                   else diffLoop fuel n E fs ts (out @ [op_mut k v v'])
                 else if k > k' then diffLoop fuel n E fents ts (out @ [op_add k' v'])
                 else diffLoop fuel n E fs tents (out @ [op_del k v])
             | (entryTree _ t, _) \<Rightarrow> bindE (getEntries E t) (\<lambda>sub. diffLoop fuel n E (sub @ fs) tents out)
             | (_, entryTree _ t) \<Rightarrow> bindE (getEntries E t) (\<lambda>sub. diffLoop fuel n E fents (sub @ ts) out)
             | _ \<Rightarrow> diffLoop fuel n E fents tents out)
      | _ \<Rightarrow> bindE (diffRest n E op_del fents out) (diffRest n E op_add tents))"

definition identityDiff :: "nat \<Rightarrow> mst_env \<Rightarrow> cid \<Rightarrow> mst_error + DiffOp list" where
  "identityDiff n E root =
     (case WalkLeavesFrom n E (LoadMST root) [] (collect op_add) [] of
        (_, Some err) \<Rightarrow> Inl err
      | (ops, None) \<Rightarrow> Inr ops)"

definition DiffTrees :: "nat \<Rightarrow> nat \<Rightarrow> mst_env \<Rightarrow> cid \<Rightarrow> cid \<Rightarrow> mst_error + DiffOp list" where
  "DiffTrees fuel n E from to =
     (if from = cid_Undef then identityDiff n E to
      else
        bindE (getEntries E (LoadMST from)) (\<lambda>fents.
        bindE (getEntries E (LoadMST to)) (\<lambda>tents. diffLoop fuel n E fents tents [])))"

section \<open>The difference of two sorted lists\<close>

fun diff_kvs :: "kvs \<Rightarrow> kvs \<Rightarrow> DiffOp list" where
  "diff_kvs [] ys = map (\<lambda>(k, v). op_add k v) ys"
| "diff_kvs xs [] = map (\<lambda>(k, v). op_del k v) xs"
| "diff_kvs ((k, v) # xs) ((k', v') # ys) =
     (if k = k' then (if v = v' then diff_kvs xs ys else op_mut k v v' # diff_kvs xs ys)
      else if k > k' then op_add k' v' # diff_kvs ((k, v) # xs) ys
      else op_del k v # diff_kvs xs ((k', v') # ys))"

lemma diff_kvs_Nil2 [simp]: "diff_kvs xs [] = map (\<lambda>(k, v). op_del k v) xs"
  by (cases xs) auto

lemma diff_kvs_prefix [simp]: "diff_kvs (c @ xs) (c @ ys) = diff_kvs xs ys"
  by (induction c) auto

text \<open>Exactly the keys whose value differs, each once, in key order.\<close>

definition change :: "kv_map \<Rightarrow> kv_map \<Rightarrow> bytes \<Rightarrow> DiffOp option" where
  "change m m' k =
     (case (m k, m' k) of
        (None, None) \<Rightarrow> None
      | (None, Some v') \<Rightarrow> Some (op_add k v')
      | (Some v, None) \<Rightarrow> Some (op_del k v)
      | (Some v, Some v') \<Rightarrow> if v = v' then None else Some (op_mut k v v'))"

lemma op_path [simp]: "do_Rpath (op_add k v) = k" "do_Rpath (op_del k v) = k" "do_Rpath (op_mut k v v') = k"
  by (simp_all add: op_add_def op_del_def op_mut_def)

lemma diff_kvs_keys: "p \<in> set (diff_kvs xs ys) \<Longrightarrow> do_Rpath p \<in> fst ` set xs \<union> fst ` set ys"
  by (induction xs ys rule: diff_kvs.induct) (force split: if_splits)+

lemma sorted_map_of: "sorted_kvs xs \<Longrightarrow> (k, v) \<in> set xs \<longleftrightarrow> map_of xs k = Some v"
  by (metis map_of_SomeD map_of_eq_Some_iff sorted_kvs_def strict_sorted_iff)

lemma mem_changes:
  assumes "sorted_kvs xs" and "\<And>k v. do_Rpath (mk k v) = k"
  shows "p \<in> (\<lambda>(k, v). mk k v) ` set xs \<longleftrightarrow> (\<exists>v. map_of xs (do_Rpath p) = Some v \<and> p = mk (do_Rpath p) v)"
  using sorted_map_of [OF assms(1)] assms(2) by (auto simp: image_iff) force

lemma change_empty:
  "change Map.empty m k = map_option (op_add k) (m k)" "change m Map.empty k = map_option (op_del k) (m k)"
  by (auto simp: change_def split: option.split)

lemma diff_kvs_exact:
  "sorted_kvs xs \<Longrightarrow> sorted_kvs ys \<Longrightarrow> p \<in> set (diff_kvs xs ys) \<longleftrightarrow> change (map_of xs) (map_of ys) (do_Rpath p) = Some p"
proof (induction xs ys rule: diff_kvs.induct)
  case (1 ys)
  show ?case unfolding diff_kvs.simps set_map map_of.simps(1) change_empty mem_changes [OF 1(2) op_path(1)] by auto
next
  case (2 x xs)
  show ?case unfolding diff_kvs.simps set_map map_of.simps(1) change_empty mem_changes [OF 2(1) op_path(2)] by auto
next
  case (3 k v xs k' v' ys)
  note IH = 3(1-4)
  have s: "sorted_kvs xs" "sorted_kvs ys" "keys_gt xs k" "keys_gt ys k'" using 3(5,6) by (simp_all add: sorted_kvs_Cons)
  consider "k = k'" "v = v'" | "k = k'" "v \<noteq> v'" | "k > k'" | "k < k'" by force
  then show ?case
  proof cases
    case 1
    then show ?thesis using IH(1) s by (cases "do_Rpath p = k") (auto simp: change_def)
  next
    case 2
    then show ?thesis using IH(2) s by (cases "do_Rpath p = k") (auto simp: change_def)
  next
    case 3
    then have n: "map_of xs k' = None" "k' \<noteq> k" using keys_gt_mono [OF s(3), of k'] by auto
    then show ?thesis using IH(3) 3 s by (cases "do_Rpath p = k'") (auto simp: change_def sorted_kvs_Cons)
  next
    case 4
    then have n: "map_of ys k = None" "k \<noteq> k'" using keys_gt_mono [OF s(4), of k] by auto
    then show ?thesis using IH(4) 4 s by (cases "do_Rpath p = k") (auto simp: change_def sorted_kvs_Cons)
  qed
qed


lemma diff_kvs_sorted: "sorted_kvs xs \<Longrightarrow> sorted_kvs ys \<Longrightarrow> sorted_wrt (<) (map do_Rpath (diff_kvs xs ys))"
proof (induction xs ys rule: diff_kvs.induct)
  case (3 k v xs k' v' ys)
  have s: "keys_gt xs k" "keys_gt ys k'" using 3(5,6) by (simp_all add: sorted_kvs_Cons)
  have low: "sorted_wrt (<) (q # map do_Rpath (diff_kvs as bs))"
    if "sorted_wrt (<) (map do_Rpath (diff_kvs as bs))" "keys_gt as q" "keys_gt bs q" for q as bs
    using that diff_kvs_keys by (fastforce simp: keys_gt_def)
  show ?case using 3 s low [of xs ys k] low [of "(k, v) # xs" ys k'] low [of xs "(k', v') # ys" k]
      keys_gt_mono [OF s(1), of k'] keys_gt_mono [OF s(2), of k]
    by (auto simp: sorted_kvs_Cons keys_gt_def)
qed (auto simp: sorted_kvs_def comp_def split_beta)

section \<open>The lists the walk meets\<close>

text \<open>An entry list in the middle of the walk: leaves and subtrees of any layer, the subtrees by pointer.
  The number bounds the rounds spent on the list.\<close>

inductive walked :: "mst_env \<Rightarrow> nodeEntry list \<Rightarrow> kvs \<Rightarrow> nat \<Rightarrow> bool" for E where
  walked_Nil: "walked E [] [] 0"
| walked_leaf: "walked E es r w \<Longrightarrow> walked E (entryLeaf k v # es) ((k, v) # r) (Suc w)"
| walked_tree: "walked E es b w \<Longrightarrow> a \<noteq> [] \<Longrightarrow> node_ok l E (createMST p None lay) a \<Longrightarrow> l \<le> 128 \<Longrightarrow>
    walked E (entryTree k (createMST p None lay) # es) (a @ b) ((l + 2) * length a + w)"

inductive_cases walked_NilE: "walked E [] x w"
inductive_cases walked_leafE: "walked E (entryLeaf k v # es) x w"
inductive_cases walked_treeE: "walked E (entryTree k t # es) x w"
inductive_cases walked_undefE: "walked E (entryUndefined # es) x w"

lemma walked_append: "walked E es a w \<Longrightarrow> walked E es' b w' \<Longrightarrow> walked E (es @ es') (a @ b) (w + w')"
proof (induction rule: walked.induct)
  case (walked_tree es b' w a l p lay k)
  from walked.walked_tree [OF walked_tree.IH [OF walked_tree.prems] walked_tree.hyps(2-4), of k]
  show ?case by (simp add: add.assoc)
qed (auto intro: walked_leaf)

text \<open>Opening a subtree costs less than the subtree.\<close>

lemma walked_rel:
  assumes "ents_rel (sub_ok l E) E l es a" and "\<And>k s. entryTree k s \<in> set es \<Longrightarrow> \<exists>p lay. s = createMST p None lay" and "l \<le> 128"
  shows "\<exists>w \<le> (l + 1) * length a. walked E es a w"
  using assms(1,2)
proof (induction es arbitrary: a)
  case Nil
  then show ?case by (auto intro: walked_Nil)
next
  case (Cons e es)
  show ?case
  proof (cases e)
    case (entryLeaf k v)
    then obtain r where r: "a = (k, v) # r" "ents_rel (sub_ok l E) E l es r" using Cons.prems(1) by auto
    then obtain w where "w \<le> (l + 1) * length r" "walked E es r w" using Cons.IH Cons.prems(2) by (metis list.set_intros(2))
    then have "Suc w \<le> (l + 1) * length a" "walked E (e # es) a (Suc w)" using r(1) entryLeaf by (auto intro: walked_leaf)
    then show ?thesis by blast
  next
    case (entryTree k s)
    then obtain c b where c: "a = c @ b" "c \<noteq> []" "sub_ok l E s c" "ents_rel (sub_ok l E) E l es b" using Cons.prems(1) by auto
    then obtain w where w: "w \<le> (l + 1) * length b" "walked E es b w" using Cons.IH Cons.prems(2) by (metis list.set_intros(2))
    obtain p lay where s: "s = createMST p None lay" using Cons.prems(2) [of k s] entryTree by auto
    obtain l' where l': "l = Suc l'" "node_ok l' E s c" using c(3) by (cases l) auto
    have "walked E (e # es) a ((l' + 2) * length c + w)"
      unfolding entryTree s c(1) using w(2) c(2) l' assms(3) s by (intro walked_tree) auto
    moreover have "(l' + 2) * length c + w \<le> (l + 1) * length a" using w(1) l'(1) by (simp add: c(1) add_mult_distrib2)
    ultimately show ?thesis by blast
  qed (use Cons.prems in simp)
qed

lemma getEntries_stub: "getEntries E (createMST p None lay) = getEntries E (LoadMST p)"
  by (simp add: getEntries_def LoadMST_def createMST_def)

lemma stub_entries:
  assumes "getEntries E (LoadMST p) = Inr es" and "entryTree k s \<in> set es"
  shows "\<exists>q lay. s = createMST q None lay"
proof -
  obtain nd where "entriesFromNodeData E nd = Inr es"
    using assms(1) by (auto simp: getEntries_def LoadMST_def createMST_def bindE_eq_Inr split: if_splits)
  then show ?thesis using deserializeNodeData_trees assms(2) unfolding entriesFromNodeData_def by blast
qed

lemma walked_open:
  assumes "node_ok l E (createMST p None lay) a" and "l \<le> 128"
  obtains es w where "getEntries E (createMST p None lay) = Inr es" and "walked E es a w" and "w \<le> (l + 1) * length a"
proof -
  obtain es where es: "getEntries E (createMST p None lay) = Inr es" "ents_rel (sub_ok l E) E l es a"
    using assms(1) by (auto simp: node_ok_iff)
  then have "\<exists>w \<le> (l + 1) * length a. walked E es a w"
    using walked_rel [OF es(2) _ assms(2)] stub_entries [OF es(1) [unfolded getEntries_stub]] by blast
  then show thesis using that es(1) by blast
qed

text \<open>A stored node means one list of pairs.\<close>

lemma ents_rel_det:
  assumes "\<And>s c c'. P s c \<Longrightarrow> P' s c' \<Longrightarrow> c = c'"
  shows "ents_rel P E l es a \<Longrightarrow> ents_rel P' E l' es a' \<Longrightarrow> a = a'"
proof (induction es arbitrary: a a')
  case (Cons e es)
  then show ?case using assms by (cases e) (auto, metis)
qed simp

lemma node_ok_det: "node_ok l E t a \<Longrightarrow> node_ok l' E t a' \<Longrightarrow> a = a'"
proof (induction l arbitrary: l' t a a')
  case 0
  then obtain es where es: "ents_rel (sub_ok 0 E) E 0 es a" "ents_rel (sub_ok l' E) E l' es a'" by (auto simp: node_ok_iff)
  show ?case by (rule ents_rel_det [OF _ es]) simp
next
  case (Suc l)
  then obtain es where es: "ents_rel (sub_ok (Suc l) E) E (Suc l) es a" "ents_rel (sub_ok l' E) E l' es a'" by (auto simp: node_ok_iff)
  show ?case by (rule ents_rel_det [OF _ es]) (use Suc.IH in \<open>cases l'; auto\<close>)
qed


lemma stub_det:
  assumes "node_ok l E (createMST p None lay) a" and "node_ok l' E (createMST p None lay') a'"
  shows "a = a'"
proof -
  obtain es where es: "ents_rel (sub_ok l E) E l es a" "ents_rel (sub_ok l' E) E l' es a'"
    using assms by (auto simp: node_ok_iff getEntries_stub)
  show ?thesis by (rule ents_rel_det [OF _ es]) (use node_ok_det in \<open>cases l; cases l'; auto\<close>)
qed

section \<open>The walk computes the difference\<close>

lemma collect_walk:
  assumes "node_ok l E t a" and "sorted_kvs a" and "l < n"
  shows "WalkLeavesFrom n E t [] (collect mk) out = (out @ map (\<lambda>(k, v). mk k v) a, None)"
proof -
  have "fold_until (visit (collect mk)) out xs = (out @ map (\<lambda>(k, v). mk k v) xs, None)" for xs
    by (induction xs arbitrary: out) (auto simp: visit_def collect_def)
  moreover have "from_key [] a = a" by (auto intro: filter_True)
  ultimately show ?thesis by (simp add: WalkLeavesFrom_def walkLeavesFrom_node [OF assms])
qed

lemma diffRest_walked:
  assumes "walked E es a w" and "sorted_kvs a" and "128 < n"
  shows "diffRest n E mk es out = Inr (out @ map (\<lambda>(k, v). mk k v) a)"
  using assms
proof (induction arbitrary: out rule: walked.induct)
  case (walked_tree es b w a l p lay k)
  then have "sorted_kvs a" "l < n" by (simp_all add: sorted_kvs_append)
  from collect_walk [OF walked_tree.hyps(3) this] show ?case using walked_tree by (simp add: sorted_kvs_append)
qed (auto simp: sorted_kvs_Cons)

lemma walked_treeD:
  assumes "walked E (entryTree k t # es) z v"
  shows "\<exists>a b w l p lay. z = a @ b \<and> v = (l + 2) * length a + w \<and> walked E es b w \<and> a \<noteq> []
     \<and> t = createMST p None lay \<and> node_ok l E t a \<and> l \<le> 128"
  using assms
proof (cases rule: walked.cases)
  case (walked_tree b w a l p lay)
  then show ?thesis by (intro exI [of _ a] exI [of _ b] exI [of _ w] exI [of _ l] exI [of _ p] exI [of _ lay]) simp
qed

lemma walked_opened:
  assumes "walked E (entryTree k t # es) z v"
  shows "\<exists>sub w. getEntries E t = Inr sub \<and> walked E (sub @ es) z w \<and> w < v"
proof -
  obtain a b w l p lay where z: "z = a @ b" "v = (l + 2) * length a + w" "walked E es b w" "a \<noteq> []" "t = createMST p None lay"
      "node_ok l E t a" "l \<le> 128"
    using walked_treeD [OF assms] by blast
  obtain sub w0 where "getEntries E t = Inr sub" "walked E sub a w0" "w0 \<le> (l + 1) * length a"
    using walked_open [OF z(6) [unfolded z(5)] z(7)] z(5) by blast
  moreover have "(l + 1) * length a < (l + 2) * length a" using z(4) by simp
  ultimately have "getEntries E t = Inr sub" "walked E (sub @ es) z (w0 + w)" "w0 + w < v"
    unfolding z(1,2) using walked_append [OF _ z(3)] by (blast, blast, linarith)
  then show ?thesis by blast
qed

lemma head_cases:
  assumes "walked E fs x w" and "walked E ts y w'"
  obtains "fs = []" | "ts = []" | k v fs' k' v' ts' where "fs = entryLeaf k v # fs'" "ts = entryLeaf k' v' # ts'"
    | k t fs' k' t' ts' where "fs = entryTree k t # fs'" "ts = entryTree k' t' # ts'" "k = k'" "pointer t = pointer t'"
    | k t fs' et ts' where "fs = entryTree k t # fs'" "ts = et # ts'" "\<not> nodeEntriesEqual (entryTree k t) et"
    | k v fs' k' t' ts' where "fs = entryLeaf k v # fs'" "ts = entryTree k' t' # ts'"
proof (cases fs; cases ts)
  fix ef fs' et ts' assume l: "fs = ef # fs'" "ts = et # ts'"
  then have nu: "ef \<noteq> entryUndefined" "et \<noteq> entryUndefined" using assms by (auto elim: walked_undefE)
  show thesis
  proof (cases ef)
    case (entryLeaf k v)
    then show ?thesis using that(3,6) l nu(2) by (cases et) auto
  next
    case (entryTree k t)
    show ?thesis
    proof (cases "nodeEntriesEqual ef et")
      case True
      then show ?thesis using that(4) l entryTree nu(2) by (cases et) auto
    next
      case False
      then show ?thesis using that(5) l entryTree by auto
    qed
  qed (use nu in simp)
qed (use that in auto)

lemma diffLoop_walked:
  "walked E fs x w \<Longrightarrow> walked E ts y w' \<Longrightarrow> sorted_kvs x \<Longrightarrow> sorted_kvs y \<Longrightarrow> 128 < n \<Longrightarrow> w + w' < fuel \<Longrightarrow>
   diffLoop fuel n E fs ts out = Inr (out @ diff_kvs x y)"
proof (induction fuel arbitrary: fs x w ts y w' out)
  case (Suc fuel)
  note rest = diffRest_walked [OF Suc.prems(1,3,5)] diffRest_walked [OF Suc.prems(2,4,5)]
  show ?case
  proof (cases rule: head_cases [OF Suc.prems(1,2)])
    case 1
    then show ?thesis using Suc.prems(1) rest by (auto elim!: walked_NilE split: list.split)
  next
    case 2
    then show ?thesis using Suc.prems(2) rest by (auto elim!: walked_NilE split: list.split)
  next
    case (3 k v fs' k' v' ts')
    obtain r w1 where x: "x = (k, v) # r" "w = Suc w1" "walked E fs' r w1" using Suc.prems(1) unfolding 3 by (auto elim!: walked_leafE)
    obtain r' w2 where y: "y = (k', v') # r'" "w' = Suc w2" "walked E ts' r' w2" using Suc.prems(2) unfolding 3 by (auto elim!: walked_leafE)
    show ?thesis
      using 3 x y Suc.prems Suc.IH [OF x(3) y(3)] Suc.IH [OF Suc.prems(1) y(3)] Suc.IH [OF x(3) Suc.prems(2)]
      by (auto simp: sorted_kvs_Cons)
  next
    case (4 k t fs' k' t' ts')
    obtain a b w1 l p lay where x: "x = a @ b" "walked E fs' b w1" "w = (l + 2) * length a + w1" "a \<noteq> []" "t = createMST p None lay" "node_ok l E t a"
      using walked_treeD [OF Suc.prems(1) [unfolded 4]] by blast
    obtain a' b' w2 l' p' lay' where y: "y = a' @ b'" "walked E ts' b' w2" "w' = (l' + 2) * length a' + w2" "t' = createMST p' None lay'" "node_ok l' E t' a'"
      using walked_treeD [OF Suc.prems(2) [unfolded 4]] by blast
    have "p = p'" using 4(4) x(5) y(4) by (simp add: createMST_def)
    then have "a = a'" using stub_det x(5,6) y(4,5) by blast
    moreover have "w1 + w2 < fuel" using Suc.prems(6) x(3,4) y(3) by (cases a) auto
    ultimately show ?thesis using 4 x y Suc.prems(3-5) Suc.IH [OF x(2) y(2)] by (simp add: sorted_kvs_append)
  next
    case (5 k t fs' et ts')
    then obtain sub w1 where "getEntries E t = Inr sub" "walked E (sub @ fs') x w1" "w1 < w" using walked_opened Suc.prems(1) by blast
    then show ?thesis using 5 Suc.IH [OF _ Suc.prems(2)] Suc.prems by (cases et) auto
  next
    case (6 k v fs' k' t' ts')
    then obtain sub w2 where "getEntries E t' = Inr sub" "walked E (sub @ ts') y w2" "w2 < w'" using walked_opened Suc.prems(2) by blast
    then show ?thesis using 6 Suc.IH [OF Suc.prems(1)] Suc.prems by auto
  qed
qed simp


section \<open>Properties\<close>

text \<open>C28. The difference of two stored trees, whatever their shapes: in key order and once each, it names exactly
  the keys that only the new tree has, those only the old one has, and those whose value differs, with
  the values on either side; from an undefined root, every pair of the new tree as added. The walk ends:
  130 rounds per pair are fuel enough.\<close>

theorem DiffTrees_exact:
  assumes "from = cid_Undef \<and> xs = [] \<or> (\<exists>l \<le> 128. node_ok l E (LoadMST from) xs)"
    and "l' \<le> 128" and "node_ok l' E (LoadMST to) ys"
    and "sorted_kvs xs" and "sorted_kvs ys" and "128 < n" and "130 * (length xs + length ys) < fuel"
  shows "\<exists>ops. DiffTrees fuel n E from to = Inr ops \<and> sorted_wrt (<) (map do_Rpath ops)
    \<and> (\<forall>p. p \<in> set ops \<longleftrightarrow> change (map_of xs) (map_of ys) (do_Rpath p) = Some p)"
proof -
  have "DiffTrees fuel n E from to = Inr (diff_kvs xs ys)"
  proof (cases "from = cid_Undef")
    case True
    then have "xs = []" using assms(1) by (auto simp: node_ok_iff getEntries_def LoadMST_def createMST_def)
    then show ?thesis using collect_walk [OF assms(3,5), of n op_add "[]"] assms(2,6) True
      by (simp add: DiffTrees_def identityDiff_def)
  next
    case False
    have load: "LoadMST c = createMST c None (- 1)" for c by (simp add: LoadMST_def)
    obtain l where l: "l \<le> 128" "node_ok l E (LoadMST from) xs" using assms(1) False by auto
    obtain fs w where f: "getEntries E (LoadMST from) = Inr fs" "walked E fs xs w" "w \<le> (l + 1) * length xs"
      using walked_open [OF l(2) [unfolded load] l(1)] unfolding load by blast
    obtain ts w' where t: "getEntries E (LoadMST to) = Inr ts" "walked E ts ys w'" "w' \<le> (l' + 1) * length ys"
      using walked_open [OF assms(3) [unfolded load] assms(2)] unfolding load by blast
    have "w \<le> 130 * length xs" "w' \<le> 130 * length ys"
      using order_trans [OF f(3) mult_le_mono1, of 130] order_trans [OF t(3) mult_le_mono1, of 130] l(1) assms(2) by simp_all
    then have "w + w' < fuel" using assms(7) by simp
    then show ?thesis using diffLoop_walked [OF f(2) t(2) assms(4,5,6)] f(1) t(1) False by (simp add: DiffTrees_def)
  qed
  then show ?thesis using diff_kvs_sorted [OF assms(4,5)] diff_kvs_exact [OF assms(4,5)] by blast
qed

definition demo_store :: mst_env where
  "demo_store = demo_env\<lparr> cst_Get := (\<lambda>c. if c = ''n1'' then Inr demo_leaf_node else if c = ''n2'' then Inr demo_root_node
     else Inl ErrNotFound) \<rparr>"

lemma demo_stored:
  "node_ok 0 demo_store (LoadMST ''n1'') [(''a'', ''A'')]" "node_ok 1 demo_store (LoadMST ''n2'') [(''a'', ''A''), (''b'', ''B'')]"
proof -
  have z: "leadingZerosOnHash demo_store ''a'' = 0" "leadingZerosOnHash demo_store ''b'' = 1" by code_simp+
  have e: "getEntries demo_store (createMST ''n1'' None lay) = Inr [entryLeaf ''a'' ''A'']" for lay
    by (simp add: getEntries_stub) code_simp
  have e': "getEntries demo_store (LoadMST ''n2'') = Inr [entryTree [] (createMST ''n1'' None 0), entryLeaf ''b'' ''B'']" by code_simp
  have n1: "node_ok 0 demo_store (createMST ''n1'' None lay) [(''a'', ''A'')]" if "lay \<le> 0" for lay
    using e z that by (auto simp: node_ok_iff ptr_ok_def layer_ok_def createMST_def LoadMST_def)
  then show "node_ok 0 demo_store (LoadMST ''n1'') [(''a'', ''A'')]" by (simp add: LoadMST_def)
  have "ents_rel (node_ok 0 demo_store) demo_store 1 [entryTree [] (createMST ''n1'' None 0), entryLeaf ''b'' ''B''] [(''a'', ''A''), (''b'', ''B'')]"
    using n1 [of 0] z by (auto simp: Cons_eq_append_conv)
  then show "node_ok 1 demo_store (LoadMST ''n2'') [(''a'', ''A''), (''b'', ''B'')]"
    using e' by (auto simp: node_ok_iff [of "Suc 0"] ptr_ok_def layer_ok_def LoadMST_def createMST_def)
qed

theorem DiffTrees_exact_witness:
  "\<exists>ops. DiffTrees 1000 130 demo_store ''n2'' ''n1'' = Inr ops \<and> op_del ''b'' ''B'' \<in> set ops \<and> (\<forall>v. op_del ''a'' v \<notin> set ops)"
proof -
  have "\<exists>ops. DiffTrees 1000 130 demo_store ''n2'' ''n1'' = Inr ops \<and> sorted_wrt (<) (map do_Rpath ops)
    \<and> (\<forall>p. p \<in> set ops \<longleftrightarrow> change (map_of [(''a'', ''A''), (''b'', ''B'')]) (map_of [(''a'', ''A'')]) (do_Rpath p) = Some p)"
    by (rule DiffTrees_exact [OF disjI2 _ demo_stored(1)])
      (auto simp: sorted_kvs_def intro!: exI [of _ 1] demo_stored(2) [unfolded One_nat_def])
  then show ?thesis by (auto simp: change_def)
qed

end
