(* ===== verification/Blake3_Tree.thy ===== *)
theory Blake3_Tree
  imports Ops_Codec
begin

text \<open>
  The BLAKE3 tree of an object body (\<open>src/blake3tree/blake3tree.go\<close>): the streaming hasher with its stack
  of pending subtrees and its growing blocks, the assembly of a body's tree from ranges hashed at their
  offsets, the Bao outboard and the verification of ranges against it.

  The compression functions are those of the package \<open>guts\<close>, a parameter: a node type with the
  functions that make one, set its flags, and read its chaining value. \<open>uint64\<close> chunk indices are
  numbers with the wrap written out. The buffer of a hasher is its filled part, and its stack is kept
  top first.
\<close>

section \<open>Chaining values and parameters\<close>

type_synonym words = "32 word list"
type_synonym CV = bytes

record 'n guts =
  CompressChunk :: "bytes \<Rightarrow> nat \<Rightarrow> nat \<Rightarrow> 'n"
  CompressBuffer :: "bytes \<Rightarrow> nat \<Rightarrow> nat \<Rightarrow> 'n"
  ParentNode :: "words \<Rightarrow> words \<Rightarrow> nat \<Rightarrow> 'n"
  orFlags :: "nat \<Rightarrow> 'n \<Rightarrow> 'n"
  ChainingValue :: "'n \<Rightarrow> words"
  FlagRoot :: nat

datatype tree_error = TreeErr string | TreePanic string

definition ChunkSize :: nat where
  "ChunkSize = 1024"

definition CVSize :: nat where
  "CVSize = 32"

definition MinChunkLog :: nat where
  "MinChunkLog = 4"

definition MaxBlocks :: int where
  "MaxBlocks = 32768"

definition MaxChunkLog :: nat where
  "MaxChunkLog = 52"

definition chunkLog :: nat where
  "chunkLog = 10"

definition bufChunks :: nat where
  "bufChunks = 16"

definition u64 :: "nat \<Rightarrow> nat" where
  "u64 n = n mod 2 ^ 64"

text \<open>\<open>1 << h\<close> at 64 bits: zero once the bit is shifted out.\<close>

definition shl1 :: "nat \<Rightarrow> nat" where
  "shl1 h = u64 (2 ^ h)"

definition toU64 :: "int \<Rightarrow> nat" where
  "toU64 z = nat (z mod 2 ^ 64)"

fun leBytes :: "nat \<Rightarrow> nat \<Rightarrow> bytes" where
  "leBytes 0 v = []"
| "leBytes (Suc k) v = char_of v # leBytes k (v div 256)"

fun le :: "bytes \<Rightarrow> nat" where
  "le [] = 0"
| "le (c # cs) = of_char c + 256 * le cs"

definition bytesOf :: "words \<Rightarrow> CV" where
  "bytesOf w = concat (map (\<lambda>x. leBytes 4 (unat x)) w)"

definition wordsOf :: "CV \<Rightarrow> words" where
  "wordsOf cv = map (\<lambda>i. word_of_nat (le (take 4 (drop (4 * i) cv)))) [0..<8]"

definition parentCV :: "'n guts \<Rightarrow> words \<Rightarrow> words \<Rightarrow> words" where
  "parentCV G left right = ChainingValue G (ParentNode G left right 0)"

definition ParentCV :: "'n guts \<Rightarrow> CV \<Rightarrow> CV \<Rightarrow> CV" where
  "ParentCV G left right = bytesOf (parentCV G (wordsOf left) (wordsOf right))"

section \<open>Block sizes\<close>

function sqrtLoop :: "int \<Rightarrow> nat \<Rightarrow> nat" where
  "sqrtLoop sz c = (if c < 24 \<and> sz > 2 ^ (2 * c + 15) then sqrtLoop sz (c + 1) else c)"
  by pat_completeness auto
termination by (relation "measure (\<lambda>(_, c). 24 - c)") auto

function capLoop :: "int \<Rightarrow> nat \<Rightarrow> nat" where
  "capLoop sz c = (if c + chunkLog + 15 < 63 \<and> sz > MaxBlocks * 2 ^ (c + chunkLog) then capLoop sz (c + 1) else c)"
  by pat_completeness auto
termination by (relation "measure (\<lambda>(_, c). 63 - c)") auto

declare sqrtLoop.simps [simp del] capLoop.simps [simp del]

definition ChunkLog :: "int \<Rightarrow> nat" where
  "ChunkLog sz = capLoop sz (sqrtLoop sz MinChunkLog)"

definition BlockSize :: "nat \<Rightarrow> int" where
  "BlockSize cl = int64 (int ChunkSize * 2 ^ cl)"

definition blocksIn :: "int \<Rightarrow> nat \<Rightarrow> int" where
  "blocksIn sz cl =
     (let block = BlockSize cl; n = sz div block in if sz mod block \<noteq> 0 then n + 1 else n)"

section \<open>The hasher\<close>

record Object =
  obj_Size :: int
  obj_Root :: CV
  obj_ChunkLog :: nat
  obj_Blocks :: "CV list"

record Subtree =
  sub_CV :: CV
  sub_Height :: nat
  sub_Pos :: nat

record Block =
  bk_CV :: CV
  bk_Offset :: int

record Range =
  rg_Offset :: int
  rg_Size :: int
  rg_Root :: CV
  rg_HasRoot :: bool
  rg_Head :: bytes
  rg_Tail :: bytes
  rg_Subtrees :: "Subtree list"
  rg_ChunkLog :: nat
  rg_Blocks :: "Block list"

record node =
  nd_cv :: words
  nd_height :: nat
  nd_pos :: nat

definition mkNode :: "words \<Rightarrow> nat \<Rightarrow> nat \<Rightarrow> node" where
  "mkNode cv h p = \<lparr> nd_cv = cv, nd_height = h, nd_pos = p \<rparr>"

record Hasher =
  hs_start :: int
  hs_offset :: nat
  hs_counter :: nat
  hs_size :: int
  hs_head :: bytes
  hs_skip :: int
  hs_buf :: bytes
  hs_stack :: "node list"
  hs_blockHeight :: nat
  hs_fixed :: bool
  hs_blocks :: "node list"

definition NewHasher :: "int \<Rightarrow> tree_error + Hasher" where
  "NewHasher offset =
     (if offset < 0 then Inl (TreeErr ''negative offset'')
      else
        let chunk = u64 (toU64 offset + ChunkSize - 1) div ChunkSize
        in Inr \<lparr> hs_start = offset, hs_offset = chunk, hs_counter = chunk, hs_size = 0, hs_head = [],
                 hs_skip = int64 (int64 (int chunk * int ChunkSize) - offset), hs_buf = [], hs_stack = [],
                 hs_blockHeight = MinChunkLog, hs_fixed = False, hs_blocks = [] \<rparr>)"

definition NewHasherAtChunkLog :: "int \<Rightarrow> nat \<Rightarrow> tree_error + Hasher" where
  "NewHasherAtChunkLog offset cl =
     (if cl > MaxChunkLog then Inl (TreeErr ''chunk log is above the largest'')
      else bindE (NewHasher offset) (\<lambda>h. Inr (h\<lparr> hs_blockHeight := cl, hs_fixed := True \<rparr>)))"

text \<open>The loop of \<open>push\<close>: the stack and the blocks after the subtree is merged with its left siblings.\<close>

fun pushLoop :: "'n guts \<Rightarrow> nat \<Rightarrow> words \<Rightarrow> nat \<Rightarrow> nat \<Rightarrow> node list \<Rightarrow> node list \<Rightarrow> node list \<times> node list" where
  "pushLoop G bh cv hgt pos [] blocks =
     ([mkNode cv hgt pos], if hgt = bh then blocks @ [mkNode cv hgt pos] else blocks)"
| "pushLoop G bh cv hgt pos (tp # st) blocks =
     (let blocks' = if hgt = bh then blocks @ [mkNode cv hgt pos] else blocks
      in if nd_height tp \<noteq> hgt \<or> even (pos div 2 ^ hgt) then (mkNode cv hgt pos # tp # st, blocks')
         else pushLoop G bh (parentCV G (nd_cv tp) cv) ((hgt + 1) mod 256) (nd_pos tp) st blocks')"

definition push :: "'n guts \<Rightarrow> words \<Rightarrow> nat \<Rightarrow> nat \<Rightarrow> Hasher \<Rightarrow> Hasher" where
  "push G cv height pos h =
     (let (st, bs) = pushLoop G (hs_blockHeight h) cv height pos (hs_stack h) (hs_blocks h)
      in h\<lparr> hs_stack := st, hs_blocks := bs \<rparr>)"

definition pushChunk :: "'n guts \<Rightarrow> bytes \<Rightarrow> nat \<Rightarrow> Hasher \<Rightarrow> Hasher" where
  "pushChunk G chunk pos h = push G (ChainingValue G (CompressChunk G chunk pos 0)) 0 pos h"

definition flush :: "'n guts \<Rightarrow> Hasher \<Rightarrow> Hasher" where
  "flush G h =
     (let h1 =
        if hs_counter h mod bufChunks = 0 \<and> hs_blockHeight h \<ge> 4
        then push G (ChainingValue G (CompressBuffer G (hs_buf h) (hs_counter h) 0)) 4 (hs_counter h) h
        else fold (\<lambda>i. pushChunk G (take ChunkSize (drop (i * ChunkSize) (hs_buf h))) (u64 (hs_counter h + i)))
               [0..<bufChunks] h
      in h1\<lparr> hs_counter := u64 (hs_counter h1 + bufChunks), hs_buf := [] \<rparr>)"

text \<open>The pairing loop of \<open>promote\<close>, on the blocks not yet visited.\<close>

fun pairBlocks :: "'n guts \<Rightarrow> nat \<Rightarrow> node list \<Rightarrow> node list" where
  "pairBlocks G hgt (l # r # bs) =
     (if even (nd_pos l div 2 ^ hgt) \<and> nd_pos r = u64 (nd_pos l + shl1 hgt)
      then mkNode (parentCV G (nd_cv l) (nd_cv r)) (hgt + 1) (nd_pos l) # pairBlocks G hgt bs
      else pairBlocks G hgt (r # bs))"
| "pairBlocks G hgt _ = []"

definition promote :: "'n guts \<Rightarrow> Hasher \<Rightarrow> Hasher" where
  "promote G h =
     h\<lparr> hs_blocks := pairBlocks G (hs_blockHeight h) (hs_blocks h), hs_blockHeight := hs_blockHeight h + 1 \<rparr>"

text \<open>The copy loop of \<open>Write\<close>. A buffer never holds more than its array.\<close>

function fill :: "'n guts \<Rightarrow> bytes \<Rightarrow> Hasher \<Rightarrow> Hasher" where
  "fill G p h =
     (if p = [] then h
      else
        let h1 = if length (hs_buf h) \<ge> bufChunks * ChunkSize then flush G h else h;
            c = min (bufChunks * ChunkSize - length (hs_buf h1)) (length p)
        in fill G (drop c p) (h1\<lparr> hs_buf := hs_buf h1 @ take c p \<rparr>))"
  by pat_completeness auto
termination
  by (relation "measure (\<lambda>(_, p, _). length p)") (auto simp: flush_def Let_def bufChunks_def ChunkSize_def)

declare fill.simps [simp del]

text \<open>The loop of \<open>Write\<close> that raises the block height.\<close>

function promoteTo :: "'n guts \<Rightarrow> nat \<Rightarrow> Hasher \<Rightarrow> Hasher" where
  "promoteTo G cl h = (if \<not> hs_fixed h \<and> cl > hs_blockHeight h then promoteTo G cl (promote G h) else h)"
  by pat_completeness auto
termination by (relation "measure (\<lambda>(_, cl, h). cl - hs_blockHeight h)") (auto simp: promote_def)

declare promoteTo.simps [simp del]

definition h_Write :: "'n guts \<Rightarrow> bytes \<Rightarrow> Hasher \<Rightarrow> Hasher" where
  "h_Write G p h =
     (let c = if hs_skip h > 0 then min (nat (hs_skip h)) (length p) else 0;
          h1 = h\<lparr> hs_head := hs_head h @ take c p, hs_skip := hs_skip h - int c \<rparr>;
          h2 = fill G (drop c p) h1;
          h3 = h2\<lparr> hs_size := int64 (hs_size h2 + int (length p)) \<rparr>
      in promoteTo G (ChunkLog (hs_size h3)) h3)"

text \<open>The loop of \<open>drain\<close> that pushes whole chunks.\<close>

fun drainChunks :: "'n guts \<Rightarrow> bytes list \<Rightarrow> Hasher \<Rightarrow> Hasher" where
  "drainChunks G [] h = h"
| "drainChunks G (c # cs) h =
     drainChunks G cs ((pushChunk G c (hs_counter h) h)\<lparr> hs_counter := u64 (hs_counter h + 1) \<rparr>)"

definition drain :: "'n guts \<Rightarrow> Hasher \<Rightarrow> Hasher \<times> bytes" where
  "drain G h =
     (let buflen = length (hs_buf h)
      in if buflen = 0 then (h, [])
         else
           let k = (buflen - 1) div ChunkSize;
               h1 = drainChunks G (map (\<lambda>i. take ChunkSize (drop (i * ChunkSize) (hs_buf h))) [0..<k]) h
           in (h1\<lparr> hs_buf := [] \<rparr>, drop (k * ChunkSize) (hs_buf h)))"

text \<open>Folding stack entries, top first, onto a node.\<close>

definition foldNodes :: "'n guts \<Rightarrow> node list \<Rightarrow> 'n \<Rightarrow> 'n" where
  "foldNodes G st n = foldl (\<lambda>n s. ParentNode G (nd_cv s) (ChainingValue G n) 0) n st"

definition rootNode :: "'n guts \<Rightarrow> bytes \<Rightarrow> Hasher \<Rightarrow> 'n" where
  "rootNode G lastc h = orFlags G (FlagRoot G) (foldNodes G (hs_stack h) (CompressChunk G lastc (hs_counter h) 0))"

definition FinishObject :: "'n guts \<Rightarrow> Hasher \<Rightarrow> tree_error + Object" where
  "FinishObject G h0 =
     (if hs_offset h0 \<noteq> 0 then Inl (TreePanic ''FinishObject on a range hasher'')
      else
        let (h, lastc) = drain G h0;
            root = bytesOf (ChainingValue G (rootNode G lastc h));
            hgt = hs_blockHeight h;
            n = foldNodes G (takeWhile (\<lambda>s. nd_height s < hgt) (hs_stack h)) (CompressChunk G lastc (hs_counter h) 0);
            blocks =
              if hs_size h > 0
              then hs_blocks h @ [mkNode (ChainingValue G n) hgt (u64 (length (hs_blocks h) * 2 ^ hgt))]
              else hs_blocks h
        in Inr \<lparr> obj_Size = hs_size h, obj_Root = root, obj_ChunkLog = hgt,
                 obj_Blocks = map (\<lambda>l. bytesOf (nd_cv l)) blocks \<rparr>)"

definition FinishRange :: "'n guts \<Rightarrow> Hasher \<Rightarrow> Range" where
  "FinishRange G h0 =
     (let (h, lastc) = drain G h0;
          has = (hs_start h = 0);
          root = if has then bytesOf (ChainingValue G (rootNode G lastc h)) else replicate CVSize (CHR 0x00);
          whole = (length lastc = ChunkSize);
          h' = if whole then (pushChunk G lastc (hs_counter h) h)\<lparr> hs_counter := u64 (hs_counter h + 1) \<rparr> else h
      in \<lparr> rg_Offset = hs_start h, rg_Size = hs_size h, rg_Root = root, rg_HasRoot = has, rg_Head = hs_head h,
           rg_Tail = (if whole then [] else lastc),
           rg_Subtrees = map (\<lambda>s. \<lparr> sub_CV = bytesOf (nd_cv s), sub_Height = nd_height s, sub_Pos = nd_pos s \<rparr>) (rev (hs_stack h')),
           rg_ChunkLog = hs_blockHeight h,
           rg_Blocks = map (\<lambda>l. \<lparr> bk_CV = bytesOf (nd_cv l), bk_Offset = int64 (int (nd_pos l) * int ChunkSize) \<rparr>) (hs_blocks h') \<rparr>)"

definition BlockSubtrees :: "Range \<Rightarrow> Subtree list" where
  "BlockSubtrees r =
     map (\<lambda>l. \<lparr> sub_CV = bk_CV l, sub_Height = rg_ChunkLog r, sub_Pos = toU64 (bk_Offset l) div ChunkSize \<rparr>) (rg_Blocks r)"

section \<open>Stored subtrees\<close>

definition subtreeEncSize :: nat where
  "subtreeEncSize = 1 + 8 + CVSize"

definition encodeSubtree :: "Subtree \<Rightarrow> bytes" where
  "encodeSubtree s = char_of (sub_Height s) # beBytes 8 (sub_Pos s) @ sub_CV s"

definition EncodeSubtrees :: "Subtree list \<Rightarrow> bytes" where
  "EncodeSubtrees subs = concat (map encodeSubtree subs)"

definition DecodeSubtrees :: "bytes \<Rightarrow> tree_error + Subtree list" where
  "DecodeSubtrees b =
     (if length b mod subtreeEncSize \<noteq> 0 then Inl (TreeErr ''not a whole number of subtrees'')
      else Inr (map (\<lambda>i. let rec = drop (i * subtreeEncSize) b
                         in \<lparr> sub_CV = take CVSize (drop 9 rec), sub_Height = of_char (hd rec), sub_Pos = be (take 8 (drop 1 rec)) \<rparr>)
                  [0..<length b div subtreeEncSize]))"

section \<open>Merging subtrees and blocks\<close>

fun bits_Len :: "nat \<Rightarrow> nat" where
  "bits_Len n = (if n = 0 then 0 else Suc (bits_Len (n div 2)))"

declare bits_Len.simps [simp del]

text \<open>The largest power of two below \<open>n\<close>, for \<open>n\<close> at least 2; at 1 the shift by -1 panics.\<close>

definition leftCount :: "nat \<Rightarrow> nat" where
  "leftCount n = 2 ^ (bits_Len (u64 (n + 2 ^ 64 - 1)) - 1)"

text \<open>\<open>stackOf\<close>: a subtree of height 64 or more makes the modulus zero, which panics.\<close>

fun stackLoop :: "'n guts \<Rightarrow> nat \<Rightarrow> Subtree list \<Rightarrow> Hasher \<Rightarrow> tree_error + Hasher option" where
  "stackLoop G next [] h = Inr (Some h)"
| "stackLoop G next (s # subs) h =
     (if sub_Pos s \<noteq> next then Inr None
      else if shl1 (sub_Height s) = 0 then Inl (TreePanic ''integer divide by zero'')
      else if sub_Pos s mod shl1 (sub_Height s) \<noteq> 0 then Inr None
      else stackLoop G (u64 (next + shl1 (sub_Height s))) subs (push G (wordsOf (sub_CV s)) (sub_Height s) (sub_Pos s) h))"

definition emptyHasher :: "nat \<Rightarrow> Hasher" where
  "emptyHasher bh =
     \<lparr> hs_start = 0, hs_offset = 0, hs_counter = 0, hs_size = 0, hs_head = [], hs_skip = 0, hs_buf = [], hs_stack = [],
       hs_blockHeight = bh, hs_fixed = False, hs_blocks = [] \<rparr>"

definition stackOf :: "'n guts \<Rightarrow> Subtree list \<Rightarrow> tree_error + Hasher option" where
  "stackOf G subs =
     (case subs of [] \<Rightarrow> Inr None | s # _ \<Rightarrow> stackLoop G (sub_Pos s) subs (emptyHasher 64))"

definition MergeSubtrees :: "'n guts \<Rightarrow> Subtree list \<Rightarrow> tree_error + CV option" where
  "MergeSubtrees G subs =
     bindE (stackOf G subs) (\<lambda>r.
       case r of
         None \<Rightarrow> Inr None
       | Some h \<Rightarrow>
           Inr (Some (bytesOf (foldl (\<lambda>n s. parentCV G (nd_cv s) n) (nd_cv (hd (hs_stack h))) (tl (hs_stack h))))))"

text \<open>The scan of \<open>RootFromSubtrees\<close> for the left child: how many chunks the subtrees before the cut have,
  and how many subtrees those are.\<close>

fun cutLoop :: "nat \<Rightarrow> Subtree list \<Rightarrow> nat \<Rightarrow> nat \<Rightarrow> nat \<times> nat" where
  "cutLoop left (s # subs) at i =
     (if at < left then cutLoop left subs (u64 (at + shl1 (sub_Height s))) (i + 1) else (at, i))"
| "cutLoop left [] at i = (at, i)"

definition RootFromSubtrees :: "'n guts \<Rightarrow> Subtree list \<Rightarrow> tree_error + CV option" where
  "RootFromSubtrees G subs =
     (if length subs < 2 \<or> sub_Pos (hd subs) \<noteq> 0 then Inr None
      else
        let total = foldl (\<lambda>t s. u64 (t + shl1 (sub_Height s))) 0 subs
        in if total = 1 then Inl (TreePanic ''negative shift amount'')
           else
             let left = leftCount total; (at, i) = cutLoop left subs 0 0
             in if at \<noteq> left then Inr None
                else
                  bindE (MergeSubtrees G (take i subs)) (\<lambda>l.
                  bindE (MergeSubtrees G (drop i subs)) (\<lambda>r.
                    case (l, r) of
                      (Some lcv, Some rcv) \<Rightarrow>
                        Inr (Some (bytesOf (ChainingValue G (ParentNode G (wordsOf lcv) (wordsOf rcv) (FlagRoot G)))))
                    | _ \<Rightarrow> Inr None)))"

lemma leftCount_ge1: "1 \<le> leftCount n"
  by (simp add: leftCount_def)

lemma bits_Len_bounds: "0 < n \<Longrightarrow> 2 ^ (bits_Len n - 1) \<le> n \<and> n < 2 ^ bits_Len n"
proof (induction n rule: bits_Len.induct)
  case (1 n)
  show ?case
  proof (cases "n div 2 = 0")
    case True
    then show ?thesis using 1(2) by (simp add: bits_Len.simps [of n] bits_Len.simps [of 0])
  next
    case False
    then have b: "2 ^ (bits_Len (n div 2) - 1) \<le> n div 2" "n div 2 < 2 ^ bits_Len (n div 2)" using 1 by auto
    have "bits_Len (n div 2) \<noteq> 0" using False by (simp add: bits_Len.simps [of "n div 2"])
    then obtain m where m: "bits_Len (n div 2) = Suc m" using not0_implies_Suc by blast
    have e: "bits_Len n = Suc (Suc m)" using 1(2) m by (simp add: bits_Len.simps [of n])
    have "2 * 2 ^ m \<le> n" "n < 2 * (2 * 2 ^ m)" using b unfolding m by auto
    then show ?thesis unfolding e by simp
  qed
qed

lemma leftCount_bounds: "2 \<le> n \<Longrightarrow> n \<le> 2 ^ 64 \<Longrightarrow> leftCount n < n \<and> n \<le> 2 * leftCount n"
proof -
  assume n: "2 \<le> n" "n \<le> 2 ^ 64"
  have "n + 2 ^ 64 - 1 = (n - 1) + 2 ^ 64" using n by simp
  moreover have "n - 1 < 2 ^ 64" using n by simp
  ultimately have u: "u64 (n + 2 ^ 64 - 1) = n - 1" unfolding u64_def by (metis mod_add_self2 mod_less)
  have b: "2 ^ (bits_Len (n - 1) - 1) \<le> n - 1" "n - 1 < 2 ^ bits_Len (n - 1)" using bits_Len_bounds [of "n - 1"] n by auto
  have "bits_Len (n - 1) \<noteq> 0" using n unfolding bits_Len.simps [of "n - 1"] by simp
  then obtain m where m: "bits_Len (n - 1) = Suc m" using not0_implies_Suc by blast
  have "2 ^ m < n" using b(1) n(1) unfolding m diff_Suc_1 by linarith
  moreover have "n \<le> 2 * 2 ^ m" using b(2) n(1) unfolding m power_Suc by linarith
  ultimately show ?thesis unfolding leftCount_def u m by simp
qed

lemma leftCount_splits: "\<not> (length bs \<le> 1 \<or> length bs \<ge> 2 ^ 63) \<Longrightarrow> 1 \<le> leftCount (length bs) \<and> leftCount (length bs) < length bs"
  using leftCount_bounds [of "length bs"] leftCount_ge1 by auto

text \<open>A list of blocks fits in memory, so its length is below the 64-bit limit; the callers pass no empty
  list.\<close>

function subtreeCV :: "'n guts \<Rightarrow> CV list \<Rightarrow> CV" where
  "subtreeCV G blocks =
     (if length blocks \<le> 1 \<or> length blocks \<ge> 2 ^ 63 then hd blocks
      else
        let k = leftCount (length blocks)
        in ParentCV G (subtreeCV G (take k blocks)) (subtreeCV G (drop k blocks)))"
  by pat_completeness auto
termination by (relation "measure (\<lambda>(_, bs). length bs)") (use leftCount_splits in fastforce)+

declare subtreeCV.simps [simp del]

definition RootFromBlocks :: "'n guts \<Rightarrow> CV list \<Rightarrow> CV option" where
  "RootFromBlocks G blocks =
     (if length blocks < 2 then None
      else
        let k = leftCount (length blocks); l = subtreeCV G (take k blocks); r = subtreeCV G (drop k blocks)
        in Some (bytesOf (ChainingValue G (ParentNode G (wordsOf l) (wordsOf r) (FlagRoot G)))))"

end
