(* ===== verification/Blake3_Stack.thy ===== *)
theory Blake3_Stack
  imports Blake3_Tree
begin

text \<open>
  The tree BLAKE3 defines over the chunks of a body, and what the hasher's stack holds of it: the
  maximal aligned subtrees of the chunks seen so far. \<open>push\<close> keeps that, and records exactly the
  blocks that become complete.
\<close>

section \<open>The tree of a body\<close>

text \<open>The chaining value of chunk \<open>i\<close>, of the aligned \<open>2 ^ h\<close> chunks from \<open>i\<close> on, and of any \<open>n\<close> chunks
  from \<open>i\<close> on: the left child has the largest power of two of them below \<open>n\<close>. \<open>ch i\<close> is the chunk at
  index \<open>i\<close>.\<close>

definition leafCV :: "'n guts \<Rightarrow> (nat \<Rightarrow> bytes) \<Rightarrow> nat \<Rightarrow> words" where
  "leafCV G ch i = ChainingValue G (CompressChunk G (ch i) i 0)"

fun pcv :: "'n guts \<Rightarrow> (nat \<Rightarrow> bytes) \<Rightarrow> nat \<Rightarrow> nat \<Rightarrow> words" where
  "pcv G ch 0 i = leafCV G ch i"
| "pcv G ch (Suc h) i = parentCV G (pcv G ch h i) (pcv G ch h (i + 2 ^ h))"

definition left_len :: "nat \<Rightarrow> nat" where
  "left_len n = 2 ^ (bits_Len (n - 1) - 1)"

lemma bits_Len_exact: "2 ^ m \<le> n \<Longrightarrow> n < 2 ^ Suc m \<Longrightarrow> bits_Len n = Suc m"
proof (induction m arbitrary: n)
  case 0
  then have "n = Suc 0" by simp
  then show ?case by (simp add: bits_Len.simps [of "Suc 0"] bits_Len.simps [of 0])
next
  case (Suc m)
  then have "2 ^ m \<le> n div 2" "n div 2 < 2 ^ Suc m" "n \<noteq> 0" by (auto simp: div_less_iff_less_mult)
  then show ?case using Suc.IH by (simp add: bits_Len.simps [of n])
qed

lemma left_len_exact: "2 ^ h < n \<Longrightarrow> n \<le> 2 ^ Suc h \<Longrightarrow> left_len n = 2 ^ h"
proof -
  assume "2 ^ h < n" "n \<le> 2 ^ Suc h"
  then have "bits_Len (n - 1) = Suc h" using bits_Len_exact [of h "n - 1"] by simp
  then show ?thesis by (simp add: left_len_def)
qed

lemma between_powers: "1 < n \<Longrightarrow> \<exists>h. 2 ^ h < n \<and> n \<le> 2 ^ Suc h" for n :: nat
proof -
  assume n: "1 < n"
  then have b: "2 ^ (bits_Len (n - 1) - 1) \<le> n - 1" "n - 1 < 2 ^ bits_Len (n - 1)" using bits_Len_bounds [of "n - 1"] by auto
  have "bits_Len (n - 1) \<noteq> 0" using n unfolding bits_Len.simps [of "n - 1"] by simp
  then obtain m where m: "bits_Len (n - 1) = Suc m" using not0_implies_Suc by blast
  have "2 ^ m < n" using b(1) n unfolding m diff_Suc_1 by linarith
  moreover have "n \<le> 2 ^ Suc m" using b(2) n unfolding m by linarith
  ultimately show ?thesis by blast
qed

lemma left_len_bounds: "1 < n \<Longrightarrow> 0 < left_len n \<and> left_len n < n"
  using between_powers [of n] left_len_exact by fastforce

lemma leftCount_left_len: "n \<le> 2 ^ 64 \<Longrightarrow> 1 < n \<Longrightarrow> leftCount n = left_len n"
proof -
  assume n: "n \<le> 2 ^ 64" "1 < n"
  have "n + 2 ^ 64 - 1 = (n - 1) + 2 ^ 64" "n - 1 < 2 ^ 64" using n by simp_all
  then have "u64 (n + 2 ^ 64 - 1) = n - 1" unfolding u64_def by (metis mod_add_self2 mod_less)
  then show ?thesis by (simp add: leftCount_def left_len_def)
qed

function spanCV :: "'n guts \<Rightarrow> (nat \<Rightarrow> bytes) \<Rightarrow> nat \<Rightarrow> nat \<Rightarrow> words" where
  "spanCV G ch i n =
     (if n \<le> 1 then leafCV G ch i
      else parentCV G (spanCV G ch i (left_len n)) (spanCV G ch (i + left_len n) (n - left_len n)))"
  by pat_completeness auto
termination by (relation "measure (\<lambda>(_, _, _, n). n)") (use left_len_bounds in auto)

declare spanCV.simps [simp del]

lemma pow_lt: "k < h \<Longrightarrow> 2 * 2 ^ k \<le> (2 :: nat) ^ h"
  by (metis Suc_leI power_Suc power_increasing one_le_numeral)

lemma spanCV_perfect: "spanCV G ch i (2 ^ h) = pcv G ch h i"
proof (induction h arbitrary: i)
  case (Suc h)
  have "left_len (2 ^ Suc h) = 2 ^ h" by (rule left_len_exact) simp_all
  moreover have "\<not> (2 :: nat) ^ Suc h \<le> 1" using power_gt1 [of "2 :: nat" h] by simp
  ultimately show ?case unfolding spanCV.simps [of G ch i "2 ^ Suc h"] using Suc by simp
qed (simp add: spanCV.simps)

lemma spanCV_split:
  assumes "2 ^ h < n" and "n \<le> 2 ^ Suc h"
  shows "spanCV G ch i n = parentCV G (pcv G ch h i) (spanCV G ch (i + 2 ^ h) (n - 2 ^ h))"
proof -
  have "\<not> n \<le> 1" using assms(1) le_less_trans [of 1 "2 ^ h" n] by simp
  then show ?thesis unfolding spanCV.simps [of G ch i n] using left_len_exact [OF assms] by (simp add: spanCV_perfect)
qed

lemma pcv_cong: "(\<And>j. i \<le> j \<Longrightarrow> j < i + 2 ^ h \<Longrightarrow> ch j = ch' j) \<Longrightarrow> pcv G ch h i = pcv G ch' h i"
proof (induction h arbitrary: i)
  case (Suc h)
  show ?case using Suc.IH [of i] Suc.IH [of "i + 2 ^ h"] Suc.prems by simp
qed (simp add: leafCV_def)

section \<open>The stack\<close>

text \<open>A stack, top first, that tiles the chunks from \<open>a\<close> to \<open>c\<close> with aligned subtrees of the body's tree, each
  maximal: its parent does not lie within.\<close>

fun tiled :: "'n guts \<Rightarrow> (nat \<Rightarrow> bytes) \<Rightarrow> nat \<Rightarrow> nat \<Rightarrow> node list \<Rightarrow> bool" where
  "tiled G ch a c [] \<longleftrightarrow> a = c"
| "tiled G ch a c (s # st) \<longleftrightarrow>
     nd_pos s + 2 ^ nd_height s = c \<and> 2 ^ nd_height s dvd nd_pos s \<and> nd_cv s = pcv G ch (nd_height s) (nd_pos s)
     \<and> tiled G ch a (nd_pos s) st"

definition topmost :: "nat \<Rightarrow> nat \<Rightarrow> node \<Rightarrow> bool" where
  "topmost a c s \<longleftrightarrow>
     (if even (nd_pos s div 2 ^ nd_height s) then c < nd_pos s + 2 ^ (nd_height s + 1) else nd_pos s < a + 2 ^ nd_height s)"

definition maximal :: "nat \<Rightarrow> nat \<Rightarrow> node list \<Rightarrow> bool" where
  "maximal a c st \<longleftrightarrow> (\<forall>s \<in> set st. topmost a c s)"

lemma maximal_Cons [simp]: "maximal a c (s # st) \<longleftrightarrow> topmost a c s \<and> maximal a c st"
  by (auto simp: maximal_def)

lemma maximal_Nil [simp]: "maximal a c []"
  by (simp add: maximal_def)

lemma tiled_le: "tiled G ch a c st \<Longrightarrow> a \<le> c"
  by (induction st arbitrary: c) (auto intro: trans_le_add1)

lemma tiled_mem: "tiled G ch a c st \<Longrightarrow> t \<in> set st \<Longrightarrow>
  a \<le> nd_pos t \<and> nd_pos t + 2 ^ nd_height t \<le> c \<and> 2 ^ nd_height t dvd nd_pos t \<and> nd_cv t = pcv G ch (nd_height t) (nd_pos t)"
proof (induction st arbitrary: c)
  case (Cons s st)
  then show ?case using tiled_le [of G ch a "nd_pos s" st] by fastforce
qed simp

lemma tiled_below: "tiled G ch a c (s # st) \<Longrightarrow> t \<in> set st \<Longrightarrow> nd_pos t + 2 ^ nd_height t < c"
  using tiled_mem [of G ch a "nd_pos s" st t] by (auto intro: le_less_trans)

text \<open>Dyadic facts.\<close>

lemma dvd_odd: "2 ^ h dvd p \<Longrightarrow> odd (p div 2 ^ h) \<longleftrightarrow> \<not> 2 ^ Suc h dvd p" for p :: nat
  by (auto elim!: dvdE simp: mult.commute)

lemma dvd_shift: "2 ^ h dvd c \<Longrightarrow> 2 ^ h \<le> c \<Longrightarrow> 2 ^ h dvd c - 2 ^ h" for c :: nat
  by (simp add: dvd_diff_nat)

lemma odd_before: "2 ^ Suc h dvd c \<Longrightarrow> p + 2 ^ h = c \<Longrightarrow> 2 ^ h dvd p \<and> odd (p div 2 ^ h)" for c :: nat
proof -
  assume c: "2 ^ Suc h dvd c" "p + 2 ^ h = c"
  then obtain k where k: "p + 2 ^ h = 2 * 2 ^ h * k" by auto
  then have "k \<noteq> 0" by (metis add_is_0 mult_0_right power_not_zero zero_neq_numeral)
  then obtain j where "k = Suc j" using not0_implies_Suc by blast
  then have "p = 2 ^ h * (2 * j + 1)" using k by (simp add: algebra_simps)
  then show ?thesis by simp
qed

lemma even_after: "2 ^ h dvd p \<Longrightarrow> odd (p div 2 ^ h) \<Longrightarrow> q + 2 ^ h = p \<Longrightarrow> 2 ^ Suc h dvd q" for p :: nat
proof -
  assume p: "2 ^ h dvd p" "odd (p div 2 ^ h)" "q + 2 ^ h = p"
  then obtain k where k: "p = 2 ^ h * k" by auto
  then obtain j where "k = 2 * j + 1" using p(2) by (auto elim: oddE)
  then have "q = 2 * 2 ^ h * j" using k p(3) by (simp add: algebra_simps)
  then show ?thesis by simp
qed

lemma pow_dvd: "2 ^ h dvd (c :: nat) \<Longrightarrow> k \<le> h \<Longrightarrow> 2 ^ k dvd c"
  by (meson dvd_trans le_imp_power_dvd)

text \<open>Where the left sibling of an aligned position lies within the chunks seen, it is the top of the stack.\<close>

lemma sibling_on_top:
  assumes "tiled G ch a c st" and "maximal a c st" and "2 ^ h dvd c" and "odd (c div 2 ^ h)" and "a + 2 ^ h \<le> c"
  shows "\<exists>s st'. st = s # st' \<and> nd_height s = h"
proof (cases st)
  case Nil
  then show ?thesis using assms(1,5) by simp
next
  case (Cons s st')
  define k where "k = nd_height s"
  have s: "nd_pos s + 2 ^ k = c" "2 ^ k dvd nd_pos s" "topmost a c s" using assms(1,2) Cons by (simp_all add: k_def)
  have dc: "2 ^ k dvd c" using s(1,2) by (metis dvd_add dvd_refl)
  have "\<not> h < k" using pow_dvd [OF dc, of "Suc h"] assms(3,4) dvd_odd by fastforce
  moreover have "\<not> k < h"
  proof
    assume kh: "k < h"
    then have "odd (nd_pos s div 2 ^ k)" using odd_before [OF pow_dvd [OF assms(3)] s(1)] by simp
    then have "nd_pos s < a + 2 ^ k" using s(3) by (simp add: topmost_def k_def)
    then show False using s(1) assms(5) pow_lt [OF kh] by linarith
  qed
  ultimately show ?thesis using Cons k_def by fastforce
qed

text \<open>A pushed subtree leaves the older entries maximal, unless it is the right sibling of the top.\<close>

lemma topmost_after:
  assumes "tiled G ch a p st" and "maximal a p st" and "2 ^ h dvd p" and "p + 2 ^ h = c" and "t \<in> set st"
    and "\<And>s st'. st = s # st' \<Longrightarrow> nd_height s \<noteq> h \<or> even (p div 2 ^ h)"
  shows "topmost a c t"
proof (rule ccontr)
  define k q where "k = nd_height t" and "q = nd_pos t"
  note t = tiled_mem [OF assms(1,5), folded k_def q_def]
  have "topmost a p t" using assms(2,5) by (simp add: maximal_def)
  moreover assume "\<not> topmost a c t"
  ultimately have e: "even (q div 2 ^ k)" "p < q + 2 * 2 ^ k" "q + 2 * 2 ^ k \<le> c"
    by (auto simp: topmost_def k_def q_def split: if_splits)
  then have dq: "2 ^ Suc k dvd q" using t dvd_odd by blast
  have hk: "h \<le> k"
  proof (rule ccontr)
    assume "\<not> h \<le> k"
    then have "2 ^ Suc k dvd p" using pow_dvd [OF assms(3), of "Suc k"] by simp
    then obtain x y where xy: "p = 2 ^ Suc k * x" "q = 2 ^ Suc k * y" using dq by (auto elim!: dvdE)
    moreover have "q < p" using t by (meson le_add1 less_le_trans less_add_same_cancel1 zero_less_numeral zero_less_power)
    ultimately have "y < x" by simp
    then have "2 ^ Suc k * Suc y \<le> 2 ^ Suc k * x" by (intro mult_le_mono2) simp
    then show False using e(2) unfolding xy by simp
  qed
  have "2 ^ Suc k dvd q + 2 * 2 ^ k" using dq by (simp add: dvd_add)
  then obtain x y where xy: "q + 2 * 2 ^ k = 2 ^ h * x" "p = 2 ^ h * y"
    using pow_dvd [of "Suc k" "q + 2 * 2 ^ k" h] assms(3) hk by (auto elim!: dvdE)
  then have "y < x" "2 ^ h * x \<le> 2 ^ h * Suc y" using e(2,3) assms(4) by auto
  then have "y < x" "x \<le> Suc y" using mult_le_cancel1 [of "2 ^ h" x "Suc y"] by (simp_all del: mult_Suc_right)
  then have "x = Suc y" by simp
  then have c: "q + 2 * 2 ^ k = c" using xy assms(4) by simp
  then have "2 ^ Suc h dvd c" using pow_dvd [of "Suc k" c "Suc h"] \<open>2 ^ Suc k dvd q + 2 * 2 ^ k\<close> hk by simp
  then have odd: "odd (p div 2 ^ h)" using odd_before assms(4) by blast
  have "2 ^ h \<le> (2 :: nat) ^ k" using hk by simp
  then have "a + 2 ^ h \<le> p" using t c assms(4) by linarith
  then obtain s st' where s: "st = s # st'" "nd_height s = h" using sibling_on_top [OF assms(1-3) odd] by blast
  then show False using assms(6) odd by blast
qed

text \<open>The block that the chunks up to \<open>c\<close> complete, if any.\<close>

definition completes :: "nat \<Rightarrow> nat \<Rightarrow> nat \<Rightarrow> bool" where
  "completes bh a c \<longleftrightarrow> 2 ^ bh dvd c \<and> a + 2 ^ bh \<le> c"

definition blockAt :: "'n guts \<Rightarrow> (nat \<Rightarrow> bytes) \<Rightarrow> nat \<Rightarrow> nat \<Rightarrow> node" where
  "blockAt G ch bh p = mkNode (pcv G ch bh p) bh p"

lemma not_completes:
  assumes "tiled G ch a p st" and "maximal a p st" and "2 ^ h dvd p" and "p + 2 ^ h = c" and "h < bh"
    and "\<And>s st'. st = s # st' \<Longrightarrow> nd_height s \<noteq> h \<or> even (p div 2 ^ h)"
  shows "\<not> completes bh a c"
proof
  assume c: "completes bh a c"
  then have odd: "odd (p div 2 ^ h)" using odd_before [of h c p] pow_dvd [of bh c "Suc h"] assms(4,5) by (simp add: completes_def)
  have "a + 2 ^ h \<le> p" using c pow_lt [OF assms(5)] assms(4) by (simp add: completes_def)
  then obtain s st' where s: "st = s # st'" "nd_height s = h" using sibling_on_top [OF assms(1-3) odd] by blast
  then show False using assms(6) odd by blast
qed

lemma pushed_topmost:
  assumes "tiled G ch a p st" and "maximal a p st" and "2 ^ h dvd p" and "p + 2 ^ h = c"
    and "\<And>s st'. st = s # st' \<Longrightarrow> nd_height s \<noteq> h \<or> even (p div 2 ^ h)"
  shows "topmost a c (mkNode cv h p)"
proof (cases "even (p div 2 ^ h)")
  case False
  then have "\<not> a + 2 ^ h \<le> p" using sibling_on_top [OF assms(1-3)] assms(5) by blast
  then show ?thesis using False by (simp add: topmost_def mkNode_def)
qed (use assms(4) in \<open>auto simp: topmost_def mkNode_def\<close>)

lemma mkNode_sel [simp]: "nd_cv (mkNode cv h p) = cv" "nd_height (mkNode cv h p) = h" "nd_pos (mkNode cv h p) = p"
  by (simp_all add: mkNode_def)

theorem pushLoop_tiled:
  assumes "tiled G ch a p st" and "maximal a p st" and "2 ^ h dvd p" and "p + 2 ^ h = c" and "c < 2 ^ 64"
  shows "\<exists>st'. pushLoop G bh (pcv G ch h p) h p st bs =
      (st', if h \<le> bh \<and> completes bh a c then bs @ [blockAt G ch bh (c - 2 ^ bh)] else bs)
    \<and> tiled G ch a c st' \<and> maximal a c st'"
  using assms
proof (induction st arbitrary: h p bs)
  case Nil
  have "\<not> completes bh a c" if "h < bh" using not_completes [OF Nil(1-4) that] by simp
  moreover have "completes h a c" using Nil by (auto simp: completes_def)
  ultimately show ?case using Nil pushed_topmost [OF Nil(1-4)] by (auto simp: blockAt_def)
next
  case (Cons s st)
  show ?case
  proof (cases "nd_height s \<noteq> h \<or> even (p div 2 ^ h)")
    case True
    have "\<not> completes bh a c" if "h < bh" using not_completes [OF Cons.prems(1-4) that] True by simp
    moreover have "completes h a c" using Cons.prems(3,4) tiled_le [OF Cons.prems(1)] by (auto simp: completes_def)
    moreover have "maximal a c (mkNode (pcv G ch h p) h p # s # st)"
      unfolding maximal_Cons using pushed_topmost [OF Cons.prems(1-4)] topmost_after [OF Cons.prems(1-4)] True
      by (auto simp: maximal_def)
    ultimately show ?thesis using True Cons.prems by (auto simp: blockAt_def Let_def)
  next
    case False
    define q where "q = nd_pos s"
    have s: "q + 2 ^ h = p" "nd_cv s = pcv G ch h q" "tiled G ch a q st" "maximal a p st" "nd_height s = h"
      using Cons.prems(1,2) False by (simp_all add: q_def)
    have q: "2 ^ Suc h dvd q" "q + 2 ^ Suc h = c" using even_after [OF Cons.prems(3) _ s(1)] False Cons.prems(4) s(1) by simp_all
    have max: "maximal a q st" using s(1,4) by (auto simp: maximal_def topmost_def)
    have "(2 :: nat) ^ h < 2 ^ 64" using Cons.prems(4,5) by linarith
    then have "(h + 1) mod 256 = Suc h" using power_less_imp_less_exp [of "2 :: nat" h 64] by simp
    moreover have "parentCV G (nd_cv s) (pcv G ch h p) = pcv G ch (Suc h) q" using s(1,2) by simp
    moreover have "h = bh \<Longrightarrow> completes bh a c \<and> c - 2 ^ bh = p"
      using Cons.prems(3,4) tiled_le [OF s(3)] s(1) by (auto simp: completes_def)
    ultimately show ?thesis
      using Cons.IH [OF s(3) max q Cons.prems(5), of "if h = bh then bs @ [mkNode (pcv G ch h p) h p] else bs"] False
      by (auto simp: Let_def blockAt_def q_def)
  qed
qed

section \<open>Folding a stack\<close>

definition spanNode :: "'n guts \<Rightarrow> (nat \<Rightarrow> bytes) \<Rightarrow> nat \<Rightarrow> nat \<Rightarrow> 'n" where
  "spanNode G ch i n =
     (if n \<le> 1 then CompressChunk G (ch i) i 0
      else ParentNode G (spanCV G ch i (left_len n)) (spanCV G ch (i + left_len n) (n - left_len n)) 0)"

lemma spanNode_CV: "ChainingValue G (spanNode G ch i n) = spanCV G ch i n"
  by (simp add: spanNode_def spanCV.simps [of G ch i n] leafCV_def parentCV_def)

lemma spanNode_split:
  assumes "2 ^ h < n" and "n \<le> 2 ^ Suc h"
  shows "spanNode G ch i n = ParentNode G (pcv G ch h i) (spanCV G ch (i + 2 ^ h) (n - 2 ^ h)) 0"
proof -
  have "\<not> n \<le> 1" using assms(1) le_less_trans [of 1 "2 ^ h" n] by simp
  then show ?thesis using left_len_exact [OF assms] by (simp add: spanNode_def spanCV_perfect)
qed

definition rising :: "node list \<Rightarrow> bool" where
  "rising st \<longleftrightarrow> sorted_wrt (<) (map nd_height st)"

lemma rising_Cons2 [simp]: "rising (s # t # st) \<longleftrightarrow> nd_height s < nd_height t \<and> rising (t # st)"
  unfolding rising_def by (simp add: sorted_wrt2 del: sorted_wrt.simps(2))

lemma rising_small [simp]: "rising []" "rising [s]"
  by (simp_all add: rising_def)

lemma rising_append: "rising (xs @ ys) \<Longrightarrow> rising xs \<and> rising ys \<and> (\<forall>x \<in> set xs. \<forall>y \<in> set ys. nd_height x < nd_height y)"
  by (simp add: rising_def sorted_wrt_append)

text \<open>From an aligned start, or from the start of the body, the heights rise from the top of the stack down.\<close>

lemma tiled_rising:
  assumes "tiled G ch a c st" and "maximal a c st" and "2 ^ k dvd a" and "c \<le> a + 2 ^ k"
  shows "rising st"
  using assms(1,2,4)
proof (induction st arbitrary: c)
  case (Cons s st)
  define p where "p = nd_pos s"
  have s: "p + 2 ^ nd_height s = c" "tiled G ch a p st" using Cons.prems(1) by (simp_all add: p_def)
  have m: "maximal a c st" "maximal a p st" using Cons.prems(2) s(1) by (auto simp: maximal_def topmost_def)
  have IH: "rising st" using Cons.IH [OF s(2) m(2)] Cons.prems(3) s(1) by simp
  show ?case
  proof (cases st)
    case (Cons t st')
    define q h where "q = nd_pos t" and "h = nd_height t"
    have t: "q + 2 ^ h = p" "2 ^ h dvd q" "topmost a c t" "a \<le> q" using s(2) m(1) Cons tiled_le by (auto simp: q_def h_def)
    have ev: "even (q div 2 ^ h)"
    proof (rule ccontr)
      assume odd: "odd (q div 2 ^ h)"
      then have q: "q < a + 2 ^ h" using t(3) by (simp add: topmost_def q_def h_def)
      have "2 ^ h < (2 :: nat) ^ k"
      proof -
        have "2 ^ h + a < c" using s(1) t(1,4) by (metis add.commute add_le_mono1 le_less_trans less_add_same_cancel1 zero_less_numeral zero_less_power)
        then show ?thesis using Cons.prems(3) by linarith
      qed
      then have "Suc h \<le> k" using power_less_imp_less_exp [of "2 :: nat" h k] by simp
      then have da: "2 ^ Suc h dvd a" using pow_dvd assms(3) by blast
      then obtain x y where "q = 2 ^ h * x" "a = 2 ^ h * y" using t(2) pow_dvd [OF da, of h] by (auto elim!: dvdE)
      then have "2 ^ h * x < 2 ^ h * Suc y" "2 ^ h * y \<le> 2 ^ h * x" using q t(4) by simp_all
      then have "x < Suc y" "y \<le> x" by (simp_all del: mult_Suc_right)
      then have "q = a" using \<open>q = 2 ^ h * x\<close> \<open>a = 2 ^ h * y\<close> by simp
      then show False using odd da t(2) dvd_odd by blast
    qed
    then have "c < q + 2 * 2 ^ h" using t(3) by (simp add: topmost_def q_def h_def)
    then have "2 ^ nd_height s < (2 :: nat) ^ h" using s(1) t(1) by linarith
    then have "nd_height s < h" using power_less_imp_less_exp [of "2 :: nat" "nd_height s" h] by simp
    then show ?thesis using IH Cons by (simp add: h_def)
  qed simp
qed simp

text \<open>Folding rising entries onto a span that is no larger than the lowest of them.\<close>

lemma foldNodes_span:
  assumes "tiled G ch a c st" and "rising st" and "0 < n" and "\<And>s st'. st = s # st' \<Longrightarrow> n \<le> 2 ^ nd_height s"
  shows "foldNodes G st (spanNode G ch c n) = spanNode G ch a (n + (c - a))"
  using assms
proof (induction st arbitrary: c n)
  case Nil
  then show ?case by (simp add: foldNodes_def)
next
  case (Cons s st)
  define p h where "p = nd_pos s" and "h = nd_height s"
  have s: "p + 2 ^ h = c" "nd_cv s = pcv G ch h p" "tiled G ch a p st" using Cons.prems(1) by (simp_all add: p_def h_def)
  have n: "n \<le> 2 ^ h" using Cons.prems(4) by (simp add: h_def)
  have "spanNode G ch p (n + 2 ^ h) = ParentNode G (nd_cv s) (ChainingValue G (spanNode G ch c n)) 0"
    using spanNode_split [of h "n + 2 ^ h" G ch p] n Cons.prems(3) s by (simp add: spanNode_CV)
  then have "foldNodes G (s # st) (spanNode G ch c n) = foldNodes G st (spanNode G ch p (n + 2 ^ h))" by (simp add: foldNodes_def)
  also have "\<dots> = spanNode G ch a (n + 2 ^ h + (p - a))"
  proof (rule Cons.IH [OF s(3)])
    show "rising st" using Cons.prems(2) by (cases st) simp_all
    show "n + 2 ^ h \<le> 2 ^ nd_height t" if "st = t # st'" for t st'
    proof -
      have "h < nd_height t" using Cons.prems(2) that by (simp add: h_def)
      then show ?thesis using pow_lt n by fastforce
    qed
  qed simp
  also have "n + 2 ^ h + (p - a) = n + (c - a)" using s(1) tiled_le [OF s(3)] by simp
  finally show ?case .
qed

lemma tiled_append: "tiled G ch a c (xs @ ys) \<Longrightarrow> \<exists>q. tiled G ch q c xs \<and> tiled G ch a q ys"
proof (induction xs arbitrary: c)
  case (Cons x xs)
  then obtain q where "tiled G ch q (nd_pos x) xs" "tiled G ch a q ys" by auto
  then show ?case using Cons.prems by auto
qed auto

lemma rising_small_sum: "tiled G ch q c xs \<Longrightarrow> rising xs \<Longrightarrow> (\<And>x. x \<in> set xs \<Longrightarrow> nd_height x < k) \<Longrightarrow> c < q + 2 ^ k"
proof (induction xs arbitrary: q k rule: rev_induct)
  case (snoc t xs)
  obtain r where r: "tiled G ch r c xs" "tiled G ch q r [t]" using tiled_append [OF snoc.prems(1)] by blast
  note ri = rising_append [OF snoc.prems(2)]
  have "c < r + 2 ^ nd_height t" using snoc.IH [OF r(1)] ri by simp
  moreover have "r = q + 2 ^ nd_height t" using r(2) by auto
  moreover have "2 * 2 ^ nd_height t \<le> (2 :: nat) ^ k" using snoc.prems(3) [of t] pow_lt by simp
  ultimately show ?case by linarith
qed simp

lemma tiled_dvd: "tiled G ch a c st \<Longrightarrow> 2 ^ k dvd a \<Longrightarrow> (\<And>s. s \<in> set st \<Longrightarrow> k \<le> nd_height s) \<Longrightarrow> 2 ^ k dvd c"
proof (induction st arbitrary: c)
  case (Cons s st)
  then have "2 ^ k dvd nd_pos s" "nd_pos s + 2 ^ nd_height s = c" "k \<le> nd_height s" by auto
  then show ?case by (metis dvd_add le_imp_power_dvd)
qed simp

end
