(* ===== verification/Blake3_Hash.thy ===== *)
theory Blake3_Hash
  imports Blake3_Stack
begin

text \<open>
  The streaming hasher computes the BLAKE3 tree: however the bytes are cut into writes, the stack holds
  the maximal subtrees of the whole chunks flushed so far and the block list every complete block at
  the current block height, and finishing an object answers its root and the chaining values of its
  blocks.
\<close>

section \<open>Block heights\<close>

lemma sqrtLoop_ge: "c \<le> sqrtLoop sz c"
  by (induction sz c rule: sqrtLoop.induct) (subst sqrtLoop.simps, auto)

lemma sqrtLoop_stops: "24 \<le> sqrtLoop sz c \<or> sz \<le> 2 ^ (2 * sqrtLoop sz c + 15)"
  by (induction sz c rule: sqrtLoop.induct) (subst (1 2) sqrtLoop.simps, auto)

lemma sqrtLoop_least: "c \<le> d \<Longrightarrow> 24 \<le> d \<or> sz \<le> 2 ^ (2 * d + 15) \<Longrightarrow> sqrtLoop sz c \<le> d"
proof (induction sz c rule: sqrtLoop.induct)
  case (1 sz c)
  show ?case
  proof (cases "c < 24 \<and> sz > 2 ^ (2 * c + 15)")
    case True
    then have "c \<noteq> d" using 1(3) by (auto simp: chunkLog_def)
    then show ?thesis using 1 True sqrtLoop.simps [of sz c] by simp
  qed (use 1(2) sqrtLoop.simps [of sz c] in auto)
qed

lemma capLoop_ge: "c \<le> capLoop sz c"
  by (induction sz c rule: capLoop.induct) (subst capLoop.simps, auto)

lemma capLoop_stops: "38 \<le> capLoop sz c \<or> sz \<le> MaxBlocks * 2 ^ (capLoop sz c + chunkLog)"
  by (induction sz c rule: capLoop.induct) (subst (1 2) capLoop.simps, auto simp: chunkLog_def)

lemma capLoop_least: "c \<le> d \<Longrightarrow> 38 \<le> d \<or> sz \<le> MaxBlocks * 2 ^ (d + chunkLog) \<Longrightarrow> capLoop sz c \<le> d"
proof (induction sz c rule: capLoop.induct)
  case (1 sz c)
  show ?case
  proof (cases "c + chunkLog + 15 < 63 \<and> sz > MaxBlocks * 2 ^ (c + chunkLog)")
    case True
    then have "c \<noteq> d" using 1(3) by (auto simp: chunkLog_def)
    then show ?thesis using 1 True capLoop.simps [of sz c] by simp
  qed (use 1(2) capLoop.simps [of sz c] in auto)
qed

lemma ChunkLog_mono: "sz \<le> sz' \<Longrightarrow> ChunkLog sz \<le> ChunkLog sz'"
proof -
  assume le: "sz \<le> sz'"
  have "sqrtLoop sz MinChunkLog \<le> sqrtLoop sz' MinChunkLog"
    using sqrtLoop_stops [of sz' MinChunkLog] le by (intro sqrtLoop_least sqrtLoop_ge) auto
  also have "\<dots> \<le> ChunkLog sz'" unfolding ChunkLog_def by (rule capLoop_ge)
  finally show ?thesis
    using capLoop_stops [of sz' "sqrtLoop sz' MinChunkLog"] le unfolding ChunkLog_def by (intro capLoop_least) auto
qed

lemma ChunkLog_ge: "MinChunkLog \<le> ChunkLog sz"
  using sqrtLoop_ge [of MinChunkLog sz] capLoop_ge [of "sqrtLoop sz MinChunkLog" sz] unfolding ChunkLog_def by linarith

lemma ChunkLog_le: "ChunkLog sz \<le> 38"
proof -
  have "sqrtLoop sz MinChunkLog \<le> 24" by (intro sqrtLoop_least) (simp_all add: MinChunkLog_def)
  then show ?thesis unfolding ChunkLog_def by (intro capLoop_least) auto
qed

lemma ChunkLog_0: "ChunkLog 0 = MinChunkLog"
proof (rule antisym [OF _ ChunkLog_ge])
  have "sqrtLoop 0 MinChunkLog \<le> MinChunkLog" by (rule sqrtLoop_least) auto
  then show "ChunkLog 0 \<le> MinChunkLog" unfolding ChunkLog_def by (intro capLoop_least) (auto simp: MaxBlocks_def)
qed

lemma ChunkLog_cap: "sz < 2 ^ 63 \<Longrightarrow> sz \<le> MaxBlocks * (1024 * 2 ^ ChunkLog sz)"
proof -
  assume sz: "sz < 2 ^ 63"
  have "38 \<le> ChunkLog sz \<or> sz \<le> MaxBlocks * 2 ^ (ChunkLog sz + chunkLog)" unfolding ChunkLog_def by (rule capLoop_stops)
  moreover have "ChunkLog sz = 38" if "38 \<le> ChunkLog sz" using ChunkLog_le [of sz] that by simp
  ultimately show ?thesis using sz by (auto simp: power_add chunkLog_def MaxBlocks_def)
qed

section \<open>Complete blocks\<close>

definition up_div :: "nat \<Rightarrow> nat \<Rightarrow> nat" where
  "up_div n k = (n + k - 1) div k"

lemma up_div_le: "0 < k \<Longrightarrow> up_div n k \<le> j \<longleftrightarrow> n \<le> j * k"
  unfolding up_div_def less_Suc_eq_le [symmetric] by (subst div_less_iff_less_mult) auto

lemma up_div_ge: "s \<le> up_div s ChunkSize * ChunkSize"
  using up_div_le [of ChunkSize s "up_div s ChunkSize"] by (simp add: ChunkSize_def)

definition blocks_upto :: "'n guts \<Rightarrow> (nat \<Rightarrow> bytes) \<Rightarrow> nat \<Rightarrow> nat \<Rightarrow> nat \<Rightarrow> node list" where
  "blocks_upto G ch bh a c = map (\<lambda>j. blockAt G ch bh (j * 2 ^ bh)) [up_div a (2 ^ bh)..<c div 2 ^ bh]"

lemma up_div_half: "up_div a (2 ^ Suc h) = (up_div a (2 ^ h) + 1) div 2"
proof -
  have "up_div a (2 ^ Suc h) \<le> j \<longleftrightarrow> (up_div a (2 ^ h) + 1) div 2 \<le> j" for j
  proof -
    have "(up_div a (2 ^ h) + 1) div 2 \<le> j \<longleftrightarrow> up_div a (2 ^ h) \<le> 2 * j" by auto
    then show ?thesis using up_div_le [of "2 ^ Suc h" a j] up_div_le [of "2 ^ h" a "2 * j"] by (simp add: mult.assoc mult.left_commute)
  qed
  then show ?thesis by (metis le_antisym order_refl)
qed

lemma next_block:
  fixes c :: nat
  assumes "2 ^ h dvd c" and "h \<le> bh" and "c' = c + 2 ^ h"
  shows "c' div 2 ^ bh = (if 2 ^ bh dvd c' then Suc (c div 2 ^ bh) else c div 2 ^ bh)"
    and "2 ^ bh dvd c' \<Longrightarrow> c' = Suc (c div 2 ^ bh) * 2 ^ bh"
proof -
  obtain k where k: "c = 2 ^ h * k" using assms(1) by auto
  obtain m where m: "(2 :: nat) ^ bh = 2 ^ h * m" "0 < m"
    using assms(2) le_imp_power_dvd [of h bh "2 :: nat"] by (metis dvdE gr0I mult_0_right power_not_zero zero_neq_numeral)
  have c: "c' = 2 ^ h * Suc k" using assms(3) k by simp
  have e: "c' div 2 ^ bh = Suc k div m" "c div 2 ^ bh = k div m" "2 ^ bh dvd c' \<longleftrightarrow> m dvd Suc k"
    unfolding m k c by (simp_all add: div_mult_mult1 del: mult_Suc_right)
  show one: "c' div 2 ^ bh = (if 2 ^ bh dvd c' then Suc (c div 2 ^ bh) else c div 2 ^ bh)"
    unfolding e div_Suc by (auto simp: dvd_eq_mod_eq_0)
  show "c' = Suc (c div 2 ^ bh) * 2 ^ bh" if "2 ^ bh dvd c'" using one that by (metis dvd_div_mult_self)
qed

lemma blocks_upto_push:
  assumes "2 ^ h dvd c" and "h \<le> bh" and "c' = c + 2 ^ h"
  shows "blocks_upto G ch bh a c' = blocks_upto G ch bh a c @ (if completes bh a c' then [blockAt G ch bh (c' - 2 ^ bh)] else [])"
proof (cases "2 ^ bh dvd c'")
  case True
  note c' = next_block(2) [OF assms True]
  have "completes bh a c' \<longleftrightarrow> up_div a (2 ^ bh) \<le> c div 2 ^ bh"
    using True up_div_le [of "2 ^ bh" a] unfolding completes_def by (subst (2) c') simp
  moreover have "c' - 2 ^ bh = c div 2 ^ bh * 2 ^ bh" by (subst c') simp
  ultimately show ?thesis using True next_block(1) [OF assms] by (simp add: blocks_upto_def)
qed (use next_block(1) [OF assms] in \<open>simp add: blocks_upto_def completes_def\<close>)

lemma pairBlocks_upt:
  "hi * 2 ^ h < 2 ^ 64 \<Longrightarrow> pairBlocks G h (map (\<lambda>j. blockAt G ch h (j * 2 ^ h)) [lo..<hi]) =
     map (\<lambda>j. blockAt G ch (Suc h) (j * 2 ^ Suc h)) [(lo + 1) div 2..<hi div 2]"
proof (induction "hi - lo" arbitrary: lo rule: less_induct)
  case less
  show ?case
  proof (cases "Suc lo < hi")
    case False
    then have "hi \<le> lo \<or> hi = Suc lo" by auto
    then show ?thesis
    proof
      assume "hi = Suc lo"
      then have "[lo..<hi] = [lo]" by simp
      then show ?thesis using \<open>hi = Suc lo\<close> by simp
    qed simp
  next
    case True
    then have l: "[lo..<hi] = lo # Suc lo # [Suc (Suc lo)..<hi]" "[Suc lo..<hi] = Suc lo # [Suc (Suc lo)..<hi]"
      by (simp_all add: upt_conv_Cons)
    have b: "Suc lo * 2 ^ h < 2 ^ 64" using True less(2) by (meson le_less_trans less_imp_le mult_le_mono1)
    then have "(2 :: nat) ^ h < 2 ^ 64" "lo * 2 ^ h + 2 ^ h < 2 ^ 64" by simp_all
    then have "u64 (lo * 2 ^ h + shl1 h) = Suc lo * 2 ^ h" by (simp add: shl1_def u64_def)
    then have r: "nd_pos (blockAt G ch h (Suc lo * 2 ^ h)) = u64 (nd_pos (blockAt G ch h (lo * 2 ^ h)) + shl1 h)"
      by (simp add: blockAt_def)
    show ?thesis
    proof (cases "even lo")
      case ev: True
      then obtain m where m: "lo = 2 * m" by auto
      then have "m < hi div 2" using True by simp
      then have u: "[(lo + 1) div 2..<hi div 2] = m # [(Suc (Suc lo) + 1) div 2..<hi div 2]" using m by (simp add: upt_conv_Cons)
      have p: "parentCV G (pcv G ch h (lo * 2 ^ h)) (pcv G ch h (Suc lo * 2 ^ h)) = pcv G ch (Suc h) (m * 2 ^ Suc h)"
        using m by (simp add: algebra_simps)
      show ?thesis unfolding l(1) u list.map using less(1) [of "Suc (Suc lo)"] less(2) True ev r p m
        by (simp add: blockAt_def)
    next
      case False
      then have "(Suc lo + 1) div 2 = (lo + 1) div 2" by (auto elim!: oddE)
      then show ?thesis unfolding l(1) list.map using less(1) [of "Suc lo"] less(2) True False
        unfolding l(2) list.map by (simp add: blockAt_def)
    qed
  qed
qed

lemma pairBlocks_upto: "c < 2 ^ 64 \<Longrightarrow> pairBlocks G h (blocks_upto G ch h a c) = blocks_upto G ch (Suc h) a c"
proof -
  assume c: "c < 2 ^ 64"
  have "c div 2 ^ h * 2 ^ h < 2 ^ 64" using c by (meson div_times_less_eq_dividend le_less_trans)
  moreover have "c div 2 ^ Suc h = c div 2 ^ h div 2" by (simp add: div_mult2_eq mult.commute [of 2])
  ultimately show ?thesis unfolding blocks_upto_def up_div_half using pairBlocks_upt by metis
qed

section \<open>Pushing chunks\<close>

text \<open>What the stack and the blocks hold when the chunks from the hasher's offset up to \<open>c\<close> were pushed.\<close>

definition pushed :: "'n guts \<Rightarrow> (nat \<Rightarrow> bytes) \<Rightarrow> nat \<Rightarrow> Hasher \<Rightarrow> bool" where
  "pushed G ch c h \<longleftrightarrow>
     tiled G ch (hs_offset h) c (hs_stack h) \<and> maximal (hs_offset h) c (hs_stack h)
     \<and> hs_blocks h = blocks_upto G ch (hs_blockHeight h) (hs_offset h) c"

lemma push_frame [simp]:
  "hs_start (push G cv k p h) = hs_start h" "hs_offset (push G cv k p h) = hs_offset h" "hs_counter (push G cv k p h) = hs_counter h"
  "hs_size (push G cv k p h) = hs_size h" "hs_head (push G cv k p h) = hs_head h" "hs_skip (push G cv k p h) = hs_skip h"
  "hs_buf (push G cv k p h) = hs_buf h" "hs_blockHeight (push G cv k p h) = hs_blockHeight h" "hs_fixed (push G cv k p h) = hs_fixed h"
  by (simp_all add: push_def split_beta)

lemma pushChunk_frame [simp]:
  "hs_start (pushChunk G cv p h) = hs_start h" "hs_offset (pushChunk G cv p h) = hs_offset h" "hs_counter (pushChunk G cv p h) = hs_counter h"
  "hs_size (pushChunk G cv p h) = hs_size h" "hs_head (pushChunk G cv p h) = hs_head h" "hs_skip (pushChunk G cv p h) = hs_skip h"
  "hs_buf (pushChunk G cv p h) = hs_buf h" "hs_blockHeight (pushChunk G cv p h) = hs_blockHeight h" "hs_fixed (pushChunk G cv p h) = hs_fixed h"
  by (simp_all add: pushChunk_def)

lemma pushed_push:
  assumes "pushed G ch p h" and "2 ^ k dvd p" and "k \<le> hs_blockHeight h" and "p + 2 ^ k < 2 ^ 64"
  shows "pushed G ch (p + 2 ^ k) (push G (pcv G ch k p) k p h)"
proof -
  obtain st where "pushLoop G (hs_blockHeight h) (pcv G ch k p) k p (hs_stack h) (hs_blocks h) =
      (st, if k \<le> hs_blockHeight h \<and> completes (hs_blockHeight h) (hs_offset h) (p + 2 ^ k)
           then hs_blocks h @ [blockAt G ch (hs_blockHeight h) (p + 2 ^ k - 2 ^ hs_blockHeight h)] else hs_blocks h)"
    and "tiled G ch (hs_offset h) (p + 2 ^ k) st" "maximal (hs_offset h) (p + 2 ^ k) st"
    using pushLoop_tiled [OF _ _ assms(2) refl assms(4)] assms(1) unfolding pushed_def by blast
  then show ?thesis using assms(1,3) blocks_upto_push [OF assms(2,3) refl, of G ch "hs_offset h"] by (auto simp: pushed_def push_def)
qed

lemma pushed_pushChunk:
  assumes "pushed G ch p h" and "data = ch p" and "p + 1 < 2 ^ 64"
  shows "pushed G ch (p + 1) (pushChunk G data p h)"
  using pushed_push [OF assms(1), of 0] assms(2,3) by (simp add: pushChunk_def leafCV_def)

lemma pushed_update [simp]:
  "pushed G ch c (h\<lparr> hs_counter := n \<rparr>) = pushed G ch c h" "pushed G ch c (h\<lparr> hs_buf := b \<rparr>) = pushed G ch c h"
  "pushed G ch c (h\<lparr> hs_size := z \<rparr>) = pushed G ch c h" "pushed G ch c (h\<lparr> hs_head := b \<rparr>) = pushed G ch c h"
  "pushed G ch c (h\<lparr> hs_skip := z \<rparr>) = pushed G ch c h"
  by (simp_all add: pushed_def)

text \<open>Fields that only \<open>Write\<close> itself changes.\<close>

definition same_frame :: "Hasher \<Rightarrow> Hasher \<Rightarrow> bool" where
  "same_frame h h' \<longleftrightarrow> hs_start h' = hs_start h \<and> hs_offset h' = hs_offset h \<and> hs_size h' = hs_size h
     \<and> hs_head h' = hs_head h \<and> hs_skip h' = hs_skip h \<and> hs_fixed h' = hs_fixed h \<and> hs_blockHeight h' = hs_blockHeight h"

lemma same_frame_simps [simp]:
  "same_frame h h" "same_frame h (push G cv k p h') = same_frame h h'" "same_frame h (pushChunk G d p h') = same_frame h h'"
  "same_frame h (h'\<lparr> hs_counter := c \<rparr>) = same_frame h h'" "same_frame h (h'\<lparr> hs_buf := b \<rparr>) = same_frame h h'"
  by (simp_all add: same_frame_def)

lemma same_frame_trans: "same_frame h h' \<Longrightarrow> same_frame h' h'' \<Longrightarrow> same_frame h h''"
  by (simp add: same_frame_def)

lemma pushed_chunks:
  assumes "pushed G ch c h" and "c + n < 2 ^ 64" and "\<And>i. i < n \<Longrightarrow> f i = ch (c + i)"
  shows "pushed G ch (c + n) (fold (\<lambda>i. pushChunk G (f i) (u64 (c + i))) [0..<n] h)
    \<and> same_frame h (fold (\<lambda>i. pushChunk G (f i) (u64 (c + i))) [0..<n] h)
    \<and> hs_counter (fold (\<lambda>i. pushChunk G (f i) (u64 (c + i))) [0..<n] h) = hs_counter h"
  using assms(2,3)
proof (induction n)
  case (Suc n)
  then show ?case using pushed_pushChunk [of G ch "c + n" _ "f n"] by (simp add: u64_def)
qed (use assms(1) in simp)

section \<open>Feeding bytes\<close>

definition chunk :: "bytes \<Rightarrow> nat \<Rightarrow> bytes" where
  "chunk body i = take ChunkSize (drop (i * ChunkSize) body)"

text \<open>What \<open>guts.CompressBuffer\<close> promises: the node over a full buffer of chunks.\<close>

definition buffer_law :: "'n guts \<Rightarrow> bool" where
  "buffer_law G \<longleftrightarrow>
     (\<forall>buf k. length buf = bufChunks * ChunkSize \<longrightarrow>
        ChainingValue G (CompressBuffer G buf k 0) = pcv G (\<lambda>i. chunk buf (i - k)) 4 k)"

text \<open>The bytes of the body up to \<open>m\<close> were taken in: whole chunks up to the counter are pushed, the rest is
  buffered, and the last chunk is never pushed.\<close>

definition taken :: "'n guts \<Rightarrow> bytes \<Rightarrow> nat \<Rightarrow> Hasher \<Rightarrow> bool" where
  "taken G body m h \<longleftrightarrow>
     pushed G (chunk body) (hs_counter h) h \<and> hs_buf h = drop (hs_counter h * ChunkSize) (take m body)
     \<and> m \<le> hs_counter h * ChunkSize + bufChunks * ChunkSize
     \<and> (hs_counter h * ChunkSize < m \<or> hs_counter h = hs_offset h)"

lemma chunk_of_buffer:
  assumes "buf = take (n * ChunkSize) (drop (c * ChunkSize) body)" and "i < n"
  shows "chunk buf i = chunk body (c + i)"
proof -
  have "ChunkSize \<le> n * ChunkSize - i * ChunkSize" using assms(2) by (simp add: ChunkSize_def)
  then show ?thesis unfolding chunk_def assms(1) by (simp add: drop_take add_mult_distrib add.commute)
qed

lemma flush_taken:
  assumes "taken G body m h" and "length (hs_buf h) = bufChunks * ChunkSize" and "m \<le> length body" and "length body < 2 ^ 63"
    and "buffer_law G"
  shows "pushed G (chunk body) (hs_counter h + bufChunks) (flush G h)" and "same_frame h (flush G h)"
    and "hs_counter (flush G h) = hs_counter h + bufChunks" and "hs_buf (flush G h) = []" and "m = (hs_counter h + bufChunks) * ChunkSize"
proof -
  define c where "c = hs_counter h"
  have buf: "hs_buf h = drop (c * ChunkSize) (take m body)" and p: "pushed G (chunk body) c h" using assms(1) by (simp_all add: taken_def c_def)
  then have m: "m = (c + bufChunks) * ChunkSize" using assms(2,3) by (simp add: add_mult_distrib bufChunks_def ChunkSize_def)
  then show "m = (hs_counter h + bufChunks) * ChunkSize" by (simp add: c_def)
  have b: "hs_buf h = take (bufChunks * ChunkSize) (drop (c * ChunkSize) body)" using buf m by (simp add: drop_take add_mult_distrib)
  have small: "c + bufChunks < 2 ^ 63" using m assms(3,4) by (simp add: bufChunks_def ChunkSize_def)
  define f where "f i = take ChunkSize (drop (i * ChunkSize) (hs_buf h))" for i
  have f: "f i = chunk body (c + i)" if "i < bufChunks" for i using chunk_of_buffer [OF b that] by (simp add: f_def chunk_def)
  note chunks = pushed_chunks [OF p _ f, of bufChunks]
  have law: "ChainingValue G (CompressBuffer G (hs_buf h) c 0) = pcv G (chunk body) 4 c"
  proof -
    have "pcv G (\<lambda>i. chunk (hs_buf h) (i - c)) 4 c = pcv G (chunk body) 4 c"
      by (rule pcv_cong) (use chunk_of_buffer [OF b] in \<open>simp add: bufChunks_def\<close>)
    then show ?thesis using assms(2,5) by (simp add: buffer_law_def)
  qed
  have al: "c mod bufChunks = 0 \<Longrightarrow> 2 ^ 4 dvd c" by (simp add: bufChunks_def dvd_eq_mod_eq_0)
  note sub = pushed_push [OF p al]
  show "pushed G (chunk body) (hs_counter h + bufChunks) (flush G h)"
    unfolding flush_def Let_def c_def [symmetric] f_def [symmetric] law
    using sub chunks small by (auto simp: bufChunks_def)
  show "same_frame h (flush G h)" "hs_counter (flush G h) = hs_counter h + bufChunks" "hs_buf (flush G h) = []"
    unfolding flush_def Let_def c_def [symmetric] f_def [symmetric] using chunks small by (auto simp: u64_def c_def)
qed

lemma taken_counter: "taken G body m h \<Longrightarrow> hs_offset h * ChunkSize \<le> m \<Longrightarrow> hs_counter h * ChunkSize \<le> m"
  by (auto simp: taken_def)

text \<open>One round of the copy loop.\<close>

lemma fill_round:
  assumes "taken G body m h" and "hs_offset h * ChunkSize \<le> m" and "m + length p \<le> length body" and "length body < 2 ^ 63"
    and "buffer_law G" and "p = take (length p) (drop m body)" and "p \<noteq> []"
    and "h1 = (if length (hs_buf h) \<ge> bufChunks * ChunkSize then flush G h else h)"
    and "c = min (bufChunks * ChunkSize - length (hs_buf h1)) (length p)"
  shows "taken G body (m + c) (h1\<lparr> hs_buf := hs_buf h1 @ take c p \<rparr>)" and "same_frame h h1" and "c \<le> length p"
proof -
  have len: "length (hs_buf h) = m - hs_counter h * ChunkSize" "m \<le> hs_counter h * ChunkSize + bufChunks * ChunkSize"
    using assms(1,3) by (simp_all add: taken_def)
  have h1: "pushed G (chunk body) (hs_counter h1) h1 \<and> same_frame h h1 \<and> hs_counter h1 * ChunkSize \<le> m
    \<and> hs_buf h1 = drop (hs_counter h1 * ChunkSize) (take m body) \<and> m < hs_counter h1 * ChunkSize + bufChunks * ChunkSize"
  proof (cases "length (hs_buf h) \<ge> bufChunks * ChunkSize")
    case True
    then have "length (hs_buf h) = bufChunks * ChunkSize" using len by linarith
    note f = flush_taken [OF assms(1) this _ assms(4,5)]
    show ?thesis using f assms(3,8) True by (auto simp: bufChunks_def ChunkSize_def)
  next
    case False
    then show ?thesis using assms(1,8) len taken_counter [OF assms(1,2)] by (auto simp: taken_def)
  qed
  show "same_frame h h1" "c \<le> length p" using h1 assms(9) by simp_all
  have l1: "length (hs_buf h1) = m - hs_counter h1 * ChunkSize" using h1 assms(3) by simp
  then have "0 < c" "m + c \<le> hs_counter h1 * ChunkSize + bufChunks * ChunkSize" using h1 assms(7,9) by auto
  moreover have "take c p = take c (drop m body)" using assms(6,9) by (metis min.cobounded2 min.orderE take_take)
  then have "hs_buf h1 @ take c p = drop (hs_counter h1 * ChunkSize) (take (m + c) body)"
    using h1 assms(3) by (simp add: take_add)
  ultimately show "taken G body (m + c) (h1\<lparr> hs_buf := hs_buf h1 @ take c p \<rparr>)" using h1 by (simp add: taken_def)
qed

lemma fill_taken:
  assumes "taken G body m h" and "p \<noteq> [] \<Longrightarrow> hs_offset h * ChunkSize \<le> m" and "m + length p \<le> length body"
    and "length body < 2 ^ 63" and "buffer_law G" and "p = take (length p) (drop m body)"
  shows "taken G body (m + length p) (fill G p h) \<and> same_frame h (fill G p h)"
  using assms
proof (induction G p h arbitrary: m rule: fill.induct)
  case (1 G p h)
  show ?case
  proof (cases "p = []")
    case True
    then show ?thesis using 1(2) by (simp add: fill.simps)
  next
    case False
    define h1 where "h1 = (if length (hs_buf h) \<ge> bufChunks * ChunkSize then flush G h else h)"
    define c where "c = min (bufChunks * ChunkSize - length (hs_buf h1)) (length p)"
    define h2 where "h2 = h1\<lparr> hs_buf := hs_buf h1 @ take c p \<rparr>"
    note r = fill_round [OF 1(2) 1(3) [OF False] 1(4,5,6,7) False h1_def c_def, folded h2_def]
    have d: "drop c p = take (length (drop c p)) (drop (m + c) body)"
      using arg_cong [OF 1(7), of "drop c"] unfolding drop_take drop_drop length_drop by (simp add: add.commute)
    have sf: "same_frame h h2" using r(2) by (simp add: h2_def)
    then have off: "hs_offset h2 * ChunkSize \<le> m + c" using 1(3) [OF False] by (simp add: same_frame_def)
    have "fill G p h = fill G (drop c p) h2" unfolding fill.simps [of G p h] using False by (simp add: h1_def c_def h2_def Let_def)
    moreover have "taken G body (m + c + length (drop c p)) (fill G (drop c p) h2) \<and> same_frame h2 (fill G (drop c p) h2)"
      unfolding h2_def by (rule 1(1) [OF False h1_def c_def]) (use r(1,3) 1(4,5,6) d off in \<open>simp_all add: h2_def\<close>)
    ultimately show ?thesis using sf same_frame_trans r(3) by auto
  qed
qed

section \<open>Writes\<close>

lemma promoteTo_pushed:
  assumes "pushed G ch c h" and "c < 2 ^ 64"
  shows "pushed G ch c (promoteTo G cl h)
    \<and> hs_blockHeight (promoteTo G cl h) = (if hs_fixed h then hs_blockHeight h else max cl (hs_blockHeight h))
    \<and> promoteTo G cl h = h\<lparr> hs_blockHeight := hs_blockHeight (promoteTo G cl h), hs_blocks := hs_blocks (promoteTo G cl h) \<rparr>"
  using assms
proof (induction G cl h rule: promoteTo.induct)
  case (1 G cl h)
  show ?case
  proof (cases "\<not> hs_fixed h \<and> cl > hs_blockHeight h")
    case True
    have "pushed G ch c (promote G h)" using 1(2,3) pairBlocks_upto [of c G "hs_blockHeight h" ch "hs_offset h"]
      by (simp add: pushed_def promote_def)
    note IH = 1(1) [OF True this 1(3)]
    have e: "promoteTo G cl h = promoteTo G cl (promote G h)" using True by (simp add: promoteTo.simps [of G cl h])
    show ?thesis unfolding e using IH True by (auto simp: promote_def max_def)
  next
    case False
    then have "promoteTo G cl h = h" by (auto simp: promoteTo.simps [of G cl h])
    then show ?thesis using False 1(2) by auto
  qed
qed

text \<open>The hasher has been given the \<open>n\<close> bytes of the body from \<open>s\<close> on.\<close>

definition fed :: "'n guts \<Rightarrow> bytes \<Rightarrow> nat \<Rightarrow> nat \<Rightarrow> Hasher \<Rightarrow> bool" where
  "fed G body s n h \<longleftrightarrow>
     hs_start h = int s \<and> hs_size h = int n \<and> s + n \<le> length body \<and> hs_offset h = up_div s ChunkSize
     \<and> (let g = hs_offset h * ChunkSize - s
        in hs_head h = take (min n g) (drop s body) \<and> hs_skip h = int (g - min n g))
     \<and> taken G body (s + n) h \<and> (hs_fixed h \<or> hs_blockHeight h = ChunkLog (int n))"

lemma taken_frame: "same_frame h h' \<Longrightarrow> hs_counter h' = hs_counter h \<Longrightarrow> hs_buf h' = hs_buf h \<Longrightarrow> hs_stack h' = hs_stack h \<Longrightarrow>
  hs_blocks h' = hs_blocks h \<Longrightarrow> taken G body m h' = taken G body m h"
  by (simp add: taken_def same_frame_def pushed_def)

text \<open>The bytes a write adds to the head.\<close>

lemma head_taken:
  assumes "fed G body s n h" and "p = take (length p) (drop (s + n) body)" and "s + n + length p \<le> length body"
    and "c = (if hs_skip h > 0 then min (nat (hs_skip h)) (length p) else 0)" and "g = hs_offset h * ChunkSize - s"
  shows "c = min (n + length p) g - min n g" and "taken G body (s + n + c) h"
    and "hs_head h @ take c p = take (min (n + length p) g) (drop s body)"
    and "drop c p \<noteq> [] \<Longrightarrow> hs_offset h * ChunkSize \<le> s + n + c"
proof -
  have fd: "hs_head h = take (min n g) (drop s body)" "hs_skip h = int (g - min n g)" "taken G body (s + n) h"
    using assms(1,5) by (auto simp: fed_def Let_def)
  show c: "c = min (n + length p) g - min n g" using fd(2) assms(4) by (auto simp: min_def)
  show off: "drop c p \<noteq> [] \<Longrightarrow> hs_offset h * ChunkSize \<le> s + n + c" using c assms(5) by (auto simp: min_def split: if_splits)
  have sg: "s \<le> hs_offset h * ChunkSize" using assms(1) up_div_ge by (simp add: fed_def)
  have le: "hs_offset h \<le> hs_counter h" using fd(3) tiled_le unfolding taken_def pushed_def by blast
  show "taken G body (s + n + c) h"
  proof (cases "c = 0")
    case False
    then have b: "s + n + c \<le> hs_offset h * ChunkSize" using c assms(5) sg by (auto simp: min_def split: if_splits)
    then have "s + n < hs_offset h * ChunkSize" using False by linarith
    then have "s + n < hs_counter h * ChunkSize" using le by (meson less_le_trans mult_le_mono1)
    then have "hs_counter h = hs_offset h" using fd(3) by (simp add: taken_def)
    then show ?thesis using fd(3) b by (simp add: taken_def)
  qed (use fd(3) in simp)
  have "c \<le> length p" using c by (auto simp: min_def)
  then have "take c p = take c (drop n (drop s body))" using arg_cong [OF assms(2), of "take c"] by (simp add: add.commute min.absorb1)
  moreover have "min (n + length p) g = min n g + c" using c by (auto simp: min_def)
  moreover have "c = 0 \<or> min n g = n" using c by (auto simp: min_def)
  ultimately show "hs_head h @ take c p = take (min (n + length p) g) (drop s body)"
    unfolding fd(1) by (auto simp: take_add)
qed

theorem Write_fed:
  assumes "fed G body s n h" and "p = take (length p) (drop (s + n) body)" and "s + n + length p \<le> length body"
    and "length body < 2 ^ 63" and "buffer_law G"
  shows "fed G body s (n + length p) (h_Write G p h)"
    and "hs_fixed (h_Write G p h) = hs_fixed h" and "hs_fixed h \<Longrightarrow> hs_blockHeight (h_Write G p h) = hs_blockHeight h"
proof -
  define c g where "c = (if hs_skip h > 0 then min (nat (hs_skip h)) (length p) else 0)" and "g = hs_offset h * ChunkSize - s"
  define h1 where "h1 = h\<lparr> hs_head := hs_head h @ take c p, hs_skip := hs_skip h - int c \<rparr>"
  define h2 where "h2 = fill G (drop c p) h1"
  define h3 where "h3 = h2\<lparr> hs_size := int64 (hs_size h2 + int (length p)) \<rparr>"
  note a = head_taken [OF assms(1-3) c_def g_def]
  have cp: "c \<le> length p" using a(1) by (auto simp: min_def)
  have t1: "taken G body (s + n + c) h1" using a(2) by (simp add: h1_def taken_def)
  have d: "drop c p = take (length (drop c p)) (drop (s + n + c) body)"
    using arg_cong [OF assms(2), of "drop c"] unfolding drop_take drop_drop length_drop by (simp add: add.commute)
  have t2: "taken G body (s + n + length p) h2" "same_frame h1 h2"
    using fill_taken [OF t1 _ _ assms(4,5) d] a(4) assms(3) cp by (simp_all add: h2_def h1_def add.assoc)
  have fh: "hs_start h = int s" "hs_size h = int n" "hs_offset h = up_div s ChunkSize" "hs_skip h = int (g - min n g)"
    "hs_fixed h \<or> hs_blockHeight h = ChunkLog (int n)" using assms(1) g_def by (auto simp: fed_def Let_def)
  have sz: "hs_size h3 = int (n + length p)" using t2(2) fh(2) assms(3,4) by (simp add: h3_def h1_def same_frame_def int64_small)
  have t3: "taken G body (s + n + length p) h3" using t2(1) by (simp add: h3_def taken_def)
  have c64: "hs_counter h3 < 2 ^ 64"
  proof -
    have "hs_counter h3 * ChunkSize < s + n + length p \<or> hs_counter h3 = up_div s ChunkSize"
      using t3 t2(2) fh(3) by (auto simp: taken_def same_frame_def h1_def h3_def)
    moreover have "up_div s ChunkSize \<le> 2 ^ 54" using up_div_le [of ChunkSize s "2 ^ 54"] assms(3,4) by (simp add: ChunkSize_def)
    ultimately show ?thesis using assms(3,4) by (auto simp: ChunkSize_def)
  qed
  note pr = promoteTo_pushed [OF t3 [unfolded taken_def, THEN conjunct1] c64, of "ChunkLog (hs_size h3)"]
  have w: "h_Write G p h = promoteTo G (ChunkLog (hs_size h3)) h3"
    unfolding h_Write_def Let_def c_def h1_def h2_def h3_def by simp
  define h4 where "h4 = h_Write G p h"
  obtain z bs where h4: "h4 = h3\<lparr> hs_blockHeight := z, hs_blocks := bs \<rparr>" using pr unfolding w h4_def by blast
  have f3: "hs_start h3 = int s" "hs_offset h3 = up_div s ChunkSize" "hs_head h3 = hs_head h @ take c p"
    "hs_skip h3 = hs_skip h - int c" "hs_fixed h3 = hs_fixed h" "hs_blockHeight h3 = hs_blockHeight h"
    using t2(2) fh by (simp_all add: h3_def h1_def same_frame_def)
  have bh: "hs_blockHeight h4 = (if hs_fixed h then hs_blockHeight h else max (ChunkLog (int (n + length p))) (hs_blockHeight h))"
    using pr f3 sz unfolding w h4_def by simp
  have "ChunkLog (int n) \<le> ChunkLog (int (n + length p))" by (intro ChunkLog_mono) simp
  then have cl: "hs_fixed h4 \<or> hs_blockHeight h4 = ChunkLog (int (n + length p))" using bh fh(5) f3(5) h4 by (auto simp: max_def)
  have "pushed G (chunk body) (hs_counter h3) h4" using pr unfolding w h4_def by blast
  moreover have "hs_counter h4 = hs_counter h3" "hs_offset h4 = hs_offset h3" "hs_buf h4 = hs_buf h3" by (simp_all add: h4)
  ultimately have t4: "taken G body (s + n + length p) h4" using t3 by (simp add: taken_def)
  show "hs_fixed (h_Write G p h) = hs_fixed h" using h4 f3(5) unfolding h4_def [symmetric] by simp
  show "hs_blockHeight (h_Write G p h) = hs_blockHeight h" if "hs_fixed h" using bh that unfolding h4_def [symmetric] by simp
  have "hs_head h4 = take (min (n + length p) g) (drop s body)" "hs_skip h4 = int (g - min (n + length p) g)"
    using f3(3,4) h4 a(3) fh(4) a(1) by (auto simp: min_def)
  moreover have g4: "hs_offset h4 * ChunkSize - s = g" "hs_start h4 = int s" "hs_offset h4 = up_div s ChunkSize" "hs_size h4 = int (n + length p)"
    by (simp_all add: h4 f3 fh sz g_def)
  ultimately show "fed G body s (n + length p) (h_Write G p h)"
    unfolding fed_def Let_def h4_def [symmetric] g4(1) using t4 cl assms(3) by (auto simp: add.assoc g4)
qed

section \<open>A fresh hasher, and a sequence of writes\<close>

lemma int64_id: "- (2 ^ 63) \<le> z \<Longrightarrow> z < 2 ^ 63 \<Longrightarrow> int64 z = z"
  by (simp add: int64_def)

lemma blocks_upto_empty: "blocks_upto G ch bh a a = []"
proof -
  have "a \<le> up_div a (2 ^ bh) * 2 ^ bh" using up_div_le [of "2 ^ bh" a "up_div a (2 ^ bh)"] by simp
  then have "a div 2 ^ bh \<le> up_div a (2 ^ bh)" by (metis div_le_mono nonzero_mult_div_cancel_right power_not_zero zero_neq_numeral)
  then show ?thesis by (simp add: blocks_upto_def)
qed

lemma NewHasher_fed:
  assumes "s \<le> length body" and "length body < 2 ^ 62"
  shows "\<exists>h. NewHasher (int s) = Inr h \<and> fed G body s 0 h \<and> \<not> hs_fixed h"
proof -
  have s: "s < 2 ^ 62" using assms by simp
  then have "u64 (toU64 (int s) + ChunkSize - 1) div ChunkSize = up_div s ChunkSize"
    by (simp add: u64_def toU64_def up_div_def ChunkSize_def)
  moreover have b: "s \<le> up_div s ChunkSize * ChunkSize" "up_div s ChunkSize * ChunkSize \<le> s + 1023"
    using up_div_ge by (simp_all add: up_div_def ChunkSize_def)
  moreover have "int64 (int64 (int (up_div s ChunkSize) * int ChunkSize) - int s) = int (up_div s ChunkSize * ChunkSize - s)"
  proof -
    have "int (up_div s ChunkSize) * int ChunkSize = int (up_div s ChunkSize * ChunkSize)" by simp
    then show ?thesis using b s by (subst (2) int64_id) (simp_all add: int64_id of_nat_diff del: of_nat_mult)
  qed
  ultimately show ?thesis using assms(1)
    by (auto simp: NewHasher_def Let_def fed_def taken_def pushed_def blocks_upto_empty ChunkLog_0)
qed

lemma NewHasherAtChunkLog_fed:
  assumes "s \<le> length body" and "length body < 2 ^ 62" and "cl \<le> MaxChunkLog"
  shows "\<exists>h. NewHasherAtChunkLog (int s) cl = Inr h \<and> fed G body s 0 h \<and> hs_fixed h \<and> hs_blockHeight h = cl"
proof -
  obtain h where h: "NewHasher (int s) = Inr h" "fed G body s 0 h" using NewHasher_fed [OF assms(1,2)] by blast
  moreover have "hs_stack h = [] \<and> hs_blocks h = [] \<and> hs_counter h = hs_offset h" using h(1) by (auto simp: NewHasher_def Let_def split: if_splits)
  ultimately have "fed G body s 0 (h\<lparr> hs_blockHeight := cl, hs_fixed := True \<rparr>)"
    using up_div_ge [of s] by (simp add: fed_def taken_def pushed_def blocks_upto_empty trans_le_add1)
  then show ?thesis using h(1) assms(3) by (simp add: NewHasherAtChunkLog_def)
qed

lemma writes_fed:
  assumes "fed G body s n h" and "concat ps = take (length (concat ps)) (drop (s + n) body)" and "s + n + length (concat ps) \<le> length body"
    and "length body < 2 ^ 63" and "buffer_law G"
  shows "fed G body s (n + length (concat ps)) (fold (h_Write G) ps h)
    \<and> hs_fixed (fold (h_Write G) ps h) = hs_fixed h \<and> (hs_fixed h \<longrightarrow> hs_blockHeight (fold (h_Write G) ps h) = hs_blockHeight h)"
  using assms(1-3)
proof (induction ps arbitrary: n h)
  case (Cons p ps)
  have p: "p = take (length p) (drop (s + n) body)" using arg_cong [OF Cons.prems(2), of "take (length p)"] by simp
  have l: "s + n + length p \<le> length body" using Cons.prems(3) by simp
  note w = Write_fed [OF Cons.prems(1) p l assms(4,5)]
  have d: "concat ps = take (length (concat ps)) (drop (s + (n + length p)) body)"
    using arg_cong [OF Cons.prems(2), of "drop (length p)"] unfolding drop_take drop_drop by (simp add: ac_simps)
  have "s + (n + length p) + length (concat ps) \<le> length body" using Cons.prems(3) by simp
  from Cons.IH [OF w(1) d this] show ?case using w(2,3) by (simp add: add.assoc)
qed simp

section \<open>Draining\<close>

lemma drainChunks_pushed:
  assumes "pushed G ch (hs_counter h) h" and "hs_counter h + length cs < 2 ^ 64" and "\<And>i. i < length cs \<Longrightarrow> cs ! i = ch (hs_counter h + i)"
  shows "pushed G ch (hs_counter h + length cs) (drainChunks G cs h) \<and> hs_counter (drainChunks G cs h) = hs_counter h + length cs
    \<and> same_frame h (drainChunks G cs h)"
  using assms
proof (induction cs arbitrary: h)
  case (Cons c cs)
  define h' where "h' = (pushChunk G c (hs_counter h) h)\<lparr> hs_counter := u64 (hs_counter h + 1) \<rparr>"
  have c: "hs_counter h' = hs_counter h + 1" using Cons.prems(2) by (simp add: h'_def u64_def)
  have "pushed G ch (hs_counter h') h'" unfolding c unfolding h'_def using pushed_pushChunk [OF Cons.prems(1)] Cons.prems(2) Cons.prems(3) [of 0] by simp
  note IH = Cons.IH [OF this]
  have "cs ! i = ch (hs_counter h' + i)" if "i < length cs" for i using Cons.prems(3) [of "Suc i"] that c by simp
  moreover have "same_frame h h'" by (simp add: h'_def)
  ultimately show ?case unfolding drainChunks.simps h'_def [symmetric] using IH c Cons.prems(2) same_frame_trans [of h h'] by simp
qed simp

text \<open>After a drain, the chunks up to the last one are pushed and the last one is in hand.\<close>

lemma drain_taken:
  assumes "taken G body m h" and "m \<le> length body" and "length body < 2 ^ 63"
  shows "\<exists>h'. drain G h = (h', drop (hs_counter h' * ChunkSize) (take m body)) \<and> pushed G (chunk body) (hs_counter h') h'
    \<and> same_frame h h' \<and> (hs_offset h * ChunkSize < m \<longrightarrow> hs_counter h' * ChunkSize < m \<and> m \<le> (hs_counter h' + 1) * ChunkSize)
    \<and> (m \<le> hs_offset h * ChunkSize \<longrightarrow> hs_counter h' = hs_offset h)"
proof -
  define c buf where "c = hs_counter h" and "buf = hs_buf h"
  have t: "pushed G (chunk body) c h" "buf = drop (c * ChunkSize) (take m body)" "c * ChunkSize < m \<or> c = hs_offset h"
    using assms(1) by (simp_all add: taken_def c_def buf_def)
  have le: "hs_offset h \<le> c" using t(1) tiled_le unfolding pushed_def by blast
  show ?thesis
  proof (cases "c * ChunkSize < m")
    case False
    then have "buf = []" "c = hs_offset h" using t(2,3) by simp_all
    then show ?thesis using t(1) False unfolding drain_def c_def buf_def Let_def by (intro exI [of _ h]) simp
  next
    case True
    define k where "k = (length buf - 1) div ChunkSize"
    have lb: "length buf = m - c * ChunkSize" using t(2) assms(2) by simp
    have k: "(c + k) * ChunkSize < m" "m \<le> (c + k + 1) * ChunkSize" using True unfolding k_def lb ChunkSize_def by (simp_all add: algebra_simps)
    define cs where "cs = map (\<lambda>i. take ChunkSize (drop (i * ChunkSize) buf)) [0..<k]"
    have "take ChunkSize (drop (i * ChunkSize) buf) = chunk body (c + i)" if "i < k" for i
    proof -
      have "c * ChunkSize + i * ChunkSize + ChunkSize \<le> m" using that k(1) unfolding ChunkSize_def by simp
      then show ?thesis unfolding t(2) chunk_def by (simp add: drop_take add_mult_distrib add.commute min_absorb1)
    qed
    then have cs: "length cs = k" "\<And>i. i < length cs \<Longrightarrow> cs ! i = chunk body (hs_counter h + i)" by (simp_all add: cs_def c_def)
    have "c + k < 2 ^ 64" using k(1) assms(2,3) by (simp add: ChunkSize_def)
    note d = drainChunks_pushed [OF t(1) [unfolded c_def] _ cs(2)]
    have "pushed G (chunk body) (c + k) (drainChunks G cs h)" "hs_counter (drainChunks G cs h) = c + k" "same_frame h (drainChunks G cs h)"
      using d \<open>c + k < 2 ^ 64\<close> cs(1) by (simp_all add: c_def)
    moreover have "buf \<noteq> []" using lb True by auto
    then have "drain G h = ((drainChunks G cs h)\<lparr> hs_buf := [] \<rparr>, drop ((c + k) * ChunkSize) (take m body))"
      unfolding drain_def Let_def buf_def [symmetric] k_def [symmetric] cs_def [symmetric] by (simp add: t(2) add_mult_distrib add.commute)
    moreover have "hs_offset h * ChunkSize < m" using le True by (meson le_less_trans mult_le_mono1)
    ultimately show ?thesis using k by (intro exI [of _ "(drainChunks G cs h)\<lparr> hs_buf := [] \<rparr>"]) simp
  qed
qed

section \<open>Finishing an object\<close>

text \<open>The BLAKE3 hash of a body, and the chaining values of its blocks of \<open>2 ^ k\<close> chunks, the last of which may
  be short.\<close>

definition chunk_count :: "bytes \<Rightarrow> nat" where
  "chunk_count body = up_div (length body) ChunkSize"

definition blake3_root :: "'n guts \<Rightarrow> bytes \<Rightarrow> CV" where
  "blake3_root G body =
     bytesOf (ChainingValue G (orFlags G (FlagRoot G) (spanNode G (chunk body) 0 (chunk_count body))))"

definition blake3_blocks :: "'n guts \<Rightarrow> nat \<Rightarrow> bytes \<Rightarrow> CV list" where
  "blake3_blocks G k body =
     map (\<lambda>j. bytesOf (spanCV G (chunk body) (j * 2 ^ k) (min (2 ^ k) (chunk_count body - j * 2 ^ k))))
       [0..<up_div (chunk_count body) (2 ^ k)]"

lemma chunk_count_last:
  assumes "c * ChunkSize < length body" and "length body \<le> (c + 1) * ChunkSize"
  shows "chunk_count body = c + 1" and "chunk body c = drop (c * ChunkSize) body"
  using assms by (simp_all add: chunk_count_def up_div_def chunk_def ChunkSize_def)

text \<open>The entries below the block height, folded onto the last chunk, are the last block.\<close>

lemma last_block:
  assumes "tiled G ch 0 c st" and "rising st"
  shows "foldNodes G (takeWhile (\<lambda>s. nd_height s < k) st) (CompressChunk G (ch c) c 0) =
    spanNode G ch (c div 2 ^ k * 2 ^ k) (c + 1 - c div 2 ^ k * 2 ^ k)"
proof -
  define xs ys where "xs = takeWhile (\<lambda>s. nd_height s < k) st" and "ys = dropWhile (\<lambda>s. nd_height s < k) st"
  have st: "st = xs @ ys" by (simp add: xs_def ys_def)
  obtain q where q: "tiled G ch q c xs" "tiled G ch 0 q ys" using tiled_append assms(1) st by blast
  note ri = rising_append [OF assms(2) [unfolded st]]
  have low: "nd_height s < k" if "s \<in> set xs" for s using that unfolding xs_def by (metis set_takeWhileD)
  have "nd_height y \<ge> k" if "y \<in> set ys" for y
  proof (cases ys)
    case (Cons z zs)
    then have "\<not> nd_height z < k" unfolding ys_def by (metis dropWhile_eq_Cons_conv)
    moreover have "nd_height z \<le> nd_height y" using ri Cons that by (auto simp: rising_def)
    ultimately show ?thesis by simp
  qed (use that in simp)
  then have "2 ^ k dvd q" using tiled_dvd [OF q(2)] by simp
  then obtain j where j: "q = j * 2 ^ k" by (auto simp: mult.commute)
  have "c < q + 2 ^ k" "q \<le> c" using rising_small_sum [OF q(1) _ low] ri tiled_le [OF q(1)] by auto
  then have "c div 2 ^ k = j" unfolding j by (intro div_nat_eqI) (simp_all add: algebra_simps)
  moreover have "foldNodes G xs (spanNode G ch c 1) = spanNode G ch q (1 + (c - q))"
    by (rule foldNodes_span [OF q(1)]) (use ri in simp_all)
  moreover have "1 + (c - q) = c + 1 - q" using \<open>q \<le> c\<close> by simp
  moreover have "spanNode G ch c 1 = CompressChunk G (ch c) c 0" by (simp add: spanNode_def)
  ultimately show ?thesis using j unfolding xs_def by metis
qed

lemma blocks_listed:
  assumes "chunk_count body = c + 1"
  shows "map (\<lambda>l. bytesOf (nd_cv l)) (blocks_upto G (chunk body) k 0 c) @
      [bytesOf (spanCV G (chunk body) (c div 2 ^ k * 2 ^ k) (c + 1 - c div 2 ^ k * 2 ^ k))] = blake3_blocks G k body"
proof -
  have "up_div (c + 1) (2 ^ k) = Suc (c div 2 ^ k)" by (simp add: up_div_def div_add_self2)
  moreover have "up_div 0 (2 ^ k) = 0" by (simp add: up_div_def)
  moreover have "min (2 ^ k) (Suc c - c div 2 ^ k * 2 ^ k) = Suc c - c div 2 ^ k * 2 ^ k"
    using div_mult_mod_eq [of c "2 ^ k"] mod_less_divisor [of "2 ^ k" c, OF zero_less_power [OF zero_less_numeral]]
    by (intro min_absorb2) linarith
  moreover have "min (2 ^ k) (Suc c - j * 2 ^ k) = 2 ^ k" if "j < c div 2 ^ k" for j
  proof -
    have "Suc j * 2 ^ k \<le> c div 2 ^ k * 2 ^ k" using that by (intro mult_le_mono1) simp
    also have "\<dots> \<le> c" by simp
    finally show ?thesis by (intro min_absorb1) simp
  qed
  ultimately show ?thesis using assms by (auto simp: blake3_blocks_def blocks_upto_def blockAt_def spanCV_perfect)
qed

lemma FinishObject_fed:
  assumes "fed G body 0 (length body) h" and "length body < 2 ^ 62"
  shows "FinishObject G h = Inr \<lparr> obj_Size = int (length body), obj_Root = blake3_root G body, obj_ChunkLog = hs_blockHeight h,
      obj_Blocks = blake3_blocks G (hs_blockHeight h) body \<rparr>"
proof -
  have f: "taken G body (length body) h" "hs_offset h = 0" "hs_size h = int (length body)" using assms(1) by (simp_all add: fed_def up_div_def ChunkSize_def)
  have lt: "length body < 2 ^ 63" using assms(2) by simp
  obtain h' where d: "drain G h = (h', drop (hs_counter h' * ChunkSize) (take (length body) body))" "pushed G (chunk body) (hs_counter h') h'"
      "same_frame h h'" "hs_offset h * ChunkSize < length body \<longrightarrow> hs_counter h' * ChunkSize < length body \<and> length body \<le> (hs_counter h' + 1) * ChunkSize"
      "length body \<le> hs_offset h * ChunkSize \<longrightarrow> hs_counter h' = hs_offset h"
    using drain_taken [OF f(1) order_refl lt] by blast
  define c where "c = hs_counter h'"
  have fr: "hs_offset h' = 0" "hs_size h' = int (length body)" "hs_blockHeight h' = hs_blockHeight h" using d(3) f by (simp_all add: same_frame_def)
  have st: "tiled G (chunk body) 0 c (hs_stack h')" "maximal 0 c (hs_stack h')" "hs_blocks h' = blocks_upto G (chunk body) (hs_blockHeight h) 0 c"
    using d(2) fr by (simp_all add: pushed_def c_def)
  have ri: "rising (hs_stack h')" using tiled_rising [OF st(1,2), of c] by simp
  have lastc: "drop (c * ChunkSize) (take (length body) body) = chunk body c"
  proof (cases "body = []")
    case False
    then show ?thesis using chunk_count_last(2) d(4) f(2) by (simp add: c_def)
  qed (simp add: chunk_def)
  have "foldNodes G (hs_stack h') (spanNode G (chunk body) c 1) = spanNode G (chunk body) 0 (c + 1)"
    using foldNodes_span [OF st(1) ri, of 1] by simp
  then have root: "bytesOf (ChainingValue G (rootNode G (chunk body c) h')) = blake3_root G body"
    using chunk_count_last(1) [of c body] d(4,5) f(2)
    by (cases "body = []") (auto simp: rootNode_def blake3_root_def spanNode_def c_def chunk_count_def up_div_def ChunkSize_def)
  have blocks: "map (\<lambda>l. bytesOf (nd_cv l)) (if hs_size h' > 0 then hs_blocks h' @ [mkNode (ChainingValue G (foldNodes G
      (takeWhile (\<lambda>s. nd_height s < hs_blockHeight h') (hs_stack h')) (CompressChunk G (chunk body c) c 0))) (hs_blockHeight h') p]
      else hs_blocks h') = blake3_blocks G (hs_blockHeight h) body" for p
  proof (cases "body = []")
    case True
    then show ?thesis using d(5) f(2) fr st(3) blocks_upto_empty [of G "chunk body" _ 0]
      by (simp add: blake3_blocks_def chunk_count_def up_div_def ChunkSize_def c_def)
  next
    case False
    then have "chunk_count body = c + 1" using chunk_count_last(1) d(4) f(2) by (simp add: c_def)
    then show ?thesis using False fr st(3) last_block [OF st(1) ri] blocks_listed [of body c] by (simp add: spanNode_CV)
  qed
  show ?thesis unfolding FinishObject_def d(1) Let_def prod.case c_def [symmetric] lastc using root f(2) fr blocks by (simp add: c_def)
qed

section \<open>The root from the blocks\<close>

text \<open>What \<open>guts\<close> promises of its nodes: a chaining value has eight words, and setting the root flag afterwards
  is making the node with it.\<close>

definition node_law :: "'n guts \<Rightarrow> bool" where
  "node_law G \<longleftrightarrow>
     (\<forall>n. length (ChainingValue G n) = 8) \<and> (\<forall>l r. ParentNode G l r (FlagRoot G) = orFlags G (FlagRoot G) (ParentNode G l r 0))"

lemma length_leBytes [simp]: "length (leBytes k v) = k"
  by (induction k arbitrary: v) auto

lemma le_leBytes: "le (leBytes k v) = v mod 256 ^ k"
proof (induction k arbitrary: v)
  case (Suc k)
  have "v mod (256 * 256 ^ k) = 256 * (v div 256 mod 256 ^ k) + v mod 256" by (rule mod_mult2_eq)
  then show ?case using Suc by simp
qed simp

lemma bytesOf_Cons: "bytesOf (x # w) = leBytes 4 (unat x) @ bytesOf w"
  by (simp add: bytesOf_def)

lemma length_bytesOf [simp]: "length (bytesOf w) = 4 * length w"
  by (induction w) (simp_all add: bytesOf_Cons, simp add: bytesOf_def)

lemma word_bytesOf: "i < length w \<Longrightarrow> take 4 (drop (4 * i) (bytesOf w)) = leBytes 4 (unat (w ! i))"
proof (induction w arbitrary: i)
  case (Cons x w)
  then show ?case by (cases i) (simp_all add: bytesOf_Cons)
qed simp

lemma wordsOf_bytesOf: "length w = 8 \<Longrightarrow> wordsOf (bytesOf w) = w"
proof (rule nth_equalityI)
  assume w: "length w = 8"
  show "length (wordsOf (bytesOf w)) = length w" using w by (simp add: wordsOf_def)
  fix i assume "i < length (wordsOf (bytesOf w))"
  then have i: "i < 8" by (simp add: wordsOf_def)
  have "unat (w ! i) < 256 ^ 4" using unsigned_less [of "w ! i"] by simp
  then show "wordsOf (bytesOf w) ! i = w ! i" using i w word_bytesOf [of i w] by (simp add: wordsOf_def le_leBytes)
qed

lemma wordsOf_spanCV: "node_law G \<Longrightarrow> wordsOf (bytesOf (spanCV G ch i n)) = spanCV G ch i n"
  unfolding spanNode_CV [symmetric] by (intro wordsOf_bytesOf) (simp add: node_law_def)

text \<open>The blocks from \<open>i\<close> to \<open>j\<close> of a body of \<open>n\<close> chunks, and the chunks they span.\<close>

definition block_cvs :: "'n guts \<Rightarrow> (nat \<Rightarrow> bytes) \<Rightarrow> nat \<Rightarrow> nat \<Rightarrow> nat \<Rightarrow> nat \<Rightarrow> CV list" where
  "block_cvs G ch k n i j = map (\<lambda>x. bytesOf (spanCV G ch (x * 2 ^ k) (min (2 ^ k) (n - x * 2 ^ k)))) [i..<j]"

lemma blake3_blocks_cvs: "blake3_blocks G k body = block_cvs G (chunk body) k (chunk_count body) 0 (up_div (chunk_count body) (2 ^ k))"
  by (simp add: blake3_blocks_def block_cvs_def)

definition span_len :: "nat \<Rightarrow> nat \<Rightarrow> nat \<Rightarrow> nat \<Rightarrow> nat" where
  "span_len k n i j = min (j * 2 ^ k) n - i * 2 ^ k"

lemma take_drop_blocks:
  assumes "i + m \<le> j"
  shows "take m (block_cvs G ch k n i j) = block_cvs G ch k n i (i + m)" and "drop m (block_cvs G ch k n i j) = block_cvs G ch k n (i + m) j"
  using assms by (simp_all add: block_cvs_def take_map drop_map take_upt drop_upt)

text \<open>Blocks \<open>i\<close> to \<open>j\<close>, with only the last one short, split where their chunks do.\<close>

lemma span_len_split:
  assumes "i + 2 ^ h < j" and "j \<le> i + 2 ^ Suc h" and "(j - 1) * 2 ^ k < n"
  shows "2 ^ (h + k) < span_len k n i j" and "span_len k n i j \<le> 2 ^ Suc (h + k)"
    and "span_len k n i (i + 2 ^ h) = 2 ^ (h + k)" and "span_len k n (i + 2 ^ h) j = span_len k n i j - 2 ^ (h + k)"
proof -
  have "(i + 2 ^ h) * 2 ^ k \<le> (j - 1) * 2 ^ k" using assms(1) by (intro mult_le_mono1) simp
  then have lo: "i * 2 ^ k + 2 ^ (h + k) < n" using assms(3) by (simp add: add_mult_distrib power_add)
  moreover have "(i + 2 ^ h) * 2 ^ k < j * 2 ^ k" using assms(1) by simp
  moreover have "j * 2 ^ k \<le> (i + 2 ^ Suc h) * 2 ^ k" using assms(2) by (intro mult_le_mono1)
  ultimately show "2 ^ (h + k) < span_len k n i j" "span_len k n i j \<le> 2 ^ Suc (h + k)"
      "span_len k n i (i + 2 ^ h) = 2 ^ (h + k)" "span_len k n (i + 2 ^ h) j = span_len k n i j - 2 ^ (h + k)"
    by (auto simp: span_len_def add_mult_distrib power_add algebra_simps min_def)
qed

lemma subtreeCV_blocks:
  assumes "node_law G"
  shows "i < j \<Longrightarrow> j - i < 2 ^ 63 \<Longrightarrow> (j - 1) * 2 ^ k < n \<Longrightarrow> subtreeCV G (block_cvs G ch k n i j) = bytesOf (spanCV G ch (i * 2 ^ k) (span_len k n i j))"
proof (induction "j - i" arbitrary: i j rule: less_induct)
  case less
  have len: "length (block_cvs G ch k n i j) = j - i" by (simp add: block_cvs_def)
  show ?case
  proof (cases "j = Suc i")
    case True
    have "min (2 ^ k) (n - i * 2 ^ k) = span_len k n i j" using less(4) unfolding True span_len_def by (auto simp: min_def)
    then show ?thesis using True len by (simp add: subtreeCV.simps [of G "[_]"] block_cvs_def)
  next
    case False
    then have "1 < j - i" using less(2) by simp
    then obtain h where h: "2 ^ h < j - i" "j - i \<le> 2 ^ Suc h" using between_powers by blast
    then have ij: "i + 2 ^ h < j" "j \<le> i + 2 ^ Suc h" by auto
    note sp = span_len_split [OF ij less(4)]
    have lc: "leftCount (j - i) = 2 ^ h" using leftCount_left_len [of "j - i"] left_len_exact [OF h] less(3) \<open>1 < j - i\<close> by simp
    have "(i + 2 ^ h - 1) * 2 ^ k < n" using less(4) ij(1) by (meson diff_le_mono le_less_trans less_imp_le mult_le_mono1)
    then have l: "subtreeCV G (block_cvs G ch k n i (i + 2 ^ h)) = bytesOf (pcv G ch (h + k) (i * 2 ^ k))"
      using less(1) [of "i + 2 ^ h" i] ij(1) less(3) sp(3) spanCV_perfect [of G ch "i * 2 ^ k" "h + k"] by simp
    have r: "subtreeCV G (block_cvs G ch k n (i + 2 ^ h) j) = bytesOf (spanCV G ch (i * 2 ^ k + 2 ^ (h + k)) (span_len k n i j - 2 ^ (h + k)))"
      using less(1) [of j "i + 2 ^ h"] ij less(3,4) sp(4) by (simp add: add_mult_distrib power_add)
    have "\<not> (j - i \<le> 1 \<or> j - i \<ge> 2 ^ 63)" using \<open>1 < j - i\<close> less(3) by simp
    then have "subtreeCV G (block_cvs G ch k n i j) = ParentCV G (subtreeCV G (block_cvs G ch k n i (i + 2 ^ h))) (subtreeCV G (block_cvs G ch k n (i + 2 ^ h) j))"
      unfolding subtreeCV.simps [of G "block_cvs G ch k n i j"] len lc Let_def using ij(1) by (simp add: take_drop_blocks)
    also have "\<dots> = bytesOf (parentCV G (pcv G ch (h + k) (i * 2 ^ k)) (spanCV G ch (i * 2 ^ k + 2 ^ (h + k)) (span_len k n i j - 2 ^ (h + k))))"
      unfolding l r ParentCV_def using wordsOf_spanCV [OF assms] spanCV_perfect [of G ch "i * 2 ^ k" "h + k"] by metis
    also have "\<dots> = bytesOf (spanCV G ch (i * 2 ^ k) (span_len k n i j))" using spanCV_split [OF sp(1,2), of G ch "i * 2 ^ k"] by (rule arg_cong [OF sym])
    finally show ?thesis .
  qed
qed

lemma RootFromBlocks_root:
  assumes "node_law G" and "2 \<le> up_div (chunk_count body) (2 ^ k)" and "chunk_count body < 2 ^ 63"
  shows "RootFromBlocks G (blake3_blocks G k body) = Some (blake3_root G body)"
proof -
  define n m where "n = chunk_count body" and "m = up_div n (2 ^ k)"
  have m: "2 \<le> m" "(m - 1) * 2 ^ k < n" "n \<le> m * 2 ^ k"
    using assms(2) up_div_le [of "2 ^ k" n "m - 1"] up_div_le [of "2 ^ k" n m] by (auto simp: n_def m_def)
  have "m \<le> n" using up_div_le [of "2 ^ k" n n] by (simp add: m_def)
  then have small: "m < 2 ^ 63" using assms(3) by (simp add: n_def)
  obtain h where h: "2 ^ h < m" "m \<le> 2 ^ Suc h" using between_powers [of m] m(1) by auto
  have lc: "leftCount m = 2 ^ h" using leftCount_left_len [of m] left_len_exact [OF h] small m(1) by simp
  have sp: "2 ^ (h + k) < n" "n \<le> 2 ^ Suc (h + k)" "span_len k n 0 (2 ^ h) = 2 ^ (h + k)" "span_len k n (2 ^ h) m = n - 2 ^ (h + k)"
    using span_len_split [of 0 h m k n] h m(2,3) by (simp_all add: span_len_def min_absorb2)
  have "(2 ^ h - 1) * 2 ^ k < n" using m(2) h(1) by (meson diff_le_mono le_less_trans less_imp_le mult_le_mono1)
  then have l: "subtreeCV G (block_cvs G (chunk body) k n 0 (2 ^ h)) = bytesOf (spanCV G (chunk body) 0 (2 ^ (h + k)))"
    using subtreeCV_blocks [OF assms(1), of 0 "2 ^ h" k n] h small sp(3) by simp
  have r: "subtreeCV G (block_cvs G (chunk body) k n (2 ^ h) m) = bytesOf (spanCV G (chunk body) (2 ^ (h + k)) (n - 2 ^ (h + k)))"
    using subtreeCV_blocks [OF assms(1), of "2 ^ h" m k n] h small sp(4) m(2) by (simp add: power_add)
  have len: "length (block_cvs G (chunk body) k n 0 m) = m" by (simp add: block_cvs_def)
  have sn: "spanNode G (chunk body) 0 n = ParentNode G (spanCV G (chunk body) 0 (2 ^ (h + k))) (spanCV G (chunk body) (2 ^ (h + k)) (n - 2 ^ (h + k))) 0"
    using spanNode_split [OF sp(1,2), of G "chunk body" 0] by (simp add: spanCV_perfect)
  show ?thesis
    using m(1) h(1) assms(1) sn l r lc
    unfolding blake3_blocks_cvs n_def [symmetric] m_def [symmetric] RootFromBlocks_def len Let_def lc blake3_root_def
    by (simp add: take_drop_blocks wordsOf_spanCV node_law_def)
qed

definition object_of :: "'n guts \<Rightarrow> bytes \<Rightarrow> Object" where
  "object_of G body =
     \<lparr> obj_Size = int (length body), obj_Root = blake3_root G body, obj_ChunkLog = ChunkLog (int (length body)),
       obj_Blocks = blake3_blocks G (ChunkLog (int (length body))) body \<rparr>"

lemma object_hashed:
  assumes "buffer_law G" and "concat ps = body" and "length body < 2 ^ 62"
  shows "\<exists>h. NewHasher 0 = Inr h \<and> FinishObject G (fold (h_Write G) ps h) = Inr (object_of G body)"
proof -
  obtain h where h: "NewHasher 0 = Inr h" "fed G body 0 0 h" "\<not> hs_fixed h" using NewHasher_fed [of 0 body G] assms(3) by auto
  define h' where "h' = fold (h_Write G) ps h"
  have "fed G body 0 (length body) h' \<and> hs_fixed h' = hs_fixed h"
    using writes_fed [OF h(2), of ps] assms by (auto simp: h'_def)
  then have f: "fed G body 0 (length body) h'" and cl: "hs_blockHeight h' = ChunkLog (int (length body))" using h(3) by (auto simp: fed_def)
  then show ?thesis using h(1) FinishObject_fed [OF f assms(3)] by (simp add: h'_def [symmetric] object_of_def)
qed

section \<open>Properties\<close>

text \<open>C14. Hashing a body: however it is cut into writes, the hasher answers the body's BLAKE3 hash, the chunk log of
  its size, and the chaining value of every block of that size in order, the last one short where the body
  ends inside a block; and from two blocks on, the blocks alone give the root again. Assumed of the
  compression library: the node over a full buffer, and how the root flag is set.\<close>

theorem FinishObject_correct:
  assumes "buffer_law G" and "node_law G" and "concat ps = body" and "length body < 2 ^ 62"
  shows "\<exists>h obj. NewHasher 0 = Inr h \<and> FinishObject G (fold (h_Write G) ps h) = Inr obj
    \<and> obj_Size obj = int (length body) \<and> obj_ChunkLog obj = ChunkLog (int (length body))
    \<and> obj_Root obj = blake3_root G body \<and> obj_Blocks obj = blake3_blocks G (obj_ChunkLog obj) body
    \<and> RootFromBlocks G (obj_Blocks obj) = (if length (obj_Blocks obj) \<ge> 2 then Some (obj_Root obj) else None)"
proof -
  obtain h where h: "NewHasher 0 = Inr h" "FinishObject G (fold (h_Write G) ps h) = Inr (object_of G body)"
    using object_hashed [OF assms(1,3,4)] by blast
  define k where "k = ChunkLog (int (length body))"
  have "chunk_count body < 2 ^ 63" using up_div_le [of ChunkSize "length body" "2 ^ 62"] assms(4) by (simp add: chunk_count_def ChunkSize_def)
  then have "length (blake3_blocks G k body) \<ge> 2 \<Longrightarrow> RootFromBlocks G (blake3_blocks G k body) = Some (blake3_root G body)"
    using RootFromBlocks_root [OF assms(2)] by (simp add: blake3_blocks_def)
  then have "RootFromBlocks G (blake3_blocks G k body) = (if length (blake3_blocks G k body) \<ge> 2 then Some (blake3_root G body) else None)"
    by (auto simp: RootFromBlocks_def)
  then show ?thesis using h by (simp add: object_of_def k_def [symmetric])
qed

text \<open>An instance of the library: a node is its flags and some words.\<close>

definition demo_guts0 :: "(nat \<times> words) guts" where
  "demo_guts0 =
     \<lparr> CompressChunk = (\<lambda>c i f. (f, [word_of_nat (length c), word_of_nat i])), CompressBuffer = (\<lambda>_ _ _. (0, [])),
       ParentNode = (\<lambda>l r f. (f, map2 (\<lambda>x y. x * 31 + y * 17) l r)), orFlags = (\<lambda>f (g, w). (max g f, w)),
       ChainingValue = (\<lambda>(f, w). take 8 (map (\<lambda>x. x + word_of_nat f) w @ replicate 8 0)), FlagRoot = 8 \<rparr>"

definition demo_guts :: "(nat \<times> words) guts" where
  "demo_guts = demo_guts0\<lparr> CompressBuffer := (\<lambda>b k f. (f, pcv demo_guts0 (\<lambda>i. chunk b (i - k)) 4 k)) \<rparr>"

lemma demo_pcv: "pcv demo_guts ch h i = pcv demo_guts0 ch h i"
  by (induction h arbitrary: i) (simp_all add: demo_guts_def leafCV_def parentCV_def)

lemma demo_cv_len: "length (pcv demo_guts0 ch h i) = 8"
  by (cases h) (simp_all add: demo_guts0_def leafCV_def parentCV_def split_beta)

lemma demo_laws: "buffer_law demo_guts" "node_law demo_guts"
proof -
  have cv: "ChainingValue demo_guts (0, w) = w" if "length w = 8" for w using that by (simp add: demo_guts_def demo_guts0_def)
  have "CompressBuffer demo_guts b k 0 = (0, pcv demo_guts0 (\<lambda>i. chunk b (i - k)) 4 k)" for b k by (simp add: demo_guts_def)
  then show "buffer_law demo_guts" unfolding buffer_law_def demo_pcv by (simp add: cv demo_cv_len)
qed (auto simp: node_law_def demo_guts_def demo_guts0_def)

lemma ChunkLog_20000: "ChunkLog 20000 = 4"
  by (simp add: ChunkLog_def MinChunkLog_def sqrtLoop.simps [of _ 4] capLoop.simps [of _ 4] MaxBlocks_def chunkLog_def)

theorem FinishObject_correct_witness:
  "\<exists>h obj. NewHasher 0 = Inr h
    \<and> FinishObject demo_guts (fold (h_Write demo_guts) [replicate 7000 CHR ''a'', replicate 13000 CHR ''b''] h) = Inr obj
    \<and> obj_ChunkLog obj = 4 \<and> length (obj_Blocks obj) = 2 \<and> RootFromBlocks demo_guts (obj_Blocks obj) = Some (obj_Root obj)"
proof -
  let ?ps = "[replicate 7000 CHR ''a'', replicate 13000 CHR ''b'']"
  have len: "length (concat ?ps) = 20000" by simp
  have "length (blake3_blocks demo_guts 4 (concat ?ps)) = 2" unfolding blake3_blocks_def chunk_count_def len by (simp add: up_div_def ChunkSize_def)
  then show ?thesis using FinishObject_correct [OF demo_laws refl, of ?ps] unfolding len by (auto simp: ChunkLog_20000)
qed

lemma ChunkLog_le_iff:
  "ChunkLog sz \<le> c \<longleftrightarrow> MinChunkLog \<le> c \<and> (24 \<le> c \<or> sz \<le> 2 ^ (2 * c + 15)) \<and> (38 \<le> c \<or> sz \<le> MaxBlocks * 2 ^ (c + chunkLog))"
proof
  assume c: "ChunkLog sz \<le> c"
  define d where "d = sqrtLoop sz MinChunkLog"
  have d: "MinChunkLog \<le> d" "d \<le> ChunkLog sz" "24 \<le> d \<or> sz \<le> 2 ^ (2 * d + 15)"
    unfolding d_def ChunkLog_def using sqrtLoop_ge capLoop_ge sqrtLoop_stops by blast+
  have p: "(2 :: int) ^ (2 * d + 15) \<le> 2 ^ (2 * c + 15)" using c d(2) by (intro power_increasing) auto
  have q: "MaxBlocks * 2 ^ (ChunkLog sz + chunkLog) \<le> MaxBlocks * 2 ^ (c + chunkLog)" using c by (simp add: MaxBlocks_def)
  have "38 \<le> ChunkLog sz \<or> sz \<le> MaxBlocks * 2 ^ (ChunkLog sz + chunkLog)" unfolding ChunkLog_def by (rule capLoop_stops)
  then show "MinChunkLog \<le> c \<and> (24 \<le> c \<or> sz \<le> 2 ^ (2 * c + 15)) \<and> (38 \<le> c \<or> sz \<le> MaxBlocks * 2 ^ (c + chunkLog))"
    using c d p q by linarith
qed (simp add: ChunkLog_def capLoop_least sqrtLoop_least)

text \<open>C24. The block size of a body: the smallest power of two of chunks, 16 KiB at least, whose square is at least 32
  times the size and of which the cap of 32,768 covers the body; so it is monotone in the size, its byte
  count does not overflow, and no body has more blocks than the cap.\<close>

theorem ChunkLog_rule:
  assumes "0 \<le> sz" and "sz < 2 ^ 63"
  shows "(\<forall>c. ChunkLog sz \<le> c \<longleftrightarrow> 4 \<le> c \<and> sz * 32 \<le> (1024 * 2 ^ c) ^ 2 \<and> sz \<le> 32768 * (1024 * 2 ^ c))
    \<and> (\<forall>sz'. sz' \<le> sz \<longrightarrow> ChunkLog sz' \<le> ChunkLog sz)
    \<and> BlockSize (ChunkLog sz) = 1024 * 2 ^ ChunkLog sz \<and> blocksIn sz (ChunkLog sz) \<le> MaxBlocks"
proof (intro conjI allI)
  have sq: "sz * 32 \<le> (1024 * 2 ^ c) ^ 2 \<longleftrightarrow> sz \<le> 2 ^ (2 * c + 15)" for c
    by (simp add: power_mult_distrib power_add power_mult [symmetric] mult.commute)
  have a: "24 \<le> c \<longrightarrow> sz \<le> 2 ^ (2 * c + 15)" for c
  proof
    assume "24 \<le> c"
    then have "(2 :: int) ^ 63 \<le> 2 ^ (2 * c + 15)" by (intro power_increasing) auto
    then show "sz \<le> 2 ^ (2 * c + 15)" using assms(2) by linarith
  qed
  have b: "38 \<le> c \<longrightarrow> sz \<le> 32768 * (1024 * 2 ^ c)" for c
  proof
    assume "38 \<le> c"
    then have "(2 :: int) ^ 38 \<le> 2 ^ c" by (intro power_increasing) auto
    then show "sz \<le> 32768 * (1024 * 2 ^ c)" using assms(2) by simp
  qed
  show "ChunkLog sz \<le> c \<longleftrightarrow> 4 \<le> c \<and> sz * 32 \<le> (1024 * 2 ^ c) ^ 2 \<and> sz \<le> 32768 * (1024 * 2 ^ c)" for c
    unfolding ChunkLog_le_iff sq using a [of c] b [of c] by (auto simp: MinChunkLog_def MaxBlocks_def chunkLog_def power_add)
  show "sz' \<le> sz \<longrightarrow> ChunkLog sz' \<le> ChunkLog sz" for sz' using ChunkLog_mono by blast
  define B where "B = (1024 :: int) * 2 ^ ChunkLog sz"
  have "(2 :: int) ^ ChunkLog sz \<le> 2 ^ 38" using ChunkLog_le by (intro power_increasing) auto
  then have bs: "BlockSize (ChunkLog sz) = B" by (simp add: BlockSize_def ChunkSize_def int64_small B_def)
  then show "BlockSize (ChunkLog sz) = 1024 * 2 ^ ChunkLog sz" by (simp add: B_def)
  have "0 < B" "sz \<le> MaxBlocks * B" using ChunkLog_cap [OF assms(2)] by (simp_all add: B_def)
  then show "blocksIn sz (ChunkLog sz) \<le> MaxBlocks"
    unfolding blocksIn_def bs Let_def
    by (smt (verit, best) div_mult_mod_eq mult_less_cancel_right_disj mult_right_less_imp_less pos_mod_bound pos_mod_sign zero_less_mult_iff)
qed

text \<open>One gibibyte is recorded in blocks of 256 KiB.\<close>

theorem ChunkLog_rule_witness: "ChunkLog (2 ^ 30) = 8 \<and> blocksIn (2 ^ 30) 8 = 4096"
proof -
  have r: "\<forall>c. ChunkLog (2 ^ 30) \<le> c \<longleftrightarrow> 4 \<le> c \<and> 2 ^ 30 * 32 \<le> ((1024 :: int) * 2 ^ c) ^ 2 \<and> 2 ^ 30 \<le> 32768 * ((1024 :: int) * 2 ^ c)"
    using ChunkLog_rule [of "2 ^ 30"] by simp
  have "ChunkLog (2 ^ 30) \<le> 8" "\<not> ChunkLog (2 ^ 30) \<le> 7" unfolding r [rule_format] by simp_all
  then show ?thesis by (simp add: blocksIn_def BlockSize_def ChunkSize_def int64_def)
qed

end
