(* ===== verification/Blake3_Assemble.thy ===== *)
theory Blake3_Assemble
  imports Blake3_Hash "HOL-Library.Signed_Division"
begin

text \<open>
  Ranges of a body hashed at their offsets, and the assembly of the body's tree from them
  (\<open>Assemble\<close> in \<open>src/blake3tree/blake3tree.go\<close>). The theorem: ranges cut anywhere, hashed separately,
  assemble to the tree that hashing the body in one pass gives. Sizes stay below \<open>2 ^ 62\<close>, so the block
  offsets of the assembly loop do not wrap.
\<close>

section \<open>The assembly\<close>

definition tailChunk :: "Range \<Rightarrow> nat" where
  "tailChunk r = toU64 (rg_Offset r + rg_Size r - int (length (rg_Tail r))) div ChunkSize"

definition chunkNode :: "'n guts \<Rightarrow> bytes \<Rightarrow> nat \<Rightarrow> Subtree" where
  "chunkNode G data pos =
     \<lparr> sub_CV = bytesOf (ChainingValue G (CompressChunk G data pos 0)), sub_Height = 0, sub_Pos = pos \<rparr>"

definition TailChunk :: "'n guts \<Rightarrow> Range \<Rightarrow> Subtree option" where
  "TailChunk G r = (if rg_Tail r = [] then None else Some (chunkNode G (rg_Tail r) (tailChunk r)))"

text \<open>\<open>sort.Slice\<close>; elements that neither precede one another may come in either order.\<close>

fun insertBy :: "('a \<Rightarrow> 'a \<Rightarrow> bool) \<Rightarrow> 'a \<Rightarrow> 'a list \<Rightarrow> 'a list" where
  "insertBy lt x [] = [x]"
| "insertBy lt x (y # ys) = (if lt y x then y # insertBy lt x ys else x # y # ys)"

definition sort_Slice :: "('a \<Rightarrow> 'a \<Rightarrow> bool) \<Rightarrow> 'a list \<Rightarrow> 'a list" where
  "sort_Slice lt xs = foldr (insertBy lt) xs []"

definition coverLess :: "Subtree \<Rightarrow> Subtree \<Rightarrow> bool" where
  "coverLess a b \<longleftrightarrow> (if sub_Pos a \<noteq> sub_Pos b then sub_Pos a < sub_Pos b else sub_Height a > sub_Height b)"

text \<open>The tiling loop of \<open>CoverCV\<close>: the nodes kept and where they end, or a gap.\<close>

fun coverTile :: "nat \<Rightarrow> Subtree list \<Rightarrow> (Subtree list \<times> nat) option" where
  "coverTile next [] = Some ([], next)"
| "coverTile next (n # ns) =
     (if sub_Pos n < next then coverTile next ns
      else if sub_Pos n \<noteq> next then None
      else map_option (\<lambda>(tile, stop). (n # tile, stop)) (coverTile (u64 (sub_Pos n + shl1 (sub_Height n))) ns))"

definition CoverCV :: "'n guts \<Rightarrow> Subtree list \<Rightarrow> nat \<Rightarrow> nat \<Rightarrow> tree_error + CV option" where
  "CoverCV G nodes start stop =
     (let within = filter (\<lambda>n. sub_Pos n \<ge> start \<and> u64 (sub_Pos n + shl1 (sub_Height n)) \<le> stop) nodes
      in case coverTile start (sort_Slice coverLess within) of
           None \<Rightarrow> Inr None
         | Some (tile, next) \<Rightarrow> if next \<noteq> stop then Inr None else MergeSubtrees G tile)"

text \<open>The loops of \<open>Assemble\<close>: the total and the ranges that are not empty; the nodes, with the bytes of the
  chunk the ranges seen so far hold only pieces of; the blocks.\<close>

fun totalLoop :: "int \<Rightarrow> Range list \<Rightarrow> Range list \<Rightarrow> (int \<times> Range list) option" where
  "totalLoop tot filled [] = Some (tot, filled)"
| "totalLoop tot filled (r # rs) =
     (if rg_Offset r \<noteq> tot \<or> rg_Size r < 0 then None
      else totalLoop (int64 (tot + rg_Size r)) (if rg_Size r > 0 then filled @ [r] else filled) rs)"

fun nodesLoop :: "'n guts \<Rightarrow> Range list \<Rightarrow> Subtree list \<Rightarrow> bytes \<Rightarrow> nat \<Rightarrow> (Subtree list \<times> bytes \<times> nat) option" where
  "nodesLoop G [] nodes pending pc = Some (nodes, pending, pc)"
| "nodesLoop G (r # rs) nodes pending pc =
     (let pc' = if pending = [] then toU64 (rg_Offset r) div ChunkSize else pc;
          pending' = pending @ rg_Head r
      in if int (length (rg_Head r)) < (int ChunkSize - rg_Offset r smod int ChunkSize) smod int ChunkSize
         then if rg_Subtrees r \<noteq> [] \<or> rg_Tail r \<noteq> [] then None else nodesLoop G rs nodes pending' pc'
         else if length pending' = 0 then nodesLoop G rs (nodes @ rg_Subtrees r) (rg_Tail r) (tailChunk r)
         else if length pending' = ChunkSize
         then nodesLoop G rs (nodes @ [chunkNode G pending' pc'] @ rg_Subtrees r) (rg_Tail r) (tailChunk r)
         else None)"

function blocksLoop :: "'n guts \<Rightarrow> Subtree list \<Rightarrow> int \<Rightarrow> int \<Rightarrow> int \<Rightarrow> tree_error + CV list option" where
  "blocksLoop G nodes block tot off =
     (if off < tot \<and> 0 < block then
        bindE (CoverCV G nodes (toU64 off div ChunkSize) (toU64 (min (off + block) tot + int ChunkSize - 1) div ChunkSize)) (\<lambda>cv.
          case cv of
            None \<Rightarrow> Inr None
          | Some c \<Rightarrow> bindE (blocksLoop G nodes block tot (off + block)) (\<lambda>cs. Inr (map_option (\<lambda>cs. c # cs) cs)))
      else Inr (Some []))"
  by pat_completeness auto
termination by (relation "measure (\<lambda>(_, _, _, tot, off). nat (tot - off))") auto

declare blocksLoop.simps [simp del]

definition assembleRoot :: "'n guts \<Rightarrow> int \<Rightarrow> Range list \<Rightarrow> Subtree list \<Rightarrow> tree_error + CV option" where
  "assembleRoot G tot filled nodes =
     (if tot = 0 then bindE (NewHasher 0) (\<lambda>h. bindE (FinishObject G h) (\<lambda>obj. Inr (Some (obj_Root obj))))
      else if length filled = 1 then Inr (if rg_HasRoot (hd filled) then Some (rg_Root (hd filled)) else None)
      else RootFromSubtrees G nodes)"

definition assembleBlocks :: "'n guts \<Rightarrow> int \<Rightarrow> CV \<Rightarrow> Subtree list \<Rightarrow> tree_error + Object option" where
  "assembleBlocks G tot root nodes =
     (let cl = ChunkLog tot
      in bindE (blocksLoop G nodes (BlockSize cl) tot 0) (\<lambda>bs.
           case bs of
             None \<Rightarrow> Inr None
           | Some blocks \<Rightarrow>
               if length blocks \<ge> 2 \<and> RootFromBlocks G blocks \<noteq> Some root then Inr None
               else Inr (Some \<lparr> obj_Size = tot, obj_Root = root, obj_ChunkLog = cl, obj_Blocks = blocks \<rparr>)))"

definition Assemble :: "'n guts \<Rightarrow> Range list \<Rightarrow> tree_error + Object option" where
  "Assemble G ranges =
     (case totalLoop 0 [] ranges of
        None \<Rightarrow> Inr None
      | Some (tot, filled) \<Rightarrow>
          if ranges = [] then Inr None
          else if filled \<noteq> [] \<and> rg_Head (hd filled) \<noteq> [] then Inr None
          else
            case nodesLoop G filled [] [] 0 of
              None \<Rightarrow> Inr None
            | Some (nodes0, pending, pc) \<Rightarrow>
                let nodes = nodes0 @ (if pending = [] then [] else [chunkNode G pending pc])
                in bindE (assembleRoot G tot filled nodes) (\<lambda>root.
                     case root of
                       None \<Rightarrow> Inr None
                     | Some cv \<Rightarrow> assembleBlocks G tot cv (nodes @ concat (map BlockSubtrees filled))))"

section \<open>What a finished range holds\<close>

definition subOf :: "node \<Rightarrow> Subtree" where
  "subOf s = \<lparr> sub_CV = bytesOf (nd_cv s), sub_Height = nd_height s, sub_Pos = nd_pos s \<rparr>"

text \<open>The whole chunks of the range of \<open>n\<close> bytes from \<open>s\<close> on run from \<open>first_chunk s\<close> to \<open>stop_chunk s n\<close>.\<close>

definition first_chunk :: "nat \<Rightarrow> nat" where
  "first_chunk s = up_div s ChunkSize"

definition stop_chunk :: "nat \<Rightarrow> nat \<Rightarrow> nat" where
  "stop_chunk s n = max (first_chunk s) ((s + n) div ChunkSize)"

definition range_of :: "'n guts \<Rightarrow> bytes \<Rightarrow> nat \<Rightarrow> nat \<Rightarrow> Range \<Rightarrow> bool" where
  "range_of G body s n r \<longleftrightarrow>
     rg_Offset r = int s \<and> rg_Size r = int n \<and> s + n \<le> length body
     \<and> (rg_HasRoot r \<longleftrightarrow> s = 0) \<and> (s = 0 \<longrightarrow> rg_Root r = blake3_root G (take n body))
     \<and> rg_Head r = take (min n (first_chunk s * ChunkSize - s)) (drop s body)
     \<and> rg_Tail r = drop (stop_chunk s n * ChunkSize) (take (s + n) body)
     \<and> (\<exists>st. rg_Subtrees r = map subOf (rev st) \<and> tiled G (chunk body) (first_chunk s) (stop_chunk s n) st)
     \<and> BlockSubtrees r = map subOf (blocks_upto G (chunk body) (rg_ChunkLog r) (first_chunk s) (stop_chunk s n))"

lemma blocks_upto_pos: "b \<in> set (blocks_upto G ch k a c) \<Longrightarrow> nd_pos b < c \<or> nd_pos b = 0"
proof -
  assume "b \<in> set (blocks_upto G ch k a c)"
  then obtain j where j: "nd_pos b = j * 2 ^ k" "j < c div 2 ^ k" by (auto simp: blocks_upto_def blockAt_def)
  then have "j * 2 ^ k < c div 2 ^ k * 2 ^ k" by simp
  also have "\<dots> \<le> c" by simp
  finally show ?thesis using j by simp
qed

lemma blockSubtree_id:
  assumes "nd_pos b < 2 ^ 53"
  shows "toU64 (int64 (int (nd_pos b) * int ChunkSize)) div ChunkSize = nd_pos b"
proof -
  have "int (nd_pos b) * int ChunkSize < 2 ^ 63" "0 \<le> int (nd_pos b) * int ChunkSize" using assms by (simp_all add: ChunkSize_def)
  then have "toU64 (int64 (int (nd_pos b) * int ChunkSize)) = nd_pos b * ChunkSize"
    by (simp add: int64_small toU64_def nat_mult_distrib)
  then show ?thesis by (simp add: ChunkSize_def)
qed

lemma BlockSubtrees_blocks:
  assumes "rg_Blocks r = map (\<lambda>l. \<lparr> bk_CV = bytesOf (nd_cv l), bk_Offset = int64 (int (nd_pos l) * int ChunkSize) \<rparr>)
      (blocks_upto G ch (rg_ChunkLog r) a c)" and "c < 2 ^ 53"
  shows "BlockSubtrees r = map subOf (blocks_upto G ch (rg_ChunkLog r) a c)"
proof -
  have "nd_height b = rg_ChunkLog r" if "b \<in> set (blocks_upto G ch (rg_ChunkLog r) a c)" for b
    using that by (auto simp: blocks_upto_def blockAt_def)
  moreover have "nd_pos b < 2 ^ 53" if "b \<in> set (blocks_upto G ch (rg_ChunkLog r) a c)" for b
    using blocks_upto_pos [OF that] assms(2) by auto
  ultimately show ?thesis unfolding BlockSubtrees_def assms(1) by (simp add: blockSubtree_id subOf_def)
qed

lemma rootNode_fed:
  assumes "fed G body 0 (length body) h" and "length body < 2 ^ 62" and "drain G h = (h', lastc)"
  shows "bytesOf (ChainingValue G (rootNode G lastc h')) = blake3_root G body"
proof -
  have "hs_offset h = 0" using assms(1) by (simp add: fed_def up_div_def ChunkSize_def)
  then show ?thesis using FinishObject_fed [OF assms(1,2)] assms(3) by (simp add: FinishObject_def Let_def)
qed

lemma FinishRange_fed:
  assumes "fed G body s n h" and "s = 0 \<Longrightarrow> fed G (take n body) 0 n h" and "length body < 2 ^ 62"
  shows "range_of G body s n (FinishRange G h)" and "rg_ChunkLog (FinishRange G h) = hs_blockHeight h"
proof -
  define m a where "m = s + n" and "a = first_chunk s"
  have f: "hs_start h = int s" "hs_size h = int n" "m \<le> length body" "hs_offset h = a" "taken G body m h"
    "hs_head h = take (min n (a * ChunkSize - s)) (drop s body)"
    using assms(1) by (auto simp: fed_def Let_def m_def a_def first_chunk_def)
  have lt: "length body < 2 ^ 63" using assms(3) by simp
  obtain h' where d: "drain G h = (h', drop (hs_counter h' * ChunkSize) (take m body))" "pushed G (chunk body) (hs_counter h') h'"
      "same_frame h h'" "hs_offset h * ChunkSize < m \<longrightarrow> hs_counter h' * ChunkSize < m \<and> m \<le> (hs_counter h' + 1) * ChunkSize"
      "m \<le> hs_offset h * ChunkSize \<longrightarrow> hs_counter h' = hs_offset h"
    using drain_taken [OF f(5,3) lt] by blast
  define c where "c = hs_counter h'"
  define lastc where "lastc = drop (c * ChunkSize) (take m body)"
  define whole where "whole \<longleftrightarrow> length lastc = ChunkSize"
  define h2 where "h2 = (if whole then (pushChunk G lastc c h')\<lparr> hs_counter := u64 (c + 1) \<rparr> else h')"
  define e where "e = stop_chunk s n"
  have fr: "hs_start h' = int s" "hs_size h' = int n" "hs_offset h' = a" "hs_head h' = hs_head h" "hs_blockHeight h' = hs_blockHeight h"
    using d(3) f by (simp_all add: same_frame_def)
  have al: "a * ChunkSize < m \<longrightarrow> c * ChunkSize < m \<and> m \<le> (c + 1) * ChunkSize" "m \<le> a * ChunkSize \<longrightarrow> c = a" using d(4,5) f(4) by (simp_all add: c_def)
  have len: "length lastc = m - c * ChunkSize" using f(3) by (simp add: lastc_def)
  have le: "a \<le> c" using d(2) tiled_le fr(3) unfolding pushed_def c_def by blast
  have e: "e = (if whole then c + 1 else c)"
    unfolding whole_def len e_def stop_chunk_def m_def [symmetric] a_def [symmetric] ChunkSize_def
    using al le unfolding ChunkSize_def by (cases "a * 1024 < m") (auto simp: max_def)
  have c53: "c + 1 < 2 ^ 53"
  proof -
    have "a \<le> 2 ^ 52" using up_div_le [of ChunkSize s "2 ^ 52"] f(3) assms(3) by (simp add: a_def first_chunk_def m_def ChunkSize_def)
    then show ?thesis using al f(3) assms(3) by (cases "a * ChunkSize < m") (auto simp: ChunkSize_def)
  qed
  have wc: "whole \<Longrightarrow> lastc = chunk body c"
  proof -
    assume whole
    then have "m = c * ChunkSize + ChunkSize" using len by (simp add: whole_def ChunkSize_def)
    then show ?thesis by (simp add: lastc_def chunk_def drop_take)
  qed
  have p2: "pushed G (chunk body) e h2" "hs_offset h2 = a" "hs_blockHeight h2 = hs_blockHeight h"
    using d(2) e wc pushed_pushChunk [of G "chunk body" c h' lastc] c53 fr by (auto simp: h2_def c_def [symmetric])
  have tail: "(if whole then [] else lastc) = drop (e * ChunkSize) (take m body)"
    using e len by (auto simp: whole_def lastc_def)
  have rt: "s = 0 \<Longrightarrow> bytesOf (ChainingValue G (rootNode G lastc h')) = blake3_root G (take n body)"
  proof -
    assume s: "s = 0"
    then have "length (take n body) = n" using f(3) by (simp add: m_def)
    then show ?thesis using rootNode_fed [of G "take n body" h h' lastc] assms(2) [OF s] assms(3) d(1) f(3) by (simp add: c_def lastc_def)
  qed
  have R: "FinishRange G h = \<lparr> rg_Offset = int s, rg_Size = int n,
      rg_Root = if int s = 0 then bytesOf (ChainingValue G (rootNode G lastc h')) else replicate CVSize (CHR 0x00), rg_HasRoot = (int s = 0),
      rg_Head = hs_head h, rg_Tail = drop (e * ChunkSize) (take m body), rg_Subtrees = map subOf (rev (hs_stack h2)), rg_ChunkLog = hs_blockHeight h,
      rg_Blocks = map (\<lambda>l. \<lparr> bk_CV = bytesOf (nd_cv l), bk_Offset = int64 (int (nd_pos l) * int ChunkSize) \<rparr>) (hs_blocks h2) \<rparr>"
    unfolding FinishRange_def d(1) Let_def prod.case c_def [symmetric] lastc_def [symmetric] whole_def [symmetric] h2_def [symmetric] tail [symmetric] fr subOf_def by simp
  show "rg_ChunkLog (FinishRange G h) = hs_blockHeight h" using R by simp
  have "BlockSubtrees (FinishRange G h) = map subOf (blocks_upto G (chunk body) (rg_ChunkLog (FinishRange G h)) a e)"
    by (rule BlockSubtrees_blocks) (use p2 e c53 in \<open>auto simp: R pushed_def\<close>)
  then show "range_of G body s n (FinishRange G h)"
    using rt f p2(1,2) unfolding range_of_def m_def [symmetric] e_def [symmetric] a_def [symmetric] by (auto simp: R pushed_def)
qed

section \<open>Merging a tiling\<close>

text \<open>A subtree of the body's tree, and subtrees that lie side by side from chunk \<open>a\<close> to chunk \<open>c\<close>.\<close>

definition true_sub :: "'n guts \<Rightarrow> (nat \<Rightarrow> bytes) \<Rightarrow> Subtree \<Rightarrow> bool" where
  "true_sub G ch x \<longleftrightarrow> 2 ^ sub_Height x dvd sub_Pos x \<and> sub_CV x = bytesOf (pcv G ch (sub_Height x) (sub_Pos x))"

fun tiles :: "'n guts \<Rightarrow> (nat \<Rightarrow> bytes) \<Rightarrow> nat \<Rightarrow> Subtree list \<Rightarrow> nat \<Rightarrow> bool" where
  "tiles G ch a [] c \<longleftrightarrow> a = c"
| "tiles G ch a (x # xs) c \<longleftrightarrow> sub_Pos x = a \<and> true_sub G ch x \<and> tiles G ch (a + 2 ^ sub_Height x) xs c"

lemma tiles_append [simp]: "tiles G ch a (xs @ ys) c \<longleftrightarrow> (\<exists>b. tiles G ch a xs b \<and> tiles G ch b ys c)"
  by (induction xs arbitrary: a) auto

lemma tiles_le: "tiles G ch a xs c \<Longrightarrow> a \<le> c"
  by (induction xs arbitrary: a) (auto dest: add_leD1)

lemma tiles_mem: "tiles G ch a xs c \<Longrightarrow> x \<in> set xs \<Longrightarrow> true_sub G ch x \<and> a \<le> sub_Pos x \<and> sub_Pos x + 2 ^ sub_Height x \<le> c"
  by (induction xs arbitrary: a) (auto dest: tiles_le add_leD1)

lemma tiles_cover: "tiles G ch a xs c \<Longrightarrow> a \<le> i \<Longrightarrow> i < c \<Longrightarrow> \<exists>x \<in> set xs. sub_Pos x \<le> i \<and> i < sub_Pos x + 2 ^ sub_Height x"
proof (induction xs arbitrary: a)
  case (Cons x xs)
  then show ?case by (cases "i < a + 2 ^ sub_Height x") auto
qed simp

lemma subOf_sel [simp]: "sub_CV (subOf s) = bytesOf (nd_cv s)" "sub_Height (subOf s) = nd_height s" "sub_Pos (subOf s) = nd_pos s"
  by (simp_all add: subOf_def)

lemma tiled_tiles: "tiled G ch a c st \<Longrightarrow> tiles G ch a (map subOf (rev st)) c"
  by (induction st arbitrary: c) (auto simp: true_sub_def)

lemma height_64: "p + 2 ^ h \<le> c \<Longrightarrow> c < 2 ^ 64 \<Longrightarrow> shl1 h = 2 ^ h \<and> u64 (p + 2 ^ h) = p + 2 ^ h" for p :: nat
  by (simp add: shl1_def u64_def)

lemma wordsOf_pcv: "node_law G \<Longrightarrow> wordsOf (bytesOf (pcv G ch h i)) = pcv G ch h i"
  using wordsOf_spanCV [of G ch i "2 ^ h"] by (simp add: spanCV_perfect)

lemma stackLoop_tiles:
  assumes "node_law G" and "c < 2 ^ 64"
  shows "tiled G ch a p (hs_stack h) \<Longrightarrow> maximal a p (hs_stack h) \<Longrightarrow> tiles G ch p xs c \<Longrightarrow>
    \<exists>h'. stackLoop G p xs h = Inr (Some h') \<and> tiled G ch a c (hs_stack h') \<and> maximal a c (hs_stack h')"
proof (induction xs arbitrary: p h)
  case (Cons x xs)
  define k where "k = sub_Height x"
  have x: "sub_Pos x = p" "2 ^ k dvd p" "sub_CV x = bytesOf (pcv G ch k p)" "tiles G ch (p + 2 ^ k) xs c"
    using Cons.prems(3) by (auto simp: true_sub_def k_def)
  have le: "p + 2 ^ k \<le> c" using tiles_le [OF x(4)] .
  note u = height_64 [OF le assms(2)]
  define h1 where "h1 = push G (wordsOf (sub_CV x)) k p h"
  obtain st bs where "pushLoop G (hs_blockHeight h) (pcv G ch k p) k p (hs_stack h) (hs_blocks h) = (st, bs)"
      "tiled G ch a (p + 2 ^ k) st" "maximal a (p + 2 ^ k) st"
    using pushLoop_tiled [OF Cons.prems(1,2) x(2) refl, of "hs_blockHeight h" "hs_blocks h"] le assms(2) by (auto split: if_splits)
  then have "tiled G ch a (p + 2 ^ k) (hs_stack h1)" "maximal a (p + 2 ^ k) (hs_stack h1)"
    by (simp_all add: h1_def push_def x(3) wordsOf_pcv [OF assms(1)])
  from Cons.IH [OF this x(4)] show ?case using x(1,2) u by (simp add: k_def [symmetric] h1_def [symmetric] mod_eq_0_iff_dvd)
qed simp

lemma foldl_parentCV: "foldl (\<lambda>n s. parentCV G (nd_cv s) n) (ChainingValue G n) st = ChainingValue G (foldNodes G st n)"
  unfolding foldNodes_def by (induction st arbitrary: n) (simp_all add: parentCV_def)

lemma MergeSubtrees_tiles:
  assumes "node_law G" and "tiles G ch a xs c" and "a < c" and "c < 2 ^ 64" and "2 ^ k dvd a" and "c \<le> a + 2 ^ k"
  shows "MergeSubtrees G xs = Inr (Some (bytesOf (spanCV G ch a (c - a))))"
proof -
  have ne: "xs \<noteq> []" "sub_Pos (hd xs) = a" using assms(2,3) by (cases xs; simp)+
  obtain h where h: "stackLoop G a xs (emptyHasher 64) = Inr (Some h)" "tiled G ch a c (hs_stack h)" "maximal a c (hs_stack h)"
    using stackLoop_tiles [OF assms(1,4), of ch a a "emptyHasher 64" xs] assms(2) by (auto simp: emptyHasher_def)
  have so: "stackOf G xs = Inr (Some h)" using h(1) ne by (cases xs) (simp_all add: stackOf_def)
  obtain s st where st: "hs_stack h = s # st" using h(2) assms(3) by (cases "hs_stack h") auto
  have ri: "rising (s # st)" using tiled_rising [OF h(2,3) assms(5,6)] st by simp
  define p m where "p = nd_pos s" and "m = nd_height s"
  have s: "p + 2 ^ m = c" "nd_cv s = ChainingValue G (spanNode G ch p (2 ^ m))" "tiled G ch a p st"
    using h(2) st by (auto simp: p_def m_def spanNode_CV spanCV_perfect)
  have "foldNodes G st (spanNode G ch p (2 ^ m)) = spanNode G ch a (2 ^ m + (p - a))"
    by (rule foldNodes_span [OF s(3)]) (use ri in \<open>auto simp: m_def rising_def intro: order_less_imp_le\<close>)
  moreover have "2 ^ m + (p - a) = c - a" using s(1) tiled_le [OF s(3)] by simp
  ultimately have "foldl (\<lambda>n s. parentCV G (nd_cv s) n) (nd_cv s) st = spanCV G ch a (c - a)"
    unfolding s(2) foldl_parentCV by (simp add: spanNode_CV)
  then show ?thesis unfolding MergeSubtrees_def so using st by simp
qed

section \<open>The root of a tiling of the body\<close>

lemma total_chunks: "tiles G ch a xs c \<Longrightarrow> c < 2 ^ 64 \<Longrightarrow> foldl (\<lambda>t s. u64 (t + shl1 (sub_Height s))) a xs = c"
proof (induction xs arbitrary: a)
  case (Cons x xs)
  then have "a + 2 ^ sub_Height x \<le> c" using tiles_le by auto
  then show ?case using Cons height_64 [of a "sub_Height x" c] by simp
qed simp

text \<open>No aligned subtree lies across a power of two above which the tiling goes on.\<close>

lemma aligned_not_across: "2 ^ k dvd p \<Longrightarrow> p < 2 ^ h \<Longrightarrow> 2 ^ h < p + 2 ^ k \<Longrightarrow> p = 0" for p :: nat
proof (rule ccontr)
  assume a: "2 ^ k dvd p" "p < 2 ^ h" "2 ^ h < p + 2 ^ k" "p \<noteq> 0"
  then have "2 ^ k \<le> p" by (simp add: dvd_imp_le)
  then have "k < h" using a(2) by (meson le_less_trans power_less_imp_less_exp one_less_numeral_iff semiring_norm(76))
  then obtain x y where "(2 :: nat) ^ h = 2 ^ k * x" "p = 2 ^ k * y" using a(1) le_imp_power_dvd [of k h "2 :: nat"] by (auto elim!: dvdE)
  then have "2 ^ k * y < 2 ^ k * x" "2 ^ k * x < 2 ^ k * Suc y" using a(2,3) by simp_all
  then show False by (simp del: mult_Suc_right)
qed

lemma cutLoop_tiles:
  assumes "tiles G ch p xs c" and "p \<le> 2 ^ h" and "2 ^ h < c" and "c < 2 ^ 64" and "p = 0 \<Longrightarrow> 2 \<le> length xs" and "c \<le> 2 ^ Suc h"
  shows "\<exists>j. cutLoop (2 ^ h) xs p i = (2 ^ h, i + j) \<and> tiles G ch p (take j xs) (2 ^ h) \<and> tiles G ch (2 ^ h) (drop j xs) c"
  using assms(1,2,5)
proof (induction xs arbitrary: p i)
  case (Cons x xs)
  define k where "k = sub_Height x"
  have x: "sub_Pos x = p" "2 ^ k dvd p" "tiles G ch (p + 2 ^ k) xs c" "true_sub G ch x" using Cons.prems(1) by (auto simp: true_sub_def k_def)
  have le: "p + 2 ^ k \<le> c" using tiles_le [OF x(3)] .
  show ?case
  proof (cases "p < 2 ^ h")
    case False
    then show ?thesis using Cons.prems(1,2) by (intro exI [of _ 0]) simp
  next
    case True
    have in2: "p + 2 ^ k \<le> 2 ^ h"
    proof (rule ccontr)
      assume "\<not> p + 2 ^ k \<le> 2 ^ h"
      then have p0: "p = 0" using aligned_not_across [OF x(2) True] by simp
      then have "h < k" using \<open>\<not> p + 2 ^ k \<le> 2 ^ h\<close> by (metis add_0 le_less_linear power_increasing one_le_numeral)
      then have "(2 :: nat) ^ Suc h \<le> 2 ^ k" by (intro power_increasing) auto
      then have "p + 2 ^ k = c" using p0 le assms(6) by simp
      moreover obtain y ys where "xs = y # ys" using Cons.prems(3) p0 by (cases xs) auto
      ultimately show False using x(3) tiles_le [of G ch "c + 2 ^ sub_Height y" ys c] by auto
    qed
    have "u64 (p + shl1 k) = p + 2 ^ k" using height_64 [OF le assms(4)] by simp
    moreover obtain j where "cutLoop (2 ^ h) xs (p + 2 ^ k) (i + 1) = (2 ^ h, i + 1 + j)" "tiles G ch (p + 2 ^ k) (take j xs) (2 ^ h)"
        "tiles G ch (2 ^ h) (drop j xs) c" using Cons.IH [OF x(3) in2, of "i + 1"] by auto
    ultimately show ?thesis using True x(1,4) by (intro exI [of _ "Suc j"]) (simp add: k_def [symmetric])
  qed
qed (use assms(3) in auto)

lemma RootFromSubtrees_tiles:
  assumes "node_law G" and "tiles G (chunk body) 0 xs (chunk_count body)" and "chunk_count body < 2 ^ 63" and "2 \<le> length xs"
  shows "RootFromSubtrees G xs = Inr (Some (blake3_root G body))"
proof -
  define n where "n = chunk_count body"
  note t = assms(2) [folded n_def]
  obtain x y zs where xs: "xs = x # y # zs" using assms(4) by (cases xs; cases "tl xs") auto
  have "2 ^ sub_Height x + 2 ^ sub_Height y \<le> n"
    using tiles_le [of G "chunk body" "2 ^ sub_Height x + 2 ^ sub_Height y" zs n] t unfolding xs by simp
  moreover have "1 \<le> (2 :: nat) ^ sub_Height x" "1 \<le> (2 :: nat) ^ sub_Height y" by simp_all
  ultimately have "2 \<le> n" by linarith
  then have n: "1 < n" "n < 2 ^ 64" using assms(3) by (auto simp: n_def)
  then obtain h where h: "2 ^ h < n" "n \<le> 2 ^ Suc h" using between_powers by blast
  have left: "leftCount n = 2 ^ h" using leftCount_left_len [of n] left_len_exact [OF h] n by simp
  obtain j where j: "cutLoop (2 ^ h) xs 0 0 = (2 ^ h, j)" "tiles G (chunk body) 0 (take j xs) (2 ^ h)" "tiles G (chunk body) (2 ^ h) (drop j xs) n"
    using cutLoop_tiles [OF t _ h(1) n(2) assms(4) h(2), of 0] by auto
  have l: "MergeSubtrees G (take j xs) = Inr (Some (bytesOf (spanCV G (chunk body) 0 (2 ^ h))))"
    using MergeSubtrees_tiles [OF assms(1) j(2), of h] h n by simp
  have r: "MergeSubtrees G (drop j xs) = Inr (Some (bytesOf (spanCV G (chunk body) (2 ^ h) (n - 2 ^ h))))"
    using MergeSubtrees_tiles [OF assms(1) j(3) h(1) n(2), of h] h(2) by simp
  have "spanNode G (chunk body) 0 n = ParentNode G (spanCV G (chunk body) 0 (2 ^ h)) (spanCV G (chunk body) (2 ^ h) (n - 2 ^ h)) 0"
    using spanNode_split [OF h, of G "chunk body" 0] by (simp add: spanCV_perfect)
  then show ?thesis using assms(1,4) t xs total_chunks [OF t n(2)] n(1) left j(1) l r
    by (simp add: RootFromSubtrees_def Let_def blake3_root_def n_def [symmetric] wordsOf_spanCV node_law_def)
qed

section \<open>Covering a block\<close>

lemma set_insertBy [simp]: "set (insertBy lt x ys) = insert x (set ys)"
  by (induction ys) auto

lemma set_sort_Slice [simp]: "set (sort_Slice lt xs) = set xs"
  unfolding sort_Slice_def by (induction xs) auto

lemma sorted_sort_Slice:
  assumes "\<And>x y z. \<not> lt y x \<Longrightarrow> \<not> lt z y \<Longrightarrow> \<not> lt z x" and "\<And>x y. lt x y \<Longrightarrow> \<not> lt y x"
  shows "sorted_wrt (\<lambda>x y. \<not> lt y x) (sort_Slice lt xs)"
proof -
  have "sorted_wrt (\<lambda>x y. \<not> lt y x) ys \<Longrightarrow> sorted_wrt (\<lambda>x y. \<not> lt y x) (insertBy lt x ys)" for x ys
  proof (induction ys)
    case (Cons y ys)
    show ?case
    proof (cases "lt y x")
      case True
      then show ?thesis using Cons assms(2) [OF True] by auto
    next
      case False
      then show ?thesis using Cons.prems assms(1) [OF False] by auto
    qed
  qed simp
  then show ?thesis unfolding sort_Slice_def by (induction xs) auto
qed

lemma sorted_coverLess: "sorted_wrt (\<lambda>x y. \<not> coverLess y x) (sort_Slice coverLess xs)"
  by (rule sorted_sort_Slice) (auto simp: coverLess_def split: if_splits)

lemma not_coverLess: "\<not> coverLess y x \<Longrightarrow> sub_Pos x \<le> sub_Pos y"
  by (auto simp: coverLess_def split: if_splits)

text \<open>Aligned subtrees are nested or apart.\<close>

lemma aligned_nested:
  fixes p q :: nat
  assumes "2 ^ h dvd p" and "2 ^ k dvd q" and "h \<le> k" and "p < q + 2 ^ k" and "q < p + 2 ^ h"
  shows "q \<le> p \<and> p + 2 ^ h \<le> q + 2 ^ k"
proof -
  obtain x y z where "p = 2 ^ h * x" "q = 2 ^ h * y" "(2 :: nat) ^ k = 2 ^ h * z"
    using assms(1) pow_dvd [OF assms(2,3)] le_imp_power_dvd [OF assms(3), of "2 :: nat"] by (auto elim!: dvdE)
  moreover from this have "2 ^ h * x < 2 ^ h * (y + z)" "2 ^ h * y < 2 ^ h * Suc x" using assms(4,5) by (simp_all add: distrib_left)
  then have "x < y + z" "y < Suc x" by (simp_all del: mult_Suc_right)
  then have "2 ^ h * y \<le> 2 ^ h * x" "2 ^ h * Suc x \<le> 2 ^ h * (y + z)" by (simp_all del: mult_Suc_right)
  ultimately show ?thesis by (simp add: distrib_left)
qed

definition covers :: "Subtree \<Rightarrow> nat \<Rightarrow> bool" where
  "covers x i \<longleftrightarrow> sub_Pos x \<le> i \<and> i < sub_Pos x + 2 ^ sub_Height x"

lemma coverTile_tiles:
  assumes "stop < 2 ^ 64"
  shows "sorted_wrt (\<lambda>x y. \<not> coverLess y x) xs \<Longrightarrow> (\<And>x. x \<in> set xs \<Longrightarrow> true_sub G ch x \<and> sub_Pos x + 2 ^ sub_Height x \<le> stop) \<Longrightarrow>
    (\<And>i. next \<le> i \<Longrightarrow> i < stop \<Longrightarrow> \<exists>x \<in> set xs. next \<le> sub_Pos x \<and> covers x i) \<Longrightarrow> next \<le> stop \<Longrightarrow>
    \<exists>tile. coverTile next xs = Some (tile, stop) \<and> tiles G ch next tile stop"
proof (induction xs arbitrary: "next")
  case Nil
  then have "next = stop" by (metis empty_iff list.set(1) le_neq_implies_less order_refl)
  then show ?case by simp
next
  case (Cons x xs)
  define p k where "p = sub_Pos x" and "k = sub_Height x"
  have x: "true_sub G ch x" "p + 2 ^ k \<le> stop" using Cons.prems(2) [of x] by (simp_all add: p_def k_def)
  have rest: "sorted_wrt (\<lambda>x y. \<not> coverLess y x) xs" "\<And>y. y \<in> set xs \<Longrightarrow> true_sub G ch y \<and> sub_Pos y + 2 ^ sub_Height y \<le> stop"
    "\<And>y. y \<in> set xs \<Longrightarrow> \<not> coverLess y x" using Cons.prems(1,2) by auto
  show ?case
  proof (cases "p < next")
    case True
    then have "\<exists>y \<in> set xs. next \<le> sub_Pos y \<and> covers y i" if "next \<le> i" "i < stop" for i
      using Cons.prems(3) [OF that] by (auto simp: p_def)
    then show ?thesis using Cons.IH [OF rest(1,2)] Cons.prems(4) True by (simp add: p_def)
  next
    case False
    have "next < stop" using False x(2) by (metis add_lessD1 le_less_trans less_add_same_cancel1 not_less zero_less_numeral zero_less_power less_le_trans)
    then obtain y where y: "y \<in> set (x # xs)" "next \<le> sub_Pos y" "covers y next" using Cons.prems(3) [of "next"] by auto
    then have "sub_Pos y = next" by (simp add: covers_def)
    then have pn: "p = next" using False y(1) not_coverLess [OF rest(3), of y] by (auto simp: p_def)
    have cov: "\<exists>y \<in> set xs. p + 2 ^ k \<le> sub_Pos y \<and> covers y i" if i: "p + 2 ^ k \<le> i" "i < stop" for i
    proof -
      obtain y where y: "y \<in> set (x # xs)" "next \<le> sub_Pos y" "covers y i" using Cons.prems(3) [of i] i pn by auto
      then have yx: "y \<in> set xs" using i by (auto simp: covers_def p_def k_def)
      have "p + 2 ^ k \<le> sub_Pos y"
      proof (rule ccontr)
        assume lt: "\<not> p + 2 ^ k \<le> sub_Pos y"
        have al: "2 ^ k dvd p" "2 ^ sub_Height y dvd sub_Pos y" using x(1) rest(2) [OF yx] by (auto simp: true_sub_def p_def k_def)
        have "\<not> sub_Height y \<le> k" using aligned_nested [OF al(2,1)] lt y(2,3) i pn by (auto simp: covers_def)
        moreover have "sub_Pos y \<le> p" using aligned_nested [OF al] calculation lt y(2,3) i pn by (auto simp: covers_def)
        ultimately show False using rest(3) [OF yx] y(2) pn by (simp add: coverLess_def p_def k_def)
      qed
      then show ?thesis using yx y(3) by blast
    qed
    obtain tile where "coverTile (p + 2 ^ k) xs = Some (tile, stop)" "tiles G ch (p + 2 ^ k) tile stop"
      using Cons.IH [OF rest(1,2) cov x(2)] by blast
    then show ?thesis using pn x height_64 [OF x(2) assms] by (auto simp: p_def [symmetric] k_def [symmetric])
  qed
qed

lemma CoverCV_span:
  assumes "node_law G" and "stop < 2 ^ 64" and "start < stop" and "2 ^ k dvd start" and "stop \<le> start + 2 ^ k"
    and "\<And>x. x \<in> set nodes \<Longrightarrow> true_sub G ch x \<and> sub_Pos x + 2 ^ sub_Height x < 2 ^ 64"
    and "\<And>i. start \<le> i \<Longrightarrow> i < stop \<Longrightarrow> \<exists>x \<in> set nodes. start \<le> sub_Pos x \<and> sub_Pos x + 2 ^ sub_Height x \<le> stop \<and> covers x i"
  shows "CoverCV G nodes start stop = Inr (Some (bytesOf (spanCV G ch start (stop - start))))"
proof -
  define within where "within = filter (\<lambda>n. sub_Pos n \<ge> start \<and> u64 (sub_Pos n + shl1 (sub_Height n)) \<le> stop) nodes"
  have u: "u64 (sub_Pos x + shl1 (sub_Height x)) = sub_Pos x + 2 ^ sub_Height x" if "x \<in> set nodes" for x
    using height_64 [OF order_refl] assms(6) [OF that] by auto
  then have w: "set within = {x \<in> set nodes. start \<le> sub_Pos x \<and> sub_Pos x + 2 ^ sub_Height x \<le> stop}" by (auto simp: within_def)
  obtain tile where "coverTile start (sort_Slice coverLess within) = Some (tile, stop)" "tiles G ch start tile stop"
    using coverTile_tiles [OF assms(2) sorted_coverLess, of within G ch start] assms(3,6,7) w by fastforce
  then show ?thesis using MergeSubtrees_tiles [OF assms(1) _ assms(3,2,4,5)] by (simp add: CoverCV_def within_def [symmetric])
qed

end
