(* ===== verification/Blake3_Parts.thy ===== *)
theory Blake3_Parts
  imports Blake3_Assemble
begin

text \<open>
  Assembling a body's tree from its parts: the loops of \<open>Assemble\<close> gather a tiling of the body's chunks,
  every block is covered by the nodes the ranges bring, and the answer is the tree of the body hashed in
  one pass.
\<close>

section \<open>Gathering the nodes\<close>

fun ranges_from :: "'n guts \<Rightarrow> bytes \<Rightarrow> nat \<Rightarrow> Range list \<Rightarrow> nat \<Rightarrow> bool" where
  "ranges_from G body m [] stop \<longleftrightarrow> m = stop"
| "ranges_from G body m (r # rs) stop \<longleftrightarrow> (\<exists>n. range_of G body m n r \<and> ranges_from G body (m + n) rs stop)"

text \<open>The nodes gathered from the first \<open>m\<close> bytes: the whole chunks are tiled, the rest is pending.\<close>

definition gathered :: "'n guts \<Rightarrow> bytes \<Rightarrow> nat \<Rightarrow> Subtree list \<Rightarrow> bytes \<Rightarrow> nat \<Rightarrow> bool" where
  "gathered G body m nodes pending pc \<longleftrightarrow>
     tiles G (chunk body) 0 nodes (m div ChunkSize) \<and> pending = drop (m div ChunkSize * ChunkSize) (take m body)
     \<and> (pending \<noteq> [] \<longrightarrow> pc = m div ChunkSize)"

lemma smod_nonneg: "0 \<le> a \<Longrightarrow> 0 < b \<Longrightarrow> a smod b = a mod b" for a b :: int
  by (cases "a = 0") (simp_all add: signed_modulo_int_def)

lemma first_chunk_cases:
  obtains "m mod ChunkSize = 0" "first_chunk m = m div ChunkSize" "m = m div ChunkSize * ChunkSize"
  | "m mod ChunkSize \<noteq> 0" "first_chunk m = m div ChunkSize + 1" "m div ChunkSize * ChunkSize < m" "m < (m div ChunkSize + 1) * ChunkSize"
proof -
  define q r where "q = m div ChunkSize" and "r = m mod ChunkSize"
  have m: "m = q * 1024 + r" "r < 1024" by (simp_all add: q_def r_def ChunkSize_def)
  show thesis
  proof (cases "r = 0")
    case True
    then have "first_chunk m = q" unfolding first_chunk_def up_div_def ChunkSize_def by (intro div_nat_eqI) (simp_all add: m)
    moreover have "m = q * ChunkSize" using True m(1) by (simp add: ChunkSize_def)
    ultimately show thesis using that(1) True unfolding q_def r_def by blast
  next
    case False
    then have "first_chunk m = q + 1" unfolding first_chunk_def up_div_def ChunkSize_def using m(2) by (intro div_nat_eqI) (simp_all add: m(1))
    moreover have "q * ChunkSize < m" "m < (q + 1) * ChunkSize" using m False by (simp_all add: ChunkSize_def)
    ultimately show thesis using that(2) False unfolding q_def r_def by blast
  qed
qed

lemma gap_smod: "(int ChunkSize - int m smod int ChunkSize) smod int ChunkSize = int (first_chunk m * ChunkSize - m)"
proof -
  have z: "int m smod int ChunkSize = int (m mod ChunkSize)" by (simp add: smod_nonneg zmod_int ChunkSize_def)
  have "m mod ChunkSize < ChunkSize" by (simp add: ChunkSize_def)
  then have "int ChunkSize - int (m mod ChunkSize) = int (ChunkSize - m mod ChunkSize)" by (subst of_nat_diff) simp_all
  then have "(int ChunkSize - int (m mod ChunkSize)) smod int ChunkSize = int ((ChunkSize - m mod ChunkSize) mod ChunkSize)"
    unfolding zmod_int by (simp only: smod_nonneg [OF of_nat_0_le_iff, of "int ChunkSize"]) (simp add: ChunkSize_def smod_nonneg)
  moreover have "(ChunkSize - m mod ChunkSize) mod ChunkSize = first_chunk m * ChunkSize - m"
  proof (cases rule: first_chunk_cases [of m])
    case 2
    then have "(ChunkSize - m mod ChunkSize) mod ChunkSize = ChunkSize - m mod ChunkSize" by simp
    moreover have "first_chunk m * ChunkSize = ChunkSize + m div ChunkSize * ChunkSize" unfolding 2(2) by simp
    ultimately show ?thesis using div_mult_mod_eq [of m ChunkSize] by linarith
  qed simp
  ultimately show ?thesis by (simp add: z)
qed

lemma chunkNode_true: "data = chunk body i \<Longrightarrow> true_sub G (chunk body) (chunkNode G data i)"
  by (simp add: true_sub_def chunkNode_def leafCV_def)

lemma range_tail:
  assumes "range_of G body m n r" and "stop_chunk m n * ChunkSize \<le> m + n" and "length body < 2 ^ 62"
  shows "tailChunk r = stop_chunk m n" and "stop_chunk m n = (m + n) div ChunkSize"
proof -
  have r: "rg_Offset r = int m" "rg_Size r = int n" "m + n \<le> length body" "length (rg_Tail r) = m + n - stop_chunk m n * ChunkSize"
    using assms(1) by (auto simp: range_of_def)
  have e: "rg_Offset r + rg_Size r - int (length (rg_Tail r)) = int (stop_chunk m n * ChunkSize)"
    using r assms(2) by (simp add: of_nat_diff del: of_nat_mult)
  have "stop_chunk m n * ChunkSize < 2 ^ 62" using r(3) assms(2,3) by linarith
  then have "toU64 (int (stop_chunk m n * ChunkSize)) = stop_chunk m n * ChunkSize"
    by (simp add: toU64_def del: of_nat_mult)
  then show "tailChunk r = stop_chunk m n" unfolding tailChunk_def e by (simp add: ChunkSize_def)
  show "stop_chunk m n = (m + n) div ChunkSize" 
  proof -
    have "first_chunk m * ChunkSize \<le> m + n" using assms(2) unfolding stop_chunk_def by (meson max.cobounded1 mult_le_mono1 order_trans)
    then have "first_chunk m \<le> (m + n) div ChunkSize" by (simp add: ChunkSize_def less_eq_div_iff_mult_less_eq)
    then show ?thesis by (simp add: stop_chunk_def)
  qed
qed

text \<open>A range that ends inside the chunk it starts in brings only bytes.\<close>

lemma range_inside:
  assumes "range_of G body m n r" and "m + n < first_chunk m * ChunkSize"
  shows "rg_Subtrees r = []" and "rg_Tail r = []" and "rg_Head r = take n (drop m body)"
proof -
  have e: "stop_chunk m n = first_chunk m" using assms(2) unfolding stop_chunk_def ChunkSize_def by (auto simp: max_def)
  obtain st where st: "rg_Subtrees r = map subOf (rev st)" "tiled G (chunk body) (first_chunk m) (first_chunk m) st"
    using assms(1) e by (auto simp: range_of_def)
  have "st = []"
  proof (cases st)
    case (Cons t st')
    then have "first_chunk m \<le> nd_pos t" "nd_pos t + 2 ^ nd_height t = first_chunk m" using st(2) tiled_le by auto
    moreover have "0 < (2 :: nat) ^ nd_height t" by simp
    ultimately show ?thesis by linarith
  qed
  then show "rg_Subtrees r = []" "rg_Tail r = []" "rg_Head r = take n (drop m body)"
    using assms st(1) e by (auto simp: range_of_def min_def)
qed

text \<open>What a range adds to the nodes.\<close>

definition adds :: "Subtree list \<Rightarrow> Range list \<Rightarrow> Subtree list \<Rightarrow> bool" where
  "adds nodes rs nodes' \<longleftrightarrow>
     (\<forall>x \<in> set nodes'. x \<in> set nodes \<or> sub_Height x = 0 \<or> (\<exists>r \<in> set rs. x \<in> set (rg_Subtrees r)))"

lemma nodesLoop_range:
  assumes "range_of G body m n r" and "gathered G body m nodes pending pc" and "length body < 2 ^ 62"
  shows "\<exists>nodes' pending' pc'. nodesLoop G (r # rs) nodes pending pc = nodesLoop G rs nodes' pending' pc'
    \<and> gathered G body (m + n) nodes' pending' pc' \<and> adds nodes [r] nodes'"
proof -
  define e a z where "e = m div ChunkSize" and "a = first_chunk m" and "z = stop_chunk m n"
  have r: "rg_Offset r = int m" "m + n \<le> length body" "rg_Head r = take (min n (a * ChunkSize - m)) (drop m body)"
    "rg_Tail r = drop (z * ChunkSize) (take (m + n) body)" "tiles G (chunk body) a (rg_Subtrees r) z"
    using assms(1) tiled_tiles by (auto simp: range_of_def a_def z_def)
  have g: "tiles G (chunk body) 0 nodes e" "pending = drop (e * ChunkSize) (take m body)" "pending \<noteq> [] \<longrightarrow> pc = e"
    using assms(2) by (simp_all add: gathered_def e_def)
  have hl: "length (rg_Head r) = min n (a * ChunkSize - m)" using r(2,3) by simp
  have lp: "length pending = m - e * ChunkSize" using g(2) r(2) by simp
  have gap: "int (length (rg_Head r)) < (int ChunkSize - rg_Offset r smod int ChunkSize) smod int ChunkSize \<longleftrightarrow> m + n < a * ChunkSize"
    unfolding r(1) gap_smod a_def [symmetric] hl of_nat_less_iff by auto
  have done_: "z = (m + n) div ChunkSize" "tailChunk r = z" if "a * ChunkSize \<le> m + n"
  proof -
    have "z * ChunkSize \<le> m + n" using that unfolding z_def stop_chunk_def a_def [symmetric] by (auto simp: max_def)
    then show "z = (m + n) div ChunkSize" "tailChunk r = z" using range_tail [OF assms(1) _ assms(3)] by (simp_all add: z_def)
  qed
  show ?thesis
  proof (cases rule: first_chunk_cases [of m])
    case 1
    then have "pending = []" "a * ChunkSize - m = 0" "a = e" using lp by (simp_all add: e_def a_def)
    moreover have "a * ChunkSize \<le> m + n" using 1 by (simp add: a_def)
    ultimately show ?thesis using gap hl g(1) r(4,5) done_
      by (intro exI [of _ "nodes @ rg_Subtrees r"] exI [of _ "rg_Tail r"] exI [of _ "tailChunk r"]) (auto simp: gathered_def adds_def Let_def)
  next
    case 2
    then have ae: "a = e + 1" "e * ChunkSize < m" "m < a * ChunkSize" by (simp_all add: e_def a_def)
    then have pc: "pending \<noteq> []" "pc = e" using lp g(3) by auto
    show ?thesis
    proof (cases "m + n < a * ChunkSize")
      case True
      note ins = range_inside [OF assms(1) True [unfolded a_def]]
      have "(m + n) div ChunkSize = e" using ae True by (intro div_nat_eqI) (simp_all add: mult.commute)
      moreover have "pending @ rg_Head r = drop (e * ChunkSize) (take (m + n) body)"
        unfolding ins(3) g(2) take_add drop_append using ae(2) r(2) by simp
      ultimately show ?thesis using gap hl True ins pc g(1) ae(3)
        by (intro exI [of _ nodes] exI [of _ "pending @ rg_Head r"] exI [of _ pc]) (auto simp: gathered_def adds_def Let_def)
    next
      case False
      define full where "full = pending @ rg_Head r"
      have mn: "min n (a * ChunkSize - m) = a * ChunkSize - m" using False by auto
      have "full = drop (e * ChunkSize) (take (m + (a * ChunkSize - m)) body)"
        unfolding full_def r(3) g(2) take_add drop_append mn using ae(2) r(2) by simp
      then have full: "full = chunk body e" using ae by (simp add: chunk_def drop_take)
      have len: "length full = ChunkSize" using lp ae unfolding full_def length_append hl mn by (simp add: add_mult_distrib)
      have t: "tiles G (chunk body) 0 (nodes @ [chunkNode G full e] @ rg_Subtrees r) z"
        using g(1) r(5) ae(1) chunkNode_true [OF full] by (auto simp: chunkNode_def)
      have "nodesLoop G (r # rs) nodes pending pc = nodesLoop G rs (nodes @ [chunkNode G full e] @ rg_Subtrees r) (rg_Tail r) (tailChunk r)"
        using gap False len pc ae(3) unfolding nodesLoop.simps Let_def full_def [symmetric] by (simp add: ChunkSize_def)
      then show ?thesis using t done_ False r(4)
        by (intro exI [of _ "nodes @ [chunkNode G full e] @ rg_Subtrees r"] exI [of _ "rg_Tail r"] exI [of _ "tailChunk r"])
           (auto simp: gathered_def adds_def chunkNode_def)
    qed
  qed
qed

lemma nodesLoop_ranges:
  assumes "length body < 2 ^ 62"
  shows "ranges_from G body m rs stop \<Longrightarrow> gathered G body m nodes pending pc \<Longrightarrow>
    \<exists>nodes' pending' pc'. nodesLoop G rs nodes pending pc = Some (nodes', pending', pc') \<and> gathered G body stop nodes' pending' pc'
      \<and> adds nodes rs nodes'"
proof (induction rs arbitrary: m nodes pending pc)
  case (Cons r rs)
  then obtain n where r: "range_of G body m n r" "ranges_from G body (m + n) rs stop" by auto
  obtain n1 p1 c1 where one: "nodesLoop G (r # rs) nodes pending pc = nodesLoop G rs n1 p1 c1" "gathered G body (m + n) n1 p1 c1" "adds nodes [r] n1"
    using nodesLoop_range [OF r(1) Cons.prems(2) assms] by blast
  then obtain n2 p2 c2 where "nodesLoop G rs n1 p1 c1 = Some (n2, p2, c2)" "gathered G body stop n2 p2 c2" "adds n1 rs n2"
    using Cons.IH [OF r(2)] by blast
  moreover have "adds nodes (r # rs) n2" using one(3) calculation(3) by (fastforce simp: adds_def)
  ultimately show ?case using one(1) by metis
qed (auto simp: adds_def)

lemma tiles_body:
  assumes "gathered G body (length body) nodes pending pc"
  shows "tiles G (chunk body) 0 (nodes @ (if pending = [] then [] else [chunkNode G pending pc])) (chunk_count body)"
proof -
  define e where "e = length body div ChunkSize"
  have g: "tiles G (chunk body) 0 nodes e" "pending = drop (e * ChunkSize) body" "pending \<noteq> [] \<longrightarrow> pc = e"
    using assms by (simp_all add: gathered_def e_def)
  show ?thesis
  proof (cases rule: first_chunk_cases [of "length body"])
    case 1
    then have "pending = []" using g(2) by (simp add: e_def)
    then show ?thesis using g(1) 1(2) by (simp add: chunk_count_def first_chunk_def e_def)
  next
    case 2
    then have c: "e * ChunkSize < length body" "length body \<le> (e + 1) * ChunkSize" by (simp_all add: e_def)
    then have "pending \<noteq> []" "chunk body e = pending" using g(2) chunk_count_last(2) [OF c] by auto
    then show ?thesis using g chunk_count_last(1) [OF c] chunkNode_true [of pending body e G] by (auto simp: chunkNode_def)
  qed
qed

lemma ranges_le: "ranges_from G body m rs stop \<Longrightarrow> m \<le> stop"
  by (induction rs arbitrary: m) (auto dest: add_leD1)

lemma totalLoop_ranges:
  assumes "stop < 2 ^ 62"
  shows "ranges_from G body m rs stop \<Longrightarrow> totalLoop (int m) filled rs = Some (int stop, filled @ filter (\<lambda>r. rg_Size r > 0) rs)"
proof (induction rs arbitrary: m filled)
  case (Cons r rs)
  then obtain n where r: "range_of G body m n r" "ranges_from G body (m + n) rs stop" by auto
  have "int64 (int m + int n) = int (m + n)" using ranges_le [OF r(2)] assms by (simp add: int64_small)
  then show ?case using r Cons.IH [OF r(2)] by (simp add: range_of_def)
qed simp

lemma ranges_filled: "ranges_from G body m rs stop \<Longrightarrow> ranges_from G body m (filter (\<lambda>r. rg_Size r > 0) rs) stop"
proof (induction rs arbitrary: m)
  case (Cons r rs)
  then obtain n where r: "range_of G body m n r" "ranges_from G body (m + n) rs stop" by auto
  then show ?case using Cons.IH [OF r(2)] by (cases "n = 0") (auto simp: range_of_def)
qed simp

lemma ranges_mem: "ranges_from G body m rs stop \<Longrightarrow> r \<in> set rs \<Longrightarrow> \<exists>s n. range_of G body s n r \<and> m \<le> s \<and> s + n \<le> stop"
proof (induction rs arbitrary: m)
  case (Cons r' rs)
  then obtain n where r: "range_of G body m n r'" "ranges_from G body (m + n) rs stop" by auto
  show ?case
  proof (cases "r \<in> set rs")
    case True
    then obtain s k where "range_of G body s k r" "m + n \<le> s" "s + k \<le> stop" using Cons.IH [OF r(2)] by blast
    then show ?thesis using add_leD1 by blast
  next
    case False
    then show ?thesis using Cons.prems(2) r(1) ranges_le [OF r(2)] by auto
  qed
qed simp

lemma range_size: "range_of G body s n r \<Longrightarrow> rg_Size r = int n"
  by (simp add: range_of_def)

text \<open>Of two ranges or more, none covers the body.\<close>

lemma ranges_part:
  assumes "ranges_from G body 0 rs stop" and "\<And>r. r \<in> set rs \<Longrightarrow> rg_Size r > 0" and "2 \<le> length rs" and "r \<in> set rs"
  shows "\<exists>s n. range_of G body s n r \<and> (0 < s \<or> n < stop)"
proof -
  obtain r1 r2 rs' where rs: "rs = r1 # r2 # rs'" using assms(3) by (cases rs; cases "tl rs") auto
  then obtain n1 n2 where r1: "range_of G body 0 n1 r1" "range_of G body n1 n2 r2" "ranges_from G body (n1 + n2) rs' stop" using assms(1) by auto
  have n: "0 < n1" "0 < n2" "n1 + n2 \<le> stop"
    using assms(2) [of r1] assms(2) [of r2] rs range_size [OF r1(1)] range_size [OF r1(2)] ranges_le [OF r1(3)] by simp_all
  show ?thesis
  proof (cases "r = r1")
    case True
    then show ?thesis using r1(1) n by (intro exI [of _ 0] exI [of _ n1]) auto
  next
    case False
    then obtain s n where "range_of G body s n r" "n1 \<le> s"
      using ranges_mem [of G body n1 "r2 # rs'" stop r] r1(2,3) assms(4) rs by auto
    then show ?thesis using n(1) by (meson less_le_trans)
  qed
qed

section \<open>The blocks\<close>

lemma range_nodes_true:
  assumes "range_of G body s n r"
  shows "x \<in> set (rg_Subtrees r) \<Longrightarrow> true_sub G (chunk body) x \<and> first_chunk s \<le> sub_Pos x \<and> sub_Pos x + 2 ^ sub_Height x \<le> stop_chunk s n"
    and "x \<in> set (BlockSubtrees r) \<Longrightarrow> true_sub G (chunk body) x \<and> sub_Pos x + 2 ^ sub_Height x \<le> stop_chunk s n"
proof -
  obtain st where "rg_Subtrees r = map subOf (rev st)" "tiled G (chunk body) (first_chunk s) (stop_chunk s n) st"
    using assms by (auto simp: range_of_def)
  then have t: "tiles G (chunk body) (first_chunk s) (rg_Subtrees r) (stop_chunk s n)" using tiled_tiles by metis
  show "true_sub G (chunk body) x \<and> first_chunk s \<le> sub_Pos x \<and> sub_Pos x + 2 ^ sub_Height x \<le> stop_chunk s n" if "x \<in> set (rg_Subtrees r)"
    using tiles_mem [OF t that] by blast
  assume "x \<in> set (BlockSubtrees r)"
  then obtain j where j: "x = subOf (blockAt G (chunk body) (rg_ChunkLog r) (j * 2 ^ rg_ChunkLog r))" "j < stop_chunk s n div 2 ^ rg_ChunkLog r"
    using assms by (auto simp: range_of_def blocks_upto_def)
  have "Suc j * 2 ^ rg_ChunkLog r \<le> stop_chunk s n div 2 ^ rg_ChunkLog r * 2 ^ rg_ChunkLog r" using j(2) by (intro mult_le_mono1) simp
  also have "\<dots> \<le> stop_chunk s n" by simp
  finally show "true_sub G (chunk body) x \<and> sub_Pos x + 2 ^ sub_Height x \<le> stop_chunk s n" using j(1) by (simp add: true_sub_def blockAt_def add.commute)
qed

text \<open>A range whose whole chunks hold an aligned block has, for every chunk of it, a block of its own within it.\<close>

lemma range_block_covers:
  assumes "range_of G body s n r" and "rg_ChunkLog r \<le> k" and "2 ^ k dvd p" and "first_chunk s \<le> p" and "p + 2 ^ k \<le> stop_chunk s n"
    and "p \<le> i" and "i < p + 2 ^ k"
  shows "\<exists>x \<in> set (BlockSubtrees r). p \<le> sub_Pos x \<and> sub_Pos x + 2 ^ sub_Height x \<le> p + 2 ^ k \<and> covers x i"
proof -
  define c j where "c = rg_ChunkLog r" and "j = i div 2 ^ c"
  have i: "j * 2 ^ c \<le> i" "i < j * 2 ^ c + 2 ^ c"
    using div_mult_mod_eq [of i "2 ^ c"] mod_less_divisor [of "2 ^ c" i, OF zero_less_power [OF zero_less_numeral]] unfolding j_def by linarith+
  have nest: "p \<le> j * 2 ^ c \<and> j * 2 ^ c + 2 ^ c \<le> p + 2 ^ k"
    by (rule aligned_nested) (use assms(2,3,6,7) i in \<open>auto simp: c_def\<close>)
  have "up_div (first_chunk s) (2 ^ c) \<le> j" using up_div_le [of "2 ^ c" "first_chunk s" j] nest assms(4) by simp
  moreover have "Suc j * 2 ^ c \<le> stop_chunk s n" using nest assms(5) by simp
  then have "j < stop_chunk s n div 2 ^ c" using less_eq_div_iff_mult_less_eq [of "2 ^ c" "Suc j" "stop_chunk s n"] by simp
  ultimately have "subOf (blockAt G (chunk body) c (j * 2 ^ c)) \<in> set (BlockSubtrees r)"
    using assms(1) by (auto simp: range_of_def blocks_upto_def c_def)
  then show ?thesis using nest i by (intro bexI) (auto simp: covers_def blockAt_def)
qed

text \<open>The ranges of the body, their nodes, and a tiling of the body among them.\<close>

definition assembled :: "'n guts \<Rightarrow> bytes \<Rightarrow> Range list \<Rightarrow> Subtree list \<Rightarrow> bool" where
  "assembled G body rs nodes \<longleftrightarrow>
     ranges_from G body 0 rs (length body) \<and> (\<forall>r \<in> set rs. rg_ChunkLog r \<le> ChunkLog (int (length body)))
     \<and> tiles G (chunk body) 0 nodes (chunk_count body) \<and> adds [] rs nodes"

lemma stop_chunk_le: "s + n \<le> length body \<Longrightarrow> s \<le> length body \<Longrightarrow> stop_chunk s n \<le> chunk_count body"
proof -
  assume s: "s + n \<le> length body" "s \<le> length body"
  have "first_chunk s \<le> chunk_count body" unfolding first_chunk_def chunk_count_def up_div_def using s(2) by (intro div_le_mono) simp
  moreover have "(s + n) div ChunkSize \<le> chunk_count body"
    unfolding chunk_count_def up_div_def using s(1) by (intro div_le_mono) (simp add: ChunkSize_def)
  ultimately show ?thesis by (simp add: stop_chunk_def)
qed

lemma nodes_cover:
  assumes "assembled G body rs nodes" and "k = ChunkLog (int (length body))" and "2 ^ k dvd p" and "p \<le> i" and "i < min (p + 2 ^ k) (chunk_count body)"
  shows "\<exists>x \<in> set (nodes @ concat (map BlockSubtrees rs)). p \<le> sub_Pos x \<and> sub_Pos x + 2 ^ sub_Height x \<le> min (p + 2 ^ k) (chunk_count body) \<and> covers x i"
proof -
  have t: "tiles G (chunk body) 0 nodes (chunk_count body)" "adds [] rs nodes" "ranges_from G body 0 rs (length body)"
    using assms(1) by (simp_all add: assembled_def)
  obtain x where x: "x \<in> set nodes" "covers x i" using tiles_cover [OF t(1), of i] assms(5) by (auto simp: covers_def)
  note m = tiles_mem [OF t(1) x(1)]
  have al: "2 ^ sub_Height x dvd sub_Pos x" using m by (simp add: true_sub_def)
  show ?thesis
  proof (cases "sub_Height x \<le> k")
    case True
    have "p \<le> sub_Pos x \<and> sub_Pos x + 2 ^ sub_Height x \<le> p + 2 ^ k"
      by (rule aligned_nested [OF al assms(3) True]) (use x(2) assms(4,5) in \<open>auto simp: covers_def\<close>)
    then show ?thesis using x m by (intro bexI [of _ x]) auto
  next
    case False
    have nest: "sub_Pos x \<le> p \<and> p + 2 ^ k \<le> sub_Pos x + 2 ^ sub_Height x"
      by (rule aligned_nested [OF assms(3) al]) (use False x(2) assms(4,5) in \<open>auto simp: covers_def\<close>)
    obtain r where r: "r \<in> set rs" "x \<in> set (rg_Subtrees r)" using t(2) x(1) False by (auto simp: adds_def)
    obtain s n where sn: "range_of G body s n r" using ranges_mem [OF t(3) r(1)] by blast
    note rx = range_nodes_true(1) [OF sn r(2)]
    have "rg_ChunkLog r \<le> k" using assms(1,2) r(1) by (simp add: assembled_def)
    moreover have "first_chunk s \<le> p" "p + 2 ^ k \<le> stop_chunk s n" using rx nest by linarith+
    ultimately obtain y where "y \<in> set (BlockSubtrees r)" "p \<le> sub_Pos y" "sub_Pos y + 2 ^ sub_Height y \<le> p + 2 ^ k" "covers y i"
      using range_block_covers [OF sn _ assms(3)] assms(4,5) by auto
    moreover have "p + 2 ^ k \<le> chunk_count body" using nest m by linarith
    ultimately show ?thesis using r(1) by (intro bexI [of _ y]) auto
  qed
qed

lemma nodes_true:
  assumes "assembled G body rs nodes" and "x \<in> set (nodes @ concat (map BlockSubtrees rs))"
  shows "true_sub G (chunk body) x \<and> sub_Pos x + 2 ^ sub_Height x \<le> chunk_count body"
proof (cases "x \<in> set nodes")
  case True
  then show ?thesis using assms(1) tiles_mem unfolding assembled_def by blast
next
  case False
  then obtain r where r: "r \<in> set rs" "x \<in> set (BlockSubtrees r)" using assms(2) by auto
  obtain s n where "range_of G body s n r" "s + n \<le> length body" using ranges_mem [of G body 0 rs] assms(1) r(1) unfolding assembled_def by blast
  then show ?thesis using range_nodes_true(2) [OF _ r(2)] stop_chunk_le [of s n body] by fastforce
qed

lemma chunk_count_le: "chunk_count body \<le> j \<longleftrightarrow> length body \<le> j * ChunkSize"
  unfolding chunk_count_def by (rule up_div_le) (simp add: ChunkSize_def)

lemma stop_of_block:
  assumes "length body < 2 ^ 62" and "j * ChunkSize < length body"
  shows "toU64 (min (int (j * ChunkSize) + int (b * ChunkSize)) (int (length body)) + int ChunkSize - 1) div ChunkSize = min (j + b) (chunk_count body)"
proof -
  define z where "z = min ((j + b) * ChunkSize) (length body)"
  have z: "min (int (j * ChunkSize) + int (b * ChunkSize)) (int (length body)) = int z"
    unfolding z_def add_mult_distrib of_nat_add [symmetric] by (simp only: of_nat_min)
  have "z \<le> length body" by (simp add: z_def)
  then have "toU64 (int z + int ChunkSize - 1) = z + ChunkSize - 1" using assms(1) by (simp add: toU64_def ChunkSize_def nat_add_distrib)
  then have "toU64 (int z + int ChunkSize - 1) div ChunkSize = up_div z ChunkSize" by (simp add: up_div_def)
  moreover have "up_div ((j + b) * ChunkSize) ChunkSize = j + b" by (simp add: up_div_def ChunkSize_def)
  moreover have mono: "up_div x ChunkSize \<le> up_div y ChunkSize" if "x \<le> y" for x y unfolding up_div_def using that by (intro div_le_mono) simp
  ultimately show ?thesis unfolding z
    using mono [of "(j + b) * ChunkSize" "length body"] mono [of "length body" "(j + b) * ChunkSize"]
    by (cases "(j + b) * ChunkSize \<le> length body") (simp_all add: z_def chunk_count_def)
qed

lemma blocksLoop_blocks:
  assumes "assembled G body rs nodes" and "k = ChunkLog (int (length body))" and "length body < 2 ^ 62" and "node_law G"
  shows "blocksLoop G (nodes @ concat (map BlockSubtrees rs)) (int (2 ^ k * ChunkSize)) (int (length body)) (int (j * 2 ^ k * ChunkSize)) =
    Inr (Some (block_cvs G (chunk body) k (chunk_count body) j (up_div (chunk_count body) (2 ^ k))))"
proof (induction "up_div (chunk_count body) (2 ^ k) - j" arbitrary: j rule: less_induct)
  case less
  define N where "N = chunk_count body"
  have ends: "int (j * 2 ^ k * ChunkSize) < int (length body) \<longleftrightarrow> j < up_div N (2 ^ k)"
    using chunk_count_le [of body "j * 2 ^ k"] up_div_le [of "2 ^ k" N j] unfolding N_def by (metis not_le of_nat_less_iff zero_less_numeral zero_less_power)
  have N: "N < 2 ^ 64" using chunk_count_le [of body "2 ^ 63"] assms(3) by (simp add: N_def ChunkSize_def)
  show ?case
  proof (cases "j < up_div N (2 ^ k)")
    case False
    then show ?thesis using ends unfolding N_def by (subst blocksLoop.simps) (simp add: block_cvs_def)
  next
    case True
    define p where "p = j * 2 ^ k"
    have jp: "p * ChunkSize < length body" using ends True unfolding p_def of_nat_less_iff by blast
    then have pN: "p < N" using chunk_count_le [of body p] by (simp add: N_def not_le [symmetric])
    have "CoverCV G (nodes @ concat (map BlockSubtrees rs)) p (min (p + 2 ^ k) N) = Inr (Some (bytesOf (spanCV G (chunk body) p (min (p + 2 ^ k) N - p))))"
    proof (rule CoverCV_span [OF assms(4), where k = k])
      show "true_sub G (chunk body) x \<and> sub_Pos x + 2 ^ sub_Height x < 2 ^ 64" if "x \<in> set (nodes @ concat (map BlockSubtrees rs))" for x
        using nodes_true [OF assms(1) that] N unfolding N_def by linarith
      show "\<exists>x \<in> set (nodes @ concat (map BlockSubtrees rs)). p \<le> sub_Pos x \<and> sub_Pos x + 2 ^ sub_Height x \<le> min (p + 2 ^ k) N \<and> covers x i"
        if "p \<le> i" "i < min (p + 2 ^ k) N" for i
        using nodes_cover [OF assms(1,2), of p i] that unfolding N_def p_def by simp
    qed (use N pN in \<open>auto simp: p_def\<close>)
    moreover have "toU64 (int (p * ChunkSize)) div ChunkSize = p" using jp assms(3) by (simp add: toU64_def ChunkSize_def)
    moreover have "min (p + 2 ^ k) N - p = min (2 ^ k) (N - p)" using pN by (auto simp: min_def)
    moreover note stop_of_block [OF assms(3) jp, of "2 ^ k", folded N_def]
    moreover have "block_cvs G (chunk body) k N j (up_div N (2 ^ k)) = bytesOf (spanCV G (chunk body) p (min (2 ^ k) (N - p))) # block_cvs G (chunk body) k N (Suc j) (up_div N (2 ^ k))"
      using True by (simp add: block_cvs_def upt_conv_Cons p_def)
    moreover have "int (p * ChunkSize) + int (2 ^ k * ChunkSize) = int (Suc j * 2 ^ k * ChunkSize)" by (simp add: p_def algebra_simps)
    moreover have "up_div N (2 ^ k) - Suc j < up_div N (2 ^ k) - j" using True by simp
    note IH = less [OF this [unfolded N_def], folded N_def]
    ultimately show ?thesis
      using IH True jp unfolding N_def [symmetric] p_def [symmetric]
      by (subst blocksLoop.simps) (simp add: ChunkSize_def del: of_nat_mult of_nat_add of_nat_power mult_Suc)
  qed
qed

section \<open>The assembly\<close>

lemma single_chunk_tiles: "tiles G ch 0 xs (Suc 0) \<Longrightarrow> length xs = 1"
proof (cases xs)
  case (Cons x ys)
  assume "tiles G ch 0 xs (Suc 0)"
  then have t: "tiles G ch (2 ^ sub_Height x) ys 1" using Cons by simp
  moreover have "1 \<le> (2 :: nat) ^ sub_Height x" by simp
  ultimately have "tiles G ch 1 ys 1" using tiles_le [OF t] by (metis le_antisym)
  then have "ys = []" by (cases ys) (use tiles_le in force)+
  then show ?thesis using Cons by simp
qed simp

lemma two_nodes:
  assumes "assembled G body rs nodes" and "2 \<le> length rs" and "\<And>r. r \<in> set rs \<Longrightarrow> rg_Size r > 0" and "1 < chunk_count body"
  shows "2 \<le> length nodes"
proof (rule ccontr)
  assume "\<not> 2 \<le> length nodes"
  moreover have t: "tiles G (chunk body) 0 nodes (chunk_count body)" "adds [] rs nodes" "ranges_from G body 0 rs (length body)"
    using assms(1) by (simp_all add: assembled_def)
  ultimately obtain x where x: "nodes = [x]" using assms(4) by (cases nodes; cases "tl nodes") auto
  then have e: "sub_Pos x = 0" "2 ^ sub_Height x = chunk_count body" using t(1) by auto
  then have "sub_Height x \<noteq> 0" using assms(4) by (cases "sub_Height x") auto
  then obtain r where r: "r \<in> set rs" "x \<in> set (rg_Subtrees r)" using t(2) x by (auto simp: adds_def)
  obtain s n where sn: "range_of G body s n r" "0 < s \<or> n < length body" using ranges_part [OF t(3) assms(3,2) r(1)] by blast
  note rx = range_nodes_true(1) [OF sn(1) r(2)]
  have "s \<le> first_chunk s * ChunkSize" unfolding first_chunk_def by (rule up_div_ge)
  then have s: "s = 0" "first_chunk s = 0" using rx e(1) by simp_all
  have "chunk_count body \<le> max 0 (n div ChunkSize)" using rx e s(2) unfolding stop_chunk_def s(1) by simp
  then have "chunk_count body * ChunkSize \<le> n" by (simp add: less_eq_div_iff_mult_less_eq ChunkSize_def)
  then show False using chunk_count_le [of body "chunk_count body"] sn(2) s(1) by simp
qed

lemma assembleRoot_assembled:
  assumes "assembled G body rs nodes" and "\<And>r. r \<in> set rs \<Longrightarrow> rg_Size r > 0" and "length body < 2 ^ 62" and "node_law G"
  shows "assembleRoot G (int (length body)) rs nodes =
    Inr (if 2 \<le> length rs \<and> length body \<le> ChunkSize then None else Some (blake3_root G body))"
proof -
  have t: "tiles G (chunk body) 0 nodes (chunk_count body)" "ranges_from G body 0 rs (length body)"
    using assms(1) by (simp_all add: assembled_def)
  consider "body = []" | r where "body \<noteq> []" "rs = [r]" | "body \<noteq> []" "2 \<le> length rs"
    using t(2) by (cases rs; cases "tl rs") auto
  then show ?thesis
  proof cases
    case 1
    obtain h where h: "NewHasher 0 = Inr h" "fed G [] 0 0 h" using NewHasher_fed [of 0 "[]" G] by auto
    have "rs = []"
    proof (cases rs)
      case (Cons r rs')
      then obtain n where "range_of G body 0 n r" using t(2) by auto
      then show ?thesis using assms(2) [of r] Cons 1 by (simp add: range_of_def)
    qed simp
    then show ?thesis using 1 h FinishObject_fed [of G "[]" h] by (simp add: assembleRoot_def)
  next
    case 2
    then have "range_of G body 0 (length body) r" using t(2) by auto
    then show ?thesis using 2 by (simp add: assembleRoot_def range_of_def)
  next
    case 3
    have c63: "chunk_count body < 2 ^ 63" using chunk_count_le [of body "2 ^ 62"] assms(3) by (simp add: ChunkSize_def)
    show ?thesis
    proof (cases "length body \<le> ChunkSize")
      case True
      have "0 < chunk_count body" using chunk_count_le [of body 0] 3(1) by simp
      then have "chunk_count body = Suc 0" using chunk_count_le [of body 1] True by simp
      then have "length nodes = 1" using single_chunk_tiles t(1) by simp
      then show ?thesis using 3 True by (simp add: assembleRoot_def RootFromSubtrees_def)
    next
      case False
      then have "1 < chunk_count body" using chunk_count_le [of body 1] by simp
      note two = two_nodes [OF assms(1) 3(2) assms(2) this]
      show ?thesis using 3 False RootFromSubtrees_tiles [OF assms(4) t(1) c63 two] by (simp add: assembleRoot_def)
    qed
  qed
qed

lemma assembleBlocks_assembled:
  assumes "assembled G body rs nodes" and "length body < 2 ^ 62" and "node_law G"
  shows "assembleBlocks G (int (length body)) (blake3_root G body) (nodes @ concat (map BlockSubtrees rs)) =
    Inr (Some (object_of G body))"
proof -
  define k where "k = ChunkLog (int (length body))"
  have "(2 :: int) ^ k \<le> 2 ^ 38" using ChunkLog_le by (intro power_increasing) (auto simp: k_def)
  then have "BlockSize k = int (2 ^ k * ChunkSize)" by (simp add: BlockSize_def ChunkSize_def int64_small mult.commute)
  then have b: "blocksLoop G (nodes @ concat (map BlockSubtrees rs)) (BlockSize k) (int (length body)) 0 = Inr (Some (blake3_blocks G k body))"
    using blocksLoop_blocks [OF assms(1) k_def assms(2,3), of 0] by (simp add: blake3_blocks_cvs)
  have "chunk_count body < 2 ^ 63" using chunk_count_le [of body "2 ^ 62"] assms(2) by (simp add: ChunkSize_def)
  then have "length (blake3_blocks G k body) \<ge> 2 \<Longrightarrow> RootFromBlocks G (blake3_blocks G k body) = Some (blake3_root G body)"
    using RootFromBlocks_root [OF assms(3)] by (simp add: blake3_blocks_def)
  then show ?thesis unfolding assembleBlocks_def object_of_def k_def [symmetric] Let_def b by auto
qed

lemma Assemble_ranges:
  assumes "node_law G" and "length body < 2 ^ 62" and "ranges_from G body 0 ranges (length body)" and "ranges \<noteq> []"
    and "\<And>r. r \<in> set ranges \<Longrightarrow> rg_ChunkLog r \<le> ChunkLog (int (length body))"
  shows "Assemble G ranges =
    Inr (if length body \<le> ChunkSize \<and> 2 \<le> length (filter (\<lambda>r. rg_Size r > 0) ranges) then None
         else Some (object_of G body))"
proof -
  define filled where "filled = filter (\<lambda>r. rg_Size r > 0) ranges"
  have tot: "totalLoop 0 [] ranges = Some (int (length body), filled)"
    using totalLoop_ranges [OF assms(2,3), of "[]"] by (simp add: filled_def)
  have rf: "ranges_from G body 0 filled (length body)" unfolding filled_def by (rule ranges_filled [OF assms(3)])
  have hd0: "\<not> (filled \<noteq> [] \<and> rg_Head (hd filled) \<noteq> [])"
    using rf by (cases filled) (auto simp: range_of_def first_chunk_def up_div_def ChunkSize_def)
  obtain nodes0 pending pc where n: "nodesLoop G filled [] [] 0 = Some (nodes0, pending, pc)" "gathered G body (length body) nodes0 pending pc" "adds [] filled nodes0"
    using nodesLoop_ranges [OF assms(2) rf, of "[]" "[]" 0] by (auto simp: gathered_def)
  define nodes where "nodes = nodes0 @ (if pending = [] then [] else [chunkNode G pending pc])"
  have a: "assembled G body filled nodes"
    unfolding assembled_def nodes_def using rf tiles_body [OF n(2)] n(3) assms(5) by (auto simp: adds_def chunkNode_def filled_def)
  have pos: "\<And>r. r \<in> set filled \<Longrightarrow> rg_Size r > 0" by (simp add: filled_def)
  show ?thesis
    using assms(4) hd0 assembleRoot_assembled [OF a pos assms(2,1)] assembleBlocks_assembled [OF a assms(2,1)]
    unfolding Assemble_def tot option.case prod.case n(1) Let_def nodes_def [symmetric] filled_def [symmetric] by auto
qed

section \<open>Parts hashed apart\<close>

text \<open>A part hashed at its offset by a hasher of its own, in any number of writes, with blocks sized by the part or at
  a chunk log that the body up to the part's end allows.\<close>

definition hashed_at :: "'n guts \<Rightarrow> nat \<Rightarrow> bytes \<Rightarrow> Range \<Rightarrow> bool" where
  "hashed_at G off part r \<longleftrightarrow>
     (\<exists>ps h. concat ps = part \<and> r = FinishRange G (fold (h_Write G) ps h)
        \<and> (NewHasher (int off) = Inr h
           \<or> (\<exists>cl \<le> ChunkLog (int (off + length part)). NewHasherAtChunkLog (int off) cl = Inr h)))"

fun hashed_parts :: "'n guts \<Rightarrow> nat \<Rightarrow> bytes list \<Rightarrow> Range list \<Rightarrow> bool" where
  "hashed_parts G off [] [] \<longleftrightarrow> True"
| "hashed_parts G off (p # ps) (r # rs) \<longleftrightarrow> hashed_at G off p r \<and> hashed_parts G (off + length p) ps rs"
| "hashed_parts G off _ _ \<longleftrightarrow> False"

text \<open>A hasher made for any body that reaches its offset.\<close>

lemma fresh_fed:
  assumes "NewHasher (int s) = Inr h \<or> (\<exists>cl \<le> ChunkLog z. NewHasherAtChunkLog (int s) cl = Inr h)" and "s \<le> length body" and "length body < 2 ^ 62"
  shows "fed G body s 0 h \<and> (\<not> hs_fixed h \<or> hs_blockHeight h \<le> ChunkLog z)"
  using assms(1)
proof
  assume "NewHasher (int s) = Inr h"
  then show ?thesis using NewHasher_fed [OF assms(2,3), of G] by auto
next
  assume "\<exists>cl \<le> ChunkLog z. NewHasherAtChunkLog (int s) cl = Inr h"
  then obtain cl where cl: "cl \<le> ChunkLog z" "NewHasherAtChunkLog (int s) cl = Inr h" by blast
  moreover have "cl \<le> MaxChunkLog" using cl(1) ChunkLog_le [of z] by (simp add: MaxChunkLog_def)
  ultimately show ?thesis using NewHasherAtChunkLog_fed [OF assms(2,3), of cl G] by auto
qed

lemma hashed_at_range:
  assumes "hashed_at G s part r" and "part = take (length part) (drop s body)" and "s + length part \<le> length body" and "length body < 2 ^ 62"
    and "buffer_law G"
  shows "range_of G body s (length part) r" and "rg_ChunkLog r \<le> ChunkLog (int (s + length part))"
proof -
  obtain ps h where h: "concat ps = part" "r = FinishRange G (fold (h_Write G) ps h)"
      "NewHasher (int s) = Inr h \<or> (\<exists>cl \<le> ChunkLog (int (s + length part)). NewHasherAtChunkLog (int s) cl = Inr h)"
    using assms(1) unfolding hashed_at_def by blast
  define h' where "h' = fold (h_Write G) ps h"
  note lt = assms(4)
  have fed: "fed G b s (length part) h' \<and> hs_fixed h' = hs_fixed h \<and> (hs_fixed h \<longrightarrow> hs_blockHeight h' = hs_blockHeight h)"
    if "part = take (length part) (drop s b)" "s + length part \<le> length b" "length b < 2 ^ 62" for b
    using fresh_fed [OF h(3), of b G] writes_fed [of G b s 0 h ps] that h(1) assms(5) by (simp add: h'_def)
  note fb = fed [OF assms(2-4)]
  have "fed G (take (length part) body) 0 (length part) h'" if "s = 0"
    using fed [of "take (length part) body"] that assms(2,3,4) by (simp add: min_absorb2)
  note fr = FinishRange_fed [OF conjunct1 [OF fb] this assms(4)]
  show "range_of G body s (length part) r" using fr(1) h(2) by (simp add: h'_def)
  have "hs_blockHeight h' \<le> ChunkLog (int (s + length part))"
  proof (cases "hs_fixed h")
    case True
    then show ?thesis using fb fresh_fed [OF h(3), of body G] assms(3,4) by auto
  next
    case False
    then have "hs_blockHeight h' = ChunkLog (int (length part))" using fb by (auto simp: fed_def)
    then show ?thesis using ChunkLog_mono [of "int (length part)" "int (s + length part)"] by simp
  qed
  then show "rg_ChunkLog r \<le> ChunkLog (int (s + length part))" using fr(2) h(2) by (simp add: h'_def)
qed

lemma hashed_parts_ranges:
  assumes "length body < 2 ^ 62" and "buffer_law G"
  shows "hashed_parts G s pieces rs \<Longrightarrow> concat pieces = drop s body \<Longrightarrow> s \<le> length body \<Longrightarrow>
    ranges_from G body s rs (length body) \<and> (\<forall>r \<in> set rs. rg_ChunkLog r \<le> ChunkLog (int (length body)))
    \<and> map rg_Size rs = map (\<lambda>p. int (length p)) pieces"
proof (induction pieces arbitrary: s rs)
  case Nil
  then show ?case by (cases rs) auto
next
  case (Cons p ps)
  then obtain r rs' where rs: "rs = r # rs'" "hashed_at G s p r" "hashed_parts G (s + length p) ps rs'" by (cases rs) auto
  have len: "s + length p \<le> length body" using arg_cong [OF Cons.prems(2), of length] Cons.prems(3) by simp
  have p: "p = take (length p) (drop s body)" using arg_cong [OF Cons.prems(2), of "take (length p)"] by simp
  have d: "concat ps = drop (s + length p) body" using arg_cong [OF Cons.prems(2), of "drop (length p)"] by (simp add: add.commute)
  note r = hashed_at_range [OF rs(2) p len assms]
  have "ChunkLog (int (s + length p)) \<le> ChunkLog (int (length body))" using len by (intro ChunkLog_mono) simp
  then show ?case using Cons.IH [OF rs(3) d len] r rs(1) range_size [OF r(1)] by auto
qed

section \<open>Property\<close>

text \<open>C16. Parts of a body, cut anywhere, each hashed on its own at its offset in any number of writes, assemble to the
  tree that hashing the body in one pass gives: its size, its BLAKE3 hash, its chunk log and its blocks. The
  one exception is a body of a single chunk cut into two or more parts that are not empty, which is
  refused.\<close>

theorem Assemble_parts:
  assumes "buffer_law G" and "node_law G" and "hashed_parts G 0 pieces ranges" and "pieces \<noteq> []" and "length (concat pieces) < 2 ^ 62"
  shows "\<exists>h obj. NewHasher 0 = Inr h \<and> FinishObject G (h_Write G (concat pieces) h) = Inr obj
    \<and> obj_Root obj = blake3_root G (concat pieces)
    \<and> Assemble G ranges =
        Inr (if length (concat pieces) \<le> ChunkSize \<and> 2 \<le> length (filter (\<lambda>p. p \<noteq> []) pieces) then None else Some obj)"
proof -
  define body where "body = concat pieces"
  note r = hashed_parts_ranges [OF assms(5) [folded body_def] assms(1,3)]
  have rs: "ranges_from G body 0 ranges (length body)" "\<And>r. r \<in> set ranges \<Longrightarrow> rg_ChunkLog r \<le> ChunkLog (int (length body))"
    "map rg_Size ranges = map (\<lambda>p. int (length p)) pieces" using r by (simp_all add: body_def)
  have "ranges \<noteq> []" using rs(3) assms(4) by auto
  note asm = Assemble_ranges [OF assms(2) assms(5) [folded body_def] rs(1) this rs(2)]
  have "length (filter (\<lambda>r. rg_Size r > 0) ranges) = length (filter (\<lambda>z. z > 0) (map rg_Size ranges))" by (simp add: filter_map comp_def)
  also have "\<dots> = length (filter (\<lambda>p. p \<noteq> []) pieces)" unfolding rs(3) by (simp add: filter_map comp_def)
  finally have count: "length (filter (\<lambda>r. rg_Size r > 0) ranges) = length (filter (\<lambda>p. p \<noteq> []) pieces)" .
  obtain h where "NewHasher 0 = Inr h" "FinishObject G (h_Write G body h) = Inr (object_of G body)"
    using object_hashed [OF assms(1), of "[body]" body] assms(5) by (auto simp: body_def)
  then show ?thesis using asm unfolding count body_def [symmetric] by (auto simp: object_of_def)
qed

theorem Assemble_parts_witness:
  "\<exists>h1 h2 obj. NewHasher 0 = Inr h1 \<and> NewHasher 1500 = Inr h2
    \<and> Assemble demo_guts [FinishRange demo_guts (h_Write demo_guts (replicate 1500 CHR ''a'') h1),
        FinishRange demo_guts (h_Write demo_guts (replicate 700 CHR ''b'') h2)] = Inr (Some obj)
    \<and> obj_Root obj = blake3_root demo_guts (replicate 1500 CHR ''a'' @ replicate 700 CHR ''b'')"
proof -
  let ?a = "replicate 1500 CHR ''a''" and ?b = "replicate 700 CHR ''b''"
  obtain h1 h2 where h: "NewHasher 0 = Inr h1" "NewHasher 1500 = Inr h2" by (auto simp: NewHasher_def Let_def)
  define r1 r2 where "r1 = FinishRange demo_guts (h_Write demo_guts ?a h1)" and "r2 = FinishRange demo_guts (h_Write demo_guts ?b h2)"
  have "hashed_at demo_guts 0 ?a r1" "hashed_at demo_guts 1500 ?b r2"
    unfolding hashed_at_def using h by (intro exI [of _ "[_]"]; auto simp: r1_def r2_def)+
  then have "hashed_parts demo_guts 0 [?a, ?b] [r1, r2]" by simp
  from Assemble_parts [OF demo_laws this] obtain h obj where "obj_Root obj = blake3_root demo_guts (?a @ ?b)" "Assemble demo_guts [r1, r2] = Inr (Some obj)"
    by (auto simp: ChunkSize_def)
  then show ?thesis using h unfolding r1_def r2_def by blast
qed

end
