(* ===== verification/Blake3_Outboard.thy ===== *)
theory Blake3_Outboard
  imports Blake3_Parts
begin

text \<open>
  The Bao outboard of a body and the verification of ranges against it
  (\<open>src/blake3tree/blake3tree.go\<close>, from \<open>Outboard\<close> on), and the encoding of subtrees for storage. The check of
  one block, \<open>bao.VerifyChunk\<close>, is a parameter. A reader is the bytes it will give and the error that
  follows them, none standing for the end of the file.
\<close>

section \<open>Outboards\<close>

text \<open>\<open>copy(out[at:], b)\<close> where the bytes fit.\<close>

definition writeAt :: "bytes \<Rightarrow> nat \<Rightarrow> bytes \<Rightarrow> bytes" where
  "writeAt out at b = take at out @ b @ drop (at + length b) out"

function preorder :: "'n guts \<Rightarrow> CV list \<Rightarrow> bytes \<Rightarrow> CV \<times> bytes" where
  "preorder G blocks out =
     (if length blocks \<le> 1 \<or> length blocks \<ge> 2 ^ 63 then (hd blocks, out)
      else
        let k = leftCount (length blocks);
            at = length out;
            (l, out1) = preorder G (take k blocks) (out @ replicate 64 (CHR 0x00));
            (r, out2) = preorder G (drop k blocks) out1
        in (ParentCV G l r, writeAt (writeAt out2 at l) (at + 32) r))"
  by pat_completeness auto
termination by (relation "measure (\<lambda>(_, bs, _). length bs)") (use leftCount_splits in fastforce)+

declare preorder.simps [simp del]

definition Outboard :: "'n guts \<Rightarrow> CV list \<Rightarrow> int \<Rightarrow> bytes" where
  "Outboard G blocks sz =
     (let out = leBytes 8 (toU64 sz) in if length blocks > 1 then snd (preorder G blocks out) else out)"

definition OutboardSize :: "bytes \<Rightarrow> int" where
  "OutboardSize outboard = int64 (int (le (take 8 outboard)))"

definition CheckOutboard :: "bytes \<Rightarrow> tree_error option" where
  "CheckOutboard b =
     (if length b < 8 \<or> (length b - 8) mod 64 \<noteq> 0 then Some (TreeErr ''not a size prefix plus parent entries'') else None)"

definition OutboardBlocks :: "bytes \<Rightarrow> nat \<Rightarrow> tree_error + int" where
  "OutboardBlocks outboard cl =
     (case CheckOutboard outboard of
        Some e \<Rightarrow> Inl e
      | None \<Rightarrow>
          if cl > MaxChunkLog then Inl (TreeErr ''chunk log is above the largest'')
          else
            let sz = OutboardSize outboard
            in if sz < 0 then Inl (TreeErr ''outboard size prefix is negative'')
               else
                 let blocks = blocksIn sz cl; parents = (int (length outboard) - 8) div 64
                 in if parents \<noteq> max (blocks - 1) 0 then Inl (TreeErr ''wrong number of parent entries'') else Inr blocks)"

definition AlignedRange :: "int \<Rightarrow> int \<Rightarrow> nat \<Rightarrow> int \<Rightarrow> tree_error + int \<times> int" where
  "AlignedRange a b cl sz =
     (if cl > MaxChunkLog then Inl (TreeErr ''chunk log is above the largest'')
      else if a < 0 \<or> b < a then Inl (TreeErr ''range is not ascending'')
      else if a \<ge> sz then Inl (TreeErr ''range starts past the body'')
      else
        let block = BlockSize cl;
            start = int64 (a div block * block);
            endBlocks = int64 (b div block + 1)
        in if endBlocks \<ge> blocksIn sz cl then Inr (start, sz - 1) else Inr (start, int64 (int64 (endBlocks * block) - 1)))"

section \<open>Verifying a range\<close>

datatype read_error = EOF | UnexpectedEOF | ReadFailed string

type_synonym reader = "bytes \<times> string option"

definition ReadFull :: "nat \<Rightarrow> reader \<Rightarrow> bytes \<times> read_error option \<times> reader" where
  "ReadFull n rd =
     (case rd of (data, e) \<Rightarrow>
        if n \<le> length data then (take n data, None, (drop n data, e))
        else (data, Some (case e of Some x \<Rightarrow> ReadFailed x | None \<Rightarrow> if data = [] then EOF else UnexpectedEOF), ([], e)))"

datatype verify_error = VerifyErr tree_error | ReaderErr string | BlockError int int | VerifyOutOfFuel

definition emptyRoot :: "'n guts \<Rightarrow> CV" where
  "emptyRoot G = bytesOf (ChainingValue G (CompressChunk G [] 0 (FlagRoot G)))"

type_synonym verify_chunk = "bytes \<Rightarrow> bytes \<Rightarrow> nat \<Rightarrow> nat \<Rightarrow> CV \<Rightarrow> bool"

text \<open>One round of the loop of \<open>VerifyBlocks\<close>: what it returns, or how many bytes are verified and what is left to
  read. Each round but the last reads a whole block, so the number of bytes is fuel enough for the loop.\<close>

definition verifyRound :: "verify_chunk \<Rightarrow> bytes \<Rightarrow> nat \<Rightarrow> CV \<Rightarrow> int \<Rightarrow> int \<Rightarrow> int \<Rightarrow> int \<Rightarrow> reader \<Rightarrow> (int \<times> verify_error option) + (int \<times> reader)" where
  "verifyRound V outboard cl root sz block offset verified rd =
     (let (data, err, rd') = ReadFull (nat (min block (sz - offset))) rd;
          n = int (length data);
          pos = offset + verified
      in if n = 0 \<and> (err = Some EOF \<or> err = Some UnexpectedEOF) then
           Inl (if verified = 0 \<and> sz > 0 then (0, Some (VerifyErr (TreeErr ''no data to verify''))) else (verified, None))
         else
           case err of
             Some (ReadFailed x) \<Rightarrow> Inl (verified, Some (ReaderErr x))
           | _ \<Rightarrow>
               if n > sz - pos then Inl (verified, Some (VerifyErr (TreeErr ''data runs past the end of the body'')))
               else if n < block \<and> pos + n \<noteq> sz then Inl (verified, Some (VerifyErr (TreeErr ''data ends inside a block'')))
               else if \<not> V data outboard cl (nat pos) root then Inl (verified, Some (BlockError pos n))
               else if n < block \<or> verified + n = sz - offset then
                 Inl (if fst (ReadFull 1 rd') \<noteq> [] then (verified + n, Some (VerifyErr (TreeErr ''data runs past the end of the body'')))
                      else (verified + n, None))
               else Inr (verified + n, rd'))"

fun verifyLoop :: "nat \<Rightarrow> verify_chunk \<Rightarrow> bytes \<Rightarrow> nat \<Rightarrow> CV \<Rightarrow> int \<Rightarrow> int \<Rightarrow> int \<Rightarrow> int \<Rightarrow> reader \<Rightarrow> int \<times> verify_error option" where
  "verifyLoop 0 V outboard cl root sz block offset verified rd = (verified, Some VerifyOutOfFuel)"
| "verifyLoop (Suc fuel) V outboard cl root sz block offset verified rd =
     (case verifyRound V outboard cl root sz block offset verified rd of
        Inl res \<Rightarrow> res
      | Inr (verified', rd') \<Rightarrow> verifyLoop fuel V outboard cl root sz block offset verified' rd')"

definition VerifyBlocks :: "'n guts \<Rightarrow> verify_chunk \<Rightarrow> reader \<Rightarrow> bytes \<Rightarrow> nat \<Rightarrow> int \<Rightarrow> CV \<Rightarrow> int \<times> verify_error option" where
  "VerifyBlocks G V rd outboard cl offset root =
     (case OutboardBlocks outboard cl of
        Inl e \<Rightarrow> (0, Some (VerifyErr e))
      | Inr _ \<Rightarrow>
          let sz = OutboardSize outboard; block = BlockSize cl
          in if offset < 0 \<or> offset mod block \<noteq> 0 then (0, Some (VerifyErr (TreeErr ''offset is not a multiple of the block size'')))
             else if offset > sz then (0, Some (VerifyErr (TreeErr ''offset is past the body'')))
             else if offset = sz then
               if fst (ReadFull 1 rd) \<noteq> [] then (0, Some (VerifyErr (TreeErr ''data runs past the end of the body'')))
               else if sz > 0 then (0, Some (VerifyErr (TreeErr ''nothing to verify'')))
               else if root \<noteq> emptyRoot G then (0, Some (BlockError 0 0))
               else (0, None)
             else verifyLoop (length (fst rd) + 1) V outboard cl root sz block offset 0 rd)"

section \<open>The entries of an outboard\<close>

text \<open>The parents above the blocks in pre-order, each the chaining values of its two children.\<close>

function entries :: "'n guts \<Rightarrow> CV list \<Rightarrow> bytes" where
  "entries G blocks =
     (if length blocks \<le> 1 \<or> length blocks \<ge> 2 ^ 63 then []
      else
        let k = leftCount (length blocks)
        in subtreeCV G (take k blocks) @ subtreeCV G (drop k blocks) @ entries G (take k blocks) @ entries G (drop k blocks))"
  by pat_completeness auto
termination by (relation "measure (\<lambda>(_, bs). length bs)") (use leftCount_splits in fastforce)+

declare entries.simps [simp del]

lemma length_subtreeCV:
  assumes "node_law G"
  shows "blocks \<noteq> [] \<Longrightarrow> length blocks < 2 ^ 63 \<Longrightarrow> (\<And>b. b \<in> set blocks \<Longrightarrow> length b = 32) \<Longrightarrow> length (subtreeCV G blocks) = 32"
  by (cases "length blocks \<le> 1")
    (use assms in \<open>auto simp: subtreeCV.simps [of G blocks] Let_def ParentCV_def parentCV_def node_law_def\<close>)

text \<open>The halves a list of blocks is split into.\<close>

lemma halves:
  assumes "1 < length blocks" and "length blocks < 2 ^ 63" and "\<And>b. b \<in> set blocks \<Longrightarrow> length b = 32"
    and "l = take (leftCount (length blocks)) blocks" and "r = drop (leftCount (length blocks)) blocks"
  shows "l \<noteq> []" "r \<noteq> []" "length l < length blocks" "length r < length blocks" "length l + length r = length blocks"
    "length l < 2 ^ 63" "length r < 2 ^ 63" "\<And>b. b \<in> set l \<Longrightarrow> length b = 32" "\<And>b. b \<in> set r \<Longrightarrow> length b = 32"
  using leftCount_splits [of blocks] assms by (auto dest: in_set_takeD in_set_dropD)

lemma preorder_entries:
  assumes "node_law G"
  shows "blocks \<noteq> [] \<Longrightarrow> length blocks < 2 ^ 63 \<Longrightarrow> (\<And>b. b \<in> set blocks \<Longrightarrow> length b = 32) \<Longrightarrow>
    preorder G blocks out = (subtreeCV G blocks, out @ entries G blocks)"
proof (induction "length blocks" arbitrary: blocks out rule: less_induct)
  case less
  show ?case
  proof (cases "length blocks \<le> 1")
    case True
    then show ?thesis by (simp add: preorder.simps [of G blocks] subtreeCV.simps [of G blocks] entries.simps [of G blocks])
  next
    case False
    define l r where "l = take (leftCount (length blocks)) blocks" and "r = drop (leftCount (length blocks)) blocks"
    have one: "1 < length blocks" using False by simp
    note hv = halves [OF one less(3,4) l_def r_def]
    define L R where "L = subtreeCV G l" and "R = subtreeCV G r"
    have len: "length L = 32" "length R = 32" using length_subtreeCV [OF assms] hv by (simp_all add: L_def R_def)
    have p: "preorder G l o' = (L, o' @ entries G l)" "preorder G r o' = (R, o' @ entries G r)" for o'
      using less(1) [of l o'] less(1) [of r o'] hv by (simp_all add: L_def R_def)
    have w: "writeAt (writeAt (out @ replicate 64 z @ es) (length out) L) (length out + 32) R = out @ L @ R @ es" for z es
      using len by (simp add: writeAt_def)
    show ?thesis
      using one less(3) p w unfolding preorder.simps [of G blocks] subtreeCV.simps [of G blocks] entries.simps [of G blocks] Let_def l_def [symmetric] r_def [symmetric]
        L_def [symmetric] R_def [symmetric] by simp
  qed
qed

lemma length_entries:
  assumes "node_law G"
  shows "blocks \<noteq> [] \<Longrightarrow> length blocks < 2 ^ 63 \<Longrightarrow> (\<And>b. b \<in> set blocks \<Longrightarrow> length b = 32) \<Longrightarrow> length (entries G blocks) = 64 * (length blocks - 1)"
proof (induction "length blocks" arbitrary: blocks rule: less_induct)
  case less
  show ?case
  proof (cases "length blocks \<le> 1")
    case False
    define l r where "l = take (leftCount (length blocks)) blocks" and "r = drop (leftCount (length blocks)) blocks"
    have one: "1 < length blocks" using False by simp
    note hv = halves [OF one less(3,4) l_def r_def]
    have "entries G blocks = subtreeCV G l @ subtreeCV G r @ entries G l @ entries G r"
      using one less(3) unfolding entries.simps [of G blocks] Let_def l_def [symmetric] r_def [symmetric] by simp
    then have "length (entries G blocks) = 64 + 64 * (length l - 1) + 64 * (length r - 1)"
      using less(1) [of l] less(1) [of r] length_subtreeCV [OF assms] hv by simp
    moreover have "0 < length l" "0 < length r" using hv(1,2) by simp_all
    ultimately show ?thesis using hv(5) by linarith
  qed (simp add: entries.simps [of G blocks])
qed

lemma up_div_up_div: "0 < a \<Longrightarrow> 0 < b \<Longrightarrow> up_div (up_div n a) b = up_div n (a * b)"
proof -
  assume "0 < a" "0 < b"
  then have "up_div (up_div n a) b \<le> j \<longleftrightarrow> up_div n (a * b) \<le> j" for j by (simp add: up_div_le ac_simps)
  then show ?thesis by (metis le_antisym order_refl)
qed

lemma BlockSize_small: "cl \<le> MaxChunkLog \<Longrightarrow> BlockSize cl = 1024 * 2 ^ cl"
proof -
  assume "cl \<le> MaxChunkLog"
  then have "(2 :: int) ^ cl \<le> 2 ^ 52" by (intro power_increasing) (simp_all add: MaxChunkLog_def)
  then show ?thesis by (simp add: BlockSize_def ChunkSize_def int64_small)
qed

lemma blocksIn_up_div:
  assumes "cl \<le> MaxChunkLog"
  shows "blocksIn (int n) cl = int (up_div n (1024 * 2 ^ cl))"
proof -
  define B :: nat where "B = 1024 * 2 ^ cl"
  have B: "0 < B" "BlockSize cl = int B" using BlockSize_small [OF assms] by (simp_all add: B_def)
  have "up_div n B = (if n mod B \<noteq> 0 then n div B + 1 else n div B)"
  proof -
    have "n = n div B * B + n mod B" "n mod B < B" using B(1) by simp_all
    then have "up_div n B = (n div B * B + (n mod B + B - 1)) div B" using B(1) by (simp add: up_div_def)
    also have "\<dots> = n div B + (n mod B + B - 1) div B" using B(1) by (intro div_mult_self3) simp
    also have "(n mod B + B - 1) div B = (if n mod B \<noteq> 0 then 1 else 0)"
      using \<open>n mod B < B\<close> B(1) by (auto simp del: mod_less_divisor intro!: div_nat_eqI)
    finally show ?thesis by simp
  qed
  then show ?thesis unfolding blocksIn_def B(2) Let_def B_def [symmetric] by (simp add: zdiv_int [symmetric] zmod_int [symmetric])
qed

lemma Outboard_entries:
  assumes "node_law G" and "length blocks < 2 ^ 63" and "\<And>b. b \<in> set blocks \<Longrightarrow> length b = 32"
  shows "Outboard G blocks sz = leBytes 8 (toU64 sz) @ entries G blocks"
proof (cases "1 < length blocks")
  case True
  then have "blocks \<noteq> []" by auto
  then show ?thesis using True preorder_entries [OF assms(1) _ assms(2,3)] by (simp add: Outboard_def Let_def)
qed (simp add: Outboard_def Let_def entries.simps [of G blocks])

lemma OutboardSize_prefix: "0 \<le> sz \<Longrightarrow> sz < 2 ^ 63 \<Longrightarrow> OutboardSize (leBytes 8 (toU64 sz) @ es) = sz"
proof -
  assume sz: "0 \<le> sz" "sz < 2 ^ 63"
  then have u: "toU64 sz = nat sz" by (simp add: toU64_def)
  then have "le (take 8 (leBytes 8 (toU64 sz) @ es)) = nat sz" using sz by (simp add: le_leBytes nat_less_iff)
  then show ?thesis using sz by (simp add: OutboardSize_def int64_small)
qed

section \<open>Properties\<close>

text \<open>C26. The outboard of a hashed body has the standard layout: the size in eight little-endian bytes, then the
  parents above the blocks in pre-order, one fewer than the blocks. Its size reads back, the check of an
  outboard against the body's chunk log accepts it and counts its blocks, and where there are parents the
  first entry hashes to the body's root.\<close>

theorem Outboard_of_object:
  assumes "buffer_law G" and "node_law G" and "length body < 2 ^ 62"
  shows "\<exists>h obj ob. NewHasher 0 = Inr h \<and> FinishObject G (h_Write G body h) = Inr obj \<and> ob = Outboard G (obj_Blocks obj) (obj_Size obj)
    \<and> ob = leBytes 8 (length body) @ entries G (obj_Blocks obj) \<and> OutboardSize ob = int (length body)
    \<and> OutboardBlocks ob (obj_ChunkLog obj) = Inr (int (length (obj_Blocks obj)))
    \<and> (length (obj_Blocks obj) \<ge> 2 \<longrightarrow>
        obj_Root obj = bytesOf (ChainingValue G (ParentNode G (wordsOf (take 32 (drop 8 ob))) (wordsOf (take 32 (drop 40 ob))) (FlagRoot G))))"
proof -
  obtain h where h: "NewHasher 0 = Inr h" "FinishObject G (h_Write G body h) = Inr (object_of G body)"
    using object_hashed [OF assms(1), of "[body]" body] assms(3) by auto
  define cl where "cl = ChunkLog (int (length body))"
  define bs where "bs = blake3_blocks G cl body"
  have cl52: "cl \<le> MaxChunkLog" using ChunkLog_le [of "int (length body)"] by (simp add: cl_def MaxChunkLog_def)
  have b32: "length b = 32" if "b \<in> set bs" for b
    using that assms(2) by (auto simp: bs_def blake3_blocks_def node_law_def spanNode_CV [symmetric])
  have lenbs: "length bs = up_div (length body) (1024 * 2 ^ cl)" by (simp add: bs_def blake3_blocks_def chunk_count_def up_div_up_div ChunkSize_def)
  have c63: "chunk_count body < 2 ^ 63" using chunk_count_le [of body "2 ^ 62"] assms(3) by (simp add: ChunkSize_def)
  have "length bs \<le> chunk_count body" using up_div_le [of "2 ^ cl" "chunk_count body" "chunk_count body"] by (simp add: bs_def blake3_blocks_def)
  then have small: "length bs < 2 ^ 63" using c63 by simp
  have u: "toU64 (int (length body)) = length body" using assms(3) by (simp add: toU64_def)
  define ob where "ob = Outboard G bs (int (length body))"
  have ob: "ob = leBytes 8 (length body) @ entries G bs" using Outboard_entries [OF assms(2) small b32] u by (simp add: ob_def)
  have sz: "OutboardSize ob = int (length body)" using OutboardSize_prefix [of "int (length body)"] assms(3) u unfolding ob by simp
  have el: "length (entries G bs) = 64 * (length bs - 1)"
    using length_entries [OF assms(2) _ small b32] by (cases "bs = []") (auto simp: entries.simps [of G "[]"])
  have "OutboardBlocks ob cl = Inr (int (length bs))"
    unfolding OutboardBlocks_def CheckOutboard_def sz using cl52 blocksIn_up_div [OF cl52, of "length body"] lenbs el
    by (simp add: ob Let_def of_nat_diff)
  moreover have "blake3_root G body = bytesOf (ChainingValue G (ParentNode G (wordsOf (take 32 (drop 8 ob))) (wordsOf (take 32 (drop 40 ob))) (FlagRoot G)))"
    if two: "length bs \<ge> 2"
  proof -
    define l r where "l = take (leftCount (length bs)) bs" and "r = drop (leftCount (length bs)) bs"
    have one: "1 < length bs" using two by simp
    note hv = halves [OF one small b32 l_def r_def]
    have e: "entries G bs = subtreeCV G l @ subtreeCV G r @ entries G l @ entries G r"
      using one small unfolding entries.simps [of G bs] Let_def l_def [symmetric] r_def [symmetric] by simp
    have "length (subtreeCV G l) = 32" "length (subtreeCV G r) = 32" using length_subtreeCV [OF assms(2)] hv by simp_all
    then have "take 32 (drop 8 ob) = subtreeCV G l" "take 32 (drop 40 ob) = subtreeCV G r" unfolding ob e by simp_all
    moreover have "RootFromBlocks G bs = Some (blake3_root G body)"
      using RootFromBlocks_root [OF assms(2) _ c63, of cl] two by (simp add: bs_def blake3_blocks_def)
    ultimately show ?thesis using two by (simp add: RootFromBlocks_def Let_def l_def r_def)
  qed
  ultimately show ?thesis using h ob sz by (simp add: object_of_def cl_def [symmetric] bs_def [symmetric] ob_def [symmetric])
qed

theorem Outboard_of_object_witness:
  "\<exists>h obj. NewHasher 0 = Inr h \<and> FinishObject demo_guts (h_Write demo_guts (replicate 20000 CHR ''a'') h) = Inr obj
    \<and> OutboardBlocks (Outboard demo_guts (obj_Blocks obj) (obj_Size obj)) (obj_ChunkLog obj) = Inr (int (length (obj_Blocks obj)))
    \<and> OutboardSize (Outboard demo_guts (obj_Blocks obj) (obj_Size obj)) = 20000"
  using Outboard_of_object [OF demo_laws, of "replicate 20000 CHR ''a''"] by auto

text \<open>C27. Widening a range to whole blocks, at the limits of 64 bits too: a chunk log out of bounds, a range that is not
  ascending or one that starts past the body is refused; otherwise the answer is the last block boundary
  at or before the start, and the last byte of the end's block or of the body, whichever comes first.\<close>

theorem AlignedRange_exact:
  assumes "b < 2 ^ 63" and "sz < 2 ^ 63"
  shows "if cl \<le> 52 \<and> 0 \<le> a \<and> a \<le> b \<and> a < sz
    then AlignedRange a b cl sz = Inr (a - a mod (1024 * 2 ^ cl), min (sz - 1) (b - b mod (1024 * 2 ^ cl) + 1024 * 2 ^ cl - 1))
    else isl (AlignedRange a b cl sz)"
proof (cases "cl \<le> 52 \<and> 0 \<le> a \<and> a \<le> b \<and> a < sz")
  case True
  then have cl: "cl \<le> MaxChunkLog" by (simp add: MaxChunkLog_def)
  define B :: int where "B = 1024 * 2 ^ cl"
  have B: "BlockSize cl = B" "1024 \<le> B" using BlockSize_small [OF cl] one_le_power [of "2 :: int" cl] by (simp_all add: B_def)
  have sz: "blocksIn sz cl = int (up_div (nat sz) (1024 * 2 ^ cl))" using blocksIn_up_div [OF cl, of "nat sz"] True by simp
  have le: "int (up_div (nat sz) (1024 * 2 ^ cl)) \<le> j \<longleftrightarrow> sz \<le> j * B" if "0 \<le> j" for j
  proof -
    have "int (up_div (nat sz) (1024 * 2 ^ cl)) \<le> j \<longleftrightarrow> up_div (nat sz) (1024 * 2 ^ cl) \<le> nat j" using that by linarith
    also have "\<dots> \<longleftrightarrow> nat sz \<le> nat j * (1024 * 2 ^ cl)" by (rule up_div_le) simp
    also have "\<dots> \<longleftrightarrow> int (nat sz) \<le> int (nat j * (1024 * 2 ^ cl))" by (rule of_nat_le_iff [symmetric])
    also have "int (nat j * (1024 * 2 ^ cl)) = j * B" using that by (simp add: B_def)
    finally show ?thesis using True by simp
  qed
  have a: "a div B * B = a - a mod B" "0 \<le> a - a mod B" "a - a mod B \<le> a"
    using B(2) True pos_mod_sign [of B a] zmod_le_nonneg_dividend [of a B] minus_mod_eq_div_mult [of a B] by linarith+
  have b: "b div B * B = b - b mod B" "0 \<le> b div B" "b div B < 2 ^ 63 - 1"
  proof -
    have "b div B \<le> b div 1024" using B(2) True by (intro zdiv_mono2) auto
    then show "b div B < 2 ^ 63 - 1" using assms(1) True by (simp add: zdiv_mono1)
  qed (use B(2) True in \<open>simp_all add: minus_mod_eq_div_mult pos_imp_zdiv_nonneg_iff\<close>)
  define n where "n = b div B + 1"
  have n: "int64 (b div B + 1) = n" "n * B = b - b mod B + B" "0 \<le> n" using b by (simp_all add: n_def int64_small distrib_right)
  have st: "int64 (a div B * B) = a - a mod B" using a assms(1) True by (simp add: int64_small)
  have nb: "0 \<le> n * B" using n(3) B(2) by (intro mult_nonneg_nonneg) auto
  have stop: "\<not> sz \<le> n * B \<Longrightarrow> int64 (int64 (n * B) - 1) = n * B - 1"
    using nb assms(2) by (simp add: int64_id)
  show ?thesis
    using True cl le [OF n(3)] n(2) stop unfolding AlignedRange_def Let_def B(1) st n(1) sz B_def [symmetric] by (auto simp: min_def)
qed (auto simp: AlignedRange_def MaxChunkLog_def)

theorem AlignedRange_exact_witness: "AlignedRange 20000 (2 ^ 63 - 2) 4 (2 ^ 63 - 1) = Inr (16384, 2 ^ 63 - 2)"
  using AlignedRange_exact [of "2 ^ 63 - 2" "2 ^ 63 - 1" 4 20000] by simp

section \<open>What verification accepts\<close>

definition blocks_verify :: "verify_chunk \<Rightarrow> bytes \<Rightarrow> nat \<Rightarrow> CV \<Rightarrow> nat \<Rightarrow> nat \<Rightarrow> bytes \<Rightarrow> bool" where
  "blocks_verify V ob cl root B pos data \<longleftrightarrow>
     (\<forall>j. j * B < length data \<longrightarrow> V (take B (drop (j * B) data)) ob cl (pos + j * B) root)"

lemma blocks_verify_step:
  assumes "0 < B" and "data \<noteq> []"
  shows "blocks_verify V ob cl root B pos data \<longleftrightarrow> V (take B data) ob cl pos root \<and> blocks_verify V ob cl root B (pos + B) (drop B data)"
proof -
  have split: "(\<forall>j. P j) \<longleftrightarrow> P 0 \<and> (\<forall>j. P (Suc j))" for P :: "nat \<Rightarrow> bool" by (metis not0_implies_Suc)
  have "Suc j * B < length data \<longleftrightarrow> j * B < length (drop B data)" for j by auto
  then show ?thesis using assms unfolding blocks_verify_def split [of "\<lambda>j. j * B < length data \<longrightarrow> _ j"] by (simp add: ac_simps)
qed

lemma blocks_verify_Nil [simp]: "blocks_verify V ob cl root B pos []"
  by (simp add: blocks_verify_def)

lemma ReadFull_end:
  "0 < m \<Longrightarrow> \<exists>err. ReadFull m (d, None) = (take m d, err, (drop m d, None)) \<and> (\<forall>x. err \<noteq> Some (ReadFailed x)) \<and> (d = [] \<longrightarrow> err = Some EOF)"
  by (auto simp: ReadFull_def)

lemma verifyRound_end:
  assumes "off < S" and "0 < B" and "x = take (min B (S - off)) d" and "n = length x"
  shows "verifyRound V ob cl root (int S) (int B) (int off) (int v) (d, None) =
    (if d = [] then Inl (if v = 0 then (0, Some (VerifyErr (TreeErr ''no data to verify''))) else (int v, None))
     else if off + v + n > S then Inl (int v, Some (VerifyErr (TreeErr ''data runs past the end of the body'')))
     else if n < B \<and> off + v + n \<noteq> S then Inl (int v, Some (VerifyErr (TreeErr ''data ends inside a block'')))
     else if \<not> V x ob cl (off + v) root then Inl (int v, Some (BlockError (int (off + v)) (int n)))
     else if n < B \<or> off + v + n = S then
       Inl (if drop n d \<noteq> [] then (int (v + n), Some (VerifyErr (TreeErr ''data runs past the end of the body''))) else (int (v + n), None))
     else Inr (int (v + n), (drop n d, None)))"
proof -
  define m where "m = min B (S - off)"
  have m: "0 < m" "nat (min (int B) (int S - int off)) = m" using assms(1,2) by (auto simp: m_def min_def)
  obtain err where r: "ReadFull m (d, None) = (x, err, (drop m d, None))" "\<And>z. err \<noteq> Some (ReadFailed z)" "d = [] \<longrightarrow> err = Some EOF"
    using ReadFull_end [OF m(1), of d] assms(3) by (auto simp: m_def)
  have x: "x = [] \<longleftrightarrow> d = []" using m(1) assms(3) by (auto simp: m_def)
  have dn: "drop n d = drop m d" using assms(3,4) unfolding m_def [symmetric] by (cases "m \<le> length d") simp_all
  have one: "fst (ReadFull 1 (drop m d, None)) \<noteq> [] \<longleftrightarrow> drop m d \<noteq> []" by (cases "drop m d") (auto simp: ReadFull_def)
  have err: "(case err of None \<Rightarrow> y | Some EOF \<Rightarrow> y | Some UnexpectedEOF \<Rightarrow> y | Some (ReadFailed z) \<Rightarrow> w z) = y" for y and w :: "string \<Rightarrow> _"
    using r(2) by (auto split: option.split read_error.split)
  show ?thesis
  proof (cases "d = []")
    case True
    then show ?thesis unfolding verifyRound_def m(2) r(1) Let_def prod.case using r(3) x assms(1) by auto
  next
    case False
    have i: "int n > int S - (int off + int v) \<longleftrightarrow> off + v + n > S" "int off + int v + int n \<noteq> int S \<longleftrightarrow> off + v + n \<noteq> S"
        "int v + int n = int S - int off \<longleftrightarrow> off + v + n = S" "nat (int off + int v) = off + v"
      using assms(1) by linarith+
    have "n \<noteq> 0" using False x assms(4) by simp
    then show ?thesis using False unfolding verifyRound_def m(2) r(1) Let_def prod.case err one assms(4) [symmetric] i dn by simp
  qed
qed

lemma verifyLoop_accepts:
  assumes "off < S" and "0 < B"
  shows "B dvd v \<Longrightarrow> off + v < S \<Longrightarrow> length d < fuel \<Longrightarrow>
    verifyLoop fuel V ob cl root (int S) (int B) (int off) (int v) (d, None) = (w, None) \<longleftrightarrow>
      w = int (v + length d) \<and> (v = 0 \<longrightarrow> d \<noteq> []) \<and> off + v + length d \<le> S \<and> (B dvd length d \<or> off + v + length d = S)
      \<and> blocks_verify V ob cl root B (off + v) d"
proof (induction fuel arbitrary: v d)
  case (Suc fuel)
  define x n where "x = take (min B (S - off)) d" and "n = length x"
  note round = verifyRound_end [OF assms x_def n_def, of V ob cl root v]
  show ?case
  proof (cases "d = []")
    case True
    then show ?thesis using round Suc.prems(2) by auto
  next
    case False
    have n: "0 < n" "n \<le> length d" "n \<le> B" "n = min (min B (S - off)) (length d)" using False assms by (auto simp: x_def n_def)
    have first: "n < length d \<Longrightarrow> n < B \<Longrightarrow> v = 0 \<and> off + n = S"
    proof -
      assume a: "n < length d" "n < B"
      then have "n = S - off" "S - off < B" using n(4) by (auto simp: min_def split: if_splits)
      then have "v < B" using Suc.prems(2) by linarith
      then show ?thesis using Suc.prems(1) \<open>n = S - off\<close> assms(1) by (auto dest: nat_dvd_not_less)
    qed
    have xB: "x = take B d" if "off + v + length d \<le> S" using that False by (auto simp: x_def min_def)
    note step = blocks_verify_step [OF assms(2) False, of V ob cl root "off + v"]
    consider "off + v + n > S" | "off + v + n \<le> S" "n < B" "off + v + n \<noteq> S" | "off + v + n \<le> S" "n < B \<longrightarrow> off + v + n = S" "n < B \<or> off + v + n = S"
      | "off + v + n < S" "n = B" using n(3) by linarith
    then show ?thesis
    proof cases
      case 1
      then show ?thesis using round False n(2) by auto
    next
      case 2
      then have "n = length d" using first n(2) by force
      then have "\<not> B dvd length d" using 2 n(1) by (auto dest: nat_dvd_not_less)
      then show ?thesis using round False 2 \<open>n = length d\<close> by auto
    next
      case 3
      show ?thesis
      proof (cases "n = length d")
        case True
        then have "x = take B d" "drop B d = []" using xB 3(1) n(3) by auto
        moreover have "B dvd length d \<or> off + v + length d = S" using 3 True n(3) by auto
        ultimately show ?thesis using round False 3 True step by auto
      next
        case dn: False
        then have "n < length d" using n(2) by simp
        then have "off + v + length d > S" using 3(3) first by auto
        then show ?thesis using round False 3 dn \<open>n < length d\<close> by auto
      qed
    next
      case 4
      have x: "x = take B d" using 4 n unfolding x_def by (metis (no_types, lifting) min.absorb_iff1 min.assoc min.commute take_take n_def x_def length_take take_all order_refl)
      have v': "B dvd v + B" "off + (v + B) < S" "length (drop B d) < fuel" using Suc.prems 4 n(1,2) by (auto simp: dvd_add)
      note IH = Suc.IH [OF v']
      have "B dvd length (drop B d) \<longleftrightarrow> B dvd length d" using n(2) 4(2) by (simp add: dvd_minus_self)
      then show ?thesis using round False 4 n(2) x step IH by (auto simp: add.assoc)
    qed
  qed
qed simp

text \<open>C25. Verifying a range of a body against an outboard and a root, block by block, succeeds exactly when the outboard is
  well formed for the chunk log, the range starts on a block boundary within the body and is not empty, it
  ends on a block boundary or with the body, and every block of it passes the check at its position; an empty
  body is accepted on the hash of nothing alone. Then all its bytes are counted as verified: none is skipped
  and none accepted unchecked.\<close>

theorem VerifyBlocks_accepts:
  assumes "0 \<le> off"
  shows "VerifyBlocks G V (data, None) ob cl off root = (w, None) \<longleftrightarrow>
    (\<exists>k. OutboardBlocks ob cl = Inr k) \<and> off mod BlockSize cl = 0 \<and> w = int (length data)
    \<and> (if OutboardSize ob = 0 then off = 0 \<and> data = [] \<and> root = emptyRoot G
       else data \<noteq> [] \<and> off + int (length data) \<le> OutboardSize ob
         \<and> (int (length data) mod BlockSize cl = 0 \<or> off + int (length data) = OutboardSize ob)
         \<and> blocks_verify V ob cl root (nat (BlockSize cl)) (nat off) data)"
proof (cases "OutboardBlocks ob cl")
  case (Inl e)
  then show ?thesis by (auto simp: VerifyBlocks_def)
next
  case (Inr k)
  then have cl: "cl \<le> MaxChunkLog" "0 \<le> OutboardSize ob" by (auto simp: OutboardBlocks_def Let_def split: option.splits if_splits)
  define B S p :: nat where "B = 1024 * 2 ^ cl" and "S = nat (OutboardSize ob)" and "p = nat off"
  have e: "BlockSize cl = int B" "0 < B" "OutboardSize ob = int S" "off = int p"
    using BlockSize_small [OF cl(1)] cl(2) assms by (simp_all add: B_def S_def p_def)
  have m: "int z mod int B = 0 \<longleftrightarrow> B dvd z" for z by (simp add: dvd_eq_mod_eq_0 flip: zmod_int)
  have one: "fst (ReadFull 1 (data, None)) \<noteq> [] \<longleftrightarrow> data \<noteq> []" by (cases data) (auto simp: ReadFull_def)
  have loop: "p < S \<Longrightarrow> verifyLoop (length data + 1) V ob cl root (int S) (int B) (int p) 0 (data, None) = (w, None) \<longleftrightarrow>
      w = int (length data) \<and> data \<noteq> [] \<and> p + length data \<le> S \<and> (B dvd length data \<or> p + length data = S) \<and> blocks_verify V ob cl root B p data"
    using verifyLoop_accepts [of p S B 0 data "length data + 1" V ob cl root w] e(2) by simp
  have i: "int p + int (length data) \<le> int S \<longleftrightarrow> p + length data \<le> S" "int p + int (length data) = int S \<longleftrightarrow> p + length data = S" by linarith+
  show ?thesis
    unfolding VerifyBlocks_def Inr sum.case Let_def e one m i fst_conv nat_int using loop
    by (cases p S rule: linorder_cases) (auto simp: Suc_le_eq)
qed

theorem VerifyBlocks_accepts_witness:
  "VerifyBlocks demo_guts (\<lambda>d _ _ pos _. d = ''abc'' \<and> pos = 0) (''abc'', None) (leBytes 8 3) 4 0 [] = (3, None)"
proof -
  have "OutboardSize (leBytes 8 3) = 3" using OutboardSize_prefix [of 3 "[]"] by (simp add: toU64_def)
  moreover from this have "OutboardBlocks (leBytes 8 3) 4 = Inr 1"
    by (simp add: OutboardBlocks_def CheckOutboard_def MaxChunkLog_def Let_def blocksIn_def BlockSize_def ChunkSize_def int64_def)
  moreover have "BlockSize 4 = 16384" by (simp add: BlockSize_def ChunkSize_def int64_def)
  moreover have "blocks_verify (\<lambda>d _ _ pos _. d = ''abc'' \<and> pos = 0) (leBytes 8 3) 4 [] 16384 0 ''abc''"
    unfolding blocks_verify_def
  proof (intro allI impI)
    fix j :: nat assume "j * 16384 < length ''abc''"
    then have "j = 0" by simp
    then show "take 16384 (drop (j * 16384) ''abc'') = ''abc'' \<and> 0 + j * 16384 = 0" by simp
  qed
  ultimately show ?thesis
    using VerifyBlocks_accepts [of 0 demo_guts "\<lambda>d _ _ pos _. d = ''abc'' \<and> pos = 0" "''abc''" "leBytes 8 3" 4 "[]" 3]
    by simp
qed

section \<open>Stored subtrees\<close>

definition storable :: "Subtree \<Rightarrow> bool" where
  "storable s \<longleftrightarrow> sub_Height s < 256 \<and> sub_Pos s < 2 ^ 64 \<and> length (sub_CV s) = CVSize"

lemma length_encodeSubtree: "storable s \<Longrightarrow> length (encodeSubtree s) = subtreeEncSize"
  by (simp add: storable_def encodeSubtree_def subtreeEncSize_def)

lemma drop_encoded: "(\<And>s. s \<in> set subs \<Longrightarrow> storable s) \<Longrightarrow> drop (i * subtreeEncSize) (EncodeSubtrees subs) = EncodeSubtrees (drop i subs)"
proof (induction subs arbitrary: i)
  case (Cons s subs)
  then show ?case by (cases i) (simp_all add: EncodeSubtrees_def length_encodeSubtree)
qed (simp add: EncodeSubtrees_def)

lemma length_encoded: "(\<And>s. s \<in> set subs \<Longrightarrow> storable s) \<Longrightarrow> length (EncodeSubtrees subs) = length subs * subtreeEncSize"
  by (induction subs) (simp_all add: EncodeSubtrees_def length_encodeSubtree)

lemma decode_first:
  assumes "storable s"
  shows "\<lparr> sub_CV = take CVSize (drop 9 (encodeSubtree s @ r)), sub_Height = of_char (hd (encodeSubtree s @ r)),
    sub_Pos = be (take 8 (drop 1 (encodeSubtree s @ r))) \<rparr> = s"
proof -
  have "be (beBytes 8 (sub_Pos s)) = sub_Pos s" using assms by (intro be_beBytes) (simp add: storable_def)
  moreover have "of_char (char_of (sub_Height s) :: char) = sub_Height s" using assms by (simp add: storable_def)
  ultimately show ?thesis using assms by (simp add: encodeSubtree_def storable_def)
qed

lemma DecodeSubtrees_EncodeSubtrees:
  assumes "\<And>s. s \<in> set subs \<Longrightarrow> storable s"
  shows "DecodeSubtrees (EncodeSubtrees subs) = Inr subs"
proof -
  have z: "0 < subtreeEncSize" by (simp add: subtreeEncSize_def)
  have "(let rec = drop (i * subtreeEncSize) (EncodeSubtrees subs) in \<lparr> sub_CV = take CVSize (drop 9 rec), sub_Height = of_char (hd rec), sub_Pos = be (take 8 (drop 1 rec)) \<rparr>) = subs ! i"
    if i: "i < length subs" for i
  proof -
    have "drop i subs = subs ! i # drop (Suc i) subs" using i by (rule Cons_nth_drop_Suc [symmetric])
    then have "EncodeSubtrees (drop i subs) = encodeSubtree (subs ! i) @ EncodeSubtrees (drop (Suc i) subs)" by (simp add: EncodeSubtrees_def)
    then have e: "drop (i * subtreeEncSize) (EncodeSubtrees subs) = encodeSubtree (subs ! i) @ EncodeSubtrees (drop (Suc i) subs)"
      using drop_encoded [of subs i] assms by simp
    show ?thesis unfolding Let_def e by (rule decode_first [OF assms [OF nth_mem [OF i]]])
  qed
  then have "map (\<lambda>i. let rec = drop (i * subtreeEncSize) (EncodeSubtrees subs) in \<lparr> sub_CV = take CVSize (drop 9 rec), sub_Height = of_char (hd rec),
      sub_Pos = be (take 8 (drop 1 rec)) \<rparr>) [0..<length subs] = subs" by (intro nth_equalityI) simp_all
  moreover have "length (EncodeSubtrees subs) = length subs * subtreeEncSize" using length_encoded assms by blast
  ultimately show ?thesis unfolding DecodeSubtrees_def using z by simp
qed

text \<open>A stored height of 64 or more decodes, and merging it divides by zero.\<close>

lemma MergeSubtrees_high_panics:
  "64 \<le> h \<Longrightarrow> h < 256 \<Longrightarrow> length cv = CVSize \<Longrightarrow>
    DecodeSubtrees (EncodeSubtrees [\<lparr> sub_CV = cv, sub_Height = h, sub_Pos = 0 \<rparr>]) = Inr [\<lparr> sub_CV = cv, sub_Height = h, sub_Pos = 0 \<rparr>]
    \<and> MergeSubtrees G [\<lparr> sub_CV = cv, sub_Height = h, sub_Pos = 0 \<rparr>] = Inl (TreePanic ''integer divide by zero'')"
proof -
  assume h: "64 \<le> h" "h < 256" "length cv = CVSize"
  have "(2 :: nat) ^ 64 dvd 2 ^ h" using h(1) by (rule le_imp_power_dvd)
  then have "shl1 h = 0" by (simp add: shl1_def u64_def dvd_eq_mod_eq_0)
  then show ?thesis using h DecodeSubtrees_EncodeSubtrees [of "[\<lparr> sub_CV = cv, sub_Height = h, sub_Pos = 0 \<rparr>]"]
    by (simp add: storable_def MergeSubtrees_def stackOf_def)
qed

end
