(* ===== verification/S3_PartTree.thy ===== *)
theory S3_PartTree
  imports Blake3_Outboard Mem_State
begin

text \<open>
  The trees of multipart uploads (\<open>src/s3frontend/multiparttree.go\<close> and the part of \<open>UploadPart\<close> in
  \<open>src/s3frontend/multipart.go\<close> that hashes a part): a part is hashed at the offset the recorded parts let
  the server assume, its tree is stored with the part, and completing the upload assembles the object's
  tree from the stored ones, hashing again the parts whose assumed offset was wrong.

  Reading a part of the body back from storage is a parameter: the pieces it is read in, or an error.
\<close>

section \<open>Hashing a part\<close>

text \<open>The loop of \<open>assumedPartOffset\<close>: the sizes' sum, the lowest part's size, how many parts are lower, and the
  lowest part's number.\<close>

definition lowerPart :: "int \<Rightarrow> MultipartPart \<Rightarrow> int \<times> int \<times> int \<times> int \<Rightarrow> int \<times> int \<times> int \<times> int" where
  "lowerPart partNumber p st =
     (case st of (acc, unit, below, lowest) \<Rightarrow>
        if mp_PartNumber p \<ge> partNumber then st
        else
          let (lowest', unit') = if lowest = 0 \<or> mp_PartNumber p < lowest then (mp_PartNumber p, mp_Size p) else (lowest, unit)
          in (int64 (acc + mp_Size p), unit', below + 1, lowest'))"

definition assumedPartOffset :: "MultipartPart list \<Rightarrow> int \<Rightarrow> int \<Rightarrow> int" where
  "assumedPartOffset prior partNumber sz =
     (if partNumber = 1 then 0
      else
        let (acc, unit, below, _) = fold (lowerPart partNumber) prior (0, 0, 0, 0)
        in if below = partNumber - 1 then acc
           else if below > 0 then int64 ((partNumber - 1) * unit)
           else int64 ((partNumber - 1) * sz))"

definition partTreeOf :: "Range \<Rightarrow> PartTree" where
  "partTreeOf rng =
     \<lparr> pt_Offset = rg_Offset rng, pt_ChunkLog = word_of_nat (rg_ChunkLog rng), pt_Nodes = EncodeSubtrees (rg_Subtrees rng),
       pt_Blocks = EncodeSubtrees (BlockSubtrees rng), pt_Head = rg_Head rng, pt_Tail = rg_Tail rng,
       pt_Root = (if rg_HasRoot rng then rg_Root rng else []) \<rparr>"

text \<open>What \<open>UploadPart\<close> records of a part it receives in the given pieces: nothing when the hasher is refused.\<close>

definition uploadPartTree :: "'n guts \<Rightarrow> MultipartPart list \<Rightarrow> int \<Rightarrow> int \<Rightarrow> bytes list \<Rightarrow> PartTree option" where
  "uploadPartTree G prior partNumber sz pieces =
     (let treeOffset = assumedPartOffset prior partNumber sz
      in case NewHasherAtChunkLog treeOffset (ChunkLog (int64 (treeOffset + sz))) of
           Inl _ \<Rightarrow> None
         | Inr h \<Rightarrow> Some (partTreeOf (FinishRange G (fold (h_Write G) pieces h))))"

section \<open>Completing an upload\<close>

fun rehashNeeded :: "MultipartPart list \<Rightarrow> (int, PartTree) gomap \<Rightarrow> int list \<Rightarrow> int" where
  "rehashNeeded (p # q # ps) trees (off # offs) =
     (let n = rehashNeeded (q # ps) trees offs
      in case gm_get trees (mp_PartNumber p) of
           None \<Rightarrow> n + mp_Size p
         | Some t \<Rightarrow> if pt_Offset t \<noteq> off then n + mp_Size p else n)"
| "rehashNeeded _ _ _ = 0"

definition treeRange :: "PartTree \<Rightarrow> int \<Rightarrow> tree_error + Range" where
  "treeRange t sz =
     bindE (DecodeSubtrees (pt_Nodes t)) (\<lambda>subs.
     bindE (DecodeSubtrees (pt_Blocks t)) (\<lambda>leafSubs.
       Inr \<lparr> rg_Offset = pt_Offset t, rg_Size = sz,
             rg_Root = (if length (pt_Root t) = CVSize then pt_Root t else replicate CVSize (CHR 0x00)),
             rg_HasRoot = (length (pt_Root t) = CVSize), rg_Head = pt_Head t, rg_Tail = pt_Tail t, rg_Subtrees = subs,
             rg_ChunkLog = unat (pt_ChunkLog t),
             rg_Blocks = map (\<lambda>l. \<lparr> bk_CV = sub_CV l, bk_Offset = int64 (int (sub_Pos l) * int ChunkSize) \<rparr>) leafSubs \<rparr>))"

datatype part_error = PartErr string | PartTreeErr tree_error

definition rehash :: "'n guts \<Rightarrow> (int \<Rightarrow> int \<Rightarrow> string + bytes list) \<Rightarrow> int \<Rightarrow> int \<Rightarrow> part_error + Range" where
  "rehash G reread start stop =
     (case NewHasher start of
        Inl e \<Rightarrow> Inl (PartTreeErr e)
      | Inr h \<Rightarrow>
          if stop > start then
            case reread start (stop - 1) of
              Inl e \<Rightarrow> Inl (PartErr e)
            | Inr pieces \<Rightarrow> Inr (FinishRange G (fold (h_Write G) pieces h))
          else Inr (FinishRange G h))"

definition partRange :: "'n guts \<Rightarrow> (int \<Rightarrow> int \<Rightarrow> string + bytes list) \<Rightarrow> (int, PartTree) gomap \<Rightarrow> MultipartPart \<Rightarrow> int \<Rightarrow> part_error + Range" where
  "partRange G reread trees p off =
     (case gm_get trees (mp_PartNumber p) of
        Some t \<Rightarrow>
          if pt_Offset t = off then
            case treeRange t (mp_Size p) of
              Inr rng \<Rightarrow> Inr rng
            | Inl _ \<Rightarrow> rehash G reread off (int64 (off + mp_Size p))
          else rehash G reread off (int64 (off + mp_Size p))
      | None \<Rightarrow> rehash G reread off (int64 (off + mp_Size p)))"

fun partRanges :: "'n guts \<Rightarrow> (int \<Rightarrow> int \<Rightarrow> string + bytes list) \<Rightarrow> (int, PartTree) gomap \<Rightarrow> MultipartPart list \<Rightarrow> int list \<Rightarrow> part_error + Range list" where
  "partRanges G reread trees (p # ps) (off # offs) =
     bindE (partRange G reread trees p off) (\<lambda>r. bindE (partRanges G reread trees ps offs) (\<lambda>rs. Inr (r # rs)))"
| "partRanges G reread trees _ _ = Inr []"

definition multipartTree :: "'n guts \<Rightarrow> (int \<Rightarrow> int \<Rightarrow> string + bytes list) \<Rightarrow> MultipartPart list \<Rightarrow> (int, PartTree) gomap \<Rightarrow> int list \<Rightarrow> part_error + Object" where
  "multipartTree G reread ps trees offsets =
     bindE (partRanges G reread trees ps offsets) (\<lambda>rs.
       case Assemble G rs of
         Inl e \<Rightarrow> Inl (PartTreeErr e)
       | Inr None \<Rightarrow> Inl (PartErr ''the trees of the parts do not assemble into one body'')
       | Inr (Some obj) \<Rightarrow> Inr obj)"

section \<open>The offset of a range\<close>

lemma flush_start [simp]: "hs_start (flush G h) = hs_start h"
  by (auto simp: flush_def Let_def fold_frame [of hs_start])

lemma fill_start [simp]: "hs_start (fill G p h) = hs_start h"
proof (induction G p h rule: fill.induct)
  case (1 G p h)
  then show ?case by (subst fill.simps) (auto simp: Let_def)
qed

lemma promoteTo_start [simp]: "hs_start (promoteTo G cl h) = hs_start h"
proof (induction G cl h rule: promoteTo.induct)
  case (1 G cl h)
  then show ?case by (subst promoteTo.simps) (auto simp: promote_def)
qed

lemma drainChunks_start [simp]: "hs_start (drainChunks G cs h) = hs_start h"
  by (induction cs arbitrary: h) simp_all

lemma FinishRange_offset: "rg_Offset (FinishRange G (fold (h_Write G) ps h)) = hs_start h"
proof -
  have "hs_start (fold (h_Write G) ps h) = hs_start h" by (rule fold_frame) (simp add: h_Write_def Let_def)
  then show ?thesis by (simp add: FinishRange_def drain_def Let_def)
qed

section \<open>Stored trees read back\<close>

lemma range_storable:
  assumes "range_of G body s n r" and "node_law G" and "length body < 2 ^ 62" and "x \<in> set (rg_Subtrees r) \<or> x \<in> set (BlockSubtrees r)"
  shows "storable x" and "sub_Pos x < 2 ^ 53"
proof -
  have x: "true_sub G (chunk body) x" "sub_Pos x + 2 ^ sub_Height x \<le> stop_chunk s n" using assms(1,4) range_nodes_true by blast+
  have "stop_chunk s n \<le> chunk_count body" using assms(1) by (intro stop_chunk_le) (auto simp: range_of_def)
  also have "\<dots> \<le> 2 ^ 52" using chunk_count_le [of body "2 ^ 52"] assms(3) by (simp add: ChunkSize_def)
  finally have b: "sub_Pos x + 2 ^ sub_Height x \<le> 2 ^ 52" using x(2) by simp
  then show "sub_Pos x < 2 ^ 53" by simp
  have "(2 :: nat) ^ sub_Height x < 2 ^ 53" using b by simp
  then have "sub_Height x < 53" using power_less_imp_less_exp [of "2 :: nat" "sub_Height x" 53] by simp
  moreover have "length (pcv G ch h i) = 8" for ch h i using assms(2) spanCV_perfect [of G ch i h] spanNode_CV [of G ch i "2 ^ h"] by (metis node_law_def)
  then have "length (sub_CV x) = 32" using x(1) by (simp add: true_sub_def)
  ultimately show "storable x" using b by (simp add: storable_def CVSize_def)
qed

lemma length_blake3_root: "node_law G \<Longrightarrow> length (blake3_root G body) = 32"
  by (simp add: blake3_root_def node_law_def)

lemma treeRange_partTreeOf:
  assumes "range_of G body s n r" and "node_law G" and "length body < 2 ^ 62" and "rg_ChunkLog r \<le> 38"
  shows "\<exists>r'. treeRange (partTreeOf r) (int n) = Inr r' \<and> range_of G body s n r' \<and> rg_ChunkLog r' = rg_ChunkLog r"
proof -
  have d: "DecodeSubtrees (pt_Nodes (partTreeOf r)) = Inr (rg_Subtrees r)" "DecodeSubtrees (pt_Blocks (partTreeOf r)) = Inr (BlockSubtrees r)"
    unfolding partTreeOf_def PartTree.select_convs using range_storable(1) [OF assms(1-3)] by (blast intro: DecodeSubtrees_EncodeSubtrees)+
  have cl: "unat (word_of_nat (rg_ChunkLog r) :: 8 word) = rg_ChunkLog r" using assms(4) by (simp add: unat_of_nat)
  have root: "rg_HasRoot r \<longleftrightarrow> s = 0" "s = 0 \<longrightarrow> rg_Root r = blake3_root G (take n body)" using assms(1) by (auto simp: range_of_def)
  have lr: "length (pt_Root (partTreeOf r)) = CVSize \<longleftrightarrow> s = 0" using root length_blake3_root [OF assms(2)] by (auto simp: partTreeOf_def CVSize_def)
  obtain r' where r': "treeRange (partTreeOf r) (int n) = Inr r'" using d by (simp add: treeRange_def)
  have f: "rg_Offset r' = rg_Offset r" "rg_Size r' = int n" "rg_Head r' = rg_Head r" "rg_Tail r' = rg_Tail r" "rg_Subtrees r' = rg_Subtrees r"
      "rg_ChunkLog r' = rg_ChunkLog r" "rg_HasRoot r' \<longleftrightarrow> s = 0" "s = 0 \<longrightarrow> rg_Root r' = rg_Root r"
      "rg_Blocks r' = map (\<lambda>l. \<lparr> bk_CV = sub_CV l, bk_Offset = int64 (int (sub_Pos l) * int ChunkSize) \<rparr>) (BlockSubtrees r)"
    using r' d lr root(1) cl by (auto simp: treeRange_def partTreeOf_def)
  have "\<lparr> sub_CV = sub_CV l, sub_Height = rg_ChunkLog r, sub_Pos = toU64 (int64 (int (sub_Pos l) * int ChunkSize)) div ChunkSize \<rparr> = l"
    if l: "l \<in> set (BlockSubtrees r)" for l
  proof -
    have "sub_Pos l < 2 ^ 53" using range_storable(2) [OF assms(1-3)] l by blast
    moreover have "sub_Height l = rg_ChunkLog r" using l by (auto simp: BlockSubtrees_def)
    ultimately show ?thesis using blockSubtree_id [of "mkNode [] 0 (sub_Pos l)"] by simp
  qed
  then have "BlockSubtrees r' = BlockSubtrees r" unfolding BlockSubtrees_def [of r'] f(6,9) by (simp add: map_idI)
  then have "range_of G body s n r'" using assms(1) f unfolding range_of_def by simp
  then show ?thesis using r' f(6) by blast
qed

section \<open>Completing an upload\<close>

text \<open>Reading back gives the bytes of the body.\<close>

definition rereads :: "(int \<Rightarrow> int \<Rightarrow> string + bytes list) \<Rightarrow> bytes \<Rightarrow> bool" where
  "rereads reread body \<longleftrightarrow>
     (\<forall>s n. 0 < n \<and> s + n \<le> length body \<longrightarrow>
        (\<exists>ps. reread (int s) (int (s + n) - 1) = Inr ps \<and> concat ps = take n (drop s body)))"

lemma rehash_range:
  assumes "rereads reread body" and "s + n \<le> length body" and "length body < 2 ^ 62" and "buffer_law G"
  shows "\<exists>r. rehash G reread (int s) (int64 (int s + int n)) = Inr r \<and> range_of G body s n r \<and> rg_ChunkLog r \<le> ChunkLog (int (length body))"
proof -
  obtain h where h: "NewHasher (int s) = Inr h" using NewHasher_fed [of s body G] assms(2,3) by auto
  obtain ps where ps: "concat ps = take n (drop s body)" "n > 0 \<longrightarrow> reread (int s) (int (s + n) - 1) = Inr ps" "n = 0 \<longrightarrow> ps = []"
    using assms(1,2) unfolding rereads_def by (cases "n = 0") auto
  define r where "r = FinishRange G (fold (h_Write G) ps h)"
  have len: "length (concat ps) = n" using ps(1) assms(2) by simp
  have "hashed_at G s (concat ps) r" unfolding hashed_at_def r_def using h by blast
  note hr = hashed_at_range [OF this _ _ assms(3,4)]
  have "range_of G body s n r" "rg_ChunkLog r \<le> ChunkLog (int (s + n))" using hr len ps(1) assms(2) by simp_all
  moreover have "ChunkLog (int (s + n)) \<le> ChunkLog (int (length body))" using assms(2) by (intro ChunkLog_mono) simp
  moreover have "int64 (int s + int n) = int (s + n)" using assms(2,3) by (simp add: int64_small)
  then have "rehash G reread (int s) (int64 (int s + int n)) = Inr r" using h ps(2,3) by (auto simp: rehash_def r_def)
  ultimately show ?thesis using order_trans by blast
qed

text \<open>A part whose bytes are the given ones, with the tree \<open>UploadPart\<close> recorded for it, whatever parts were there at the
  time, or with none.\<close>

definition uploaded :: "'n guts \<Rightarrow> (int, PartTree) gomap \<Rightarrow> MultipartPart \<Rightarrow> bytes \<Rightarrow> bool" where
  "uploaded G trees p data \<longleftrightarrow>
     mp_Size p = int (length data)
     \<and> (\<forall>t. gm_get trees (mp_PartNumber p) = Some t \<longrightarrow>
          (\<exists>prior pieces. concat pieces = data \<and> uploadPartTree G prior (mp_PartNumber p) (mp_Size p) pieces = Some t))"

lemma partRange_uploaded:
  assumes "uploaded G trees p data" and "data = take (length data) (drop s body)" and "s + length data \<le> length body" and "length body < 2 ^ 62"
    and "rereads reread body" and "buffer_law G" and "node_law G"
  shows "\<exists>r. partRange G reread trees p (int s) = Inr r \<and> range_of G body s (length data) r \<and> rg_ChunkLog r \<le> ChunkLog (int (length body))"
proof -
  note again = rehash_range [OF assms(5,3,4,6)]
  have sz: "mp_Size p = int (length data)" using assms(1) by (simp add: uploaded_def)
  show ?thesis
  proof (cases "\<exists>t. gm_get trees (mp_PartNumber p) = Some t \<and> pt_Offset t = int s")
    case False
    then have "partRange G reread trees p (int s) = rehash G reread (int s) (int64 (int s + int (length data)))"
      using sz by (auto simp: partRange_def split: option.split)
    then show ?thesis using again by simp
  next
    case True
    then obtain t where t: "gm_get trees (mp_PartNumber p) = Some t" "pt_Offset t = int s" by blast
    then obtain prior pieces where u: "concat pieces = data" "uploadPartTree G prior (mp_PartNumber p) (mp_Size p) pieces = Some t"
      using assms(1) by (auto simp: uploaded_def)
    define off where "off = assumedPartOffset prior (mp_PartNumber p) (mp_Size p)"
    obtain h where h: "NewHasherAtChunkLog off (ChunkLog (int64 (off + mp_Size p))) = Inr h" "t = partTreeOf (FinishRange G (fold (h_Write G) pieces h))"
      using u(2) by (auto simp: uploadPartTree_def Let_def off_def split: sum.splits)
    have "off = int s"
    proof -
      have "hs_start h = off" using h(1) by (auto simp: NewHasherAtChunkLog_def NewHasher_def bindE_eq_Inr Let_def split: if_splits)
      then show ?thesis using t(2) h(2) FinishRange_offset [of G pieces h] by (simp add: partTreeOf_def)
    qed
    moreover have "int64 (int s + int (length data)) = int (s + length data)" using assms(3,4) by (simp add: int64_small)
    ultimately have "NewHasherAtChunkLog (int s) (ChunkLog (int (s + length data))) = Inr h" using h(1) sz by simp
    then have "hashed_at G s data (FinishRange G (fold (h_Write G) pieces h))" unfolding hashed_at_def using u(1) by blast
    note r = hashed_at_range [OF this assms(2,3,4,6)]
    have le: "ChunkLog (int (s + length data)) \<le> ChunkLog (int (length body))" using assms(3) by (intro ChunkLog_mono) simp
    then have "rg_ChunkLog (FinishRange G (fold (h_Write G) pieces h)) \<le> 38" using r(2) ChunkLog_le [of "int (length body)"] by simp
    from treeRange_partTreeOf [OF r(1) assms(7,4) this]
    obtain r' where r': "treeRange t (int (length data)) = Inr r'" "range_of G body s (length data) r'"
        "rg_ChunkLog r' = rg_ChunkLog (FinishRange G (fold (h_Write G) pieces h))" using h(2) by blast
    then have "partRange G reread trees p (int s) = Inr r'" using t sz by (simp add: partRange_def)
    then show ?thesis using r' r(2) le by auto
  qed
qed

fun true_offsets :: "int \<Rightarrow> MultipartPart list \<Rightarrow> int list" where
  "true_offsets off [] = []"
| "true_offsets off (p # ps) = off # true_offsets (off + mp_Size p) ps"

lemma partRanges_uploaded:
  assumes "length body < 2 ^ 62" and "rereads reread body" and "buffer_law G" and "node_law G"
  shows "list_all2 (uploaded G trees) ps datas \<Longrightarrow> concat datas = drop s body \<Longrightarrow> s \<le> length body \<Longrightarrow>
    \<exists>rs. partRanges G reread trees ps (true_offsets (int s) ps) = Inr rs \<and> ranges_from G body s rs (length body)
      \<and> (\<forall>r \<in> set rs. rg_ChunkLog r \<le> ChunkLog (int (length body))) \<and> map rg_Size rs = map mp_Size ps"
proof (induction ps arbitrary: s datas)
  case (Cons p ps)
  then obtain d ds where d: "datas = d # ds" "uploaded G trees p d" "list_all2 (uploaded G trees) ps ds" by (auto simp: list_all2_Cons1)
  have len: "s + length d \<le> length body" using arg_cong [OF Cons.prems(2), of length] Cons.prems(3) d(1) by simp
  have dd: "d = take (length d) (drop s body)" using arg_cong [OF Cons.prems(2), of "take (length d)"] d(1) by simp
  have ds: "concat ds = drop (s + length d) body" using arg_cong [OF Cons.prems(2), of "drop (length d)"] d(1) by (simp add: add.commute)
  obtain r where r: "partRange G reread trees p (int s) = Inr r" "range_of G body s (length d) r" "rg_ChunkLog r \<le> ChunkLog (int (length body))"
    using partRange_uploaded [OF d(2) dd len assms] by blast
  have sz: "mp_Size p = int (length d)" using d(2) by (simp add: uploaded_def)
  obtain rs where rs: "partRanges G reread trees ps (true_offsets (int (s + length d)) ps) = Inr rs" "ranges_from G body (s + length d) rs (length body)"
      "\<forall>r \<in> set rs. rg_ChunkLog r \<le> ChunkLog (int (length body))" "map rg_Size rs = map mp_Size ps"
    using Cons.IH [OF d(3) ds len] by blast
  show ?case using r rs sz range_size [OF r(2)] by (intro exI [of _ "r # rs"]) auto
qed auto

section \<open>Property\<close>

text \<open>C15. Completing a multipart upload: whatever order the parts came in, so whatever offsets they were assumed to have
  when they were hashed, the tree assembled from their records, with the parts at wrong offsets read back
  and hashed again, is the tree of the whole body hashed in one pass. The case refused is a body of one chunk
  in several parts that are not empty.\<close>

theorem multipartTree_object:
  assumes "buffer_law G" and "node_law G" and "list_all2 (uploaded G trees) ps datas" and "ps \<noteq> []" and "length (concat datas) < 2 ^ 62"
    and "rereads reread (concat datas)" and "ChunkSize < length (concat datas) \<or> length (filter (\<lambda>d. d \<noteq> []) datas) \<le> 1"
  shows "\<exists>h obj. NewHasher 0 = Inr h \<and> FinishObject G (h_Write G (concat datas) h) = Inr obj
    \<and> multipartTree G reread ps trees (true_offsets 0 ps) = Inr obj \<and> obj_Root obj = blake3_root G (concat datas)"
proof -
  define body where "body = concat datas"
  obtain h where h: "NewHasher 0 = Inr h" "FinishObject G (h_Write G body h) = Inr (object_of G body)"
    using object_hashed [OF assms(1), of "[body]" body] assms(5) by (auto simp: body_def)
  obtain rs where rs: "partRanges G reread trees ps (true_offsets 0 ps) = Inr rs" "ranges_from G body 0 rs (length body)"
      "\<forall>r \<in> set rs. rg_ChunkLog r \<le> ChunkLog (int (length body))" "map rg_Size rs = map mp_Size ps"
    using partRanges_uploaded [OF assms(5,6,1,2,3), of 0] by (auto simp: body_def)
  have sizes: "map mp_Size ps = map (\<lambda>d. int (length d)) datas" using assms(3)
    by (induction rule: list_all2_induct) (auto simp: uploaded_def)
  have "length (filter (\<lambda>r. rg_Size r > 0) rs) = length (filter (\<lambda>z. z > 0) (map rg_Size rs))" by (simp add: filter_map comp_def)
  also have "\<dots> = length (filter (\<lambda>d. d \<noteq> []) datas)" unfolding rs(4) sizes by (simp add: filter_map comp_def)
  finally have "\<not> (length body \<le> ChunkSize \<and> 2 \<le> length (filter (\<lambda>r. rg_Size r > 0) rs))" using assms(7) by (auto simp: body_def)
  moreover have "rs \<noteq> []" using rs(4) assms(4) by auto
  ultimately have "Assemble G rs = Inr (Some (object_of G body))"
    using Assemble_ranges [OF assms(2) assms(5) [folded body_def] rs(2)] rs(3) by auto
  then show ?thesis using h rs(1) unfolding body_def [symmetric] by (simp add: multipartTree_def object_of_def)
qed

definition demo_part :: "int \<Rightarrow> int \<Rightarrow> MultipartPart" where
  "demo_part n sz = \<lparr> mp_UploadID = ''u'', mp_PartNumber = n, mp_ETagMD5 = [], mp_Size = sz, mp_Checksum = [], mp_BlobDigests = [],
     mp_SpanLengths = None, mp_State = None, mp_CreatedAt = 0 \<rparr>"

text \<open>The first part has its recorded tree; the second is read back.\<close>

theorem multipartTree_object_witness:
  "\<exists>t obj. uploadPartTree demo_guts [] 1 1500 [replicate 1500 CHR ''a''] = Some t
    \<and> multipartTree demo_guts (\<lambda>s z. Inr [take (nat (z - s + 1)) (drop (nat s) (replicate 1500 CHR ''a'' @ replicate 700 CHR ''b''))])
        [demo_part 1 1500, demo_part 2 700] (gm_put 1 t gm_empty) [0, 1500] = Inr obj
    \<and> obj_Root obj = blake3_root demo_guts (replicate 1500 CHR ''a'' @ replicate 700 CHR ''b'')"
proof -
  let ?a = "replicate 1500 CHR ''a''" and ?b = "replicate 700 CHR ''b''"
  define reread :: "int \<Rightarrow> int \<Rightarrow> string + bytes list" where "reread = (\<lambda>s z. Inr [take (nat (z - s + 1)) (drop (nat s) (?a @ ?b))])"
  obtain t where t: "uploadPartTree demo_guts [] 1 1500 [?a] = Some t"
    using ChunkLog_le [of 1500] by (auto simp: uploadPartTree_def assumedPartOffset_def NewHasherAtChunkLog_def NewHasher_def MaxChunkLog_def int64_def Let_def)
  then have "\<exists>prior pieces. concat pieces = ?a \<and> uploadPartTree demo_guts prior 1 1500 pieces = Some t" by (intro exI [of _ "[]"] exI [of _ "[?a]"]) simp
  then have u: "list_all2 (uploaded demo_guts (gm_put 1 t gm_empty)) [demo_part 1 1500, demo_part 2 700] [?a, ?b]"
    by (simp add: uploaded_def demo_part_def)
  have rr: "rereads reread (concat [?a, ?b])" by (auto simp: rereads_def reread_def)
  have "\<exists>h obj. NewHasher 0 = Inr h \<and> FinishObject demo_guts (h_Write demo_guts (concat [?a, ?b]) h) = Inr obj
    \<and> multipartTree demo_guts reread [demo_part 1 1500, demo_part 2 700] (gm_put 1 t gm_empty) (true_offsets 0 [demo_part 1 1500, demo_part 2 700]) = Inr obj
    \<and> obj_Root obj = blake3_root demo_guts (concat [?a, ?b])"
    by (rule multipartTree_object [OF demo_laws u _ _ rr]) (simp_all add: ChunkSize_def)
  then show ?thesis using t unfolding reread_def by (auto simp: demo_part_def)
qed

end
