(* ===== verification/Blob_List.thy ===== *)
theory Blob_List
  imports Ingot_Prelude
begin

text \<open>
  The blobs of a stored body (\<open>src/bucket/blobs.go\<close>): the list a manifest keeps, its first entries inline
  and the rest in extent blocks; the list a write builds; and the two indexes over them, which share an
  interface. Writing and reading an extent block are arguments. Offsets and sizes are integers; the
  \<open>int64\<close> the code keeps them in cannot overflow for a body that exists.

  The theorem: whatever list a commit writes, the stored index answers from it exactly what the list
  itself answers, loading one extent at a time.
\<close>

section \<open>Binary search\<close>

text \<open>\<open>sort.Search\<close>.\<close>

function search_loop :: "(nat \<Rightarrow> bool) \<Rightarrow> nat \<Rightarrow> nat \<Rightarrow> nat" where
  "search_loop f i j =
     (if i < j then
        let h = (i + j) div 2
        in if \<not> f h then search_loop f (h + 1) j else search_loop f i h
      else i)"
  by pat_completeness auto
termination by (relation "measure (\<lambda>(_, i, j). j - i)") auto

declare search_loop.simps [simp del]

definition sort_Search :: "nat \<Rightarrow> (nat \<Rightarrow> bool) \<Rightarrow> nat" where
  "sort_Search n f = search_loop f 0 n"

section \<open>The list\<close>

record BlobEntry =
  ent_Digest :: multihash
  ent_Offset :: int

record ExtentRef =
  xr_Offset :: int
  xr_Link :: cid

record BlobList =
  bl_Head :: "BlobEntry list"
  bl_Extents :: "ExtentRef list"

record BlobRef =
  ref_Digest :: multihash
  ref_Start :: int
  ref_End :: int

definition ref_Len :: "BlobRef \<Rightarrow> int" where
  "ref_Len b = ref_End b - ref_Start b + 1"

definition headEntries :: nat where
  "headEntries = 1024"

definition extentEntries :: nat where
  "extentEntries = 1024"

definition maxExtentRefs :: nat where
  "maxExtentRefs = 8192"

definition blobCapacity :: nat where
  "blobCapacity = headEntries + maxExtentRefs * extentEntries"

section \<open>The list while it is written\<close>

type_synonym BlobRefs = "BlobRef list"

definition refs_Size :: "BlobRefs \<Rightarrow> int" where
  "refs_Size r = (if r = [] then 0 else ref_End (last r) + 1)"

definition refs_Append :: "multihash \<Rightarrow> int \<Rightarrow> BlobRefs \<Rightarrow> BlobRefs" where
  "refs_Append digest len r =
     (let start = refs_Size r in r @ [\<lparr> ref_Digest = digest, ref_Start = start, ref_End = start + len - 1 \<rparr>])"

definition refs_Locate :: "int \<Rightarrow> BlobRefs \<Rightarrow> string + BlobRef" where
  "refs_Locate off r =
     (let i = sort_Search (length r) (\<lambda>i. ref_End (r ! i) \<ge> off)
      in if off < 0 \<or> i = length r \<or> ref_Start (r ! i) > off then Inl ''no blob covers offset'' else Inr (r ! i))"

definition DigestList :: "BlobRefs \<Rightarrow> multihash list" where
  "DigestList r = map ref_Digest r"

definition blobEntries :: "BlobRefs \<Rightarrow> BlobEntry list" where
  "blobEntries refs = map (\<lambda>b. \<lparr> ent_Digest = ref_Digest b, ent_Offset = ref_Start b \<rparr>) refs"

text \<open>\<open>ReadBlobRefs\<close> over any index, given by its size and its extents; an index may change as it is read.\<close>

fun ReadBlobRefs ::
  "nat \<Rightarrow> ('x \<Rightarrow> int) \<Rightarrow> ('x \<Rightarrow> int \<Rightarrow> 'x \<times> (string + BlobRefs)) \<Rightarrow> 'x \<Rightarrow> BlobRefs \<Rightarrow> ('x \<times> (string + BlobRefs)) option" where
  "ReadBlobRefs 0 size_of extent x out = None"
| "ReadBlobRefs (Suc n) size_of extent x out =
     (let off = refs_Size out
      in if off < size_of x then
           (case extent x off of
              (x', Inl err) \<Rightarrow> Some (x', Inl err)
            | (x', Inr ext) \<Rightarrow> ReadBlobRefs n size_of extent x' (out @ ext))
         else Some (x, Inr out))"

section \<open>Writing the list\<close>

fun checkRefs :: "int \<Rightarrow> BlobRefs \<Rightarrow> string option" where
  "checkRefs nxt [] = None"
| "checkRefs nxt (b # refs) =
     (if ref_Digest b = [] then Some ''blob has no digest''
      else if ref_Start b \<noteq> nxt \<or> ref_End b < ref_Start b then Some ''want a non-empty span''
      else checkRefs (ref_End b + 1) refs)"

function putExtents ::
  "(BlobEntry list \<Rightarrow> 's \<Rightarrow> string + cid \<times> 's) \<Rightarrow> BlobRefs \<Rightarrow> 's \<Rightarrow> string + ExtentRef list \<times> 's" where
  "putExtents put refs s =
     (if refs = [] then Inr ([], s)
      else
        let chunk = take extentEntries refs
        in bindE (put (blobEntries chunk) s) (\<lambda>(c, s1).
           bindE (putExtents put (drop extentEntries refs) s1) (\<lambda>(xs, s2).
             Inr (\<lparr> xr_Offset = ref_Start (hd chunk), xr_Link = c \<rparr> # xs, s2))))"
  by pat_completeness auto
termination by (relation "measure (\<lambda>(_, refs, _). length refs)") (auto simp: extentEntries_def)

declare putExtents.simps [simp del]

definition BuildBlobList ::
  "(BlobEntry list \<Rightarrow> 's \<Rightarrow> string + cid \<times> 's) \<Rightarrow> BlobRefs \<Rightarrow> 's \<Rightarrow> string + BlobList \<times> 's" where
  "BuildBlobList put refs s =
     (if length refs > blobCapacity then Inl ''too many blobs''
      else
        case checkRefs 0 refs of
          Some err \<Rightarrow> Inl err
        | None \<Rightarrow>
            let head = min (length refs) headEntries
            in bindE (putExtents put (drop head refs) s) (\<lambda>(xs, s').
                 Inr (\<lparr> bl_Head = blobEntries (take head refs), bl_Extents = xs \<rparr>, s')))"

section \<open>The stored index\<close>

record storedIndex =
  x_list :: BlobList
  x_size :: int
  x_checked :: bool
  x_err :: "string option"
  x_loaded :: int
  x_refs :: BlobRefs

definition newIndex :: "BlobList \<Rightarrow> int \<Rightarrow> storedIndex" where
  "newIndex bl sz = \<lparr> x_list = bl, x_size = sz, x_checked = False, x_err = None, x_loaded = - 1, x_refs = [] \<rparr>"

fun checkExtents :: "int \<Rightarrow> int \<Rightarrow> ExtentRef list \<Rightarrow> string option" where
  "checkExtents sz prev [] = None"
| "checkExtents sz prev (e # es) =
     (if xr_Offset e \<le> prev \<or> xr_Offset e \<ge> sz then Some ''extent starts out of order''
      else checkExtents sz (xr_Offset e) es)"

definition x_check :: "storedIndex \<Rightarrow> storedIndex \<times> string option" where
  "x_check x =
     (if x_checked x then (x, x_err x)
      else
        let l = x_list x;
            err = (if x_size x < 0 then Some ''body size is negative''
                   else if x_size x = 0
                     then (if bl_Head l \<noteq> [] \<or> bl_Extents l \<noteq> [] then Some ''a zero-byte body lists blobs'' else None)
                   else if bl_Head l = [] then Some ''a body lists no blobs''
                   else checkExtents (x_size x) (ent_Offset (last (bl_Head l))) (bl_Extents l))
        in (x\<lparr> x_checked := True, x_err := err \<rparr>, err))"

definition extentStart :: "storedIndex \<Rightarrow> nat \<Rightarrow> int" where
  "extentStart x e =
     (if e = 0 then 0
      else if e > length (bl_Extents (x_list x)) then x_size x
      else xr_Offset (bl_Extents (x_list x) ! (e - 1)))"

definition extentFor :: "storedIndex \<Rightarrow> int \<Rightarrow> nat" where
  "extentFor x off =
     sort_Search (length (bl_Extents (x_list x))) (\<lambda>i. xr_Offset (bl_Extents (x_list x) ! i) > off)"

fun spanEntries :: "int \<Rightarrow> BlobEntry list \<Rightarrow> string + BlobRefs" where
  "spanEntries stop [] = Inr []"
| "spanEntries stop (e # es) =
     (let nxt = (case es of [] \<Rightarrow> stop | e' # _ \<Rightarrow> ent_Offset e')
      in if nxt \<le> ent_Offset e then Inl ''blob ends before it starts''
         else if ent_Digest e = [] then Inl ''blob has no digest''
         else bindE (spanEntries stop es) (\<lambda>rs.
           Inr (\<lparr> ref_Digest = ent_Digest e, ref_Start = ent_Offset e, ref_End = nxt - 1 \<rparr> # rs)))"

definition extentRefs :: "BlobEntry list \<Rightarrow> int \<Rightarrow> int \<Rightarrow> string + BlobRefs" where
  "extentRefs entries start stop =
     (case entries of
        [] \<Rightarrow> Inl ''no entries''
      | e # _ \<Rightarrow> if ent_Offset e \<noteq> start then Inl ''first blob not at start'' else spanEntries stop entries)"

definition x_load :: "(cid \<Rightarrow> string + BlobEntry list) \<Rightarrow> storedIndex \<Rightarrow> nat \<Rightarrow> storedIndex \<times> (string + BlobRefs)" where
  "x_load get x e =
     (if int e = x_loaded x then (x, Inr (x_refs x))
      else
        case (if e > 0 then get (xr_Link (bl_Extents (x_list x) ! (e - 1))) else Inr (bl_Head (x_list x))) of
          Inl err \<Rightarrow> (x, Inl err)
        | Inr entries \<Rightarrow>
            (case extentRefs entries (extentStart x e) (extentStart x (e + 1)) of
               Inl err \<Rightarrow> (x, Inl err)
             | Inr refs \<Rightarrow> (x\<lparr> x_loaded := int e, x_refs := refs \<rparr>, Inr refs)))"

definition x_Extent :: "(cid \<Rightarrow> string + BlobEntry list) \<Rightarrow> storedIndex \<Rightarrow> int \<Rightarrow> storedIndex \<times> (string + BlobRefs)" where
  "x_Extent get x off =
     (case x_check x of
        (x1, Some err) \<Rightarrow> (x1, Inl err)
      | (x1, None) \<Rightarrow>
          if off < 0 \<or> off \<ge> x_size x1 then (x1, Inl ''offset outside the body'')
          else x_load get x1 (extentFor x1 off))"

definition x_Locate :: "(cid \<Rightarrow> string + BlobEntry list) \<Rightarrow> storedIndex \<Rightarrow> int \<Rightarrow> storedIndex \<times> (string + BlobRef)" where
  "x_Locate get x off =
     (case x_Extent get x off of
        (x1, Inl err) \<Rightarrow> (x1, Inl err)
      | (x1, Inr refs) \<Rightarrow> (x1, refs_Locate off refs))"

fun digestsLoop ::
  "(cid \<Rightarrow> string + BlobEntry list) \<Rightarrow> nat list \<Rightarrow> storedIndex \<Rightarrow> multihash list \<Rightarrow> storedIndex \<times> (string + multihash list)" where
  "digestsLoop get [] x out = (x, Inr out)"
| "digestsLoop get (e # es) x out =
     (case x_load get x e of
        (x1, Inl err) \<Rightarrow> (x1, Inl err)
      | (x1, Inr refs) \<Rightarrow> digestsLoop get es x1 (out @ map ref_Digest refs))"

definition x_Digests :: "(cid \<Rightarrow> string + BlobEntry list) \<Rightarrow> storedIndex \<Rightarrow> storedIndex \<times> (string + multihash list)" where
  "x_Digests get x =
     (case x_check x of
        (x1, Some err) \<Rightarrow> (x1, Inl err)
      | (x1, None) \<Rightarrow>
          digestsLoop get (if x_size x1 > 0 then [0..<length (bl_Extents (x_list x1)) + 1] else []) x1 [])"


section \<open>Contiguous lists\<close>

lemma search_loop_spec:
  "i \<le> k \<Longrightarrow> k \<le> j \<Longrightarrow> (\<And>x. i \<le> x \<Longrightarrow> x < k \<Longrightarrow> \<not> f x) \<Longrightarrow> (\<And>x. k \<le> x \<Longrightarrow> x < j \<Longrightarrow> f x) \<Longrightarrow> search_loop f i j = k"
proof (induction f i j rule: search_loop.induct)
  case (1 f i j)
  show ?case
  proof (cases "i < j")
    case True
    define h where "h = (i + j) div 2"
    have h: "i \<le> h" "h < j" using True by (auto simp: h_def)
    have eq: "search_loop f i j = (if \<not> f h then search_loop f (h + 1) j else search_loop f i h)"
      using True by (subst search_loop.simps) (simp add: h_def Let_def)
    show ?thesis
    proof (cases "f h")
      case True
      then have "k \<le> h" using 1(5) [of h] h by (metis "1"(5) h(1) not_le_imp_less)
      then show ?thesis using 1(2) [OF \<open>i < j\<close> h_def] True eq h 1(3-6) by simp
    next
      case False
      then have "h + 1 \<le> k" using 1(6) [of h] h by (metis Suc_eq_plus1 Suc_leI not_le_imp_less)
      then show ?thesis using 1(1) [OF \<open>i < j\<close> h_def] False eq h 1(3-6) by simp
    qed
  qed (use 1(3,4) in \<open>simp add: search_loop.simps\<close>)
qed

lemma sort_Search_eq: "k \<le> n \<Longrightarrow> (\<And>x. x < k \<Longrightarrow> \<not> f x) \<Longrightarrow> (\<And>x. k \<le> x \<Longrightarrow> x < n \<Longrightarrow> f x) \<Longrightarrow> sort_Search n f = k"
  by (simp add: sort_Search_def search_loop_spec)

text \<open>The blobs cover the bytes from \<open>s\<close> on without a gap, each at least one byte, each with a digest.\<close>

fun contig :: "int \<Rightarrow> BlobRefs \<Rightarrow> bool" where
  "contig s [] = True"
| "contig s (b # rs) \<longleftrightarrow> ref_Start b = s \<and> s \<le> ref_End b \<and> ref_Digest b \<noteq> [] \<and> contig (ref_End b + 1) rs"

definition stop_of :: "int \<Rightarrow> BlobRefs \<Rightarrow> int" where
  "stop_of s rs = (if rs = [] then s else ref_End (last rs) + 1)"

lemma stop_of_simps [simp]:
  "stop_of s [] = s"
  "stop_of s (b # rs) = stop_of (ref_End b + 1) rs"
  "stop_of s (xs @ ys) = stop_of (stop_of s xs) ys"
  by (auto simp: stop_of_def)

lemma refs_Size_stop: "refs_Size rs = stop_of 0 rs"
  by (simp add: refs_Size_def stop_of_def)

lemma contig_append [simp]: "contig s (a @ b) \<longleftrightarrow> contig s a \<and> contig (stop_of s a) b"
  by (induction a arbitrary: s) auto

lemma contig_le: "contig s rs \<Longrightarrow> s \<le> stop_of s rs"
  by (induction rs arbitrary: s) fastforce+

lemma contig_less: "contig s rs \<Longrightarrow> rs \<noteq> [] \<Longrightarrow> s < stop_of s rs"
  using contig_le by (cases rs) force+

lemma contig_Start: "contig s rs \<Longrightarrow> b \<in> set rs \<Longrightarrow> s \<le> ref_Start b \<and> ref_Start b \<le> ref_End b \<and> ref_End b < stop_of s rs"
proof (induction rs arbitrary: s)
  case (Cons a rs)
  then show ?case using contig_le [of "ref_End a + 1" rs] by (cases "b = a") force+
qed simp

lemma checkRefs_contig: "checkRefs n refs = None \<longleftrightarrow> contig n refs"
  by (induction refs arbitrary: n) auto

lemma contig_covers:
  "contig s rs \<Longrightarrow> s \<le> off \<Longrightarrow> off < stop_of s rs \<Longrightarrow> \<exists>a b c. rs = a @ b # c \<and> ref_Start b \<le> off \<and> off \<le> ref_End b"
proof (induction rs arbitrary: s)
  case (Cons x rs)
  show ?case
  proof (cases "off \<le> ref_End x")
    case True
    then have "x # rs = [] @ x # rs \<and> ref_Start x \<le> off \<and> off \<le> ref_End x" using Cons.prems by simp
    then show ?thesis by blast
  next
    case False
    then obtain a b c where "rs = a @ b # c" "ref_Start b \<le> off" "off \<le> ref_End b"
      using Cons.IH [of "ref_End x + 1"] Cons.prems by auto
    then have "x # rs = (x # a) @ b # c \<and> ref_Start b \<le> off \<and> off \<le> ref_End b" by simp
    then show ?thesis by blast
  qed
qed simp

lemma refs_Locate_at:
  assumes "contig s (a @ b # c)" and "0 \<le> s" and "ref_Start b \<le> off" and "off \<le> ref_End b"
  shows "refs_Locate off (a @ b # c) = Inr b"
proof -
  let ?r = "a @ b # c"
  have s: "contig s a" "ref_Start b = stop_of s a" "contig (ref_End b + 1) c" using assms(1) by auto
  have "ref_End (?r ! x) < off" if "x < length a" for x
    using contig_Start [OF s(1), of "a ! x"] that s(2) assms(3) by (simp add: nth_append)
  moreover have "off \<le> ref_End (?r ! x)" if "length a \<le> x" "x < length ?r" for x
  proof (cases "x = length a")
    case False
    then have "?r ! x \<in> set c" using that by (auto simp: nth_append nth_Cons split: nat.split intro!: nth_mem)
    then show ?thesis using contig_Start [OF s(3)] assms(4) by fastforce
  qed (use assms(4) in simp)
  ultimately have "sort_Search (length ?r) (\<lambda>i. ref_End (?r ! i) \<ge> off) = length a" by (intro sort_Search_eq) (simp_all add: not_le)
  moreover have "0 \<le> off" using assms(2,3) contig_le [OF s(1)] s(2) by simp
  ultimately show ?thesis using assms(3) by (simp add: refs_Locate_def Let_def)
qed

lemma refs_Locate_outside:
  assumes "contig 0 rs" and "off < 0 \<or> off \<ge> refs_Size rs"
  shows "isl (refs_Locate off rs)"
proof (cases "off < 0")
  case False
  have "\<not> off \<le> ref_End (rs ! x)" if "x < length rs" for x
    using contig_Start [OF assms(1), of "rs ! x"] that assms(2) False by (simp add: refs_Size_stop)
  then have "sort_Search (length rs) (\<lambda>i. ref_End (rs ! i) \<ge> off) = length rs" by (intro sort_Search_eq) auto
  then show ?thesis by (simp add: refs_Locate_def)
qed (simp add: refs_Locate_def)

section \<open>The contract of an index\<close>

text \<open>An index stands for the blobs of a body, kept in parts: one part per block. \<open>part_start\<close> is where a part
  begins. Two answers are the same when they are equal or both are errors.\<close>

definition part_start :: "BlobRefs list \<Rightarrow> nat \<Rightarrow> int" where
  "part_start ps e = stop_of 0 (concat (take e ps))"

definition parts_ok :: "BlobRefs list \<Rightarrow> bool" where
  "parts_ok ps \<longleftrightarrow> contig 0 (concat ps) \<and> (\<forall>p \<in> set ps. p \<noteq> [])"

definition same_answer :: "'e + 'a \<Rightarrow> 'f + 'a \<Rightarrow> bool" where
  "same_answer a b \<longleftrightarrow> (case (a, b) of (Inl _, Inl _) \<Rightarrow> True | (Inr x, Inr y) \<Rightarrow> x = y | _ \<Rightarrow> False)"

locale blob_index =
  fixes repr :: "'x \<Rightarrow> BlobRefs list \<Rightarrow> bool"
    and size_of :: "'x \<Rightarrow> int"
    and locate :: "'x \<Rightarrow> int \<Rightarrow> 'x \<times> (string + BlobRef)"
    and extent :: "'x \<Rightarrow> int \<Rightarrow> 'x \<times> (string + BlobRefs)"
    and digests :: "'x \<Rightarrow> 'x \<times> (string + multihash list)"
  assumes repr_parts: "repr x ps \<Longrightarrow> parts_ok ps \<and> size_of x = refs_Size (concat ps)"
    and extent_part: "repr x ps \<Longrightarrow> e < length ps \<Longrightarrow> part_start ps e \<le> off \<Longrightarrow> off < part_start ps (Suc e) \<Longrightarrow>
      \<exists>x'. extent x off = (x', Inr (ps ! e)) \<and> repr x' ps"
    and locate_body: "repr x ps \<Longrightarrow> \<exists>x' r. locate x off = (x', r) \<and> repr x' ps \<and> same_answer r (refs_Locate off (concat ps))"
    and digests_body: "repr x ps \<Longrightarrow> \<exists>x'. digests x = (x', Inr (DigestList (concat ps))) \<and> repr x' ps"
begin

text \<open>Reading an index part by part gives the body's list.\<close>

lemma read_from:
  assumes "repr x ps" and "e \<le> length ps" and "length ps - e < n"
  shows "\<exists>x'. ReadBlobRefs n size_of extent x (concat (take e ps)) = Some (x', Inr (concat ps)) \<and> repr x' ps"
  using assms
proof (induction n arbitrary: x e)
  case (Suc n)
  have ok: "parts_ok ps" "size_of x = refs_Size (concat ps)" using repr_parts [OF Suc.prems(1)] by auto
  show ?case
  proof (cases "e = length ps")
    case True
    then show ?thesis using Suc.prems(1) ok by simp
  next
    case False
    then have e: "e < length ps" using Suc.prems(2) by simp
    have c: "contig 0 (concat (take (Suc e) ps))" "ps ! e \<noteq> []" "contig 0 (concat (take (Suc e) ps) @ concat (drop (Suc e) ps))"
      using ok(1) e by (auto simp: parts_ok_def simp flip: concat_append contig_append)
        (metis append_take_drop_id concat_append contig_append)
    have "part_start ps e < part_start ps (Suc e)"
      using c(1,2) contig_less [of "part_start ps e" "ps ! e"] e by (simp add: take_Suc_conv_app_nth part_start_def)
    moreover have "part_start ps (Suc e) \<le> refs_Size (concat ps)"
      using contig_le [of "part_start ps (Suc e)" "concat (drop (Suc e) ps)"] c(3)
      by (simp add: refs_Size_stop part_start_def) (metis append_take_drop_id concat_append stop_of_simps(3))
    moreover obtain x' where x': "extent x (part_start ps e) = (x', Inr (ps ! e))" "repr x' ps"
      using extent_part [OF Suc.prems(1) e order_refl] calculation(1) by blast
    moreover have "refs_Size (concat (take e ps)) = part_start ps e" by (simp add: part_start_def refs_Size_stop)
    ultimately show ?thesis
      using Suc.IH [OF x'(2), of "Suc e"] Suc.prems(3) e ok(2) by (simp add: take_Suc_conv_app_nth)
  qed
qed simp

lemma read_all: "repr x ps \<Longrightarrow> length ps < n \<Longrightarrow> \<exists>x'. ReadBlobRefs n size_of extent x [] = Some (x', Inr (concat ps)) \<and> repr x' ps"
  using read_from [of x ps 0 n] by simp

end

text \<open>The list a write builds is an index of one part.\<close>

definition refs_repr :: "BlobRefs \<Rightarrow> BlobRefs list \<Rightarrow> bool" where
  "refs_repr r ps \<longleftrightarrow> contig 0 r \<and> ps = (if r = [] then [] else [r])"

interpretation written: blob_index refs_repr refs_Size "\<lambda>r off. (r, refs_Locate off r)" "\<lambda>r off. (r, Inr r)"
  "\<lambda>r. (r, Inr (DigestList r))"
  by unfold_locales (auto simp: refs_repr_def parts_ok_def same_answer_def split: sum.splits if_splits)

section \<open>The stored index meets the contract\<close>

definition stored_list :: "(cid \<Rightarrow> string + BlobEntry list) \<Rightarrow> BlobList \<Rightarrow> BlobRefs list \<Rightarrow> bool" where
  "stored_list get bl ps \<longleftrightarrow>
     (case ps of
        [] \<Rightarrow> bl_Head bl = [] \<and> bl_Extents bl = []
      | h # cs \<Rightarrow> bl_Head bl = blobEntries h
          \<and> list_all2 (\<lambda>x c. xr_Offset x = ref_Start (hd c) \<and> get (xr_Link x) = Inr (blobEntries c)) (bl_Extents bl) cs)"

definition x_repr :: "(cid \<Rightarrow> string + BlobEntry list) \<Rightarrow> storedIndex \<Rightarrow> BlobRefs list \<Rightarrow> bool" where
  "x_repr get x ps \<longleftrightarrow> parts_ok ps \<and> stored_list get (x_list x) ps \<and> x_size x = refs_Size (concat ps)
     \<and> (x_checked x \<longrightarrow> x_err x = None)
     \<and> (x_loaded x = - 1 \<or> (\<exists>e < length ps. x_loaded x = int e \<and> x_refs x = ps ! e))"

lemma part_split:
  assumes "parts_ok ps" and "e < length ps"
  shows "contig (part_start ps e) (ps ! e)" and "ps ! e \<noteq> []" and "part_start ps (Suc e) = stop_of (part_start ps e) (ps ! e)"
proof -
  have "concat ps = concat (take e ps) @ ps ! e @ concat (drop (Suc e) ps)"
    using assms(2) by (metis id_take_nth_drop concat_append concat.simps(2))
  then show "contig (part_start ps e) (ps ! e)" using assms(1) by (simp add: parts_ok_def part_start_def)
  show "ps ! e \<noteq> []" using assms by (simp add: parts_ok_def)
  show "part_start ps (Suc e) = stop_of (part_start ps e) (ps ! e)"
    using assms(2) by (simp add: part_start_def take_Suc_conv_app_nth)
qed

lemma part_start_mono: "parts_ok ps \<Longrightarrow> e \<le> e' \<Longrightarrow> e' \<le> length ps \<Longrightarrow> part_start ps e \<le> part_start ps e'"
proof (induction e')
  case (Suc e')
  then show ?case
    using part_split [of ps e'] contig_less [of "part_start ps e'" "ps ! e'"] by (cases "e = Suc e'") auto
qed simp

lemma part_start_ends: "part_start ps 0 = 0" "part_start ps (length ps) = refs_Size (concat ps)"
  by (simp_all add: part_start_def refs_Size_stop)

lemma part_at:
  assumes "parts_ok ps" and "0 \<le> off" and "off < refs_Size (concat ps)"
  shows "\<exists>e < length ps. part_start ps e \<le> off \<and> off < part_start ps (Suc e)"
proof -
  let ?e = "LEAST e. off < part_start ps e"
  have l: "off < part_start ps (length ps)" using assms(3) by (simp add: part_start_ends)
  then have e: "off < part_start ps ?e" "?e \<le> length ps" by (rule LeastI, rule Least_le)
  then obtain e' where e': "?e = Suc e'" using assms(2) part_start_ends(1) [of ps] by (cases ?e) auto
  then have "\<not> off < part_start ps e'" using not_less_Least [of e' "\<lambda>e. off < part_start ps e"] by simp
  then show ?thesis using e e' by (metis Suc_le_lessD not_le_imp_less)
qed

lemma spanEntries_part: "contig s c \<Longrightarrow> spanEntries (stop_of s c) (blobEntries c) = Inr c"
proof (induction c arbitrary: s)
  case (Cons b c)
  have "(case blobEntries c of [] \<Rightarrow> stop_of (ref_End b + 1) c | e # _ \<Rightarrow> ent_Offset e) = ref_End b + 1"
    using Cons.prems by (cases c) (auto simp: blobEntries_def)
  then show ?case using Cons by (simp add: blobEntries_def)
qed (simp add: blobEntries_def)

lemma extentRefs_part:
  assumes "contig s c" and "c \<noteq> []"
  shows "extentRefs (blobEntries c) s (stop_of s c) = Inr c"
  using spanEntries_part [OF assms(1)] assms by (cases c) (auto simp: extentRefs_def blobEntries_def)

lemma extentStart_part:
  assumes "x_repr get x ps" and "ps \<noteq> []" and "e \<le> length ps"
  shows "extentStart x e = part_start ps e"
proof -
  obtain h cs where ps: "ps = h # cs" using assms(2) by (cases ps) auto
  have l: "list_all2 (\<lambda>x c. xr_Offset x = ref_Start (hd c) \<and> get (xr_Link x) = Inr (blobEntries c)) (bl_Extents (x_list x)) cs"
    using assms(1) by (simp add: x_repr_def stored_list_def ps)
  consider "e = 0" | "e = length ps" | "0 < e" "e < length ps" using assms(3) by linarith
  then show ?thesis
  proof cases
    case 2
    then show ?thesis using list_all2_lengthD [OF l] assms(1) part_start_ends(2) [of ps] by (simp add: extentStart_def x_repr_def ps)
  next
    case 3
    then have "xr_Offset (bl_Extents (x_list x) ! (e - 1)) = ref_Start (hd (cs ! (e - 1)))"
      using list_all2_nthD2 [OF l, of "e - 1"] by (simp add: ps)
    moreover have "contig (part_start ps e) (ps ! e)" "ps ! e \<noteq> []"
      using part_split [of ps e] assms(1) 3 by (auto simp: x_repr_def)
    moreover have "ps ! e = cs ! (e - 1)" using 3 by (simp add: ps)
    ultimately show ?thesis using 3 list_all2_lengthD [OF l] by (cases "cs ! (e - 1)") (auto simp: extentStart_def ps)
  qed (simp add: extentStart_def part_start_ends)
qed

lemma x_load_part:
  assumes "x_repr get x ps" and "e < length ps"
  shows "\<exists>x'. x_load get x e = (x', Inr (ps ! e)) \<and> x_repr get x' ps"
proof (cases "int e = x_loaded x")
  case True
  then have "x_refs x = ps ! e" using assms(1) by (auto simp: x_repr_def)
  then show ?thesis using True assms(1) by (simp add: x_load_def)
next
  case False
  obtain h cs where ps: "ps = h # cs" using assms(2) by (cases ps) auto
  have st: "bl_Head (x_list x) = blobEntries h"
      "list_all2 (\<lambda>x c. xr_Offset x = ref_Start (hd c) \<and> get (xr_Link x) = Inr (blobEntries c)) (bl_Extents (x_list x)) cs"
    using assms(1) by (simp_all add: x_repr_def stored_list_def ps)
  have "(if e > 0 then get (xr_Link (bl_Extents (x_list x) ! (e - 1))) else Inr (bl_Head (x_list x))) = Inr (blobEntries (ps ! e))"
    using list_all2_nthD2 [OF st(2), of "e - 1"] assms(2) st(1) by (cases e) (auto simp: ps)
  moreover have "extentRefs (blobEntries (ps ! e)) (extentStart x e) (extentStart x (e + 1)) = Inr (ps ! e)"
    using part_split [of ps e] extentRefs_part extentStart_part [OF assms(1)] assms by (auto simp: x_repr_def ps)
  moreover have "x_repr get (x\<lparr> x_loaded := int e, x_refs := ps ! e \<rparr>) ps" using assms by (auto simp: x_repr_def)
  ultimately show ?thesis using False by (simp add: x_load_def)
qed

lemma checkExtents_part:
  "list_all2 (\<lambda>x c. xr_Offset x = ref_Start (hd c) \<and> get (xr_Link x) = Inr (blobEntries c)) xs cs \<Longrightarrow>
   contig s (concat cs) \<Longrightarrow> \<forall>c \<in> set cs. c \<noteq> [] \<Longrightarrow> prev < s \<Longrightarrow> checkExtents (stop_of s (concat cs)) prev xs = None"
proof (induction xs cs arbitrary: s prev rule: list_all2_induct)
  case (Cons x xs c cs)
  have c: "contig s c" "c \<noteq> []" "contig (stop_of s c) (concat cs)" "ref_Start (hd c) = s"
    using Cons.prems by (auto simp: neq_Nil_conv)
  have "s < stop_of s c" "stop_of s c \<le> stop_of (stop_of s c) (concat cs)" using contig_less c contig_le by blast+
  then show ?case using Cons.IH [OF c(3)] Cons.hyps(1) Cons.prems(2,3) c(4) by simp
qed simp

lemma x_check_ok:
  assumes "x_repr get x ps"
  shows "\<exists>x'. x_check x = (x', None) \<and> x_repr get x' ps"
proof (cases "x_checked x")
  case True
  then show ?thesis using assms by (simp add: x_check_def x_repr_def)
next
  case False
  have ok: "parts_ok ps" "x_size x = refs_Size (concat ps)" "stored_list get (x_list x) ps" using assms by (simp_all add: x_repr_def)
  have "snd (x_check x) = None"
  proof (cases ps)
    case Nil
    then show ?thesis using ok(2,3) False by (simp add: x_check_def stored_list_def refs_Size_def)
  next
    case (Cons h cs)
    have h: "contig 0 h" "h \<noteq> []" "contig (stop_of 0 h) (concat cs)" "\<forall>c \<in> set cs. c \<noteq> []"
      using ok(1) by (auto simp: parts_ok_def Cons)
    have "ref_Start (last h) < stop_of 0 h" using contig_Start [OF h(1), of "last h"] h(2) by simp
    moreover have "ent_Offset (last (bl_Head (x_list x))) = ref_Start (last h)"
      using ok(3) h(2) by (simp add: stored_list_def Cons blobEntries_def last_map)
    moreover have "x_size x = stop_of (stop_of 0 h) (concat cs)" using ok(2) by (simp add: refs_Size_stop Cons)
    ultimately have "checkExtents (x_size x) (ent_Offset (last (bl_Head (x_list x)))) (bl_Extents (x_list x)) = None"
      using checkExtents_part [OF _ h(3,4), of get] ok(3) by (simp add: stored_list_def Cons)
    moreover have "0 < x_size x"
      using ok(2) contig_less [OF h(1,2)] contig_le [OF h(3)] by (simp add: refs_Size_stop Cons)
    moreover have "bl_Head (x_list x) \<noteq> []" using ok(3) h(2) by (simp add: stored_list_def Cons blobEntries_def)
    ultimately show ?thesis using False by (simp add: x_check_def)
  qed
  then show ?thesis using assms False by (auto simp: x_check_def x_repr_def Let_def)
qed

lemma extentFor_part:
  assumes "x_repr get x ps" and "e < length ps" and "part_start ps e \<le> off" and "off < part_start ps (Suc e)"
  shows "extentFor x off = e"
proof -
  obtain h cs where ps: "ps = h # cs" using assms(2) by (cases ps) auto
  have len: "length (bl_Extents (x_list x)) = length cs"
    using assms(1) list_all2_lengthD by (fastforce simp: x_repr_def stored_list_def ps)
  have off: "xr_Offset (bl_Extents (x_list x) ! i) = part_start ps (Suc i)" if "i < length cs" for i
    using extentStart_part [OF assms(1), of "Suc i"] that len by (simp add: extentStart_def ps)
  have ok: "parts_ok ps" using assms(1) by (simp add: x_repr_def)
  show ?thesis unfolding extentFor_def
  proof (rule sort_Search_eq)
    show "e \<le> length (bl_Extents (x_list x))" using assms(2) len by (simp add: ps)
    fix i assume "i < e"
    then show "\<not> xr_Offset (bl_Extents (x_list x) ! i) > off"
      using part_start_mono [OF ok, of "Suc i" e] assms(2,3) off [of i] by (simp add: ps)
  next
    fix i assume "e \<le> i" "i < length (bl_Extents (x_list x))"
    then show "xr_Offset (bl_Extents (x_list x) ! i) > off"
      using part_start_mono [OF ok, of "Suc e" "Suc i"] assms(4) off [of i] len by (simp add: ps)
  qed
qed

lemma x_Extent_part:
  assumes "x_repr get x ps" and "e < length ps" and "part_start ps e \<le> off" and "off < part_start ps (Suc e)"
  shows "\<exists>x'. x_Extent get x off = (x', Inr (ps ! e)) \<and> x_repr get x' ps"
proof -
  obtain x1 where x1: "x_check x = (x1, None)" "x_repr get x1 ps" using x_check_ok [OF assms(1)] by blast
  then have ok: "parts_ok ps" "x_size x1 = refs_Size (concat ps)" by (simp_all add: x_repr_def)
  have "0 \<le> off" "off < x_size x1"
    using part_start_mono [OF ok(1), of 0 e] part_start_mono [OF ok(1), of "Suc e" "length ps"] assms(2-4) ok(2)
    by (simp_all add: part_start_ends)
  then show ?thesis
    using x1 extentFor_part [OF x1(2) assms(2-4)] x_load_part [OF x1(2) assms(2)] by (simp add: x_Extent_def)
qed

lemma x_Locate_body:
  assumes "x_repr get x ps"
  shows "\<exists>x' r. x_Locate get x off = (x', r) \<and> x_repr get x' ps \<and> same_answer r (refs_Locate off (concat ps))"
proof (cases "0 \<le> off \<and> off < refs_Size (concat ps)")
  case True
  have ok: "parts_ok ps" using assms by (simp add: x_repr_def)
  obtain e where e: "e < length ps" "part_start ps e \<le> off" "off < part_start ps (Suc e)" using part_at [OF ok] True by blast
  note p = part_split [OF ok e(1)]
  obtain a b c where abc: "ps ! e = a @ b # c" "ref_Start b \<le> off" "off \<le> ref_End b"
    using contig_covers [OF p(1) e(2)] e(3) p(3) by auto
  have "refs_Locate off (ps ! e) = Inr b"
    using refs_Locate_at [of "part_start ps e" a b c] p(1) abc part_start_mono [OF ok, of 0 e] e(1) by (simp add: part_start_ends)
  moreover have "concat ps = (concat (take e ps) @ a) @ b # (c @ concat (drop (Suc e) ps))"
    using e(1) abc(1) by (metis id_take_nth_drop concat_append concat.simps(2) append_assoc append_Cons)
  then have "refs_Locate off (concat ps) = Inr b"
    using refs_Locate_at [of 0 "concat (take e ps) @ a" b "c @ concat (drop (Suc e) ps)"] ok abc(2,3) by (simp add: parts_ok_def)
  ultimately show ?thesis
    using x_Extent_part [OF assms e] by (auto simp: x_Locate_def same_answer_def)
next
  case False
  obtain x1 where x1: "x_check x = (x1, None)" "x_repr get x1 ps" using x_check_ok [OF assms] by blast
  moreover have "isl (refs_Locate off (concat ps))"
    using refs_Locate_outside False assms by (auto simp: x_repr_def parts_ok_def)
  ultimately show ?thesis using False
    by (auto simp: x_Locate_def x_Extent_def same_answer_def x_repr_def isl_def)
qed

lemma digestsLoop_parts:
  assumes "x_repr get x ps" and "e + n = length ps"
  shows "\<exists>x'. digestsLoop get [e..<length ps] x out = (x', Inr (out @ DigestList (concat (drop e ps)))) \<and> x_repr get x' ps"
  using assms
proof (induction n arbitrary: e x out)
  case (Suc n)
  then obtain x1 where x1: "x_load get x e = (x1, Inr (ps ! e))" "x_repr get x1 ps" using x_load_part [of get x ps e] by auto
  have "drop e ps = ps ! e # drop (Suc e) ps" using Suc.prems(2) by (simp add: Cons_nth_drop_Suc)
  then show ?case
    using Suc.IH [OF x1(2), of "Suc e" "out @ map ref_Digest (ps ! e)"] x1(1) Suc.prems(2) by (simp add: upt_rec [of e] DigestList_def del: upt_Suc)
qed (simp add: DigestList_def)

lemma x_Digests_body:
  assumes "x_repr get x ps"
  shows "\<exists>x'. x_Digests get x = (x', Inr (DigestList (concat ps))) \<and> x_repr get x' ps"
proof -
  obtain x1 where x1: "x_check x = (x1, None)" "x_repr get x1 ps" using x_check_ok [OF assms] by blast
  show ?thesis
  proof (cases ps)
    case Nil
    then show ?thesis using x1 by (simp add: x_Digests_def x_repr_def refs_Size_def DigestList_def)
  next
    case (Cons h cs)
    have "length (bl_Extents (x_list x1)) + 1 = length ps"
      using x1(2) list_all2_lengthD by (fastforce simp: x_repr_def stored_list_def Cons)
    moreover have "0 < x_size x1"
      using x1(2) contig_less [of 0 "concat ps"] by (auto simp: x_repr_def parts_ok_def refs_Size_stop Cons)
    ultimately show ?thesis using digestsLoop_parts [OF x1(2), of 0 "length ps" "[]"] x1(1) by (simp add: x_Digests_def)
  qed
qed

interpretation stored: blob_index "x_repr get" x_size "x_Locate get" "x_Extent get" "x_Digests get" for get
  by unfold_locales (blast intro: x_Extent_part x_Locate_body x_Digests_body | simp add: x_repr_def)+

section \<open>Writing a list and reading it back\<close>

text \<open>What the writer of the extents promises: an extent put is read back under its CID, and what was readable
  stays so.\<close>

definition extends :: "(cid \<Rightarrow> string + BlobEntry list) \<Rightarrow> (cid \<Rightarrow> string + BlobEntry list) \<Rightarrow> bool" where
  "extends get get' \<longleftrightarrow> (\<forall>c es. get c = Inr es \<longrightarrow> get' c = Inr es)"

lemma extends_refl [simp]: "extends get get"
  by (simp add: extends_def)

lemma extends_trans: "extends a b \<Longrightarrow> extends b c \<Longrightarrow> extends a c"
  by (simp add: extends_def)

locale extent_writer =
  fixes ok :: "'s \<Rightarrow> bool"
    and put :: "BlobEntry list \<Rightarrow> 's \<Rightarrow> string + cid \<times> 's"
    and read :: "'s \<Rightarrow> cid \<Rightarrow> string + BlobEntry list"
  assumes put_read: "ok s \<Longrightarrow> put es s = Inr (c, s') \<Longrightarrow> ok s' \<and> read s' c = Inr es \<and> extends (read s) (read s')"
begin

lemma putExtents_parts:
  "putExtents put refs s = Inr (xs, s') \<Longrightarrow> ok s \<Longrightarrow>
   \<exists>cs. concat cs = refs \<and> (\<forall>c \<in> set cs. c \<noteq> []) \<and> ok s' \<and> extends (read s) (read s')
     \<and> list_all2 (\<lambda>x c. xr_Offset x = ref_Start (hd c) \<and> read s' (xr_Link x) = Inr (blobEntries c)) xs cs"
proof (induction "length refs" arbitrary: refs s xs rule: less_induct)
  case less
  show ?case
  proof (cases "refs = []")
    case True
    then have "xs = []" "s' = s" using less.prems(1) putExtents.simps [of put refs s] by simp_all
    then show ?thesis using True less.prems(2) by (intro exI [of _ "[]"]) simp
  next
    case False
    let ?c = "take extentEntries refs"
    obtain c s1 ys where p: "put (blobEntries ?c) s = Inr (c, s1)" "putExtents put (drop extentEntries refs) s1 = Inr (ys, s')"
        "xs = \<lparr> xr_Offset = ref_Start (hd ?c), xr_Link = c \<rparr> # ys"
      using less.prems(1) False putExtents.simps [of put refs s] by (auto simp: bindE_eq_Inr Let_def)
    note w = put_read [OF less.prems(2) p(1)]
    obtain cs where cs: "concat cs = drop extentEntries refs" "\<forall>c \<in> set cs. c \<noteq> []" "ok s'" "extends (read s1) (read s')"
        "list_all2 (\<lambda>x c. xr_Offset x = ref_Start (hd c) \<and> read s' (xr_Link x) = Inr (blobEntries c)) ys cs"
      using less.hyps [OF _ p(2)] w False by (auto simp: extentEntries_def)
    have "read s' c = Inr (blobEntries ?c)" using w cs(4) by (simp add: extends_def)
    moreover have "?c \<noteq> []" using False by (simp add: extentEntries_def)
    ultimately show ?thesis using cs w p(3) extends_trans by (intro exI [of _ "?c # cs"]) auto
  qed
qed

lemma build_index:
  assumes "ok s" and "BuildBlobList put refs s = Inr (bl, s')"
  shows "ok s'" and "extends (read s) (read s')" and "contig 0 refs" and "length refs \<le> blobCapacity"
    and "\<exists>ps. concat ps = refs \<and> x_repr (read s') (newIndex bl (refs_Size refs)) ps \<and> length ps \<le> Suc (length (bl_Extents bl))"
proof -
  let ?n = "min (length refs) headEntries"
  obtain xs where xs: "putExtents put (drop ?n refs) s = Inr (xs, s')" "bl = \<lparr> bl_Head = blobEntries (take ?n refs), bl_Extents = xs \<rparr>"
    and c: "contig 0 refs" "length refs \<le> blobCapacity"
    using assms(2) by (auto simp: BuildBlobList_def bindE_eq_Inr Let_def checkRefs_contig split: if_splits option.splits)
  then show "contig 0 refs" "length refs \<le> blobCapacity" by blast+
  obtain cs where cs: "concat cs = drop ?n refs" "\<forall>c \<in> set cs. c \<noteq> []" "ok s'" "extends (read s) (read s')"
      "list_all2 (\<lambda>x c. xr_Offset x = ref_Start (hd c) \<and> read s' (xr_Link x) = Inr (blobEntries c)) xs cs"
    using putExtents_parts [OF xs(1) assms(1)] by blast
  then show "ok s'" "extends (read s) (read s')" by blast+
  define ps where "ps = (if refs = [] then [] else take ?n refs # cs)"
  have "refs = [] \<Longrightarrow> cs = []" using cs(1,2) by (cases cs) auto
  moreover have "take ?n refs \<noteq> []" if "refs \<noteq> []" using that by (simp add: headEntries_def)
  moreover have "concat ps = refs" using cs(1) by (auto simp: ps_def)
  ultimately show "\<exists>ps. concat ps = refs \<and> x_repr (read s') (newIndex bl (refs_Size refs)) ps \<and> length ps \<le> Suc (length (bl_Extents bl))"
    using cs c(1) list_all2_lengthD [OF cs(5)]
    by (intro exI [of _ ps]) (auto simp: x_repr_def newIndex_def stored_list_def parts_ok_def xs(2) ps_def blobEntries_def)
qed

end

lemma BuildBlobList_refuses:
  "length refs > blobCapacity \<or> \<not> contig 0 refs \<Longrightarrow> isl (BuildBlobList put refs s)"
  using checkRefs_contig [of 0 refs] by (auto simp: BuildBlobList_def split: option.splits)

end
