(* ===== verification/Bucket_Value.thy ===== *)
theory Bucket_Value
  imports Bucket_Commit Blob_List
begin

text \<open>
  What a bucket's tree points at (\<open>src/bucket/manifest.go\<close>, \<open>manifest_v0.go\<close>, \<open>leaf.go\<close>): the manifest of an
  object, the leaf of a key that holds several versions, the state of a version, and the strict wrappers
  around the generated union codecs. The generated codecs, with the hash that names a block, are
  parameters. A nil slice or map is the empty one, except where the code tells them apart.

  A value block is read through a view of the store, a function from CIDs to blocks: that of a
  transaction, or that of the readers.
\<close>

section \<open>Manifests\<close>

record Body =
  body_Size :: int
  body_MD5 :: bytes
  body_Blobs :: BlobList
  body_BLAKE3 :: bytes
  body_TreeChunkLog :: "8 word"
  body_TreeBlocks :: bytes
  body_PartSizes :: "int list"
  body_PartChecksums :: "string list"
  body_IndexRoot :: "cid option"

record ObjectManifest =
  mf_Key :: string
  mf_ContentType :: string
  mf_Created :: int
  mf_Body :: Body
  mf_ETag :: string
  mf_DeleteMarker :: bool
  mf_Seq :: seqno
  mf_VersionID :: string
  mf_ChecksumAlgorithm :: string
  mf_Checksum :: string
  mf_ChecksumType :: string
  mf_ContentEncoding :: string
  mf_ContentDisposition :: string
  mf_ContentLanguage :: string
  mf_CacheControl :: string
  mf_Expires :: string
  mf_WebsiteRedirectLocation :: string
  mf_Metadata :: "string \<rightharpoonup> string"
  mf_Plaintext :: bool

record BodyV0 =
  b0_Size :: int
  b0_MD5 :: bytes
  b0_Blobs :: "BlobRef list"
  b0_BLAKE3 :: bytes
  b0_TreeChunkLog :: "8 word"
  b0_TreeBlocks :: bytes
  b0_PartSizes :: "int list"
  b0_PartChecksums :: "string list"
  b0_IndexRoot :: "cid option"

record ObjectManifestV0 =
  m0_Key :: string
  m0_ContentType :: string
  m0_Created :: int
  m0_Body :: BodyV0
  m0_ETag :: string
  m0_DeleteMarker :: bool
  m0_Seq :: seqno
  m0_VersionID :: string
  m0_ChecksumAlgorithm :: string
  m0_Checksum :: string
  m0_ChecksumType :: string
  m0_ContentEncoding :: string
  m0_ContentDisposition :: string
  m0_ContentLanguage :: string
  m0_CacheControl :: string
  m0_Expires :: string
  m0_WebsiteRedirectLocation :: string
  m0_Metadata :: "string \<rightharpoonup> string"
  m0_Plaintext :: bool

definition upgrade :: "ObjectManifestV0 \<Rightarrow> ObjectManifest" where
  "upgrade m =
     (let b = m0_Body m;
          head = map (\<lambda>r. \<lparr> ent_Digest = ref_Digest r, ent_Offset = ref_Start r \<rparr>) (b0_Blobs b)
      in \<lparr> mf_Key = m0_Key m, mf_ContentType = m0_ContentType m, mf_Created = m0_Created m,
           mf_Body = \<lparr> body_Size = b0_Size b, body_MD5 = b0_MD5 b,
             body_Blobs = \<lparr> bl_Head = head, bl_Extents = [] \<rparr>, body_BLAKE3 = b0_BLAKE3 b,
             body_TreeChunkLog = b0_TreeChunkLog b, body_TreeBlocks = b0_TreeBlocks b,
             body_PartSizes = b0_PartSizes b, body_PartChecksums = b0_PartChecksums b, body_IndexRoot = b0_IndexRoot b \<rparr>,
           mf_ETag = m0_ETag m, mf_DeleteMarker = m0_DeleteMarker m, mf_Seq = m0_Seq m, mf_VersionID = m0_VersionID m,
           mf_ChecksumAlgorithm = m0_ChecksumAlgorithm m, mf_Checksum = m0_Checksum m, mf_ChecksumType = m0_ChecksumType m,
           mf_ContentEncoding = m0_ContentEncoding m, mf_ContentDisposition = m0_ContentDisposition m,
           mf_ContentLanguage = m0_ContentLanguage m, mf_CacheControl = m0_CacheControl m, mf_Expires = m0_Expires m,
           mf_WebsiteRedirectLocation = m0_WebsiteRedirectLocation m, mf_Metadata = m0_Metadata m, mf_Plaintext = m0_Plaintext m \<rparr>)"

section \<open>Leaves and version state\<close>

record VersionNode =
  vn_Seq :: seqno
  vn_VersionID :: string
  vn_Manifest :: cid

record ObjectLeaf =
  lf_Current :: VersionNode
  lf_Prev :: "cid option"
  lf_NullSeq :: seqno
  lf_State :: "cid option"

definition LegalHoldUnset :: "8 word" where
  "LegalHoldUnset = 0"

definition LegalHoldOff :: "8 word" where
  "LegalHoldOff = 1"

definition LegalHoldOn :: "8 word" where
  "LegalHoldOn = 2"

text \<open>A nil \<open>Retention\<close> is \<open>None\<close>.\<close>

record VersionState =
  vst_Retention :: "bytes option"
  vst_LegalHold :: "8 word"
  vst_Tags :: "string \<rightharpoonup> string"

definition VersionState_Empty :: "VersionState \<Rightarrow> bool" where
  "VersionState_Empty s \<longleftrightarrow> vst_Retention s = None \<and> vst_LegalHold s = LegalHoldUnset \<and> vst_Tags s = Map.empty"

section \<open>The unions and their strict codecs\<close>

record ValueUnion =
  vu_ManifestV0 :: "ObjectManifestV0 option"
  vu_Manifest :: "ObjectManifest option"
  vu_Leaf :: "ObjectLeaf option"

definition arms :: "ValueUnion \<Rightarrow> nat" where
  "arms u = (if vu_ManifestV0 u \<noteq> None then 1 else 0) + (if vu_Manifest u \<noteq> None then 1 else 0) + (if vu_Leaf u \<noteq> None then 1 else 0)"

type_synonym StateUnion = "VersionState option"
type_synonym BlobExtentUnion = "BlobEntry list option"

record value_env =
  ve_deps :: bucket_env
  ve_EncodeValue :: "ValueUnion \<Rightarrow> string + cid \<times> bytes"
  ve_DecodeValue :: "bytes \<Rightarrow> string + ValueUnion"
  ve_EncodeState :: "StateUnion \<Rightarrow> string + cid \<times> bytes"
  ve_DecodeState :: "bytes \<Rightarrow> string + StateUnion"
  ve_EncodeExtent :: "BlobExtentUnion \<Rightarrow> string + cid \<times> bytes"
  ve_DecodeExtent :: "bytes \<Rightarrow> string + BlobExtentUnion"

definition ManifestValue :: "ObjectManifest \<Rightarrow> ValueUnion" where
  "ManifestValue mf = \<lparr> vu_ManifestV0 = None, vu_Manifest = Some mf, vu_Leaf = None \<rparr>"

definition LeafValue :: "ObjectLeaf \<Rightarrow> ValueUnion" where
  "LeafValue l = \<lparr> vu_ManifestV0 = None, vu_Manifest = None, vu_Leaf = Some l \<rparr>"

definition ObjectValue_Marshal :: "value_env \<Rightarrow> ValueUnion \<Rightarrow> string + cid \<times> bytes" where
  "ObjectValue_Marshal V v =
     (if arms v \<noteq> 1 then Inl ''value block must carry exactly one union arm''
      else if vu_ManifestV0 v \<noteq> None then Inl ''/objectmanifest/0 is decode-only''
      else ve_EncodeValue V v)"

definition ObjectValue_Unmarshal :: "value_env \<Rightarrow> bytes \<Rightarrow> string + ValueUnion" where
  "ObjectValue_Unmarshal V d =
     bindE (ve_DecodeValue V d) (\<lambda>v.
       if arms v \<noteq> 1 then Inl ''block carries no known value-union key''
       else case vu_ManifestV0 v of
              Some m \<Rightarrow> Inr (v\<lparr> vu_Manifest := Some (upgrade m), vu_ManifestV0 := None \<rparr>)
            | None \<Rightarrow> Inr v)"

definition EnvelopedManifest_Marshal :: "value_env \<Rightarrow> ObjectManifest \<Rightarrow> string + cid \<times> bytes" where
  "EnvelopedManifest_Marshal V mf = ObjectValue_Marshal V (ManifestValue mf)"

definition EnvelopedManifest_Unmarshal :: "value_env \<Rightarrow> bytes \<Rightarrow> string + ObjectManifest" where
  "EnvelopedManifest_Unmarshal V d =
     bindE (ObjectValue_Unmarshal V d) (\<lambda>v.
       case vu_Manifest v of None \<Rightarrow> Inl ''block is not an enveloped manifest'' | Some mf \<Rightarrow> Inr mf)"

definition EnvelopedLeaf_Marshal :: "value_env \<Rightarrow> ObjectLeaf \<Rightarrow> string + cid \<times> bytes" where
  "EnvelopedLeaf_Marshal V l = ObjectValue_Marshal V (LeafValue l)"

definition EnvelopedLeaf_Unmarshal :: "value_env \<Rightarrow> bytes \<Rightarrow> string + ObjectLeaf" where
  "EnvelopedLeaf_Unmarshal V d =
     bindE (ObjectValue_Unmarshal V d) (\<lambda>v.
       case vu_Leaf v of None \<Rightarrow> Inl ''block is not an enveloped leaf'' | Some l \<Rightarrow> Inr l)"

definition EnvelopedVersionState_Marshal :: "value_env \<Rightarrow> VersionState option \<Rightarrow> string + cid \<times> bytes" where
  "EnvelopedVersionState_Marshal V s =
     (if s = None then Inl ''version-state block must carry a state'' else ve_EncodeState V s)"

definition EnvelopedVersionState_Unmarshal :: "value_env \<Rightarrow> bytes \<Rightarrow> string + VersionState" where
  "EnvelopedVersionState_Unmarshal V d =
     bindE (ve_DecodeState V d) (\<lambda>u. case u of None \<Rightarrow> Inl ''block is not an enveloped version state'' | Some s \<Rightarrow> Inr s)"

definition EnvelopedBlobExtent_Marshal :: "value_env \<Rightarrow> BlobEntry list option \<Rightarrow> string + cid \<times> bytes" where
  "EnvelopedBlobExtent_Marshal V e =
     (if e = None then Inl ''extent block must carry an extent'' else ve_EncodeExtent V e)"

definition EnvelopedBlobExtent_Unmarshal :: "value_env \<Rightarrow> bytes \<Rightarrow> string + BlobEntry list" where
  "EnvelopedBlobExtent_Unmarshal V d =
     bindE (ve_DecodeExtent V d) (\<lambda>u. case u of None \<Rightarrow> Inl ''block is not an enveloped blob extent'' | Some es \<Rightarrow> Inr es)"

section \<open>Reading and writing blocks\<close>

type_synonym block_view = "cid \<Rightarrow> log_error + bytes"

definition getBlockAs :: "(bytes \<Rightarrow> string + 'a) \<Rightarrow> block_view \<Rightarrow> cid \<Rightarrow> string + 'a" where
  "getBlockAs unmarshal B c = (case B c of Inl _ \<Rightarrow> Inl ''get block'' | Inr d \<Rightarrow> unmarshal d)"

definition getValue :: "value_env \<Rightarrow> block_view \<Rightarrow> cid \<Rightarrow> string + ValueUnion" where
  "getValue V = getBlockAs (ObjectValue_Unmarshal V)"

definition getManifest :: "value_env \<Rightarrow> block_view \<Rightarrow> cid \<Rightarrow> string + ObjectManifest" where
  "getManifest V = getBlockAs (EnvelopedManifest_Unmarshal V)"

definition getExtent :: "value_env \<Rightarrow> block_view \<Rightarrow> cid \<Rightarrow> string + BlobEntry list" where
  "getExtent V = getBlockAs (EnvelopedBlobExtent_Unmarshal V)"

definition getState :: "value_env \<Rightarrow> block_view \<Rightarrow> cid \<Rightarrow> string + VersionState" where
  "getState V = getBlockAs (EnvelopedVersionState_Unmarshal V)"

definition tx_PutAs :: "string + cid \<times> bytes \<Rightarrow> Tx \<Rightarrow> string + cid \<times> Tx" where
  "tx_PutAs enc tx = bindE enc (\<lambda>(c, d). Inr (c, tx_PutBlock (c, d) tx))"

definition tx_PutExtent :: "value_env \<Rightarrow> BlobEntry list \<Rightarrow> Tx \<Rightarrow> string + cid \<times> Tx" where
  "tx_PutExtent V es = tx_PutAs (EnvelopedBlobExtent_Marshal V (Some es))"

text \<open>\<open>bodyDigests\<close>: the digests of a stored body, its extents loaded through the view.\<close>

definition bodyDigests :: "value_env \<Rightarrow> block_view \<Rightarrow> Body \<Rightarrow> string + multihash list" where
  "bodyDigests V B body = snd (x_Digests (getExtent V B) (newIndex (body_Blobs body) (body_Size body)))"

section \<open>What is assumed of the codecs\<close>

definition encodes :: "bucket_env \<Rightarrow> (cid \<Rightarrow> bytes) \<Rightarrow> ('a \<Rightarrow> string + cid \<times> bytes) \<Rightarrow> (bytes \<Rightarrow> string + 'a) \<Rightarrow> bool" where
  "encodes D content enc dec \<longleftrightarrow>
     (\<forall>v c d. enc v = Inr (c, d) \<longrightarrow> d = content c \<and> dec d = Inr v \<and> well_formed D content c)"

definition values_ok :: "value_env \<Rightarrow> (cid \<Rightarrow> bytes) \<Rightarrow> bool" where
  "values_ok V content \<longleftrightarrow> codec_ok (ve_deps V) content
     \<and> encodes (ve_deps V) content (ve_EncodeValue V) (ve_DecodeValue V)
     \<and> encodes (ve_deps V) content (ve_EncodeState V) (ve_DecodeState V)
     \<and> encodes (ve_deps V) content (ve_EncodeExtent V) (ve_DecodeExtent V)"

lemma values_codec: "values_ok V content \<Longrightarrow> codec_ok (ve_deps V) content"
  by (simp add: values_ok_def)

lemma marshal_manifest:
  assumes "values_ok V content" and "EnvelopedManifest_Marshal V mf = Inr (c, d)"
  shows "d = content c" and "well_formed (ve_deps V) content c"
    and "ObjectValue_Unmarshal V d = Inr (ManifestValue mf)" and "EnvelopedManifest_Unmarshal V d = Inr mf"
proof -
  have "ve_EncodeValue V (ManifestValue mf) = Inr (c, d)"
    using assms(2) by (simp add: EnvelopedManifest_Marshal_def ObjectValue_Marshal_def ManifestValue_def arms_def)
  then have e: "d = content c" "ve_DecodeValue V d = Inr (ManifestValue mf)" "well_formed (ve_deps V) content c"
    using assms(1) unfolding values_ok_def encodes_def by blast+
  then show "d = content c" "well_formed (ve_deps V) content c" by blast+
  show u: "ObjectValue_Unmarshal V d = Inr (ManifestValue mf)"
    using e(2) by (simp add: ObjectValue_Unmarshal_def ManifestValue_def arms_def)
  then show "EnvelopedManifest_Unmarshal V d = Inr mf" by (simp add: EnvelopedManifest_Unmarshal_def ManifestValue_def)
qed

lemma marshal_leaf:
  assumes "values_ok V content" and "EnvelopedLeaf_Marshal V l = Inr (c, d)"
  shows "d = content c" and "well_formed (ve_deps V) content c" and "ObjectValue_Unmarshal V d = Inr (LeafValue l)"
proof -
  have "ve_EncodeValue V (LeafValue l) = Inr (c, d)"
    using assms(2) by (simp add: EnvelopedLeaf_Marshal_def ObjectValue_Marshal_def LeafValue_def arms_def)
  then have e: "d = content c" "ve_DecodeValue V d = Inr (LeafValue l)" "well_formed (ve_deps V) content c"
    using assms(1) unfolding values_ok_def encodes_def by blast+
  then show "d = content c" "well_formed (ve_deps V) content c" by blast+
  show "ObjectValue_Unmarshal V d = Inr (LeafValue l)"
    using e(2) by (simp add: ObjectValue_Unmarshal_def LeafValue_def arms_def)
qed

lemma marshal_state:
  assumes "values_ok V content" and "EnvelopedVersionState_Marshal V (Some s) = Inr (c, d)"
  shows "d = content c" and "well_formed (ve_deps V) content c" and "EnvelopedVersionState_Unmarshal V d = Inr s"
  using assms by (auto simp: EnvelopedVersionState_Marshal_def EnvelopedVersionState_Unmarshal_def values_ok_def encodes_def)

lemma marshal_extent:
  assumes "values_ok V content" and "EnvelopedBlobExtent_Marshal V (Some es) = Inr (c, d)"
  shows "d = content c" and "well_formed (ve_deps V) content c" and "EnvelopedBlobExtent_Unmarshal V d = Inr es"
  using assms by (auto simp: EnvelopedBlobExtent_Marshal_def EnvelopedBlobExtent_Unmarshal_def values_ok_def encodes_def)

lemma getBlockAs_mono: "view_le B B' \<Longrightarrow> getBlockAs u B c = Inr v \<Longrightarrow> getBlockAs u B' c = Inr v"
  by (auto simp: getBlockAs_def view_le_def split: sum.splits)

section \<open>Blocks put by a transaction\<close>

text \<open>A transaction in a state where every block it reads is the one its CID names.\<close>

definition tx_good :: "value_env \<Rightarrow> (cid \<Rightarrow> bytes) \<Rightarrow> Manager \<Rightarrow> Tx \<Rightarrow> bool" where
  "tx_good V content mg tx \<longleftrightarrow> tx_ok (ve_deps V) content tx \<and> view_ok (ve_deps V) content (tx_GetBlock (ve_deps V) mg tx)"

lemma tx_PutAs_good:
  assumes "tx_good V content mg tx" and "tx_PutAs enc tx = Inr (c, tx')"
    and "\<And>d. enc = Inr (c, d) \<Longrightarrow> d = content c \<and> well_formed (ve_deps V) content c"
  shows "tx_good V content mg tx'" and "same_tx tx tx'" and "view_le (tx_GetBlock (ve_deps V) mg tx) (tx_GetBlock (ve_deps V) mg tx')"
    and "tx_GetBlock (ve_deps V) mg tx' c = Inr (content c)" and "enc = Inr (c, content c)"
proof -
  obtain d where d: "enc = Inr (c, d)" "tx' = tx_PutBlock (c, d) tx" using assms(2) by (auto simp: tx_PutAs_def bindE_eq_Inr)
  note wf = assms(3) [OF d(1)]
  have tx: "tx_ok (ve_deps V) content tx" "view_ok (ve_deps V) content (tx_GetBlock (ve_deps V) mg tx)"
    using assms(1) by (simp_all add: tx_good_def)
  have get: "tx_GetBlock (ve_deps V) mg tx' c' = (if c' = c then Inr (content c) else tx_GetBlock (ve_deps V) mg tx c')" for c'
    using tx_GetBlock_Put [OF tx(1)] wf d(2) by simp
  then show "tx_GetBlock (ve_deps V) mg tx' c = Inr (content c)" "enc = Inr (c, content c)" using d wf by simp_all
  show "view_le (tx_GetBlock (ve_deps V) mg tx) (tx_GetBlock (ve_deps V) mg tx')"
    using get tx(2) by (auto simp: view_le_def view_ok_def)
  have "view_ok (ve_deps V) content (tx_GetBlock (ve_deps V) mg tx')"
    using get tx(2) wf by (auto simp: view_ok_def split: if_splits)
  then show "tx_good V content mg tx'" using tx_ok_Put [OF tx(1)] wf d(2) by (simp add: tx_good_def)
  show "same_tx tx tx'" by (simp add: d(2) same_tx_def tx_PutBlock_def)
qed

text \<open>So the transaction is a writer of extents, which keeps all it read at its start.\<close>

definition tx_from :: "value_env \<Rightarrow> (cid \<Rightarrow> bytes) \<Rightarrow> Manager \<Rightarrow> Tx \<Rightarrow> Tx \<Rightarrow> bool" where
  "tx_from V content mg tx0 tx \<longleftrightarrow> values_ok V content \<and> tx_good V content mg tx \<and> same_tx tx0 tx
     \<and> view_le (tx_GetBlock (ve_deps V) mg tx0) (tx_GetBlock (ve_deps V) mg tx)"

interpretation extents: extent_writer "tx_from V content mg tx0" "tx_PutExtent V"
  "\<lambda>tx. getExtent V (tx_GetBlock (ve_deps V) mg tx)" for V content mg tx0
proof
  fix tx es c tx'
  assume a: "tx_from V content mg tx0 tx" "tx_PutExtent V es tx = Inr (c, tx')"
  then have v: "values_ok V content" "tx_good V content mg tx" by (simp_all add: tx_from_def)
  have m: "d = content c \<and> well_formed (ve_deps V) content c \<and> EnvelopedBlobExtent_Unmarshal V d = Inr es"
    if "EnvelopedBlobExtent_Marshal V (Some es) = Inr (c, d)" for d
    using marshal_extent [OF v(1) that] by blast
  have wf: "d = content c \<and> well_formed (ve_deps V) content c" if "EnvelopedBlobExtent_Marshal V (Some es) = Inr (c, d)" for d
    using m [OF that] by blast
  note p = tx_PutAs_good [OF v(2) a(2) [unfolded tx_PutExtent_def] wf]
  have "getExtent V (tx_GetBlock (ve_deps V) mg tx') c = Inr es" using p(4) m [OF p(5)] by (simp add: getExtent_def getBlockAs_def)
  moreover have "extends (getExtent V (tx_GetBlock (ve_deps V) mg tx)) (getExtent V (tx_GetBlock (ve_deps V) mg tx'))"
    using getBlockAs_mono [OF p(3)] by (auto simp: extends_def getExtent_def)
  moreover have "tx_from V content mg tx0 tx'"
    using a(1) p(1-3) view_le_trans [OF _ p(3)] by (auto simp: tx_from_def same_tx_def)
  ultimately show "tx_from V content mg tx0 tx' \<and> getExtent V (tx_GetBlock (ve_deps V) mg tx') c = Inr es
      \<and> extends (getExtent V (tx_GetBlock (ve_deps V) mg tx)) (getExtent V (tx_GetBlock (ve_deps V) mg tx'))"
    by blast
qed

text \<open>The digests of a body stay what they are when more can be read.\<close>

lemma x_load_extends: "extends get get' \<Longrightarrow> x_load get x e = (x', Inr r) \<Longrightarrow> x_load get' x e = (x', Inr r)"
  by (auto simp: x_load_def extends_def split: if_splits sum.splits)

lemma digestsLoop_extends:
  "extends get get' \<Longrightarrow> digestsLoop get es x out = (x', Inr r) \<Longrightarrow> digestsLoop get' es x out = (x', Inr r)"
proof (induction es arbitrary: x out)
  case (Cons e es)
  then show ?case using x_load_extends [OF Cons.prems(1)] by (fastforce split: prod.splits sum.splits)
qed simp

lemma bodyDigests_mono:
  assumes "view_le B B'" and "bodyDigests V B body = Inr ds"
  shows "bodyDigests V B' body = Inr ds"
proof -
  have e: "extends (getExtent V B) (getExtent V B')" using getBlockAs_mono [OF assms(1)] by (auto simp: extends_def getExtent_def)
  obtain x1 where x1: "x_check (newIndex (body_Blobs body) (body_Size body)) = (x1, None)"
    using assms(2) by (auto simp: bodyDigests_def x_Digests_def split: prod.splits option.splits)
  let ?es = "if x_size x1 > 0 then [0..<length (bl_Extents (x_list x1)) + 1] else []"
  obtain x2 where "digestsLoop (getExtent V B) ?es x1 [] = (x2, Inr ds)"
    using assms(2) x1 by (auto simp: bodyDigests_def x_Digests_def intro: prod.exhaust [of "digestsLoop (getExtent V B) ?es x1 []"])
  then show ?thesis using digestsLoop_extends [OF e] x1 by (simp add: bodyDigests_def x_Digests_def)
qed

text \<open>A list built from the blobs of a body names their digests.\<close>

lemma BuildBlobList_tx:
  assumes "values_ok V content" and "tx_good V content mg tx" and "BuildBlobList (tx_PutExtent V) refs tx = Inr (bl, tx')"
  shows "tx_good V content mg tx'" and "same_tx tx tx'" and "view_le (tx_GetBlock (ve_deps V) mg tx) (tx_GetBlock (ve_deps V) mg tx')"
    and "body_Blobs body = bl \<Longrightarrow> body_Size body = refs_Size refs \<Longrightarrow>
      bodyDigests V (tx_GetBlock (ve_deps V) mg tx') body = Inr (DigestList refs)"
proof -
  have "tx_from V content mg tx tx" using assms(1,2) by (simp add: tx_from_def same_tx_def)
  note b = extents.build_index [OF this assms(3)]
  then show "tx_good V content mg tx'" "same_tx tx tx'" "view_le (tx_GetBlock (ve_deps V) mg tx) (tx_GetBlock (ve_deps V) mg tx')"
    by (simp_all add: tx_from_def)
  obtain ps where "concat ps = refs" "x_repr (getExtent V (tx_GetBlock (ve_deps V) mg tx')) (newIndex bl (refs_Size refs)) ps"
    using b(5) by blast
  then show "bodyDigests V (tx_GetBlock (ve_deps V) mg tx') body = Inr (DigestList refs)"
    if "body_Blobs body = bl" "body_Size body = refs_Size refs"
    using x_Digests_body that by (fastforce simp: bodyDigests_def)
qed

end
