(* ===== verification/S3_Version.thy ===== *)
theory S3_Version
  imports Bucket_Value Mem_Blobs
begin

text \<open>
  Object versions (\<open>src/s3frontend/version.go\<close>, with the claims and the unversioned delete of
  \<open>src/s3frontend/object.go\<close> and the error mapping of \<open>conditions.go\<close>): the version id token, the keys of the
  tree of noncurrent versions, the resolution of a version for a read, the rule that writes a new version,
  and the deletion of one version.

  A commit closure runs on the transaction and the registry, both of which it changes; what it has written to
  the registry stays when it fails. The ULID library, the authority captured for an upload registration and
  the evaluation of delete preconditions are parameters; six bytes stand for the time a ULID is minted
  at. A Go map of digests is iterated in the order of first occurrence; the rows written do not depend on
  it. Logging and tracing are left out.
\<close>

section \<open>Version ids\<close>

record version_env =
  vx_values :: value_env
  vx_ulid_String :: "bytes \<Rightarrow> string"
  vx_ulid_ParseStrict :: "string \<Rightarrow> string + bytes"
  vx_CaptureAuthority :: "did \<Rightarrow> UploadRegistrationOp \<Rightarrow> string + bytes"
  vx_releaseGrace :: time

abbreviation vx_deps :: "version_env \<Rightarrow> bucket_env" where
  "vx_deps X \<equiv> ve_deps (vx_values X)"

definition NullVersionID :: string where
  "NullVersionID = ''null''"

definition mintVersionID :: "version_env \<Rightarrow> bytes \<Rightarrow> seqno \<Rightarrow> string" where
  "mintVersionID X tm seq = vx_ulid_String X (tm @ [CHR 0x00, CHR 0x00] @ beBytes 8 (unat seq))"

datatype versionIDKind = versionKindCurrent | versionKindNull | versionKindToken | versionKindInvalid

definition classifyVersionID :: "version_env \<Rightarrow> string \<Rightarrow> versionIDKind \<times> seqno" where
  "classifyVersionID X versionID =
     (if versionID = '''' then (versionKindCurrent, 0)
      else if versionID = NullVersionID then (versionKindNull, 0)
      else case vx_ulid_ParseStrict X versionID of
             Inl _ \<Rightarrow> (versionKindInvalid, 0)
           | Inr i \<Rightarrow> (versionKindToken, of_nat (be (take 8 (drop 8 i)))))"

definition hexDigit :: "nat \<Rightarrow> char" where
  "hexDigit n = ''0123456789abcdef'' ! n"

text \<open>\<open>%016x\<close> of a 64-bit number.\<close>

fun hexFixed :: "nat \<Rightarrow> nat \<Rightarrow> string" where
  "hexFixed 0 x = []"
| "hexFixed (Suc n) x = hexDigit (x div 16 ^ n mod 16) # hexFixed n x"

definition revSeqKey :: "seqno \<Rightarrow> string" where
  "revSeqKey seq = hexFixed 16 (unat (NOT seq))"

fun decDigits :: "nat \<Rightarrow> string" where
  "decDigits n = (if n < 10 then [char_of (48 + n)] else decDigits (n div 10) @ [char_of (48 + n mod 10)])"

declare decDigits.simps [simp del]

definition claimVersionID :: "string \<Rightarrow> seqno \<Rightarrow> string" where
  "claimVersionID versionID seq = (if versionID = NullVersionID then ''null#'' @ decDigits (unat seq) else versionID)"

definition manifestVersionID :: "ObjectManifest \<Rightarrow> string" where
  "manifestVersionID mf = (if mf_VersionID mf = '''' then NullVersionID else mf_VersionID mf)"

definition targetVersionID :: "versionIDKind \<Rightarrow> ObjectManifest \<Rightarrow> string" where
  "targetVersionID kind mf = (if kind = versionKindNull \<or> mf_VersionID mf = '''' then NullVersionID else mf_VersionID mf)"

definition etagOf :: "ObjectManifest \<Rightarrow> string" where
  "etagOf mf =
     (let tag = (if mf_ETag mf = '''' then concat (map (\<lambda>c. hexFixed 2 (of_char c)) (body_MD5 (mf_Body mf))) else mf_ETag mf)
      in CHR 0x22 # tag @ [CHR 0x22])"

section \<open>Errors\<close>

datatype api_error =
    ErrInvalidBucketName
  | ErrNoSuchBucket
  | ErrNoSuchKey
  | NoSuchVersion string string
  | InvalidVersionId string
  | ErrSlowDown
  | PreconditionFailed string

datatype fn_error =
    FnApi api_error
  | ErrReservationSuperseded
  | FnReg registry_error
  | FnTree mst_error
  | FnBlock string
  | FnPanic string

datatype s3_error = S3Api api_error | S3Read fn_error | S3Commit string "fn_error op_error"

definition mapCommitError :: "fn_error op_error \<Rightarrow> string \<Rightarrow> s3_error" where
  "mapCommitError err opr =
     (case err of
        ErrBucketNotFound \<Rightarrow> S3Api ErrNoSuchBucket
      | OpAdvanceRoot RegErrReleaseInProgress \<Rightarrow> S3Api ErrSlowDown
      | OpFn (FnApi e) \<Rightarrow> S3Api e
      | _ \<Rightarrow> S3Commit opr err)"

section \<open>Walks\<close>

definition mstEmpty :: "mst_env \<Rightarrow> mst \<Rightarrow> mst_error + bool" where
  "mstEmpty E t =
     (case WalkLeavesFrom mst_fuel E t [] (\<lambda>_ _ _. (True, Some ErrStopWalk)) False of
        (_, Some e) \<Rightarrow> Inl e
      | (hit, None) \<Rightarrow> Inr (\<not> hit))"

definition prevHead :: "mst_env \<Rightarrow> mst \<Rightarrow> mst_error + cid option" where
  "prevHead E t =
     (case WalkLeavesFrom mst_fuel E t [] (\<lambda>_ _ v. (Some v, Some ErrStopWalk)) None of
        (_, Some e) \<Rightarrow> Inl e
      | (hit, None) \<Rightarrow> Inr hit)"

section \<open>Resolution\<close>

record resolvedVersion =
  rv_st :: State
  rv_leaf :: "ObjectLeaf option"
  rv_node :: VersionNode
  rv_mf :: ObjectManifest
  rv_isLatest :: bool

definition versioned :: "resolvedVersion \<Rightarrow> bool" where
  "versioned rv = Configured (st_Versioning (rv_st rv))"

definition treeE :: "mst_error + 'a \<Rightarrow> fn_error + 'a" where
  "treeE r = map_sum FnTree id r"

definition blockE :: "string + 'a \<Rightarrow> fn_error + 'a" where
  "blockE r = map_sum FnBlock id r"

text \<open>The manifest of a single-version key answers every class of version id.\<close>

definition manifestMatches :: "versionIDKind \<Rightarrow> string \<Rightarrow> ObjectManifest \<Rightarrow> bool" where
  "manifestMatches kind versionID mf =
     (case kind of
        versionKindNull \<Rightarrow> manifestVersionID mf = NullVersionID
      | versionKindToken \<Rightarrow> mf_VersionID mf = versionID
      | _ \<Rightarrow> True)"

definition manifestNode :: "cid \<Rightarrow> ObjectManifest \<Rightarrow> VersionNode" where
  "manifestNode c mf = \<lparr> vn_Seq = mf_Seq mf, vn_VersionID = manifestVersionID mf, vn_Manifest = c \<rparr>"

definition seekPrev :: "version_env \<Rightarrow> block_view \<Rightarrow> ObjectLeaf \<Rightarrow> api_error \<Rightarrow> seqno \<Rightarrow> fn_error + VersionNode \<times> bool" where
  "seekPrev X B leaf gone seq =
     (case lf_Prev leaf of
        None \<Rightarrow> Inl (FnApi gone)
      | Some p \<Rightarrow>
          (case mst_Get mst_fuel (view_env (vx_deps X) B) (LoadMST p) (revSeqKey seq) of
             Inl ErrNotFound \<Rightarrow> Inl (FnApi gone)
           | Inl e \<Rightarrow> Inl (FnTree e)
           | Inr c \<Rightarrow> Inr (\<lparr> vn_Seq = seq, vn_VersionID = '''', vn_Manifest = c \<rparr>, False)))"

definition locateVersion ::
  "version_env \<Rightarrow> block_view \<Rightarrow> ObjectLeaf \<Rightarrow> versionIDKind \<Rightarrow> seqno \<Rightarrow> string \<Rightarrow> api_error \<Rightarrow> fn_error + VersionNode \<times> bool" where
  "locateVersion X B leaf kind seq versionID gone =
     (case kind of
        versionKindNull \<Rightarrow>
          if vn_VersionID (lf_Current leaf) = NullVersionID then Inr (lf_Current leaf, True)
          else if lf_NullSeq leaf = 0 then Inl (FnApi gone)
          else seekPrev X B leaf gone (lf_NullSeq leaf)
      | versionKindToken \<Rightarrow>
          if vn_Seq (lf_Current leaf) = seq
          then (if vn_VersionID (lf_Current leaf) \<noteq> versionID then Inl (FnApi gone) else Inr (lf_Current leaf, True))
          else seekPrev X B leaf gone seq
      | _ \<Rightarrow> Inr (lf_Current leaf, True))"

definition resolveVersionIn :: "version_env \<Rightarrow> block_view \<Rightarrow> State \<Rightarrow> string \<Rightarrow> string \<Rightarrow> fn_error + resolvedVersion" where
  "resolveVersionIn X B st key versionID =
     (let (kind, seq) = classifyVersionID X versionID; gone = NoSuchVersion key versionID
      in if kind = versionKindInvalid then Inl (FnApi (InvalidVersionId versionID))
         else if \<not> cid_Defined (st_Root st) then Inl (FnApi ErrNoSuchKey)
         else
           case mst_Get mst_fuel (view_env (vx_deps X) B) (LoadMST (st_Root st)) key of
             Inl ErrNotFound \<Rightarrow> Inl (FnApi ErrNoSuchKey)
           | Inl e \<Rightarrow> Inl (FnTree e)
           | Inr valCid \<Rightarrow>
               bindE (blockE (getValue (vx_values X) B valCid)) (\<lambda>val.
                 case (vu_Manifest val, vu_Leaf val) of
                   (Some mf, _) \<Rightarrow>
                     if manifestMatches kind versionID mf
                     then Inr \<lparr> rv_st = st, rv_leaf = None, rv_node = manifestNode valCid mf, rv_mf = mf, rv_isLatest = True \<rparr>
                     else Inl (FnApi gone)
                 | (None, None) \<Rightarrow> Inl (FnPanic ''nil leaf'')
                 | (None, Some leaf) \<Rightarrow>
                     bindE (locateVersion X B leaf kind seq versionID gone) (\<lambda>(node, isLatest).
                     bindE (blockE (getManifest (vx_values X) B (vn_Manifest node))) (\<lambda>mf.
                       if isLatest
                       then Inr \<lparr> rv_st = st, rv_leaf = Some leaf, rv_node = node, rv_mf = mf, rv_isLatest = True \<rparr>
                       else if kind = versionKindToken \<and> mf_VersionID mf \<noteq> versionID then Inl (FnApi gone)
                       else Inr \<lparr> rv_st = st, rv_leaf = Some leaf, rv_node = node\<lparr> vn_VersionID := mf_VersionID mf \<rparr>,
                              rv_mf = mf, rv_isLatest = False \<rparr>))))"

definition resolveVersion :: "version_env \<Rightarrow> manager_state \<Rightarrow> string \<Rightarrow> string \<Rightarrow> string \<Rightarrow> fn_error + resolvedVersion" where
  "resolveVersion X lg bucketName key versionID =
     (case mem_Get bucketName (snd lg) of
        Inl RegErrNotFound \<Rightarrow> Inl (FnApi ErrNoSuchBucket)
      | Inl e \<Rightarrow> Inl (FnReg e)
      | Inr st \<Rightarrow> resolveVersionIn X (reads_view (vx_deps X) (fst lg) (st_Space st)) st key versionID)"

section \<open>The actions of a commit closure\<close>

record vstate =
  vs_tx :: Tx
  vs_reg :: MemStore

type_synonym 'a act = "vstate \<Rightarrow> vstate \<times> (fn_error + 'a)"

definition bindA :: "'a act \<Rightarrow> ('a \<Rightarrow> 'b act) \<Rightarrow> 'b act" where
  "bindA m f s = (case m s of (s', Inl e) \<Rightarrow> (s', Inl e) | (s', Inr x) \<Rightarrow> f x s')"

definition returnA :: "'a \<Rightarrow> 'a act" where
  "returnA x s = (s, Inr x)"

definition liftA :: "fn_error + 'a \<Rightarrow> 'a act" where
  "liftA r s = (s, r)"

definition readA :: "(Tx \<Rightarrow> fn_error + 'a) \<Rightarrow> 'a act" where
  "readA f s = (s, f (vs_tx s))"

definition txA :: "(Tx \<Rightarrow> fn_error + 'a \<times> Tx) \<Rightarrow> 'a act" where
  "txA f s = (case f (vs_tx s) of Inl e \<Rightarrow> (s, Inl e) | Inr (x, tx') \<Rightarrow> (s\<lparr> vs_tx := tx' \<rparr>, Inr x))"

definition rowsA :: "(Tx \<Rightarrow> Tx) \<Rightarrow> unit act" where
  "rowsA f s = (s\<lparr> vs_tx := f (vs_tx s) \<rparr>, Inr ())"

definition allocSeqA :: "string \<Rightarrow> seqno act" where
  "allocSeqA name s =
     (case AllocVersionSeq name (vs_reg s) of (m, r) \<Rightarrow> (s\<lparr> vs_reg := m \<rparr>, map_sum FnReg id r))"

definition gcA :: "cid \<Rightarrow> unit act" where
  "gcA c s = (s\<lparr> vs_reg := AddGCCandidate c (vs_reg s) \<rparr>, Inr ())"

definition putA :: "string + cid \<times> bytes \<Rightarrow> cid act" where
  "putA enc = txA (\<lambda>tx. blockE (tx_PutAs enc tx))"

definition pointerA :: "version_env \<Rightarrow> Manager \<Rightarrow> mst \<Rightarrow> cid act" where
  "pointerA X mg t = txA (\<lambda>tx. treeE (tx_GetPointer (vx_deps X) mg t tx))"

text \<open>Reads through the transaction: of blocks, and of a tree.\<close>

definition viewA :: "version_env \<Rightarrow> Manager \<Rightarrow> (block_view \<Rightarrow> fn_error + 'a) \<Rightarrow> 'a act" where
  "viewA X mg f = readA (\<lambda>tx. f (tx_GetBlock (vx_deps X) mg tx))"

definition treeA :: "version_env \<Rightarrow> Manager \<Rightarrow> (mst_env \<Rightarrow> mst_error + 'a) \<Rightarrow> 'a act" where
  "treeA X mg f = readA (\<lambda>tx. treeE (f (tx_reader (vx_deps X) mg tx)))"

section \<open>Claims and registrations\<close>

definition digestSet :: "multihash list \<Rightarrow> multihash list" where
  "digestSet ds = remdups ds"

definition addClaims :: "State \<Rightarrow> string \<Rightarrow> string \<Rightarrow> multihash list \<Rightarrow> bool \<Rightarrow> Tx \<Rightarrow> Tx" where
  "addClaims st key claimID digests pinned tx =
     (let claims = map (\<lambda>d. \<lparr> claim_Digest = d, claim_Bucket = st_Name st, claim_ObjectKey = key,
            claim_VersionID = claimID, claim_Space = st_Space st \<rparr>) (digestSet digests)
      in if pinned then PinBlobs claims tx else ClaimBlobs claims tx)"

definition dropClaims :: "version_env \<Rightarrow> State \<Rightarrow> string \<Rightarrow> string \<Rightarrow> multihash list \<Rightarrow> Tx \<Rightarrow> Tx" where
  "dropClaims X st key claimID digests tx =
     (if digests = [] then tx
      else DropClaims (map (\<lambda>d. \<lparr> drop_Digest = d, drop_Bucket = st_Name st, drop_ObjectKey = key,
             drop_VersionID = claimID, drop_Space = st_Space st \<rparr>) (digestSet digests)) (vx_releaseGrace X) tx)"

definition enqueueRegistration :: "version_env \<Rightarrow> State \<Rightarrow> string \<Rightarrow> cid \<Rightarrow> UploadRegistrationOp \<Rightarrow> Tx \<Rightarrow> Tx" where
  "enqueueRegistration X st key root opr tx =
     (if \<not> cid_Defined root then tx
      else
        case vx_CaptureAuthority X (st_Space st) opr of
          Inl _ \<Rightarrow> tx
        | Inr proofs \<Rightarrow> EnqueueUploadRegistration \<lparr> reg_Seq = 0, reg_Bucket = st_Name st, reg_ObjectKey = key, reg_Space = st_Space st,
            reg_Root = root, reg_Op = opr, reg_Attempts = 0, reg_NextAt = 0, reg_Proofs = proofs, reg_DeadLetteredAt = None,
            reg_DeadLetterReason = '''' \<rparr> tx)"

section \<open>The write rule\<close>

record discardedVersion =
  dv_versionID :: string
  dv_seq :: seqno
  dv_digests :: "multihash list"
  dv_manifest :: cid

record versionReservation =
  rs_Seq :: seqno
  rs_VersionID :: string

definition reserveVersion :: "version_env \<Rightarrow> bytes \<Rightarrow> string \<Rightarrow> MemStore \<Rightarrow> MemStore \<times> (registry_error + versionReservation)" where
  "reserveVersion X tm bucket m =
     (case AllocVersionSeq bucket m of
        (m', Inl e) \<Rightarrow> (m', Inl e)
      | (m', Inr seq) \<Rightarrow> (m', Inr \<lparr> rs_Seq = seq, rs_VersionID = mintVersionID X tm seq \<rparr>))"

text \<open>What a write brings: the key, the manifest before its seq and id are known, its blobs, the lock state the
  version is created with, whether its digests belong to another object, and what a completion reported.\<close>

record write_request =
  wr_key :: string
  wr_mf :: ObjectManifest
  wr_blobs :: "BlobRefs option"
  wr_initState :: "VersionState option"
  wr_pinned :: bool
  wr_reserved :: "versionReservation option"
  wr_preCheck :: "ObjectManifest option \<Rightarrow> api_error option"

definition chooseVersion :: "version_env \<Rightarrow> bytes \<Rightarrow> State \<Rightarrow> versionReservation option \<Rightarrow> (seqno \<times> string) act" where
  "chooseVersion X tm st reserved =
     (case reserved of
        Some r \<Rightarrow>
          if rs_VersionID r \<noteq> '''' then
            (if st_Versioning st \<noteq> VersioningEnabled then liftA (Inl ErrReservationSuperseded)
             else returnA (rs_Seq r, rs_VersionID r))
          else if st_Versioning st = VersioningEnabled then liftA (Inl ErrReservationSuperseded)
          else bindA (allocSeqA (st_Name st)) (\<lambda>seq. returnA (seq, NullVersionID))
      | None \<Rightarrow>
          bindA (allocSeqA (st_Name st)) (\<lambda>seq.
            returnA (seq, if st_Versioning st = VersioningEnabled then mintVersionID X tm seq else NullVersionID)))"

definition writeManifest :: "version_env \<Rightarrow> ObjectManifest \<Rightarrow> BlobRefs option \<Rightarrow> (ObjectManifest \<times> cid) act" where
  "writeManifest X mf blobs =
     bindA (case blobs of
              None \<Rightarrow> returnA mf
            | Some refs \<Rightarrow>
                bindA (txA (\<lambda>tx. blockE (BuildBlobList (tx_PutExtent (vx_values X)) refs tx))) (\<lambda>bl.
                  returnA (mf\<lparr> mf_Body := (mf_Body mf)\<lparr> body_Blobs := bl \<rparr> \<rparr>))) (\<lambda>mf'.
     bindA (putA (EnvelopedManifest_Marshal (vx_values X) mf')) (\<lambda>c. returnA (mf', c)))"

text \<open>The key's value before the write: its block, its leaf if it has one, its current version and manifest.\<close>

record priorValue =
  pv_valCid :: cid
  pv_leaf :: "ObjectLeaf option"
  pv_node :: VersionNode
  pv_mf :: ObjectManifest

definition loadPrior :: "version_env \<Rightarrow> Manager \<Rightarrow> mst \<Rightarrow> string \<Rightarrow> priorValue option act" where
  "loadPrior X mg t key =
     viewA X mg (\<lambda>B.
       case mst_Get mst_fuel (view_env (vx_deps X) B) t key of
         Inl ErrNotFound \<Rightarrow> Inr None
       | Inl e \<Rightarrow> Inl (FnTree e)
       | Inr c \<Rightarrow>
           bindE (blockE (getValue (vx_values X) B c)) (\<lambda>val.
             case (vu_Leaf val, vu_Manifest val) of
               (Some leaf, _) \<Rightarrow>
                 bindE (blockE (getManifest (vx_values X) B (vn_Manifest (lf_Current leaf)))) (\<lambda>mf.
                   Inr (Some \<lparr> pv_valCid = c, pv_leaf = Some leaf, pv_node = lf_Current leaf, pv_mf = mf \<rparr>))
             | (None, Some mf) \<Rightarrow> Inr (Some \<lparr> pv_valCid = c, pv_leaf = None, pv_node = manifestNode c mf, pv_mf = mf \<rparr>)
             | (None, None) \<Rightarrow> Inl (FnPanic ''nil manifest'')))"

definition newLeafAt :: "VersionNode \<Rightarrow> ObjectLeaf" where
  "newLeafAt node = \<lparr> lf_Current = node, lf_Prev = None, lf_NullSeq = 0, lf_State = None \<rparr>"

text \<open>The progress of a supersession: the leaf to be, the tree of noncurrent versions, the versions discarded.\<close>

record supersession =
  su_leaf :: "ObjectLeaf option"
  su_prev :: "mst option"
  su_discards :: "discardedVersion list"
  su_retained :: bool
  su_evicted :: bool

definition retainOrDiscard :: "version_env \<Rightarrow> Manager \<Rightarrow> State \<Rightarrow> priorValue \<Rightarrow> VersionNode \<Rightarrow> supersession act" where
  "retainOrDiscard X mg st p newNode =
     (let sup = pv_node p;
          leaf0 = map_option (\<lambda>l. \<lparr> lf_Current = newNode, lf_Prev = None, lf_NullSeq = lf_NullSeq l, lf_State = lf_State l \<rparr>) (pv_leaf p);
          prev0 = map_option LoadMST (Option.bind (pv_leaf p) lf_Prev);
          retain = (st_Versioning st = VersioningEnabled \<or> vn_VersionID sup \<noteq> NullVersionID)
      in if retain then
           bindA (treeA X mg (\<lambda>E. mst_Add mst_fuel E (case prev0 of None \<Rightarrow> NewEmptyMST | Some t \<Rightarrow> t)
                    (revSeqKey (vn_Seq sup)) (vn_Manifest sup) (- 1))) (\<lambda>t.
             let leaf1 = (case leaf0 of None \<Rightarrow> newLeafAt newNode | Some l \<Rightarrow> l);
                 leaf2 = (if vn_VersionID sup = NullVersionID then leaf1\<lparr> lf_NullSeq := vn_Seq sup \<rparr> else leaf1)
             in returnA \<lparr> su_leaf = Some leaf2, su_prev = Some t, su_discards = [], su_retained = True, su_evicted = False \<rparr>)
         else
           bindA (viewA X mg (\<lambda>B. blockE (bodyDigests (vx_values X) B (mf_Body (pv_mf p))))) (\<lambda>digests.
           bindA (gcA (vn_Manifest sup)) (\<lambda>_.
             returnA \<lparr> su_leaf = leaf0, su_prev = prev0,
               su_discards = [\<lparr> dv_versionID = vn_VersionID sup, dv_seq = vn_Seq sup, dv_digests = digests, dv_manifest = vn_Manifest sup \<rparr>],
               su_retained = False, su_evicted = False \<rparr>)))"

definition evictNull :: "version_env \<Rightarrow> Manager \<Rightarrow> string \<Rightarrow> supersession \<Rightarrow> supersession act" where
  "evictNull X mg vid u =
     (case su_leaf u of
        None \<Rightarrow> returnA u
      | Some l \<Rightarrow>
          if vid = NullVersionID \<and> lf_NullSeq l \<noteq> 0 then
            let nullKey = revSeqKey (lf_NullSeq l); cleared = u\<lparr> su_leaf := Some (l\<lparr> lf_NullSeq := 0 \<rparr>) \<rparr>
            in (case su_prev u of
                  None \<Rightarrow> returnA cleared
                | Some prev \<Rightarrow>
                    bindA (viewA X mg (\<lambda>B.
                      case mst_Get mst_fuel (view_env (vx_deps X) B) prev nullKey of
                        Inl ErrNotFound \<Rightarrow> Inr None
                      | Inl e \<Rightarrow> Inl (FnTree e)
                      | Inr c \<Rightarrow>
                          bindE (blockE (getManifest (vx_values X) B c)) (\<lambda>mf.
                          bindE (blockE (bodyDigests (vx_values X) B (mf_Body mf))) (\<lambda>digests. Inr (Some (c, digests)))))) (\<lambda>r.
                    case r of
                      None \<Rightarrow> returnA cleared
                    | Some (c, digests) \<Rightarrow>
                        bindA (treeA X mg (\<lambda>E. mst_Delete mst_fuel E prev nullKey)) (\<lambda>t.
                        bindA (gcA c) (\<lambda>_.
                          returnA (cleared\<lparr> su_prev := Some t, su_evicted := True,
                            su_discards := su_discards u @ [\<lparr> dv_versionID = NullVersionID, dv_seq = lf_NullSeq l,
                              dv_digests = digests, dv_manifest = c \<rparr>] \<rparr>)))))
          else returnA u)"

definition supersede :: "version_env \<Rightarrow> Manager \<Rightarrow> State \<Rightarrow> priorValue option \<Rightarrow> VersionNode \<Rightarrow> string \<Rightarrow> supersession act" where
  "supersede X mg st prior newNode vid =
     (case prior of
        None \<Rightarrow> returnA \<lparr> su_leaf = None, su_prev = None, su_discards = [], su_retained = False, su_evicted = False \<rparr>
      | Some p \<Rightarrow>
          bindA (retainOrDiscard X mg st p newNode) (\<lambda>u.
          bindA (evictNull X mg vid u) (\<lambda>u'.
            if pv_leaf p \<noteq> None then bindA (gcA (pv_valCid p)) (\<lambda>_. returnA u') else returnA u')))"

definition setPrev :: "version_env \<Rightarrow> Manager \<Rightarrow> supersession \<Rightarrow> ObjectLeaf option act" where
  "setPrev X mg u =
     (case su_prev u of
        None \<Rightarrow> returnA (su_leaf u)
      | Some t \<Rightarrow>
          bindA (if su_evicted u \<and> \<not> su_retained u then treeA X mg (\<lambda>E. mstEmpty E t) else returnA False) (\<lambda>empty.
            if empty then returnA (su_leaf u)
            else bindA (pointerA X mg t) (\<lambda>proot.
              case su_leaf u of
                None \<Rightarrow> liftA (Inl (FnPanic ''nil leaf''))
              | Some l \<Rightarrow> returnA (Some (l\<lparr> lf_Prev := Some proot \<rparr>)))))"

definition pruneVersionState :: "version_env \<Rightarrow> Manager \<Rightarrow> cid option \<Rightarrow> seqno \<Rightarrow> cid option act" where
  "pruneVersionState X mg stateRoot seq =
     (case stateRoot of
        None \<Rightarrow> returnA None
      | Some r \<Rightarrow>
          bindA (readA (\<lambda>tx.
            case mst_Get mst_fuel (tx_reader (vx_deps X) mg tx) (LoadMST r) (revSeqKey seq) of
              Inl ErrNotFound \<Rightarrow> Inr None
            | Inl e \<Rightarrow> Inl (FnTree e)
            | Inr c \<Rightarrow> Inr (Some c))) (\<lambda>entry.
          case entry of
            None \<Rightarrow> returnA stateRoot
          | Some scid \<Rightarrow>
              bindA (gcA scid) (\<lambda>_.
              bindA (treeA X mg (\<lambda>E. mst_Delete mst_fuel E (LoadMST r) (revSeqKey seq))) (\<lambda>t.
              bindA (treeA X mg (\<lambda>E. mstEmpty E t)) (\<lambda>empty.
                if empty then returnA None
                else bindA (pointerA X mg t) (\<lambda>root. returnA (Some root)))))))"

fun pruneAll :: "version_env \<Rightarrow> Manager \<Rightarrow> discardedVersion list \<Rightarrow> cid option \<Rightarrow> cid option act" where
  "pruneAll X mg [] root = returnA root"
| "pruneAll X mg (d # ds) root = bindA (pruneVersionState X mg root (dv_seq d)) (pruneAll X mg ds)"

definition stampState :: "version_env \<Rightarrow> Manager \<Rightarrow> VersionNode \<Rightarrow> VersionState option \<Rightarrow> ObjectLeaf option \<Rightarrow> ObjectLeaf option act" where
  "stampState X mg newNode initState leaf =
     (case initState of
        None \<Rightarrow> returnA leaf
      | Some _ \<Rightarrow>
          let l = (case leaf of None \<Rightarrow> newLeafAt newNode | Some l \<Rightarrow> l);
              t = (case lf_State l of None \<Rightarrow> NewEmptyMST | Some r \<Rightarrow> LoadMST r)
          in bindA (putA (EnvelopedVersionState_Marshal (vx_values X) initState)) (\<lambda>scid.
             bindA (treeA X mg (\<lambda>E. mst_Add mst_fuel E t (revSeqKey (vn_Seq newNode)) scid (- 1))) (\<lambda>t'.
             bindA (pointerA X mg t') (\<lambda>sroot. returnA (Some (l\<lparr> lf_State := Some sroot \<rparr>))))))"

definition maintainState ::
  "version_env \<Rightarrow> Manager \<Rightarrow> VersionNode \<Rightarrow> discardedVersion list \<Rightarrow> VersionState option \<Rightarrow> ObjectLeaf option \<Rightarrow> ObjectLeaf option act" where
  "maintainState X mg newNode discards initState leaf =
     bindA (case leaf of
              None \<Rightarrow> returnA None
            | Some l \<Rightarrow> bindA (pruneAll X mg discards (lf_State l)) (\<lambda>root. returnA (Some (l\<lparr> lf_State := root \<rparr>))))
       (stampState X mg newNode initState)"

definition writeValue ::
  "version_env \<Rightarrow> Manager \<Rightarrow> mst \<Rightarrow> string \<Rightarrow> bool \<Rightarrow> cid \<Rightarrow> ObjectLeaf option \<Rightarrow> mst act" where
  "writeValue X mg t key there mfCid leaf =
     bindA (case leaf of None \<Rightarrow> returnA mfCid | Some l \<Rightarrow> putA (EnvelopedLeaf_Marshal (vx_values X) l)) (\<lambda>c.
       treeA X mg (\<lambda>E. if there then mst_Update mst_fuel E t key c else mst_Add mst_fuel E t key c (- 1)))"

definition carryRows ::
  "version_env \<Rightarrow> State \<Rightarrow> string \<Rightarrow> VersionNode \<Rightarrow> multihash list \<Rightarrow> bool \<Rightarrow> discardedVersion list \<Rightarrow> Tx \<Rightarrow> Tx" where
  "carryRows X st key node digs pinned discards tx =
     fold (\<lambda>d. enqueueRegistration X st key (dv_manifest d) UploadRegistrationRemove) discards
       (enqueueRegistration X st key (vn_Manifest node) UploadRegistrationAdd
         (fold (\<lambda>d. dropClaims X st key (claimVersionID (dv_versionID d) (dv_seq d)) (dv_digests d)) discards
           (addClaims st key (claimVersionID (vn_VersionID node) (vn_Seq node)) digs pinned tx)))"

definition commitVersionFn ::
  "version_env \<Rightarrow> Manager \<Rightarrow> bytes \<Rightarrow> write_request \<Rightarrow> State \<Rightarrow> mst \<Rightarrow> (cid \<times> VersionNode \<times> VersioningState) act" where
  "commitVersionFn X mg tm w st t =
     bindA (chooseVersion X tm st (wr_reserved w)) (\<lambda>(seq, vid).
     bindA (writeManifest X ((wr_mf w)\<lparr> mf_Seq := seq, mf_VersionID := vid \<rparr>) (wr_blobs w)) (\<lambda>(mf, mfCid).
     bindA (loadPrior X mg t (wr_key w)) (\<lambda>prior.
     bindA (case (wr_reserved w, prior) of
              (Some r, Some p) \<Rightarrow> if rs_VersionID r \<noteq> '''' \<and> vn_Seq (pv_node p) > seq then liftA (Inl ErrReservationSuperseded) else returnA ()
            | _ \<Rightarrow> returnA ()) (\<lambda>_.
     bindA (case wr_preCheck w (map_option pv_mf prior) of Some e \<Rightarrow> liftA (Inl (FnApi e)) | None \<Rightarrow> returnA ()) (\<lambda>_.
     let node = \<lparr> vn_Seq = seq, vn_VersionID = vid, vn_Manifest = mfCid \<rparr>
     in bindA (supersede X mg st prior node vid) (\<lambda>u.
        bindA (setPrev X mg u) (\<lambda>leaf.
        bindA (maintainState X mg node (su_discards u) (wr_initState w) leaf) (\<lambda>leaf'.
        bindA (writeValue X mg t (wr_key w) (prior \<noteq> None) mfCid leaf') (\<lambda>t2.
        bindA (case wr_blobs w of
                 Some refs \<Rightarrow> returnA (DigestList refs)
               | None \<Rightarrow> viewA X mg (\<lambda>B. blockE (bodyDigests (vx_values X) B (mf_Body mf)))) (\<lambda>digs.
        bindA (rowsA (carryRows X st (wr_key w) node digs (wr_pinned w) (su_discards u))) (\<lambda>_.
        bindA (pointerA X mg t2) (\<lambda>root. returnA (root, node, st_Versioning st)))))))))))))"

text \<open>A closure over the transaction's own snapshot, as a coordinator runs it; and what it assigned to the
  variables it captures.\<close>

type_synonym 'r closure = "Manager \<Rightarrow> State \<Rightarrow> mst \<Rightarrow> (cid \<times> 'r) act"

definition runFn :: "'r closure \<Rightarrow> fn_error MutateFn" where
  "runFn fn mg tx m =
     (case fn mg (tx_state tx) (LoadTree tx) \<lparr> vs_tx = tx, vs_reg = m \<rparr> of
        (s, Inl e) \<Rightarrow> (vs_reg s, Inl e)
      | (s, Inr (root, _)) \<Rightarrow> (vs_reg s, Inr (root, vs_tx s)))"

definition captured :: "'r closure \<Rightarrow> string \<Rightarrow> Coordinator \<Rightarrow> 'r option" where
  "captured fn bucket co =
     (case Begin bucket co :: (Coordinator \<times> (fn_error op_error + Tx)) option of
        Some (co1, Inr tx) \<Rightarrow>
          (case fn (fst (co_log co1)) (tx_state tx) (LoadTree tx) \<lparr> vs_tx = tx, vs_reg = snd (co_log co1) \<rparr> of
             (_, Inr (_, r)) \<Rightarrow> Some r
           | _ \<Rightarrow> None)
      | _ \<Rightarrow> None)"

definition runTx :: "version_env \<Rightarrow> commit_io \<Rightarrow> string \<Rightarrow> string \<Rightarrow> 'r closure \<Rightarrow> Coordinator \<Rightarrow> (Coordinator \<times> (s3_error + 'r)) option" where
  "runTx X io opr bucket fn co =
     (case WithTx (vx_deps X) io bucket (runFn fn) co of
        None \<Rightarrow> None
      | Some (co', Some e) \<Rightarrow> Some (co', Inl (mapCommitError e opr))
      | Some (co', None) \<Rightarrow> map_option (\<lambda>r. (co', Inr r)) (captured fn bucket co))"

definition commitVersionAt ::
  "version_env \<Rightarrow> commit_io \<Rightarrow> bytes \<Rightarrow> string \<Rightarrow> write_request \<Rightarrow> Coordinator \<Rightarrow> (Coordinator \<times> (s3_error + VersionNode \<times> VersioningState)) option" where
  "commitVersionAt X io tm bucket w = runTx X io ''commit version'' bucket (\<lambda>mg. commitVersionFn X mg tm w)"

definition commitVersion ::
  "version_env \<Rightarrow> commit_io \<Rightarrow> bytes \<Rightarrow> string \<Rightarrow> write_request \<Rightarrow> Coordinator \<Rightarrow> (Coordinator \<times> (s3_error + VersionNode \<times> VersioningState)) option" where
  "commitVersion X io tm bucket w = commitVersionAt X io tm bucket (w\<lparr> wr_reserved := None \<rparr>)"

section \<open>Deleting a version\<close>

record scopedDeleteResult =
  sd_found :: bool
  sd_wasMarker :: bool
  sd_versioning :: VersioningState

text \<open>The preconditions of a delete, applied to the ETag, the time and the size of the version at hand.\<close>

type_synonym deletePreconditions = "string \<Rightarrow> int \<Rightarrow> int \<Rightarrow> api_error option"

definition evaluateA :: "deletePreconditions \<Rightarrow> ObjectManifest \<Rightarrow> unit act" where
  "evaluateA f mf =
     (case f (etagOf mf) (mf_Created mf) (body_Size (mf_Body mf)) of Some e \<Rightarrow> liftA (Inl (FnApi e)) | None \<Rightarrow> returnA ())"

definition preconditionA :: "deletePreconditions option \<Rightarrow> ObjectManifest \<Rightarrow> unit act" where
  "preconditionA preconds mf =
     (case preconds of
        Some f \<Rightarrow> if mf_DeleteMarker mf then returnA () else evaluateA f mf
      | None \<Rightarrow> returnA ())"

definition dropVersionA :: "version_env \<Rightarrow> Manager \<Rightarrow> State \<Rightarrow> string \<Rightarrow> string \<Rightarrow> ObjectManifest \<Rightarrow> cid \<Rightarrow> unit act" where
  "dropVersionA X mg st key versionID mf c =
     bindA (viewA X mg (\<lambda>B. blockE (bodyDigests (vx_values X) B (mf_Body mf)))) (\<lambda>digests.
       rowsA (\<lambda>tx. enqueueRegistration X st key c UploadRegistrationRemove
         (dropClaims X st key (claimVersionID versionID (mf_Seq mf)) digests tx)))"

definition spliceLeaf :: "version_env \<Rightarrow> Manager \<Rightarrow> mst \<Rightarrow> string \<Rightarrow> ObjectLeaf \<Rightarrow> mst option \<Rightarrow> cid act" where
  "spliceLeaf X mg t key leaf prevTree =
     bindA (case prevTree of
              None \<Rightarrow> returnA leaf
            | Some p \<Rightarrow>
                bindA (treeA X mg (\<lambda>E. mstEmpty E p)) (\<lambda>empty.
                  if empty then returnA leaf
                  else bindA (pointerA X mg p) (\<lambda>proot. returnA (leaf\<lparr> lf_Prev := Some proot \<rparr>)))) (\<lambda>leaf'.
     bindA (putA (EnvelopedLeaf_Marshal (vx_values X) leaf')) (\<lambda>c.
     bindA (treeA X mg (\<lambda>E. mst_Update mst_fuel E t key c)) (\<lambda>t2.
       pointerA X mg t2)))"

definition deleteKeyA :: "version_env \<Rightarrow> Manager \<Rightarrow> mst \<Rightarrow> string \<Rightarrow> cid act" where
  "deleteKeyA X mg t key = bindA (treeA X mg (\<lambda>E. mst_Delete mst_fuel E t key)) (pointerA X mg)"

text \<open>The target in a leaf: the current version (\<open>Some None\<close>), a noncurrent one by its seq, or none.\<close>

definition deleteTarget :: "ObjectLeaf \<Rightarrow> versionIDKind \<Rightarrow> seqno \<Rightarrow> string \<Rightarrow> seqno option option" where
  "deleteTarget leaf kind seq versionID =
     (if kind = versionKindNull then
        (if vn_VersionID (lf_Current leaf) = NullVersionID then Some None
         else if lf_NullSeq leaf \<noteq> 0 then Some (Some (lf_NullSeq leaf))
         else None)
      else if vn_Seq (lf_Current leaf) = seq \<and> vn_VersionID (lf_Current leaf) = versionID then Some None
      else Some (Some seq))"

definition loadTarget ::
  "version_env \<Rightarrow> Manager \<Rightarrow> ObjectLeaf \<Rightarrow> versionIDKind \<Rightarrow> string \<Rightarrow> seqno option \<Rightarrow> (cid \<times> ObjectManifest) option act" where
  "loadTarget X mg leaf kind versionID target =
     viewA X mg (\<lambda>B.
       case target of
         None \<Rightarrow> bindE (blockE (getManifest (vx_values X) B (vn_Manifest (lf_Current leaf)))) (\<lambda>mf. Inr (Some (vn_Manifest (lf_Current leaf), mf)))
       | Some seq \<Rightarrow>
           (case lf_Prev leaf of
              None \<Rightarrow> Inr None
            | Some p \<Rightarrow>
                (case mst_Get mst_fuel (view_env (vx_deps X) B) (LoadMST p) (revSeqKey seq) of
                   Inl ErrNotFound \<Rightarrow> Inr None
                 | Inl e \<Rightarrow> Inl (FnTree e)
                 | Inr c \<Rightarrow>
                     bindE (blockE (getManifest (vx_values X) B c)) (\<lambda>mf.
                       if kind = versionKindToken \<and> mf_VersionID mf \<noteq> versionID then Inr None else Inr (Some (c, mf))))))"

definition promoteHead :: "version_env \<Rightarrow> Manager \<Rightarrow> mst \<Rightarrow> string \<Rightarrow> ObjectLeaf \<Rightarrow> cid act" where
  "promoteHead X mg t key leaf =
     bindA (case lf_Prev leaf of
              None \<Rightarrow> returnA None
            | Some p \<Rightarrow> treeA X mg (\<lambda>E. prevHead E (LoadMST p))) (\<lambda>head.
     case (head, lf_Prev leaf) of
       (Some c, Some p) \<Rightarrow>
         bindA (viewA X mg (\<lambda>B. blockE (getManifest (vx_values X) B c))) (\<lambda>headMf.
         bindA (treeA X mg (\<lambda>E. mst_Delete mst_fuel E (LoadMST p) (revSeqKey (mf_Seq headMf)))) (\<lambda>prevTree.
         bindA (pruneVersionState X mg (lf_State leaf) (vn_Seq (lf_Current leaf))) (\<lambda>state.
           spliceLeaf X mg t key
             \<lparr> lf_Current = \<lparr> vn_Seq = mf_Seq headMf, vn_VersionID = mf_VersionID headMf, vn_Manifest = c \<rparr>, lf_Prev = None,
               lf_NullSeq = (if mf_Seq headMf = lf_NullSeq leaf then 0 else lf_NullSeq leaf), lf_State = state \<rparr> (Some prevTree))))
     | _ \<Rightarrow>
         bindA (pruneVersionState X mg (lf_State leaf) (vn_Seq (lf_Current leaf))) (\<lambda>_. deleteKeyA X mg t key))"

definition removeNoncurrent :: "version_env \<Rightarrow> Manager \<Rightarrow> mst \<Rightarrow> string \<Rightarrow> ObjectLeaf \<Rightarrow> seqno \<Rightarrow> cid act" where
  "removeNoncurrent X mg t key leaf seq =
     (case lf_Prev leaf of
        None \<Rightarrow> liftA (Inl (FnPanic ''nil prev tree''))
      | Some p \<Rightarrow>
          bindA (treeA X mg (\<lambda>E. mst_Delete mst_fuel E (LoadMST p) (revSeqKey seq))) (\<lambda>prevTree.
          bindA (pruneVersionState X mg (lf_State leaf) seq) (\<lambda>state.
            spliceLeaf X mg t key
              \<lparr> lf_Current = lf_Current leaf, lf_Prev = None,
                lf_NullSeq = (if seq = lf_NullSeq leaf then 0 else lf_NullSeq leaf), lf_State = state \<rparr> (Some prevTree))))"

definition deleteFromLeaf ::
  "version_env \<Rightarrow> Manager \<Rightarrow> State \<Rightarrow> mst \<Rightarrow> string \<Rightarrow> versionIDKind \<Rightarrow> seqno \<Rightarrow> string \<Rightarrow> deletePreconditions option
   \<Rightarrow> cid \<Rightarrow> ObjectLeaf \<Rightarrow> (cid \<times> scopedDeleteResult) act" where
  "deleteFromLeaf X mg st t key kind seq versionID preconds valCid leaf =
     (let absent = \<lparr> sd_found = False, sd_wasMarker = False, sd_versioning = st_Versioning st \<rparr>
      in case deleteTarget leaf kind seq versionID of
           None \<Rightarrow> returnA (cid_Undef, absent)
         | Some target \<Rightarrow>
             bindA (loadTarget X mg leaf kind versionID target) (\<lambda>r.
             case r of
               None \<Rightarrow> returnA (cid_Undef, absent)
             | Some (targetCid, mf) \<Rightarrow>
                 bindA (preconditionA preconds mf) (\<lambda>_.
                 bindA (dropVersionA X mg st key (targetVersionID kind mf) mf targetCid) (\<lambda>_.
                 bindA (gcA targetCid) (\<lambda>_.
                 bindA (gcA valCid) (\<lambda>_.
                 bindA (case target of
                          None \<Rightarrow> promoteHead X mg t key leaf
                        | Some seq \<Rightarrow> removeNoncurrent X mg t key leaf seq) (\<lambda>root.
                   returnA (root, absent\<lparr> sd_found := True, sd_wasMarker := mf_DeleteMarker mf \<rparr>))))))))"

definition deleteFromManifest ::
  "version_env \<Rightarrow> Manager \<Rightarrow> State \<Rightarrow> mst \<Rightarrow> string \<Rightarrow> versionIDKind \<Rightarrow> string \<Rightarrow> deletePreconditions option
   \<Rightarrow> cid \<Rightarrow> ObjectManifest \<Rightarrow> (cid \<times> scopedDeleteResult) act" where
  "deleteFromManifest X mg st t key kind versionID preconds valCid mf =
     (let absent = \<lparr> sd_found = False, sd_wasMarker = False, sd_versioning = st_Versioning st \<rparr>
      in if \<not> manifestMatches kind versionID mf then returnA (cid_Undef, absent)
         else
           bindA (preconditionA preconds mf) (\<lambda>_.
           bindA (dropVersionA X mg st key (targetVersionID kind mf) mf valCid) (\<lambda>_.
           bindA (gcA valCid) (\<lambda>_.
           bindA (deleteKeyA X mg t key) (\<lambda>root.
             returnA (root, absent\<lparr> sd_found := True, sd_wasMarker := mf_DeleteMarker mf \<rparr>))))))"

text \<open>The key's value, or none: an absent key makes a delete a no-op.\<close>

definition lookupValue :: "version_env \<Rightarrow> Manager \<Rightarrow> mst \<Rightarrow> string \<Rightarrow> (cid \<times> ValueUnion) option act" where
  "lookupValue X mg t key =
     viewA X mg (\<lambda>B.
       case mst_Get mst_fuel (view_env (vx_deps X) B) t key of
         Inl ErrNotFound \<Rightarrow> Inr None
       | Inl e \<Rightarrow> Inl (FnTree e)
       | Inr c \<Rightarrow> bindE (blockE (getValue (vx_values X) B c)) (\<lambda>val. Inr (Some (c, val))))"

definition deleteVersionFn ::
  "version_env \<Rightarrow> Manager \<Rightarrow> string \<Rightarrow> versionIDKind \<Rightarrow> seqno \<Rightarrow> string \<Rightarrow> deletePreconditions option
   \<Rightarrow> State \<Rightarrow> mst \<Rightarrow> (cid \<times> scopedDeleteResult) act" where
  "deleteVersionFn X mg key kind seq versionID preconds st t =
     (let absent = \<lparr> sd_found = False, sd_wasMarker = False, sd_versioning = st_Versioning st \<rparr>
      in if \<not> cid_Defined (st_Root st) then returnA (cid_Undef, absent)
         else
           bindA (lookupValue X mg t key) (\<lambda>r.
           case r of
             None \<Rightarrow> returnA (cid_Undef, absent)
           | Some (valCid, val) \<Rightarrow>
               (case (vu_Manifest val, vu_Leaf val) of
                  (Some mf, _) \<Rightarrow> deleteFromManifest X mg st t key kind versionID preconds valCid mf
                | (None, None) \<Rightarrow> liftA (Inl (FnPanic ''nil leaf''))
                | (None, Some leaf) \<Rightarrow> deleteFromLeaf X mg st t key kind seq versionID preconds valCid leaf)))"

definition deleteVersionScoped ::
  "version_env \<Rightarrow> commit_io \<Rightarrow> string \<Rightarrow> string \<Rightarrow> string \<Rightarrow> deletePreconditions option \<Rightarrow> Coordinator
   \<Rightarrow> (Coordinator \<times> (s3_error + scopedDeleteResult)) option" where
  "deleteVersionScoped X io bucket key versionID preconds co =
     (let (kind, seq) = classifyVersionID X versionID
      in if kind = versionKindInvalid \<or> kind = versionKindCurrent then Some (co, Inl (S3Api (InvalidVersionId versionID)))
         else runTx X io ''delete version'' bucket (\<lambda>mg. deleteVersionFn X mg key kind seq versionID preconds) co)"

section \<open>Deletes without a version id\<close>

definition deleteObjectKeyFn ::
  "version_env \<Rightarrow> Manager \<Rightarrow> string \<Rightarrow> deletePreconditions option \<Rightarrow> State \<Rightarrow> mst \<Rightarrow> (cid \<times> unit) act" where
  "deleteObjectKeyFn X mg key preconds st t =
     (if \<not> cid_Defined (st_Root st) then returnA (cid_Undef, ())
      else
        bindA (lookupValue X mg t key) (\<lambda>r.
        case r of
          None \<Rightarrow> returnA (cid_Undef, ())
        | Some (valCid, val) \<Rightarrow>
            bindA (case (vu_Leaf val, vu_Manifest val) of
                     (Some leaf, _) \<Rightarrow>
                       bindA (viewA X mg (\<lambda>B. blockE (getManifest (vx_values X) B (vn_Manifest (lf_Current leaf))))) (\<lambda>mf.
                         returnA (mf, vn_Manifest (lf_Current leaf)))
                   | (None, Some mf) \<Rightarrow> returnA (mf, valCid)
                   | (None, None) \<Rightarrow> liftA (Inl (FnPanic ''nil manifest''))) (\<lambda>(oldMf, oldManifest).
            bindA (case preconds of None \<Rightarrow> returnA () | Some f \<Rightarrow> evaluateA f oldMf) (\<lambda>_.
            bindA (treeA X mg (\<lambda>E. mst_Delete mst_fuel E t key)) (\<lambda>t2.
            bindA (case vu_Leaf val of Some leaf \<Rightarrow> gcA (vn_Manifest (lf_Current leaf)) | None \<Rightarrow> returnA ()) (\<lambda>_.
            bindA (gcA valCid) (\<lambda>_.
            bindA (dropVersionA X mg st key (manifestVersionID oldMf) oldMf oldManifest) (\<lambda>_.
            bindA (pointerA X mg t2) (\<lambda>root. returnA (root, ()))))))))))"

definition deleteObjectKey ::
  "version_env \<Rightarrow> commit_io \<Rightarrow> string \<Rightarrow> string \<Rightarrow> deletePreconditions option \<Rightarrow> Coordinator \<Rightarrow> (Coordinator \<times> (s3_error + unit)) option" where
  "deleteObjectKey X io bucket key preconds = runTx X io ''delete'' bucket (\<lambda>mg. deleteObjectKeyFn X mg key preconds)"

definition emptyBody :: Body where
  "emptyBody = \<lparr> body_Size = 0, body_MD5 = [], body_Blobs = \<lparr> bl_Head = [], bl_Extents = [] \<rparr>, body_BLAKE3 = [],
     body_TreeChunkLog = 0, body_TreeBlocks = [], body_PartSizes = [], body_PartChecksums = [], body_IndexRoot = None \<rparr>"

definition markerManifest :: "string \<Rightarrow> int \<Rightarrow> ObjectManifest" where
  "markerManifest key created = \<lparr> mf_Key = key, mf_ContentType = '''', mf_Created = created, mf_Body = emptyBody, mf_ETag = '''',
     mf_DeleteMarker = True, mf_Seq = 0, mf_VersionID = '''', mf_ChecksumAlgorithm = '''', mf_Checksum = '''', mf_ChecksumType = '''',
     mf_ContentEncoding = '''', mf_ContentDisposition = '''', mf_ContentLanguage = '''', mf_CacheControl = '''', mf_Expires = '''',
     mf_WebsiteRedirectLocation = '''', mf_Metadata = Map.empty, mf_Plaintext = False \<rparr>"

definition insertDeleteMarker ::
  "version_env \<Rightarrow> commit_io \<Rightarrow> bytes \<Rightarrow> int \<Rightarrow> string \<Rightarrow> string \<Rightarrow> deletePreconditions option \<Rightarrow> Coordinator
   \<Rightarrow> (Coordinator \<times> (s3_error + VersionNode \<times> VersioningState)) option" where
  "insertDeleteMarker X io tm created bucket key preconds =
     commitVersion X io tm bucket \<lparr> wr_key = key, wr_mf = markerManifest key created, wr_blobs = None, wr_initState = None,
       wr_pinned = False, wr_reserved = None, wr_preCheck = (\<lambda>superseded.
         case (preconds, superseded) of
           (Some f, Some mf) \<Rightarrow> if mf_DeleteMarker mf then None else f (etagOf mf) (mf_Created mf) (body_Size (mf_Body mf))
         | _ \<Rightarrow> None) \<rparr>"

text \<open>\<open>DeleteObject\<close>: the output is whether the response reports a delete marker, and the version id it carries.\<close>

definition DeleteObject ::
  "version_env \<Rightarrow> commit_io \<Rightarrow> bytes \<Rightarrow> int \<Rightarrow> string option \<Rightarrow> string option \<Rightarrow> string option \<Rightarrow> deletePreconditions \<Rightarrow> Coordinator
   \<Rightarrow> (Coordinator \<times> (s3_error + bool \<times> string option)) option" where
  "DeleteObject X io tm created bucketIn keyIn versionIn preconds co =
     (case (bucketIn, keyIn) of
        (None, _) \<Rightarrow> Some (co, Inl (S3Api ErrInvalidBucketName))
      | (Some _, None) \<Rightarrow> Some (co, Inl (S3Api ErrNoSuchKey))
      | (Some bucket, Some key) \<Rightarrow>
          (case mem_Get bucket (snd (co_log co)) of
             Inl RegErrNotFound \<Rightarrow> Some (co, Inl (S3Api ErrNoSuchBucket))
           | Inl e \<Rightarrow> Some (co, Inl (S3Read (FnReg e)))
           | Inr st \<Rightarrow>
               let versionID = (case versionIn of None \<Rightarrow> '''' | Some v \<Rightarrow> v)
               in if versionID \<noteq> '''' then
                    map_option (map_prod id (map_sum id (\<lambda>res.
                        if Configured (sd_versioning res) then (sd_wasMarker res, Some versionID) else (False, None))))
                      (deleteVersionScoped X io bucket key versionID (Some preconds) co)
                  else if \<not> Configured (st_Versioning st) then
                    map_option (map_prod id (map_sum id (\<lambda>_. (False, None)))) (deleteObjectKey X io bucket key (Some preconds) co)
                  else
                    map_option (map_prod id (map_sum id (\<lambda>(node, _). (True, Some (vn_VersionID node)))))
                      (insertDeleteMarker X io tm created bucket key (Some preconds) co)))"

end
