(* ===== verification/S3_VersionId.thy ===== *)
theory S3_VersionId
  imports S3_Version
begin

text \<open>
  The keys of the version trees: \<open>revSeqKey\<close> is injective and turns the order of the ordinals around, so
  the trees of a leaf hold the noncurrent versions newest first; the head of such a tree and the test for
  emptiness are what they say.
\<close>

section \<open>Fixed-width hexadecimal\<close>

lemma hexDigit_less: "a < b \<Longrightarrow> b < 16 \<Longrightarrow> hexDigit a < hexDigit b"
proof -
  have "\<forall>b < 16. \<forall>a < b. hexDigit a < hexDigit b" by code_simp
  then show "a < b \<Longrightarrow> b < 16 \<Longrightarrow> hexDigit a < hexDigit b" by blast
qed

lemma hexDigit_ascii: "n < 16 \<Longrightarrow> of_char (hexDigit n) < (128 :: nat) \<and> hexDigit n \<noteq> CHR 0x00"
proof -
  have "\<forall>n < 16. of_char (hexDigit n) < (128 :: nat) \<and> hexDigit n \<noteq> CHR 0x00" by code_simp
  then show "n < 16 \<Longrightarrow> of_char (hexDigit n) < (128 :: nat) \<and> hexDigit n \<noteq> CHR 0x00" by blast
qed

lemma length_hexFixed [simp]: "length (hexFixed n x) = n"
  by (induction n) simp_all

lemma hexFixed_ascii: "c \<in> set (hexFixed n x) \<Longrightarrow> of_char c < (128 :: nat) \<and> c \<noteq> CHR 0x00"
  by (induction n) (use hexDigit_ascii in auto)

lemma hexFixed_mod: "n \<le> k \<Longrightarrow> hexFixed n (x mod 16 ^ k) = hexFixed n x"
proof (induction n)
  case (Suc n)
  have "x mod 16 ^ k div 16 ^ n mod 16 = x div 16 ^ n mod 16"
  proof -
    have "(16 :: nat) ^ k = 16 ^ n * 16 ^ (k - n)" using Suc.prems by (simp flip: power_add)
    then have "x mod 16 ^ k div 16 ^ n = x div 16 ^ n mod 16 ^ (k - n)" by (simp add: mod_mult2_eq)
    moreover have "(16 :: nat) dvd 16 ^ (k - n)" using Suc.prems by (simp add: dvd_power)
    ultimately show ?thesis by (simp add: mod_mod_cancel)
  qed
  then show ?case using Suc by simp
qed simp

lemma hexFixed_less: "x < y \<Longrightarrow> y < 16 ^ n \<Longrightarrow> hexFixed n x < hexFixed n y"
proof (induction n arbitrary: x y)
  case (Suc n)
  let ?p = "16 ^ n :: nat"
  have d: "x div ?p < 16" "y div ?p < 16" using Suc.prems by (simp_all add: less_mult_imp_div_less)
  show ?case
  proof (cases "x div ?p = y div ?p")
    case True
    have "x mod ?p < y mod ?p" using True Suc.prems(1) by (metis div_mod_decomp nat_add_left_cancel_less)
    then have "hexFixed n (x mod ?p) < hexFixed n (y mod ?p)" by (intro Suc.IH) simp_all
    then show ?thesis using True by (simp add: hexFixed_mod)
  next
    case False
    then have "x div ?p < y div ?p" using Suc.prems(1) by (simp add: div_le_mono le_neq_implies_less less_imp_le)
    then show ?thesis using hexDigit_less d by simp
  qed
qed simp

section \<open>The keys of the version trees\<close>

lemma revSeqKey_less: "a < b \<Longrightarrow> revSeqKey b < revSeqKey a"
proof -
  assume "a < b"
  moreover have "take_bit 64 (uint x) = uint x" for x :: seqno using uint_lt2p [of x] by (simp add: take_bit_int_eq_self)
  ultimately have "NOT b < NOT a" by (simp add: word_less_alt unsigned_not_eq take_bit_not_eq_mask_diff)
  then have "unat (NOT b) < unat (NOT a)" by (simp add: word_less_nat_alt)
  moreover have "unat (NOT a) < 16 ^ 16" using unsigned_less [of "NOT a"] by simp
  ultimately show ?thesis by (simp add: revSeqKey_def hexFixed_less)
qed

lemma revSeqKey_inj [simp]: "revSeqKey a = revSeqKey b \<longleftrightarrow> a = b"
  using revSeqKey_less [of a b] revSeqKey_less [of b a] by (metis less_irrefl linorder_less_linear)

lemma revSeqKey_valid [simp]: "IsValidKey (revSeqKey a)"
proof -
  have "utf8_ValidBytes bs" if "\<forall>b \<in> set bs. b < 128" for bs
    using that by (induction bs) auto
  then have "utf8_ValidString (revSeqKey a)"
    using hexFixed_ascii by (auto simp: utf8_ValidString_def revSeqKey_def)
  moreover have "CHR 0x00 \<notin> set (revSeqKey a)" using hexFixed_ascii by (auto simp: revSeqKey_def)
  ultimately show ?thesis by (auto simp: IsValidKey_def MaxKeyBytes_def revSeqKey_def simp flip: length_0_conv)
qed

section \<open>Walks over a tree that stands for a map\<close>

lemma WalkLeavesFrom_first:
  assumes "node_ok l E t kvs" and "sorted_kvs kvs" and "l < n"
  shows "WalkLeavesFrom n E t [] (\<lambda>_ k v. (f v, Some ErrStopWalk)) s = (case kvs of [] \<Rightarrow> s | (k, v) # _ \<Rightarrow> f v, None)"
proof -
  have "from_key [] kvs = kvs" by (auto intro: filter_True)
  then show ?thesis
    using walkLeavesFrom_node [OF assms, of "[]" "\<lambda>_ k v. (f v, Some ErrStopWalk)" s] by (cases kvs) (auto simp: WalkLeavesFrom_def visit_def)
qed

lemma mstEmpty_repr: "mst_repr E t M \<Longrightarrow> mstEmpty E t = Inr (M = Map.empty)"
  by (erule mst_reprE) (auto simp: mstEmpty_def WalkLeavesFrom_first split: list.split)

lemma sorted_kvs_unique:
  assumes "sorted_kvs kvs" and "sorted_kvs kvs'" and "map_of kvs = map_of kvs'"
  shows "kvs = kvs'"
proof -
  have d: "distinct (map fst kvs)" "distinct (map fst kvs')" using assms(1,2) by (simp_all add: sorted_kvs_def strict_sorted_iff)
  then have "set (map fst kvs) = set (map fst kvs')" using assms(3) by (metis dom_map_of_conv_image_fst list.set_map)
  then have keys: "map fst kvs = map fst kvs'"
    using assms(1,2) by (intro sorted_distinct_set_unique) (simp_all add: sorted_kvs_def strict_sorted_iff)
  have "map (\<lambda>k. (k, the (map_of xs k))) (map fst xs) = xs" if "distinct (map fst xs)" for xs :: kvs
    using that by (auto intro!: map_idI)
  then show ?thesis using d keys assms(3) by metis
qed

lemma prevHead_repr:
  assumes "mst_repr E t (map_of kvs)" and "sorted_kvs kvs"
  shows "prevHead E t = Inr (case kvs of [] \<Rightarrow> None | (_, v) # _ \<Rightarrow> Some v)"
proof -
  obtain l kvs' where k: "l < mst_fuel" "node_ok l E t kvs'" "sorted_kvs kvs'" "map_of kvs = map_of kvs'"
    using assms(1) by (rule mst_reprE)
  have "kvs = kvs'" by (rule sorted_kvs_unique [OF assms(2) k(3,4)])
  then show ?thesis by (simp add: prevHead_def WalkLeavesFrom_first [OF k(2,3,1)] split: list.split)
qed

end
