(* ===== verification/S3_VersionSpec.thy ===== *)
theory S3_VersionSpec
  imports S3_VersionId
begin

text \<open>
  The specification of versioned keys: a key has a history, its versions newest first, and a bucket maps its
  keys to histories. \<open>key_repr\<close> says which value block stands for a history, in either of its two forms. Under
  it, the resolution of a version is a lookup by id in the history.
\<close>

section \<open>Histories\<close>

record version =
  v_seq :: seqno
  v_id :: string
  v_cid :: cid
  v_mf :: ObjectManifest
  v_digests :: "multihash list"
  v_state :: "VersionState option"

type_synonym history = "version list"

abbreviation is_null :: "version \<Rightarrow> bool" where
  "is_null v \<equiv> v_id v = NullVersionID"

definition nodeOf :: "version \<Rightarrow> VersionNode" where
  "nodeOf v = \<lparr> vn_Seq = v_seq v, vn_VersionID = v_id v, vn_Manifest = v_cid v \<rparr>"

text \<open>A version is null or has a token that carries its ordinal; its manifest says the same of it.\<close>

definition version_ok :: "version_env \<Rightarrow> version \<Rightarrow> bool" where
  "version_ok X v \<longleftrightarrow> (is_null v \<or> classifyVersionID X (v_id v) = (versionKindToken, v_seq v))
     \<and> mf_Seq (v_mf v) = v_seq v \<and> mf_VersionID (v_mf v) = v_id v \<and> 0 < v_seq v \<and> cid_Defined (v_cid v)"

definition hist_ok :: "version_env \<Rightarrow> history \<Rightarrow> bool" where
  "hist_ok X h \<longleftrightarrow> sorted_wrt (\<lambda>a b. v_seq b < v_seq a) h \<and> (\<forall>v \<in> set h. version_ok X v)
     \<and> (\<forall>a \<in> set h. \<forall>b \<in> set h. is_null a \<longrightarrow> is_null b \<longrightarrow> a = b)"

definition lookup_version :: "history \<Rightarrow> string \<Rightarrow> version option" where
  "lookup_version h versionID = (if versionID = '''' then (case h of [] \<Rightarrow> None | v # _ \<Rightarrow> Some v) else find (\<lambda>v. v_id v = versionID) h)"

text \<open>A version joins at the head; one that is null takes the place of the null version before it. A version
  leaves by its ordinal.\<close>

definition put_version :: "version \<Rightarrow> history \<Rightarrow> history" where
  "put_version v h = v # (if is_null v then filter (\<lambda>w. \<not> is_null w) h else h)"

definition drop_version :: "seqno \<Rightarrow> history \<Rightarrow> history" where
  "drop_version seq h = filter (\<lambda>w. v_seq w \<noteq> seq) h"

lemma hist_ok_Cons: "hist_ok X (v # h) \<longleftrightarrow> hist_ok X h \<and> version_ok X v \<and> (\<forall>w \<in> set h. v_seq w < v_seq v) \<and> (is_null v \<longrightarrow> (\<forall>w \<in> set h. \<not> is_null w))"
  unfolding hist_ok_def by auto

lemma hist_ok_Nil [simp]: "hist_ok X []"
  by (simp add: hist_ok_def)

lemma hist_ok_filter: "hist_ok X h \<Longrightarrow> hist_ok X (filter P h)"
  by (auto simp: hist_ok_def sorted_wrt_filter)

lemma hist_seq_inj: "hist_ok X h \<Longrightarrow> a \<in> set h \<Longrightarrow> b \<in> set h \<Longrightarrow> v_seq a = v_seq b \<Longrightarrow> a = b"
  by (induction h) (auto simp: hist_ok_Cons)

lemma hist_id_inj:
  assumes "hist_ok X h" and "a \<in> set h" and "b \<in> set h" and "v_id a = v_id b"
  shows "a = b"
proof (cases "is_null a")
  case True
  then show ?thesis using assms unfolding hist_ok_def by metis
next
  case False
  then have "v_seq a = v_seq b" using assms unfolding hist_ok_def version_ok_def by (metis prod.inject)
  then show ?thesis using hist_seq_inj [OF assms(1-3)] by blast
qed

lemma find_id_mem:
  assumes "hist_ok X h"
  shows "find (\<lambda>v. v_id v = i) h = Some v \<longleftrightarrow> v \<in> set h \<and> v_id v = i"
proof
  show "v \<in> set h \<and> v_id v = i" if "find (\<lambda>v. v_id v = i) h = Some v" using that by (auto simp: find_Some_iff)
  assume v: "v \<in> set h \<and> v_id v = i"
  then obtain w where w: "find (\<lambda>v. v_id v = i) h = Some w" by (cases "find (\<lambda>v. v_id v = i) h") (auto simp: find_None_iff)
  then have "w \<in> set h \<and> v_id w = i" by (auto simp: find_Some_iff)
  then have "w = v" using v hist_id_inj [OF assms, of w v] by simp
  then show "find (\<lambda>v. v_id v = i) h = Some v" using w by simp
qed

section \<open>The trees of a leaf\<close>

definition at_key :: "history \<Rightarrow> string \<Rightarrow> version option" where
  "at_key h k = find (\<lambda>v. revSeqKey (v_seq v) = k) h"

definition prev_map :: "history \<Rightarrow> kv_map" where
  "prev_map h k = map_option v_cid (at_key h k)"

definition state_map :: "history \<Rightarrow> string \<Rightarrow> VersionState option" where
  "state_map h k = Option.bind (at_key h k) v_state"

definition null_seq :: "history \<Rightarrow> seqno" where
  "null_seq h = (case find is_null h of None \<Rightarrow> 0 | Some v \<Rightarrow> v_seq v)"

lemma at_key_Nil [simp]: "at_key [] k = None"
  by (simp add: at_key_def)

lemma at_key_Cons [simp]: "at_key (v # h) k = (if k = revSeqKey (v_seq v) then Some v else at_key h k)"
  by (auto simp: at_key_def)

lemma at_key_None: "at_key h (revSeqKey s) = None \<longleftrightarrow> (\<forall>v \<in> set h. v_seq v \<noteq> s)"
  by (induction h) auto

lemma at_key_mem: "hist_ok X h \<Longrightarrow> at_key h (revSeqKey s) = Some v \<longleftrightarrow> v \<in> set h \<and> v_seq v = s"
  by (induction h) (auto simp: hist_ok_Cons)

lemma at_key_filter:
  "hist_ok X h \<Longrightarrow> at_key (filter P h) k = (case at_key h k of Some v \<Rightarrow> if P v then Some v else None | None \<Rightarrow> None)"
proof (induction h)
  case (Cons v h)
  then have "at_key (filter P h) (revSeqKey (v_seq v)) = None" unfolding at_key_None by (auto simp: hist_ok_Cons)
  then show ?case using Cons by (auto simp: hist_ok_Cons)
qed simp

lemma at_key_drop: "at_key (drop_version s h) = (at_key h)(revSeqKey s := None)"
  by (induction h) (auto simp: drop_version_def fun_eq_iff)

lemma null_seq_iff:
  assumes "hist_ok X h"
  shows "null_seq h = 0 \<longleftrightarrow> (\<forall>v \<in> set h. \<not> is_null v)" and "v \<in> set h \<Longrightarrow> is_null v \<longleftrightarrow> v_seq v = null_seq h"
proof -
  have pos: "0 < v_seq w" if "w \<in> set h" for w using assms that by (simp add: hist_ok_def version_ok_def)
  have f: "find is_null h = Some w \<longleftrightarrow> w \<in> set h \<and> is_null w" for w by (rule find_id_mem [OF assms])
  consider "find is_null h = None" "\<forall>w \<in> set h. \<not> is_null w" "null_seq h = 0"
    | w where "w \<in> set h" "is_null w" "null_seq h = v_seq w"
    using f by (cases "find is_null h") (auto simp: null_seq_def find_None_iff)
  note c = this
  show "null_seq h = 0 \<longleftrightarrow> (\<forall>v \<in> set h. \<not> is_null v)" using c pos by cases fastforce+
  show "is_null v \<longleftrightarrow> v_seq v = null_seq h" if "v \<in> set h"
    using c
  proof cases
    case 1
    then show ?thesis using pos [OF that] that by auto
  next
    case (2 w)
    then show ?thesis using that hist_seq_inj [OF assms that 2(1)] hist_id_inj [OF assms that 2(1)] by auto
  qed
qed

lemma prev_map_Nil [simp]: "prev_map [] = Map.empty"
  by (simp add: prev_map_def fun_eq_iff)

lemma prev_map_Cons [simp]: "prev_map (v # h) = (prev_map h)(revSeqKey (v_seq v) \<mapsto> v_cid v)"
  by (simp add: prev_map_def fun_eq_iff)

lemma prev_map_empty [simp]: "prev_map h = Map.empty \<longleftrightarrow> h = []"
  by (cases h) simp_all

lemma state_map_Cons: "state_map (v # h) = (\<lambda>k. if k = revSeqKey (v_seq v) then v_state v else state_map h k)"
  by (simp add: state_map_def fun_eq_iff)

text \<open>The pairs of the tree of noncurrent versions, in the order the tree has them.\<close>

lemma prev_map_pairs: "prev_map h = map_of (map (\<lambda>v. (revSeqKey (v_seq v), v_cid v)) h)"
  by (induction h) simp_all

lemma prev_map_sorted: "hist_ok X h \<Longrightarrow> sorted_kvs (map (\<lambda>v. (revSeqKey (v_seq v), v_cid v)) h)"
  by (simp add: hist_ok_def sorted_kvs_def comp_def sorted_wrt_map) (auto elim!: sorted_wrt_mono_rel [rotated] intro: revSeqKey_less)

lemma prevHead_prev:
  assumes "mst_repr E t (prev_map h)" and "hist_ok X h"
  shows "prevHead E t = Inr (case h of [] \<Rightarrow> None | v # _ \<Rightarrow> Some (v_cid v))"
  using prevHead_repr [OF assms(1) [unfolded prev_map_pairs] prev_map_sorted [OF assms(2)]] by (simp split: list.split)

section \<open>The value of a key\<close>

text \<open>A root of a tree, nil for the empty map.\<close>

definition root_repr :: "mst_env \<Rightarrow> cid option \<Rightarrow> kv_map \<Rightarrow> bool" where
  "root_repr E r M \<longleftrightarrow> (case r of None \<Rightarrow> M = Map.empty | Some c \<Rightarrow> M \<noteq> Map.empty \<and> mst_repr E (LoadMST c) M)"

text \<open>A version's manifest can be read, and the digests of its body.\<close>

definition stored_at :: "version_env \<Rightarrow> block_view \<Rightarrow> version \<Rightarrow> bool" where
  "stored_at X B v \<longleftrightarrow> getManifest (vx_values X) B (v_cid v) = Inr (v_mf v)
     \<and> bodyDigests (vx_values X) B (mf_Body (v_mf v)) = Inr (v_digests v)"

definition leaf_repr :: "version_env \<Rightarrow> block_view \<Rightarrow> ObjectLeaf \<Rightarrow> history \<Rightarrow> bool" where
  "leaf_repr X B l h \<longleftrightarrow>
     (\<exists>v vs S. h = v # vs \<and> lf_Current l = nodeOf v \<and> lf_NullSeq l = null_seq vs
       \<and> (\<forall>w \<in> set h. stored_at X B w)
       \<and> root_repr (view_env (vx_deps X) B) (lf_Prev l) (prev_map vs)
       \<and> root_repr (view_env (vx_deps X) B) (lf_State l) S
       \<and> (\<forall>k. rel_option (\<lambda>c s. getState (vx_values X) B c = Inr s) (S k) (state_map h k)))"

text \<open>A key with one version and no state may be its manifest; otherwise it is a leaf.\<close>

definition key_repr :: "version_env \<Rightarrow> block_view \<Rightarrow> cid \<Rightarrow> history \<Rightarrow> bool" where
  "key_repr X B c h \<longleftrightarrow>
     (\<exists>v. h = [v] \<and> c = v_cid v \<and> v_state v = None \<and> getValue (vx_values X) B c = Inr (ManifestValue (v_mf v)) \<and> stored_at X B v)
     \<or> (\<exists>l. getValue (vx_values X) B c = Inr (LeafValue l) \<and> leaf_repr X B l h)"

text \<open>The keys of a bucket and their histories, as the tree at a root has them.\<close>

definition keys_repr :: "version_env \<Rightarrow> block_view \<Rightarrow> kv_map \<Rightarrow> (string \<rightharpoonup> history) \<Rightarrow> bool" where
  "keys_repr X B M H \<longleftrightarrow> (\<forall>k. rel_option (\<lambda>c h. key_repr X B c h \<and> hist_ok X h) (M k) (H k)) \<and> (\<forall>k \<in> dom M. IsValidKey k)"

definition versions_at :: "version_env \<Rightarrow> (cid \<Rightarrow> bytes) \<Rightarrow> manager_state \<Rightarrow> string \<Rightarrow> State \<Rightarrow> (string \<rightharpoonup> history) \<Rightarrow> bool" where
  "versions_at X content lg bucket st H \<longleftrightarrow>
     (let B = reads_view (vx_deps X) (fst lg) (st_Space st)
      in gm_get (buckets (snd lg)) bucket = Some st \<and> view_ok (vx_deps X) content B
       \<and> (\<exists>M. mst_repr (view_env (vx_deps X) B) (tree_at (st_Root st)) M \<and> keys_repr X B M H))"

section \<open>Looking a version up\<close>

lemma option_eqI: "(\<And>w. a = Some w \<longleftrightarrow> b = Some w) \<Longrightarrow> a = b"
  by (metis option.exhaust)

lemma getValue_manifest: "getValue V B c = Inr (ManifestValue mf) \<Longrightarrow> getManifest V B c = Inr mf"
  by (auto simp: getValue_def getManifest_def getBlockAs_def EnvelopedManifest_Unmarshal_def ManifestValue_def split: sum.splits)

lemma seekPrev_repr:
  assumes "leaf_repr X B l (v # vs)"
  shows "seekPrev X B l gone s = (case at_key vs (revSeqKey s) of
      None \<Rightarrow> Inl (FnApi gone) | Some w \<Rightarrow> Inr (\<lparr> vn_Seq = s, vn_VersionID = '''', vn_Manifest = v_cid w \<rparr>, False))"
proof (cases "lf_Prev l")
  case None
  then have "vs = []" using assms by (auto simp: leaf_repr_def root_repr_def)
  then show ?thesis using None by (simp add: seekPrev_def)
next
  case (Some p)
  then have "mst_repr (view_env (vx_deps X) B) (LoadMST p) (prev_map vs)" using assms by (auto simp: leaf_repr_def root_repr_def)
  then have "mst_Get mst_fuel (view_env (vx_deps X) B) (LoadMST p) (revSeqKey s) = lookup_result (prev_map vs (revSeqKey s))"
    by (simp add: tree.get_refines map_Get_def)
  then show ?thesis using Some by (simp add: seekPrev_def lookup_result_def prev_map_def split: option.split)
qed

lemma classify_cases:
  assumes "classifyVersionID X i = (kind, seq)" and "kind \<noteq> versionKindInvalid"
  obtains "kind = versionKindCurrent" "i = ''''" | "kind = versionKindNull" "i = NullVersionID" | "kind = versionKindToken" "i \<noteq> ''''" "i \<noteq> NullVersionID"
  using assms by (auto simp: classifyVersionID_def split: if_splits sum.splits)

text \<open>Where a version stands in a history: at the head, or in the tree of the rest under its ordinal.\<close>

lemma lookup_token:
  assumes "hist_ok X (v # vs)" and "classifyVersionID X i = (versionKindToken, seq)" and "i \<noteq> NullVersionID"
  shows "find (\<lambda>w. v_id w = i) (v # vs) =
    (if v_seq v = seq then if v_id v = i then Some v else None
     else case at_key vs (revSeqKey seq) of Some w \<Rightarrow> if v_id w = i then Some w else None | None \<Rightarrow> None)" (is "?f = ?r")
proof -
  have h: "hist_ok X vs" "\<forall>w \<in> set vs. v_seq w < v_seq v" using assms(1) by (simp_all add: hist_ok_Cons)
  have seq: "v_seq w = seq" if "w \<in> set (v # vs)" "v_id w = i" for w
    using that assms by (auto simp: hist_ok_def version_ok_def)
  have f: "find (\<lambda>w. v_id w = i) vs = Some w \<longleftrightarrow> at_key vs (revSeqKey seq) = Some w \<and> v_id w = i" for w
    unfolding find_id_mem [OF h(1)] at_key_mem [OF h(1)] using seq [of w] by auto
  have rest: "find (\<lambda>w. v_id w = i) vs = (case at_key vs (revSeqKey seq) of Some w \<Rightarrow> if v_id w = i then Some w else None | None \<Rightarrow> None)"
    by (rule option_eqI) (auto simp: f split: option.split)
  have "at_key vs (revSeqKey seq) = None" if "v_seq v = seq" unfolding at_key_None using h(2) that by auto
  then show ?thesis using rest seq [of v] by auto
qed

lemma lookup_null:
  assumes "hist_ok X (v # vs)"
  shows "find (\<lambda>w. v_id w = NullVersionID) (v # vs) =
    (if is_null v then Some v else if null_seq vs = 0 then None else at_key vs (revSeqKey (null_seq vs)))" (is "?f = ?r")
proof -
  have h: "hist_ok X vs" using assms by (simp add: hist_ok_Cons)
  have "find is_null vs = Some w \<longleftrightarrow> null_seq vs \<noteq> 0 \<and> at_key vs (revSeqKey (null_seq vs)) = Some w" for w
    unfolding find_id_mem [OF h] at_key_mem [OF h] using null_seq_iff(1) [OF h] null_seq_iff(2) [OF h, of w] by blast
  then have "find is_null vs = (if null_seq vs = 0 then None else at_key vs (revSeqKey (null_seq vs)))" by (metis option.exhaust)
  then show ?thesis by simp
qed

text \<open>The version a leaf answers for an id, with its manifest.\<close>

lemma leaf_resolve:
  assumes leaf: "leaf_repr X B l h" and hist: "hist_ok X h"
    and kind: "classifyVersionID X i = (kind, seq)" "kind \<noteq> versionKindInvalid"
    and r: "bindE (locateVersion X B l kind seq i gone) (\<lambda>(node, isLatest).
        bindE (blockE (getManifest (vx_values X) B (vn_Manifest node))) (\<lambda>mf.
          if isLatest then Inr (node, mf, True)
          else if kind = versionKindToken \<and> mf_VersionID mf \<noteq> i then Inl (FnApi gone)
          else Inr (node\<lparr> vn_VersionID := mf_VersionID mf \<rparr>, mf, False))) = r"
  shows "r = (case lookup_version h i of None \<Rightarrow> Inl (FnApi gone) | Some v \<Rightarrow> Inr (nodeOf v, v_mf v, v = hd h))"
proof -
  obtain v vs where h: "h = v # vs" "lf_Current l = nodeOf v" "lf_NullSeq l = null_seq vs"
      "\<And>w. w \<in> set h \<Longrightarrow> getManifest (vx_values X) B (v_cid w) = Inr (v_mf w)"
    using leaf unfolding leaf_repr_def stored_at_def by blast
  note seek = seekPrev_repr [OF leaf [unfolded h(1)]]
  have ok: "hist_ok X vs" "hist_ok X (v # vs)" using hist h(1) by (simp_all add: hist_ok_Cons)
  have cur: "getManifest (vx_values X) B (v_cid v) = Inr (v_mf v)" using h(4) [of v] h(1) by simp
  have prev: "getManifest (vx_values X) B (v_cid w) = Inr (v_mf w) \<and> mf_VersionID (v_mf w) = v_id w \<and> v_seq w = s \<and> w \<noteq> v"
    if "at_key vs (revSeqKey s) = Some w" for w s
    using that h(1) h(4) [of w] ok unfolding at_key_mem [OF ok(1)] by (auto simp: hist_ok_Cons hist_ok_def version_ok_def)
  show ?thesis
    using kind
  proof (cases rule: classify_cases)
    case 1
    then show ?thesis using r h(1,2) cur by (simp add: locateVersion_def lookup_version_def blockE_def nodeOf_def)
  next
    case 2
    show ?thesis
    proof (cases "is_null v \<or> null_seq vs = 0")
      case True
      then show ?thesis
        using r 2 h(1-3) cur lookup_null [OF ok(2)] by (auto simp: locateVersion_def lookup_version_def blockE_def nodeOf_def NullVersionID_def)
    next
      case False
      then show ?thesis
        using r 2 h(1-3) lookup_null [OF ok(2)] prev seek
        by (auto simp: locateVersion_def lookup_version_def blockE_def nodeOf_def NullVersionID_def split: option.splits)
    qed
  next
    case 3
    then have tok: "classifyVersionID X i = (versionKindToken, seq)" using kind by simp
    show ?thesis
    proof (cases "v_seq v = seq")
      case True
      then show ?thesis
        using r 3 h(1,2) cur lookup_token [OF ok(2) tok 3(3)] by (auto simp: locateVersion_def lookup_version_def blockE_def nodeOf_def)
    next
      case False
      then show ?thesis
        using r 3 h(1,2) lookup_token [OF ok(2) tok 3(3)] prev seek
        by (auto simp: locateVersion_def lookup_version_def blockE_def nodeOf_def split: option.splits)
    qed
  qed
qed

lemma version_ok_id:
  assumes "version_ok X v"
  shows "v_id v \<noteq> ''''" and "manifestVersionID (v_mf v) = v_id v" and "manifestNode (v_cid v) (v_mf v) = nodeOf v"
    and "targetVersionID kind (v_mf v) = (if kind = versionKindNull then NullVersionID else v_id v)"
proof -
  show ne: "v_id v \<noteq> ''''" using assms by (auto simp: version_ok_def NullVersionID_def classifyVersionID_def)
  then show mv: "manifestVersionID (v_mf v) = v_id v" using assms by (simp add: manifestVersionID_def version_ok_def)
  show "targetVersionID kind (v_mf v) = (if kind = versionKindNull then NullVersionID else v_id v)"
    using assms ne by (simp add: targetVersionID_def version_ok_def)
  show "manifestNode (v_cid v) (v_mf v) = nodeOf v" using assms mv by (simp add: manifestNode_def nodeOf_def version_ok_def)
qed

lemma manifestMatches_lookup:
  assumes "version_ok X v" and "classifyVersionID X i = (kind, seq)" and "kind \<noteq> versionKindInvalid"
  shows "manifestMatches kind i (v_mf v) \<longleftrightarrow> lookup_version [v] i = Some v"
  using assms(2,3)
  by (cases rule: classify_cases)
    (use assms(1) version_ok_id [OF assms(1)] in \<open>auto simp: manifestMatches_def lookup_version_def version_ok_def NullVersionID_def\<close>)

lemma empty_root_repr: "mst_repr E NewEmptyMST M \<Longrightarrow> M = Map.empty"
proof
  fix k
  assume m: "mst_repr E NewEmptyMST M"
  then have "mst_repr E NewEmptyMST Map.empty" by (intro mst_repr_empty) (simp add: mst_repr_def)
  then have "map_Get M k = map_Get Map.empty k" using tree.get_refines [OF m, of k] tree.get_refines [of E NewEmptyMST Map.empty k] by simp
  then show "M k = None" by (auto simp: map_Get_def lookup_result_def split: option.splits)
qed

section \<open>Properties\<close>

text \<open>C5. Reading a version. Where a bucket's tree stands for the histories of its keys, \<open>resolveVersion\<close> answers for every
  version id: a malformed id is an invalid argument, a key without a history is \<open>NoSuchKey\<close>, no id is the newest
  version, and any other id is the one version of the history that has it, or \<open>NoSuchVersion\<close>. The
  answer carries the version's ordinal, id and manifest, and whether it is the newest.\<close>

theorem resolveVersion_spec:
  assumes "versions_at X content lg bucket st H"
  shows "map_sum id (\<lambda>rv. (rv_st rv, rv_node rv, rv_mf rv, rv_isLatest rv)) (resolveVersion X lg bucket key i) =
    (if fst (classifyVersionID X i) = versionKindInvalid then Inl (FnApi (InvalidVersionId i))
     else case H key of
            None \<Rightarrow> Inl (FnApi ErrNoSuchKey)
          | Some h \<Rightarrow>
              (case lookup_version h i of
                 None \<Rightarrow> Inl (FnApi (NoSuchVersion key i))
               | Some v \<Rightarrow> Inr (st, nodeOf v, v_mf v, v = hd h)))"
proof -
  let ?B = "reads_view (vx_deps X) (fst lg) (st_Space st)"
  obtain M where st: "gm_get (buckets (snd lg)) bucket = Some st" and M: "mst_repr (view_env (vx_deps X) ?B) (tree_at (st_Root st)) M" "keys_repr X ?B M H"
    using assms unfolding versions_at_def Let_def by blast
  obtain kind seq where kind: "classifyVersionID X i = (kind, seq)" by fastforce
  have res: "resolveVersion X lg bucket key i = resolveVersionIn X ?B st key i" by (simp add: resolveVersion_def mem_Get_def st)
  have rel: "rel_option (\<lambda>c h. key_repr X ?B c h \<and> hist_ok X h) (M key) (H key)" using M(2) by (simp add: keys_repr_def)
  have get: "mst_Get mst_fuel (view_env (vx_deps X) ?B) (LoadMST (st_Root st)) key = lookup_result (M key)" if "cid_Defined (st_Root st)"
    using tree.get_refines [OF M(1), of key] that by (simp add: tree_at_def map_Get_def)
  have none: "M key = None" if "\<not> cid_Defined (st_Root st)" using empty_root_repr M(1) that by (auto simp: tree_at_def)
  show ?thesis
  proof (cases "kind = versionKindInvalid \<or> M key = None")
    case True
    then show ?thesis using rel get by (auto simp: res resolveVersionIn_def kind lookup_result_def Let_def)
  next
    case False
    then obtain c h where c: "M key = Some c" "H key = Some h" "key_repr X ?B c h" "hist_ok X h" "cid_Defined (st_Root st)"
      using rel none by (cases "M key"; cases "H key"; cases "cid_Defined (st_Root st)") auto
    note step = res resolveVersionIn_def kind False c get lookup_result_def Let_def
    from c(3) show ?thesis unfolding key_repr_def
    proof (elim disjE exE conjE)
      fix v assume v: "h = [v]" "c = v_cid v" "getValue (vx_values X) ?B c = Inr (ManifestValue (v_mf v))"
      have ok: "version_ok X v" using c(4) v(1) by (simp add: hist_ok_Cons)
      then show ?thesis
        using manifestMatches_lookup [OF ok kind] False v version_ok_id(3) [OF ok]
        by (auto simp: step blockE_def ManifestValue_def lookup_version_def split: if_splits)
    next
      fix l assume l: "getValue (vx_values X) ?B c = Inr (LeafValue l)" "leaf_repr X ?B l h"
      note r = leaf_resolve [OF l(2) c(4) kind _ refl, of "NoSuchVersion key i"]
      show ?thesis
        using r False l(1)
        by (auto simp: step blockE_def LeafValue_def bindE_def split: sum.splits if_splits option.splits)
    qed
  qed
qed

text \<open>A bucket whose only key has one version, a null delete marker, read from the network; and the codecs of its blocks.\<close>

definition demo_marker :: ObjectManifest where
  "demo_marker = (markerManifest ''a'' 5)\<lparr> mf_Seq := 1, mf_VersionID := NullVersionID \<rparr>"

definition demo_net :: bucket_env where
  "demo_net = demo_deps\<lparr>
     be_Encode := (\<lambda>nd. if nd = demo_node then Inr (''A'', ''hello'') else if nd = \<lparr> Left = None, Entries = [] \<rparr> then Inr (''E'', ''world'') else Inl ''too large''),
     be_Decode := (\<lambda>d. if d = ''hello'' then Inr demo_node else if d = ''world'' then Inr \<lparr> Left = None, Entries = [] \<rparr> else Inl ''malformed''),
     be_Base := (\<lambda>_ c. if c = ''A'' then Inr (c, ''hello'') else if c = ''V'' then Inr (c, ''world'') else Inl ErrBlockNotFound) \<rparr>"

definition demo_versions :: version_env where
  "demo_versions = \<lparr>
     vx_values = \<lparr> ve_deps = demo_net,
       ve_EncodeValue = (\<lambda>u. if u = ManifestValue demo_marker then Inr (''V'', ''world'') else Inl ''too large''),
       ve_DecodeValue = (\<lambda>d. if d = ''world'' then Inr (ManifestValue demo_marker) else Inl ''malformed''),
       ve_EncodeState = (\<lambda>_. Inl ''too large''), ve_DecodeState = (\<lambda>_. Inl ''malformed''),
       ve_EncodeExtent = (\<lambda>_. Inl ''too large''), ve_DecodeExtent = (\<lambda>_. Inl ''malformed'') \<rparr>,
     vx_ulid_String = (\<lambda>i. i @ ''0000000000''), vx_ulid_ParseStrict = (\<lambda>t. if length t = 26 then Inr (take 16 t) else Inl ''bad length''),
     vx_CaptureAuthority = (\<lambda>_ _. Inl ''none''), vx_releaseGrace = 1 \<rparr>"

lemma demo_versions_net [simp]: "vx_deps demo_versions = demo_net"
  by (simp add: demo_versions_def)

definition demo_version :: version where
  "demo_version = \<lparr> v_seq = 1, v_id = NullVersionID, v_cid = ''V'', v_mf = demo_marker, v_digests = [], v_state = None \<rparr>"

definition demo_stocked :: Coordinator where
  "demo_stocked = demo_co\<lparr> co_log := (fst (co_log demo_co), (snd (co_log demo_co))\<lparr>
     buckets := gm_put ''photos'' (demo_photos\<lparr> st_Root := ''A'' \<rparr>) gm_empty, verSeqs := gm_put ''photos'' 1 gm_empty \<rparr>) \<rparr>"

lemma demo_values_ok: "values_ok (vx_values demo_versions) demo_content" "tiers_ok demo_net demo_content"
  by (auto simp: values_ok_def codec_ok_def encodes_def tiers_ok_def demo_versions_def demo_net_def demo_deps_def demo_content_def well_formed_def car_ok_def
      demo_car_env_def demo_Cast_def cid_Defined_def cid_Undef_def split: if_splits)

lemma demo_view:
  "reads_view demo_net (fst (co_log demo_co)) space c =
    (if c = ''A'' then Inr ''hello'' else if c = ''V'' then Inr ''world'' else Inl ErrBlockNotFound)"
proof -
  have "mgr_Get demo_log_env c (fst (co_log demo_co)) = Inl ErrBlockNotFound"
    by (simp add: mgr_Get_def demo_co_def DAList.update.rep_eq DAList.empty.rep_eq plane_Get_def segs_def demo_plane_def newPlaneLog_def)
  then show ?thesis by (simp add: reads_view_def reads_GetBlock_def layered_GetBlock_def demo_net_def demo_deps_def)
qed

lemma demo_net_simps:
  "be_log demo_net = demo_log_env" "be_SHA256 demo_net = (\<lambda>_. replicate 32 255)"
  "be_Decode demo_net ''hello'' = Inr demo_node"
  by (simp_all add: demo_net_def demo_deps_def)

lemma demo_view_ok: "view_ok demo_net demo_content (reads_view demo_net (fst (co_log demo_co)) space)"
  by (auto simp: view_ok_def demo_view demo_net_simps demo_content_def well_formed_def car_ok_def
      demo_car_env_def demo_Cast_def cid_Defined_def cid_Undef_def split: if_splits)

lemma demo_key_valid: "IsValidKey ''a''"
  by code_simp

lemma demo_tree_repr: "mst_repr (view_env demo_net (reads_view demo_net (fst (co_log demo_co)) space)) (LoadMST ''A'') [''a'' \<mapsto> ''V'']"
proof (rule mst_reprI [where l = 0 and kvs = "[(''a'', ''V'')]"])
  let ?E = "view_env demo_net (reads_view demo_net (fst (co_log demo_co)) space)"
  have "deserializeNodeData demo_node l = Inr [entryLeaf ''a'' ''V'']" for l
    by (simp add: deserializeNodeData_def demo_node_def deserializeEntries.simps ensureValidKey_def demo_key_valid Let_def)
  then have "getEntries ?E (LoadMST ''A'') = Inr [entryLeaf ''a'' ''V'']"
    by (simp add: getEntries_def LoadMST_def view_env_def demo_net_simps demo_view decodeBlock_def createMST_def entriesFromNodeData_def cid_Undef_def)
  moreover have "leadingZerosOfDigest (replicate 32 255) = 0" by code_simp
  then have "leadingZerosOnHash ?E ''a'' = 0" by (simp add: leadingZerosOnHash_def leadingZerosOnHashBytes_def view_env_def demo_net_simps)
  ultimately show "node_ok 0 ?E (LoadMST ''A'') [(''a'', ''V'')]" by (auto simp: node_ok_iff ptr_ok_def layer_ok_def LoadMST_def createMST_def)
qed (simp_all add: sha_ok_def view_env_def demo_net_simps sorted_kvs_def)

lemma demo_value_stored:
  "getValue (vx_values demo_versions) (reads_view demo_net (fst (co_log demo_co)) space) ''V'' = Inr (ManifestValue demo_marker)"
  "stored_at demo_versions (reads_view demo_net (fst (co_log demo_co)) space) demo_version"
proof -
  show v: "getValue (vx_values demo_versions) (reads_view demo_net (fst (co_log demo_co)) space) ''V'' = Inr (ManifestValue demo_marker)" for space
    unfolding getValue_def getBlockAs_def demo_view by (simp add: demo_versions_def ObjectValue_Unmarshal_def ManifestValue_def arms_def)
  show "stored_at demo_versions (reads_view demo_net (fst (co_log demo_co)) space) demo_version"
    using getValue_manifest [OF v]
    by (simp add: stored_at_def demo_version_def demo_marker_def markerManifest_def emptyBody_def bodyDigests_def x_Digests_def x_check_def newIndex_def)
qed

lemma demo_history: "hist_ok demo_versions [demo_version]"
  by (simp add: hist_ok_Cons version_ok_def demo_version_def demo_marker_def cid_Defined_def cid_Undef_def)

lemma demo_stocked_at:
  "versions_at demo_versions demo_content (co_log demo_stocked) ''photos'' (demo_photos\<lparr> st_Root := ''A'' \<rparr>) [''a'' \<mapsto> [demo_version]]"
proof -
  let ?B = "reads_view demo_net (fst (co_log demo_co)) (st_Space demo_photos)"
  have "key_repr demo_versions ?B ''V'' [demo_version]" using demo_value_stored by (simp add: key_repr_def demo_version_def)
  then have "keys_repr demo_versions ?B [''a'' \<mapsto> ''V''] [''a'' \<mapsto> [demo_version]]"
    using demo_history demo_key_valid by (simp add: keys_repr_def)
  then show ?thesis using demo_tree_repr demo_view_ok
    by (auto simp: versions_at_def Let_def demo_stocked_def tree_at_def cid_Defined_def cid_Undef_def)
qed

theorem resolveVersion_spec_witness:
  "map_sum id (\<lambda>rv. (rv_st rv, rv_node rv, rv_mf rv, rv_isLatest rv)) (resolveVersion demo_versions (co_log demo_stocked) ''photos'' ''a'' ''null'') =
    Inr (demo_photos\<lparr> st_Root := ''A'' \<rparr>, nodeOf demo_version, demo_marker, True)"
  unfolding resolveVersion_spec [OF demo_stocked_at]
  by (simp add: classifyVersionID_def lookup_version_def demo_version_def NullVersionID_def)

end
