(* ===== verification/S3_VersionAct.thy ===== *)
theory S3_VersionAct
  imports S3_VersionSpec
begin

text \<open>
  The actions of a commit closure as steps that keep what has been written: an action that succeeds leaves a
  transaction that reads all it read before, of the same bucket and snapshot, and touches nothing of the
  registry but the garbage candidates. Each action has a rule of this form, and the steps of the write rule
  and of the deletes are proved by composing them.
\<close>

section \<open>What reading more keeps\<close>

lemma root_repr_mono: "env_le E E' \<Longrightarrow> root_repr E r M \<Longrightarrow> root_repr E' r M"
  using mst_repr_mono by (auto simp: root_repr_def split: option.splits)

lemma getValue_mono: "view_le B B' \<Longrightarrow> getValue V B c = Inr x \<Longrightarrow> getValue V B' c = Inr x"
  unfolding getValue_def by (rule getBlockAs_mono)

lemma getManifest_mono: "view_le B B' \<Longrightarrow> getManifest V B c = Inr x \<Longrightarrow> getManifest V B' c = Inr x"
  unfolding getManifest_def by (rule getBlockAs_mono)

lemma getState_mono: "view_le B B' \<Longrightarrow> getState V B c = Inr x \<Longrightarrow> getState V B' c = Inr x"
  unfolding getState_def by (rule getBlockAs_mono)

definition states_repr :: "version_env \<Rightarrow> block_view \<Rightarrow> cid option \<Rightarrow> history \<Rightarrow> bool" where
  "states_repr X B r h \<longleftrightarrow> (\<exists>S. root_repr (view_env (vx_deps X) B) r S
     \<and> (\<forall>k. rel_option (\<lambda>c s. getState (vx_values X) B c = Inr s) (S k) (state_map h k)))"

lemma states_repr_mono:
  assumes "view_le B B'" and "states_repr X B r h"
  shows "states_repr X B' r h"
proof -
  obtain S where S: "root_repr (view_env (vx_deps X) B) r S" "\<And>k. rel_option (\<lambda>c s. getState (vx_values X) B c = Inr s) (S k) (state_map h k)"
    using assms(2) unfolding states_repr_def by blast
  have "rel_option (\<lambda>c s. getState (vx_values X) B' c = Inr s) (S k) (state_map h k)" for k
    by (rule option.rel_mono_strong [OF S(2)]) (rule getState_mono [OF assms(1)])
  then show ?thesis using root_repr_mono [OF view_le_env [OF assms(1)] S(1)] unfolding states_repr_def by blast
qed

lemma leaf_repr_Cons:
  "leaf_repr X B l (v # vs) \<longleftrightarrow> lf_Current l = nodeOf v \<and> lf_NullSeq l = null_seq vs
     \<and> (\<forall>w \<in> set (v # vs). stored_at X B w)
     \<and> root_repr (view_env (vx_deps X) B) (lf_Prev l) (prev_map vs) \<and> states_repr X B (lf_State l) (v # vs)"
  unfolding leaf_repr_def states_repr_def by blast

lemma stored_at_mono: "view_le B B' \<Longrightarrow> stored_at X B v \<Longrightarrow> stored_at X B' v"
  unfolding stored_at_def using getManifest_mono bodyDigests_mono by metis

lemma leaf_repr_mono:
  assumes "view_le B B'" and "leaf_repr X B l h"
  shows "leaf_repr X B' l h"
proof -
  obtain v vs where h: "h = v # vs" using assms(2) by (auto simp: leaf_repr_def)
  show ?thesis
    using assms(2) stored_at_mono [OF assms(1)] root_repr_mono [OF view_le_env [OF assms(1)]] states_repr_mono [OF assms(1)]
    unfolding h leaf_repr_Cons by blast
qed

lemma key_repr_mono:
  assumes "view_le B B'" and "key_repr X B c h"
  shows "key_repr X B' c h"
  using assms(2) unfolding key_repr_def
proof (elim disjE exE conjE)
  fix v assume "h = [v]" "c = v_cid v" "v_state v = None" "getValue (vx_values X) B c = Inr (ManifestValue (v_mf v))" "stored_at X B v"
  then show "(\<exists>v. h = [v] \<and> c = v_cid v \<and> v_state v = None \<and> getValue (vx_values X) B' c = Inr (ManifestValue (v_mf v)) \<and> stored_at X B' v)
      \<or> (\<exists>l. getValue (vx_values X) B' c = Inr (LeafValue l) \<and> leaf_repr X B' l h)"
    using getValue_mono [OF assms(1)] stored_at_mono [OF assms(1)] by (intro disjI1 exI [of _ v]) simp
next
  fix l assume "getValue (vx_values X) B c = Inr (LeafValue l)" "leaf_repr X B l h"
  then show "(\<exists>v. h = [v] \<and> c = v_cid v \<and> v_state v = None \<and> getValue (vx_values X) B' c = Inr (ManifestValue (v_mf v)) \<and> stored_at X B' v)
      \<or> (\<exists>l. getValue (vx_values X) B' c = Inr (LeafValue l) \<and> leaf_repr X B' l h)"
    using getValue_mono [OF assms(1)] leaf_repr_mono [OF assms(1)] by blast
qed

lemma keys_repr_mono:
  assumes "view_le B B'" and "keys_repr X B M H"
  shows "keys_repr X B' M H"
proof -
  have "rel_option (\<lambda>c h. key_repr X B' c h \<and> hist_ok X h) (M k) (H k)" for k
    using assms(2) key_repr_mono [OF assms(1)] unfolding keys_repr_def by (metis (mono_tags, lifting) option.rel_mono_strong)
  then show ?thesis using assms(2) by (simp add: keys_repr_def)
qed

section \<open>Steps\<close>

abbreviation sview :: "version_env \<Rightarrow> Manager \<Rightarrow> vstate \<Rightarrow> block_view" where
  "sview X mg s \<equiv> tx_GetBlock (vx_deps X) mg (vs_tx s)"

abbreviation senv :: "version_env \<Rightarrow> Manager \<Rightarrow> vstate \<Rightarrow> mst_env" where
  "senv X mg s \<equiv> view_env (vx_deps X) (sview X mg s)"

definition sgood :: "version_env \<Rightarrow> (cid \<Rightarrow> bytes) \<Rightarrow> Manager \<Rightarrow> vstate \<Rightarrow> bool" where
  "sgood X content mg s \<longleftrightarrow> values_ok (vx_values X) content \<and> tx_good (vx_values X) content mg (vs_tx s)"

text \<open>The ordinal last drawn for a bucket.\<close>

definition lastSeq :: "MemStore \<Rightarrow> string \<Rightarrow> seqno" where
  "lastSeq m b = (case gm_get (verSeqs m) b of None \<Rightarrow> 0 | Some n \<Rightarrow> n)"

text \<open>The registry but for the garbage candidates and the ordinals.\<close>

definition reg_rest :: "MemStore \<Rightarrow> MemStore" where
  "reg_rest m = m\<lparr> gcCands := gm_empty, verSeqs := gm_empty \<rparr>"

definition reg_kept :: "vstate \<Rightarrow> vstate \<Rightarrow> bool" where
  "reg_kept s s' \<longleftrightarrow> reg_rest (vs_reg s') = reg_rest (vs_reg s) \<and> (\<forall>b. lastSeq (vs_reg s) b \<le> lastSeq (vs_reg s') b)"

definition onto :: "version_env \<Rightarrow> (cid \<Rightarrow> bytes) \<Rightarrow> Manager \<Rightarrow> vstate \<Rightarrow> vstate \<Rightarrow> bool" where
  "onto X content mg s s' \<longleftrightarrow> sgood X content mg s' \<and> view_le (sview X mg s) (sview X mg s')
     \<and> tx_bucket (vs_tx s') = tx_bucket (vs_tx s) \<and> tx_state (vs_tx s') = tx_state (vs_tx s) \<and> tx_held (vs_tx s') = tx_held (vs_tx s)
     \<and> reg_kept s s'"

abbreviation rows :: "vstate \<Rightarrow> RootCommit" where
  "rows s \<equiv> tx_commit (vs_tx s)"

definition acts :: "version_env \<Rightarrow> (cid \<Rightarrow> bytes) \<Rightarrow> Manager \<Rightarrow> vstate \<Rightarrow> 'a act \<Rightarrow> ('a \<Rightarrow> vstate \<Rightarrow> bool) \<Rightarrow> bool" where
  "acts X content mg s m Q \<longleftrightarrow> reg_kept s (fst (m s)) \<and> (\<forall>x. snd (m s) = Inr x \<longrightarrow> onto X content mg s (fst (m s)) \<and> Q x (fst (m s)))"

text \<open>A step that carries no rows with the commit.\<close>

definition quiet :: "version_env \<Rightarrow> (cid \<Rightarrow> bytes) \<Rightarrow> Manager \<Rightarrow> vstate \<Rightarrow> 'a act \<Rightarrow> ('a \<Rightarrow> vstate \<Rightarrow> bool) \<Rightarrow> bool" where
  "quiet X content mg s m Q \<longleftrightarrow> acts X content mg s m (\<lambda>x s'. rows s' = rows s \<and> Q x s')"

lemma reg_rest_fields:
  assumes "reg_rest m' = reg_rest m"
  shows "buckets m' = buckets m" and "blobRefs m' = blobRefs m" and "nextSeq m' = nextSeq m" and "releases m' = releases m"
proof -
  have "buckets (reg_rest m) = buckets m" "blobRefs (reg_rest m) = blobRefs m" "nextSeq (reg_rest m) = nextSeq m" "releases (reg_rest m) = releases m" for m
    by (simp_all add: reg_rest_def)
  then show "buckets m' = buckets m" "blobRefs m' = blobRefs m" "nextSeq m' = nextSeq m" "releases m' = releases m" using assms by metis+
qed

lemma reg_kept_gc: "vs_reg s' = (vs_reg s)\<lparr> gcCands := g \<rparr> \<Longrightarrow> reg_kept s s'"
  by (simp add: reg_kept_def lastSeq_def reg_rest_def)

lemma reg_kept_tx [simp]: "reg_kept s (s\<lparr> vs_tx := tx \<rparr>)"
  by (simp add: reg_kept_def)

lemma reg_kept_refl [simp]: "reg_kept s s"
  by (simp add: reg_kept_def)

lemma reg_kept_trans: "reg_kept s s' \<Longrightarrow> reg_kept s' s'' \<Longrightarrow> reg_kept s s''"
  unfolding reg_kept_def by (auto intro: order_trans)

lemma onto_refl: "sgood X content mg s \<Longrightarrow> onto X content mg s s"
  by (simp add: onto_def)

lemma onto_trans: "onto X content mg s s' \<Longrightarrow> onto X content mg s' s'' \<Longrightarrow> onto X content mg s s''"
  by (auto simp: onto_def intro: view_le_trans reg_kept_trans)

lemma acts_bind:
  assumes "acts X content mg s m Q" and "\<And>x s'. onto X content mg s s' \<Longrightarrow> Q x s' \<Longrightarrow> acts X content mg s' (f x) R"
  shows "acts X content mg s (bindA m f) R"
proof (cases "m s")
  case (Pair s' r)
  then show ?thesis
  proof (cases r)
    case (Inr x)
    then have s: "onto X content mg s s'" "Q x s'" "reg_kept s s'" using assms(1) Pair by (simp_all add: acts_def)
    have k: "acts X content mg s' (f x) R" by (rule assms(2) [OF s(1,2)])
    then show ?thesis using Pair Inr reg_kept_trans [OF s(3)] onto_trans [OF s(1)] by (auto simp: acts_def bindA_def)
  qed (use assms(1) Pair in \<open>auto simp: acts_def bindA_def\<close>)
qed

lemma acts_weaken: "acts X content mg s m Q \<Longrightarrow> (\<And>x s'. onto X content mg s s' \<Longrightarrow> Q x s' \<Longrightarrow> R x s') \<Longrightarrow> acts X content mg s m R"
  by (simp add: acts_def)

lemma quiet_bind:
  assumes "quiet X content mg s m Q" and "\<And>x s'. onto X content mg s s' \<Longrightarrow> rows s' = rows s \<Longrightarrow> Q x s' \<Longrightarrow> quiet X content mg s' (f x) R"
  shows "quiet X content mg s (bindA m f) R"
  unfolding quiet_def
proof (rule acts_bind [OF assms(1) [unfolded quiet_def]])
  fix x s' assume s: "onto X content mg s s'" "rows s' = rows s \<and> Q x s'"
  then have "quiet X content mg s' (f x) R" using assms(2) by blast
  then show "acts X content mg s' (f x) (\<lambda>x s''. rows s'' = rows s \<and> R x s'')" using s(2) by (simp add: quiet_def)
qed

lemma quiet_weaken:
  "quiet X content mg s m Q \<Longrightarrow> (\<And>x s'. onto X content mg s s' \<Longrightarrow> rows s' = rows s \<Longrightarrow> Q x s' \<Longrightarrow> R x s') \<Longrightarrow> quiet X content mg s m R"
  by (simp add: quiet_def acts_def)

lemma acts_quiet_bind:
  assumes "quiet X content mg s m Q" and "\<And>x s'. onto X content mg s s' \<Longrightarrow> rows s' = rows s \<Longrightarrow> Q x s' \<Longrightarrow> acts X content mg s' (f x) R"
  shows "acts X content mg s (bindA m f) R"
  by (rule acts_bind [OF assms(1) [unfolded quiet_def]]) (use assms(2) in blast)

lemma onto_good: "onto X content mg s s' \<Longrightarrow> sgood X content mg s'"
  by (simp add: onto_def)

lemma onto_view: "onto X content mg s s' \<Longrightarrow> view_le (sview X mg s) (sview X mg s')"
  by (simp add: onto_def)

lemma onto_seq: "onto X content mg s s' \<Longrightarrow> lastSeq (vs_reg s) b \<le> lastSeq (vs_reg s') b"
  by (simp add: onto_def reg_kept_def)

lemma onto_state: "onto X content mg s s' \<Longrightarrow> tx_state (vs_tx s') = tx_state (vs_tx s)"
  by (simp add: onto_def)

lemma onto_env: "onto X content mg s s' \<Longrightarrow> env_le (senv X mg s) (senv X mg s')"
  by (simp add: onto_def view_le_env)

section \<open>The primitive actions\<close>

lemma quiet_return: "sgood X content mg s \<Longrightarrow> Q x s \<Longrightarrow> quiet X content mg s (returnA x) Q"
  by (simp add: quiet_def acts_def returnA_def onto_refl)

lemma quiet_lift: "sgood X content mg s \<Longrightarrow> (\<And>x. r = Inr x \<Longrightarrow> Q x s) \<Longrightarrow> quiet X content mg s (liftA r) Q"
  by (simp add: quiet_def acts_def liftA_def onto_refl)

lemma quiet_fail [simp]: "quiet X content mg s (liftA (Inl e)) Q"
  by (simp add: quiet_def acts_def liftA_def)

lemma quiet_read: "sgood X content mg s \<Longrightarrow> (\<And>x. f (vs_tx s) = Inr x \<Longrightarrow> Q x s) \<Longrightarrow> quiet X content mg s (readA f) Q"
  by (simp add: quiet_def acts_def readA_def onto_refl)

lemma quiet_view: "sgood X content mg s \<Longrightarrow> (\<And>x. f (sview X mg s) = Inr x \<Longrightarrow> Q x s) \<Longrightarrow> quiet X content mg s (viewA X mg f) Q"
  unfolding viewA_def by (rule quiet_read)

lemma quiet_tree:
  "sgood X content mg s \<Longrightarrow> (\<And>x. f (senv X mg s) = Inr x \<Longrightarrow> Q x s) \<Longrightarrow> quiet X content mg s (treeA X mg f) Q"
  unfolding treeA_def tx_reader_view by (rule quiet_read) (auto simp: treeE_def map_sum_def split: sum.splits)

lemma quiet_gc: "sgood X content mg s \<Longrightarrow> (\<And>s'. vs_tx s' = vs_tx s \<Longrightarrow> Q () s') \<Longrightarrow> quiet X content mg s (gcA c) Q"
  by (auto simp: quiet_def acts_def gcA_def onto_def sgood_def AddGCCandidate_def intro!: reg_kept_gc)

lemma quiet_alloc:
  assumes "sgood X content mg s" and "lastSeq (vs_reg s) name \<noteq> - 1"
    and "\<And>s'. vs_tx s' = vs_tx s \<Longrightarrow> lastSeq (vs_reg s') name = lastSeq (vs_reg s) name + 1 \<Longrightarrow> Q (lastSeq (vs_reg s) name + 1) s'"
  shows "quiet X content mg s (allocSeqA name) Q"
proof (cases "gm_get (buckets (vs_reg s)) name")
  case None
  then show ?thesis by (simp add: quiet_def acts_def allocSeqA_def AllocVersionSeq_def)
next
  case (Some st)
  let ?n = "lastSeq (vs_reg s) name + 1"
  let ?s = "s\<lparr> vs_reg := (vs_reg s)\<lparr> verSeqs := gm_put name ?n (verSeqs (vs_reg s)) \<rparr> \<rparr>"
  have n: "lastSeq (vs_reg ?s) b = (if b = name then ?n else lastSeq (vs_reg s) b)" for b by (simp add: lastSeq_def)
  have "lastSeq (vs_reg s) name < - 1" using assms(2) by (simp add: word_order.not_eq_extremum)
  then have "lastSeq (vs_reg s) name \<le> ?n" by (rule less_imp_le [OF seq_up])
  then have "reg_kept s ?s" using n by (auto simp: reg_kept_def reg_rest_def)
  moreover have "Q ?n ?s" by (rule assms(3)) (use n in simp_all)
  ultimately show ?thesis
    using Some assms(1) by (simp add: quiet_def acts_def allocSeqA_def AllocVersionSeq_def Let_def onto_def sgood_def flip: lastSeq_def)
qed

lemma quiet_put:
  assumes "sgood X content mg s" and "\<And>c d. enc = Inr (c, d) \<Longrightarrow> d = content c \<and> well_formed (vx_deps X) content c"
    and "\<And>c s'. onto X content mg s s' \<Longrightarrow> enc = Inr (c, content c) \<Longrightarrow> sview X mg s' c = Inr (content c) \<Longrightarrow> well_formed (vx_deps X) content c \<Longrightarrow> Q c s'"
  shows "quiet X content mg s (putA enc) Q"
proof (cases "tx_PutAs enc (vs_tx s)")
  case (Inl e)
  then show ?thesis by (simp add: quiet_def acts_def putA_def txA_def blockE_def)
next
  case (Inr r)
  obtain c tx' where r: "r = (c, tx')" by fastforce
  have good: "values_ok (vx_values X) content" "tx_good (vx_values X) content mg (vs_tx s)" using assms(1) by (simp_all add: sgood_def)
  note p = tx_PutAs_good [OF good(2) Inr [unfolded r], OF assms(2)]
  let ?s = "s\<lparr> vs_tx := tx' \<rparr>"
  have on: "onto X content mg s ?s" using p(1-3) good(1) by (simp add: onto_def sgood_def same_tx_def)
  have "Q c ?s" using assms(3) [OF on p(5)] p(4,5) assms(2) by simp
  then show ?thesis using Inr r on p(2) by (simp add: quiet_def acts_def putA_def txA_def blockE_def same_tx_def)
qed

lemma quiet_pointer:
  assumes "sgood X content mg s" and "mst_repr (senv X mg s) t M" and "\<forall>k \<in> dom M. IsValidKey k"
    and "\<And>c s'. onto X content mg s s' \<Longrightarrow> mst_repr (senv X mg s') (LoadMST c) M \<Longrightarrow> well_formed (vx_deps X) content c \<Longrightarrow> Q c s'"
  shows "quiet X content mg s (pointerA X mg t) Q"
proof (cases "tx_GetPointer (vx_deps X) mg t (vs_tx s)")
  case (Inl e)
  then show ?thesis by (simp add: quiet_def acts_def pointerA_def txA_def treeE_def)
next
  case (Inr r)
  obtain c tx' where r: "r = (c, tx')" by fastforce
  have good: "values_ok (vx_values X) content" "tx_ok (vx_deps X) content (vs_tx s)" "view_ok (vx_deps X) content (sview X mg s)"
    using assms(1) by (simp_all add: sgood_def tx_good_def)
  note p = tx_GetPointer_repr [OF values_codec [OF good(1)] good(2,3) assms(2) [folded tx_reader_view] assms(3) Inr [unfolded r]]
  let ?s = "s\<lparr> vs_tx := tx' \<rparr>"
  have on: "onto X content mg s ?s" using p(1-4) good(1) by (simp add: onto_def sgood_def tx_good_def same_tx_def)
  have "Q c ?s" using assms(4) [OF on] p(5,6) by (simp add: tx_reader_view)
  then show ?thesis using Inr r on p(2) by (simp add: quiet_def acts_def pointerA_def txA_def treeE_def same_tx_def)
qed

text \<open>Rows only change what the commit carries.\<close>

lemma acts_rows:
  assumes "sgood X content mg s" and "\<exists>c. f (vs_tx s) = (vs_tx s)\<lparr> tx_commit := c \<rparr>" and "Q () (s\<lparr> vs_tx := f (vs_tx s) \<rparr>)"
  shows "acts X content mg s (rowsA f) Q"
proof -
  obtain c where c: "f (vs_tx s) = (vs_tx s)\<lparr> tx_commit := c \<rparr>" using assms(2) by blast
  have v: "tx_GetBlock (vx_deps X) mg ((vs_tx s)\<lparr> tx_commit := c \<rparr>) = sview X mg s" by (simp add: fun_eq_iff tx_GetBlock_def)
  have "sgood X content mg (s\<lparr> vs_tx := (vs_tx s)\<lparr> tx_commit := c \<rparr> \<rparr>)"
    using assms(1) by (simp add: sgood_def tx_good_def tx_ok_def v)
  then show ?thesis using assms(3) unfolding acts_def rowsA_def c by (simp add: onto_def v)
qed

end
