(* ===== verification/S3_VersionWrite.thy ===== *)
theory S3_VersionWrite
  imports S3_VersionAct
begin

text \<open>
  The steps of the write rule, each against the history of the key: the manifest is written, the version
  before is kept or discarded, a null version that a new one replaces is removed, the trees of the leaf are
  written, and the new value stands for the history with the new version at its head.
\<close>

section \<open>What is kept and what goes\<close>

definition kept :: "string \<Rightarrow> history \<Rightarrow> history" where
  "kept vid h = (if vid = NullVersionID then filter (\<lambda>w. \<not> is_null w) h else h)"

definition gone :: "string \<Rightarrow> history \<Rightarrow> history" where
  "gone vid h = (if vid = NullVersionID then filter is_null h else [])"

lemma put_version_kept: "put_version v h = v # kept (v_id v) h"
  by (simp add: put_version_def kept_def)

lemma filter_null:
  assumes "hist_ok X h"
  shows "filter is_null h = (case find is_null h of None \<Rightarrow> [] | Some w \<Rightarrow> [w])"
  using assms
proof (induction h)
  case (Cons v h)
  then show ?case by (auto simp: hist_ok_Cons filter_empty_conv split: option.split)
qed simp

lemma kept_drop: "hist_ok X h \<Longrightarrow> filter (\<lambda>w. \<not> is_null w) h = (if null_seq h = 0 then h else drop_version (null_seq h) h)"
proof -
  assume h: "hist_ok X h"
  have "filter (\<lambda>w. \<not> is_null w) h = drop_version (null_seq h) h"
    unfolding drop_version_def by (rule filter_cong) (use null_seq_iff(2) [OF h] in auto)
  moreover have "filter (\<lambda>w. \<not> is_null w) h = h" if "null_seq h = 0" using null_seq_iff(1) [OF h] that by (auto intro: filter_True)
  ultimately show ?thesis by simp
qed

lemma hist_ok_kept: "hist_ok X h \<Longrightarrow> hist_ok X (kept vid h)"
  by (simp add: kept_def hist_ok_filter)

lemma set_kept: "set (kept vid h) \<subseteq> set h"
  by (auto simp: kept_def)

lemma prev_map_valid: "k \<in> dom (prev_map h) \<Longrightarrow> IsValidKey k"
  by (induction h) (auto split: if_splits)

lemma prev_map_drop: "prev_map (drop_version s h) = (prev_map h)(revSeqKey s := None)"
  by (simp add: prev_map_def at_key_drop fun_eq_iff)

lemma state_map_drop: "state_map (drop_version s h) = (state_map h)(revSeqKey s := None)"
  by (simp add: state_map_def at_key_drop fun_eq_iff)

lemma state_map_valid: "state_map h k \<noteq> None \<Longrightarrow> IsValidKey k"
  by (induction h) (auto simp: state_map_Cons state_map_def split: if_splits)

lemma null_seq_Cons [simp]: "null_seq (v # h) = (if is_null v then v_seq v else null_seq h)"
  by (simp add: null_seq_def)

lemma sgood_sha: "sgood X content mg s \<Longrightarrow> sha_ok (senv X mg s)"
  by (auto simp: sgood_def values_ok_def codec_ok_def sha_ok_def view_env_def)

section \<open>Value blocks and the blob list\<close>

lemma quiet_putManifest:
  assumes "sgood X content mg s"
    and "\<And>c s'. onto X content mg s s' \<Longrightarrow> getValue (vx_values X) (sview X mg s') c = Inr (ManifestValue mf) \<Longrightarrow> cid_Defined c \<Longrightarrow> Q c s'"
  shows "quiet X content mg s (putA (EnvelopedManifest_Marshal (vx_values X) mf)) Q"
proof (rule quiet_put [OF assms(1)])
  have v: "values_ok (vx_values X) content" using assms(1) by (simp add: sgood_def)
  show "d = content c \<and> well_formed (vx_deps X) content c" if "EnvelopedManifest_Marshal (vx_values X) mf = Inr (c, d)" for c d
    using marshal_manifest [OF v that] by blast
  fix c s' assume "onto X content mg s s'" "EnvelopedManifest_Marshal (vx_values X) mf = Inr (c, content c)"
    "sview X mg s' c = Inr (content c)" "well_formed (vx_deps X) content c"
  then show "Q c s'" using assms(2) marshal_manifest(3) [OF v] by (simp add: getValue_def getBlockAs_def well_formed_def)
qed

lemma quiet_putLeaf:
  assumes "sgood X content mg s"
    and "\<And>c s'. onto X content mg s s' \<Longrightarrow> getValue (vx_values X) (sview X mg s') c = Inr (LeafValue l) \<Longrightarrow> cid_Defined c \<Longrightarrow> Q c s'"
  shows "quiet X content mg s (putA (EnvelopedLeaf_Marshal (vx_values X) l)) Q"
proof (rule quiet_put [OF assms(1)])
  have v: "values_ok (vx_values X) content" using assms(1) by (simp add: sgood_def)
  show "d = content c \<and> well_formed (vx_deps X) content c" if "EnvelopedLeaf_Marshal (vx_values X) l = Inr (c, d)" for c d
    using marshal_leaf [OF v that] by blast
  fix c s' assume "onto X content mg s s'" "EnvelopedLeaf_Marshal (vx_values X) l = Inr (c, content c)"
    "sview X mg s' c = Inr (content c)" "well_formed (vx_deps X) content c"
  then show "Q c s'" using assms(2) marshal_leaf(3) [OF v] by (simp add: getValue_def getBlockAs_def well_formed_def)
qed

lemma quiet_putState:
  assumes "sgood X content mg s"
    and "\<And>c s'. onto X content mg s s' \<Longrightarrow> getState (vx_values X) (sview X mg s') c = Inr st \<Longrightarrow> cid_Defined c \<Longrightarrow> Q c s'"
  shows "quiet X content mg s (putA (EnvelopedVersionState_Marshal (vx_values X) (Some st))) Q"
proof (rule quiet_put [OF assms(1)])
  have v: "values_ok (vx_values X) content" using assms(1) by (simp add: sgood_def)
  show "d = content c \<and> well_formed (vx_deps X) content c" if "EnvelopedVersionState_Marshal (vx_values X) (Some st) = Inr (c, d)" for c d
    using marshal_state [OF v that] by blast
  fix c s' assume "onto X content mg s s'" "EnvelopedVersionState_Marshal (vx_values X) (Some st) = Inr (c, content c)"
    "sview X mg s' c = Inr (content c)" "well_formed (vx_deps X) content c"
  then show "Q c s'" using assms(2) marshal_state(3) [OF v] by (simp add: getState_def getBlockAs_def well_formed_def)
qed

lemma quiet_build:
  assumes "sgood X content mg s" and "body_Size body = refs_Size refs"
  shows "quiet X content mg s (txA (\<lambda>tx. blockE (BuildBlobList (tx_PutExtent (vx_values X)) refs tx)))
    (\<lambda>bl s'. bodyDigests (vx_values X) (sview X mg s') (body\<lparr> body_Blobs := bl \<rparr>) = Inr (DigestList refs))"
proof (cases "BuildBlobList (tx_PutExtent (vx_values X)) refs (vs_tx s)")
  case (Inr r)
  have v: "values_ok (vx_values X) content" "tx_good (vx_values X) content mg (vs_tx s)" using assms(1) by (simp_all add: sgood_def)
  obtain bl tx' where r: "r = (bl, tx')" by fastforce
  note b = BuildBlobList_tx [OF v Inr [unfolded r]]
  show ?thesis using b(1-3) b(4) [of "body\<lparr> body_Blobs := bl \<rparr>"] assms(2) Inr r v(1)
    by (simp add: quiet_def acts_def txA_def blockE_def onto_def sgood_def same_tx_def)
qed (simp add: quiet_def acts_def txA_def blockE_def)

text \<open>The manifest as it is written: the blobs it is given are cut into its list, and it names their digests.\<close>

definition written_as :: "version_env \<Rightarrow> block_view \<Rightarrow> ObjectManifest \<Rightarrow> BlobRefs option \<Rightarrow> ObjectManifest \<Rightarrow> bool" where
  "written_as X B mf blobs mf' \<longleftrightarrow> mf' = mf\<lparr> mf_Body := (mf_Body mf)\<lparr> body_Blobs := body_Blobs (mf_Body mf') \<rparr> \<rparr> \<and> (blobs = None \<longrightarrow> mf' = mf)
     \<and> (\<forall>refs. blobs = Some refs \<longrightarrow> bodyDigests (vx_values X) B (mf_Body mf') = Inr (DigestList refs))"

lemma written_as_mono: "view_le B B' \<Longrightarrow> written_as X B mf blobs mf' \<Longrightarrow> written_as X B' mf blobs mf'"
  using bodyDigests_mono unfolding written_as_def by blast

lemma quiet_writeManifest:
  assumes good: "sgood X content mg s" and blobs: "\<And>refs. blobs = Some refs \<Longrightarrow> body_Size (mf_Body mf) = refs_Size refs"
    and Q: "\<And>mf' c s'. onto X content mg s s' \<Longrightarrow> getValue (vx_values X) (sview X mg s') c = Inr (ManifestValue mf')
      \<Longrightarrow> cid_Defined c \<Longrightarrow> written_as X (sview X mg s') mf blobs mf' \<Longrightarrow> Q (mf', c) s'"
  shows "quiet X content mg s (writeManifest X mf blobs) Q"
  unfolding writeManifest_def
proof (rule quiet_bind)
  show "quiet X content mg s (case blobs of None \<Rightarrow> returnA mf
      | Some refs \<Rightarrow> bindA (txA (\<lambda>tx. blockE (BuildBlobList (tx_PutExtent (vx_values X)) refs tx))) (\<lambda>bl.
          returnA (mf\<lparr> mf_Body := (mf_Body mf)\<lparr> body_Blobs := bl \<rparr> \<rparr>))) (\<lambda>mf' s'. written_as X (sview X mg s') mf blobs mf')"
  proof (cases blobs)
    case None
    then show ?thesis using good by (simp add: quiet_return written_as_def)
  next
    case (Some refs)
    show ?thesis unfolding Some option.case
      by (rule quiet_bind [OF quiet_build [OF good blobs [OF Some]]]) (auto intro!: quiet_return dest: onto_good simp: written_as_def)
  qed
next
  fix mf' s' assume s': "onto X content mg s s'" "written_as X (sview X mg s') mf blobs mf'"
  show "quiet X content mg s' (bindA (putA (EnvelopedManifest_Marshal (vx_values X) mf')) (\<lambda>c. returnA (mf', c))) Q"
  proof (rule quiet_bind, rule quiet_putManifest [OF onto_good [OF s'(1)]])
    fix c s'' assume "onto X content mg s' s''" "getValue (vx_values X) (sview X mg s'') c = Inr (ManifestValue mf')" "cid_Defined c"
    then show "sgood X content mg s'' \<and> Q (mf', c) s''"
      using Q [OF onto_trans [OF s'(1)]] written_as_mono [OF onto_view s'(2)] onto_good by blast
  qed (auto intro: quiet_return)
qed

section \<open>The version before\<close>

definition prior_repr :: "version_env \<Rightarrow> block_view \<Rightarrow> priorValue \<Rightarrow> history \<Rightarrow> bool" where
  "prior_repr X B p h \<longleftrightarrow> h \<noteq> [] \<and> pv_node p = nodeOf (hd h) \<and> pv_mf p = v_mf (hd h) \<and> (\<forall>w \<in> set h. stored_at X B w)
     \<and> (case pv_leaf p of None \<Rightarrow> tl h = [] \<and> v_state (hd h) = None | Some l \<Rightarrow> leaf_repr X B l h)"

lemma prior_repr_mono: "view_le B B' \<Longrightarrow> prior_repr X B p h \<Longrightarrow> prior_repr X B' p h"
  using stored_at_mono leaf_repr_mono by (auto simp: prior_repr_def split: option.splits)

lemma key_repr_stored: "key_repr X B c h \<Longrightarrow> h \<noteq> [] \<and> (\<forall>w \<in> set h. stored_at X B w)"
  by (auto simp: key_repr_def leaf_repr_def)

lemma quiet_loadPrior:
  assumes good: "sgood X content mg s" and t: "mst_repr (senv X mg s) t M"
    and rel: "rel_option (\<lambda>c h. key_repr X (sview X mg s) c h \<and> hist_ok X h) (M key) (H key)"
  shows "quiet X content mg s (loadPrior X mg t key) (\<lambda>p s'. rel_option (prior_repr X (sview X mg s')) p (H key))"
  unfolding loadPrior_def
proof (rule quiet_view [OF good])
  let ?B = "sview X mg s"
  fix p assume p: "(case mst_Get mst_fuel (view_env (vx_deps X) ?B) t key of
      Inl ErrNotFound \<Rightarrow> Inr None | Inl e \<Rightarrow> Inl (FnTree e)
    | Inr c \<Rightarrow> bindE (blockE (getValue (vx_values X) ?B c)) (\<lambda>val.
        case (vu_Leaf val, vu_Manifest val) of
          (Some leaf, _) \<Rightarrow> bindE (blockE (getManifest (vx_values X) ?B (vn_Manifest (lf_Current leaf)))) (\<lambda>mf.
            Inr (Some \<lparr> pv_valCid = c, pv_leaf = Some leaf, pv_node = lf_Current leaf, pv_mf = mf \<rparr>))
        | (None, Some mf) \<Rightarrow> Inr (Some \<lparr> pv_valCid = c, pv_leaf = None, pv_node = manifestNode c mf, pv_mf = mf \<rparr>)
        | (None, None) \<Rightarrow> Inl (FnPanic ''nil manifest''))) = Inr p"
  have get: "mst_Get mst_fuel (view_env (vx_deps X) ?B) t key = lookup_result (M key)" using tree.get_refines [OF t] by (simp add: map_Get_def)
  show "rel_option (prior_repr X ?B) p (H key)"
  proof (cases "M key")
    case None
    then show ?thesis using rel p get by (auto simp: lookup_result_def)
  next
    case (Some c)
    then obtain h where h: "H key = Some h" "key_repr X ?B c h" "hist_ok X h" using rel by (auto simp: option_rel_Some1)
    from h(2) show ?thesis unfolding key_repr_def
    proof (elim disjE exE conjE)
      fix v assume v: "h = [v]" "c = v_cid v" "v_state v = None" "getValue (vx_values X) ?B c = Inr (ManifestValue (v_mf v))" "stored_at X ?B v"
      then have "p = Some \<lparr> pv_valCid = c, pv_leaf = None, pv_node = manifestNode c (v_mf v), pv_mf = v_mf v \<rparr>"
        using p get Some by (simp add: lookup_result_def blockE_def ManifestValue_def)
      then show ?thesis using v h version_ok_id(3) by (simp add: prior_repr_def hist_ok_Cons)
    next
      fix l assume l: "getValue (vx_values X) ?B c = Inr (LeafValue l)" "leaf_repr X ?B l h"
      then obtain v vs where v: "h = v # vs" "lf_Current l = nodeOf v" "stored_at X ?B v" "\<forall>w \<in> set h. stored_at X ?B w"
        by (auto simp: leaf_repr_def)
      then have "p = Some \<lparr> pv_valCid = c, pv_leaf = Some l, pv_node = nodeOf v, pv_mf = v_mf v \<rparr>"
        using p get Some l by (simp add: lookup_result_def blockE_def LeafValue_def nodeOf_def stored_at_def)
      then show ?thesis using v h l(2) by (simp add: prior_repr_def)
    qed
  qed
qed

section \<open>Supersession\<close>

definition discard_of :: "version \<Rightarrow> discardedVersion" where
  "discard_of v = \<lparr> dv_versionID = v_id v, dv_seq = v_seq v, dv_digests = v_digests v, dv_manifest = v_cid v \<rparr>"

text \<open>A supersession under way stands for the noncurrent versions there are to be.\<close>

definition sup_repr :: "version_env \<Rightarrow> block_view \<Rightarrow> VersionNode \<Rightarrow> cid option \<Rightarrow> supersession \<Rightarrow> history \<Rightarrow> bool" where
  "sup_repr X B node sroot u h \<longleftrightarrow>
     (case su_leaf u of
        None \<Rightarrow> su_prev u = None \<and> h = [] \<and> sroot = None
      | Some l \<Rightarrow> lf_Current l = node \<and> lf_Prev l = None \<and> lf_NullSeq l = null_seq h \<and> lf_State l = sroot
          \<and> (case su_prev u of
               None \<Rightarrow> h = []
             | Some t \<Rightarrow> mst_repr (view_env (vx_deps X) B) t (prev_map h) \<and> (h = [] \<longrightarrow> su_evicted u \<and> \<not> su_retained u)))"

lemma sup_repr_mono: "view_le B B' \<Longrightarrow> sup_repr X B node sroot u h \<Longrightarrow> sup_repr X B' node sroot u h"
  using mst_repr_mono [OF view_le_env] by (auto simp: sup_repr_def split: option.splits)

definition state_root :: "priorValue \<Rightarrow> cid option" where
  "state_root p = Option.bind (pv_leaf p) lf_State"

lemma prior_prev:
  assumes "sgood X content mg s" and "prior_repr X (sview X mg s) p (v # vs)"
  shows "mst_repr (senv X mg s) (case map_option LoadMST (Option.bind (pv_leaf p) lf_Prev) of None \<Rightarrow> NewEmptyMST | Some t \<Rightarrow> t) (prev_map vs)"
    and "Option.bind (pv_leaf p) lf_Prev = None \<longleftrightarrow> vs = []"
proof -
  have e: "mst_repr (senv X mg s) NewEmptyMST Map.empty" by (rule mst_repr_empty [OF sgood_sha [OF assms(1)]])
  show "mst_repr (senv X mg s) (case map_option LoadMST (Option.bind (pv_leaf p) lf_Prev) of None \<Rightarrow> NewEmptyMST | Some t \<Rightarrow> t) (prev_map vs)"
    "Option.bind (pv_leaf p) lf_Prev = None \<longleftrightarrow> vs = []"
    using assms(2) e by (cases "pv_leaf p"; auto simp: prior_repr_def leaf_repr_Cons root_repr_def split: option.splits)+
qed

lemma prior_leaf:
  assumes "prior_repr X B p (v # vs)"
  shows "pv_leaf p = None \<Longrightarrow> vs = []" and "pv_leaf p = Some l \<Longrightarrow> lf_NullSeq l = null_seq vs"
  using assms by (auto simp: prior_repr_def leaf_repr_Cons)

lemma null_seq_Nil [simp]: "null_seq [] = 0"
  by (simp add: null_seq_def)

lemma quiet_retainOrDiscard:
  assumes good: "sgood X content mg s" and p: "prior_repr X (sview X mg s) p h" and h: "hist_ok X h"
    and retain: "retain = (st_Versioning st = VersioningEnabled \<or> \<not> is_null (hd h))"
  shows "quiet X content mg s (retainOrDiscard X mg st p node) (\<lambda>u s'.
      sup_repr X (sview X mg s') node (state_root p) u (if retain then h else tl h)
      \<and> su_discards u = (if retain then [] else [discard_of (hd h)]) \<and> su_retained u = retain \<and> \<not> su_evicted u)"
proof -
  obtain v vs where hv: "h = v # vs" using p by (cases h) (auto simp: prior_repr_def)
  note pv = p [unfolded hv]
  have sup: "pv_node p = nodeOf v" "pv_mf p = v_mf v" "stored_at X (sview X mg s) v" using pv by (simp_all add: prior_repr_def)
  have v: "v_cid v \<noteq> cid_Undef" "prev_map vs (revSeqKey (v_seq v)) = None"
    using h unfolding hv by (auto simp: hist_ok_Cons version_ok_def cid_Defined_def prev_map_def at_key_None)
  have nh: "null_seq h = (if is_null v then v_seq v else null_seq vs)" "h \<noteq> []" by (simp_all add: hv)
  note t = prior_prev [OF good pv] and leaf = prior_leaf [OF pv]
  show ?thesis
  proof (cases retain)
    case True
    then have c: "st_Versioning st = VersioningEnabled \<or> vn_VersionID (nodeOf v) \<noteq> NullVersionID" using retain hv by (simp add: nodeOf_def)
    show ?thesis unfolding retainOrDiscard_def Let_def sup(1) if_P [OF c]
    proof (rule quiet_bind, rule quiet_tree [OF good])
      fix t' assume "mst_Add mst_fuel (senv X mg s) (case map_option LoadMST (Option.bind (pv_leaf p) lf_Prev) of None \<Rightarrow> NewEmptyMST | Some t \<Rightarrow> t)
          (revSeqKey (vn_Seq (nodeOf v))) (vn_Manifest (nodeOf v)) (- 1) = Inr t'"
      then show "mst_repr (senv X mg s) t' (prev_map h)"
        using tree.add_refines [OF t(1), of "revSeqKey (v_seq v)" "v_cid v"] v(1,2) hv by (auto simp: nodeOf_def map_Add_def)
    qed (use True nh leaf in \<open>auto intro!: quiet_return simp: sup_repr_def newLeafAt_def nodeOf_def state_root_def onto_def split: option.split\<close>)
  next
    case False
    then have c: "\<not> (st_Versioning st = VersioningEnabled \<or> vn_VersionID (nodeOf v) \<noteq> NullVersionID)" using retain hv by (simp add: nodeOf_def)
    show ?thesis unfolding retainOrDiscard_def Let_def sup(1,2) if_not_P [OF c]
    proof (rule quiet_bind, rule quiet_view [OF good])
      fix ds assume "blockE (bodyDigests (vx_values X) (sview X mg s) (mf_Body (v_mf v))) = Inr ds"
      then show "ds = v_digests v" using sup(3) by (simp add: blockE_def stored_at_def)
    next
      fix ds s' assume s': "onto X content mg s s'" "ds = v_digests v"
      have "mst_repr (senv X mg s') (case map_option LoadMST (Option.bind (pv_leaf p) lf_Prev) of None \<Rightarrow> NewEmptyMST | Some t \<Rightarrow> t) (prev_map vs)"
        by (rule mst_repr_mono [OF onto_env [OF s'(1)] t(1)])
      then show "quiet X content mg s' (bindA (gcA (vn_Manifest (nodeOf v))) (\<lambda>_. returnA \<lparr> su_leaf = map_option (\<lambda>l. \<lparr> lf_Current = node, lf_Prev = None, lf_NullSeq = lf_NullSeq l, lf_State = lf_State l \<rparr>) (pv_leaf p),
          su_prev = map_option LoadMST (Option.bind (pv_leaf p) lf_Prev),
          su_discards = [\<lparr> dv_versionID = vn_VersionID (nodeOf v), dv_seq = vn_Seq (nodeOf v), dv_digests = ds, dv_manifest = vn_Manifest (nodeOf v) \<rparr>],
          su_retained = False, su_evicted = False \<rparr>)) (\<lambda>u s'.
            sup_repr X (sview X mg s') node (state_root p) u (if retain then h else tl h)
            \<and> su_discards u = (if retain then [] else [discard_of (hd h)]) \<and> su_retained u = retain \<and> \<not> su_evicted u)"
        using False hv leaf t(2) s'(2) onto_good [OF s'(1)]
        by (intro quiet_bind [OF quiet_gc [where Q = "\<lambda>_ s''. vs_tx s'' = vs_tx s'"]]; cases "pv_leaf p";
          auto intro!: quiet_return simp: sup_repr_def nodeOf_def state_root_def discard_of_def onto_def split: option.split)
    qed
  qed
qed

text \<open>The noncurrent null version, in the tree under the ordinal the leaf records.\<close>

lemma null_entry:
  assumes "hist_ok X h" and "null_seq h \<noteq> 0"
  obtains w where "w \<in> set h" and "is_null w" and "v_seq w = null_seq h" and "at_key h (revSeqKey (null_seq h)) = Some w"
    and "filter is_null h = [w]"
proof -
  obtain w where w: "w \<in> set h" "is_null w" using null_seq_iff(1) [OF assms(1)] assms(2) by blast
  then have "v_seq w = null_seq h" using null_seq_iff(2) [OF assms(1)] by blast
  moreover then have "at_key h (revSeqKey (null_seq h)) = Some w" using w at_key_mem [OF assms(1)] by blast
  moreover have "filter is_null h = [w]" using filter_null [OF assms(1)] find_id_mem [OF assms(1), of NullVersionID w] w by simp
  ultimately show thesis using that w by blast
qed

lemma quiet_del:
  assumes "sgood X content mg s" and "mst_repr (senv X mg s) t M" and "M k \<noteq> None"
    and "\<And>t'. mst_repr (senv X mg s) t' (M(k := None)) \<Longrightarrow> Q t' s"
  shows "quiet X content mg s (treeA X mg (\<lambda>E. mst_Delete mst_fuel E t k)) Q"
proof (rule quiet_tree [OF assms(1)])
  fix t' assume "mst_Delete mst_fuel (senv X mg s) t k = Inr t'"
  then show "Q t' s" using tree.del_refines [OF assms(2), of k] assms(3,4) by (auto simp: map_Delete_def)
qed

lemma quiet_evictNull:
  assumes good: "sgood X content mg s" and u: "sup_repr X (sview X mg s) node sroot u h" and h: "hist_ok X h"
    and stored: "\<forall>w \<in> set h. stored_at X (sview X mg s) w" and some: "su_retained u \<Longrightarrow> kept vid h \<noteq> []" and ev: "\<not> su_evicted u"
  shows "quiet X content mg s (evictNull X mg vid u) (\<lambda>u' s'. sup_repr X (sview X mg s') node sroot u' (kept vid h)
      \<and> su_discards u' = su_discards u @ map discard_of (gone vid h))"
proof (cases "vid = NullVersionID \<and> null_seq h \<noteq> 0")
  case False
  then have "kept vid h = h" "gone vid h = []"
    using null_seq_iff(1) [OF h] by (auto simp: kept_def gone_def filter_empty_conv intro: filter_True)
  moreover have "evictNull X mg vid u = returnA u"
    using False u by (auto simp: evictNull_def sup_repr_def split: option.splits)
  ultimately show ?thesis using u good by (simp add: quiet_return)
next
  case True
  then obtain w where w: "w \<in> set h" "is_null w" "v_seq w = null_seq h" "at_key h (revSeqKey (null_seq h)) = Some w" "filter is_null h = [w]"
    using null_entry [OF h] by blast
  obtain l t where l: "su_leaf u = Some l" "su_prev u = Some t" "lf_NullSeq l = null_seq h" "lf_Current l = node" "lf_Prev l = None" "lf_State l = sroot"
      and t: "mst_repr (senv X mg s) t (prev_map h)"
    using u w(1) by (auto simp: sup_repr_def split: option.splits)
  have kept: "kept vid h = drop_version (null_seq h) h" "gone vid h = [w]" using True w(5) kept_drop [OF h] by (simp_all add: kept_def gone_def)
  have get: "mst_Get mst_fuel (senv X mg s) t (revSeqKey (null_seq h)) = Inr (v_cid w)"
    using tree.get_refines [OF t] w(4) by (simp add: map_Get_def lookup_result_def prev_map_def)
  have disc: "discard_of w = \<lparr> dv_versionID = NullVersionID, dv_seq = null_seq h, dv_digests = v_digests w, dv_manifest = v_cid w \<rparr>"
    using w(2,3) by (simp add: discard_of_def)
  have nz: "null_seq (kept vid h) = 0" unfolding null_seq_iff(1) [OF hist_ok_kept [OF h]] using True by (simp add: kept_def)
  have st: "stored_at X (sview X mg s) w" using stored w(1) by blast
  have fin: "sup_repr X (sview X mg s') node sroot (u\<lparr> su_leaf := Some (l\<lparr> lf_NullSeq := 0 \<rparr>), su_prev := Some t', su_evicted := True, su_discards := ds \<rparr>) (kept vid h)"
    if "mst_repr (senv X mg s') t' (prev_map (kept vid h))" for s' t' ds
    using that l(4-6) nz some by (auto simp: sup_repr_def)
  have key: "prev_map h (revSeqKey (null_seq h)) \<noteq> None" using w(4) by (simp add: prev_map_def)
  have drop: "(prev_map h)(revSeqKey (null_seq h) := None) = prev_map (kept vid h)" by (simp add: kept(1) prev_map_drop)
  show ?thesis unfolding evictNull_def l(1) option.case l(3) if_P [OF True] Let_def l(2)
    apply (rule quiet_bind, rule quiet_view [OF good, where Q = "\<lambda>r s'. r = Some (v_cid w, v_digests w) \<and> s' = s"])
    subgoal using st by (simp add: get blockE_def stored_at_def)
    subgoal for r s'
      apply simp
      apply (rule quiet_bind, rule quiet_del [OF good t key, where Q = "\<lambda>t' s'. mst_repr (senv X mg s') t' (prev_map (kept vid h))"])
      subgoal by (simp add: drop)
      subgoal for t' s2
        by (rule quiet_bind, rule quiet_gc [where Q = "\<lambda>_ s''. vs_tx s'' = vs_tx s2"])
          (use fin kept(2) disc in \<open>auto intro!: quiet_return dest: onto_good\<close>)
      done
    done
qed

lemma quiet_supersede:
  assumes good: "sgood X content mg s" and prior: "rel_option (prior_repr X (sview X mg s)) prior ho"
    and hist: "\<And>h. ho = Some h \<Longrightarrow> hist_ok X h" and vid: "st_Versioning st = VersioningEnabled \<longleftrightarrow> vid \<noteq> NullVersionID"
    and h: "h = (case ho of None \<Rightarrow> [] | Some h \<Rightarrow> h)"
  shows "quiet X content mg s (supersede X mg st prior node vid) (\<lambda>u s'.
      sup_repr X (sview X mg s') node (Option.bind prior state_root) u (kept vid h) \<and> su_discards u = map discard_of (gone vid h))"
proof (cases prior)
  case None
  then have "h = []" using prior h by (cases ho) auto
  then show ?thesis using None good by (simp add: supersede_def quiet_return sup_repr_def kept_def gone_def)
next
  case (Some p)
  then have p: "prior_repr X (sview X mg s) p h" "hist_ok X h" using prior hist h by (cases ho; simp)+
  obtain v vs where hv: "h = v # vs" using p(1) by (cases h) (auto simp: prior_repr_def)
  define retain where "retain = (st_Versioning st = VersioningEnabled \<or> \<not> is_null v)"
  define h1 where "h1 = (if retain then h else vs)"
  have nn: "filter is_null vs = [] \<and> filter (\<lambda>w. \<not> is_null w) vs = vs" if "is_null v"
    using p(2) that unfolding hv hist_ok_Cons by (auto simp: filter_empty_conv intro: filter_True)
  have h1: "kept vid h1 = kept vid h" "(if retain then [] else [discard_of v]) @ map discard_of (gone vid h1) = map discard_of (gone vid h)"
      "retain \<Longrightarrow> kept vid h1 \<noteq> []" "hist_ok X h1" "set h1 \<subseteq> set h"
    using vid nn p(2) by (auto simp: h1_def retain_def kept_def gone_def hv hist_ok_Cons)
  have stored: "\<forall>w \<in> set h1. stored_at X (sview X mg s) w" using p(1) h1(5) by (auto simp: prior_repr_def)
  have h1e: "h1 = (if retain then h else tl h)" by (simp add: h1_def hv)
  have hd: "retain = (st_Versioning st = VersioningEnabled \<or> \<not> is_null (hd h))" by (simp add: retain_def hv)
  show ?thesis unfolding supersede_def Some option.case Option.bind.bind_lunit
    apply (rule quiet_bind [OF quiet_retainOrDiscard [OF good p hd, of node]])
    subgoal for u s1
      apply (rule quiet_bind [OF quiet_evictNull [where h = h1 and node = node and sroot = "state_root p"]])
      subgoal by (erule onto_good)
      subgoal by (simp only: h1e)
      subgoal by (rule h1(4))
      subgoal using stored by (blast dest: onto_view stored_at_mono)
      subgoal using h1(3) by simp
      subgoal by simp
      subgoal for u' s2
        apply (rule quiet_weaken [where Q = "\<lambda>u2 s3. u2 = u' \<and> vs_tx s3 = vs_tx s2"])
        subgoal by (auto intro!: quiet_return quiet_bind [OF quiet_gc [where Q = "\<lambda>_ s''. vs_tx s'' = vs_tx s2"]] dest: onto_good)
        subgoal using h1(1,2) by (auto simp: hv)
        done
      done
    done
qed

lemma quiet_setPrev:
  assumes good: "sgood X content mg s" and u: "sup_repr X (sview X mg s) node sroot u h"
  shows "quiet X content mg s (setPrev X mg u) (\<lambda>lf s'. case lf of None \<Rightarrow> h = [] \<and> sroot = None
      | Some l \<Rightarrow> lf_Current l = node \<and> lf_NullSeq l = null_seq h \<and> lf_State l = sroot \<and> root_repr (senv X mg s') (lf_Prev l) (prev_map h))"
proof (cases "su_prev u")
  case None
  then show ?thesis using u good by (cases "su_leaf u") (auto intro!: quiet_return simp: setPrev_def sup_repr_def root_repr_def)
next
  case (Some t)
  then obtain l where l: "su_leaf u = Some l" "lf_Current l = node" "lf_Prev l = None" "lf_NullSeq l = null_seq h" "lf_State l = sroot"
      and t: "mst_repr (senv X mg s) t (prev_map h)" "h = [] \<Longrightarrow> su_evicted u \<and> \<not> su_retained u"
    using u by (auto simp: sup_repr_def split: option.splits)
  show ?thesis unfolding setPrev_def Some option.case l(1)
    apply (rule quiet_bind [where Q = "\<lambda>e s'. e = (h = [])"])
    subgoal using t good by (auto intro!: quiet_return quiet_tree simp: mstEmpty_repr)
    subgoal for e s'
      using l t(1) onto_good [of X content mg s s'] onto_env [of X content mg s s'] prev_map_valid
      by (auto intro!: quiet_return quiet_bind [OF quiet_pointer [where M = "prev_map h" and Q = "\<lambda>c s''. sgood X content mg s'' \<and> mst_repr (senv X mg s'') (LoadMST c) (prev_map h)"]]
        mst_repr_mono [OF _ t(1)] simp: root_repr_def dest: onto_good)
    done
qed

section \<open>Version state\<close>

lemma root_load:
  assumes "root_repr E r M" and "sha_ok E"
  shows "mst_repr E (case r of None \<Rightarrow> NewEmptyMST | Some c \<Rightarrow> LoadMST c) M"
  using assms mst_repr_empty [OF assms(2)] by (cases r) (auto simp: root_repr_def)

text \<open>A tree is written out as its root, nil when it is empty.\<close>

lemma quiet_rootOf:
  assumes "sgood X content mg s" and "mst_repr (senv X mg s) t M" and "\<forall>k \<in> dom M. IsValidKey k"
  shows "quiet X content mg s (bindA (treeA X mg (\<lambda>E. mstEmpty E t)) (\<lambda>empty.
      if empty then returnA None else bindA (pointerA X mg t) (\<lambda>root. returnA (Some root)))) (\<lambda>r s'. root_repr (senv X mg s') r M)"
  apply (rule quiet_bind [OF quiet_tree [OF assms(1), where Q = "\<lambda>e s'. e = (M = Map.empty) \<and> s' = s"]])
  subgoal using mstEmpty_repr [OF assms(2)] by simp
  subgoal for e s'
    by (auto intro!: quiet_return assms(1) quiet_bind [OF quiet_pointer [OF assms, where Q = "\<lambda>c s''. sgood X content mg s'' \<and> mst_repr (senv X mg s'') (LoadMST c) M"]]
      simp: root_repr_def dest: onto_good)
  done

definition states_in :: "version_env \<Rightarrow> block_view \<Rightarrow> kv_map \<Rightarrow> history \<Rightarrow> bool" where
  "states_in X B S h \<longleftrightarrow> (\<forall>k. rel_option (\<lambda>c s. getState (vx_values X) B c = Inr s) (S k) (state_map h k))"

lemma states_repr_in: "states_repr X B r h \<longleftrightarrow> (\<exists>S. root_repr (view_env (vx_deps X) B) r S \<and> states_in X B S h)"
  by (simp add: states_repr_def states_in_def)

lemma states_in_mono:
  assumes "view_le B B'" and "states_in X B S h"
  shows "states_in X B' S h"
  unfolding states_in_def
proof
  fix k
  show "rel_option (\<lambda>c s. getState (vx_values X) B' c = Inr s) (S k) (state_map h k)"
    by (rule option.rel_mono_strong [OF assms(2) [unfolded states_in_def, rule_format]]) (rule getState_mono [OF assms(1)])
qed

lemma states_in_valid: "states_in X B S h \<Longrightarrow> \<forall>k \<in> dom S. IsValidKey k"
proof
  fix k assume "states_in X B S h" "k \<in> dom S"
  then have "state_map h k \<noteq> None" by (cases "state_map h k") (auto simp: states_in_def dest!: spec [of _ k])
  then show "IsValidKey k" by (rule state_map_valid)
qed

lemma states_in_drop: "states_in X B S h \<Longrightarrow> states_in X B (S(revSeqKey seq := None)) (drop_version seq h)"
  by (simp add: states_in_def state_map_drop)

lemma quiet_pruneEntry:
  assumes good: "sgood X content mg s" and t: "mst_repr (senv X mg s) t S" and st: "states_in X (sview X mg s) S h" and sc: "S (revSeqKey seq) = Some sc"
  shows "quiet X content mg s (bindA (gcA sc) (\<lambda>_. bindA (treeA X mg (\<lambda>E. mst_Delete mst_fuel E t (revSeqKey seq))) (\<lambda>t.
      bindA (treeA X mg (\<lambda>E. mstEmpty E t)) (\<lambda>empty. if empty then returnA None else bindA (pointerA X mg t) (\<lambda>root. returnA (Some root))))))
    (\<lambda>r' s'. states_repr X (sview X mg s') r' (drop_version seq h))"
  apply (rule quiet_bind [OF quiet_gc [OF good, where Q = "\<lambda>_ s1. vs_tx s1 = vs_tx s"]], assumption)
  subgoal for x s1
    apply (rule quiet_bind [OF quiet_del [where M = S and Q = "\<lambda>t' s2. mst_repr (senv X mg s2) t' (S(revSeqKey seq := None)) \<and> vs_tx s2 = vs_tx s"]])
    subgoal by (erule onto_good)
    subgoal using t by simp
    subgoal using sc by simp
    subgoal by simp
    subgoal for t' s2
      apply (rule quiet_weaken [OF quiet_rootOf [where M = "S(revSeqKey seq := None)"]])
      subgoal by (erule onto_good)
      subgoal by blast
      subgoal by (rule states_in_valid [OF states_in_drop [OF st]])
      subgoal for r' s3 using states_in_mono [OF _ states_in_drop [OF st]] onto_view [of X content mg s2 s3] by (auto simp: states_repr_in)
      done
    done
  done

lemma quiet_pruneVersionState:
  assumes good: "sgood X content mg s" and st: "states_repr X (sview X mg s) r h"
  shows "quiet X content mg s (pruneVersionState X mg r seq) (\<lambda>r' s'. states_repr X (sview X mg s') r' (drop_version seq h))"
proof -
  obtain S where S: "root_repr (senv X mg s) r S" "states_in X (sview X mg s) S h" using st unfolding states_repr_in by blast
  note d = states_in_drop [OF S(2), of seq]
  show ?thesis
  proof (cases "S (revSeqKey seq)")
    case None
    then have "S(revSeqKey seq := None) = S" by (simp add: fun_upd_idem)
    then have fin: "states_repr X (sview X mg s) r (drop_version seq h)" using S(1) d by (auto simp: states_repr_in)
    show ?thesis
    proof (cases r)
      case (Some c)
      have "mst_Get mst_fuel (tx_reader (vx_deps X) mg (vs_tx s)) (LoadMST c) (revSeqKey seq) = Inl ErrNotFound"
        using tree.get_refines [of "senv X mg s" "LoadMST c" S] S(1) Some None by (simp add: map_Get_def tx_reader_view lookup_result_def root_repr_def)
      then show ?thesis unfolding pruneVersionState_def Some option.case
        by (intro quiet_bind [OF quiet_read [OF good, where Q = "\<lambda>e s'. e = None \<and> s' = s"]]) (use fin Some good in \<open>auto intro: quiet_return\<close>)
    qed (use fin good in \<open>simp add: pruneVersionState_def quiet_return\<close>)
  next
    case (Some sc)
    then obtain c where c: "r = Some c" "mst_repr (senv X mg s) (LoadMST c) S" using S(1) by (cases r) (auto simp: root_repr_def)
    have "mst_Get mst_fuel (tx_reader (vx_deps X) mg (vs_tx s)) (LoadMST c) (revSeqKey seq) = Inr sc"
      using tree.get_refines [OF c(2)] Some by (simp add: map_Get_def tx_reader_view lookup_result_def)
    then show ?thesis unfolding pruneVersionState_def c(1) option.case
      by (intro quiet_bind [OF quiet_read [OF good, where Q = "\<lambda>e s'. e = Some sc \<and> s' = s"]])
        (use quiet_pruneEntry [OF good c(2) S(2) Some] in auto)
  qed
qed

lemma quiet_pruneAll:
  "sgood X content mg s \<Longrightarrow> states_repr X (sview X mg s) r h \<Longrightarrow>
   quiet X content mg s (pruneAll X mg ds r) (\<lambda>r' s'. states_repr X (sview X mg s') r' (fold (\<lambda>d. drop_version (dv_seq d)) ds h))"
proof (induction ds arbitrary: s r h)
  case Nil
  then show ?case by (simp add: quiet_return)
next
  case (Cons d ds)
  show ?case unfolding pruneAll.simps
    by (rule quiet_bind [OF quiet_pruneVersionState [OF Cons.prems]]) (use Cons.IH onto_good in fastforce)
qed

lemma fold_drop_gone:
  assumes "hist_ok X h"
  shows "fold (\<lambda>d. drop_version (dv_seq d)) (map discard_of (gone vid h)) h = kept vid h"
proof (cases "vid = NullVersionID \<and> null_seq h \<noteq> 0")
  case True
  then obtain w where "v_seq w = null_seq h" "filter is_null h = [w]" using null_entry [OF assms] by blast
  then show ?thesis using True kept_drop [OF assms] by (simp add: gone_def kept_def discard_of_def)
next
  case False
  then show ?thesis using null_seq_iff(1) [OF assms] by (auto simp: gone_def kept_def filter_empty_conv intro: filter_True [symmetric])
qed

lemma states_in_push:
  assumes "states_in X B S h" and "at_key h (revSeqKey (v_seq v)) = None"
  shows "S (revSeqKey (v_seq v)) = None" and "v_state v = None \<Longrightarrow> states_in X B S (v # h)"
    and "v_state v = Some st \<Longrightarrow> getState (vx_values X) B c = Inr st \<Longrightarrow> states_in X B (S(revSeqKey (v_seq v) \<mapsto> c)) (v # h)"
proof -
  have m: "state_map h (revSeqKey (v_seq v)) = None" using assms(2) by (simp add: state_map_def)
  then show n: "S (revSeqKey (v_seq v)) = None" using assms(1) unfolding states_in_def by (metis rel_option_None1 option.rel_flip)
  show "states_in X B S (v # h)" if "v_state v = None" using assms(1) n that by (simp add: states_in_def state_map_Cons)
  show "states_in X B (S(revSeqKey (v_seq v) \<mapsto> c)) (v # h)" if "v_state v = Some st" "getState (vx_values X) B c = Inr st"
    using assms(1) that by (simp add: states_in_def state_map_Cons)
qed

abbreviation leaf_base :: "VersionNode \<Rightarrow> ObjectLeaf option \<Rightarrow> ObjectLeaf" where
  "leaf_base node leaf \<equiv> (case leaf of None \<Rightarrow> newLeafAt node | Some l \<Rightarrow> l)"

lemma quiet_stampState:
  assumes good: "sgood X content mg s" and st: "states_repr X (sview X mg s) (lf_State (leaf_base (nodeOf v) leaf)) h"
    and fresh: "at_key h (revSeqKey (v_seq v)) = None" and init: "v_state v = initState"
  shows "quiet X content mg s (stampState X mg (nodeOf v) initState leaf) (\<lambda>lf s'. (lf = None \<longrightarrow> leaf = None \<and> initState = None)
      \<and> (\<forall>l. lf = Some l \<longrightarrow> (\<exists>r. l = (leaf_base (nodeOf v) leaf)\<lparr> lf_State := r \<rparr> \<and> states_repr X (sview X mg s') r (v # h))))"
proof -
  obtain S where S: "root_repr (senv X mg s) (lf_State (leaf_base (nodeOf v) leaf)) S" "states_in X (sview X mg s) S h" using st unfolding states_repr_in by blast
  note push = states_in_push [OF S(2) fresh]
  show ?thesis
  proof (cases initState)
    case None
    then show ?thesis using S push(2) init good by (cases leaf) (auto intro!: quiet_return exI simp: stampState_def states_repr_in)
  next
    case (Some st)
    let ?t = "case lf_State (leaf_base (nodeOf v) leaf) of None \<Rightarrow> NewEmptyMST | Some r \<Rightarrow> LoadMST r"
    note t = root_load [OF S(1) sgood_sha [OF good]]
    let ?S = "\<lambda>c. S(revSeqKey (v_seq v) \<mapsto> c)"
    show ?thesis unfolding stampState_def Some option.case Let_def
      apply (rule quiet_bind [OF quiet_putState [OF good, where Q = "\<lambda>c s1. onto X content mg s s1 \<and> getState (vx_values X) (sview X mg s1) c = Inr st \<and> cid_Defined c"]], blast)
      subgoal for c s1
        apply (rule quiet_bind [OF quiet_tree [where Q = "\<lambda>t' s2. mst_repr (senv X mg s2) t' (?S c) \<and> s2 = s1"]])
        subgoal by (erule onto_good)
        subgoal premises p for t'
        proof -
          have "mst_repr (senv X mg s1) ?t S" by (rule mst_repr_mono [OF onto_env [OF p(1)] t])
          then show ?thesis using tree.add_refines [of "senv X mg s1" ?t S "revSeqKey (v_seq v)" c] push(1) p(3,4)
            by (auto simp: nodeOf_def map_Add_def cid_Defined_def)
        qed
        subgoal for t' s2
          apply (rule quiet_bind [OF quiet_pointer [where M = "?S c" and Q = "\<lambda>r s3. onto X content mg s1 s3 \<and> mst_repr (senv X mg s3) (LoadMST r) (?S c)"]])
          subgoal by (erule onto_good)
          subgoal by blast
          subgoal using states_in_valid [OF S(2)] by auto
          subgoal by blast
          subgoal premises p for r s3
          proof -
            have o: "onto X content mg s1 s3" "onto X content mg s s3" using p(3,7,9) onto_trans by blast+
            have "states_in X (sview X mg s3) (?S c) (v # h)"
              using states_in_push(3) [OF states_in_mono [OF onto_view [OF o(2)] S(2)] fresh] getState_mono [OF onto_view [OF o(1)]] p(3) init Some by blast
            then have "states_repr X (sview X mg s3) (Some r) (v # h)" using p(9) by (auto simp: states_repr_in root_repr_def intro!: exI [of _ "?S c"])
            then show ?thesis using onto_good [OF o(1)] by (auto intro!: quiet_return)
          qed
          done
        done
      done
  qed
qed

lemma states_repr_none: "state_map h = Map.empty \<Longrightarrow> states_repr X B None h"
  by (simp add: states_repr_in root_repr_def states_in_def)

lemma state_map_Nil [simp]: "state_map [] = Map.empty"
  by (simp add: state_map_def fun_eq_iff)

lemma prior_states:
  assumes "rel_option (prior_repr X B) prior ho" and "h = (case ho of None \<Rightarrow> [] | Some h \<Rightarrow> h)"
  shows "states_repr X B (Option.bind prior state_root) h"
proof (cases prior)
  case None
  then show ?thesis using assms by (cases ho) (auto intro: states_repr_none)
next
  case (Some p)
  then have p: "prior_repr X B p h" using assms by (cases ho) auto
  then obtain v vs where hv: "h = v # vs" by (cases h) (auto simp: prior_repr_def)
  show ?thesis
  proof (cases "pv_leaf p")
    case None
    then show ?thesis using p Some hv by (auto simp: state_root_def prior_repr_def state_map_Cons intro!: states_repr_none)
  next
    case (Some l)
    then have "leaf_repr X B l (v # vs)" using p hv by (simp add: prior_repr_def)
    then show ?thesis using Some \<open>prior = Some p\<close> hv by (simp add: state_root_def leaf_repr_Cons)
  qed
qed

lemma quiet_maintainState:
  assumes good: "sgood X content mg s" and h: "hist_ok X h"
    and leaf: "case leaf of None \<Rightarrow> kept vid h = [] | Some l \<Rightarrow> states_repr X (sview X mg s) (lf_State l) h"
    and fresh: "at_key (kept vid h) (revSeqKey (v_seq v)) = None" and init: "v_state v = initState"
  shows "quiet X content mg s (maintainState X mg (nodeOf v) (map discard_of (gone vid h)) initState leaf) (\<lambda>lf s'.
      (lf = None \<longrightarrow> leaf = None \<and> initState = None)
      \<and> (\<forall>l. lf = Some l \<longrightarrow> (\<exists>r. l = (leaf_base (nodeOf v) leaf)\<lparr> lf_State := r \<rparr> \<and> states_repr X (sview X mg s') r (v # kept vid h))))"
  unfolding maintainState_def
proof (cases leaf)
  case None
  then have "states_repr X (sview X mg s) (lf_State (leaf_base (nodeOf v) None)) (kept vid h)"
    using leaf by (simp add: newLeafAt_def states_repr_none)
  note stamp = quiet_stampState [OF good this fresh init]
  show "quiet X content mg s (bindA (case leaf of None \<Rightarrow> returnA None | Some l \<Rightarrow> bindA (pruneAll X mg (map discard_of (gone vid h)) (lf_State l)) (\<lambda>root. returnA (Some (l\<lparr> lf_State := root \<rparr>))))
      (stampState X mg (nodeOf v) initState)) (\<lambda>lf s'. (lf = None \<longrightarrow> leaf = None \<and> initState = None)
      \<and> (\<forall>l. lf = Some l \<longrightarrow> (\<exists>r. l = (leaf_base (nodeOf v) leaf)\<lparr> lf_State := r \<rparr> \<and> states_repr X (sview X mg s') r (v # kept vid h))))"
    unfolding None option.case using stamp good
    by (intro quiet_bind [OF quiet_return [where Q = "\<lambda>lf s'. lf = None \<and> s' = s"]]) auto
next
  case (Some l)
  let ?Q = "\<lambda>lf s'. \<exists>r. lf = Some (l\<lparr> lf_State := r \<rparr>) \<and> states_repr X (sview X mg s') r (kept vid h)"
  have st: "states_repr X (sview X mg s) (lf_State l) h" using leaf Some by simp
  have prune: "quiet X content mg s (bindA (pruneAll X mg (map discard_of (gone vid h)) (lf_State l)) (\<lambda>root. returnA (Some (l\<lparr> lf_State := root \<rparr>)))) ?Q"
    by (rule quiet_bind [OF quiet_pruneAll [OF good st]]) (auto intro!: quiet_return dest: onto_good simp: fold_drop_gone [OF h])
  show "quiet X content mg s (bindA (case leaf of None \<Rightarrow> returnA None | Some l \<Rightarrow> bindA (pruneAll X mg (map discard_of (gone vid h)) (lf_State l)) (\<lambda>root. returnA (Some (l\<lparr> lf_State := root \<rparr>))))
      (stampState X mg (nodeOf v) initState)) (\<lambda>lf s'. (lf = None \<longrightarrow> leaf = None \<and> initState = None)
      \<and> (\<forall>l. lf = Some l \<longrightarrow> (\<exists>r. l = (leaf_base (nodeOf v) leaf)\<lparr> lf_State := r \<rparr> \<and> states_repr X (sview X mg s') r (v # kept vid h))))"
    unfolding Some option.case
  proof (rule quiet_bind [OF prune])
    fix lf s' assume s': "onto X content mg s s'" "?Q lf s'"
    then obtain r where r: "lf = Some (l\<lparr> lf_State := r \<rparr>)" "states_repr X (sview X mg s') r (kept vid h)" by blast
    then have "states_repr X (sview X mg s') (lf_State (leaf_base (nodeOf v) lf)) (kept vid h)" by simp
    note stamp = quiet_stampState [OF onto_good [OF s'(1)] this fresh init]
    show "quiet X content mg s' (stampState X mg (nodeOf v) initState lf) (\<lambda>lf s'. (lf = None \<longrightarrow> Some l = None \<and> initState = None)
        \<and> (\<forall>l'. lf = Some l' \<longrightarrow> (\<exists>r. l' = l\<lparr> lf_State := r \<rparr> \<and> states_repr X (sview X mg s') r (v # kept vid h))))"
      by (rule quiet_weaken [OF stamp]) (auto simp: r(1))
  qed
qed

section \<open>The new value\<close>

lemma quiet_writeValue:
  assumes good: "sgood X content mg s" and t: "mst_repr (senv X mg s) t M"
    and mani: "leaf = None \<Longrightarrow> key_repr X (sview X mg s) mfCid h" and lf: "\<And>l. leaf = Some l \<Longrightarrow> leaf_repr X (sview X mg s) l h"
  shows "quiet X content mg s (writeValue X mg t key there mfCid leaf) (\<lambda>t' s'. \<exists>c. mst_repr (senv X mg s') t' (M(key \<mapsto> c)) \<and> IsValidKey key \<and> key_repr X (sview X mg s') c h)"
  unfolding writeValue_def
proof (rule quiet_bind)
  show "quiet X content mg s (case leaf of None \<Rightarrow> returnA mfCid | Some l \<Rightarrow> putA (EnvelopedLeaf_Marshal (vx_values X) l)) (\<lambda>c s'. key_repr X (sview X mg s') c h)"
  proof (cases leaf)
    case (Some l)
    show ?thesis unfolding Some option.case
      by (rule quiet_putLeaf [OF good]) (use leaf_repr_mono [OF onto_view lf [OF Some]] in \<open>auto simp: key_repr_def\<close>)
  qed (use good mani in \<open>auto intro: quiet_return\<close>)
next
  fix c s' assume s': "onto X content mg s s'" "key_repr X (sview X mg s') c h"
  note t' = mst_repr_mono [OF onto_env [OF s'(1)] t]
  show "quiet X content mg s' (treeA X mg (\<lambda>E. if there then mst_Update mst_fuel E t key c else mst_Add mst_fuel E t key c (- 1)))
      (\<lambda>t' s'. \<exists>c. mst_repr (senv X mg s') t' (M(key \<mapsto> c)) \<and> IsValidKey key \<and> key_repr X (sview X mg s') c h)"
    using tree.add_refines [OF t', of key c] tree.upd_refines [OF t', of key c] s'(2)
    by (intro quiet_tree [OF onto_good [OF s'(1)]]) (auto simp: map_Add_def map_Update_def split: if_splits)
qed

end
