(* ===== verification/S3_VersionCommit.thy ===== *)
theory S3_VersionCommit
  imports S3_VersionWrite
begin

text \<open>
  The write rule as a whole: a commit that succeeds has put its version at the head of the key's history and
  nothing else has changed; the rows it carries claim the digests of the new version and drop those of the
  versions that left the history.
\<close>

section \<open>Version ids\<close>

text \<open>What is known of the ULID library: the text of an id parses back to it, and has 26 characters, as every
  text that parses.\<close>

definition ulid_ok :: "version_env \<Rightarrow> bool" where
  "ulid_ok X \<longleftrightarrow> (\<forall>i. length i = 16 \<longrightarrow> vx_ulid_ParseStrict X (vx_ulid_String X i) = Inr i)
     \<and> (\<forall>t i. vx_ulid_ParseStrict X t = Inr i \<longrightarrow> length t = 26)"

lemma classify_mint:
  assumes "ulid_ok X" and "length tm = 6"
  shows "classifyVersionID X (mintVersionID X tm seq) = (versionKindToken, seq)"
proof -
  let ?i = "tm @ [CHR 0x00, CHR 0x00] @ beBytes 8 (unat seq)"
  have p: "vx_ulid_ParseStrict X (vx_ulid_String X ?i) = Inr ?i" using assms unfolding ulid_ok_def by simp
  then have "length (vx_ulid_String X ?i) = 26" using assms(1) unfolding ulid_ok_def by blast
  then have "vx_ulid_String X ?i \<noteq> '''' \<and> vx_ulid_String X ?i \<noteq> NullVersionID" by (auto simp: NullVersionID_def)
  moreover have "be (beBytes 8 (unat seq)) = unat seq" using unsigned_less [of seq] by (intro be_beBytes) simp
  ultimately show ?thesis using p assms(2) by (simp add: classifyVersionID_def mintVersionID_def)
qed

text \<open>An ordinal and an id a version may be given.\<close>

definition id_for :: "version_env \<Rightarrow> VersioningState \<Rightarrow> string \<Rightarrow> seqno \<Rightarrow> bool" where
  "id_for X vs vid seq \<longleftrightarrow> 0 < seq \<and> (vs = VersioningEnabled \<longleftrightarrow> vid \<noteq> NullVersionID)
     \<and> (vid = NullVersionID \<or> classifyVersionID X vid = (versionKindToken, seq))"

text \<open>A reservation: an id for an ordinal that was drawn and that no version of the bucket has.\<close>

definition all_versions :: "(string \<rightharpoonup> history) \<Rightarrow> version set" where
  "all_versions H = {v. \<exists>k h. H k = Some h \<and> v \<in> set h}"

definition reservation_ok :: "version_env \<Rightarrow> (string \<rightharpoonup> history) \<Rightarrow> MemStore \<Rightarrow> string \<Rightarrow> versionReservation \<Rightarrow> bool" where
  "reservation_ok X H m bucket r \<longleftrightarrow> (rs_VersionID r \<noteq> '''' \<longrightarrow> 0 < rs_Seq r \<and> rs_Seq r \<le> lastSeq m bucket
     \<and> classifyVersionID X (rs_VersionID r) = (versionKindToken, rs_Seq r) \<and> (\<forall>v \<in> all_versions H. v_seq v \<noteq> rs_Seq r))"

lemma quiet_chooseVersion:
  assumes good: "sgood X content mg s" and ulid: "ulid_ok X" "length tm = 6" and ctr: "lastSeq (vs_reg s) (st_Name st) \<noteq> - 1"
    and res: "\<And>r. reserved = Some r \<Longrightarrow> reservation_ok X H (vs_reg s) (st_Name st) r"
    and bound: "\<forall>v \<in> all_versions H. v_seq v \<le> lastSeq (vs_reg s) (st_Name st)"
  shows "quiet X content mg s (chooseVersion X tm st reserved) (\<lambda>(seq, vid) s'. vs_tx s' = vs_tx s \<and> id_for X (st_Versioning st) vid seq
      \<and> seq \<le> lastSeq (vs_reg s') (st_Name st) \<and> (\<forall>v \<in> all_versions H. v_seq v \<noteq> seq \<and> (v_seq v < seq \<or> (\<exists>r. reserved = Some r \<and> rs_VersionID r \<noteq> ''''))))"
proof -
  let ?n = "lastSeq (vs_reg s) (st_Name st) + 1"
  have up: "lastSeq (vs_reg s) (st_Name st) < ?n" using ctr by (intro seq_up) (simp add: word_order.not_eq_extremum)
  then have pos: "0 < ?n" by (metis word_gt_0 word_not_simps(1))
  have new: "v_seq v \<noteq> ?n \<and> v_seq v < ?n" if "v \<in> all_versions H" for v using bound up that by force
  have mint: "mintVersionID X tm ?n \<noteq> NullVersionID"
    using classify_mint [OF ulid, of ?n] by (auto simp: classifyVersionID_def NullVersionID_def split: if_splits)
  have alloc: "quiet X content mg s (bindA (allocSeqA (st_Name st)) (\<lambda>seq. returnA (seq, f seq))) (\<lambda>(seq, vid) s'. vs_tx s' = vs_tx s \<and> seq = ?n \<and> vid = f ?n
      \<and> lastSeq (vs_reg s') (st_Name st) = ?n)" for f
    by (rule quiet_bind [OF quiet_alloc [OF good ctr, where Q = "\<lambda>seq s'. vs_tx s' = vs_tx s \<and> seq = ?n \<and> lastSeq (vs_reg s') (st_Name st) = ?n"]])
      (auto intro!: quiet_return dest: onto_good)
  show ?thesis
  proof (cases "\<exists>r. reserved = Some r \<and> rs_VersionID r \<noteq> ''''")
    case True
    then obtain r where r: "reserved = Some r" "rs_VersionID r \<noteq> ''''" by blast
    then have ok: "reservation_ok X H (vs_reg s) (st_Name st) r" using res by blast
    then have "rs_VersionID r \<noteq> NullVersionID" using r(2) by (auto simp: reservation_ok_def classifyVersionID_def)
    then show ?thesis using r ok good by (auto intro!: quiet_return simp: chooseVersion_def reservation_ok_def id_for_def)
  next
    case False
    have "chooseVersion X tm st reserved = liftA (Inl ErrReservationSuperseded)
        \<or> chooseVersion X tm st reserved = bindA (allocSeqA (st_Name st)) (\<lambda>seq. returnA (seq, if st_Versioning st = VersioningEnabled then mintVersionID X tm seq else NullVersionID))"
      using False by (auto simp: chooseVersion_def split: option.split)
    then show ?thesis
    proof
      assume c: "chooseVersion X tm st reserved = bindA (allocSeqA (st_Name st)) (\<lambda>seq. returnA (seq, if st_Versioning st = VersioningEnabled then mintVersionID X tm seq else NullVersionID))"
      show ?thesis unfolding c
        by (rule quiet_weaken [OF alloc]) (use pos mint new classify_mint [OF ulid, of ?n] in \<open>auto simp: id_for_def split: if_splits\<close>)
    qed simp
  qed
qed

section \<open>The rows of a commit\<close>

text \<open>Rows are added to what the commit carries, whatever else the transaction is.\<close>

definition rows_only :: "(Tx \<Rightarrow> Tx) \<Rightarrow> bool" where
  "rows_only f \<longleftrightarrow> (\<exists>g. \<forall>tx. f tx = tx\<lparr> tx_commit := g (tx_commit tx) \<rparr>)"

lemma rows_only_id: "rows_only (\<lambda>tx. tx)"
  unfolding rows_only_def by (rule exI [of _ "\<lambda>c. c"]) simp

lemma rows_only_comp:
  assumes "rows_only f" and "rows_only g"
  shows "rows_only (\<lambda>tx. f (g tx))"
proof -
  obtain a b where ab: "\<And>tx. f tx = tx\<lparr> tx_commit := a (tx_commit tx) \<rparr>" "\<And>tx. g tx = tx\<lparr> tx_commit := b (tx_commit tx) \<rparr>"
    using assms unfolding rows_only_def by blast
  then show ?thesis unfolding rows_only_def by (intro exI [of _ "\<lambda>c. a (b c)"]) simp
qed

lemma rows_only_fold: "(\<And>d. rows_only (f d)) \<Longrightarrow> rows_only (fold f ds)"
proof (induction ds)
  case (Cons d ds)
  then show ?case using rows_only_comp [of "fold f ds" "f d"] by (simp add: comp_def)
qed (simp add: id_def rows_only_id)

lemma rows_only_tx:
  "rows_only (ClaimBlobs cs)" "rows_only (PinBlobs cs)" "rows_only (DropClaims ds g)" "rows_only (EnqueueUploadRegistration r)"
  unfolding rows_only_def
proof -
  show "\<exists>f. \<forall>tx. ClaimBlobs cs tx = tx\<lparr> tx_commit := f (tx_commit tx) \<rparr>"
    by (rule exI [of _ "\<lambda>c. c\<lparr> rcm_Claims := rcm_Claims c @ cs \<rparr>"]) (simp add: ClaimBlobs_def)
  show "\<exists>f. \<forall>tx. PinBlobs cs tx = tx\<lparr> tx_commit := f (tx_commit tx) \<rparr>"
    by (rule exI [of _ "\<lambda>c. c\<lparr> rcm_Pins := rcm_Pins c @ cs \<rparr>"]) (simp add: PinBlobs_def)
  show "\<exists>f. \<forall>tx. DropClaims ds g tx = tx\<lparr> tx_commit := f (tx_commit tx) \<rparr>"
    by (rule exI [of _ "\<lambda>c. c\<lparr> rcm_Drops := rcm_Drops c @ ds, rcm_ReleaseGrace := g \<rparr>"]) (simp add: DropClaims_def)
  show "\<exists>f. \<forall>tx. EnqueueUploadRegistration r tx = tx\<lparr> tx_commit := f (tx_commit tx) \<rparr>"
    by (rule exI [of _ "\<lambda>c. c\<lparr> rcm_Registrations := rcm_Registrations c @ [r] \<rparr>"]) (simp add: EnqueueUploadRegistration_def)
qed

lemma rows_only_rows: "rows_only (addClaims st key i ds p)" "rows_only (dropClaims X st key i ds)" "rows_only (enqueueRegistration X st key c opr)"
proof -
  have "addClaims st key i ds p = (if p then PinBlobs else ClaimBlobs) (map (\<lambda>d. \<lparr> claim_Digest = d, claim_Bucket = st_Name st, claim_ObjectKey = key,
      claim_VersionID = i, claim_Space = st_Space st \<rparr>) (digestSet ds))"
    by (simp add: fun_eq_iff addClaims_def Let_def)
  then show "rows_only (addClaims st key i ds p)" using rows_only_tx(1,2) by (cases p) simp_all
  show "rows_only (dropClaims X st key i ds)"
  proof (cases "ds = []")
    case True
    then have "dropClaims X st key i ds = (\<lambda>tx. tx)" by (simp add: fun_eq_iff dropClaims_def)
    then show ?thesis using rows_only_id by simp
  next
    case False
    then have "dropClaims X st key i ds = DropClaims (map (\<lambda>d. \<lparr> drop_Digest = d, drop_Bucket = st_Name st, drop_ObjectKey = key,
             drop_VersionID = i, drop_Space = st_Space st \<rparr>) (digestSet ds)) (vx_releaseGrace X)" by (simp add: fun_eq_iff dropClaims_def)
    then show ?thesis using rows_only_tx(3) by simp
  qed
  show "rows_only (enqueueRegistration X st key c opr)"
  proof (cases "cid_Defined c \<and> \<not> isl (vx_CaptureAuthority X (st_Space st) opr)")
    case True
    then obtain pr where pr: "vx_CaptureAuthority X (st_Space st) opr = Inr pr" by (cases "vx_CaptureAuthority X (st_Space st) opr") auto
    define reg where "reg = \<lparr> reg_Seq = 0, reg_Bucket = st_Name st, reg_ObjectKey = key, reg_Space = st_Space st,
        reg_Root = c, reg_Op = opr, reg_Attempts = 0, reg_NextAt = 0, reg_Proofs = pr, reg_DeadLetteredAt = None, reg_DeadLetterReason = [] \<rparr>"
    have "enqueueRegistration X st key c opr = EnqueueUploadRegistration reg"
      using True pr by (simp add: fun_eq_iff enqueueRegistration_def reg_def)
    then show ?thesis using rows_only_tx(4) by simp
  next
    case False
    then have "enqueueRegistration X st key c opr = (\<lambda>tx. tx)" by (auto simp: fun_eq_iff enqueueRegistration_def split: sum.split)
    then show ?thesis using rows_only_id by simp
  qed
qed

lemma rows_only_carry: "rows_only (carryRows X st key node ds p discards)"
proof -
  have e: "carryRows X st key node ds p discards = (\<lambda>tx. fold (\<lambda>d. enqueueRegistration X st key (dv_manifest d) UploadRegistrationRemove) discards
      (enqueueRegistration X st key (vn_Manifest node) UploadRegistrationAdd
        (fold (\<lambda>d. dropClaims X st key (claimVersionID (dv_versionID d) (dv_seq d)) (dv_digests d)) discards
          (addClaims st key (claimVersionID (vn_VersionID node) (vn_Seq node)) ds p tx))))"
    by (simp add: carryRows_def fun_eq_iff)
  show ?thesis unfolding e
    by (rule rows_only_comp [OF rows_only_fold [OF rows_only_rows(3)]], rule rows_only_comp [OF rows_only_rows(3)],
      rule rows_only_comp [OF rows_only_fold [OF rows_only_rows(2)]], rule rows_only_rows(1))
qed

lemma rows_only_commit: "rows_only f \<Longrightarrow> tx_commit tx = tx_commit tx' \<Longrightarrow> tx_commit (f tx) = tx_commit (f tx')"
  by (auto simp: rows_only_def)

lemma acts_rows_only: "sgood X content mg s \<Longrightarrow> rows_only f \<Longrightarrow> Q () (s\<lparr> vs_tx := f (vs_tx s) \<rparr>) \<Longrightarrow> acts X content mg s (rowsA f) Q"
  by (rule acts_rows) (auto simp: rows_only_def)

section \<open>Installing a version\<close>

lemma acts_return: "sgood X content mg s \<Longrightarrow> Q x s \<Longrightarrow> acts X content mg s (returnA x) Q"
  by (simp add: acts_def returnA_def onto_refl)

lemma acts_finish:
  assumes good: "sgood X content mg s" and t: "mst_repr (senv X mg s) t M" and keys: "\<forall>k \<in> dom M. IsValidKey k" and f: "rows_only f"
    and rows: "rows s = tx_commit tx0"
  shows "acts X content mg s (bindA (rowsA f) (\<lambda>_. bindA (pointerA X mg t) (\<lambda>root. returnA (root, r)))) (\<lambda>(root, r') s'.
      r' = r \<and> mst_repr (senv X mg s') (LoadMST root) M \<and> well_formed (vx_deps X) content root \<and> rows s' = tx_commit (f tx0))"
  apply (rule acts_bind [OF acts_rows_only [OF good f, where Q = "\<lambda>_ s'. rows s' = tx_commit (f tx0)"]])
  subgoal using rows_only_commit [OF f rows] by simp
  subgoal for x s1
    apply (rule acts_quiet_bind [OF quiet_pointer [where M = M and Q = "\<lambda>c s2. sgood X content mg s2 \<and> mst_repr (senv X mg s2) (LoadMST c) M \<and> well_formed (vx_deps X) content c"]])
    subgoal by (erule onto_good)
    subgoal using mst_repr_mono [OF onto_env t] by blast
    subgoal by (rule keys)
    subgoal by (blast dest: onto_good)
    subgoal for c s2 by (rule acts_return) auto
    done
  done

lemma leaf_repr_built:
  assumes "lf_Current l = nodeOf v" and "lf_NullSeq l = null_seq vs" and "root_repr (view_env (vx_deps X) B) (lf_Prev l) (prev_map vs)"
    and "states_repr X B r (v # vs)" and "\<forall>w \<in> set (v # vs). stored_at X B w"
  shows "leaf_repr X B (l\<lparr> lf_State := r \<rparr>) (v # vs)"
  using assms by (simp add: leaf_repr_Cons)

text \<open>The value of the key after the leaf's trees are written: the version is at the head of what was kept.\<close>

lemma value_built:
  assumes view: "view_le B1 B2" and lf: "case leaf of None \<Rightarrow> vs = [] | Some l \<Rightarrow> lf_Current l = nodeOf v \<and> lf_NullSeq l = null_seq vs \<and> root_repr (view_env (vx_deps X) B1) (lf_Prev l) (prev_map vs)"
    and st: "(lf = None \<longrightarrow> leaf = None \<and> v_state v = None) \<and> (\<forall>l. lf = Some l \<longrightarrow> (\<exists>r. l = (leaf_base (nodeOf v) leaf)\<lparr> lf_State := r \<rparr> \<and> states_repr X B2 r (v # vs)))"
    and mani: "getValue (vx_values X) B2 (v_cid v) = Inr (ManifestValue (v_mf v))" and stored: "\<forall>w \<in> set (v # vs). stored_at X B2 w"
  shows "lf = None \<Longrightarrow> key_repr X B2 (v_cid v) (v # vs)" and "lf = Some l \<Longrightarrow> leaf_repr X B2 l (v # vs)"
proof -
  show "key_repr X B2 (v_cid v) (v # vs)" if "lf = None" using that lf st mani stored by (auto simp: key_repr_def)
  assume "lf = Some l"
  then obtain r where r: "l = (leaf_base (nodeOf v) leaf)\<lparr> lf_State := r \<rparr>" "states_repr X B2 r (v # vs)" using st by blast
  have base: "lf_Current (leaf_base (nodeOf v) leaf) = nodeOf v \<and> lf_NullSeq (leaf_base (nodeOf v) leaf) = null_seq vs
      \<and> root_repr (view_env (vx_deps X) B2) (lf_Prev (leaf_base (nodeOf v) leaf)) (prev_map vs)"
    using lf root_repr_mono [OF view_le_env [OF view]] by (cases leaf) (auto simp: newLeafAt_def root_repr_def)
  then show "leaf_repr X B2 l (v # vs)" unfolding r(1) using r(2) stored by (intro leaf_repr_built) auto
qed

lemma acts_written:
  assumes good: "sgood X content mg s" and t: "mst_repr (senv X mg s) t M" and keys: "\<forall>k \<in> dom M. IsValidKey k"
    and val: "leaf = None \<Longrightarrow> key_repr X (sview X mg s) mfCid h" "\<And>l. leaf = Some l \<Longrightarrow> leaf_repr X (sview X mg s) l h"
    and rows: "rows s = tx_commit tx0" and stored: "stored_at X (sview X mg s) v" and digs: "\<And>refs. blobs = Some refs \<Longrightarrow> v_digests v = DigestList refs"
  shows "acts X content mg s (bindA (writeValue X mg t key there mfCid leaf) (\<lambda>t2.
      bindA (case blobs of Some refs \<Rightarrow> returnA (DigestList refs) | None \<Rightarrow> viewA X mg (\<lambda>B. blockE (bodyDigests (vx_values X) B (mf_Body (v_mf v))))) (\<lambda>digs.
      bindA (rowsA (carryRows X st key node digs pinned ds)) (\<lambda>_. bindA (pointerA X mg t2) (\<lambda>root. returnA (root, r))))))
    (\<lambda>(root, r') s'. \<exists>c. r' = r \<and> mst_repr (senv X mg s') (LoadMST root) (M(key \<mapsto> c)) \<and> well_formed (vx_deps X) content root
      \<and> IsValidKey key \<and> key_repr X (sview X mg s') c h \<and> rows s' = tx_commit (carryRows X st key node (v_digests v) pinned ds tx0))"
  apply (rule acts_quiet_bind [OF quiet_writeValue [OF good t val]], assumption, assumption)
  subgoal premises p for t2 s1
  proof -
    obtain c where c: "mst_repr (senv X mg s1) t2 (M(key \<mapsto> c))" "IsValidKey key" "key_repr X (sview X mg s1) c h" using p(3) by blast
    have st: "stored_at X (sview X mg s1) v" by (rule stored_at_mono [OF onto_view [OF p(1)] stored])
    have "quiet X content mg s1 (case blobs of Some refs \<Rightarrow> returnA (DigestList refs) | None \<Rightarrow> viewA X mg (\<lambda>B. blockE (bodyDigests (vx_values X) B (mf_Body (v_mf v)))))
        (\<lambda>d s'. d = v_digests v \<and> s' = s1)"
      using digs st onto_good [OF p(1)] by (cases blobs) (auto intro!: quiet_return quiet_view simp: stored_at_def blockE_def)
    then show ?thesis
    proof (rule acts_quiet_bind)
      fix d s2 assume d: "d = v_digests v \<and> s2 = s1"
      have fin: "acts X content mg s1 (bindA (rowsA (carryRows X st key node (v_digests v) pinned ds)) (\<lambda>_. bindA (pointerA X mg t2) (\<lambda>root. returnA (root, r)))) (\<lambda>(root, r') s'.
          r' = r \<and> mst_repr (senv X mg s') (LoadMST root) (M(key \<mapsto> c)) \<and> well_formed (vx_deps X) content root \<and> rows s' = tx_commit (carryRows X st key node (v_digests v) pinned ds tx0))"
        by (rule acts_finish [OF onto_good [OF p(1)] c(1) _ rows_only_carry]) (use keys c(2) p(2) rows in auto)
      show "acts X content mg s2 (bindA (rowsA (carryRows X st key node d pinned ds)) (\<lambda>_. bindA (pointerA X mg t2) (\<lambda>root. returnA (root, r))))
        (\<lambda>(root, r') s'. \<exists>c. r' = r \<and> mst_repr (senv X mg s') (LoadMST root) (M(key \<mapsto> c)) \<and> well_formed (vx_deps X) content root
          \<and> IsValidKey key \<and> key_repr X (sview X mg s') c h \<and> rows s' = tx_commit (carryRows X st key node (v_digests v) pinned ds tx0))"
        unfolding conjunct1 [OF d] conjunct2 [OF d]
        by (rule acts_weaken [OF fin]) (use c(2) key_repr_mono [OF onto_view c(3)] in blast)
    qed
  qed
  done

lemma acts_install:
  assumes good: "sgood X content mg s" and t: "mst_repr (senv X mg s) t M" and keys: "\<forall>k \<in> dom M. IsValidKey k"
    and prior: "rel_option (prior_repr X (sview X mg s)) prior ho" and hist: "\<And>h. ho = Some h \<Longrightarrow> hist_ok X h" and h: "h = (case ho of None \<Rightarrow> [] | Some h \<Rightarrow> h)"
    and vid: "st_Versioning st = VersioningEnabled \<longleftrightarrow> v_id v \<noteq> NullVersionID"
    and mani: "getValue (vx_values X) (sview X mg s) (v_cid v) = Inr (ManifestValue (v_mf v))" and stored: "stored_at X (sview X mg s) v"
    and new: "hist_ok X (v # kept (v_id v) h)" and digs: "\<And>refs. blobs = Some refs \<Longrightarrow> v_digests v = DigestList refs"
  shows "acts X content mg s (bindA (supersede X mg st prior (nodeOf v) (v_id v)) (\<lambda>u.
      bindA (setPrev X mg u) (\<lambda>leaf.
      bindA (maintainState X mg (nodeOf v) (su_discards u) (v_state v) leaf) (\<lambda>leaf'.
      bindA (writeValue X mg t key (prior \<noteq> None) (v_cid v) leaf') (\<lambda>t2.
      bindA (case blobs of Some refs \<Rightarrow> returnA (DigestList refs) | None \<Rightarrow> viewA X mg (\<lambda>B. blockE (bodyDigests (vx_values X) B (mf_Body (v_mf v))))) (\<lambda>digs.
      bindA (rowsA (carryRows X st key (nodeOf v) digs pinned (su_discards u))) (\<lambda>_.
      bindA (pointerA X mg t2) (\<lambda>root. returnA (root, nodeOf v, st_Versioning st)))))))))
    (\<lambda>(root, r) s'. \<exists>c. r = (nodeOf v, st_Versioning st) \<and> mst_repr (senv X mg s') (LoadMST root) (M(key \<mapsto> c)) \<and> well_formed (vx_deps X) content root
      \<and> IsValidKey key \<and> key_repr X (sview X mg s') c (v # kept (v_id v) h)
      \<and> rows s' = tx_commit (carryRows X st key (nodeOf v) (v_digests v) pinned (map discard_of (gone (v_id v) h)) (vs_tx s)))"
proof -
  have hh: "hist_ok X h" using hist h by (cases ho) auto
  have fresh: "at_key (kept (v_id v) h) (revSeqKey (v_seq v)) = None" unfolding at_key_None using new by (auto simp: hist_ok_Cons)
  have all: "\<forall>w \<in> set (v # kept (v_id v) h). stored_at X (sview X mg s) w"
    using stored prior set_kept [of "v_id v" h] unfolding h by (cases ho; cases prior) (auto simp: prior_repr_def)
  note states = prior_states [OF prior h]
  show ?thesis
    apply (rule acts_quiet_bind [OF quiet_supersede [OF good prior hist vid h]], assumption)
    subgoal for u s1
      apply (elim conjE)
      apply (rule acts_quiet_bind [OF quiet_setPrev], erule onto_good, assumption)
      subgoal for leaf s2
        apply (simp only:)
        apply (rule acts_quiet_bind [OF quiet_maintainState [OF _ hh _ fresh refl]])
        subgoal by (erule onto_good)
        subgoal using states_repr_mono [OF _ states] onto_view [OF onto_trans [of X content mg s s1 s2]] by (auto split: option.splits)
        subgoal premises p for leaf' s3
        proof -
          have o3: "onto X content mg s s3" by (meson p onto_trans)
          have v23: "view_le (sview X mg s2) (sview X mg s3)" by (rule onto_view) (use p in blast)
          have rows3: "rows s3 = rows s" using p by simp
          have lf: "case leaf of None \<Rightarrow> kept (v_id v) h = [] | Some l \<Rightarrow> lf_Current l = nodeOf v \<and> lf_NullSeq l = null_seq (kept (v_id v) h)
              \<and> root_repr (senv X mg s2) (lf_Prev l) (prev_map (kept (v_id v) h))"
            using p by (auto split: option.splits)
          have all3: "\<forall>w \<in> set (v # kept (v_id v) h). stored_at X (sview X mg s3) w" using all stored_at_mono [OF onto_view [OF o3]] by blast
          have st: "(leaf' = None \<longrightarrow> leaf = None \<and> v_state v = None) \<and> (\<forall>l. leaf' = Some l \<longrightarrow> (\<exists>r. l = (leaf_base (nodeOf v) leaf)\<lparr> lf_State := r \<rparr>
              \<and> states_repr X (sview X mg s3) r (v # kept (v_id v) h)))" using p by blast
          note val = value_built [OF v23 lf st getValue_mono [OF onto_view [OF o3] mani] all3]
          show ?thesis
            by (rule acts_written [OF onto_good [OF o3] mst_repr_mono [OF onto_env [OF o3] t] keys val rows3 stored_at_mono [OF onto_view [OF o3] stored] digs])
        qed
        done
      done
    done
qed

section \<open>The closure\<close>

text \<open>A request brings a body of the size of its blobs; without blobs, the body is empty (a delete marker).\<close>

definition request_ok :: "write_request \<Rightarrow> bool" where
  "request_ok w \<longleftrightarrow> (case wr_blobs w of
      None \<Rightarrow> body_Size (mf_Body (wr_mf w)) = 0 \<and> body_Blobs (mf_Body (wr_mf w)) = \<lparr> bl_Head = [], bl_Extents = [] \<rparr>
    | Some refs \<Rightarrow> body_Size (mf_Body (wr_mf w)) = refs_Size refs)"

definition request_digests :: "write_request \<Rightarrow> multihash list" where
  "request_digests w = (case wr_blobs w of None \<Rightarrow> [] | Some refs \<Rightarrow> DigestList refs)"

lemma bodyDigests_empty:
  "body_Size body = 0 \<Longrightarrow> body_Blobs body = \<lparr> bl_Head = [], bl_Extents = [] \<rparr> \<Longrightarrow> bodyDigests V B body = Inr []"
  by (simp add: bodyDigests_def x_Digests_def x_check_def newIndex_def)

text \<open>The version a request becomes.\<close>

definition becomes :: "version_env \<Rightarrow> block_view \<Rightarrow> VersioningState \<Rightarrow> write_request \<Rightarrow> version \<Rightarrow> bool" where
  "becomes X B vs w v \<longleftrightarrow> v_state v = wr_initState w \<and> v_digests v = request_digests w \<and> id_for X vs (v_id v) (v_seq v)
     \<and> written_as X B ((wr_mf w)\<lparr> mf_Seq := v_seq v, mf_VersionID := v_id v \<rparr>) (wr_blobs w) (v_mf v)"

lemma becomes_mono: "view_le B B' \<Longrightarrow> becomes X B vs w v \<Longrightarrow> becomes X B' vs w v"
  using written_as_mono by (auto simp: becomes_def)

lemma becomes_stored:
  assumes "becomes X B vs w v" and "request_ok w" and "getValue (vx_values X) B (v_cid v) = Inr (ManifestValue (v_mf v))" and "cid_Defined (v_cid v)"
  shows "stored_at X B v" and "version_ok X v"
proof -
  have b: "bodyDigests (vx_values X) B (mf_Body (v_mf v)) = Inr (v_digests v)"
    using assms(1,2) bodyDigests_empty [of "mf_Body (wr_mf w)"]
    by (cases "wr_blobs w") (auto simp: becomes_def written_as_def request_ok_def request_digests_def)
  then show "stored_at X B v" using getValue_manifest [OF assms(3)] by (simp add: stored_at_def)
  have "mf_Seq (v_mf v) = v_seq v" "mf_VersionID (v_mf v) = v_id v"
    using assms(1) unfolding becomes_def written_as_def by (metis ObjectManifest.select_convs(7,8) ObjectManifest.surjective ObjectManifest.update_convs(4,7,8))+
  then show "version_ok X v" using assms(1,4) by (auto simp: version_ok_def becomes_def id_for_def)
qed

lemma quiet_guard: "sgood X content mg s \<Longrightarrow> (c = returnA () \<Longrightarrow> Q () s) \<Longrightarrow> c = returnA () \<or> (\<exists>e. c = liftA (Inl e)) \<Longrightarrow> quiet X content mg s c Q"
  by (auto intro: quiet_return)

lemma returnA_not_fail [simp]: "liftA (Inl e) \<noteq> returnA x"
  by (auto simp: fun_eq_iff liftA_def returnA_def)

text \<open>The checks between the load and the supersession leave the ordinal above all of the key's.\<close>

lemma newest_after_checks:
  assumes prior: "rel_option (prior_repr X B) prior ho" and hist: "\<And>h. ho = Some h \<Longrightarrow> hist_ok X h" and h: "h = (case ho of None \<Rightarrow> [] | Some h \<Rightarrow> h)"
    and fresh: "\<forall>v \<in> set h. v_seq v \<noteq> seq \<and> (v_seq v < seq \<or> (\<exists>r. reserved = Some r \<and> rs_VersionID r \<noteq> ''''))"
    and guard: "(case (reserved, prior) of
        (Some r, Some p) \<Rightarrow> if rs_VersionID r \<noteq> '''' \<and> vn_Seq (pv_node p) > seq then liftA (Inl ErrReservationSuperseded) else returnA ()
      | _ \<Rightarrow> returnA ()) = (returnA () :: unit act)"
  shows "\<forall>v \<in> set h. v_seq v < seq"
proof (cases ho)
  case (Some h')
  then obtain p where p: "prior = Some p" "prior_repr X B p h" using prior h by (cases prior) auto
  have hh: "hist_ok X h" using hist Some h by simp
  obtain v vs where hv: "h = v # vs" using p(2) by (cases h) (auto simp: prior_repr_def)
  have sup: "vn_Seq (pv_node p) = v_seq v" using p(2) hv by (simp add: prior_repr_def nodeOf_def)
  have "v_seq v < seq"
  proof (rule ccontr)
    assume n: "\<not> v_seq v < seq"
    then obtain r where r: "reserved = Some r" "rs_VersionID r \<noteq> ''''" using fresh hv by auto
    moreover have "v_seq v > seq" using n fresh hv by (metis linorder_neqE_linordered_idom list.set_intros(1) word_le_less_eq not_less_iff_gr_or_eq)
    ultimately show False using guard p(1) sup by simp
  qed
  then show ?thesis using hh unfolding hv hist_ok_Cons by (auto intro: order.strict_trans)
qed (simp add: h)

text \<open>What a commit leaves: the key's new value stands for the history with the version at its head.\<close>

definition committed ::
  "version_env \<Rightarrow> (cid \<Rightarrow> bytes) \<Rightarrow> Manager \<Rightarrow> Tx \<Rightarrow> State \<Rightarrow> write_request \<Rightarrow> kv_map \<Rightarrow> (string \<rightharpoonup> history) \<Rightarrow> cid \<times> VersionNode \<times> VersioningState \<Rightarrow> vstate \<Rightarrow> bool" where
  "committed X content mg tx0 st w M H r s' \<longleftrightarrow>
     (\<exists>v c h. h = (case H (wr_key w) of None \<Rightarrow> [] | Some h \<Rightarrow> h) \<and> snd r = (nodeOf v, st_Versioning st)
       \<and> becomes X (sview X mg s') (st_Versioning st) w v \<and> (\<forall>u \<in> all_versions H. v_seq u \<noteq> v_seq v) \<and> v_seq v \<le> lastSeq (vs_reg s') (st_Name st)
       \<and> wr_preCheck w (map_option (\<lambda>h. v_mf (hd h)) (H (wr_key w))) = None
       \<and> mst_repr (senv X mg s') (LoadMST (fst r)) (M(wr_key w \<mapsto> c)) \<and> well_formed (vx_deps X) content (fst r) \<and> IsValidKey (wr_key w)
       \<and> key_repr X (sview X mg s') c (put_version v h) \<and> hist_ok X (put_version v h)
       \<and> rows s' = tx_commit (carryRows X st (wr_key w) (nodeOf v) (v_digests v) (wr_pinned w) (map discard_of (gone (v_id v) h)) tx0))"

lemma committedI:
  assumes "h = (case H (wr_key w) of None \<Rightarrow> [] | Some h \<Rightarrow> h)" and "becomes X (sview X mg s') (st_Versioning st) w v"
    and "\<forall>u \<in> all_versions H. v_seq u \<noteq> v_seq v" and "v_seq v \<le> lastSeq (vs_reg s') (st_Name st)"
    and "wr_preCheck w (map_option (\<lambda>h. v_mf (hd h)) (H (wr_key w))) = None"
    and "mst_repr (senv X mg s') (LoadMST root) (M(wr_key w \<mapsto> c))" and "well_formed (vx_deps X) content root" and "IsValidKey (wr_key w)"
    and "key_repr X (sview X mg s') c (v # kept (v_id v) h)" and "hist_ok X (v # kept (v_id v) h)"
    and "rows s' = tx_commit (carryRows X st (wr_key w) (nodeOf v) (v_digests v) (wr_pinned w) (map discard_of (gone (v_id v) h)) tx0)"
  shows "committed X content mg tx0 st w M H (root, nodeOf v, st_Versioning st) s'"
  unfolding committed_def put_version_kept fst_conv snd_conv using assms by blast

lemma prior_manifest: "rel_option (prior_repr X B) prior ho \<Longrightarrow> map_option pv_mf prior = map_option (\<lambda>h. v_mf (hd h)) ho"
  by (cases prior; cases ho) (auto simp: prior_repr_def)

lemma keys_repr_at:
  assumes "keys_repr X B M H"
  shows "rel_option (\<lambda>c h. key_repr X B c h \<and> hist_ok X h) (M k) (H k)" and "H k = Some h \<Longrightarrow> hist_ok X h"
proof -
  show r: "rel_option (\<lambda>c h. key_repr X B c h \<and> hist_ok X h) (M k) (H k)" using assms by (simp add: keys_repr_def)
  show "hist_ok X h" if "H k = Some h" using r that by (cases "M k") auto
qed

lemma keys_repr_valid: "keys_repr X B M H \<Longrightarrow> \<forall>k \<in> dom M. IsValidKey k"
  by (simp add: keys_repr_def)

text \<open>From the written manifest on.\<close>

lemma acts_commitWritten:
  assumes good: "sgood X content mg s" and t: "mst_repr (senv X mg s) t M" and keys: "keys_repr X (sview X mg s) M H" and req: "request_ok w"
    and v: "becomes X (sview X mg s) (st_Versioning st) w v" "getValue (vx_values X) (sview X mg s) (v_cid v) = Inr (ManifestValue (v_mf v))" "cid_Defined (v_cid v)"
    and last: "v_seq v \<le> lastSeq (vs_reg s) (st_Name st)" and rows: "rows s = tx_commit tx0"
    and fresh: "\<forall>u \<in> all_versions H. v_seq u \<noteq> v_seq v \<and> (v_seq u < v_seq v \<or> (\<exists>r. wr_reserved w = Some r \<and> rs_VersionID r \<noteq> ''''))"
  shows "acts X content mg s (bindA (loadPrior X mg t (wr_key w)) (\<lambda>prior.
     bindA (case (wr_reserved w, prior) of
              (Some r, Some p) \<Rightarrow> if rs_VersionID r \<noteq> '''' \<and> vn_Seq (pv_node p) > v_seq v then liftA (Inl ErrReservationSuperseded) else returnA ()
            | _ \<Rightarrow> returnA ()) (\<lambda>_.
     bindA (case wr_preCheck w (map_option pv_mf prior) of Some e \<Rightarrow> liftA (Inl (FnApi e)) | None \<Rightarrow> returnA ()) (\<lambda>_.
        bindA (supersede X mg st prior (nodeOf v) (v_id v)) (\<lambda>u.
        bindA (setPrev X mg u) (\<lambda>leaf.
        bindA (maintainState X mg (nodeOf v) (su_discards u) (v_state v) leaf) (\<lambda>leaf'.
        bindA (writeValue X mg t (wr_key w) (prior \<noteq> None) (v_cid v) leaf') (\<lambda>t2.
        bindA (case wr_blobs w of
                 Some refs \<Rightarrow> returnA (DigestList refs)
               | None \<Rightarrow> viewA X mg (\<lambda>B. blockE (bodyDigests (vx_values X) B (mf_Body (v_mf v))))) (\<lambda>digs.
        bindA (rowsA (carryRows X st (wr_key w) (nodeOf v) digs (wr_pinned w) (su_discards u))) (\<lambda>_.
        bindA (pointerA X mg t2) (\<lambda>root. returnA (root, nodeOf v, st_Versioning st))))))))))))
    (committed X content mg tx0 st w M H)"
proof -
  note at = keys_repr_at [OF keys, of "wr_key w"] and stored = becomes_stored [OF v(1) req v(2,3)]
  define h where "h = (case H (wr_key w) of None \<Rightarrow> [] | Some h \<Rightarrow> h)"
  have fr: "\<forall>u \<in> set h. v_seq u \<noteq> v_seq v \<and> (v_seq u < v_seq v \<or> (\<exists>r. wr_reserved w = Some r \<and> rs_VersionID r \<noteq> ''''))"
  proof -
    have "set h \<subseteq> all_versions H" by (cases "H (wr_key w)") (auto simp: h_def all_versions_def)
    then show ?thesis using fresh by blast
  qed
  show ?thesis
    apply (rule acts_quiet_bind [OF quiet_loadPrior [where H = H and M = M and key = "wr_key w", OF good t at(1)]])
    subgoal for prior s1
      apply (rule acts_quiet_bind [OF quiet_guard [where Q = "\<lambda>_ s2. s2 = s1 \<and> (case (wr_reserved w, prior) of
              (Some r, Some p) \<Rightarrow> if rs_VersionID r \<noteq> '''' \<and> vn_Seq (pv_node p) > v_seq v then liftA (Inl ErrReservationSuperseded) else returnA ()
            | _ \<Rightarrow> returnA ()) = (returnA () :: unit act)"]])
      subgoal by (erule onto_good)
      subgoal by simp
      subgoal by (auto split: option.split)
      subgoal for x s2
        apply (rule acts_quiet_bind [OF quiet_guard [where Q = "\<lambda>_ s3. s3 = s1 \<and> wr_preCheck w (map_option pv_mf prior) = None"]])
        subgoal by (blast dest: onto_good)
        subgoal by (auto split: option.splits)
        subgoal by (auto split: option.split)
        subgoal premises p for y s3
        proof -
          have s1: "onto X content mg s s1" "rows s1 = tx_commit tx0" and pr: "rel_option (prior_repr X (sview X mg s1)) prior (H (wr_key w))"
            and pre: "wr_preCheck w (map_option (\<lambda>h. v_mf (hd h)) (H (wr_key w))) = None" and s3: "s3 = s1"
            using p rows prior_manifest by auto
          have newest: "\<forall>u \<in> set h. v_seq u < v_seq v" by (rule newest_after_checks [OF pr at(2) h_def fr]) (use p in blast)+
          have new: "hist_ok X (v # kept (v_id v) h)"
            using stored(2) newest set_kept [of "v_id v" h] hist_ok_kept [of X h "v_id v"] at(2)
            by (auto simp: hist_ok_Cons h_def kept_def split: option.splits)
          have vid: "st_Versioning st = VersioningEnabled \<longleftrightarrow> v_id v \<noteq> NullVersionID" using v(1) by (simp add: becomes_def id_for_def)
          have digs: "v_digests v = DigestList refs" if "wr_blobs w = Some refs" for refs using v(1) that by (simp add: becomes_def request_digests_def)
          note inst = acts_install [OF onto_good [OF s1(1)] mst_repr_mono [OF onto_env [OF s1(1)] t] keys_repr_valid [OF keys] pr at(2) h_def vid
              getValue_mono [OF onto_view [OF s1(1)] v(2)] stored_at_mono [OF onto_view [OF s1(1)] stored(1)] new digs]
          have becomes: "becomes X (sview X mg s4) (st_Versioning st) w v" "v_seq v \<le> lastSeq (vs_reg s4) (st_Name st)" if "onto X content mg s1 s4" for s4
            using becomes_mono [OF onto_view [OF onto_trans [OF s1(1) that]] v(1)] onto_seq [OF onto_trans [OF s1(1) that]] last by (blast intro: order_trans)+
          have carry: "tx_commit (carryRows X st (wr_key w) (nodeOf v) (v_digests v) (wr_pinned w) ds (vs_tx s1)) = tx_commit (carryRows X st (wr_key w) (nodeOf v) (v_digests v) (wr_pinned w) ds tx0)" for ds
            by (rule rows_only_commit [OF rows_only_carry s1(2)])
          show ?thesis unfolding s3
            by (rule acts_weaken [OF inst]) (use becomes fresh pre new carry in \<open>auto intro!: committedI [where H = H and w = w, OF h_def]\<close>)
        qed
        done
      done
    done
qed

text \<open>From the chosen ordinal and id on.\<close>

lemma acts_commitChosen:
  assumes good: "sgood X content mg s" and t: "mst_repr (senv X mg s) t M" and keys: "keys_repr X (sview X mg s) M H" and req: "request_ok w"
    and id: "id_for X (st_Versioning st) vid seq" and last: "seq \<le> lastSeq (vs_reg s) (st_Name st)"
    and fresh: "\<forall>v \<in> all_versions H. v_seq v \<noteq> seq \<and> (v_seq v < seq \<or> (\<exists>r. wr_reserved w = Some r \<and> rs_VersionID r \<noteq> ''''))"
  shows "acts X content mg s (bindA (writeManifest X ((wr_mf w)\<lparr> mf_Seq := seq, mf_VersionID := vid \<rparr>) (wr_blobs w)) (\<lambda>(mf, mfCid).
     bindA (loadPrior X mg t (wr_key w)) (\<lambda>prior.
     bindA (case (wr_reserved w, prior) of
              (Some r, Some p) \<Rightarrow> if rs_VersionID r \<noteq> '''' \<and> vn_Seq (pv_node p) > seq then liftA (Inl ErrReservationSuperseded) else returnA ()
            | _ \<Rightarrow> returnA ()) (\<lambda>_.
     bindA (case wr_preCheck w (map_option pv_mf prior) of Some e \<Rightarrow> liftA (Inl (FnApi e)) | None \<Rightarrow> returnA ()) (\<lambda>_.
     let node = \<lparr> vn_Seq = seq, vn_VersionID = vid, vn_Manifest = mfCid \<rparr>
     in bindA (supersede X mg st prior node vid) (\<lambda>u.
        bindA (setPrev X mg u) (\<lambda>leaf.
        bindA (maintainState X mg node (su_discards u) (wr_initState w) leaf) (\<lambda>leaf'.
        bindA (writeValue X mg t (wr_key w) (prior \<noteq> None) mfCid leaf') (\<lambda>t2.
        bindA (case wr_blobs w of
                 Some refs \<Rightarrow> returnA (DigestList refs)
               | None \<Rightarrow> viewA X mg (\<lambda>B. blockE (bodyDigests (vx_values X) B (mf_Body mf)))) (\<lambda>digs.
        bindA (rowsA (carryRows X st (wr_key w) node digs (wr_pinned w) (su_discards u))) (\<lambda>_.
        bindA (pointerA X mg t2) (\<lambda>root. returnA (root, node, st_Versioning st)))))))))))))
    (committed X content mg (vs_tx s) st w M H)"
  apply (rule acts_quiet_bind [OF quiet_writeManifest [OF good, where Q = "\<lambda>(mf, c) s1. onto X content mg s s1 \<and> getValue (vx_values X) (sview X mg s1) c = Inr (ManifestValue mf)
      \<and> cid_Defined c \<and> written_as X (sview X mg s1) ((wr_mf w)\<lparr> mf_Seq := seq, mf_VersionID := vid \<rparr>) (wr_blobs w) mf"]])
  subgoal using req by (simp add: request_ok_def)
  subgoal by simp
  subgoal premises p for x s1
  proof -
    obtain mf c where x: "x = (mf, c)" by fastforce
    define v where "v = \<lparr> v_seq = seq, v_id = vid, v_cid = c, v_mf = mf, v_digests = request_digests w, v_state = wr_initState w \<rparr>"
    have s1: "onto X content mg s s1" "getValue (vx_values X) (sview X mg s1) (v_cid v) = Inr (ManifestValue (v_mf v))" "cid_Defined (v_cid v)"
        "becomes X (sview X mg s1) (st_Versioning st) w v" "rows s1 = rows s"
      using p id by (simp_all add: x v_def becomes_def)
    have last1: "v_seq v \<le> lastSeq (vs_reg s1) (st_Name st)" using last onto_seq [OF s1(1), of "st_Name st"] by (simp add: v_def)
    have fresh1: "\<forall>u \<in> all_versions H. v_seq u \<noteq> v_seq v \<and> (v_seq u < v_seq v \<or> (\<exists>r. wr_reserved w = Some r \<and> rs_VersionID r \<noteq> []))"
      using fresh by (simp add: v_def)
    have node: "\<lparr> vn_Seq = seq, vn_VersionID = vid, vn_Manifest = c \<rparr> = nodeOf v" and flds: "vid = v_id v" "mf = v_mf v" "c = v_cid v" "wr_initState w = v_state v" "seq = v_seq v" by (simp_all add: nodeOf_def v_def)
    show ?thesis unfolding x prod.case Let_def node
      unfolding flds
      by (rule acts_commitWritten [unfolded prod.case, OF onto_good [OF s1(1)] mst_repr_mono [OF onto_env [OF s1(1)] t] keys_repr_mono [OF onto_view [OF s1(1)] keys] req s1(4,2,3) last1 s1(5) fresh1])
  qed
  done

lemma acts_commitVersionFn:
  assumes good: "sgood X content mg s" and ulid: "ulid_ok X" "length tm = 6" and ctr: "lastSeq (vs_reg s) (st_Name st) \<noteq> - 1"
    and res: "\<And>r. wr_reserved w = Some r \<Longrightarrow> reservation_ok X H (vs_reg s) (st_Name st) r"
    and bound: "\<forall>v \<in> all_versions H. v_seq v \<le> lastSeq (vs_reg s) (st_Name st)"
    and t: "mst_repr (senv X mg s) t M" and keys: "keys_repr X (sview X mg s) M H" and req: "request_ok w"
  shows "acts X content mg s (commitVersionFn X mg tm w st t) (committed X content mg (vs_tx s) st w M H)"
  unfolding commitVersionFn_def
  apply (rule acts_quiet_bind [OF quiet_chooseVersion [OF good ulid ctr res bound]], assumption)
  subgoal premises p for x s1
  proof -
    obtain seq vid where x: "x = (seq, vid)" by fastforce
    have s1: "vs_tx s1 = vs_tx s" "id_for X (st_Versioning st) vid seq" "seq \<le> lastSeq (vs_reg s1) (st_Name st)"
        "\<forall>v \<in> all_versions H. v_seq v \<noteq> seq \<and> (v_seq v < seq \<or> (\<exists>r. wr_reserved w = Some r \<and> rs_VersionID r \<noteq> []))"
      using p(3) unfolding x by simp_all
    show ?thesis unfolding x prod.case s1(1) [symmetric]
      by (rule acts_commitChosen [unfolded prod.case, OF onto_good [OF p(1)] _ _ req s1(2-4)]) (use s1(1) t keys in simp_all)
  qed
  done

end
