(* ===== verification/S3_VersionTx.thy ===== *)
theory S3_VersionTx
  imports S3_VersionCommit
begin

text \<open>
  From the closures to the transactions that run them. A bucket of the coordinator stands for its histories when
  its published tree does, when no version is above the last ordinal drawn, and when the reference index
  holds exactly the claims of the versions. A transaction whose closure takes the histories to others
  publishes these and keeps the other buckets; one that fails before or at the root swap keeps all.
\<close>

section \<open>The claims of the versions\<close>

definition version_claims :: "string \<Rightarrow> string \<Rightarrow> version \<Rightarrow> claimKey set" where
  "version_claims b k v = (\<lambda>d. (d, b, k, claimVersionID (v_id v) (v_seq v))) ` set (v_digests v)"

definition key_claims :: "string \<Rightarrow> string \<Rightarrow> history option \<Rightarrow> claimKey set" where
  "key_claims b k ho = (case ho of None \<Rightarrow> {} | Some h \<Rightarrow> \<Union>v \<in> set h. version_claims b k v)"

definition claims_of :: "string \<Rightarrow> (string \<rightharpoonup> history) \<Rightarrow> claimKey set" where
  "claims_of b H = (\<Union>k. key_claims b k (H k))"

definition index_of :: "MemStore \<Rightarrow> string \<Rightarrow> claimKey set" where
  "index_of m b = {c. fst (snd c) = b \<and> gm_get (blobRefs m) c \<noteq> None}"

definition versions_in :: "version_env \<Rightarrow> (cid \<Rightarrow> bytes) \<Rightarrow> Coordinator \<Rightarrow> string \<Rightarrow> (string \<rightharpoonup> history) \<Rightarrow> bool" where
  "versions_in X content co b H \<longleftrightarrow> (\<exists>st. versions_at X content (co_log co) b st H \<and> st_Name st = b)
     \<and> (\<forall>v \<in> all_versions H. v_seq v \<le> lastSeq (snd (co_log co)) b) \<and> index_of (snd (co_log co)) b = claims_of b H"

text \<open>The rows a commit carries take the claims of one set of histories to those of another.\<close>

definition row_adds :: "RootCommit \<Rightarrow> claimKey set" where
  "row_adds c = claim_key ` (set (rcm_Claims c) \<union> set (rcm_Pins c))"

definition row_drops :: "RootCommit \<Rightarrow> claimKey set" where
  "row_drops c = drop_key ` set (rcm_Drops c)"

definition rows_effect :: "string \<Rightarrow> RootCommit \<Rightarrow> (string \<rightharpoonup> history) \<Rightarrow> (string \<rightharpoonup> history) \<Rightarrow> bool" where
  "rows_effect b c H H' \<longleftrightarrow> (\<forall>k \<in> row_adds c \<union> row_drops c. fst (snd k) = b) \<and> (claims_of b H \<union> row_adds c) - row_drops c = claims_of b H'"

text \<open>What a closure leaves behind: a root that stands for new histories, or no root and nothing changed.\<close>

definition outcome :: "version_env \<Rightarrow> (cid \<Rightarrow> bytes) \<Rightarrow> Manager \<Rightarrow> string \<Rightarrow> (string \<rightharpoonup> history) \<Rightarrow> cid \<Rightarrow> vstate \<Rightarrow> (string \<rightharpoonup> history) \<Rightarrow> bool" where
  "outcome X content mg bucket H root s' H' \<longleftrightarrow>
     (if cid_Defined root
      then (\<exists>M'. mst_repr (senv X mg s') (LoadMST root) M' \<and> keys_repr X (sview X mg s') M' H') \<and> well_formed (vx_deps X) content root
        \<and> (\<forall>v \<in> all_versions H'. v_seq v \<le> lastSeq (vs_reg s') bucket) \<and> rows_effect bucket (rows s') H H'
      else H' = H)"

section \<open>Keeping the other buckets\<close>

lemma versions_in_mono:
  assumes "versions_in X content co b H" and "gm_get (buckets (snd (co_log co'))) b = gm_get (buckets (snd (co_log co))) b"
    and "\<And>space. view_le (reads_view (vx_deps X) (fst (co_log co)) space) (reads_view (vx_deps X) (fst (co_log co')) space)"
    and "\<And>space. view_ok (vx_deps X) content (reads_view (vx_deps X) (fst (co_log co)) space) \<Longrightarrow> view_ok (vx_deps X) content (reads_view (vx_deps X) (fst (co_log co')) space)"
    and "lastSeq (snd (co_log co)) b \<le> lastSeq (snd (co_log co')) b" and "index_of (snd (co_log co')) b = index_of (snd (co_log co)) b"
  shows "versions_in X content co' b H"
proof -
  obtain st M where st: "gm_get (buckets (snd (co_log co))) b = Some st" "view_ok (vx_deps X) content (reads_view (vx_deps X) (fst (co_log co)) (st_Space st))"
      "mst_repr (view_env (vx_deps X) (reads_view (vx_deps X) (fst (co_log co)) (st_Space st))) (tree_at (st_Root st)) M"
      "keys_repr X (reads_view (vx_deps X) (fst (co_log co)) (st_Space st)) M H" "st_Name st = b"
    using assms(1) unfolding versions_in_def versions_at_def Let_def by blast
  then have "versions_at X content (co_log co') b st H"
    using assms(2,4) mst_repr_mono [OF view_le_env [OF assms(3)] st(3)] keys_repr_mono [OF assms(3) st(4)]
    unfolding versions_at_def Let_def by auto
  then show ?thesis using assms(1,5,6) st(5) unfolding versions_in_def by (blast intro: order_trans)
qed

lemma versions_in_registry:
  assumes "versions_in X content co b H" and "reg_kept s s'" and "vs_reg s = snd (co_log co)" and "co_log co' = (fst (co_log co), vs_reg s')"
  shows "versions_in X content co' b H"
proof -
  have k: "reg_rest (vs_reg s') = reg_rest (vs_reg s)" "\<forall>b. lastSeq (vs_reg s) b \<le> lastSeq (vs_reg s') b" using assms(2) by (simp_all add: reg_kept_def)
  note f = reg_rest_fields [OF k(1)]
  show ?thesis by (rule versions_in_mono [OF assms(1)]) (use k(2) f assms(3,4) in \<open>simp_all add: index_of_def\<close>)
qed

section \<open>The commit\<close>

lemma verSeqs_CommitRoot:
  assumes "CommitRoot b e n c now m = (m', err)"
  shows "verSeqs m' = verSeqs m"
proof -
  have "verSeqs (addClaimLocked p now c m) = verSeqs m" "verSeqs (dropClaimLocked due d m) = verSeqs m"
      "verSeqs (journalLocked b j now m) = verSeqs m" "verSeqs (addRegistration now r m) = verSeqs m" for p now c m due d j r
    by (auto simp: addClaimLocked_def dropClaimLocked_def enqueueReleaseLocked_def journalLocked_def addRegistration_def Let_def
        split: option.splits)
  then have "verSeqs (commitRows b s n c now m) = verSeqs m" for s
    by (simp add: commitRows_def fold_frame [where f = verSeqs])
  then show ?thesis using assms by (auto simp: CommitRoot_def split: option.splits if_splits)
qed

lemma Commit_shared:
  assumes "tx_ok D content tx" and "Commit D io newRoot tx co = ((co', tx'), err)" and "err = None \<or> (\<exists>e. err = Some (OpAdvanceRoot e))"
  shows "lastSeq (snd (co_log co')) = lastSeq (snd (co_log co))"
    and "err \<noteq> None \<Longrightarrow> index_of (snd (co_log co')) b = index_of (snd (co_log co)) b"
    and "err = None \<Longrightarrow> k \<in> index_of (snd (co_log co')) b \<longleftrightarrow> fst (snd k) = b \<and> (k \<in> index_of (snd (co_log co)) b \<or> k \<in> row_adds (tx_commit tx)) \<and> k \<notin> row_drops (tx_commit tx)"
proof -
  obtain mg m seg c m' rerr where ap: "mgr_AppendBatch (be_log D) (ci_open io) (ci_append io) (ci_now io) (ci_dirs io) (staged tx)
      \<lparr> op_Bucket = tx_bucket tx, op_Root = newRoot \<rparr> (co_log co) = ((mg, m), Inr seg)"
    and cr: "CommitRoot (tx_bucket tx) (st_Root (tx_state tx)) newRoot c (ci_now io) m = (m', rerr)"
    and c: "c = (tx_commit tx)\<lparr> rcm_Journal := \<lparr> ap_Segment = seg, ap_Blocks = staged tx \<rparr> \<rparr>"
    and co': "co_log co' = (mg, m')" "err = map_option OpAdvanceRoot rerr"
    by (rule Commit_appended [OF assms])
  have sh: "blobRefs m = blobRefs (snd (co_log co))" "verSeqs m = verSeqs (snd (co_log co))"
    using mgr_AppendBatch_shared [OF ap] by (simp_all add: shared_def)
  show "lastSeq (snd (co_log co')) = lastSeq (snd (co_log co))"
    using verSeqs_CommitRoot [OF cr] sh(2) co'(1) by (simp add: fun_eq_iff lastSeq_def)
  show "index_of (snd (co_log co')) b = index_of (snd (co_log co)) b" if "err \<noteq> None"
    using that cr co' sh(1) by (cases rerr) (auto simp: index_of_def dest: CommitRoot_error)
  show "k \<in> index_of (snd (co_log co')) b \<longleftrightarrow> fst (snd k) = b \<and> (k \<in> index_of (snd (co_log co)) b \<or> k \<in> row_adds (tx_commit tx)) \<and> k \<notin> row_drops (tx_commit tx)" if n: "err = None"
  proof -
    obtain st where "m' = commitRows (tx_bucket tx) st newRoot c (ci_now io) m" using cr n co'(2) by (auto simp: CommitRoot_ok_iff)
    then show ?thesis using commitRows_present [of "tx_bucket tx" st newRoot c "ci_now io" m k] co'(1) sh(1) c
      by (auto simp: index_of_def row_adds_def row_drops_def)
  qed
qed

section \<open>A transaction\<close>

abbreviation tx0 :: "string \<Rightarrow> State \<Rightarrow> Tx" where
  "tx0 b st \<equiv> \<lparr> tx_bucket = b, tx_state = st, tx_staging = NewOpStaging, tx_commit = emptyCommit, tx_held = True \<rparr>"

text \<open>The steps of a transaction on a bucket that exists.\<close>

lemma runTx_steps:
  assumes run: "runTx X io opr bucket fn co = Some (co', res)" and st: "gm_get (buckets (snd (co_log co))) bucket = Some st"
    and fn: "fn (fst (co_log co)) st (tree_at (st_Root st)) \<lparr> vs_tx = tx0 bucket st, vs_reg = snd (co_log co) \<rparr> = (s, r)"
  shows "bucket \<notin> co_locks co"
    and "r = Inl e \<Longrightarrow> co' = fst (Discard (tx0 bucket st) (with_registry (vs_reg s) (co\<lparr> co_locks := insert bucket (co_locks co) \<rparr>))) \<and> res = Inl (mapCommitError (OpFn e) opr)"
    and "r = Inr (root, x) \<Longrightarrow> \<not> cid_Defined root \<Longrightarrow>
      co' = fst (Discard (vs_tx s) (with_registry (vs_reg s) (co\<lparr> co_locks := insert bucket (co_locks co) \<rparr>))) \<and> res = Inr x"
    and "r = Inr (root, x) \<Longrightarrow> cid_Defined root \<Longrightarrow>
      \<exists>tx2 err. Commit (vx_deps X) io root (vs_tx s) (with_registry (vs_reg s) (co\<lparr> co_locks := insert bucket (co_locks co) \<rparr>)) = ((co', tx2), err)
        \<and> res = (case err of None \<Rightarrow> Inr x | Some e \<Rightarrow> Inl (mapCommitError e opr))"
proof -
  let ?co = "co\<lparr> co_locks := insert bucket (co_locks co) \<rparr>"
  have load: "LoadTree (tx0 bucket st) = tree_at (st_Root st)" by (rule fresh_tx(2)) (rule refl)
  show free: "bucket \<notin> co_locks co" using run by (auto simp: runTx_def WithTx_def Begin_def co_Lock_def split: if_splits)
  have cap: "captured fn bucket co = (case r of Inr (_, x) \<Rightarrow> Some x | _ \<Rightarrow> None)"
    using free st fn load by (simp add: captured_def Begin_def co_Lock_def mem_Get_def split: sum.split)
  have wt: "WithTx (vx_deps X) io bucket (runFn fn) co = Some (case r of
        Inl e \<Rightarrow> (fst (Discard (tx0 bucket st) (with_registry (vs_reg s) ?co)), Some (OpFn e))
      | Inr (root, x) \<Rightarrow> if \<not> cid_Defined root then (fst (Discard (vs_tx s) (with_registry (vs_reg s) ?co)), None)
          else (let ((co2, _), err) = Commit (vx_deps X) io root (vs_tx s) (with_registry (vs_reg s) ?co) in (co2, err)))"
    using free st fn load by (cases r) (auto simp: WithTx_def Begin_def co_Lock_def mem_Get_def runFn_def split: prod.split)
  show "co' = fst (Discard (tx0 bucket st) (with_registry (vs_reg s) ?co)) \<and> res = Inl (mapCommitError (OpFn e) opr)" if "r = Inl e"
    using run that unfolding runTx_def wt by simp
  show "co' = fst (Discard (vs_tx s) (with_registry (vs_reg s) ?co)) \<and> res = Inr x" if "r = Inr (root, x)" "\<not> cid_Defined root"
    using run that cap unfolding runTx_def wt by simp
  show "\<exists>tx2 err. Commit (vx_deps X) io root (vs_tx s) (with_registry (vs_reg s) ?co) = ((co', tx2), err) \<and> res = (case err of None \<Rightarrow> Inr x | Some e \<Rightarrow> Inl (mapCommitError e opr))"
    if "r = Inr (root, x)" "cid_Defined root"
    using run that cap unfolding runTx_def wt by (auto split: prod.splits option.splits)
qed

lemma Discard_log: "co_log (fst (Discard tx co)) = co_log co"
  by (simp add: Discard_def finalize_def co_release_def)

lemma Discard_locks: "tx_held tx \<Longrightarrow> co_locks (fst (Discard tx co)) = co_locks co - {tx_bucket tx}"
  by (simp add: Discard_def finalize_def co_release_def)

text \<open>What is assumed of the environment and the coordinator, throughout.\<close>

definition tx_env_ok :: "version_env \<Rightarrow> (cid \<Rightarrow> bytes) \<Rightarrow> string \<Rightarrow> Coordinator \<Rightarrow> bool" where
  "tx_env_ok X content bucket co \<longleftrightarrow> values_ok (vx_values X) content \<and> tiers_ok (vx_deps X) content \<and> logs_ok (be_log (vx_deps X)) content (co_log co)
     \<and> nextSeq (snd (co_log co)) < - 1 \<and> gm_get (mg_stores (fst (co_log co))) bucket \<noteq> None \<and> length bucket \<le> 2 ^ 16"

definition all_in :: "version_env \<Rightarrow> (cid \<Rightarrow> bytes) \<Rightarrow> Coordinator \<Rightarrow> (string \<rightharpoonup> (string \<rightharpoonup> history)) \<Rightarrow> bool" where
  "all_in X content co F \<longleftrightarrow> (\<forall>b H. F b = Some H \<longrightarrow> versions_in X content co b H)"

text \<open>The failure of an append leaves the log in a state of its own; every other failure keeps all that was.\<close>

definition append_failed :: "s3_error + 'r \<Rightarrow> bool" where
  "append_failed res \<longleftrightarrow> (\<exists>opr e. res = Inl (S3Commit opr (OpAppend e)))"

lemma versions_in_row:
  assumes "versions_in X content co b H"
  obtains st M where "gm_get (buckets (snd (co_log co))) b = Some st" and "st_Name st = b"
    and "view_ok (vx_deps X) content (reads_view (vx_deps X) (fst (co_log co)) (st_Space st))"
    and "mst_repr (view_env (vx_deps X) (reads_view (vx_deps X) (fst (co_log co)) (st_Space st))) (tree_at (st_Root st)) M"
    and "keys_repr X (reads_view (vx_deps X) (fst (co_log co)) (st_Space st)) M H"
  using assms unfolding versions_in_def versions_at_def Let_def by blast

text \<open>The commit of a closure's outcome.\<close>

lemma Commit_outcome:
  assumes env: "tx_env_ok X content bucket co" and F: "all_in X content co F" "F bucket = Some H"
    and st: "gm_get (buckets (snd (co_log co))) bucket = Some st" "st_Name st = bucket"
    and s: "onto X content (fst (co_log co)) \<lparr> vs_tx = tx0 bucket st, vs_reg = snd (co_log co) \<rparr> s" "outcome X content (fst (co_log co)) bucket H root s H'" "cid_Defined root"
    and cm: "Commit (vx_deps X) io root (vs_tx s) (with_registry (vs_reg s) (co\<lparr> co_locks := L \<rparr>)) = ((co', tx2), err)"
  shows "err = None \<Longrightarrow> all_in X content co' (F(bucket \<mapsto> H'))" and "err = Some (OpAdvanceRoot e) \<Longrightarrow> all_in X content co' F"
proof -
  let ?D = "vx_deps X" and ?co = "with_registry (vs_reg s) (co\<lparr> co_locks := L \<rparr>)" and ?mg = "fst (co_log co)"
  have tx: "tx_ok ?D content (vs_tx s)" "tx_bucket (vs_tx s) = bucket" "tx_state (vs_tx s) = st" "reg_kept \<lparr> vs_tx = tx0 bucket st, vs_reg = snd (co_log co) \<rparr> s"
      and good: "view_ok ?D content (sview X ?mg s)"
    using s(1) by (simp_all add: onto_def sgood_def tx_good_def)
  have log: "co_log ?co = (?mg, vs_reg s)" by (simp add: with_registry_def)
  have same: "reg_rest (vs_reg s) = reg_rest (snd (co_log co))" using tx(4) by (simp add: reg_kept_def)
  note f = reg_rest_fields [OF same]
  have E: "tiers_ok ?D content" "logs_ok (be_log ?D) content (co_log ?co)"
    using env logs_ok_meta [of _ content ?mg "snd (co_log co)" "vs_reg s"] f(3) unfolding log by (simp_all add: tx_env_ok_def)
  have out: "well_formed ?D content root" "\<forall>v \<in> all_versions H'. v_seq v \<le> lastSeq (vs_reg s) bucket" "rows_effect bucket (rows s) H H'"
      "\<exists>M'. mst_repr (senv X ?mg s) (LoadMST root) M' \<and> keys_repr X (sview X ?mg s) M' H'"
    using s(2,3) by (simp_all add: outcome_def)
  have fits: "batch_fits (be_log ?D) content (staged (vs_tx s)) \<lparr> op_Bucket = tx_bucket (vs_tx s), op_Root = root \<rparr> (co_log ?co)"
    using env out(1) staged_ok [OF tx(1)] tx(2) f(3) unfolding log by (simp add: batch_fits_def tx_env_ok_def Ops_Codec.op_ok_def well_formed_def)
  have row: "gm_get (buckets (snd (co_log ?co))) (tx_bucket (vs_tx s)) = Some (tx_state (vs_tx s))" using st(1) tx(2,3) f(1) unfolding log by simp
  have mid: "versions_in X content ?co b N" if "F b = Some N" for b N
    by (rule versions_in_registry [OF F(1) [unfolded all_in_def, rule_format, OF that] tx(4)]) (simp_all add: log)
  have keep: "versions_in X content co' b N" if "F b = Some N" "err = None \<or> (\<exists>e. err = Some (OpAdvanceRoot e))" "err \<noteq> None \<or> b \<noteq> bucket" for b N
  proof (rule versions_in_mono [OF mid [OF that(1)]])
    note view = Commit_view [OF tx(1) E fits cm that(2)] and pub = Commit_publishes [OF tx(1) E fits cm that(2) row] and sh = Commit_shared [OF tx(1) cm that(2)]
    show "gm_get (buckets (snd (co_log co'))) b = gm_get (buckets (snd (co_log ?co))) b" using pub(1) that(3) tx(2) by simp
    show "view_le (reads_view ?D (fst (co_log ?co)) space) (reads_view ?D (fst (co_log co')) space)" for space by (rule view(1))
    show "view_ok ?D content (reads_view ?D (fst (co_log ?co)) space) \<Longrightarrow> view_ok ?D content (reads_view ?D (fst (co_log co')) space)" for space by (rule view(2))
    show "lastSeq (snd (co_log ?co)) b \<le> lastSeq (snd (co_log co')) b" by (simp add: sh(1))
    show "index_of (snd (co_log co')) b = index_of (snd (co_log ?co)) b"
      using sh(2,3) that(3) out(3) by (cases err) (auto simp: rows_effect_def index_of_def)
  qed
  show "all_in X content co' F" if "err = Some (OpAdvanceRoot e)" unfolding all_in_def using keep that by blast
  assume n: "err = None"
  then have n': "err = None \<or> (\<exists>e. err = Some (OpAdvanceRoot e))" by blast
  note view = Commit_view [OF tx(1) E fits cm n'] and pub = Commit_publishes [OF tx(1) E fits cm n' row] and sh = Commit_shared [OF tx(1) cm n']
  have rv: "reads_view ?D (fst (co_log co')) (st_Space st) = sview X ?mg s" using view(3) tx(3) by (simp add: log)
  have "versions_at X content (co_log co') bucket (st\<lparr> st_Root := root \<rparr>) H'"
    using pub(2) [OF n] tx(2,3) rv good out(4) s(3) unfolding versions_at_def Let_def by (auto simp: tree_at_def)
  moreover have "index_of (snd (co_log co')) bucket = claims_of bucket H'"
  proof -
    have "index_of (snd (co_log ?co)) bucket = claims_of bucket H" using mid [OF F(2)] by (simp add: versions_in_def)
    then show ?thesis using sh(3) [OF n, of _ bucket] out(3) by (auto simp: rows_effect_def index_of_def)
  qed
  ultimately have "versions_in X content co' bucket H'" using out(2) sh(1) st(2) by (auto simp: versions_in_def log)
  then show "all_in X content co' (F(bucket \<mapsto> H'))" using keep n by (auto simp: all_in_def)
qed

lemma mapCommitError_append: "append_failed (Inl (mapCommitError e opr)) \<longleftrightarrow> (\<exists>a. e = OpAppend a)"
proof (cases e)
  case (OpAdvanceRoot r)
  then show ?thesis by (cases r) (auto simp: append_failed_def mapCommitError_def)
next
  case (OpFn f)
  then show ?thesis by (cases f) (auto simp: append_failed_def mapCommitError_def)
qed (auto simp: append_failed_def mapCommitError_def)

lemma Commit_errors: "Commit D io root tx co = ((co', tx2), Some e) \<Longrightarrow> tx_held tx \<Longrightarrow> (\<exists>a. e = OpAppend a) \<or> (\<exists>r. e = OpAdvanceRoot r)"
  by (auto simp: Commit_def Let_def split: prod.splits sum.splits)

text \<open>A transaction runs its closure on the histories of the bucket and publishes what it answers.\<close>

lemma begin_good:
  assumes "tx_env_ok X content bucket co" and "view_ok (vx_deps X) content (reads_view (vx_deps X) (fst (co_log co)) (st_Space st))"
  shows "sview X (fst (co_log co)) \<lparr> vs_tx = tx0 b st, vs_reg = m \<rparr> = reads_view (vx_deps X) (fst (co_log co)) (st_Space st)"
    and "sgood X content (fst (co_log co)) \<lparr> vs_tx = tx0 b st, vs_reg = m \<rparr>"
  using assms fresh_tx(1) [OF refl] fresh_tx(3) [OF refl] by (simp_all add: sgood_def tx_good_def tx_env_ok_def)

lemma runTx_acts:
  assumes env: "tx_env_ok X content bucket co" and F: "all_in X content co F" "F bucket = Some H"
    and fn: "\<And>st M s. gm_get (buckets (snd (co_log co))) bucket = Some st \<Longrightarrow> st_Name st = bucket \<Longrightarrow>
        s = \<lparr> vs_tx = tx0 bucket st, vs_reg = snd (co_log co) \<rparr> \<Longrightarrow> sgood X content (fst (co_log co)) s \<Longrightarrow>
        mst_repr (senv X (fst (co_log co)) s) (tree_at (st_Root st)) M \<Longrightarrow> keys_repr X (sview X (fst (co_log co)) s) M H \<Longrightarrow>
        acts X content (fst (co_log co)) s (fn (fst (co_log co)) st (tree_at (st_Root st))) (\<lambda>(root, x) s'. \<exists>H'. outcome X content (fst (co_log co)) bucket H root s' H' \<and> P st x H')"
    and run: "runTx X io opr bucket fn co = Some (co', res)"
  shows "res = Inr x \<Longrightarrow> \<exists>st H'. gm_get (buckets (snd (co_log co))) bucket = Some st \<and> P st x H' \<and> all_in X content co' (F(bucket \<mapsto> H'))"
    and "isl res \<Longrightarrow> \<not> append_failed res \<Longrightarrow> all_in X content co' F" and "co_locks co' = co_locks co"
proof -
  let ?mg = "fst (co_log co)" and ?L = "insert bucket (co_locks co)"
  obtain st M where st: "gm_get (buckets (snd (co_log co))) bucket = Some st" "st_Name st = bucket"
      and view: "view_ok (vx_deps X) content (reads_view (vx_deps X) ?mg (st_Space st))"
      and M: "mst_repr (view_env (vx_deps X) (reads_view (vx_deps X) ?mg (st_Space st))) (tree_at (st_Root st)) M"
        "keys_repr X (reads_view (vx_deps X) ?mg (st_Space st)) M H"
    using F unfolding all_in_def by (meson versions_in_row)
  define s0 where "s0 = \<lparr> vs_tx = tx0 bucket st, vs_reg = snd (co_log co) \<rparr>"
  note tx = begin_good(1) [OF env view, of bucket "snd (co_log co)", folded s0_def]
  note good = begin_good(2) [OF env view, of bucket "snd (co_log co)", folded s0_def]
  obtain s r where r: "fn ?mg st (tree_at (st_Root st)) s0 = (s, r)" by fastforce
  have acts: "reg_kept s0 s" "\<And>root x. r = Inr (root, x) \<Longrightarrow> onto X content ?mg s0 s \<and> (\<exists>H'. outcome X content ?mg bucket H root s H' \<and> P st x H')"
    using fn [OF st s0_def good, of M] M r unfolding tx by (auto simp: acts_def)
  note steps = runTx_steps [OF run st(1) r [unfolded s0_def]]
  have keep: "all_in X content co' F" if "co_log co' = (?mg, vs_reg s)"
    using F(1) versions_in_registry [OF _ acts(1) _ that] unfolding all_in_def by (simp add: s0_def)
  have log: "co_log (with_registry m (co\<lparr> co_locks := L \<rparr>)) = (?mg, m)" "co_locks (with_registry m (co\<lparr> co_locks := L \<rparr>)) = L" for m L by (simp_all add: with_registry_def)
  have "(res = Inr x \<longrightarrow> (\<exists>H'. P st x H' \<and> all_in X content co' (F(bucket \<mapsto> H')))) \<and> (isl res \<and> \<not> append_failed res \<longrightarrow> all_in X content co' F) \<and> co_locks co' = co_locks co"
  proof (cases r)
    case (Inl e)
    note d = steps(2) [OF Inl]
    then have "co_log co' = (?mg, vs_reg s)" "co_locks co' = co_locks co" using steps(1) by (auto simp: Discard_log Discard_locks log)
    then show ?thesis using keep d by simp
  next
    case (Inr p)
    obtain root y where y: "r = Inr (root, y)" using Inr by (cases p) auto
    obtain H' where H': "outcome X content ?mg bucket H root s H'" "P st y H'" and on: "onto X content ?mg s0 s" using acts(2) [OF y] by blast
    have held: "tx_held (vs_tx s)" "tx_bucket (vs_tx s) = bucket" using on by (simp_all add: onto_def s0_def)
    show ?thesis
    proof (cases "cid_Defined root")
      case False
      note d = steps(3) [OF y False]
      then have "co_log co' = (?mg, vs_reg s)" "co_locks co' = co_locks co" using steps(1) held by (auto simp: Discard_log Discard_locks log)
      moreover have "F(bucket \<mapsto> H') = F" using False H'(1) F(2) by (simp add: outcome_def fun_upd_idem)
      ultimately show ?thesis using keep d H'(2) by auto
    next
      case True
      obtain tx2 err where cm: "Commit (vx_deps X) io root (vs_tx s) (with_registry (vs_reg s) (co\<lparr> co_locks := ?L \<rparr>)) = ((co', tx2), err)"
          and res: "res = (case err of None \<Rightarrow> Inr y | Some e \<Rightarrow> Inl (mapCommitError e opr))" using steps(4) [OF y True] by blast
      note out = Commit_outcome [OF env F st on [unfolded s0_def] H'(1) True cm]
      have "co_locks co' = co_locks co" using Commit_locks [OF held(1) cm] held(2) steps(1) by (simp add: log)
      moreover have "all_in X content co' F" if e: "err = Some e" "\<not> append_failed (Inl (mapCommitError e opr) :: s3_error + 'a)" for e
      proof -
        have "\<nexists>a. e = OpAppend a" using e(2) by (simp add: mapCommitError_append)
        then obtain a where "e = OpAdvanceRoot a" using Commit_errors [OF cm [unfolded e(1)] held(1)] by blast
        then show ?thesis using out(2) e(1) by simp
      qed
      ultimately show ?thesis using out(1) res H'(2) by (cases err) auto
    qed
  qed
  then show "res = Inr x \<Longrightarrow> \<exists>st H'. gm_get (buckets (snd (co_log co))) bucket = Some st \<and> P st x H' \<and> all_in X content co' (F(bucket \<mapsto> H'))"
    "isl res \<Longrightarrow> \<not> append_failed res \<Longrightarrow> all_in X content co' F" "co_locks co' = co_locks co" using st(1) by blast+
qed

section \<open>Claim ids\<close>

lemma decDigits_value: "foldl (\<lambda>a c. a * 10 + (of_char c - 48)) 0 (decDigits n) = (n :: nat)"
proof (induction n rule: decDigits.induct)
  case (1 n)
  have "of_char (char_of (48 + k) :: char) = 48 + k" if "k < 10" for k :: nat using that by (simp add: of_char_of)
  then show ?case using 1 by (subst decDigits.simps) auto
qed

lemma decDigits_inj: "decDigits m = decDigits n \<Longrightarrow> m = n"
  by (metis decDigits_value)

lemma length_decDigits: "n < 10 ^ Suc k \<Longrightarrow> length (decDigits n) \<le> Suc k"
proof (induction k arbitrary: n)
  case 0
  then show ?case by (subst decDigits.simps) simp
next
  case (Suc k)
  then have "length (decDigits (n div 10)) \<le> Suc k" by (intro Suc.IH) (simp add: less_mult_imp_div_less mult.commute)
  then show ?case by (subst decDigits.simps) simp
qed

text \<open>No two versions share a claim id: an ordinal makes the difference between null versions, and no token
  looks like a null claim id.\<close>

lemma claim_id_inj:
  assumes "ulid_ok X" and "version_ok X a" and "version_ok X b" and "claimVersionID (v_id a) (v_seq a) = claimVersionID (v_id b) (v_seq b)"
  shows "v_seq a = v_seq b"
proof -
  have tok: "length (v_id w) = 26" if "version_ok X w" "\<not> is_null w" for w
  proof -
    have "fst (classifyVersionID X (v_id w)) = versionKindToken" using that by (simp add: version_ok_def)
    then obtain i where "vx_ulid_ParseStrict X (v_id w) = Inr i" by (auto simp: classifyVersionID_def split: if_splits sum.splits)
    then show ?thesis using assms(1) unfolding ulid_ok_def by blast
  qed
  have nul: "length (''null#'' @ decDigits (unat s)) < 26" for s :: seqno
  proof -
    have "unat s < 2 ^ 64" using unsigned_less [of s] by simp
    then show ?thesis using length_decDigits [of "unat s" 19] by simp
  qed
  show ?thesis
  proof (cases "is_null a \<longleftrightarrow> is_null b")
    case True
    then show ?thesis
      using assms(2-4) by (cases "is_null a") (auto simp: claimVersionID_def version_ok_def word_unat_eq_iff dest!: decDigits_inj)
  next
    case False
    then show ?thesis using assms(2,3) arg_cong [OF assms(4), of length] tok [of a] tok [of b] nul [of "v_seq a"] nul [of "v_seq b"] by (auto simp: claimVersionID_def)
  qed
qed

lemma version_claims_disjoint:
  assumes "ulid_ok X" and "version_ok X a" and "version_ok X b" and "v_seq a \<noteq> v_seq b"
  shows "version_claims bk k a \<inter> version_claims bk k b = {}"
  using claim_id_inj [OF assms(1-3)] assms(4) by (auto simp: version_claims_def)

section \<open>The rows of the write rule\<close>

abbreviation claim_rows :: "string \<Rightarrow> string \<Rightarrow> string \<Rightarrow> multihash list \<Rightarrow> claimKey set" where
  "claim_rows b k i ds \<equiv> (\<lambda>d. (d, b, k, i)) ` set ds"

lemma rows_addClaims:
  "row_adds (tx_commit (addClaims st key i ds p tx)) = row_adds (tx_commit tx) \<union> claim_rows (st_Name st) key i ds"
  "row_drops (tx_commit (addClaims st key i ds p tx)) = row_drops (tx_commit tx)"
  by (auto simp: addClaims_def ClaimBlobs_def PinBlobs_def row_adds_def row_drops_def claim_key_def digestSet_def image_Un image_image Let_def)

lemma rows_dropClaims:
  "row_adds (tx_commit (dropClaims X st key i ds tx)) = row_adds (tx_commit tx)"
  "row_drops (tx_commit (dropClaims X st key i ds tx)) = row_drops (tx_commit tx) \<union> claim_rows (st_Name st) key i ds"
  by (auto simp: dropClaims_def DropClaims_def row_adds_def row_drops_def drop_key_def digestSet_def image_Un image_image)

lemma rows_enqueue:
  "row_adds (tx_commit (enqueueRegistration X st key c opr tx)) = row_adds (tx_commit tx)"
  "row_drops (tx_commit (enqueueRegistration X st key c opr tx)) = row_drops (tx_commit tx)"
  by (auto simp: enqueueRegistration_def EnqueueUploadRegistration_def row_adds_def row_drops_def split: sum.split)

lemma rows_fold_drop:
  "row_adds (tx_commit (fold (\<lambda>d. dropClaims X st key (claimVersionID (dv_versionID d) (dv_seq d)) (dv_digests d)) ds tx)) = row_adds (tx_commit tx)"
  "row_drops (tx_commit (fold (\<lambda>d. dropClaims X st key (claimVersionID (dv_versionID d) (dv_seq d)) (dv_digests d)) ds tx)) =
     row_drops (tx_commit tx) \<union> (\<Union>d \<in> set ds. claim_rows (st_Name st) key (claimVersionID (dv_versionID d) (dv_seq d)) (dv_digests d))"
  by (induction ds arbitrary: tx) (auto simp: rows_dropClaims)

lemma rows_fold_enqueue:
  "row_adds (tx_commit (fold (\<lambda>d. enqueueRegistration X st key (dv_manifest d) opr) ds tx)) = row_adds (tx_commit tx)"
  "row_drops (tx_commit (fold (\<lambda>d. enqueueRegistration X st key (dv_manifest d) opr) ds tx)) = row_drops (tx_commit tx)"
  by (induction ds arbitrary: tx) (simp_all add: rows_enqueue)

lemma rows_empty: "row_adds emptyCommit = {}" "row_drops emptyCommit = {}"
  by (simp_all add: row_adds_def row_drops_def emptyCommit_def)

lemma carryRows_rows:
  assumes "tx_commit tx = emptyCommit" and "st_Name st = b"
  shows "row_adds (tx_commit (carryRows X st key (nodeOf v) (v_digests v) p (map discard_of g) tx)) = version_claims b key v"
    and "row_drops (tx_commit (carryRows X st key (nodeOf v) (v_digests v) p (map discard_of g) tx)) = (\<Union>w \<in> set g. version_claims b key w)"
  using assms by (auto simp: carryRows_def rows_fold_enqueue rows_enqueue rows_fold_drop rows_addClaims rows_empty version_claims_def nodeOf_def discard_of_def)

text \<open>The claims of the histories after the write.\<close>

lemma claims_of_upd: "claims_of b (H(key := ho)) = key_claims b key ho \<union> (\<Union>k \<in> - {key}. key_claims b k (H k))"
  by (auto simp: claims_of_def split: if_splits)

lemma claims_of_split: "claims_of b H = key_claims b key (H key) \<union> (\<Union>k \<in> - {key}. key_claims b k (H k))"
  using claims_of_upd [of b H key "H key"] by simp

lemma key_claims_key: "c \<in> key_claims b k ho \<Longrightarrow> fst (snd c) = b \<and> fst (snd (snd c)) = k"
  by (auto simp: key_claims_def version_claims_def split: option.splits)

text \<open>The rows add the claims of one version and drop those of others of the key: what is left are the claims
  of the histories.\<close>

lemma rows_effect_key:
  assumes "row_adds c = A" and "row_drops c = (\<Union>w \<in> G. version_claims b key w)" and "\<And>x. x \<in> A \<Longrightarrow> fst (snd x) = b \<and> fst (snd (snd x)) = key"
    and "(key_claims b key (H key) \<union> A) - (\<Union>w \<in> G. version_claims b key w) = key_claims b key ho"
  shows "rows_effect b c H (H(key := ho))"
proof -
  have g: "fst (snd x) = b \<and> fst (snd (snd x)) = key" if "x \<in> (\<Union>w \<in> G. version_claims b key w)" for x using that by (auto simp: version_claims_def)
  have r: "x \<notin> (\<Union>w \<in> G. version_claims b key w)" if x: "x \<in> (\<Union>k \<in> - {key}. key_claims b k (H k))" for x
  proof -
    obtain k where "k \<noteq> key" "x \<in> key_claims b k (H k)" using x by blast
    then have "fst (snd (snd x)) \<noteq> key" using key_claims_key [of x b k] by blast
    then show ?thesis using g [of x] by blast
  qed
  have "(claims_of b H \<union> A) - (\<Union>w \<in> G. version_claims b key w) = claims_of b (H(key := ho))"
    unfolding claims_of_upd claims_of_split [of b H key] using r assms(4) by blast
  moreover have "\<forall>x \<in> A \<union> (\<Union>w \<in> G. version_claims b key w). fst (snd x) = b" using assms(3) g by blast
  ultimately show ?thesis unfolding rows_effect_def assms(1,2) by blast
qed

lemma put_claims:
  assumes "ulid_ok X" and new: "hist_ok X (v # kept (v_id v) h)" and h: "hist_ok X h" "h = (case ho of None \<Rightarrow> [] | Some h \<Rightarrow> h)" and fresh: "\<forall>u \<in> set h. v_seq u \<noteq> v_seq v"
  shows "(key_claims b key ho \<union> version_claims b key v) - (\<Union>w \<in> set (gone (v_id v) h). version_claims b key w) = key_claims b key (Some (put_version v h))"
proof -
  have ho: "key_claims b key ho = (\<Union>u \<in> set h. version_claims b key u)" using h(2) by (cases ho) (simp_all add: key_claims_def)
  have parts: "set h = set (kept (v_id v) h) \<union> set (gone (v_id v) h)" by (auto simp: kept_def gone_def)
  have ok: "version_ok X u" if "u \<in> set (v # h)" for u using new h(1) that by (auto simp: hist_ok_Cons hist_ok_def)
  have disj: "version_claims b key u \<inter> version_claims b key w = {}" if "u \<in> set (v # kept (v_id v) h)" "w \<in> set (gone (v_id v) h)" for u w
  proof (rule version_claims_disjoint [OF assms(1)])
    have w: "w \<in> set h" "u = v \<or> u \<in> set h \<and> u \<noteq> w" using that by (auto simp: kept_def gone_def split: if_splits)
    then show "version_ok X u" "version_ok X w" using ok by auto
    show "v_seq u \<noteq> v_seq w" using w fresh hist_seq_inj [OF h(1)] by auto
  qed
  then show ?thesis unfolding ho parts by (auto simp: key_claims_def put_version_kept)
qed

section \<open>The write rule as a transaction\<close>

lemma all_versions_upd: "all_versions (H(k := ho)) \<subseteq> all_versions H \<union> (case ho of None \<Rightarrow> {} | Some h \<Rightarrow> set h)"
  by (auto simp: all_versions_def split: if_splits)

lemma key_versions: "H k = Some h \<Longrightarrow> set h \<subseteq> all_versions H"
  by (auto simp: all_versions_def)

lemma keys_repr_upd:
  assumes "keys_repr X B M H" and "key_repr X B c h" and "hist_ok X h" and "IsValidKey key"
  shows "keys_repr X B (M(key \<mapsto> c)) (H(key \<mapsto> h))"
  using assms by (auto simp: keys_repr_def)

lemma keys_repr_del: "keys_repr X B M H \<Longrightarrow> keys_repr X B (M(key := None)) (H(key := None))"
  by (auto simp: keys_repr_def)

text \<open>A version made of a request: the manifest with its ordinal, its id and its stored blob list; the
  digests of the blobs; the state it was created with.\<close>

definition version_of :: "write_request \<Rightarrow> VersioningState \<Rightarrow> version \<Rightarrow> bool" where
  "version_of w vs v \<longleftrightarrow> (vs = VersioningEnabled \<longleftrightarrow> \<not> is_null v) \<and> v_digests v = request_digests w \<and> v_state v = wr_initState w
     \<and> v_mf v = (wr_mf w)\<lparr> mf_Seq := v_seq v, mf_VersionID := v_id v, mf_Body := (mf_Body (wr_mf w))\<lparr> body_Blobs := body_Blobs (mf_Body (v_mf v)) \<rparr> \<rparr>"

lemma becomes_version: "becomes X B vs w v \<Longrightarrow> version_of w vs v"
  by (auto simp: becomes_def version_of_def id_for_def written_as_def)

definition history_of :: "(string \<rightharpoonup> history) \<Rightarrow> string \<Rightarrow> history" where
  "history_of H k = (case H k of None \<Rightarrow> [] | Some h \<Rightarrow> h)"

lemma committed_outcome:
  assumes c: "committed X content mg (tx0 bucket st) st w M H (root, node, vs) s'" and keys: "keys_repr X (sview X mg s') M H" and name: "st_Name st = bucket"
    and ulid: "ulid_ok X" and bound: "\<forall>v \<in> all_versions H. v_seq v \<le> lastSeq (vs_reg s') bucket"
  shows "\<exists>v. outcome X content mg bucket H root s' (H(wr_key w \<mapsto> put_version v (history_of H (wr_key w)))) \<and> node = nodeOf v \<and> vs = st_Versioning st
    \<and> version_of w vs v \<and> (\<forall>u \<in> all_versions H. v_seq u \<noteq> v_seq v) \<and> wr_preCheck w (map_option (\<lambda>h. v_mf (hd h)) (H (wr_key w))) = None"
proof -
  let ?key = "wr_key w"
  obtain v c h where h: "h = history_of H ?key" and v: "node = nodeOf v" "vs = st_Versioning st" "becomes X (sview X mg s') (st_Versioning st) w v"
      "\<forall>u \<in> all_versions H. v_seq u \<noteq> v_seq v" "v_seq v \<le> lastSeq (vs_reg s') (st_Name st)" "wr_preCheck w (map_option (\<lambda>h. v_mf (hd h)) (H ?key)) = None"
      "mst_repr (senv X mg s') (LoadMST root) (M(?key \<mapsto> c))" "well_formed (vx_deps X) content root" "IsValidKey ?key"
      "key_repr X (sview X mg s') c (put_version v h)" "hist_ok X (put_version v h)"
      "rows s' = tx_commit (carryRows X st ?key (nodeOf v) (v_digests v) (wr_pinned w) (map discard_of (gone (v_id v) h)) (tx0 bucket st))"
    using c unfolding committed_def history_of_def by auto
  have hh: "hist_ok X h" using keys_repr_at(2) [OF keys] by (simp add: h history_of_def split: option.split)
  have sub: "set h \<subseteq> all_versions H" using key_versions [of H ?key] by (cases "H ?key") (auto simp: h history_of_def)
  have "set (put_version v h) \<subseteq> insert v (all_versions H)" using sub set_kept [of "v_id v" h] by (auto simp: put_version_kept)
  then have "\<forall>u \<in> all_versions (H(?key \<mapsto> put_version v h)). v_seq u \<le> lastSeq (vs_reg s') bucket"
    using all_versions_upd [of H ?key "Some (put_version v h)"] bound v(5) name by auto
  moreover have "rows_effect bucket (rows s') H (H(?key \<mapsto> put_version v h))"
  proof (rule rows_effect_key)
    note cr = carryRows_rows [of "tx0 bucket st" st bucket X ?key v "wr_pinned w" "gone (v_id v) h"]
    show "row_adds (rows s') = version_claims bucket ?key v" "row_drops (rows s') = (\<Union>w \<in> set (gone (v_id v) h). version_claims bucket ?key w)"
      unfolding v(12) using cr name by simp_all
    show "fst (snd x) = bucket \<and> fst (snd (snd x)) = ?key" if "x \<in> version_claims bucket ?key v" for x using that by (auto simp: version_claims_def)
    show "(key_claims bucket ?key (H ?key) \<union> version_claims bucket ?key v) - (\<Union>w \<in> set (gone (v_id v) h). version_claims bucket ?key w)
        = key_claims bucket ?key (Some (put_version v h))"
      by (rule put_claims [OF ulid _ hh]) (use v(4,11) sub h in \<open>auto simp: put_version_kept history_of_def\<close>)
  qed
  moreover have "cid_Defined root" using v(8) by (simp add: well_formed_def)
  ultimately have "outcome X content mg bucket H root s' (H(?key \<mapsto> put_version v h))"
    using v(7,8) keys_repr_upd [OF keys v(10,11,9)] by (auto simp: outcome_def)
  then show ?thesis using v(1-4,6) becomes_version [OF v(3)] h by (intro exI [of _ v]) simp
qed

section \<open>Properties\<close>

text \<open>C3. The write rule. Each bucket stands for the histories of its keys, read from its published root through
  the local copies, the log and the network, with the reference index holding exactly the claims of their
  versions. A commit that succeeds has put one new version at the head of the key's history: a numbered
  version, before all the others, where the bucket read under the lock is versioned, and otherwise a null
  version that takes the place of the null version there was. It carries the request's manifest, digests and
  lock state, an ordinal no version of the bucket had, and was accepted by the precondition against the
  newest version. No other key, no other bucket changes, and the index is again exact: the claims of a
  replaced version are dropped and those of every other version kept. A commit that fails in its closure or at
  the root swap leaves every history and claim as it was.\<close>

theorem commitVersionAt_refines:
  assumes "tx_env_ok X content bucket co" and "all_in X content co F" and "F bucket = Some H" and "ulid_ok X" and "length tm = 6"
    and "lastSeq (snd (co_log co)) bucket \<noteq> - 1" and "request_ok w"
    and "\<forall>r. wr_reserved w = Some r \<longrightarrow> reservation_ok X H (snd (co_log co)) bucket r"
    and "commitVersionAt X io tm bucket w co = Some (co', res)"
  shows "(\<forall>node vs. res = Inr (node, vs) \<longrightarrow> (\<exists>v. node = nodeOf v \<and> version_of w vs v
        \<and> map_option st_Versioning (gm_get (buckets (snd (co_log co))) bucket) = Some vs
        \<and> (\<forall>u \<in> all_versions H. v_seq u \<noteq> v_seq v) \<and> wr_preCheck w (map_option (\<lambda>h. v_mf (hd h)) (H (wr_key w))) = None
        \<and> all_in X content co' (F(bucket \<mapsto> H(wr_key w \<mapsto> put_version v (history_of H (wr_key w)))))))
    \<and> (isl res \<and> \<not> append_failed res \<longrightarrow> all_in X content co' F) \<and> co_locks co' = co_locks co"
proof -
  let ?mg = "fst (co_log co)"
  define P where "P = (\<lambda>(st :: State) (node, vs) H'. \<exists>v. node = nodeOf v \<and> vs = st_Versioning st \<and> version_of w vs v \<and> (\<forall>u \<in> all_versions H. v_seq u \<noteq> v_seq v)
      \<and> wr_preCheck w (map_option (\<lambda>h. v_mf (hd h)) (H (wr_key w))) = None \<and> H' = H(wr_key w \<mapsto> put_version v (history_of H (wr_key w))))"
  have bound: "\<forall>v \<in> all_versions H. v_seq v \<le> lastSeq (snd (co_log co)) bucket" using assms(2,3) by (simp add: all_in_def versions_in_def)
  have fn: "acts X content ?mg s (commitVersionFn X ?mg tm w st (tree_at (st_Root st))) (\<lambda>(root, x) s'. \<exists>H'. outcome X content ?mg bucket H root s' H' \<and> P st x H')"
    if st: "st_Name st = bucket" "s = \<lparr> vs_tx = tx0 bucket st, vs_reg = snd (co_log co) \<rparr>" "sgood X content ?mg s"
      "mst_repr (senv X ?mg s) (tree_at (st_Root st)) M" "keys_repr X (sview X ?mg s) M H" for st M s
  proof -
    have act: "acts X content ?mg s (commitVersionFn X ?mg tm w st (tree_at (st_Root st))) (committed X content ?mg (vs_tx s) st w M H)"
      by (rule acts_commitVersionFn [OF st(3) assms(4,5) _ _ _ st(4,5) assms(7)]) (use assms(6,8) bound st(1,2) in auto)
    have out: "\<exists>H'. outcome X content ?mg bucket H root s' H' \<and> P st x H'"
      if s': "onto X content ?mg s s'" "committed X content ?mg (vs_tx s) st w M H (root, x) s'" for root x s'
    proof -
      obtain node vs where x: "x = (node, vs)" by (cases x)
      have b: "\<forall>v \<in> all_versions H. v_seq v \<le> lastSeq (vs_reg s') bucket" using bound onto_seq [OF s'(1), of bucket] st(2) by (auto intro: order_trans)
      have c: "committed X content ?mg (tx0 bucket st) st w M H (root, node, vs) s'" using s'(2) x st(2) by simp
      show ?thesis
        using committed_outcome [OF c keys_repr_mono [OF onto_view [OF s'(1)] st(5)] st(1) assms(4) b] unfolding x P_def by auto
    qed
    show ?thesis by (rule acts_weaken [OF act]) (auto dest: out)
  qed
  note tx = runTx_acts [OF assms(1-3) fn assms(9) [unfolded commitVersionAt_def]]
  show ?thesis using tx(1,2,3) unfolding P_def by fastforce
qed

text \<open>A transaction that carries no claims succeeds on the bucket of the examples.\<close>

lemma demo_runTx:
  assumes co: "co_locks co = {}" "fst (co_log co) = fst (co_log demo_co)" "nextSeq (snd (co_log co)) = 0" "gm_get (buckets (snd (co_log co))) ''photos'' = Some st"
    and fn: "fn (fst (co_log co)) st (tree_at (st_Root st)) \<lparr> vs_tx = tx0 ''photos'' st, vs_reg = snd (co_log co) \<rparr> = (s, Inr (root, x))"
    and on: "onto demo_versions demo_content (fst (co_log co)) \<lparr> vs_tx = tx0 ''photos'' st, vs_reg = snd (co_log co) \<rparr> s"
    and root: "well_formed demo_net demo_content root" and rows: "rcm_Claims (rows s) = []" "rcm_Pins (rows s) = []"
  shows "\<exists>co'. runTx demo_versions demo_commit_io opr ''photos'' fn co = Some (co', Inr x)"
proof -
  let ?co = "with_registry (vs_reg s) (co\<lparr> co_locks := {''photos''} \<rparr>)" and ?opr = "\<lparr> op_Bucket = ''photos'', op_Root = root \<rparr>"
  have tx: "tx_ok demo_net demo_content (vs_tx s)" "tx_held (vs_tx s)" "tx_bucket (vs_tx s) = ''photos''" "tx_state (vs_tx s) = st"
    using on by (simp_all add: onto_def sgood_def tx_good_def)
  have reg: "nextSeq (vs_reg s) = 0" "buckets (vs_reg s) = buckets (snd (co_log co))"
    using on co(3) reg_rest_fields [of "vs_reg s" "snd (co_log co)"] by (simp_all add: onto_def reg_kept_def)
  have log: "co_log ?co = (fst (co_log demo_co), vs_reg s)" by (simp add: with_registry_def co(2))
  have op: "op_ok (Cast demo_log_env) ?opr" using root by (simp add: Ops_Codec.op_ok_def well_formed_def demo_net_simps)
  obtain mg m seg where ap: "mgr_AppendBatch demo_log_env demo_open_io no_faults 5 (\<lambda>_. gm_empty) (staged (vs_tx s)) ?opr (co_log ?co) = ((mg, m), Inr seg)"
    using demo_log_append [OF op, of "vs_reg s"] reg(1) unfolding log by (metis OpRoot.select_convs(1) prod.exhaust)
  have "gm_get (buckets m) ''photos'' = Some st" using mgr_AppendBatch_buckets [OF ap] reg(2) co(4) by (simp add: log)
  then have "\<exists>m'. CommitRoot ''photos'' (st_Root st) root ((rows s)\<lparr> rcm_Journal := \<lparr> ap_Segment = seg, ap_Blocks = staged (vs_tx s) \<rparr> \<rparr>) 5 m = (m', None)"
    using rows by (simp add: CommitRoot_def)
  then obtain co' tx2 where "Commit demo_net demo_commit_io root (vs_tx s) ?co = ((co', tx2), None :: fn_error op_error option)"
    using ap tx root staged_ok(1) [OF tx(1)]
    by (auto simp: Commit_def staging_Commit_def appendStaged_def staged_def [symmetric] demo_commit_io_def demo_net_simps well_formed_def
        finalize_def Let_def split: prod.splits)
  moreover have "LoadTree (tx0 ''photos'' st) = tree_at (st_Root st)" by (rule fresh_tx(2)) (rule refl)
  ultimately show ?thesis using fn root co
    by (simp add: runTx_def WithTx_def captured_def runFn_def Begin_def co_Lock_def mem_Get_def well_formed_def)
qed


definition demo_request :: write_request where
  "demo_request = \<lparr> wr_key = ''a'', wr_mf = markerManifest ''a'' 5, wr_blobs = None, wr_initState = None, wr_pinned = False,
     wr_reserved = None, wr_preCheck = (\<lambda>_. None) \<rparr>"

abbreviation demo_tx_manifest :: Tx where
  "demo_tx_manifest \<equiv> tx_PutBlock (''V'', ''world'') demo_tx"

lemma demo_tree_steps:
  "mst_Get mst_fuel (tx_reader demo_net (fst (co_log demo_co)) demo_tx_manifest) NewEmptyMST ''a'' = Inl ErrNotFound"
  "\<not> isl (mst_Add mst_fuel (tx_reader demo_net (fst (co_log demo_co)) demo_tx_manifest) NewEmptyMST ''a'' ''V'' (- 1))"
  "map_sum id (\<lambda>(c, tx). (c, rcm_Claims (tx_commit tx), rcm_Pins (tx_commit tx))) (tx_GetPointer demo_net (fst (co_log demo_co)) (projr (mst_Add mst_fuel (tx_reader demo_net (fst (co_log demo_co)) demo_tx_manifest) NewEmptyMST ''a'' ''V'' (- 1)))
     demo_tx_manifest) = Inr (''A'', [], [])"
  by code_simp+

lemma demo_writes:
  "EnvelopedManifest_Marshal (vx_values demo_versions) demo_marker = Inr (''V'', ''world'')"
  by (simp add: EnvelopedManifest_Marshal_def ObjectValue_Marshal_def demo_versions_def arms_def ManifestValue_def)

lemma demo_commit_fn:
  "\<exists>s. commitVersionFn demo_versions (fst (co_log demo_co)) ''000000'' demo_request demo_photos NewEmptyMST \<lparr> vs_tx = demo_tx, vs_reg = snd (co_log demo_co) \<rparr>
    = (s, Inr (''A'', nodeOf demo_version, VersioningUnversioned)) \<and> rcm_Claims (rows s) = [] \<and> rcm_Pins (rows s) = []"
proof -
  let ?mg = "fst (co_log demo_co)"
  obtain t where add: "mst_Add mst_fuel (tx_reader demo_net ?mg demo_tx_manifest) NewEmptyMST ''a'' ''V'' (- 1) = Inr t"
    using demo_tree_steps(2) by (cases "mst_Add mst_fuel (tx_reader demo_net ?mg demo_tx_manifest) NewEmptyMST ''a'' ''V'' (- 1)") auto
  then obtain tx' where ptr: "tx_GetPointer demo_net ?mg t demo_tx_manifest = Inr (''A'', tx')" "rcm_Claims (tx_commit tx') = []" "rcm_Pins (tx_commit tx') = []"
    using demo_tree_steps(3) by (cases "tx_GetPointer demo_net ?mg t demo_tx_manifest") auto
  have alloc: "AllocVersionSeq ''photos'' (snd (co_log demo_co)) = ((snd (co_log demo_co))\<lparr> verSeqs := gm_put ''photos'' 1 gm_empty \<rparr>, Inr 1)"
    by (simp add: AllocVersionSeq_def demo_co_def NewMemStore_def)
  have marker: "(markerManifest ''a'' 5)\<lparr> mf_Seq := 1, mf_VersionID := NullVersionID \<rparr> = demo_marker" by (simp add: demo_marker_def)
  have digs: "bodyDigests (vx_values demo_versions) B (mf_Body demo_marker) = Inr []" for B
    by (rule bodyDigests_empty) (simp_all add: demo_marker_def markerManifest_def emptyBody_def)
  have st: "st_Name demo_photos = ''photos''" "st_Versioning demo_photos = VersioningUnversioned" by (simp_all add: demo_photos_def)
  have rows: "carryRows demo_versions demo_photos ''a'' n [] False [] tx = tx" for n tx
    by (simp add: carryRows_def addClaims_def digestSet_def ClaimBlobs_def enqueueRegistration_def demo_versions_def)
  show ?thesis
    using add ptr demo_tree_steps(1)
    by (simp add: commitVersionFn_def chooseVersion_def bindA_def returnA_def allocSeqA_def alloc st writeManifest_def putA_def txA_def tx_PutAs_def
        demo_request_def marker demo_writes loadPrior_def viewA_def readA_def tx_reader_view supersede_def setPrev_def maintainState_def stampState_def
        writeValue_def treeA_def treeE_def blockE_def digs rowsA_def rows pointerA_def nodeOf_def demo_version_def Let_def)
qed

lemma demo_env_ok: "tx_env_ok demo_versions demo_content ''photos'' demo_co" "ulid_ok demo_versions"
proof -
  show "tx_env_ok demo_versions demo_content ''photos'' demo_co"
    using demo_values_ok demo_co_ok by (simp add: tx_env_ok_def demo_net_simps)
  show "ulid_ok demo_versions" by (auto simp: ulid_ok_def demo_versions_def split: if_splits)
qed

lemma demo_empty_at: "versions_at demo_versions demo_content (co_log demo_co) ''photos'' demo_photos Map.empty"
proof -
  let ?E = "view_env demo_net (reads_view demo_net (fst (co_log demo_co)) (st_Space demo_photos))"
  have "mst_repr ?E NewEmptyMST Map.empty" by (rule mst_repr_empty) (simp add: sha_ok_def view_env_def demo_net_simps)
  moreover have "keys_repr demo_versions B Map.empty Map.empty" for B by (simp add: keys_repr_def)
  ultimately show ?thesis using demo_view_ok by (auto simp: versions_at_def Let_def demo_co_def demo_photos_def tree_at_def cid_Defined_def)
qed

lemma demo_empty_in: "all_in demo_versions demo_content demo_co [''photos'' \<mapsto> Map.empty]"
  using demo_empty_at
  by (auto simp: all_in_def versions_in_def all_versions_def claims_of_def key_claims_def index_of_def demo_co_def demo_photos_def NewMemStore_def split: if_splits)

theorem commitVersionAt_refines_witness:
  "\<exists>co' v. commitVersionAt demo_versions demo_commit_io ''000000'' ''photos'' demo_request demo_co = Some (co', Inr (nodeOf v, VersioningUnversioned))
     \<and> is_null v \<and> all_in demo_versions demo_content co' [''photos'' \<mapsto> [''a'' \<mapsto> [v]]]"
proof -
  let ?s = "\<lparr> vs_tx = tx0 ''photos'' demo_photos, vs_reg = snd (co_log demo_co) \<rparr>" and ?w = demo_request
  have b: "gm_get (buckets (snd (co_log demo_co))) ''photos'' = Some demo_photos" "tree_at (st_Root demo_photos) = NewEmptyMST"
    by (simp_all add: demo_co_def demo_photos_def tree_at_def cid_Defined_def)
  obtain s where s: "commitVersionFn demo_versions (fst (co_log demo_co)) ''000000'' ?w demo_photos NewEmptyMST ?s
      = (s, Inr (''A'', nodeOf demo_version, VersioningUnversioned))" "rcm_Claims (rows s) = []" "rcm_Pins (rows s) = []"
    using demo_commit_fn unfolding demo_tx_def by blast
  have seq: "lastSeq (snd (co_log demo_co)) ''photos'' = 0" by (simp add: lastSeq_def demo_co_def NewMemStore_def)
  have req: "request_ok ?w" by (simp add: request_ok_def demo_request_def markerManifest_def emptyBody_def)
  have res: "\<forall>r. wr_reserved ?w = Some r \<longrightarrow> reservation_ok demo_versions Map.empty (snd (co_log demo_co)) ''photos'' r" by (simp add: demo_request_def)
  obtain M where M: "mst_repr (senv demo_versions (fst (co_log demo_co)) ?s) NewEmptyMST M" "keys_repr demo_versions (sview demo_versions (fst (co_log demo_co)) ?s) M Map.empty"
    using begin_good(1) [OF demo_env_ok(1)] demo_view_ok b demo_empty_at by (auto simp: versions_at_def Let_def)
  have "acts demo_versions demo_content (fst (co_log demo_co)) ?s (commitVersionFn demo_versions (fst (co_log demo_co)) ''000000'' ?w demo_photos NewEmptyMST)
      (committed demo_versions demo_content (fst (co_log demo_co)) (vs_tx ?s) demo_photos ?w M Map.empty)"
    by (rule acts_commitVersionFn [OF begin_good(2) [OF demo_env_ok(1)] demo_env_ok(2) _ _ _ _ M req])
      (use demo_view_ok seq res in \<open>simp_all add: demo_photos_def all_versions_def\<close>)
  then have "onto demo_versions demo_content (fst (co_log demo_co)) ?s s \<and> well_formed demo_net demo_content ''A''"
    using s(1) by (auto simp: acts_def committed_def)
  then obtain co' where run: "commitVersionAt demo_versions demo_commit_io ''000000'' ''photos'' ?w demo_co = Some (co', Inr (nodeOf demo_version, VersioningUnversioned))"
    unfolding commitVersionAt_def using demo_runTx [OF _ refl demo_nextSeq b(1), of "\<lambda>mg. commitVersionFn demo_versions mg ''000000'' ?w"] s b(2)
    by (auto simp: demo_co_def)
  have "\<exists>v. nodeOf demo_version = nodeOf v \<and> version_of ?w VersioningUnversioned v
      \<and> all_in demo_versions demo_content co' ([''photos'' \<mapsto> Map.empty](''photos'' \<mapsto> Map.empty(wr_key ?w \<mapsto> put_version v (history_of Map.empty (wr_key ?w)))))"
    using commitVersionAt_refines [OF demo_env_ok(1) demo_empty_in _ demo_env_ok(2) _ _ req res run] seq by fastforce
  then show ?thesis using run
    by (auto simp: put_version_def history_of_def demo_request_def version_of_def nodeOf_def)
qed

end
