(* ===== verification/S3_VersionDelete.thy ===== *)
theory S3_VersionDelete
  imports S3_VersionTx
begin

text \<open>
  The deletion of one version: the version with the id leaves the key's history and its claims leave the
  reference index; a key whose last version goes leaves the bucket. Deleting the newest version puts the next
  one at the head, read back from the tree of noncurrent versions. A version that is not there makes the
  delete a no-op.
\<close>

section \<open>Histories without a version\<close>

definition removal :: "version \<Rightarrow> history \<Rightarrow> history option" where
  "removal v h = (case drop_version (v_seq v) h of [] \<Rightarrow> None | w # ws \<Rightarrow> Some (w # ws))"

lemma set_drop_version:
  assumes "hist_ok X h" and "v \<in> set h"
  shows "set (drop_version (v_seq v) h) = set h - {v}"
proof -
  have "v_seq u = v_seq v \<longleftrightarrow> u = v" if "u \<in> set h" for u using hist_seq_inj [OF assms(1) that assms(2)] by blast
  then show ?thesis by (auto simp: drop_version_def)
qed

lemma drop_version_head: "hist_ok X (v # vs) \<Longrightarrow> drop_version (v_seq v) (v # vs) = vs"
  by (auto simp: drop_version_def hist_ok_Cons intro!: filter_True)

lemma drop_version_tail: "hist_ok X (v # vs) \<Longrightarrow> w \<in> set vs \<Longrightarrow> drop_version (v_seq w) (v # vs) = v # drop_version (v_seq w) vs"
  by (auto simp: drop_version_def hist_ok_Cons)

lemma null_seq_drop:
  assumes "hist_ok X h" and "w \<in> set h"
  shows "null_seq (drop_version (v_seq w) h) = (if v_seq w = null_seq h then 0 else null_seq h)"
proof -
  have d: "hist_ok X (drop_version (v_seq w) h)" using assms(1) by (simp add: drop_version_def hist_ok_filter)
  note s = set_drop_version [OF assms]
  show ?thesis
  proof (cases "v_seq w = null_seq h \<or> null_seq h = 0")
    case True
    have "\<not> is_null u" if u: "u \<in> set h - {w}" for u
    proof
      assume n: "is_null u"
      then have "v_seq u = null_seq h" using null_seq_iff(2) [OF assms(1), of u] u by blast
      moreover have "null_seq h \<noteq> 0" using null_seq_iff(1) [OF assms(1)] n u by blast
      ultimately show False using True u hist_seq_inj [OF assms(1) _ assms(2), of u] by simp
    qed
    then have "null_seq (drop_version (v_seq w) h) = 0" using null_seq_iff(1) [OF d] s by blast
    then show ?thesis using True by auto
  next
    case False
    then obtain u where u: "u \<in> set h" "is_null u" "v_seq u = null_seq h" using null_entry [OF assms(1)] by blast
    then have "u \<in> set (drop_version (v_seq w) h)" using False s by auto
    then show ?thesis using False u null_seq_iff(2) [OF d, of u] by simp
  qed
qed

lemma removal_claims:
  assumes "ulid_ok X" and "hist_ok X h" and "v \<in> set h"
  shows "key_claims b key (Some h) - version_claims b key v = key_claims b key (removal v h)"
proof -
  have "key_claims b key (removal v h) = (\<Union>u \<in> set (drop_version (v_seq v) h). version_claims b key u)"
    by (cases "drop_version (v_seq v) h") (simp_all add: removal_def key_claims_def)
  then have new: "key_claims b key (removal v h) = (\<Union>u \<in> set h - {v}. version_claims b key u)"
    unfolding set_drop_version [OF assms(2,3)] .
  have old: "key_claims b key (Some h) = (\<Union>u \<in> set h - {v}. version_claims b key u) \<union> version_claims b key v"
    unfolding key_claims_def option.case using assms(3) by blast
  have disj: "version_claims b key v \<inter> version_claims b key u = {}" if "u \<in> set h - {v}" for u
  proof (rule version_claims_disjoint [OF assms(1)])
    show "version_ok X u" "version_ok X v" using that assms(2,3) unfolding hist_ok_def by blast+
    show "v_seq v \<noteq> v_seq u" using that hist_seq_inj [OF assms(2,3), of u] by blast
  qed
  have "version_claims b key v \<inter> (\<Union>u \<in> set h - {v}. version_claims b key u) = {}"
  proof (rule equals0I)
    fix x assume "x \<in> version_claims b key v \<inter> (\<Union>u \<in> set h - {v}. version_claims b key u)"
    then obtain u where "u \<in> set h - {v}" "x \<in> version_claims b key v" "x \<in> version_claims b key u" by (elim IntE UN_E)
    then show False using disj [of u] by blast
  qed
  then show ?thesis unfolding new old by (simp add: Un_Diff Diff_triv Int_commute)
qed

section \<open>Writing the key's value back\<close>

lemma quiet_deleteKey:
  assumes good: "sgood X content mg s" and t: "mst_repr (senv X mg s) t M" and valid: "\<forall>k \<in> dom M. IsValidKey k" and key: "M key \<noteq> None"
  shows "quiet X content mg s (deleteKeyA X mg t key) (\<lambda>root s'. mst_repr (senv X mg s') (LoadMST root) (M(key := None)) \<and> well_formed (vx_deps X) content root)"
  unfolding deleteKeyA_def
  apply (rule quiet_bind [OF quiet_del [OF good t key, where Q = "\<lambda>t' s'. mst_repr (senv X mg s') t' (M(key := None))"]], assumption)
  subgoal for t' s1 by (rule quiet_pointer [where M = "M(key := None)"]) (use valid in \<open>auto dest: onto_good\<close>)
  done

lemma bindA_assoc: "bindA (bindA m f) g = bindA m (\<lambda>x. bindA (f x) g)"
  by (simp add: fun_eq_iff bindA_def split: prod.split sum.split)

text \<open>A leaf without its tree of noncurrent versions, which is given apart.\<close>

definition spliced :: "version_env \<Rightarrow> block_view \<Rightarrow> ObjectLeaf \<Rightarrow> history \<Rightarrow> bool" where
  "spliced X B l h \<longleftrightarrow> h \<noteq> [] \<and> lf_Current l = nodeOf (hd h) \<and> lf_Prev l = None \<and> lf_NullSeq l = null_seq (tl h) \<and> states_repr X B (lf_State l) h
     \<and> (\<forall>w \<in> set h. stored_at X B w)"

lemma spliced_mono: "view_le B B' \<Longrightarrow> spliced X B l h \<Longrightarrow> spliced X B' l h"
  using states_repr_mono stored_at_mono by (auto simp: spliced_def)

lemma spliced_leaf: "spliced X B l h \<Longrightarrow> root_repr (view_env (vx_deps X) B) r (prev_map (tl h)) \<Longrightarrow> leaf_repr X B (l\<lparr> lf_Prev := r \<rparr>) h"
  by (cases h) (auto simp: spliced_def leaf_repr_Cons)

text \<open>What a removal leaves of the key: its tree without the key, or with a value of the shorter history.\<close>

definition left_with :: "version_env \<Rightarrow> (cid \<Rightarrow> bytes) \<Rightarrow> Manager \<Rightarrow> string \<Rightarrow> kv_map \<Rightarrow> history option \<Rightarrow> cid \<Rightarrow> vstate \<Rightarrow> bool" where
  "left_with X content mg key M ho root s' \<longleftrightarrow> well_formed (vx_deps X) content root
     \<and> (\<exists>co. mst_repr (senv X mg s') (LoadMST root) (M(key := co)) \<and> rel_option (key_repr X (sview X mg s')) co ho)"

lemma quiet_spliceLeaf:
  assumes good: "sgood X content mg s" and t: "mst_repr (senv X mg s) t M" and valid: "\<forall>k \<in> dom M. IsValidKey k"
    and p: "mst_repr (senv X mg s) p (prev_map (tl h))" and leaf: "spliced X (sview X mg s) leaf h"
  shows "quiet X content mg s (spliceLeaf X mg t key leaf (Some p)) (left_with X content mg key M (Some h))"
proof -
  have none: "leaf\<lparr> lf_Prev := None \<rparr> = leaf" using leaf by (simp add: spliced_def)
  have part: "bindA (treeA X mg (\<lambda>E. mstEmpty E p)) (\<lambda>empty. if empty then returnA leaf else bindA (pointerA X mg p) (\<lambda>proot. returnA (leaf\<lparr> lf_Prev := Some proot \<rparr>)))
      = bindA (bindA (treeA X mg (\<lambda>E. mstEmpty E p)) (\<lambda>empty. if empty then returnA None else bindA (pointerA X mg p) (\<lambda>root. returnA (Some root))))
          (\<lambda>r. returnA (leaf\<lparr> lf_Prev := r \<rparr>))"
    by (simp add: fun_eq_iff bindA_def returnA_def none split: prod.split sum.split)
  have tail: "bindA (putA (EnvelopedLeaf_Marshal (vx_values X) l)) (\<lambda>c. bindA (treeA X mg (\<lambda>E. mst_Update mst_fuel E t key c)) (\<lambda>t2. pointerA X mg t2))
      = bindA (writeValue X mg t key True [] (Some l)) (pointerA X mg)" for l
    by (simp add: writeValue_def bindA_assoc)
  have root: "quiet X content mg s (bindA (bindA (treeA X mg (\<lambda>E. mstEmpty E p)) (\<lambda>empty. if empty then returnA None else bindA (pointerA X mg p) (\<lambda>root. returnA (Some root))))
      (\<lambda>r. returnA (leaf\<lparr> lf_Prev := r \<rparr>))) (\<lambda>l s'. leaf_repr X (sview X mg s') l h)"
    apply (rule quiet_bind [OF quiet_rootOf [OF good p]])
    subgoal using prev_map_valid by blast
    subgoal for r s1 using spliced_leaf [OF spliced_mono [OF onto_view leaf]] by (auto intro!: quiet_return dest: onto_good)
    done
  show ?thesis unfolding spliceLeaf_def option.case part tail
  proof (rule quiet_bind [OF root])
    fix l s1 assume s1: "onto X content mg s s1" "leaf_repr X (sview X mg s1) l h"
    show "quiet X content mg s1 (bindA (writeValue X mg t key True [] (Some l)) (pointerA X mg)) (left_with X content mg key M (Some h))"
      apply (rule quiet_bind [OF quiet_writeValue [where h = h, OF onto_good [OF s1(1)] mst_repr_mono [OF onto_env [OF s1(1)] t]]])
      subgoal by simp
      subgoal using s1(2) by simp
      subgoal premises q for t2 s2
      proof -
        obtain c where c: "mst_repr (senv X mg s2) t2 (M(key \<mapsto> c))" "IsValidKey key" "key_repr X (sview X mg s2) c h" using q(3) by blast
        show ?thesis
          by (rule quiet_pointer [OF onto_good [OF q(1)] c(1)])
            (use valid c(2) key_repr_mono [OF onto_view c(3)] in \<open>auto simp: left_with_def intro!: exI [of _ "Some c"]\<close>)
      qed
      done
  qed
qed

lemma bindA_return: "bindA (returnA x) f = f x"
  by (simp add: fun_eq_iff bindA_def returnA_def)

section \<open>Taking a version out of a leaf\<close>

lemma leaf_prev:
  assumes "leaf_repr X B l (v # vs)"
  shows "lf_Prev l = None \<Longrightarrow> vs = []" and "lf_Prev l = Some p \<Longrightarrow> vs \<noteq> [] \<and> mst_repr (view_env (vx_deps X) B) (LoadMST p) (prev_map vs)"
  using assms by (auto simp: leaf_repr_Cons root_repr_def)

lemma quiet_removeNoncurrent:
  assumes good: "sgood X content mg s" and t: "mst_repr (senv X mg s) t M" and valid: "\<forall>k \<in> dom M. IsValidKey k"
    and leaf: "leaf_repr X (sview X mg s) leaf (v # vs)" and h: "hist_ok X (v # vs)" and w: "w \<in> set vs"
  shows "quiet X content mg s (removeNoncurrent X mg t key leaf (v_seq w)) (left_with X content mg key M (Some (v # drop_version (v_seq w) vs)))"
proof -
  obtain p where p: "lf_Prev leaf = Some p" using leaf_prev(1) [OF leaf] w by (cases "lf_Prev leaf") auto
  have pt: "mst_repr (senv X mg s) (LoadMST p) (prev_map vs)" using leaf_prev(2) [OF leaf p] by blast
  have vs: "hist_ok X vs" using h by (simp add: hist_ok_Cons)
  have there: "prev_map vs (revSeqKey (v_seq w)) \<noteq> None" using at_key_mem [OF vs, of "v_seq w" w] w by (simp add: prev_map_def)
  note lf = leaf [unfolded leaf_repr_Cons]
  show ?thesis unfolding removeNoncurrent_def p option.case
    apply (rule quiet_bind [OF quiet_del [OF good pt there, where Q = "\<lambda>t' s'. s' = s \<and> mst_repr (senv X mg s) t' (prev_map (drop_version (v_seq w) vs))"]])
    subgoal by (simp add: prev_map_drop)
    subgoal premises q for prevTree s1
    proof -
      have s1: "s1 = s" "mst_repr (senv X mg s) prevTree (prev_map (drop_version (v_seq w) vs))" using q(3) by simp_all
      have st: "states_repr X (sview X mg s) (lf_State leaf) (v # vs)" using lf by blast
      show ?thesis unfolding s1(1)
      proof (rule quiet_bind [OF quiet_pruneVersionState [OF good st]])
        fix state s2 assume s2: "onto X content mg s s2" "states_repr X (sview X mg s2) state (drop_version (v_seq w) (v # vs))"
        have "spliced X (sview X mg s2) \<lparr> lf_Current = lf_Current leaf, lf_Prev = None,
            lf_NullSeq = (if v_seq w = lf_NullSeq leaf then 0 else lf_NullSeq leaf), lf_State = state \<rparr> (v # drop_version (v_seq w) vs)"
          using lf s2(2) null_seq_drop [OF vs w] drop_version_tail [OF h w] stored_at_mono [OF onto_view [OF s2(1)]]
          by (auto simp: spliced_def drop_version_def)
        then show "quiet X content mg s2 (spliceLeaf X mg t key \<lparr> lf_Current = lf_Current leaf, lf_Prev = None,
            lf_NullSeq = (if v_seq w = lf_NullSeq leaf then 0 else lf_NullSeq leaf), lf_State = state \<rparr> (Some prevTree))
          (left_with X content mg key M (Some (v # drop_version (v_seq w) vs)))"
          by (intro quiet_spliceLeaf [OF onto_good [OF s2(1)] mst_repr_mono [OF onto_env [OF s2(1)] t] valid])
            (use mst_repr_mono [OF onto_env [OF s2(1)] s1(2)] in simp_all)
      qed
    qed
    done
qed

lemma quiet_promoteHead:
  assumes good: "sgood X content mg s" and t: "mst_repr (senv X mg s) t M" and valid: "\<forall>k \<in> dom M. IsValidKey k" and key: "M key \<noteq> None"
    and leaf: "leaf_repr X (sview X mg s) leaf (v # vs)" and h: "hist_ok X (v # vs)"
  shows "quiet X content mg s (promoteHead X mg t key leaf) (left_with X content mg key M (if vs = [] then None else Some vs))"
proof -
  note lf = leaf [unfolded leaf_repr_Cons]
  have st: "states_repr X (sview X mg s) (lf_State leaf) (v # vs)" and cur: "vn_Seq (lf_Current leaf) = v_seq v" using lf by (simp_all add: nodeOf_def)
  have vs: "hist_ok X vs" using h by (simp add: hist_ok_Cons)
  show ?thesis
  proof (cases "lf_Prev leaf")
    case None
    have "quiet X content mg s (bindA (pruneVersionState X mg (lf_State leaf) (v_seq v)) (\<lambda>_. deleteKeyA X mg t key)) (left_with X content mg key M None)"
    proof (rule quiet_bind [OF quiet_pruneVersionState [OF good st]])
      fix r s1 assume s1: "onto X content mg s s1"
      show "quiet X content mg s1 (deleteKeyA X mg t key) (left_with X content mg key M None)"
        by (rule quiet_weaken [OF quiet_deleteKey [OF onto_good [OF s1] mst_repr_mono [OF onto_env [OF s1] t] valid key]])
          (auto simp: left_with_def intro!: exI [of _ None])
    qed
    then show ?thesis using None leaf_prev(1) [OF leaf] by (simp add: promoteHead_def bindA_return cur)
  next
    case (Some p)
    note pt = leaf_prev(2) [OF leaf Some]
    then obtain w ws where w: "vs = w # ws" by (cases vs) auto
    have ok: "version_ok X w" "hist_ok X (w # ws)" using vs w by (simp_all add: hist_ok_Cons)
    have head: "prevHead (senv X mg s) (LoadMST p) = Inr (Some (v_cid w))" using prevHead_prev [of _ _ vs, OF _ vs] pt w by simp
    have mf: "getManifest (vx_values X) (sview X mg s) (v_cid w) = Inr (v_mf w)" using lf w by (simp add: stored_at_def)
    have ids: "mf_Seq (v_mf w) = v_seq w" "mf_VersionID (v_mf w) = v_id w" using ok(1) by (simp_all add: version_ok_def)
    have "quiet X content mg s (bindA (treeA X mg (\<lambda>E. mst_Delete mst_fuel E (LoadMST p) (revSeqKey (v_seq w)))) (\<lambda>prevTree.
         bindA (pruneVersionState X mg (lf_State leaf) (v_seq v)) (\<lambda>state.
           spliceLeaf X mg t key \<lparr> lf_Current = nodeOf w, lf_Prev = None,
               lf_NullSeq = (if v_seq w = lf_NullSeq leaf then 0 else lf_NullSeq leaf), lf_State = state \<rparr> (Some prevTree))))
        (left_with X content mg key M (Some vs))"
      apply (rule quiet_bind [OF quiet_del [OF good conjunct2 [OF pt], where Q = "\<lambda>t' s'. s' = s \<and> mst_repr (senv X mg s) t' (prev_map ws)"]])
      subgoal by (simp add: w)
      subgoal using prev_map_drop [of "v_seq w" vs] drop_version_head [OF ok(2)] by (simp add: w)
      subgoal premises q for prevTree s1
      proof -
        have s1: "s1 = s" "mst_repr (senv X mg s) prevTree (prev_map ws)" using q(3) by simp_all
        show ?thesis unfolding s1(1)
        proof (rule quiet_bind [OF quiet_pruneVersionState [OF good st]])
          fix state s2 assume s2: "onto X content mg s s2" "states_repr X (sview X mg s2) state (drop_version (v_seq v) (v # vs))"
          have "lf_NullSeq leaf = null_seq vs" "null_seq ws = (if v_seq w = null_seq vs then 0 else null_seq vs)"
            using lf null_seq_drop [OF vs, of w] drop_version_head [OF ok(2)] by (simp_all add: w)
          then have "spliced X (sview X mg s2) \<lparr> lf_Current = nodeOf w, lf_Prev = None,
               lf_NullSeq = (if v_seq w = lf_NullSeq leaf then 0 else lf_NullSeq leaf), lf_State = state \<rparr> vs"
            using lf s2(2) drop_version_head [OF h] stored_at_mono [OF onto_view [OF s2(1)]] by (auto simp: spliced_def w)
          then show "quiet X content mg s2 (spliceLeaf X mg t key \<lparr> lf_Current = nodeOf w, lf_Prev = None,
               lf_NullSeq = (if v_seq w = lf_NullSeq leaf then 0 else lf_NullSeq leaf), lf_State = state \<rparr> (Some prevTree)) (left_with X content mg key M (Some vs))"
            by (intro quiet_spliceLeaf [OF onto_good [OF s2(1)] mst_repr_mono [OF onto_env [OF s2(1)] t] valid])
              (use mst_repr_mono [OF onto_env [OF s2(1)] s1(2)] w in simp_all)
        qed
      qed
      done
    then have body: "quiet X content mg s (bindA (viewA X mg (\<lambda>B. blockE (getManifest (vx_values X) B (v_cid w)))) (\<lambda>headMf.
         bindA (treeA X mg (\<lambda>E. mst_Delete mst_fuel E (LoadMST p) (revSeqKey (mf_Seq headMf)))) (\<lambda>prevTree.
         bindA (pruneVersionState X mg (lf_State leaf) (v_seq v)) (\<lambda>state.
           spliceLeaf X mg t key
             \<lparr> lf_Current = \<lparr> vn_Seq = mf_Seq headMf, vn_VersionID = mf_VersionID headMf, vn_Manifest = v_cid w \<rparr>, lf_Prev = None,
               lf_NullSeq = (if mf_Seq headMf = lf_NullSeq leaf then 0 else lf_NullSeq leaf), lf_State = state \<rparr> (Some prevTree))))) (left_with X content mg key M (Some vs))"
      by (intro quiet_bind [OF quiet_view [OF good, where Q = "\<lambda>mf s'. mf = v_mf w \<and> s' = s"]]) (auto simp: blockE_def mf ids nodeOf_def)
    show ?thesis unfolding promoteHead_def Some option.case
      by (rule quiet_bind [OF quiet_tree [OF good, where Q = "\<lambda>hd s'. hd = Some (v_cid w) \<and> s' = s"]]) (use head body w cur in auto)
  qed
qed

section \<open>Finding the version\<close>

lemma quiet_loadTarget:
  assumes good: "sgood X content mg s" and leaf: "leaf_repr X (sview X mg s) l (v # vs)" and h: "hist_ok X (v # vs)"
    and kind: "classifyVersionID X i = (kind, seq)" "kind = versionKindNull \<or> kind = versionKindToken"
  shows "deleteTarget l kind seq i = None \<Longrightarrow> lookup_version (v # vs) i = None"
    and "deleteTarget l kind seq i = Some target \<Longrightarrow> quiet X content mg s (loadTarget X mg l kind i target) (\<lambda>r s'. s' = s \<and> (case r of
        None \<Rightarrow> lookup_version (v # vs) i = None
      | Some (c, mf) \<Rightarrow> \<exists>w. lookup_version (v # vs) i = Some w \<and> c = v_cid w \<and> mf = v_mf w
          \<and> (case target of None \<Rightarrow> w = v | Some sq \<Rightarrow> w \<in> set vs \<and> sq = v_seq w)))"
proof -
  note lf = leaf [unfolded leaf_repr_Cons]
  have vs: "hist_ok X vs" using h by (simp add: hist_ok_Cons)
  have look: "lookup_version (v # vs) i = find (\<lambda>w. v_id w = i) (v # vs)" using kind by (auto simp: lookup_version_def classifyVersionID_def)
  have null: "i = NullVersionID" if "kind = versionKindNull" using kind(1) that by (auto simp: classifyVersionID_def split: if_splits sum.splits)
  have tok: "i \<noteq> NullVersionID" if "kind = versionKindToken" using kind(1) that by (auto simp: classifyVersionID_def split: if_splits sum.splits)
  show "lookup_version (v # vs) i = None" if "deleteTarget l kind seq i = None"
    using that null lf lookup_null [OF h] look by (auto simp: deleteTarget_def nodeOf_def split: if_splits)
  assume t: "deleteTarget l kind seq i = Some target"
  have mani: "getManifest (vx_values X) (sview X mg s) (v_cid w) = Inr (v_mf w)" if "w \<in> set (v # vs)" for w using lf that unfolding stored_at_def by blast
  show "quiet X content mg s (loadTarget X mg l kind i target) (\<lambda>r s'. s' = s \<and> (case r of
        None \<Rightarrow> lookup_version (v # vs) i = None
      | Some (c, mf) \<Rightarrow> \<exists>w. lookup_version (v # vs) i = Some w \<and> c = v_cid w \<and> mf = v_mf w
          \<and> (case target of None \<Rightarrow> w = v | Some sq \<Rightarrow> w \<in> set vs \<and> sq = v_seq w)))"
  proof (cases target)
    case None
    then have "v_id v = i" using t null lf by (auto simp: deleteTarget_def nodeOf_def split: if_splits)
    then have "lookup_version (v # vs) i = Some v" by (simp add: look)
    then show ?thesis using None lf mani [of v]
      by (auto intro!: quiet_view [OF good] simp: loadTarget_def nodeOf_def blockE_def)
  next
    case (Some sq)
    have find: "lookup_version (v # vs) i = (case at_key vs (revSeqKey sq) of Some w \<Rightarrow> if kind = versionKindToken \<and> v_id w \<noteq> i then None else Some w | None \<Rightarrow> None)"
    proof (cases "kind = versionKindNull")
      case True
      then show ?thesis using t Some null lf lookup_null [OF h] look by (auto simp: deleteTarget_def nodeOf_def split: if_splits option.splits)
    next
      case False
      then have k: "kind = versionKindToken" using kind(2) by blast
      have sq: "sq = seq" "\<not> (v_seq v = seq \<and> v_id v = i)" using t Some False lf by (auto simp: deleteTarget_def nodeOf_def split: if_splits)
      moreover have "at_key vs (revSeqKey seq) = None" if "v_seq v = seq" unfolding at_key_None using h that by (auto simp: hist_ok_Cons)
      ultimately show ?thesis using lookup_token [OF h kind(1) [unfolded k] tok [OF k]] k look by (auto split: option.split)
    qed
    have at: "w \<in> set vs \<and> sq = v_seq w \<and> mf_VersionID (v_mf w) = v_id w" if "at_key vs (revSeqKey sq) = Some w" for w
      using that vs unfolding at_key_mem [OF vs] by (auto simp: hist_ok_def version_ok_def)
    show ?thesis
    proof (cases "lf_Prev l")
      case None
      then show ?thesis using leaf_prev(1) [OF leaf] find Some by (auto intro!: quiet_view [OF good] simp: loadTarget_def)
    next
      case (Some p)
      have "mst_Get mst_fuel (senv X mg s) (LoadMST p) (revSeqKey sq) = lookup_result (prev_map vs (revSeqKey sq))"
        using tree.get_refines [OF conjunct2 [OF leaf_prev(2) [OF leaf Some]]] by (simp add: map_Get_def)
      then show ?thesis using Some \<open>target = Some sq\<close> find at mani
        by (auto intro!: quiet_view [OF good] simp: loadTarget_def lookup_result_def prev_map_def blockE_def split: option.splits if_splits)
    qed
  qed
qed

section \<open>The closure\<close>

text \<open>The preconditions accept a version: those of a request with conditions, unless the version is a marker.\<close>

definition accepted :: "deletePreconditions option \<Rightarrow> version \<Rightarrow> bool" where
  "accepted preconds v \<longleftrightarrow> (\<forall>f. preconds = Some f \<longrightarrow> mf_DeleteMarker (v_mf v)
     \<or> f (etagOf (v_mf v)) (mf_Created (v_mf v)) (body_Size (mf_Body (v_mf v))) = None)"

definition drop_rows :: "version_env \<Rightarrow> State \<Rightarrow> string \<Rightarrow> version \<Rightarrow> Tx \<Rightarrow> Tx" where
  "drop_rows X st key v tx = enqueueRegistration X st key (v_cid v) UploadRegistrationRemove
     (dropClaims X st key (claimVersionID (v_id v) (v_seq v)) (v_digests v) tx)"

lemma rows_only_drop: "rows_only (drop_rows X st key v)"
  unfolding drop_rows_def using rows_only_comp [OF rows_only_rows(3) rows_only_rows(2)] by simp

lemma drop_rows_claims:
  assumes "tx_commit tx = emptyCommit" and "st_Name st = b"
  shows "row_adds (tx_commit (drop_rows X st key v tx)) = {}" and "row_drops (tx_commit (drop_rows X st key v tx)) = version_claims b key v"
  using assms by (simp_all add: drop_rows_def rows_enqueue rows_dropClaims rows_empty version_claims_def)

text \<open>The delete of a version that is there, up to the key's new value: its preconditions are evaluated, its rows
  dropped, and its blocks given to the collector.\<close>

lemma acts_dropped:
  assumes good: "sgood X content mg s" and v: "stored_at X (sview X mg s) v" "version_ok X v" and id: "tid = v_id v" and rows: "rows s = tx_commit txi"
    and rest: "\<And>s'. onto X content mg s s' \<Longrightarrow> quiet X content mg s' m Q"
  shows "acts X content mg s (bindA (preconditionA preconds (v_mf v)) (\<lambda>_. bindA (dropVersionA X mg st key tid (v_mf v) (v_cid v)) (\<lambda>_. m)))
    (\<lambda>x s'. accepted preconds v \<and> rows s' = tx_commit (drop_rows X st key v txi) \<and> Q x s')"
proof (rule acts_quiet_bind [where Q = "\<lambda>_ s'. s' = s \<and> accepted preconds v"])
  show "quiet X content mg s (preconditionA preconds (v_mf v)) (\<lambda>_ s'. s' = s \<and> accepted preconds v)"
    by (rule quiet_guard [OF good]) (auto simp: preconditionA_def evaluateA_def accepted_def split: option.splits if_splits)
next
  fix x s1 assume s1: "s1 = s \<and> accepted preconds v"
  have seq: "mf_Seq (v_mf v) = v_seq v" using v(2) by (simp add: version_ok_def)
  show "acts X content mg s1 (bindA (dropVersionA X mg st key tid (v_mf v) (v_cid v)) (\<lambda>_. m))
      (\<lambda>x s'. accepted preconds v \<and> rows s' = tx_commit (drop_rows X st key v txi) \<and> Q x s')"
    unfolding conjunct1 [OF s1] dropVersionA_def bindA_assoc
    apply (rule acts_quiet_bind [OF quiet_view [OF good, where Q = "\<lambda>d s'. d = v_digests v \<and> s' = s"]])
    subgoal using v(1) by (simp add: stored_at_def blockE_def)
    subgoal premises q for d s2
    proof -
      have d: "d = v_digests v" "s2 = s" using q(3) by simp_all
      have f: "(\<lambda>tx. enqueueRegistration X st key (v_cid v) UploadRegistrationRemove (dropClaims X st key (claimVersionID tid (mf_Seq (v_mf v))) d tx)) = drop_rows X st key v"
        by (simp add: fun_eq_iff drop_rows_def d id seq)
      show ?thesis unfolding d(2) f
        apply (rule acts_bind [OF acts_rows_only [OF good rows_only_drop, where Q = "\<lambda>_ s'. rows s' = tx_commit (drop_rows X st key v txi)"]])
        subgoal using rows_only_commit [OF rows_only_drop rows] by simp
        subgoal for y s3 using rest [of s3] s1 by (auto simp: quiet_def elim!: acts_weaken)
        done
    qed
    done
qed

definition absent :: "State \<Rightarrow> scopedDeleteResult" where
  "absent st = \<lparr> sd_found = False, sd_wasMarker = False, sd_versioning = st_Versioning st \<rparr>"

definition was_found :: "State \<Rightarrow> version \<Rightarrow> scopedDeleteResult" where
  "was_found st v = \<lparr> sd_found = True, sd_wasMarker = mf_DeleteMarker (v_mf v), sd_versioning = st_Versioning st \<rparr>"

definition deleted ::
  "version_env \<Rightarrow> (cid \<Rightarrow> bytes) \<Rightarrow> Manager \<Rightarrow> Tx \<Rightarrow> State \<Rightarrow> string \<Rightarrow> deletePreconditions option \<Rightarrow> kv_map \<Rightarrow> history option \<Rightarrow> version option
   \<Rightarrow> cid \<times> scopedDeleteResult \<Rightarrow> vstate \<Rightarrow> bool" where
  "deleted X content mg txi st key preconds M ho vo r s' \<longleftrightarrow>
     (case (ho, vo) of
        (Some h, Some v) \<Rightarrow> snd r = was_found st v \<and> accepted preconds v \<and> left_with X content mg key M (removal v h) (fst r) s'
          \<and> rows s' = tx_commit (drop_rows X st key v txi)
      | _ \<Rightarrow> r = (cid_Undef, absent st))"

lemma quiet_collect: "sgood X content mg s \<Longrightarrow> (\<And>s'. onto X content mg s s' \<Longrightarrow> quiet X content mg s' m Q) \<Longrightarrow> quiet X content mg s (bindA (gcA c) (\<lambda>_. m)) Q"
  by (rule quiet_bind [OF quiet_gc [where Q = "\<lambda>_ _. True"]]) auto

lemma quiet_result: "sgood X content mg s \<Longrightarrow> quiet X content mg s m Q \<Longrightarrow> quiet X content mg s (bindA m (\<lambda>root. returnA (root, r))) (\<lambda>(root, r') s'. r' = r \<and> Q root s')"
  by (erule quiet_bind) (auto intro!: quiet_return dest: onto_good)

lemma removal_head: "hist_ok X (v # vs) \<Longrightarrow> removal v (v # vs) = (if vs = [] then None else Some vs)"
  by (cases vs) (simp_all add: removal_def drop_version_head)

lemma removal_tail: "hist_ok X (v # vs) \<Longrightarrow> w \<in> set vs \<Longrightarrow> removal w (v # vs) = Some (v # drop_version (v_seq w) vs)"
  by (simp add: removal_def drop_version_tail)

lemma lookup_mem: "hist_ok X h \<Longrightarrow> lookup_version h i = Some v \<Longrightarrow> v \<in> set h \<and> (i = [] \<or> v_id v = i)"
  using find_id_mem [of X h i v] by (auto simp: lookup_version_def split: if_splits list.splits)

text \<open>The id a delete names its target by is the version's.\<close>

lemma target_id:
  assumes "hist_ok X h" and "lookup_version h i = Some v" and "classifyVersionID X i = (kind, seq)" and "kind = versionKindNull \<or> kind = versionKindToken"
  shows "targetVersionID kind (v_mf v) = v_id v" and "version_ok X v" and "v \<in> set h"
proof -
  note m = lookup_mem [OF assms(1,2)]
  show ok: "version_ok X v" "v \<in> set h" using m assms(1) by (auto simp: hist_ok_def)
  have "i = NullVersionID" "i \<noteq> []" if "kind = versionKindNull"
    using assms(3) that by (auto simp: classifyVersionID_def NullVersionID_def split: if_splits sum.splits)
  then show "targetVersionID kind (v_mf v) = v_id v" using version_ok_id(4) [OF ok(1)] m by auto
qed

lemma acts_deleteFromLeaf:
  assumes good: "sgood X content mg s" and t: "mst_repr (senv X mg s) t M" and valid: "\<forall>k \<in> dom M. IsValidKey k" and key: "M key \<noteq> None"
    and leaf: "leaf_repr X (sview X mg s) leaf h" and h: "hist_ok X h" and rows: "rows s = tx_commit txi"
    and kind: "classifyVersionID X i = (kind, seq)" "kind = versionKindNull \<or> kind = versionKindToken"
  shows "acts X content mg s (deleteFromLeaf X mg st t key kind seq i preconds valCid leaf) (deleted X content mg txi st key preconds M (Some h) (lookup_version h i))"
proof -
  obtain v vs where hv: "h = v # vs" using leaf by (auto simp: leaf_repr_def)
  note lv = leaf [unfolded hv] and okv = h [unfolded hv]
  note find = quiet_loadTarget [OF good lv okv kind]
  let ?abs = "\<lparr> sd_found = False, sd_wasMarker = False, sd_versioning = st_Versioning st \<rparr>"
  show ?thesis
  proof (cases "deleteTarget leaf kind seq i")
    case None
    then show ?thesis using find(1) good hv by (simp add: deleteFromLeaf_def acts_return deleted_def absent_def)
  next
    case (Some target)
    show ?thesis unfolding deleteFromLeaf_def Let_def Some option.case
      apply (rule acts_quiet_bind [OF find(2) [OF Some]])
      subgoal premises q for r s1
      proof (cases r)
        case None
        then show ?thesis using q(3) good hv by (simp add: acts_return deleted_def absent_def)
      next
        case (Some cm)
        obtain w where w: "lookup_version h i = Some w" "cm = (v_cid w, v_mf w)" "case target of None \<Rightarrow> w = v | Some sq \<Rightarrow> w \<in> set vs \<and> sq = v_seq w"
          using q(3) Some hv by (cases cm) auto
        note id = target_id [OF h w(1) kind]
        have st: "stored_at X (sview X mg s) w" using lv id(3) unfolding leaf_repr_Cons hv by blast
        let ?put = "case target of None \<Rightarrow> promoteHead X mg t key leaf | Some seq \<Rightarrow> removeNoncurrent X mg t key leaf seq"
        have put: "quiet X content mg s' ?put (left_with X content mg key M (removal w h))" if s': "onto X content mg s s'" for s'
        proof -
          note g = onto_good [OF s'] and t' = mst_repr_mono [OF onto_env [OF s'] t] and l' = leaf_repr_mono [OF onto_view [OF s'] lv]
          show ?thesis
            using w(3) quiet_promoteHead [OF g t' valid key l' okv] quiet_removeNoncurrent [OF g t' valid l' okv, of w key] removal_head [OF okv] removal_tail [OF okv, of w]
            unfolding hv by (cases target) auto
        qed
        have "acts X content mg s (bindA (preconditionA preconds (v_mf w)) (\<lambda>_. bindA (dropVersionA X mg st key (targetVersionID kind (v_mf w)) (v_mf w) (v_cid w)) (\<lambda>_.
            bindA (gcA (v_cid w)) (\<lambda>_. bindA (gcA valCid) (\<lambda>_. bindA ?put (\<lambda>root. returnA (root, ?abs\<lparr> sd_found := True, sd_wasMarker := mf_DeleteMarker (v_mf w) \<rparr>)))))))
          (\<lambda>x s'. accepted preconds w \<and> rows s' = tx_commit (drop_rows X st key w txi)
            \<and> (case x of (root, r') \<Rightarrow> (\<lambda>s'. r' = ?abs\<lparr> sd_found := True, sd_wasMarker := mf_DeleteMarker (v_mf w) \<rparr> \<and> left_with X content mg key M (removal w h) root s')) s')"
          by (rule acts_dropped [OF good st id(2,1) rows], rule quiet_collect, erule onto_good, rule quiet_collect, erule onto_good,
            rule quiet_result, erule onto_good, rule put) (blast intro: onto_trans)
        moreover have "s1 = s" using q(3) by blast
        ultimately show ?thesis unfolding Some w(2) option.case prod.case
          by (auto simp: deleted_def was_found_def w(1) elim!: acts_weaken)
      qed
      done
  qed
qed

lemma acts_deleteFromManifest:
  assumes good: "sgood X content mg s" and t: "mst_repr (senv X mg s) t M" and valid: "\<forall>k \<in> dom M. IsValidKey k" and key: "M key \<noteq> None"
    and v: "stored_at X (sview X mg s) v" and h: "hist_ok X [v]" and rows: "rows s = tx_commit txi"
    and kind: "classifyVersionID X i = (kind, seq)" "kind = versionKindNull \<or> kind = versionKindToken"
  shows "acts X content mg s (deleteFromManifest X mg st t key kind i preconds (v_cid v) (v_mf v)) (deleted X content mg txi st key preconds M (Some [v]) (lookup_version [v] i))"
proof (cases "lookup_version [v] i")
  case None
  then have "\<not> manifestMatches kind i (v_mf v)" using manifestMatches_lookup [OF _ kind(1)] h kind(2) by (auto simp: hist_ok_Cons)
  then show ?thesis using None good by (simp add: deleteFromManifest_def acts_return deleted_def absent_def)
next
  case (Some w)
  then have w: "w = v" using lookup_mem [OF h Some] by simp
  note id = target_id [OF h Some kind, unfolded w]
  have match: "manifestMatches kind i (v_mf v)" using manifestMatches_lookup [OF id(2) kind(1)] Some w kind(2) by auto
  let ?r = "\<lparr> sd_found = False, sd_wasMarker = False, sd_versioning = st_Versioning st \<rparr>\<lparr> sd_found := True, sd_wasMarker := mf_DeleteMarker (v_mf v) \<rparr>"
  have put: "quiet X content mg s' (deleteKeyA X mg t key) (left_with X content mg key M None)" if s': "onto X content mg s s'" for s'
    by (rule quiet_weaken [OF quiet_deleteKey [OF onto_good [OF s'] mst_repr_mono [OF onto_env [OF s'] t] valid key]])
      (auto simp: left_with_def intro!: exI [of _ None])
  have "acts X content mg s (bindA (preconditionA preconds (v_mf v)) (\<lambda>_. bindA (dropVersionA X mg st key (targetVersionID kind (v_mf v)) (v_mf v) (v_cid v)) (\<lambda>_.
      bindA (gcA (v_cid v)) (\<lambda>_. bindA (deleteKeyA X mg t key) (\<lambda>root. returnA (root, ?r))))))
    (\<lambda>x s'. accepted preconds v \<and> rows s' = tx_commit (drop_rows X st key v txi)
      \<and> (case x of (root, r') \<Rightarrow> (\<lambda>s'. r' = ?r \<and> left_with X content mg key M None root s')) s')"
    by (rule acts_dropped [OF good v id(2,1) rows], rule quiet_collect, erule onto_good, rule quiet_result, erule onto_good, rule put) (blast intro: onto_trans)
  then show ?thesis
    using match removal_head [OF h] by (auto simp: deleteFromManifest_def Let_def Some w deleted_def was_found_def elim!: acts_weaken)
qed

lemma quiet_lookupValue:
  assumes good: "sgood X content mg s" and t: "mst_repr (senv X mg s) t M" and keys: "keys_repr X (sview X mg s) M H"
  shows "quiet X content mg s (lookupValue X mg t key) (\<lambda>r s'. s' = s \<and> (case r of
      None \<Rightarrow> H key = None
    | Some (c, val) \<Rightarrow> \<exists>h. H key = Some h \<and> M key = Some c \<and> getValue (vx_values X) (sview X mg s) c = Inr val \<and> key_repr X (sview X mg s) c h \<and> hist_ok X h))"
proof -
  have get: "mst_Get mst_fuel (senv X mg s) t key = lookup_result (M key)" using tree.get_refines [OF t, of key] by (simp add: map_Get_def)
  have rel: "rel_option (\<lambda>c h. key_repr X (sview X mg s) c h \<and> hist_ok X h) (M key) (H key)" using keys by (simp add: keys_repr_def)
  show ?thesis unfolding lookupValue_def
    by (rule quiet_view [OF good])
      (use get rel in \<open>cases "M key"; cases "H key"; auto simp: lookup_result_def blockE_def bindE_def map_sum_def split: sum.splits\<close>)
qed

lemma acts_deleteVersionFn:
  assumes good: "sgood X content mg s" and t: "mst_repr (senv X mg s) (tree_at (st_Root st)) M" and keys: "keys_repr X (sview X mg s) M H"
    and kind: "classifyVersionID X i = (kind, seq)" "kind = versionKindNull \<or> kind = versionKindToken"
  shows "acts X content mg s (deleteVersionFn X mg key kind seq i preconds st (tree_at (st_Root st)))
    (deleted X content mg (vs_tx s) st key preconds M (H key) (Option.bind (H key) (\<lambda>h. lookup_version h i)))"
proof (cases "cid_Defined (st_Root st)")
  case False
  then have "M = Map.empty" using empty_root_repr t by (auto simp: tree_at_def)
  then have "H key = None" using keys_repr_at(1) [OF keys, of key] by simp
  then show ?thesis using False good by (simp add: deleteVersionFn_def acts_return deleted_def absent_def)
next
  case True
  note valid = keys_repr_valid [OF keys]
  have body: "acts X content mg s (bindA (lookupValue X mg (tree_at (st_Root st)) key) (\<lambda>r. case r of
        None \<Rightarrow> returnA (cid_Undef, \<lparr> sd_found = False, sd_wasMarker = False, sd_versioning = st_Versioning st \<rparr>)
      | Some (valCid, val) \<Rightarrow> (case (vu_Manifest val, vu_Leaf val) of
          (Some mf, _) \<Rightarrow> deleteFromManifest X mg st (tree_at (st_Root st)) key kind i preconds valCid mf
        | (None, None) \<Rightarrow> liftA (Inl (FnPanic ''nil leaf''))
        | (None, Some leaf) \<Rightarrow> deleteFromLeaf X mg st (tree_at (st_Root st)) key kind seq i preconds valCid leaf)))
    (deleted X content mg (vs_tx s) st key preconds M (H key) (Option.bind (H key) (\<lambda>h. lookup_version h i)))"
    apply (rule acts_quiet_bind [OF quiet_lookupValue [OF good t keys, of key]])
    subgoal premises q for r s1
    proof (cases r)
      case None
      then show ?thesis using q(3) good by (simp add: acts_return deleted_def absent_def)
    next
      case (Some cv)
      obtain c val where cv: "cv = (c, val)" by fastforce
      obtain h where h: "s1 = s" "H key = Some h" "M key = Some c" "getValue (vx_values X) (sview X mg s) c = Inr val" "key_repr X (sview X mg s) c h" "hist_ok X h"
        using q(3) Some cv by auto
      have k: "M key \<noteq> None" using h(3) by simp
      from h(5) show ?thesis unfolding key_repr_def
      proof (elim disjE exE conjE)
        fix v assume v: "h = [v]" "c = v_cid v" "getValue (vx_values X) (sview X mg s) c = Inr (ManifestValue (v_mf v))" "stored_at X (sview X mg s) v"
        have "vu_Manifest val = Some (v_mf v)" using h(4) v(3) by (auto simp: ManifestValue_def)
        then show ?thesis using acts_deleteFromManifest [OF good t valid k v(4) h(6) [unfolded v(1)] refl kind, of st preconds] Some cv h(1,2) v(1,2) by simp
      next
        fix l assume l: "getValue (vx_values X) (sview X mg s) c = Inr (LeafValue l)" "leaf_repr X (sview X mg s) l h"
        have "vu_Manifest val = None" "vu_Leaf val = Some l" using h(4) l(1) by (auto simp: LeafValue_def)
        then show ?thesis using acts_deleteFromLeaf [OF good t valid k l(2) h(6) refl kind, of st preconds c] Some cv h(1,2) by simp
      qed
    qed
    done
  show ?thesis unfolding deleteVersionFn_def Let_def using body by (simp only: True simp_thms if_False)
qed

section \<open>The transaction\<close>

lemma deleted_outcome:
  assumes d: "deleted X content mg (tx0 bucket st) st key preconds M (H key) vo (root, res) s'" and vo: "vo = Option.bind (H key) (\<lambda>h. lookup_version h i)"
    and keys: "keys_repr X (sview X mg s') M H" and name: "st_Name st = bucket" and ulid: "ulid_ok X"
    and bound: "\<forall>v \<in> all_versions H. v_seq v \<le> lastSeq (vs_reg s') bucket"
  shows "outcome X content mg bucket H root s' (case vo of None \<Rightarrow> H | Some v \<Rightarrow> H(key := removal v (history_of H key)))"
    and "res = (case vo of None \<Rightarrow> absent st | Some v \<Rightarrow> was_found st v)" and "vo = Some v \<Longrightarrow> accepted preconds v"
proof -
  have none: "root = cid_Undef \<and> res = absent st" if "vo = None" using d that by (simp add: deleted_def split: option.splits)
  have some: "\<exists>h. H key = Some h \<and> lookup_version h i = Some v \<and> res = was_found st v \<and> accepted preconds v \<and> left_with X content mg key M (removal v h) root s'
      \<and> rows s' = tx_commit (drop_rows X st key v (tx0 bucket st))" if "vo = Some v" for v
    using d that vo by (auto simp: deleted_def bind_eq_Some_conv split: option.splits)
  show "res = (case vo of None \<Rightarrow> absent st | Some v \<Rightarrow> was_found st v)" "vo = Some v \<Longrightarrow> accepted preconds v" using none some by (auto split: option.split)
  show "outcome X content mg bucket H root s' (case vo of None \<Rightarrow> H | Some v \<Rightarrow> H(key := removal v (history_of H key)))"
  proof (cases vo)
    case None
    then show ?thesis using none by (simp add: outcome_def cid_Defined_def)
  next
    case (Some v)
    obtain h where h: "H key = Some h" "lookup_version h i = Some v" "left_with X content mg key M (removal v h) root s'"
        "rows s' = tx_commit (drop_rows X st key v (tx0 bucket st))" using some [OF Some] by blast
    obtain co where co: "mst_repr (senv X mg s') (LoadMST root) (M(key := co))" "rel_option (key_repr X (sview X mg s')) co (removal v h)"
        and wf: "well_formed (vx_deps X) content root" using h(3) by (auto simp: left_with_def)
    have hh: "hist_ok X h" using keys_repr_at(2) [OF keys h(1)] .
    have v: "v \<in> set h" using lookup_mem [OF hh h(2)] by blast
    have ok: "hist_ok X h'" if "removal v h = Some h'" for h'
      using that hist_ok_filter [OF hh, of "\<lambda>w. v_seq w \<noteq> v_seq v"] by (simp add: removal_def drop_version_def split: list.splits)
    have "keys_repr X (sview X mg s') (M(key := co)) (H(key := removal v h))"
    proof (cases "removal v h")
      case None
      then show ?thesis using co(2) keys_repr_del [OF keys] by simp
    next
      case (Some h')
      then obtain c where c: "co = Some c" "key_repr X (sview X mg s') c h'" using co(2) by (cases co) auto
      have "IsValidKey key" using keys_repr_at(1) [OF keys, of key] keys_repr_valid [OF keys] h(1) by (cases "M key") auto
      then show ?thesis using keys_repr_upd [OF keys c(2) ok [OF Some]] Some c(1) by simp
    qed
    moreover have "set h' \<subseteq> all_versions H" if "removal v h = Some h'" for h'
      using that key_versions [of H key h] h(1) by (auto simp: removal_def drop_version_def split: list.splits)
    then have "\<forall>u \<in> all_versions (H(key := removal v h)). v_seq u \<le> lastSeq (vs_reg s') bucket"
      using bound all_versions_upd [of H key "removal v h"] by (cases "removal v h") fastforce+
    moreover have "rows_effect bucket (rows s') H (H(key := removal v h))"
      by (rule rows_effect_key [where A = "{}" and G = "{v}"])
        (use drop_rows_claims [of "tx0 bucket st" st bucket] removal_claims [OF ulid hh v] name h(1,4) in auto)
    moreover have "cid_Defined root" using wf by (simp add: well_formed_def)
    ultimately show ?thesis using co(1) wf by (auto simp: outcome_def Some history_of_def h(1))
  qed
qed

section \<open>Properties\<close>


text \<open>The example: the only version of the only key goes, and the key with it.\<close>

abbreviation demo_full :: State where
  "demo_full \<equiv> demo_photos\<lparr> st_Root := ''A'' \<rparr>"

lemma demo_stocked_ok: "tx_env_ok demo_versions demo_content ''photos'' demo_stocked" "all_in demo_versions demo_content demo_stocked [''photos'' \<mapsto> [''a'' \<mapsto> [demo_version]]]"
proof -
  have log: "fst (co_log demo_stocked) = fst (co_log demo_co)" "nextSeq (snd (co_log demo_stocked)) = nextSeq (snd (co_log demo_co))"
    by (simp_all add: demo_stocked_def)
  have "plog demo_log_env demo_content {} {} demo_plane m" for m unfolding demo_plane_def by (rule plog_new)
  then have "logs_ok demo_log_env demo_content (co_log demo_stocked)" using demo_co_ok(1) by (auto simp: logs_ok_def demo_stocked_def demo_co_def)
  then show "tx_env_ok demo_versions demo_content ''photos'' demo_stocked"
    using demo_values_ok demo_co_ok by (simp add: tx_env_ok_def demo_net_simps log)
  have "all_versions [''a'' \<mapsto> [demo_version]] = {demo_version}" by (auto simp: all_versions_def split: if_splits)
  moreover have "claims_of ''photos'' [''a'' \<mapsto> [demo_version]] = {}" by (simp add: claims_of_def key_claims_def version_claims_def demo_version_def)
  moreover have "index_of (snd (co_log demo_stocked)) ''photos'' = {}" by (simp add: index_of_def demo_stocked_def demo_co_def NewMemStore_def)
  moreover have "lastSeq (snd (co_log demo_stocked)) ''photos'' = 1" "v_seq demo_version = 1" "st_Name demo_full = ''photos''"
    by (simp_all add: lastSeq_def demo_stocked_def demo_version_def demo_photos_def)
  ultimately show "all_in demo_versions demo_content demo_stocked [''photos'' \<mapsto> [''a'' \<mapsto> [demo_version]]]"
    using demo_stocked_at by (auto simp: all_in_def versions_in_def split: if_splits)
qed

lemma demo_delete_steps:
  "mst_Get mst_fuel (tx_reader demo_net (fst (co_log demo_co)) (tx0 ''photos'' demo_full)) (LoadMST ''A'') ''a'' = Inr ''V''"
  "\<not> isl (mst_Delete mst_fuel (tx_reader demo_net (fst (co_log demo_co)) (tx0 ''photos'' demo_full)) (LoadMST ''A'') ''a'')"
  "map_sum id (\<lambda>(c, tx). (c, rcm_Claims (tx_commit tx), rcm_Pins (tx_commit tx))) (tx_GetPointer demo_net (fst (co_log demo_co))
     (projr (mst_Delete mst_fuel (tx_reader demo_net (fst (co_log demo_co)) (tx0 ''photos'' demo_full)) (LoadMST ''A'') ''a'')) (tx0 ''photos'' demo_full)) = Inr (''E'', [], [])"
  by code_simp+

lemma demo_delete_fn:
  "\<exists>s. deleteVersionFn demo_versions (fst (co_log demo_co)) ''a'' versionKindNull 0 ''null'' None demo_full (LoadMST ''A'')
      \<lparr> vs_tx = tx0 ''photos'' demo_full, vs_reg = snd (co_log demo_stocked) \<rparr>
    = (s, Inr (''E'', was_found demo_full demo_version)) \<and> rcm_Claims (rows s) = [] \<and> rcm_Pins (rows s) = []"
proof -
  let ?mg = "fst (co_log demo_co)" and ?tx = "tx0 ''photos'' demo_full"
  obtain t where del: "mst_Delete mst_fuel (tx_reader demo_net ?mg ?tx) (LoadMST ''A'') ''a'' = Inr t"
    using demo_delete_steps(2) by (cases "mst_Delete mst_fuel (tx_reader demo_net ?mg ?tx) (LoadMST ''A'') ''a''") auto
  then obtain tx' where ptr: "tx_GetPointer demo_net ?mg t ?tx = Inr (''E'', tx')" "rcm_Claims (tx_commit tx') = []" "rcm_Pins (tx_commit tx') = []"
    using demo_delete_steps(3) by (cases "tx_GetPointer demo_net ?mg t ?tx") auto
  have view: "tx_GetBlock demo_net ?mg ?tx = reads_view demo_net ?mg (st_Space demo_full)" by (rule fresh_tx(1)) (rule refl)
  have val: "getValue (vx_values demo_versions) (tx_GetBlock demo_net ?mg ?tx) ''V'' = Inr (ManifestValue demo_marker)"
    unfolding view by (rule demo_value_stored(1))
  have digs: "bodyDigests (vx_values demo_versions) B (mf_Body demo_marker) = Inr []" for B
    by (rule bodyDigests_empty) (simp_all add: demo_marker_def markerManifest_def emptyBody_def)
  have match: "manifestMatches versionKindNull ''null'' demo_marker" by (simp add: manifestMatches_def manifestVersionID_def demo_marker_def NullVersionID_def)
  have marker: "mf_DeleteMarker demo_marker" by (simp add: demo_marker_def markerManifest_def)
  have auth: "enqueueRegistration demo_versions st k c opr tx = tx" for st k c opr tx by (simp add: enqueueRegistration_def demo_versions_def)
  show ?thesis
    using del ptr demo_delete_steps(1) val match marker
    by (simp add: deleteVersionFn_def cid_Defined_def cid_Undef_def lookupValue_def viewA_def readA_def bindA_def tx_reader_view blockE_def ManifestValue_def
        deleteFromManifest_def preconditionA_def returnA_def dropVersionA_def digs rowsA_def auth dropClaims_def gcA_def deleteKeyA_def treeA_def treeE_def
        pointerA_def txA_def was_found_def demo_version_def Let_def)
qed


end
