(* ===== verification/S3_VersionSafe.thy ===== *)
theory S3_VersionSafe
  imports S3_Version
begin

text \<open>
  The nil dereferences of the version code. A value block decodes to exactly one of a manifest and a leaf, so
  the code that reads one arm after it found the other nil reads a value that is there; and a leaf exists
  wherever a tree of noncurrent versions is written. This holds of any store, codecs and trees whatever: it rests on
  the types of the decoded blocks alone.
\<close>

definition safe :: "'a act \<Rightarrow> ('a \<Rightarrow> bool) \<Rightarrow> bool" where
  "safe m Q \<longleftrightarrow> (\<forall>s. (\<forall>p. snd (m s) \<noteq> Inl (FnPanic p)) \<and> (\<forall>x. snd (m s) = Inr x \<longrightarrow> Q x))"

definition no_panic :: "fn_error + 'a \<Rightarrow> bool" where
  "no_panic r \<longleftrightarrow> (\<forall>p. r \<noteq> Inl (FnPanic p))"

section \<open>Rules\<close>

lemma safe_bind: "safe m Q \<Longrightarrow> (\<And>x. Q x \<Longrightarrow> safe (f x) R) \<Longrightarrow> safe (bindA m f) R"
  unfolding safe_def bindA_def by (auto split: prod.splits sum.splits) (metis snd_conv)+

lemma safe_seq: "safe m (\<lambda>_. True) \<Longrightarrow> (\<And>x. safe (f x) R) \<Longrightarrow> safe (bindA m f) R"
  by (rule safe_bind)

lemma safe_weaken: "safe m Q \<Longrightarrow> (\<And>x. Q x \<Longrightarrow> R x) \<Longrightarrow> safe m R"
  by (auto simp: safe_def)

lemma safe_return [intro!]: "Q x \<Longrightarrow> safe (returnA x) Q"
  by (simp add: safe_def returnA_def)

lemma safe_lift [intro!]: "no_panic r \<Longrightarrow> (\<And>x. r = Inr x \<Longrightarrow> Q x) \<Longrightarrow> safe (liftA r) Q"
  by (simp add: safe_def liftA_def no_panic_def)

lemma safe_view: "(\<And>B. no_panic (f B)) \<Longrightarrow> (\<And>B x. f B = Inr x \<Longrightarrow> Q x) \<Longrightarrow> safe (viewA X mg f) Q"
  by (auto simp: safe_def viewA_def readA_def no_panic_def)

lemma no_panic_simps [simp]:
  "no_panic (Inr x)" "no_panic (Inl (FnApi e))" "no_panic (Inl (FnTree t))" "no_panic (Inl (FnReg g))" "no_panic (Inl ErrReservationSuperseded)"
  "no_panic (blockE r)" "no_panic (treeE t')"
  by (simp_all add: no_panic_def blockE_def treeE_def map_sum_def split: sum.split)

lemma no_panic_bind [intro]: "no_panic r \<Longrightarrow> (\<And>x. r = Inr x \<Longrightarrow> no_panic (f x)) \<Longrightarrow> no_panic (bindE r f)"
  by (cases r) (simp_all add: no_panic_def)

lemma safe_steps:
  "safe (allocSeqA b) (\<lambda>_. True)" "safe (gcA c) (\<lambda>_. True)" "safe (putA enc) (\<lambda>_. True)" "safe (pointerA X mg t) (\<lambda>_. True)"
  "safe (treeA X mg g) (\<lambda>_. True)" "safe (rowsA h) (\<lambda>_. True)"
  by (auto simp: safe_def allocSeqA_def gcA_def putA_def pointerA_def treeA_def rowsA_def txA_def readA_def blockE_def treeE_def map_sum_def
      split: prod.splits sum.splits)

section \<open>The arms of a decoded value\<close>

lemma ObjectValue_typed:
  assumes "ObjectValue_Unmarshal V d = Inr val"
  shows "vu_ManifestV0 val = None" and "vu_Manifest val = None \<longleftrightarrow> vu_Leaf val \<noteq> None"
  using assms by (auto simp: ObjectValue_Unmarshal_def bindE_eq_Inr arms_def split: if_splits option.splits)

lemma getValue_typed: "getValue V B c = Inr val \<Longrightarrow> vu_Manifest val = None \<longleftrightarrow> vu_Leaf val \<noteq> None"
  by (auto simp: getValue_def getBlockAs_def dest: ObjectValue_typed(2) split: sum.splits)

lemma no_panic_value:
  assumes "\<And>val mf. vu_Manifest val = Some mf \<Longrightarrow> vu_Leaf val = None \<Longrightarrow> no_panic (f val)" and "\<And>val l. vu_Manifest val = None \<Longrightarrow> vu_Leaf val = Some l \<Longrightarrow> no_panic (f val)"
  shows "no_panic (bindE (blockE (getValue V B c)) f)"
proof (cases "getValue V B c")
  case (Inr val)
  then show ?thesis using getValue_typed [OF Inr] assms [of val] by (cases "vu_Manifest val"; cases "vu_Leaf val") (simp_all add: blockE_def)
qed (simp add: blockE_def no_panic_def)

text \<open>A lookup in a tree.\<close>

lemma no_panic_get:
  "no_panic a \<Longrightarrow> (\<And>c. no_panic (f c)) \<Longrightarrow> no_panic (case r of Inl ErrNotFound \<Rightarrow> a | Inl e \<Rightarrow> Inl (FnTree e) | Inr c \<Rightarrow> f c)"
  by (simp split: sum.split mst_error.split)

section \<open>The write rule\<close>

lemma safe_chooseVersion: "safe (chooseVersion X tm st reserved) (\<lambda>_. True)"
  by (auto simp: chooseVersion_def split: option.split intro!: safe_seq safe_steps)

lemma safe_writeManifest: "safe (writeManifest X mf blobs) (\<lambda>_. True)"
proof -
  have "safe (txA (\<lambda>tx. blockE (BuildBlobList (tx_PutExtent (vx_values X)) refs tx))) (\<lambda>_. True)" for refs
    by (auto simp: safe_def txA_def blockE_def map_sum_def split: sum.splits)
  then show ?thesis by (auto simp: writeManifest_def split: option.split intro!: safe_seq safe_steps)
qed

lemma safe_loadPrior: "safe (loadPrior X mg t key) (\<lambda>_. True)"
  unfolding loadPrior_def
  by (rule safe_view, rule no_panic_get, simp, rule no_panic_value) (auto intro: no_panic_bind)

text \<open>A supersession has a leaf wherever it has a tree of noncurrent versions.\<close>

abbreviation with_leaf :: "supersession \<Rightarrow> bool" where
  "with_leaf u \<equiv> su_leaf u = None \<longrightarrow> su_prev u = None"

lemma safe_retainOrDiscard: "safe (retainOrDiscard X mg st p node) with_leaf"
  unfolding retainOrDiscard_def Let_def
  by (cases "pv_leaf p") (auto intro!: safe_seq safe_steps safe_view)

lemma safe_evictNull:
  assumes "with_leaf u"
  shows "safe (evictNull X mg vid u) with_leaf"
proof (cases "su_leaf u")
  case None
  then show ?thesis using assms by (auto simp: evictNull_def)
next
  case (Some l)
  have "safe (viewA X mg (\<lambda>B. case mst_Get mst_fuel (view_env (vx_deps X) B) prev k of
      Inl ErrNotFound \<Rightarrow> Inr None | Inl e \<Rightarrow> Inl (FnTree e)
    | Inr c \<Rightarrow> bindE (blockE (getManifest (vx_values X) B c)) (\<lambda>mf. bindE (blockE (bodyDigests (vx_values X) B (mf_Body mf))) (\<lambda>digests. Inr (Some (c, digests)))))) (\<lambda>_. True)" for prev k
    by (rule safe_view, rule no_panic_get) (auto intro!: no_panic_bind)
  then show ?thesis unfolding evictNull_def Some option.case Let_def
    by (auto simp: Some split: option.split intro!: safe_seq safe_steps)
qed

lemma safe_supersede: "safe (supersede X mg st prior node vid) with_leaf"
proof (cases prior)
  case (Some p)
  show ?thesis unfolding supersede_def Some option.case
    by (rule safe_bind [OF safe_retainOrDiscard], rule safe_bind [OF safe_evictNull], assumption) (auto intro!: safe_seq safe_steps safe_return)
qed (auto simp: supersede_def)

lemma safe_setPrev: "with_leaf u \<Longrightarrow> safe (setPrev X mg u) (\<lambda>_. True)"
  unfolding setPrev_def by (auto split: option.split intro!: safe_seq safe_steps)

lemma safe_pruneVersionState: "safe (pruneVersionState X mg r seq) (\<lambda>_. True)"
proof -
  have "safe (readA (\<lambda>tx. case mst_Get mst_fuel (tx_reader (vx_deps X) mg tx) t k of
      Inl ErrNotFound \<Rightarrow> Inr None | Inl e \<Rightarrow> Inl (FnTree e) | Inr c \<Rightarrow> Inr (Some c))) (\<lambda>_. True)" for t k
    by (auto simp: safe_def readA_def split: sum.split mst_error.split)
  then show ?thesis unfolding pruneVersionState_def by (auto split: option.split intro!: safe_seq safe_steps)
qed

lemma safe_pruneAll: "safe (pruneAll X mg ds r) (\<lambda>_. True)"
  by (induction ds arbitrary: r) (auto intro!: safe_seq safe_pruneVersionState)

lemma safe_maintainState: "safe (maintainState X mg node ds init leaf) (\<lambda>_. True)"
  unfolding maintainState_def stampState_def Let_def by (auto split: option.split intro!: safe_seq safe_steps safe_pruneAll)

lemma safe_writeValue: "safe (writeValue X mg t key there c leaf) (\<lambda>_. True)"
  unfolding writeValue_def by (auto split: option.split intro!: safe_seq safe_steps)

lemma safe_commitVersionFn: "safe (commitVersionFn X mg tm w st t) (\<lambda>_. True)"
  unfolding commitVersionFn_def Let_def
  apply (rule safe_seq [OF safe_chooseVersion], clarify)
  apply (rule safe_seq [OF safe_writeManifest], clarify)
  apply (rule safe_seq [OF safe_loadPrior])
  apply (rule safe_seq, force split: option.split)
  apply (rule safe_seq, force split: option.split)
  apply (rule safe_bind [OF safe_supersede])
  apply (rule safe_seq [OF safe_setPrev], assumption)
  apply (rule safe_seq [OF safe_maintainState])
  apply (rule safe_seq [OF safe_writeValue])
  apply (rule safe_seq, force split: option.split intro: safe_view)
  apply (auto intro!: safe_seq safe_steps)
  done

section \<open>The deletes\<close>

lemma safe_preconditionA: "safe (preconditionA preconds mf) (\<lambda>_. True)" "safe (evaluateA f mf) (\<lambda>_. True)"
  by (auto simp: preconditionA_def evaluateA_def split: option.split)

lemma safe_dropVersionA: "safe (dropVersionA X mg st key i mf c) (\<lambda>_. True)"
  unfolding dropVersionA_def by (auto intro!: safe_seq safe_view safe_steps)

lemma safe_spliceLeaf: "safe (spliceLeaf X mg t key leaf prev) (\<lambda>_. True)"
  unfolding spliceLeaf_def by (auto split: option.split intro!: safe_seq safe_steps)

lemma safe_deleteKeyA: "safe (deleteKeyA X mg t key) (\<lambda>_. True)"
  unfolding deleteKeyA_def by (auto intro!: safe_seq safe_steps)

lemma safe_promoteHead: "safe (promoteHead X mg t key leaf) (\<lambda>_. True)"
proof -
  have head: "safe (case lf_Prev leaf of None \<Rightarrow> returnA None | Some p \<Rightarrow> treeA X mg (\<lambda>E. prevHead E (LoadMST p))) (\<lambda>_. True)"
    by (auto split: option.split intro!: safe_steps)
  show ?thesis unfolding promoteHead_def
    by (rule safe_seq [OF head])
      (auto split: option.split intro!: safe_seq safe_view safe_steps safe_pruneVersionState safe_spliceLeaf safe_deleteKeyA)
qed

text \<open>A noncurrent version was found in a tree, so the leaf has one.\<close>

lemma safe_loadTarget: "safe (loadTarget X mg leaf kind i target) (\<lambda>r. r \<noteq> None \<longrightarrow> target \<noteq> None \<longrightarrow> lf_Prev leaf \<noteq> None)"
proof (cases target)
  case None
  then show ?thesis unfolding loadTarget_def by (auto intro!: safe_view)
next
  case (Some sq)
  show ?thesis
  proof (cases "lf_Prev leaf")
    case (Some p)
    then show ?thesis unfolding loadTarget_def \<open>target = Some sq\<close> Some option.case
      by (intro safe_view no_panic_get) (auto intro: no_panic_bind)
  qed (auto simp: loadTarget_def Some intro!: safe_view)
qed

lemma safe_removeNoncurrent: "lf_Prev leaf \<noteq> None \<Longrightarrow> safe (removeNoncurrent X mg t key leaf seq) (\<lambda>_. True)"
  by (auto simp: removeNoncurrent_def intro!: safe_seq safe_steps safe_pruneVersionState safe_spliceLeaf)

lemma safe_deleteFromLeaf: "safe (deleteFromLeaf X mg st t key kind seq i preconds valCid leaf) (\<lambda>_. True)"
proof (cases "deleteTarget leaf kind seq i")
  case (Some target)
  show ?thesis unfolding deleteFromLeaf_def Let_def Some option.case
  proof (rule safe_bind [OF safe_loadTarget])
    fix r :: "(cid \<times> ObjectManifest) option" assume r: "r \<noteq> None \<longrightarrow> target \<noteq> None \<longrightarrow> lf_Prev leaf \<noteq> None"
    have "safe (case target of None \<Rightarrow> promoteHead X mg t key leaf | Some sq \<Rightarrow> removeNoncurrent X mg t key leaf sq) (\<lambda>_. True)" if "r \<noteq> None"
      using r that safe_promoteHead safe_removeNoncurrent by (cases target) auto
    then show "safe (case r of None \<Rightarrow> returnA (cid_Undef, \<lparr> sd_found = False, sd_wasMarker = False, sd_versioning = st_Versioning st \<rparr>)
      | Some (targetCid, mf) \<Rightarrow>
          bindA (preconditionA preconds mf) (\<lambda>_. bindA (dropVersionA X mg st key (targetVersionID kind mf) mf targetCid) (\<lambda>_.
          bindA (gcA targetCid) (\<lambda>_. bindA (gcA valCid) (\<lambda>_.
          bindA (case target of None \<Rightarrow> promoteHead X mg t key leaf | Some sq \<Rightarrow> removeNoncurrent X mg t key leaf sq) (\<lambda>root.
            returnA (root, \<lparr> sd_found = False, sd_wasMarker = False, sd_versioning = st_Versioning st \<rparr>\<lparr> sd_found := True, sd_wasMarker := mf_DeleteMarker mf \<rparr>))))))) (\<lambda>_. True)"
      by (cases r) (auto intro!: safe_seq safe_preconditionA safe_dropVersionA safe_steps)
  qed
qed (auto simp: deleteFromLeaf_def)

lemma safe_deleteFromManifest: "safe (deleteFromManifest X mg st t key kind i preconds c mf) (\<lambda>_. True)"
  unfolding deleteFromManifest_def Let_def by (auto intro!: safe_seq safe_preconditionA safe_dropVersionA safe_deleteKeyA safe_steps)

lemma safe_lookupValue: "safe (lookupValue X mg t key) (\<lambda>r. \<forall>c val. r = Some (c, val) \<longrightarrow> (vu_Manifest val = None \<longleftrightarrow> vu_Leaf val \<noteq> None))"
  unfolding lookupValue_def
proof (rule safe_view)
  show "no_panic (case mst_Get mst_fuel (view_env (vx_deps X) B) t key of Inl ErrNotFound \<Rightarrow> Inr None | Inl e \<Rightarrow> Inl (FnTree e)
      | Inr c \<Rightarrow> bindE (blockE (getValue (vx_values X) B c)) (\<lambda>val. Inr (Some (c, val))))" for B
    by (rule no_panic_get) auto
  show "\<forall>c val. r = Some (c, val) \<longrightarrow> (vu_Manifest val = None \<longleftrightarrow> vu_Leaf val \<noteq> None)"
    if "(case mst_Get mst_fuel (view_env (vx_deps X) B) t key of Inl ErrNotFound \<Rightarrow> Inr None | Inl e \<Rightarrow> Inl (FnTree e)
      | Inr c \<Rightarrow> bindE (blockE (getValue (vx_values X) B c)) (\<lambda>val. Inr (Some (c, val)))) = Inr r" for B r
    using that getValue_typed by (auto simp: bindE_eq_Inr blockE_def map_sum_def split: sum.splits mst_error.splits)
qed

lemma safe_deleteVersionFn: "safe (deleteVersionFn X mg key kind seq i preconds st t) (\<lambda>_. True)"
  unfolding deleteVersionFn_def Let_def
  by (auto intro!: safe_bind [OF safe_lookupValue] safe_deleteFromManifest safe_deleteFromLeaf split: option.split)

lemma safe_deleteObjectKeyFn: "safe (deleteObjectKeyFn X mg key preconds st t) (\<lambda>_. True)"
proof -
  have arm: "safe (case (vu_Leaf val, vu_Manifest val) of
       (Some leaf, _) \<Rightarrow> bindA (viewA X mg (\<lambda>B. blockE (getManifest (vx_values X) B (vn_Manifest (lf_Current leaf))))) (\<lambda>mf. returnA (mf, vn_Manifest (lf_Current leaf)))
     | (None, Some mf) \<Rightarrow> returnA (mf, c)
     | (None, None) \<Rightarrow> liftA (Inl (FnPanic ''nil manifest''))) (\<lambda>_. True)" if "vu_Manifest val = None \<longleftrightarrow> vu_Leaf val \<noteq> None" for val c
    using that by (cases "vu_Leaf val"; cases "vu_Manifest val") (auto intro!: safe_seq safe_view)
  show ?thesis unfolding deleteObjectKeyFn_def
    apply (cases "cid_Defined (st_Root st)"; simp only: simp_thms if_False if_True)
    subgoal
      apply (rule safe_bind [OF safe_lookupValue])
      subgoal for r
        apply (cases r; simp only: option.case)
        subgoal by auto
        subgoal for cv
          apply (cases cv; simp only: prod.case)
          apply (rule safe_seq [OF arm [unfolded prod.case]], blast, clarify)
          apply (rule safe_seq, force split: option.split intro: safe_preconditionA)
          apply (rule safe_seq [OF safe_steps(5)])
          apply (rule safe_seq, force split: option.split intro: safe_steps)
          apply (auto intro!: safe_seq safe_dropVersionA safe_steps)
          done
        done
      done
    subgoal by auto
    done
qed

section \<open>Resolution\<close>

lemma no_panic_seek: "no_panic (seekPrev X B leaf gone seq)"
  unfolding seekPrev_def by (auto split: option.split sum.split mst_error.split)

lemma no_panic_locate: "no_panic (locateVersion X B leaf kind seq i gone)"
  by (auto simp: locateVersion_def no_panic_seek split: versionIDKind.split)

lemma no_panic_if: "no_panic a \<Longrightarrow> no_panic b \<Longrightarrow> no_panic (if c then a else b)"
  by simp

lemma no_panic_resolveIn: "no_panic (resolveVersionIn X B st key i)"
proof -
  obtain kind seq where k: "classifyVersionID X i = (kind, seq)" by fastforce
  show ?thesis unfolding resolveVersionIn_def k Let_def prod.case
    by (rule no_panic_if, simp, rule no_panic_if, simp, rule no_panic_get, simp, rule no_panic_value) (auto intro!: no_panic_bind no_panic_locate)
qed

section \<open>Properties\<close>

text \<open>C18. Type safety of the version code. Whatever the stores hold and the codecs answer, a decoded value block is exactly
  one of a manifest and a leaf, and no path of the resolution, the write rule or the deletes dereferences a nil
  manifest, a nil leaf or the nil root of a tree of noncurrent versions.\<close>

theorem versions_never_nil:
  "(case ObjectValue_Unmarshal V d of Inl _ \<Rightarrow> True | Inr val \<Rightarrow> vu_ManifestV0 val = None \<and> (vu_Manifest val = None \<longleftrightarrow> vu_Leaf val \<noteq> None))
   \<and> resolveVersion X lg bucket key i \<noteq> Inl (FnPanic p)
   \<and> snd (commitVersionFn X mg tm w st t s) \<noteq> Inl (FnPanic p)
   \<and> snd (deleteVersionFn X mg key kind seq i preconds st t s) \<noteq> Inl (FnPanic p)
   \<and> snd (deleteObjectKeyFn X mg key preconds st t s) \<noteq> Inl (FnPanic p)"
proof (intro conjI)
  show "case ObjectValue_Unmarshal V d of Inl _ \<Rightarrow> True | Inr val \<Rightarrow> vu_ManifestV0 val = None \<and> (vu_Manifest val = None \<longleftrightarrow> vu_Leaf val \<noteq> None)"
    using ObjectValue_typed by (auto split: sum.split)
  show "resolveVersion X lg bucket key i \<noteq> Inl (FnPanic p)"
    using no_panic_resolveIn by (auto simp: resolveVersion_def no_panic_def split: sum.splits registry_error.splits)
qed (use safe_commitVersionFn safe_deleteVersionFn safe_deleteObjectKeyFn in \<open>simp_all add: safe_def\<close>)

end
