(* ===== verification/Spec2Isabelle.thy ===== *)
theory Spec2Isabelle
  imports Bucket_Serial Mst_Diff S3_PartTree S3_VersionDelete S3_VersionSafe
begin

text \<open>
  \<^bold>\<open>Ingot: an S3 gateway over content-addressed storage\<close>

  Ingot keeps each bucket as a Merkle search tree whose nodes are blocks named by their hash. A write
  loads the tree from the bucket's root, changes it, appends the new nodes to a local log, and
  publishes the new root by a compare-and-set on the registry; a background flusher ships the log's
  segments to the network. This development models, from the sources under \<open>src/\<close>:

  \<^item> \<^bold>\<open>The tree\<close> (\<open>src/mst/mst.go\<close>, \<open>src/mst/mst_util.go\<close>). \<open>Mst\<close> holds the data and every operation, with
    the reader of stored nodes and SHA-256 as parameters. \<open>Mst_Correct\<close>, \<open>Mst_Ops\<close>, \<open>Mst_Write\<close> and
    \<open>Mst_Remove\<close> prove each operation against the sorted list of pairs a tree denotes; \<open>Mst_Index\<close>
    states the results, among them that the tree refines a finite map. \<open>Op_Staging\<close>
    (\<open>src/blockstore/staging.go\<close>) and \<open>Mst_Persist\<close> model the write-back of a tree, and \<open>Mst_Canon\<close>
    shows that it can be read back and that its name depends on the contents alone. \<open>Mst_Diff\<close>
    (\<open>src/mst/diff.go\<close>) is the difference of two stored trees.
    Recursion into subtrees has fuel \<open>mst_fuel = 130\<close>: a layer is a number of leading zero bit pairs of a
    32-byte digest, at most 128, and every recursion goes down a layer.
  \<^item> \<^bold>\<open>The registry\<close> (\<open>src/registry\<close> row types, \<open>src/inmem/store.go\<close>, \<open>src/inmem/stores.go\<close>). \<open>Mem_State\<close>
    has the rows and the state, \<open>Mem_Registry\<close> buckets, claims, releases and root commits,
    \<open>Mem_Blobs\<close> intents, eviction, locations and parks, \<open>Mem_Multipart\<close> upload sessions,
    \<open>Mem_Outbox\<close> the upload registrations, \<open>Mem_Segments\<close> the log's metadata. \<open>Mem_Claims\<close> proves what a
    root commit does to the reference index; \<open>Mem_Reach\<close> and \<open>Mem_Inv\<close> take all operations together as
    a step relation and prove the invariants of the reachable states.
  \<^item> \<^bold>\<open>The log\<close> (\<open>src/cars\<close>, \<open>src/logstore\<close>). \<open>Car_Codec\<close> is the CAR writer and the recovering
    scanner, \<open>Ops_Codec\<close> the codec of the op-root sidecar, \<open>Log_Segment\<close> a segment over its files, and
    \<open>Log_Durable\<close> what it promises: an acknowledged block is served, and survives a crash. \<open>Log_Dead\<close> is
    the dead-byte measurement, \<open>Log_Plane\<close> a bucket's log over its segments (append, seal, ship,
    retry, retention), \<open>Log_NoLoss\<close> its reachable states and that none loses an acknowledged block.
    \<open>Log_Recover\<close> is the start over what the directory, the rows and the journal hold, \<open>Log_Restart\<close> that it
    serves again what was acknowledged; \<open>Log_Manager\<close> the logs of all buckets, \<open>Log_Frame\<close> what they leave
    alone in the registry. Files are byte lists; every I/O call that can fail takes its outcome as an
    argument. Reading a lost segment's journal pages has fuel \<open>lost_fuel\<close>, one round per journaled row and one
    more: each full page moves past at least one row.
  \<^item> \<^bold>\<open>Transactions\<close> (\<open>src/blockstore/layered.go\<close>, \<open>src/bucketop/bucketop.go\<close>). \<open>Block_Read\<close> is the read order
    (local copies, log, network), with the interface a reader needs of the log as the locale \<open>block_log\<close>,
    interpreted on the manager. \<open>Bucket_Tx\<close> is the coordinator with its locks, transactions, commit and
    discard. \<open>Bucket_Commit\<close> composes tree, staging, log, registry and reads: a committed change of the tree
    is what every later reader sees, and no other bucket changes. \<open>Bucket_Serial\<close> interleaves the
    transactions of one coordinator with everything else the registry does and shows that the lock keeps
    the snapshot a commit swaps against.
  \<^item> \<^bold>\<open>The object digest\<close> (\<open>src/blake3tree/blake3tree.go\<close>, \<open>src/s3frontend/multiparttree.go\<close>). \<open>Blake3_Tree\<close> is the
    streaming hasher, with the compression functions as parameters; \<open>Blake3_Stack\<close> defines the BLAKE3
    tree of a body and what the hasher's stack holds of it, \<open>Blake3_Hash\<close> shows that the hasher computes the
    tree. \<open>Blake3_Assemble\<close> and \<open>Blake3_Parts\<close> are the assembly from ranges hashed apart, \<open>Blake3_Outboard\<close> the
    outboard, range verification and stored subtrees, and \<open>S3_PartTree\<close> the trees of multipart uploads. Bodies
    are below \<open>2 ^ 62\<close> bytes. The verification loop has the number of bytes to read as fuel: every round
    reads one at least.
  \<^item> \<^bold>\<open>Objects\<close> (\<open>src/bucket/blobs.go\<close>, \<open>manifest.go\<close>, \<open>manifest_v0.go\<close>, \<open>leaf.go\<close>; \<open>src/s3frontend/version.go\<close>, with parts
    of \<open>object.go\<close> and \<open>conditions.go\<close>). \<open>Blob_List\<close> is the blob list of a body, cut into an inline head and extent
    blocks, and the index that reads it back. \<open>Bucket_Value\<close> has the manifests, the leaves and the strict
    codecs of the value blocks. \<open>S3_Version\<close> has the version ids, the resolution of a version, the write
    rule, the scoped delete and the delete of a key, as closures run in a transaction; \<open>S3_VersionSafe\<close> shows
    that none of them dereferences a nil value, whatever is stored. \<open>S3_VersionId\<close> has the order of the
    keys of noncurrent versions. \<open>S3_VersionSpec\<close> is the specification, a key's history of versions, newest first,
    with the relation between a history and the blocks that stand for it, and shows that resolution is a lookup
    in the history. \<open>S3_VersionAct\<close> has the rules by which the steps of a closure compose, \<open>S3_VersionWrite\<close> and
    \<open>S3_VersionCommit\<close> prove the write rule by them, \<open>S3_VersionTx\<close> takes a closure through its transaction: the
    bucket's histories change as specified, those of the other buckets stay, and the reference index holds
    exactly the claims of the versions there are. \<open>S3_VersionDelete\<close> does the same for the scoped delete. The delete
    of a key in an unversioned bucket is modelled and never meets a nil value; its effect on the index is not proved.

  Go's maps are association lists without duplicate keys (\<open>gomap\<close> in \<open>Ingot_Prelude\<close>), errors are sums,
  panics are error values of their own, and 64-bit numbers carry their bounds where a wrap could show.
  A method that reads the clock takes the reading as an argument.

  \<^bold>\<open>Not modelled.\<close> The Postgres registry is SQL run by the database; the in-memory store implements the same
  interfaces. The Forge client, uploader, authentication and key services are network protocols. The CBOR
  codecs are generated; they appear as parameters. The rest of the S3 front end streams bodies, spools,
  encrypts, pages listings and shapes responses. The daemon's wiring is configuration.
\<close>

end
